(* ===== verification/Prelude.thy ===== *)
theory Prelude
  imports Main "HOL-Library.Monad_Syntax" "HOL-Library.Multiset" "HOL-Library.Signed_Division"
begin

text \<open>
  Shared vocabulary of the development.

  The C++ sources work on objects reached through raw pointers.  A pointer is a value of
  the type \<open>ptr\<close> below, a heap is a partial map from pointers to cells, and every field access
  \<open>p->f\<close> and every assignment \<open>p->f = v\<close> of the sources is one call of \<open>rd\<close> or \<open>wr\<close>.
  Both are \<^const>\<open>None\<close> on the null pointer and on a pointer to an object that is not
  allocated, so undefined behaviour of the source is the value \<^const>\<open>None\<close> of the model, and a
  theorem \<open>\<exists>r. f x = Some r\<close> says that the code reaches its end without it.

  The theory also holds the two collections of simplification rules the components fill:
  \<open>heap_simps\<close> (reading and writing cells) and \<open>shape_simps\<close> (facts about shapes of linked
  structures).
\<close>

named_theorems heap_simps "reading and writing cells of a heap"
named_theorems shape_simps "decomposition of linked structures"

datatype ptr = NULL | Ptr nat

type_synonym 'n heap = "ptr \<Rightarrow> 'n option"

definition rd :: "('n \<Rightarrow> 'f) \<Rightarrow> 'n heap \<Rightarrow> ptr \<Rightarrow> 'f option" where
  "rd f h p = (if p = NULL then None else map_option f (h p))"

definition wr :: "('n \<Rightarrow> 'n) \<Rightarrow> 'n heap \<Rightarrow> ptr \<Rightarrow> 'n heap option" where
  "wr u h p = (if p = NULL then None
     else case h p of None \<Rightarrow> None | Some n \<Rightarrow> Some (h(p \<mapsto> u n)))"

definition free :: "'n heap \<Rightarrow> ptr \<Rightarrow> 'n heap option" where
  "free h p = (if p = NULL then Some h
     else case h p of None \<Rightarrow> None | Some n \<Rightarrow> Some (h(p := None)))"

lemma rd_Some [heap_simps]: "p \<noteq> NULL \<Longrightarrow> h p = Some n \<Longrightarrow> rd f h p = Some (f n)"
  by (simp add: rd_def)

lemma wr_Some [heap_simps]: "p \<noteq> NULL \<Longrightarrow> h p = Some n \<Longrightarrow> wr u h p = Some (h(p \<mapsto> u n))"
  by (simp add: wr_def)

lemma free_Some [heap_simps]: "p \<noteq> NULL \<Longrightarrow> h p = Some n \<Longrightarrow> free h p = Some (h(p := None))"
  by (simp add: free_def)

text \<open>Running a block of \<open>rd\<close> and \<open>wr\<close> whose steps are known.\<close>

lemmas run_simps = Option.bind.bind_lunit prod.case if_True if_False

lemma rd_NULL [simp]: "rd f h NULL = None"
  by (simp add: rd_def)

lemma wr_NULL [simp]: "wr u h NULL = None"
  by (simp add: wr_def)

lemma free_NULL [simp]: "free h NULL = Some h"
  by (simp add: free_def)

lemma wr_dom: "wr u h p = Some h' \<Longrightarrow> dom h' = dom h"
  by (auto simp: wr_def split: if_splits option.splits)

lemma free_dom: "free h p = Some h' \<Longrightarrow> p \<noteq> NULL \<Longrightarrow> dom h' = dom h - {p}"
  by (auto simp: free_def split: if_splits option.splits)

text \<open>Inserting into a list that is sorted by a key, after the elements with an equal key.\<close>

lemma sorted_split_insert:
  assumes "sorted (map f xs)" and "f e = k"
  shows "sorted (map f (filter (\<lambda>x. f x \<le> k) xs @ e # filter (\<lambda>x. k < f x) xs))"
  using sorted_filter [OF assms(1)] assms(2) by (force simp: sorted_append)

text \<open>An element of an array: a read or write outside the bounds is undefined.\<close>

definition arr_get :: "'a list \<Rightarrow> int \<Rightarrow> 'a option" where
  "arr_get a i = (if 0 \<le> i \<and> i < int (length a) then Some (a ! nat i) else None)"

definition arr_set :: "'a list \<Rightarrow> int \<Rightarrow> 'a \<Rightarrow> 'a list option" where
  "arr_set a i v = (if 0 \<le> i \<and> i < int (length a) then Some (a[nat i := v]) else None)"

lemma arr_get_nat [heap_simps]: "i < length a \<Longrightarrow> arr_get a (int i) = Some (a ! i)"
  by (simp add: arr_get_def)

lemma arr_set_nat [heap_simps]: "i < length a \<Longrightarrow> arr_set a (int i) v = Some (a[i := v])"
  by (simp add: arr_set_def)

text \<open>C++ division and remainder truncate; on non-negative numbers they are \<open>div\<close> and \<open>mod\<close>.\<close>

lemma smod_pos: "0 \<le> a \<Longrightarrow> 0 < b \<Longrightarrow> (a::int) smod b = a mod b"
  by (simp add: signed_modulo_int_def sgn_if)

lemma sdiv_pos: "0 \<le> a \<Longrightarrow> 0 < b \<Longrightarrow> (a::int) sdiv b = a div b"
  by (simp add: signed_divide_int_def sgn_if)

text \<open>How many elements of an indexed list satisfy a predicate, after an update.\<close>

definition occ :: "('a \<Rightarrow> bool) \<Rightarrow> 'a list \<Rightarrow> nat" where
  "occ P xs = length (filter P xs)"

lemma occ_update:
  assumes "i < length xs"
  shows "occ P (xs[i := x]) + (if P (xs ! i) then 1 else 0) = occ P xs + (if P x then 1 else 0)"
proof -
  have "xs = take i xs @ xs ! i # drop (Suc i) xs" using assms by (simp add: id_take_nth_drop)
  then have "occ P xs = occ P (take i xs @ xs ! i # drop (Suc i) xs)" by simp
  then show ?thesis using assms by (simp add: occ_def upd_conv_take_nth_drop)
qed

lemma occ_replicate: "occ P (replicate n x) = (if P x then n else 0)"
  by (simp add: occ_def)

end
