(* ===== verification/PtrTree.thy ===== *)
theory PtrTree
  imports Prelude
begin

text \<open>
  Binary trees laid out in a heap with parent pointers, as the two tree files of the
  directory algorithm use them, independent of what a node carries.

  \<open>'p atree\<close> is a tree whose nodes show their address and their payload.  \<open>tree_in mk h q t\<close>
  says that the heap \<open>h\<close> holds \<open>t\<close>, that the parent pointer of its root is \<open>q\<close>, and that the
  cells are built by \<open>mk payload left right parent\<close>.  A position in a tree is a context, the list
  of \<open>crumb\<close>s from the position up to the root; \<open>plug cs t\<close> is the whole tree.  All pointer
  programs are verified at a focus \<open>t\<close> in a context \<open>cs\<close>, so that the part of the heap they do
  not touch is framed by the lemmas of this theory.

  The locale \<open>node_layout\<close> is the interface between these shapes and a node type: the selectors
  of the node read back what \<open>mk\<close> stored.  \<open>search_walk\<close>, \<open>left_walk\<close> and \<open>right_walk\<close> extend it
  with a pointer routine that obeys the recursion equation of a search or of a descent, and prove
  once what such a routine returns; the tree theories interpret them for each routine of the
  code.
\<close>

text \<open>A reference to a pointer: to the root field of a tree object or to a child field of a node.\<close>

datatype ptr_ref = RootRef | LeftRef ptr | RightRef ptr

fun ref_nodes :: "ptr_ref \<Rightarrow> ptr set" where
  "ref_nodes RootRef = {}"
| "ref_nodes (LeftRef p) = {p}"
| "ref_nodes (RightRef p) = {p}"

datatype 'p atree = Lf | Nd "'p atree" ptr 'p "'p atree"

datatype 'p crumb = LC ptr 'p "'p atree" | RC "'p atree" ptr 'p

fun rp :: "'p atree \<Rightarrow> ptr" where
  "rp Lf = NULL"
| "rp (Nd l a p r) = a"

fun addrs :: "'p atree \<Rightarrow> ptr list" where
  "addrs Lf = []"
| "addrs (Nd l a p r) = addrs l @ a # addrs r"

fun pays :: "'p atree \<Rightarrow> 'p list" where
  "pays Lf = []"
| "pays (Nd l a p r) = pays l @ p # pays r"

fun cp :: "'p crumb list \<Rightarrow> ptr" where
  "cp [] = NULL"
| "cp (LC a p r # cs) = a"
| "cp (RC l a p # cs) = a"

fun plug :: "'p crumb list \<Rightarrow> 'p atree \<Rightarrow> 'p atree" where
  "plug [] t = t"
| "plug (LC a p r # cs) t = plug cs (Nd t a p r)"
| "plug (RC l a p # cs) t = plug cs (Nd l a p t)"

fun caddrs :: "'p crumb list \<Rightarrow> ptr list" where
  "caddrs [] = []"
| "caddrs (LC a p r # cs) = a # addrs r @ caddrs cs"
| "caddrs (RC l a p # cs) = a # addrs l @ caddrs cs"

text \<open>What stands before and after a position in the inorder sequence of the whole tree.\<close>

fun items :: "'p atree \<Rightarrow> (ptr \<times> 'p) list" where
  "items Lf = []"
| "items (Nd l a p r) = items l @ (a, p) # items r"

fun cleft :: "'p crumb list \<Rightarrow> (ptr \<times> 'p) list" where
  "cleft [] = []"
| "cleft (LC a p r # cs) = cleft cs"
| "cleft (RC l a p # cs) = cleft cs @ items l @ [(a, p)]"

fun cright :: "'p crumb list \<Rightarrow> (ptr \<times> 'p) list" where
  "cright [] = []"
| "cright (LC a p r # cs) = (a, p) # items r @ cright cs"
| "cright (RC l a p # cs) = cright cs"

fun tree_in :: "('p \<Rightarrow> ptr \<Rightarrow> ptr \<Rightarrow> ptr \<Rightarrow> 'n) \<Rightarrow> 'n heap \<Rightarrow> ptr \<Rightarrow> 'p atree \<Rightarrow> bool" where
  "tree_in mk h q Lf = True"
| "tree_in mk h q (Nd l a p r) =
     (a \<noteq> NULL \<and> h a = Some (mk p (rp l) (rp r) q) \<and> tree_in mk h a l \<and> tree_in mk h a r)"

fun ctx_in :: "('p \<Rightarrow> ptr \<Rightarrow> ptr \<Rightarrow> ptr \<Rightarrow> 'n) \<Rightarrow> 'n heap \<Rightarrow> ptr \<Rightarrow> 'p crumb list \<Rightarrow> bool" where
  "ctx_in mk h f [] = True"
| "ctx_in mk h f (LC a p r # cs) =
     (a \<noteq> NULL \<and> h a = Some (mk p f (rp r) (cp cs)) \<and> tree_in mk h a r \<and> ctx_in mk h a cs)"
| "ctx_in mk h f (RC l a p # cs) =
     (a \<noteq> NULL \<and> h a = Some (mk p (rp l) f (cp cs)) \<and> tree_in mk h a l \<and> ctx_in mk h a cs)"

lemma tree_in_plug [shape_simps]:
  "tree_in mk h NULL (plug cs t) \<longleftrightarrow> tree_in mk h (cp cs) t \<and> ctx_in mk h (rp t) cs"
proof (induction cs arbitrary: t)
  case Nil
  then show ?case by simp
next
  case (Cons c cs)
  then show ?case by (cases c) auto
qed

text \<open>The same for a subtree whose root has the parent pointer \<open>q\<close>.\<close>

definition cpq :: "ptr \<Rightarrow> 'p crumb list \<Rightarrow> ptr" where
  "cpq q cs = (if cs = [] then q else cp cs)"

fun seg_in :: "('p \<Rightarrow> ptr \<Rightarrow> ptr \<Rightarrow> ptr \<Rightarrow> 'n) \<Rightarrow> 'n heap \<Rightarrow> ptr \<Rightarrow> ptr \<Rightarrow> 'p crumb list \<Rightarrow> bool" where
  "seg_in mk h q f [] = True"
| "seg_in mk h q f (LC a p r # cs) =
     (a \<noteq> NULL \<and> h a = Some (mk p f (rp r) (cpq q cs)) \<and> tree_in mk h a r \<and> seg_in mk h q a cs)"
| "seg_in mk h q f (RC l a p # cs) =
     (a \<noteq> NULL \<and> h a = Some (mk p (rp l) f (cpq q cs)) \<and> tree_in mk h a l \<and> seg_in mk h q a cs)"

lemma tree_in_plug_seg:
  "tree_in mk h q (plug cs t) \<longleftrightarrow> tree_in mk h (cpq q cs) t \<and> seg_in mk h q (rp t) cs"
proof (induction cs arbitrary: t)
  case Nil
  then show ?case by (simp add: cpq_def)
next
  case (Cons c cs)
  then show ?case by (cases c) (auto simp: cpq_def)
qed

lemma items_plug [shape_simps]: "items (plug cs t) = cleft cs @ items t @ cright cs"
  by (induction cs t rule: plug.induct) auto

lemma addrs_items: "addrs t = map fst (items t)"
  by (induction t) auto

lemma tree_in_sub: "tree_in mk h q (plug cs u) \<Longrightarrow> \<exists>q. tree_in mk h q u"
proof (induction cs arbitrary: u)
  case Nil
  then show ?case by auto
next
  case (Cons c cs)
  then show ?case by (cases c) fastforce+
qed

lemma pays_items: "pays t = map snd (items t)"
  by (induction t) auto

lemma plug_append [shape_simps]: "plug (es @ fs) t = plug fs (plug es t)"
  by (induction es t rule: plug.induct) auto

lemma mset_addrs_plug: "mset (addrs (plug cs t)) = mset (addrs t @ caddrs cs)"
  by (induction cs t rule: plug.induct) auto

lemma set_addrs_plug [shape_simps]: "set (addrs (plug cs t)) = set (addrs t) \<union> set (caddrs cs)"
  by (metis mset_addrs_plug mset_eq_setD set_append)

lemma distinct_addrs_plug [shape_simps]:
  "distinct (addrs (plug cs t)) \<longleftrightarrow>
     distinct (addrs t) \<and> distinct (caddrs cs) \<and> set (addrs t) \<inter> set (caddrs cs) = {}"
  by (metis mset_addrs_plug mset_eq_imp_distinct_iff distinct_append)

lemma rp_plug_any: "cs \<noteq> [] \<Longrightarrow> rp (plug cs t) = rp (plug cs u)"
proof (induction cs arbitrary: t u)
  case (Cons c cs)
  then show ?case by (cases c; cases "cs = []") auto
qed simp

lemma rp_plug_cong: "rp t = rp u \<Longrightarrow> rp (plug cs t) = rp (plug cs u)"
  by (cases "cs = []") (auto intro: rp_plug_any)

lemma tree_in_not_NULL: "tree_in mk h q t \<Longrightarrow> NULL \<notin> set (addrs t)"
  by (induction t arbitrary: q) auto

lemma ctx_in_not_NULL: "ctx_in mk h f cs \<Longrightarrow> NULL \<notin> set (caddrs cs)"
  by (induction cs arbitrary: f rule: caddrs.induct) (auto dest: tree_in_not_NULL)

lemma tree_in_dom: "tree_in mk h q t \<Longrightarrow> set (addrs t) \<subseteq> dom h"
  by (induction t arbitrary: q) (auto, blast)

lemma tree_in_frame [shape_simps]:
  "a \<notin> set (addrs t) \<Longrightarrow> tree_in mk (h(a := x)) q t = tree_in mk h q t"
  by (induction t arbitrary: q) auto

lemma ctx_in_frame [shape_simps]:
  "a \<notin> set (caddrs cs) \<Longrightarrow> ctx_in mk (h(a := x)) f cs = ctx_in mk h f cs"
  by (induction cs arbitrary: f rule: caddrs.induct) (auto simp: shape_simps)

lemma tree_in_cong:
  "(\<And>a. a \<in> set (addrs t) \<Longrightarrow> h' a = h a) \<Longrightarrow> tree_in mk h' q t = tree_in mk h q t"
  by (induction t arbitrary: q) auto

lemma ctx_in_cong:
  "(\<And>a. a \<in> set (caddrs cs) \<Longrightarrow> h' a = h a) \<Longrightarrow> ctx_in mk h' f cs = ctx_in mk h f cs"
proof (induction cs arbitrary: f rule: caddrs.induct)
  case (2 a p r cs)
  then show ?case using tree_in_cong [of r h' h] by simp
next
  case (3 l a p cs)
  then show ?case using tree_in_cong [of l h' h] by simp
qed simp

lemma tree_in_agree:
  "tree_in mk h q t \<Longrightarrow> (\<And>a. a \<notin> S \<Longrightarrow> h' a = h a) \<Longrightarrow> S \<inter> set (addrs t) = {} \<Longrightarrow>
   tree_in mk h' q t"
  using tree_in_cong [of t h' h mk q] by blast

lemma ctx_in_agree:
  "ctx_in mk h f cs \<Longrightarrow> (\<And>a. a \<notin> S \<Longrightarrow> h' a = h a) \<Longrightarrow> S \<inter> set (caddrs cs) = {} \<Longrightarrow>
   ctx_in mk h' f cs"
  using ctx_in_cong [of cs h' h mk f] by blast

lemma seg_in_cong:
  "(\<And>a. a \<in> set (caddrs cs) \<Longrightarrow> h' a = h a) \<Longrightarrow> seg_in mk h' q f cs = seg_in mk h q f cs"
proof (induction cs arbitrary: f rule: caddrs.induct)
  case (2 a p r cs)
  then show ?case using tree_in_cong [of r h' h] by simp
next
  case (3 l a p cs)
  then show ?case using tree_in_cong [of l h' h] by simp
qed simp

lemma seg_in_agree:
  "seg_in mk h q f cs \<Longrightarrow> (\<And>a. a \<notin> S \<Longrightarrow> h' a = h a) \<Longrightarrow> S \<inter> set (caddrs cs) = {} \<Longrightarrow>
   seg_in mk h' q f cs"
  using seg_in_cong [of cs h' h mk q f] by blast

lemma rp_in_addrs: "rp t \<noteq> NULL \<Longrightarrow> rp t \<in> set (addrs t)"
  by (cases t) auto

lemma rp_eqD: "rp t = x \<Longrightarrow> x \<noteq> NULL \<Longrightarrow> x \<in> set (addrs t)"
  using rp_in_addrs by metis

lemma rp_eqD2: "x = rp t \<Longrightarrow> x \<noteq> NULL \<Longrightarrow> x \<in> set (addrs t)"
  using rp_in_addrs by metis

lemma rp_eq_NULL: "tree_in mk h q t \<Longrightarrow> rp t = NULL \<longleftrightarrow> t = Lf"
  by (cases t) auto

lemma rp_notin: "a \<noteq> NULL \<Longrightarrow> a \<notin> set (addrs t) \<Longrightarrow> rp t \<noteq> a"
  using rp_in_addrs by metis

lemma cp_in_caddrs: "cs \<noteq> [] \<Longrightarrow> cp cs \<in> set (caddrs cs)"
  by (cases cs rule: cp.cases) auto

lemma rp_plug_in: "cs \<noteq> [] \<Longrightarrow> rp (plug cs t) \<in> set (caddrs cs)"
proof (induction cs t rule: plug.induct)
  case (2 a p r cs t)
  then show ?case by (cases "cs = []") auto
next
  case (3 l a p cs t)
  then show ?case by (cases "cs = []") auto
qed simp

text \<open>A whole tree in a heap: the root pointer, the cells, and what else is allocated.\<close>

definition repr :: "('p \<Rightarrow> ptr \<Rightarrow> ptr \<Rightarrow> ptr \<Rightarrow> 'n) \<Rightarrow> ptr set \<Rightarrow> 'n heap \<Rightarrow> ptr \<Rightarrow> 'p atree \<Rightarrow> bool" where
  "repr mk G h root t \<longleftrightarrow> root = rp t \<and> tree_in mk h NULL t \<and> distinct (addrs t)
     \<and> dom h = set (addrs t) \<union> G \<and> G \<inter> set (addrs t) = {}"

lemma repr_root_at: "repr mk G h root (plug cs t) \<Longrightarrow> rp t \<noteq> NULL \<Longrightarrow> rp t = root \<longleftrightarrow> cs = []"
  unfolding repr_def
  by (metis (no_types, lifting) disjoint_iff distinct_addrs_plug plug.simps(1) rp_in_addrs rp_plug_in)

lemma repr_root_NULL: "repr mk G h root (plug cs t) \<Longrightarrow> rp t = NULL \<Longrightarrow> rp t = root \<longleftrightarrow> cs = []"
  unfolding repr_def
  by (metis ctx_in_not_NULL plug.simps(1) rp_plug_in tree_in_plug)

lemma repr_root_iff: "repr mk G h root (plug cs t) \<Longrightarrow> rp t = root \<longleftrightarrow> cs = []"
  using repr_root_at repr_root_NULL by blast

subsection \<open>Node types\<close>

fun find :: "('p \<Rightarrow> 'k::linorder) \<Rightarrow> 'k \<Rightarrow> 'p atree \<Rightarrow> 'p atree" where
  "find kp k Lf = Lf"
| "find kp k (Nd l a p r) =
     (if kp p = k then Nd l a p r else if k < kp p then find kp k l else find kp k r)"

fun leftmost :: "'p atree \<Rightarrow> ptr" where
  "leftmost Lf = NULL"
| "leftmost (Nd l a p r) = (if l = Lf then a else leftmost l)"

fun rightmost :: "'p atree \<Rightarrow> ptr" where
  "rightmost Lf = NULL"
| "rightmost (Nd l a p r) = (if r = Lf then a else rightmost r)"

abbreviation keys_of :: "('p \<Rightarrow> 'k) \<Rightarrow> 'p atree \<Rightarrow> 'k list" where
  "keys_of kp t \<equiv> map kp (pays t)"

abbreviation fst_ptr :: "(ptr \<times> 'p) list \<Rightarrow> ptr" where
  "fst_ptr xs \<equiv> (case xs of [] \<Rightarrow> NULL | x # _ \<Rightarrow> fst x)"

abbreviation last_ptr :: "(ptr \<times> 'p) list \<Rightarrow> ptr" where
  "last_ptr xs \<equiv> (if xs = [] then NULL else fst (last xs))"

lemma items_Nil [simp]: "items t = [] \<longleftrightarrow> t = Lf"
  by (cases t) auto

lemma leftmost_items: "leftmost t = fst_ptr (items t)"
  by (induction t) (auto split: list.splits)

lemma rightmost_items: "rightmost t = last_ptr (items t)"
  by (induction t) auto

lemma find_Lf_iff:
  "sorted (keys_of kp t) \<Longrightarrow> find kp k t = Lf \<longleftrightarrow> k \<notin> set (keys_of kp t)"
  by (induction t) (auto simp: sorted_append)

lemma find_key: "find kp k t = Nd l a p r \<Longrightarrow> kp p = k"
  by (induction t) (auto split: if_splits)

lemma find_plug: "\<exists>cs. t = plug cs (find kp k t)"
proof (induction t)
  case Lf
  then show ?case by (metis find.simps(1) plug.simps(1))
next
  case (Nd l a p r)
  from Nd.IH obtain cs ds where l: "l = plug cs (find kp k l)" and r: "r = plug ds (find kp k r)"
    by blast
  have "Nd l a p r = plug (cs @ [LC a p r]) (find kp k l)"
    "Nd l a p r = plug (ds @ [RC l a p]) (find kp k r)"
    using l r by (simp_all add: plug_append)
  then show ?case by (metis find.simps(2) plug.simps(1))
qed

lemma at_address: "a \<in> set (addrs t) \<Longrightarrow> \<exists>cs l p r. t = plug cs (Nd l a p r)"
proof (induction t)
  case (Nd l b p r)
  consider "a = b" | "a \<in> set (addrs l)" | "a \<in> set (addrs r)" using Nd.prems by auto
  then show ?case
  proof cases
    case 1
    then show ?thesis by (intro exI [of _ "[]"]) simp
  next
    case 2
    then obtain cs l' p' r' where "l = plug cs (Nd l' a p' r')" using Nd.IH(1) by blast
    then show ?thesis by (intro exI [of _ "cs @ [LC b p r]"]) (auto simp: plug_append)
  next
    case 3
    then obtain cs l' p' r' where "r = plug cs (Nd l' a p' r')" using Nd.IH(2) by blast
    then show ?thesis by (intro exI [of _ "cs @ [RC l b p]"]) (auto simp: plug_append)
  qed
qed simp

lemma find_set: "set (addrs (find kp k t)) \<subseteq> set (addrs t)"
  by (induction t) auto

locale node_layout =
  fixes mk :: "'p \<Rightarrow> ptr \<Rightarrow> ptr \<Rightarrow> ptr \<Rightarrow> 'n"
    and kp :: "'p \<Rightarrow> 'k::linorder"
    and nkey :: "'n \<Rightarrow> 'k"
    and nleft nright nparent :: "'n \<Rightarrow> ptr"
  assumes nkey_mk [simp]: "nkey (mk p l r q) = kp p"
    and nleft_mk [simp]: "nleft (mk p l r q) = l"
    and nright_mk [simp]: "nright (mk p l r q) = r"
    and nparent_mk [simp]: "nparent (mk p l r q) = q"

text \<open>
  A search routine: compare with the key of the node, stop on equality, else follow the left or
  the right child.
\<close>

locale search_walk = node_layout +
  fixes srch :: "'n heap \<Rightarrow> ptr \<Rightarrow> 'k::linorder \<Rightarrow> ptr option"
  assumes srch_eq: "srch h x k = (if x = NULL then Some NULL else do {
      kx \<leftarrow> rd nkey h x;
      if kx = k then Some x
      else if k < kx then do { l \<leftarrow> rd nleft h x; srch h l k }
      else do { r \<leftarrow> rd nright h x; srch h r k } })"
begin

lemma srch_find: "tree_in mk h q t \<Longrightarrow> srch h (rp t) k = Some (rp (find kp k t))"
proof (induction t arbitrary: q)
  case Lf
  then show ?case by (simp add: srch_eq)
next
  case (Nd l a p r)
  then show ?case by (auto simp: srch_eq [of h a] heap_simps)
qed

text \<open>The key is in the tree, or the result is null; and the node found carries the key.\<close>

lemma srch_correct:
  assumes "tree_in mk h q t" and "sorted (keys_of kp t)"
  shows "\<exists>x. srch h (rp t) k = Some x \<and> (x = NULL \<longleftrightarrow> k \<notin> set (keys_of kp t))
           \<and> (x \<noteq> NULL \<longrightarrow> x \<in> set (addrs t) \<and> rd nkey h x = Some k)"
proof (intro exI conjI impI)
  obtain cs where cs: "t = plug cs (find kp k t)" using find_plug by blast
  have "\<exists>q. tree_in mk h q (find kp k t)"
    using tree_in_sub assms(1) cs by metis
  then obtain q' where t': "tree_in mk h q' (find kp k t)" by blast
  show "srch h (rp t) k = Some (rp (find kp k t))" by (rule srch_find [OF assms(1)])
  show "rp (find kp k t) = NULL \<longleftrightarrow> k \<notin> set (keys_of kp t)"
    using rp_eq_NULL [OF t'] find_Lf_iff [OF assms(2)] by simp
  assume nn: "rp (find kp k t) \<noteq> NULL"
  then show "rp (find kp k t) \<in> set (addrs t)" using find_set rp_in_addrs by fast
  show "rd nkey h (rp (find kp k t)) = Some k"
    using nn t' by (cases "find kp k t") (auto simp: heap_simps dest: find_key)
qed

end

locale left_walk = node_layout +
  fixes desc :: "'n heap \<Rightarrow> ptr \<Rightarrow> ptr option"
  assumes desc_eq: "desc h x = do {
      l \<leftarrow> rd nleft h x; if l \<noteq> NULL then desc h l else Some x }"
begin

lemma desc_leftmost: "tree_in mk h q t \<Longrightarrow> t \<noteq> Lf \<Longrightarrow> desc h (rp t) = Some (leftmost t)"
proof (induction t arbitrary: q)
  case (Nd l a p r)
  then show ?case
    by (auto simp: desc_eq [of h a] heap_simps rp_eq_NULL)
qed simp

end

locale right_walk = node_layout +
  fixes desc :: "'n heap \<Rightarrow> ptr \<Rightarrow> ptr option"
  assumes desc_eq: "desc h x = do {
      r \<leftarrow> rd nright h x; if r \<noteq> NULL then desc h r else Some x }"
begin

lemma desc_rightmost: "tree_in mk h q t \<Longrightarrow> t \<noteq> Lf \<Longrightarrow> desc h (rp t) = Some (rightmost t)"
proof (induction t arbitrary: q)
  case (Nd l a p r)
  then show ?case
    by (auto simp: desc_eq [of h a] heap_simps rp_eq_NULL)
qed simp

end

text \<open>
  Climbing from a node to the first ancestor that is not entered from its right child: the
  second half of successor (and of predecessor, with the sides exchanged).
\<close>

locale climb_walk = node_layout +
  fixes climb :: "'n heap \<Rightarrow> ptr \<Rightarrow> ptr \<Rightarrow> ptr option"
  assumes climb_eq: "climb h x y = (if y = NULL then Some y else do {
      r \<leftarrow> rd nright h y;
      if x = r then do { y' \<leftarrow> rd nparent h y; climb h y y' } else Some y })"
begin

lemma climb_next:
  "ctx_in mk h f cs \<Longrightarrow> f \<noteq> NULL \<Longrightarrow> f \<notin> set (caddrs cs) \<Longrightarrow> distinct (caddrs cs) \<Longrightarrow>
   climb h f (cp cs) = Some (fst_ptr (cright cs))"
proof (induction cs arbitrary: f rule: cright.induct)
  case 1
  then show ?case by (simp add: climb_eq)
next
  case (2 a p r cs)
  then show ?case using rp_notin [of f r] by (auto simp: climb_eq [of h f] heap_simps)
next
  case (3 l a p cs)
  then show ?case by (auto simp: climb_eq [of h f] heap_simps)
qed

end

locale climb_walk_back = node_layout +
  fixes climb :: "'n heap \<Rightarrow> ptr \<Rightarrow> ptr \<Rightarrow> ptr option"
  assumes climb_eq: "climb h x y = (if y = NULL then Some y else do {
      l \<leftarrow> rd nleft h y;
      if x = l then do { y' \<leftarrow> rd nparent h y; climb h y y' } else Some y })"
begin

lemma climb_prev:
  "ctx_in mk h f cs \<Longrightarrow> f \<noteq> NULL \<Longrightarrow> f \<notin> set (caddrs cs) \<Longrightarrow> distinct (caddrs cs) \<Longrightarrow>
   climb h f (cp cs) = Some (last_ptr (cleft cs))"
proof (induction cs arbitrary: f rule: cleft.induct)
  case 1
  then show ?case by (simp add: climb_eq)
next
  case (3 l a p cs)
  then show ?case using rp_notin [of f l] by (auto simp: climb_eq [of h f] heap_simps)
next
  case (2 a p r cs)
  then show ?case by (auto simp: climb_eq [of h f] heap_simps)
qed

end

text \<open>The routines together: neighbours in key order, least and greatest key.\<close>

lemma items_at:
  assumes "i < length (items t)"
  shows "\<exists>cs l p r. t = plug cs (Nd l (fst (items t ! i)) p r) \<and> length (cleft cs) + length (items l) = i"
  using assms
proof (induction t arbitrary: i)
  case (Nd l a p r)
  consider "i < length (items l)" | "i = length (items l)" | "length (items l) < i" by linarith
  then show ?case
  proof cases
    case 1
    then obtain cs l' p' r' where 2: "l = plug cs (Nd l' (fst (items l ! i)) p' r')"
      "length (cleft cs) + length (items l') = i" using Nd.IH(1) by blast
    have "cleft (cs @ [LC a p r]) = cleft cs" by (induction cs rule: cleft.induct) auto
    moreover have "Nd l a p r = plug (cs @ [LC a p r]) (Nd l' (fst (items l ! i)) p' r')"
      using 2(1) by (simp add: plug_append)
    moreover have "items (Nd l a p r) ! i = items l ! i" using 1 by (simp add: nth_append)
    ultimately show ?thesis using 2(2) by metis
  next
    case 2
    then show ?thesis
      by (intro exI [of _ "[]"]) simp
  next
    case 3
    define j where "j = i - Suc (length (items l))"
    have j: "j < length (items r)" "i = Suc (length (items l)) + j" using 3 Nd.prems by (simp_all add: j_def)
    then obtain cs l' p' r' where 2: "r = plug cs (Nd l' (fst (items r ! j)) p' r')"
      "length (cleft cs) + length (items l') = j" using Nd.IH(2) by blast
    have "length (cleft (cs @ [RC l a p])) = Suc (length (items l)) + length (cleft cs)"
      by (induction cs rule: cleft.induct) auto
    moreover have "Nd l a p r = plug (cs @ [RC l a p]) (Nd l' (fst (items r ! j)) p' r')"
      using 2(1) by (simp add: plug_append)
    moreover have "items (Nd l a p r) ! i = items r ! j" using j by (simp add: nth_append)
    ultimately show ?thesis using 2(2) j(2) by (metis add.assoc)
  qed
qed simp

lemma item_cell:
  "tree_in mk h q t \<Longrightarrow> e \<in> set (items t) \<Longrightarrow>
   fst e \<noteq> NULL \<and> (\<exists>l r q. h (fst e) = Some (mk (snd e) l r q))"
proof (induction t arbitrary: q)
  case (Nd l a p r)
  then consider "e \<in> set (items l)" | "e = (a, p)" | "e \<in> set (items r)" by auto
  then show ?case using Nd by cases auto
qed simp

lemma sorted_Min_Max:
  "sorted xs \<Longrightarrow> xs \<noteq> [] \<Longrightarrow> Min (set xs) = hd xs \<and> Max (set xs) = last xs"
proof (induction xs)
  case (Cons x xs)
  then have "\<forall>y \<in> set xs. x \<le> y" by simp
  with Cons show ?case
    by (cases "xs = []") (auto intro!: Min_eqI Max_eqI simp: last_ConsR)
qed simp

locale tree_walks =
  mnw: left_walk mk kp nkey nleft nright nparent mn +
  mxw: right_walk mk kp nkey nleft nright nparent mx +
  clw: climb_walk mk kp nkey nleft nright nparent cl +
  cbw: climb_walk_back mk kp nkey nleft nright nparent cb
  for mk :: "'p \<Rightarrow> ptr \<Rightarrow> ptr \<Rightarrow> ptr \<Rightarrow> 'n" and kp :: "'p \<Rightarrow> 'k::linorder"
    and nkey nleft nright nparent mn mx cl cb +
  fixes succ pred :: "'n heap \<Rightarrow> ptr \<Rightarrow> ptr option"
  assumes succ_eq: "succ h x = do {
      r \<leftarrow> rd nright h x;
      if r \<noteq> NULL then mn h r else do { y \<leftarrow> rd nparent h x; cl h x y } }"
    and pred_eq: "pred h x = do {
      l \<leftarrow> rd nleft h x;
      if l \<noteq> NULL then mx h l else do { y \<leftarrow> rd nparent h x; cb h x y } }"
begin

lemma succ_split:
  assumes "repr mk G h root (plug cs (Nd l x p r))"
  shows "succ h x = Some (fst_ptr (items r @ cright cs))"
proof -
  have H: "h x = Some (mk p (rp l) (rp r) (cp cs))" "x \<noteq> NULL" "tree_in mk h x r"
    "ctx_in mk h x cs" "x \<notin> set (caddrs cs)" "distinct (caddrs cs)"
    using assms by (auto simp: repr_def shape_simps)
  show ?thesis
  proof (cases "r = Lf")
    case True
    then show ?thesis
      using H clw.climb_next [OF H(4,2,5,6)] by (simp add: succ_eq heap_simps)
  next
    case False
    then have "rp r \<noteq> NULL" using rp_eq_NULL [OF H(3)] by simp
    then show ?thesis
      using H(1,2) False mnw.desc_leftmost [OF H(3) False]
      by (simp add: succ_eq heap_simps leftmost_items split: list.splits)
  qed
qed

lemma pred_split:
  assumes "repr mk G h root (plug cs (Nd l x p r))"
  shows "pred h x = Some (last_ptr (cleft cs @ items l))"
proof -
  have H: "h x = Some (mk p (rp l) (rp r) (cp cs))" "x \<noteq> NULL" "tree_in mk h x l"
    "ctx_in mk h x cs" "x \<notin> set (caddrs cs)" "distinct (caddrs cs)"
    using assms by (auto simp: repr_def shape_simps)
  show ?thesis
  proof (cases "l = Lf")
    case True
    then show ?thesis
      using H cbw.climb_prev [OF H(4,2,5,6)] by (simp add: pred_eq heap_simps)
  next
    case False
    then have "rp l \<noteq> NULL" using rp_eq_NULL [OF H(3)] by simp
    then show ?thesis
      using H(1,2) False mxw.desc_rightmost [OF H(3) False]
      by (simp add: pred_eq heap_simps rightmost_items)
  qed
qed

lemma neighbours:
  assumes R: "repr mk G h root t" and i: "i < length (addrs t)"
  shows "succ h (addrs t ! i) = Some (if Suc i < length (addrs t) then addrs t ! Suc i else NULL)"
    and "pred h (addrs t ! i) = Some (if 0 < i then addrs t ! (i - 1) else NULL)"
proof -
  have i': "i < length (items t)" using i by (simp add: addrs_items)
  obtain cs l p r where t: "t = plug cs (Nd l (fst (items t ! i)) p r)"
    "length (cleft cs) + length (items l) = i" using items_at [OF i'] by blast
  define x where "x = fst (items t ! i)"
  have x: "addrs t ! i = x" using i' by (simp add: x_def addrs_items)
  have tx: "t = plug cs (Nd l x p r)" using t(1) by (simp flip: x_def)
  have a: "addrs t = map fst (cleft cs @ items l) @ x # map fst (items r @ cright cs)"
    by (simp add: tx addrs_items items_plug)
  have len: "length (map fst (cleft cs @ items l)) = i" using t(2) by simp
  show "succ h (addrs t ! i) = Some (if Suc i < length (addrs t) then addrs t ! Suc i else NULL)"
    unfolding x using succ_split [OF R [unfolded tx]] len
    by (cases "items r @ cright cs") (auto simp: a nth_append split: list.splits)
  show "pred h (addrs t ! i) = Some (if 0 < i then addrs t ! (i - 1) else NULL)"
    unfolding x using pred_split [OF R [unfolded tx]] len
    by (cases "cleft cs @ items l" rule: rev_cases) (auto simp: a nth_append last_conv_nth split: list.splits)
qed

lemma extrema:
  assumes R: "repr mk G h root t" and srt: "sorted (keys_of kp t)" and ne: "t \<noteq> Lf"
  shows "\<exists>x y. root \<noteq> NULL
    \<and> mn h root = Some x \<and> x \<noteq> NULL \<and> rd nkey h x = Some (Min (set (keys_of kp t)))
    \<and> mx h root = Some y \<and> y \<noteq> NULL \<and> rd nkey h y = Some (Max (set (keys_of kp t)))"
proof (intro exI conjI)
  have T: "tree_in mk h NULL t" "root = rp t" using R by (simp_all add: repr_def)
  have ni: "items t \<noteq> []" using ne by simp
  have k: "Min (set (keys_of kp t)) = kp (snd (hd (items t)))" "Max (set (keys_of kp t)) = kp (snd (last (items t)))"
    using sorted_Min_Max [OF srt] ni by (simp_all add: pays_items hd_map last_map)
  note c = item_cell [OF T(1) hd_in_set [OF ni]] item_cell [OF T(1) last_in_set [OF ni]]
  show "root \<noteq> NULL" using rp_eq_NULL [OF T(1)] T(2) ne by simp
  show "mn h root = Some (fst (hd (items t)))" "mx h root = Some (fst (last (items t)))"
    using mnw.desc_leftmost [OF T(1) ne] mxw.desc_rightmost [OF T(1) ne] T(2) ni
    by (auto simp: leftmost_items rightmost_items split: list.splits)
  show "fst (hd (items t)) \<noteq> NULL" "fst (last (items t)) \<noteq> NULL"
    "rd nkey h (fst (hd (items t))) = Some (Min (set (keys_of kp t)))"
    "rd nkey h (fst (last (items t))) = Some (Max (set (keys_of kp t)))"
    using c unfolding k by (auto simp: heap_simps)
qed

end

subsection \<open>The place of an insertion\<close>

fun ins_pos :: "('p \<Rightarrow> 'k::linorder) \<Rightarrow> 'k \<Rightarrow> 'p crumb list \<Rightarrow> 'p atree \<Rightarrow> 'p crumb list" where
  "ins_pos kp k cs Lf = cs"
| "ins_pos kp k cs (Nd l a p r) =
     (if k < kp p then ins_pos kp k (LC a p r # cs) l else ins_pos kp k (RC l a p # cs) r)"

text \<open>The side of the innermost crumb agrees with the comparison the code repeats.\<close>

fun side_ok :: "('p \<Rightarrow> 'k::linorder) \<Rightarrow> 'k \<Rightarrow> 'p crumb list \<Rightarrow> bool" where
  "side_ok kp k [] \<longleftrightarrow> True"
| "side_ok kp k (LC a p r # cs) \<longleftrightarrow> k < kp p"
| "side_ok kp k (RC l a p # cs) \<longleftrightarrow> \<not> k < kp p"

lemma ins_pos_plug: "plug (ins_pos kp k cs t) Lf = plug cs t"
  by (induction kp k cs t rule: ins_pos.induct) auto

lemma ins_pos_side: "side_ok kp k cs \<Longrightarrow> side_ok kp k (ins_pos kp k cs t)"
  by (induction kp k cs t rule: ins_pos.induct) auto

lemma ins_pos_bounds:
  assumes "sorted (keys_of kp (plug cs t))"
    and "\<forall>e \<in> set (cleft cs). kp (snd e) \<le> k" and "\<forall>e \<in> set (cright cs). k < kp (snd e)"
  shows "(\<forall>e \<in> set (cleft (ins_pos kp k cs t)). kp (snd e) \<le> k)
    \<and> (\<forall>e \<in> set (cright (ins_pos kp k cs t)). k < kp (snd e))"
  using assms
proof (induction kp k cs t rule: ins_pos.induct)
  case (2 kp k cs l a p r)
  have "\<forall>e \<in> set (items l). kp (snd e) \<le> kp p" "\<forall>e \<in> set (items r). kp p \<le> kp (snd e)"
    using 2(3) by (auto simp: pays_items items_plug sorted_append case_prod_unfold)
  then have b: "k < kp p \<Longrightarrow> \<forall>e \<in> set (items r). k < kp (snd e)"
    "\<not> k < kp p \<Longrightarrow> \<forall>e \<in> set (items l). kp (snd e) \<le> k"
    by (auto simp: not_less intro: order_less_le_trans order_trans)
  show ?case
  proof (cases "k < kp p")
    case True
    have c: "\<forall>e \<in> set (cright (LC a p r # cs)). k < kp (snd e)"
      using 2(5) b(1) True by auto
    have "sorted (keys_of kp (plug (LC a p r # cs) l))"
      "\<forall>e \<in> set (cleft (LC a p r # cs)). kp (snd e) \<le> k"
      using 2(3,4) by (simp_all only: plug.simps cleft.simps)
    from 2(1) [OF True this c] show ?thesis using True by (simp only: ins_pos.simps if_True)
  next
    case False
    have c: "\<forall>e \<in> set (cleft (RC l a p # cs)). kp (snd e) \<le> k"
      using 2(4) b(2) False by auto
    have "sorted (keys_of kp (plug (RC l a p # cs) r))"
      "\<forall>e \<in> set (cright (RC l a p # cs)). k < kp (snd e)"
      using 2(3,5) by (simp_all only: plug.simps cright.simps)
    from 2(2) [OF False this(1) c this(2)] show ?thesis
      using False by (simp only: ins_pos.simps if_False)
  qed
qed simp

text \<open>The descent of an insertion, which returns the parent of the new leaf.\<close>

locale insert_walk = node_layout +
  fixes desc :: "'n heap \<Rightarrow> 'k::linorder \<Rightarrow> ptr \<Rightarrow> ptr \<Rightarrow> ptr option"
  assumes desc_eq: "desc h k y x = (if x \<noteq> NULL then do {
      kx \<leftarrow> rd nkey h x;
      x' \<leftarrow> (if k < kx then rd nleft h x else rd nright h x);
      desc h k x x' } else Some y)"
begin

lemma desc_pos:
  "tree_in mk h (cp cs) t \<Longrightarrow> desc h k (cp cs) (rp t) = Some (cp (ins_pos kp k cs t))"
proof (induction t arbitrary: cs)
  case Lf
  then show ?case by (simp add: desc_eq)
next
  case (Nd l a p r)
  then show ?case
    using Nd.IH(1) [of "LC a p r # cs"] Nd.IH(2) [of "RC l a p # cs"]
    by (auto simp: desc_eq [of h k _ a] heap_simps)
qed

end

end
