(* ===== verification/RBTree.thy ===== *)
theory RBTree
  imports PtrTree
begin

text \<open>
  The class \<open>RBTree\<close> of \<open>algorithm/rbtree.h\<close>, statement by statement on an explicit heap.

  A tree object is the pointer \<open>mRoot\<close>; the heap is passed along.  Functions that take
  \<open>RBTNode<T>* &root\<close> take the root pointer and return it.  Every read and write of a field is
  \<open>rd\<close> or \<open>wr\<close> of the prelude, so a dereference of a null or freed node is \<^const>\<open>None\<close>; a
  \<open>while\<close> loop is a \<^theory_text>\<open>partial_function (option)\<close>, so a loop that does not end is \<^const>\<open>None\<close>
  too.  The theories \<open>RBTree_Insert\<close> and \<open>RBTree_Remove\<close> prove that neither happens on a
  red-black tree.
\<close>

subsection \<open>Nodes\<close>

datatype RBTColor = RED | BLACK

record 'a RBTNode =
  color :: RBTColor
  key :: 'a
  left :: ptr
  right :: ptr
  parent :: ptr

text \<open>The constructor ignores its parameter \<open>p\<close>: \<open>parent()\<close> sets the field to null.\<close>

definition new_RBTNode :: "'a \<Rightarrow> RBTColor \<Rightarrow> ptr \<Rightarrow> ptr \<Rightarrow> ptr \<Rightarrow> 'a RBTNode" where
  "new_RBTNode value c p l r =
     \<lparr>color = c, key = value, left = l, right = r, parent = NULL\<rparr>"

type_synonym 'a rbheap = "'a RBTNode heap"

text \<open>The macros \<open>rb_set_black\<close>, \<open>rb_set_red\<close>, \<open>rb_set_color\<close>, \<open>rb_set_parent\<close>.\<close>

definition rb_set_color :: "'a rbheap \<Rightarrow> ptr \<Rightarrow> RBTColor \<Rightarrow> 'a rbheap option" where
  "rb_set_color h p c = wr (color_update (\<lambda>_. c)) h p"

abbreviation rb_set_black :: "'a rbheap \<Rightarrow> ptr \<Rightarrow> 'a rbheap option" where
  "rb_set_black h p \<equiv> rb_set_color h p BLACK"

abbreviation rb_set_red :: "'a rbheap \<Rightarrow> ptr \<Rightarrow> 'a rbheap option" where
  "rb_set_red h p \<equiv> rb_set_color h p RED"

definition rb_set_parent :: "'a rbheap \<Rightarrow> ptr \<Rightarrow> ptr \<Rightarrow> 'a rbheap option" where
  "rb_set_parent h p q = wr (parent_update (\<lambda>_. q)) h p"

definition set_left :: "'a rbheap \<Rightarrow> ptr \<Rightarrow> ptr \<Rightarrow> 'a rbheap option" where
  "set_left h p q = wr (left_update (\<lambda>_. q)) h p"

definition set_right :: "'a rbheap \<Rightarrow> ptr \<Rightarrow> ptr \<Rightarrow> 'a rbheap option" where
  "set_right h p q = wr (right_update (\<lambda>_. q)) h p"

text \<open>\<open>p && rb_is_red(p)\<close> and \<open>!p || rb_is_black(p)\<close>.\<close>

definition rb_nonnull_red :: "'a rbheap \<Rightarrow> ptr \<Rightarrow> bool option" where
  "rb_nonnull_red h p =
     (if p = NULL then Some False else do { c \<leftarrow> rd color h p; Some (c = RED) })"

definition rb_null_or_black :: "'a rbheap \<Rightarrow> ptr \<Rightarrow> bool option" where
  "rb_null_or_black h p =
     (if p = NULL then Some True else do { c \<leftarrow> rd color h p; Some (c = BLACK) })"

subsection \<open>Traversals: the keys printed, in the order printed\<close>

partial_function (option) preOrder :: "'a rbheap \<Rightarrow> ptr \<Rightarrow> 'a list option" where
  "preOrder h tree = (if tree \<noteq> NULL then do {
      k \<leftarrow> rd key h tree;
      l \<leftarrow> rd left h tree;
      out1 \<leftarrow> preOrder h l;
      r \<leftarrow> rd right h tree;
      out2 \<leftarrow> preOrder h r;
      Some ([k] @ out1 @ out2)
    } else Some [])"

partial_function (option) inOrder :: "'a rbheap \<Rightarrow> ptr \<Rightarrow> 'a list option" where
  "inOrder h tree = (if tree \<noteq> NULL then do {
      l \<leftarrow> rd left h tree;
      out1 \<leftarrow> inOrder h l;
      k \<leftarrow> rd key h tree;
      r \<leftarrow> rd right h tree;
      out2 \<leftarrow> inOrder h r;
      Some (out1 @ [k] @ out2)
    } else Some [])"

partial_function (option) postOrder :: "'a rbheap \<Rightarrow> ptr \<Rightarrow> 'a list option" where
  "postOrder h tree = (if tree \<noteq> NULL then do {
      l \<leftarrow> rd left h tree;
      out1 \<leftarrow> postOrder h l;
      r \<leftarrow> rd right h tree;
      out2 \<leftarrow> postOrder h r;
      k \<leftarrow> rd key h tree;
      Some (out1 @ out2 @ [k])
    } else Some [])"

text \<open>
  A line of \<open>print\<close>: the root line shows its key only; any other line shows the key, whether the
  node is red, the key of its parent and whether it is the right child.
\<close>

datatype 'a print_line = RootLine 'a | BranchLine 'a bool 'a bool

partial_function (option) print_tree ::
  "'a rbheap \<Rightarrow> ptr \<Rightarrow> 'a \<Rightarrow> int \<Rightarrow> 'a print_line list option" where
  "print_tree h tree k direction = (if tree \<noteq> NULL then do {
      tk \<leftarrow> rd key h tree;
      line \<leftarrow> (if direction = 0 then Some (RootLine tk)
               else do { c \<leftarrow> rd color h tree; Some (BranchLine tk (c = RED) k (direction = 1)) });
      l \<leftarrow> rd left h tree;
      out1 \<leftarrow> print_tree h l tk (-1);
      r \<leftarrow> rd right h tree;
      out2 \<leftarrow> print_tree h r tk 1;
      Some ([line] @ out1 @ out2)
    } else Some [])"

definition print_root :: "'a rbheap \<Rightarrow> ptr \<Rightarrow> 'a print_line list option" where
  "print_root h mRoot =
     (if mRoot \<noteq> NULL then do { k \<leftarrow> rd key h mRoot; print_tree h mRoot k 0 } else Some [])"

subsection \<open>Searching\<close>

partial_function (option) search :: "'a::linorder rbheap \<Rightarrow> ptr \<Rightarrow> 'a \<Rightarrow> ptr option" where
  "search h x k = (if x = NULL then Some x else do {
      kx \<leftarrow> rd key h x;
      if kx = k then Some x
      else if k < kx then do { l \<leftarrow> rd left h x; search h l k }
      else do { r \<leftarrow> rd right h x; search h r k } })"

text \<open>The loop of \<open>iterativeSearch\<close>: guard \<open>x != NULL && x->key != key\<close>, then one step down.\<close>

partial_function (option) iterativeSearch :: "'a::linorder rbheap \<Rightarrow> ptr \<Rightarrow> 'a \<Rightarrow> ptr option" where
  "iterativeSearch h x k = do {
      go \<leftarrow> (if x \<noteq> NULL then do { kx \<leftarrow> rd key h x; Some (kx \<noteq> k) } else Some False);
      if go then do {
        kx \<leftarrow> rd key h x;
        x \<leftarrow> (if k < kx then rd left h x else rd right h x);
        iterativeSearch h x k }
      else Some x }"

partial_function (option) minimum_loop :: "'a rbheap \<Rightarrow> ptr \<Rightarrow> ptr option" where
  "minimum_loop h tree = do {
      l \<leftarrow> rd left h tree; if l \<noteq> NULL then minimum_loop h l else Some tree }"

definition minimum :: "'a rbheap \<Rightarrow> ptr \<Rightarrow> ptr option" where
  "minimum h tree = (if tree = NULL then Some NULL else minimum_loop h tree)"

partial_function (option) maximum_loop :: "'a rbheap \<Rightarrow> ptr \<Rightarrow> ptr option" where
  "maximum_loop h tree = do {
      r \<leftarrow> rd right h tree; if r \<noteq> NULL then maximum_loop h r else Some tree }"

definition maximum :: "'a rbheap \<Rightarrow> ptr \<Rightarrow> ptr option" where
  "maximum h tree = (if tree = NULL then Some NULL else maximum_loop h tree)"

text \<open>\<open>T minimum()\<close> and \<open>T maximum()\<close>: the key, or \<open>(T)NULL\<close> (the argument \<open>dflt\<close>) on an empty tree.\<close>

definition minimum_key :: "'a \<Rightarrow> 'a rbheap \<Rightarrow> ptr \<Rightarrow> 'a option" where
  "minimum_key dflt h mRoot = do {
      p \<leftarrow> minimum h mRoot; if p \<noteq> NULL then rd key h p else Some dflt }"

definition maximum_key :: "'a \<Rightarrow> 'a rbheap \<Rightarrow> ptr \<Rightarrow> 'a option" where
  "maximum_key dflt h mRoot = do {
      p \<leftarrow> maximum h mRoot; if p \<noteq> NULL then rd key h p else Some dflt }"

partial_function (option) successor_loop :: "'a rbheap \<Rightarrow> ptr \<Rightarrow> ptr \<Rightarrow> ptr option" where
  "successor_loop h x y = (if y = NULL then Some y else do {
      r \<leftarrow> rd right h y;
      if x = r then do { y' \<leftarrow> rd parent h y; successor_loop h y y' } else Some y })"

definition successor :: "'a rbheap \<Rightarrow> ptr \<Rightarrow> ptr option" where
  "successor h x = do {
      r \<leftarrow> rd right h x;
      if r \<noteq> NULL then minimum h r
      else do { y \<leftarrow> rd parent h x; successor_loop h x y } }"

partial_function (option) predecessor_loop :: "'a rbheap \<Rightarrow> ptr \<Rightarrow> ptr \<Rightarrow> ptr option" where
  "predecessor_loop h x y = (if y = NULL then Some y else do {
      l \<leftarrow> rd left h y;
      if x = l then do { y' \<leftarrow> rd parent h y; predecessor_loop h y y' } else Some y })"

definition predecessor :: "'a rbheap \<Rightarrow> ptr \<Rightarrow> ptr option" where
  "predecessor h x = do {
      l \<leftarrow> rd left h x;
      if l \<noteq> NULL then maximum h l
      else do { y \<leftarrow> rd parent h x; predecessor_loop h x y } }"

subsection \<open>Rotations\<close>

definition leftRotate :: "'a rbheap \<Rightarrow> ptr \<Rightarrow> ptr \<Rightarrow> ('a rbheap \<times> ptr) option" where
  "leftRotate h root x = do {
      y \<leftarrow> rd right h x;
      yl \<leftarrow> rd left h y;
      h \<leftarrow> set_right h x yl;
      yl \<leftarrow> rd left h y;
      h \<leftarrow> (if yl \<noteq> NULL then rb_set_parent h yl x else Some h);
      xp \<leftarrow> rd parent h x;
      h \<leftarrow> rb_set_parent h y xp;
      (h, root) \<leftarrow> (if xp = NULL then Some (h, y)
        else do {
          xpl \<leftarrow> rd left h xp;
          h \<leftarrow> (if xpl = x then set_left h xp y else set_right h xp y);
          Some (h, root) });
      h \<leftarrow> set_left h y x;
      h \<leftarrow> rb_set_parent h x y;
      Some (h, root) }"

definition rightRotate :: "'a rbheap \<Rightarrow> ptr \<Rightarrow> ptr \<Rightarrow> ('a rbheap \<times> ptr) option" where
  "rightRotate h root y = do {
      x \<leftarrow> rd left h y;
      xr \<leftarrow> rd right h x;
      h \<leftarrow> set_left h y xr;
      xr \<leftarrow> rd right h x;
      h \<leftarrow> (if xr \<noteq> NULL then rb_set_parent h xr y else Some h);
      yp \<leftarrow> rd parent h y;
      h \<leftarrow> rb_set_parent h x yp;
      (h, root) \<leftarrow> (if yp = NULL then Some (h, x)
        else do {
          ypr \<leftarrow> rd right h yp;
          h \<leftarrow> (if y = ypr then set_right h yp x else set_left h yp x);
          Some (h, root) });
      h \<leftarrow> set_right h x y;
      h \<leftarrow> rb_set_parent h y x;
      Some (h, root) }"

subsection \<open>Insertion\<close>

text \<open>
  One iteration of the loop of \<open>insertFixUp\<close>, for a parent that is the left (right) child of the
  grandparent; the result is the heap, the root and the node the loop goes on with.
\<close>

definition insertFixUp_left ::
  "'a rbheap \<Rightarrow> ptr \<Rightarrow> ptr \<Rightarrow> ptr \<Rightarrow> ptr \<Rightarrow> ('a rbheap \<times> ptr \<times> ptr) option" where
  "insertFixUp_left h root node par gparent = do {
      uncle \<leftarrow> rd right h gparent;
      red \<leftarrow> rb_nonnull_red h uncle;
      if red then do {
        h \<leftarrow> rb_set_black h uncle;
        h \<leftarrow> rb_set_black h par;
        h \<leftarrow> rb_set_red h gparent;
        Some (h, root, gparent) }
      else do {
        pr \<leftarrow> rd right h par;
        (h, root, node, par) \<leftarrow> (if pr = node
          then do { (h, root) \<leftarrow> leftRotate h root par; Some (h, root, par, node) }
          else Some (h, root, node, par));
        h \<leftarrow> rb_set_black h par;
        h \<leftarrow> rb_set_red h gparent;
        (h, root) \<leftarrow> rightRotate h root gparent;
        Some (h, root, node) } }"

definition insertFixUp_right ::
  "'a rbheap \<Rightarrow> ptr \<Rightarrow> ptr \<Rightarrow> ptr \<Rightarrow> ptr \<Rightarrow> ('a rbheap \<times> ptr \<times> ptr) option" where
  "insertFixUp_right h root node par gparent = do {
      uncle \<leftarrow> rd left h gparent;
      red \<leftarrow> rb_nonnull_red h uncle;
      if red then do {
        h \<leftarrow> rb_set_black h uncle;
        h \<leftarrow> rb_set_black h par;
        h \<leftarrow> rb_set_red h gparent;
        Some (h, root, gparent) }
      else do {
        pl \<leftarrow> rd left h par;
        (h, root, node, par) \<leftarrow> (if pl = node
          then do { (h, root) \<leftarrow> rightRotate h root par; Some (h, root, par, node) }
          else Some (h, root, node, par));
        h \<leftarrow> rb_set_black h par;
        h \<leftarrow> rb_set_red h gparent;
        (h, root) \<leftarrow> leftRotate h root gparent;
        Some (h, root, node) } }"

partial_function (option) insertFixUp ::
  "'a rbheap \<Rightarrow> ptr \<Rightarrow> ptr \<Rightarrow> ('a rbheap \<times> ptr) option" where
  "insertFixUp h root node = do {
      par \<leftarrow> rd parent h node;
      red \<leftarrow> rb_nonnull_red h par;
      if red then do {
        gparent \<leftarrow> rd parent h par;
        gl \<leftarrow> rd left h gparent;
        (h, root, node) \<leftarrow> (if par = gl then insertFixUp_left h root node par gparent
                             else insertFixUp_right h root node par gparent);
        insertFixUp h root node }
      else do {
        h \<leftarrow> rb_set_black h root;
        Some (h, root) } }"

text \<open>The descent of \<open>insert\<close>: \<open>x\<close> walks down, \<open>y\<close> trails it.\<close>

partial_function (option) insert_descend ::
  "'a::linorder rbheap \<Rightarrow> 'a \<Rightarrow> ptr \<Rightarrow> ptr \<Rightarrow> ptr option" where
  "insert_descend h k y x = (if x \<noteq> NULL then do {
      kx \<leftarrow> rd key h x;
      x' \<leftarrow> (if k < kx then rd left h x else rd right h x);
      insert_descend h k x x' } else Some y)"

definition insert_node :: "'a::linorder rbheap \<Rightarrow> ptr \<Rightarrow> ptr \<Rightarrow> ('a rbheap \<times> ptr) option" where
  "insert_node h root node = do {
      k \<leftarrow> rd key h node;
      y \<leftarrow> insert_descend h k NULL root;
      h \<leftarrow> rb_set_parent h node y;
      (h, root) \<leftarrow> (if y \<noteq> NULL then do {
          ky \<leftarrow> rd key h y;
          h \<leftarrow> (if k < ky then set_left h y node else set_right h y node);
          Some (h, root) }
        else Some (h, node));
      h \<leftarrow> rb_set_red h node;
      insertFixUp h root node }"

text \<open>
  \<open>insert(T key)\<close>.  The pointer \<open>z\<close> is what \<open>new\<close> returns.  The call in the source passes four
  arguments to the five-parameter constructor, the colour is the one left out; it is the
  argument \<open>c\<close> here, and \<open>insert_node\<close> overwrites it.
\<close>

definition insert_key ::
  "RBTColor \<Rightarrow> ptr \<Rightarrow> 'a::linorder rbheap \<Rightarrow> ptr \<Rightarrow> 'a \<Rightarrow> ('a rbheap \<times> ptr) option" where
  "insert_key c z h mRoot k =
     (if z = NULL then Some (h, mRoot)
      else insert_node (h(z \<mapsto> new_RBTNode k c NULL NULL NULL)) mRoot z)"

subsection \<open>Removal\<close>

text \<open>
  One iteration of the loop of \<open>removeFixUp\<close>; the result is the heap, the root, the node and the
  parent the loop goes on with, and whether the iteration ended in \<open>break\<close>.
\<close>

text \<open>The cases with a black sibling \<open>other\<close>.\<close>

definition removeFixUp_left_black ::
  "'a rbheap \<Rightarrow> ptr \<Rightarrow> ptr \<Rightarrow> ptr \<Rightarrow> ('a rbheap \<times> ptr \<times> ptr \<times> ptr \<times> bool) option" where
  "removeFixUp_left_black h root par other = do {
      ol \<leftarrow> rd left h other;
      bl \<leftarrow> rb_null_or_black h ol;
      both \<leftarrow> (if bl then do { orr \<leftarrow> rd right h other; rb_null_or_black h orr } else Some False);
      if both then do {
        h \<leftarrow> rb_set_red h other;
        pp \<leftarrow> rd parent h par;
        Some (h, root, par, pp, False) }
      else do {
        orr \<leftarrow> rd right h other;
        br \<leftarrow> rb_null_or_black h orr;
        (h, root, other) \<leftarrow> (if br then do {
            ol \<leftarrow> rd left h other;
            h \<leftarrow> rb_set_black h ol;
            h \<leftarrow> rb_set_red h other;
            (h, root) \<leftarrow> rightRotate h root other;
            other \<leftarrow> rd right h par;
            Some (h, root, other) }
          else Some (h, root, other));
        pc \<leftarrow> rd color h par;
        h \<leftarrow> rb_set_color h other pc;
        h \<leftarrow> rb_set_black h par;
        orr \<leftarrow> rd right h other;
        h \<leftarrow> rb_set_black h orr;
        (h, root) \<leftarrow> leftRotate h root par;
        Some (h, root, root, par, True) } }"

definition removeFixUp_left ::
  "'a rbheap \<Rightarrow> ptr \<Rightarrow> ptr \<Rightarrow> ('a rbheap \<times> ptr \<times> ptr \<times> ptr \<times> bool) option" where
  "removeFixUp_left h root par = do {
      other \<leftarrow> rd right h par;
      c \<leftarrow> rd color h other;
      (h, root, other) \<leftarrow> (if c = RED then do {
          h \<leftarrow> rb_set_black h other;
          h \<leftarrow> rb_set_red h par;
          (h, root) \<leftarrow> leftRotate h root par;
          other \<leftarrow> rd right h par;
          Some (h, root, other) }
        else Some (h, root, other));
      removeFixUp_left_black h root par other }"

text \<open>The cases with a black sibling \<open>other\<close>.\<close>

definition removeFixUp_right_black ::
  "'a rbheap \<Rightarrow> ptr \<Rightarrow> ptr \<Rightarrow> ptr \<Rightarrow> ('a rbheap \<times> ptr \<times> ptr \<times> ptr \<times> bool) option" where
  "removeFixUp_right_black h root par other = do {
      ol \<leftarrow> rd left h other;
      bl \<leftarrow> rb_null_or_black h ol;
      both \<leftarrow> (if bl then do { orr \<leftarrow> rd right h other; rb_null_or_black h orr } else Some False);
      if both then do {
        h \<leftarrow> rb_set_red h other;
        pp \<leftarrow> rd parent h par;
        Some (h, root, par, pp, False) }
      else do {
        ol \<leftarrow> rd left h other;
        bl \<leftarrow> rb_null_or_black h ol;
        (h, root, other) \<leftarrow> (if bl then do {
            orr \<leftarrow> rd right h other;
            h \<leftarrow> rb_set_black h orr;
            h \<leftarrow> rb_set_red h other;
            (h, root) \<leftarrow> leftRotate h root other;
            other \<leftarrow> rd left h par;
            Some (h, root, other) }
          else Some (h, root, other));
        pc \<leftarrow> rd color h par;
        h \<leftarrow> rb_set_color h other pc;
        h \<leftarrow> rb_set_black h par;
        ol \<leftarrow> rd left h other;
        h \<leftarrow> rb_set_black h ol;
        (h, root) \<leftarrow> rightRotate h root par;
        Some (h, root, root, par, True) } }"

definition removeFixUp_right ::
  "'a rbheap \<Rightarrow> ptr \<Rightarrow> ptr \<Rightarrow> ('a rbheap \<times> ptr \<times> ptr \<times> ptr \<times> bool) option" where
  "removeFixUp_right h root par = do {
      other \<leftarrow> rd left h par;
      c \<leftarrow> rd color h other;
      (h, root, other) \<leftarrow> (if c = RED then do {
          h \<leftarrow> rb_set_black h other;
          h \<leftarrow> rb_set_red h par;
          (h, root) \<leftarrow> rightRotate h root par;
          other \<leftarrow> rd left h par;
          Some (h, root, other) }
        else Some (h, root, other));
      removeFixUp_right_black h root par other }"

text \<open>What follows the loop: \<open>if (node) rb_set_black(node)\<close>.\<close>

definition removeFixUp_end :: "'a rbheap \<Rightarrow> ptr \<Rightarrow> ptr \<Rightarrow> ('a rbheap \<times> ptr) option" where
  "removeFixUp_end h root node = do {
      h \<leftarrow> (if node \<noteq> NULL then rb_set_black h node else Some h);
      Some (h, root) }"

partial_function (option) removeFixUp ::
  "'a rbheap \<Rightarrow> ptr \<Rightarrow> ptr \<Rightarrow> ptr \<Rightarrow> ('a rbheap \<times> ptr) option" where
  "removeFixUp h root node par = do {
      b \<leftarrow> rb_null_or_black h node;
      if b \<and> node \<noteq> root then do {
        pl \<leftarrow> rd left h par;
        (h, root, node, par, brk) \<leftarrow> (if pl = node then removeFixUp_left h root par
                                       else removeFixUp_right h root par);
        if brk then removeFixUp_end h root node
        else removeFixUp h root node par }
      else removeFixUp_end h root node }"

text \<open>
  \<open>remove(root, node)\<close> with both children present: the successor \<open>replace\<close> is unlinked and
  takes the place of \<open>node\<close>.
\<close>

definition remove_two_children ::
  "'a rbheap \<Rightarrow> ptr \<Rightarrow> ptr \<Rightarrow> ('a rbheap \<times> ptr) option" where
  "remove_two_children h root node = do {
      replace \<leftarrow> rd right h node;
      replace \<leftarrow> minimum_loop h replace;
      np \<leftarrow> rd parent h node;
      (h, root) \<leftarrow> (if np \<noteq> NULL then do {
          npl \<leftarrow> rd left h np;
          h \<leftarrow> (if npl = node then set_left h np replace else set_right h np replace);
          Some (h, root) }
        else Some (h, replace));
      child \<leftarrow> rd right h replace;
      par \<leftarrow> rd parent h replace;
      c \<leftarrow> rd color h replace;
      (h, par) \<leftarrow> (if par = node then Some (h, replace)
        else do {
          h \<leftarrow> (if child \<noteq> NULL then rb_set_parent h child par else Some h);
          h \<leftarrow> set_left h par child;
          nr \<leftarrow> rd right h node;
          h \<leftarrow> set_right h replace nr;
          nr \<leftarrow> rd right h node;
          h \<leftarrow> rb_set_parent h nr replace;
          Some (h, par) });
      np \<leftarrow> rd parent h node;
      h \<leftarrow> rb_set_parent h replace np;
      nc \<leftarrow> rd color h node;
      h \<leftarrow> rb_set_color h replace nc;
      nl \<leftarrow> rd left h node;
      h \<leftarrow> set_left h replace nl;
      nl \<leftarrow> rd left h node;
      h \<leftarrow> rb_set_parent h nl replace;
      (h, root) \<leftarrow> (if c = BLACK then removeFixUp h root child par else Some (h, root));
      h \<leftarrow> free h node;
      Some (h, root) }"

definition remove_node :: "'a rbheap \<Rightarrow> ptr \<Rightarrow> ptr \<Rightarrow> ('a rbheap \<times> ptr) option" where
  "remove_node h root node = do {
      l \<leftarrow> rd left h node;
      r \<leftarrow> rd right h node;
      if l \<noteq> NULL \<and> r \<noteq> NULL then remove_two_children h root node
      else do {
        l \<leftarrow> rd left h node;
        child \<leftarrow> (if l \<noteq> NULL then rd left h node else rd right h node);
        par \<leftarrow> rd parent h node;
        c \<leftarrow> rd color h node;
        h \<leftarrow> (if child \<noteq> NULL then rb_set_parent h child par else Some h);
        (h, root) \<leftarrow> (if par \<noteq> NULL then do {
            pl \<leftarrow> rd left h par;
            h \<leftarrow> (if pl = node then set_left h par child else set_right h par child);
            Some (h, root) }
          else Some (h, child));
        (h, root) \<leftarrow> (if c = BLACK then removeFixUp h root child par else Some (h, root));
        h \<leftarrow> free h node;
        Some (h, root) } }"

definition remove_key :: "'a::linorder rbheap \<Rightarrow> ptr \<Rightarrow> 'a \<Rightarrow> ('a rbheap \<times> ptr) option" where
  "remove_key h mRoot k = do {
      node \<leftarrow> search h mRoot k;
      if node \<noteq> NULL then remove_node h mRoot node else Some (h, mRoot) }"

subsection \<open>Destruction\<close>

text \<open>
  \<open>destroy\<close> takes its pointer by reference: the reference is to \<open>mRoot\<close> or to a child field of a
  node.  Both recursive calls are returned from, as in the source.
\<close>

definition get_ref :: "'a rbheap \<Rightarrow> ptr \<Rightarrow> ptr_ref \<Rightarrow> ptr option" where
  "get_ref h root r = (case r of RootRef \<Rightarrow> Some root
     | LeftRef p \<Rightarrow> rd left h p | RightRef p \<Rightarrow> rd right h p)"

definition set_ref :: "'a rbheap \<Rightarrow> ptr \<Rightarrow> ptr_ref \<Rightarrow> ptr \<Rightarrow> ('a rbheap \<times> ptr) option" where
  "set_ref h root r v = (case r of RootRef \<Rightarrow> Some (h, v)
     | LeftRef p \<Rightarrow> do { h \<leftarrow> set_left h p v; Some (h, root) }
     | RightRef p \<Rightarrow> do { h \<leftarrow> set_right h p v; Some (h, root) })"

partial_function (option) destroy ::
  "'a rbheap \<Rightarrow> ptr \<Rightarrow> ptr_ref \<Rightarrow> ('a rbheap \<times> ptr) option" where
  "destroy h root ref = do {
      tree \<leftarrow> get_ref h root ref;
      if tree = NULL then Some (h, root)
      else do {
        l \<leftarrow> rd left h tree;
        if l \<noteq> NULL then destroy h root (LeftRef tree)
        else do {
          r \<leftarrow> rd right h tree;
          if r \<noteq> NULL then destroy h root (RightRef tree)
          else do {
            h \<leftarrow> free h tree;
            set_ref h root ref NULL } } } }"

end
