(* ===== verification/RBTree_Heap.thy ===== *)
theory RBTree_Heap
  imports RBTree
begin

text \<open>
  The pointer routines of \<open>RBTree\<close> that do not rebalance, on a heap that represents a tree:
  searching, extrema, neighbours, traversals, and the effect of one colour assignment and of one
  rotation.  \<open>rb_repr G h root t\<close> says that the heap \<open>h\<close> with root pointer \<open>root\<close> represents the
  tree \<open>t\<close> of colours and keys, and that exactly the nodes of \<open>t\<close> and the cells of \<open>G\<close> are allocated.
\<close>

fun rb_cell :: "RBTColor \<times> 'a \<Rightarrow> ptr \<Rightarrow> ptr \<Rightarrow> ptr \<Rightarrow> 'a RBTNode" where
  "rb_cell (c, k) l r q = \<lparr>color = c, key = k, left = l, right = r, parent = q\<rparr>"

type_synonym 'a rbtree = "(RBTColor \<times> 'a) atree"
type_synonym 'a rbctx = "(RBTColor \<times> 'a) crumb list"

abbreviation rb_repr :: "ptr set \<Rightarrow> 'a rbheap \<Rightarrow> ptr \<Rightarrow> 'a rbtree \<Rightarrow> bool" where
  "rb_repr \<equiv> repr rb_cell"

abbreviation rb_keys :: "'a rbtree \<Rightarrow> 'a list" where
  "rb_keys t \<equiv> keys_of snd t"

lemmas rb_access =
  rb_set_color_def rb_set_parent_def set_left_def set_right_def
  rb_nonnull_red_def rb_null_or_black_def

lemma rb_cell_selectors [simp]:
  "color (rb_cell p l r q) = fst p" "key (rb_cell p l r q) = snd p"
  "left (rb_cell p l r q) = l" "right (rb_cell p l r q) = r" "parent (rb_cell p l r q) = q"
  by (cases p; simp)+

lemma rb_cell_updates [simp]:
  "color_update (\<lambda>_. c) (rb_cell p l r q) = rb_cell (c, snd p) l r q"
  "left_update (\<lambda>_. x) (rb_cell p l r q) = rb_cell p x r q"
  "right_update (\<lambda>_. x) (rb_cell p l r q) = rb_cell p l x q"
  "parent_update (\<lambda>_. x) (rb_cell p l r q) = rb_cell p l r x"
  by (cases p; simp)+

declare rb_cell.simps [simp del]

interpretation rb: node_layout rb_cell snd key left right parent
  by unfold_locales simp_all

interpretation rb_search: search_walk rb_cell snd key left right parent search
  by unfold_locales (subst search.simps, simp)

interpretation rb_iter: search_walk rb_cell snd key left right parent iterativeSearch
proof (unfold_locales, goal_cases)
  case (1 h x k)
  show ?case
    by (subst iterativeSearch.simps, cases "rd key h x") auto
qed

interpretation rb_min: left_walk rb_cell snd key left right parent minimum_loop
  by unfold_locales (subst minimum_loop.simps, rule refl)

interpretation rb_max: right_walk rb_cell snd key left right parent maximum_loop
  by unfold_locales (subst maximum_loop.simps, rule refl)

interpretation rb_succ: climb_walk rb_cell snd key left right parent successor_loop
  by unfold_locales (subst successor_loop.simps, rule refl)

interpretation rb_pred: climb_walk_back rb_cell snd key left right parent predecessor_loop
  by unfold_locales (subst predecessor_loop.simps, rule refl)

interpretation rb_nav: tree_walks rb_cell snd key left right parent
  minimum_loop maximum_loop successor_loop predecessor_loop successor predecessor
  by unfold_locales (simp_all add: successor_def predecessor_def minimum_def maximum_def cong: if_cong)

subsection \<open>Traversals\<close>

fun preorder_keys :: "'a rbtree \<Rightarrow> 'a list" where
  "preorder_keys Lf = []"
| "preorder_keys (Nd l a p r) = snd p # preorder_keys l @ preorder_keys r"

fun postorder_keys :: "'a rbtree \<Rightarrow> 'a list" where
  "postorder_keys Lf = []"
| "postorder_keys (Nd l a p r) = postorder_keys l @ postorder_keys r @ [snd p]"

lemma inOrder_tree: "tree_in rb_cell h q t \<Longrightarrow> inOrder h (rp t) = Some (rb_keys t)"
proof (induction t arbitrary: q)
  case (Nd l a p r)
  show ?case
    using Nd.prems Nd.IH(1) [of a] Nd.IH(2) [of a]
    by (simp add: inOrder.simps [of h a] heap_simps)
qed (simp add: inOrder.simps)

lemma preOrder_tree: "tree_in rb_cell h q t \<Longrightarrow> preOrder h (rp t) = Some (preorder_keys t)"
proof (induction t arbitrary: q)
  case (Nd l a p r)
  show ?case
    using Nd.prems Nd.IH(1) [of a] Nd.IH(2) [of a]
    by (simp add: preOrder.simps [of h a] heap_simps)
qed (simp add: preOrder.simps)

lemma postOrder_tree: "tree_in rb_cell h q t \<Longrightarrow> postOrder h (rp t) = Some (postorder_keys t)"
proof (induction t arbitrary: q)
  case (Nd l a p r)
  show ?case
    using Nd.prems Nd.IH(1) [of a] Nd.IH(2) [of a]
    by (simp add: postOrder.simps [of h a] heap_simps)
qed (simp add: postOrder.simps)

subsection \<open>Colour assignments and rotations\<close>

text \<open>\<open>if (t) t->parent = z\<close>, on the root \<open>rp t\<close> of a subtree.\<close>

lemma adopt:
  assumes "tree_in rb_cell h q t" and "distinct (addrs t)"
  shows "\<exists>h'. (if rp t \<noteq> NULL then rb_set_parent h (rp t) z else Some h) = Some h'
    \<and> tree_in rb_cell h' z t \<and> dom h' = dom h \<and> (\<forall>a. a \<notin> set (addrs t) \<longrightarrow> h' a = h a)"
  using assms by (cases t) (auto simp: heap_simps shape_simps rb_access)

text \<open>
  Replacing the child \<open>x\<close> of its parent, or the root, by \<open>y\<close>: the code tests either the left
  or the right field of the parent.
\<close>

lemma link_child_left:
  assumes "ctx_in rb_cell h x cs" "x \<noteq> NULL" "x \<notin> set (caddrs cs)" "distinct (caddrs cs)"
    "rp t = x" "rp u = y"
  shows "\<exists>h'. (if cp cs = NULL then Some (h, y) else do {
        l \<leftarrow> rd left h (cp cs);
        h \<leftarrow> (if l = x then set_left h (cp cs) y else set_right h (cp cs) y);
        Some (h, rp (plug cs t)) }) = Some (h', rp (plug cs u))
    \<and> ctx_in rb_cell h' y cs \<and> dom h' = dom h \<and> (\<forall>a. a \<notin> set (caddrs cs) \<longrightarrow> h' a = h a)"
proof (cases cs)
  case Nil
  with assms show ?thesis by simp
next
  case (Cons c ds)
  have "rp (plug cs t) = rp (plug cs u)" using Cons by (intro rp_plug_any) simp
  with assms Cons show ?thesis
    by (cases c) (auto simp: heap_simps shape_simps rb_access simp del: plug.simps dest: rp_eqD rp_eqD2)
qed

lemma link_child_right:
  assumes "ctx_in rb_cell h x cs" "x \<noteq> NULL" "x \<notin> set (caddrs cs)" "distinct (caddrs cs)"
    "rp t = x" "rp u = y"
  shows "\<exists>h'. (if cp cs = NULL then Some (h, y) else do {
        r \<leftarrow> rd right h (cp cs);
        h \<leftarrow> (if x = r then set_right h (cp cs) y else set_left h (cp cs) y);
        Some (h, rp (plug cs t)) }) = Some (h', rp (plug cs u))
    \<and> ctx_in rb_cell h' y cs \<and> dom h' = dom h \<and> (\<forall>a. a \<notin> set (caddrs cs) \<longrightarrow> h' a = h a)"
proof (cases cs)
  case Nil
  with assms show ?thesis by simp
next
  case (Cons c ds)
  have "rp (plug cs t) = rp (plug cs u)" using Cons by (intro rp_plug_any) simp
  with assms Cons show ?thesis
    by (cases c) (auto simp: heap_simps shape_simps rb_access simp del: plug.simps dest: rp_eqD rp_eqD2)
qed

lemma set_color_repr:
  assumes "rb_repr G h root (plug cs (Nd l a p r))"
  shows "\<exists>h'. rb_set_color h a c = Some h' \<and> rb_repr G h' root (plug cs (Nd l a (c, snd p) r))"
proof -
  have "rp (plug cs (Nd l a p r)) = rp (plug cs (Nd l a (c, snd p) r))"
    by (rule rp_plug_cong) simp
  with assms show ?thesis
    by (auto simp: repr_def shape_simps heap_simps rb_access)
qed

lemma leftRotate_repr:
  assumes "rb_repr G h root (plug cs (Nd A x p (Nd B y q C)))" (is "rb_repr G h root (plug cs ?t)")
  shows "\<exists>h' root'. leftRotate h root x = Some (h', root')
           \<and> rb_repr G h' root' (plug cs (Nd (Nd A x p B) y q C))"
    (is "\<exists>h' root'. _ \<and> rb_repr G h' root' (plug cs ?u)")
proof -
  have D: "x \<noteq> y" "x \<notin> set (addrs A)" "x \<notin> set (addrs B)" "x \<notin> set (addrs C)" "x \<notin> set (caddrs cs)"
    "y \<notin> set (addrs A)" "y \<notin> set (addrs B)" "y \<notin> set (addrs C)" "y \<notin> set (caddrs cs)"
    "distinct (addrs B)" "distinct (caddrs cs)"
    "set (addrs B) \<inter> (set (addrs A) \<union> set (addrs C) \<union> set (caddrs cs)) = {}"
    "set (caddrs cs) \<inter> (set (addrs A) \<union> set (addrs C)) = {}"
    using assms by (auto simp: repr_def shape_simps)
  have H: "root = rp (plug cs ?t)" "x \<noteq> NULL" "y \<noteq> NULL"
    "h x = Some (rb_cell p (rp A) y (cp cs))" "h y = Some (rb_cell q (rp B) (rp C) x)"
    "tree_in rb_cell h x A" "tree_in rb_cell h y B" "tree_in rb_cell h y C" "ctx_in rb_cell h x cs"
    using assms by (auto simp: repr_def shape_simps)
  define h1 where "h1 = h(x \<mapsto> rb_cell p (rp A) (rp B) (cp cs))"
  have 1: "tree_in rb_cell h1 y B" "tree_in rb_cell h1 x A" "tree_in rb_cell h1 y C"
    "ctx_in rb_cell h1 x cs"
    using H D by (simp_all add: h1_def shape_simps)
  obtain h2 where h2: "(if rp B \<noteq> NULL then rb_set_parent h1 (rp B) x else Some h1) = Some h2"
    "tree_in rb_cell h2 x B" "dom h2 = dom h1" "\<And>a. a \<notin> set (addrs B) \<Longrightarrow> h2 a = h1 a"
    using adopt [OF 1(1) D(10), of x] by auto
  have 2: "tree_in rb_cell h2 x A" "tree_in rb_cell h2 y C" "ctx_in rb_cell h2 x cs"
    "h2 x = Some (rb_cell p (rp A) (rp B) (cp cs))" "h2 y = Some (rb_cell q (rp B) (rp C) x)"
    subgoal using tree_in_agree [OF 1(2) h2(4)] D by blast
    subgoal using tree_in_agree [OF 1(3) h2(4)] D by blast
    subgoal using ctx_in_agree [OF 1(4) h2(4)] D by blast
    using h2(4) D H by (simp_all add: h1_def)
  define h3 where "h3 = h2(y \<mapsto> rb_cell q (rp B) (rp C) (cp cs))"
  have 3: "ctx_in rb_cell h3 x cs" "tree_in rb_cell h3 x A" "tree_in rb_cell h3 x B"
    "tree_in rb_cell h3 y C"
    using 2 h2(2) D by (simp_all add: h3_def shape_simps)
  obtain h4 where h4: "(if cp cs = NULL then Some (h3, y) else do {
        l \<leftarrow> rd left h3 (cp cs);
        h \<leftarrow> (if l = x then set_left h3 (cp cs) y else set_right h3 (cp cs) y);
        Some (h, root) }) = Some (h4, rp (plug cs ?u))"
    "ctx_in rb_cell h4 y cs" "dom h4 = dom h3" "\<And>a. a \<notin> set (caddrs cs) \<Longrightarrow> h4 a = h3 a"
    using link_child_left [OF 3(1) H(2) D(5) D(11), of ?t ?u y] H(1) by auto
  define h5 where "h5 = h4(y \<mapsto> rb_cell q x (rp C) (cp cs))"
  define h6 where "h6 = h5(x \<mapsto> rb_cell p (rp A) (rp B) y)"
  have 4: "h4 x = Some (rb_cell p (rp A) (rp B) (cp cs))" "h4 y = Some (rb_cell q (rp B) (rp C) (cp cs))"
    "tree_in rb_cell h4 x A" "tree_in rb_cell h4 x B" "tree_in rb_cell h4 y C"
    subgoal using h4(4) 2 D by (simp add: h3_def)
    subgoal using h4(4) 2 D by (simp add: h3_def)
    subgoal using tree_in_agree [OF 3(2) h4(4)] D by blast
    subgoal using tree_in_agree [OF 3(3) h4(4)] D by blast
    subgoal using tree_in_agree [OF 3(4) h4(4)] D by blast
    done
  have run: "rd right h x = Some y" "rd left h y = Some (rp B)" "set_right h x (rp B) = Some h1"
    "rd left h1 y = Some (rp B)" "rd parent h2 x = Some (cp cs)" "rb_set_parent h2 y (cp cs) = Some h3"
    "set_left h4 y x = Some h5" "rb_set_parent h5 x y = Some h6"
    using H(2-5) D(1) 2(4,5) 4(1,2)
    by (simp_all add: heap_simps rb_access h1_def h3_def h5_def h6_def)
  have "leftRotate h root x = Some (h6, rp (plug cs ?u))"
    by (simp only: leftRotate_def run h2(1) h4(1) run_simps)
  moreover have "tree_in rb_cell h6 (cp cs) ?u" "ctx_in rb_cell h6 y cs"
    using 4 D H h4(2) by (simp_all add: h5_def h6_def shape_simps)
  moreover have "dom h6 = dom h"
    using h2(3) h4(3) H(4,5) 4(1,2) by (auto simp: h6_def h5_def h3_def h1_def)
  ultimately show ?thesis
    using assms by (auto simp: repr_def shape_simps)
qed

lemma rightRotate_repr:
  assumes "rb_repr G h root (plug cs (Nd (Nd A x p B) y q C))" (is "rb_repr G h root (plug cs ?t)")
  shows "\<exists>h' root'. rightRotate h root y = Some (h', root')
           \<and> rb_repr G h' root' (plug cs (Nd A x p (Nd B y q C)))"
    (is "\<exists>h' root'. _ \<and> rb_repr G h' root' (plug cs ?u)")
proof -
  have D: "x \<noteq> y" "x \<notin> set (addrs A)" "x \<notin> set (addrs B)" "x \<notin> set (addrs C)" "x \<notin> set (caddrs cs)"
    "y \<notin> set (addrs A)" "y \<notin> set (addrs B)" "y \<notin> set (addrs C)" "y \<notin> set (caddrs cs)"
    "distinct (addrs B)" "distinct (caddrs cs)"
    "set (addrs B) \<inter> (set (addrs A) \<union> set (addrs C) \<union> set (caddrs cs)) = {}"
    "set (caddrs cs) \<inter> (set (addrs A) \<union> set (addrs C)) = {}"
    using assms by (auto simp: repr_def shape_simps)
  have H: "root = rp (plug cs ?t)" "x \<noteq> NULL" "y \<noteq> NULL"
    "h y = Some (rb_cell q x (rp C) (cp cs))" "h x = Some (rb_cell p (rp A) (rp B) y)"
    "tree_in rb_cell h x A" "tree_in rb_cell h x B" "tree_in rb_cell h y C" "ctx_in rb_cell h y cs"
    using assms by (auto simp: repr_def shape_simps)
  define h1 where "h1 = h(y \<mapsto> rb_cell q (rp B) (rp C) (cp cs))"
  have 1: "tree_in rb_cell h1 x B" "tree_in rb_cell h1 x A" "tree_in rb_cell h1 y C"
    "ctx_in rb_cell h1 y cs"
    using H D by (simp_all add: h1_def shape_simps)
  obtain h2 where h2: "(if rp B \<noteq> NULL then rb_set_parent h1 (rp B) y else Some h1) = Some h2"
    "tree_in rb_cell h2 y B" "dom h2 = dom h1" "\<And>a. a \<notin> set (addrs B) \<Longrightarrow> h2 a = h1 a"
    using adopt [OF 1(1) D(10), of y] by auto
  have 2: "tree_in rb_cell h2 x A" "tree_in rb_cell h2 y C" "ctx_in rb_cell h2 y cs"
    "h2 y = Some (rb_cell q (rp B) (rp C) (cp cs))" "h2 x = Some (rb_cell p (rp A) (rp B) y)"
    subgoal using tree_in_agree [OF 1(2) h2(4)] D by blast
    subgoal using tree_in_agree [OF 1(3) h2(4)] D by blast
    subgoal using ctx_in_agree [OF 1(4) h2(4)] D by blast
    using h2(4) D H by (simp_all add: h1_def)
  define h3 where "h3 = h2(x \<mapsto> rb_cell p (rp A) (rp B) (cp cs))"
  have 3: "ctx_in rb_cell h3 y cs" "tree_in rb_cell h3 x A" "tree_in rb_cell h3 y B"
    "tree_in rb_cell h3 y C"
    using 2 h2(2) D by (simp_all add: h3_def shape_simps)
  obtain h4 where h4: "(if cp cs = NULL then Some (h3, x) else do {
        r \<leftarrow> rd right h3 (cp cs);
        h \<leftarrow> (if y = r then set_right h3 (cp cs) x else set_left h3 (cp cs) x);
        Some (h, root) }) = Some (h4, rp (plug cs ?u))"
    "ctx_in rb_cell h4 x cs" "dom h4 = dom h3" "\<And>a. a \<notin> set (caddrs cs) \<Longrightarrow> h4 a = h3 a"
    using link_child_right [OF 3(1) H(3) D(9) D(11), of ?t ?u x] H(1) by auto
  define h5 where "h5 = h4(x \<mapsto> rb_cell p (rp A) y (cp cs))"
  define h6 where "h6 = h5(y \<mapsto> rb_cell q (rp B) (rp C) x)"
  have 4: "h4 y = Some (rb_cell q (rp B) (rp C) (cp cs))" "h4 x = Some (rb_cell p (rp A) (rp B) (cp cs))"
    "tree_in rb_cell h4 x A" "tree_in rb_cell h4 y B" "tree_in rb_cell h4 y C"
    subgoal using h4(4) 2 D by (simp add: h3_def)
    subgoal using h4(4) 2 D by (simp add: h3_def)
    subgoal using tree_in_agree [OF 3(2) h4(4)] D by blast
    subgoal using tree_in_agree [OF 3(3) h4(4)] D by blast
    subgoal using tree_in_agree [OF 3(4) h4(4)] D by blast
    done
  have run: "rd left h y = Some x" "rd right h x = Some (rp B)" "set_left h y (rp B) = Some h1"
    "rd right h1 x = Some (rp B)" "rd parent h2 y = Some (cp cs)" "rb_set_parent h2 x (cp cs) = Some h3"
    "set_right h4 x y = Some h5" "rb_set_parent h5 y x = Some h6"
    using H(2-5) D(1) 2(4,5) 4(1,2)
    by (simp_all add: heap_simps rb_access h1_def h3_def h5_def h6_def)
  have "rightRotate h root y = Some (h6, rp (plug cs ?u))"
    by (simp only: rightRotate_def run h2(1) h4(1) run_simps)
  moreover have "tree_in rb_cell h6 (cp cs) ?u" "ctx_in rb_cell h6 x cs"
    using 4 D H h4(2) by (simp_all add: h5_def h6_def shape_simps)
  moreover have "dom h6 = dom h"
    using h2(3) h4(3) H(4,5) 4(1,2) by (auto simp: h6_def h5_def h3_def h1_def)
  ultimately show ?thesis
    using assms by (auto simp: repr_def shape_simps)
qed

end
