(* ===== verification/RBTree_Insert.thy ===== *)
theory RBTree_Insert
  imports RBTree_Heap
begin

text \<open>
  The red-black invariants and the correctness of \<open>insert\<close>.

  \<open>invc\<close>: no red node has a red child; \<open>invh\<close>: both subtrees of every node have the same number of
  black nodes on their paths; \<open>rb_inv\<close>: both, and the root is black.  \<open>cinvc cs c\<close> and \<open>cinvh cs n\<close>
  say that a context completes a subtree with root colour \<open>c\<close> and black height \<open>n\<close> to a tree with
  these invariants.  \<open>entries t\<close> is the inorder list of the addresses with their keys: no routine
  moves a key to another node.
\<close>

subsection \<open>Invariants\<close>

fun col :: "'a rbtree \<Rightarrow> RBTColor" where
  "col Lf = BLACK"
| "col (Nd l a p r) = fst p"

fun bh :: "'a rbtree \<Rightarrow> nat" where
  "bh Lf = 0"
| "bh (Nd l a p r) = bh l + (if fst p = BLACK then 1 else 0)"

fun invc :: "'a rbtree \<Rightarrow> bool" where
  "invc Lf \<longleftrightarrow> True"
| "invc (Nd l a p r) \<longleftrightarrow> (fst p = RED \<longrightarrow> col l = BLACK \<and> col r = BLACK) \<and> invc l \<and> invc r"

fun invh :: "'a rbtree \<Rightarrow> bool" where
  "invh Lf \<longleftrightarrow> True"
| "invh (Nd l a p r) \<longleftrightarrow> bh l = bh r \<and> invh l \<and> invh r"

definition rb_inv :: "'a rbtree \<Rightarrow> bool" where
  "rb_inv t \<longleftrightarrow> invc t \<and> invh t \<and> col t = BLACK"

definition entries :: "'a rbtree \<Rightarrow> (ptr \<times> 'a) list" where
  "entries t = map (\<lambda>(a, p). (a, snd p)) (items t)"

fun cinvc :: "'a rbctx \<Rightarrow> RBTColor \<Rightarrow> bool" where
  "cinvc [] c \<longleftrightarrow> True"
| "cinvc (LC a p r # cs) c \<longleftrightarrow>
     (fst p = RED \<longrightarrow> c = BLACK \<and> col r = BLACK) \<and> invc r \<and> cinvc cs (fst p)"
| "cinvc (RC l a p # cs) c \<longleftrightarrow>
     (fst p = RED \<longrightarrow> c = BLACK \<and> col l = BLACK) \<and> invc l \<and> cinvc cs (fst p)"

fun cinvh :: "'a rbctx \<Rightarrow> nat \<Rightarrow> bool" where
  "cinvh [] n \<longleftrightarrow> True"
| "cinvh (LC a p r # cs) n \<longleftrightarrow> invh r \<and> bh r = n \<and> cinvh cs (n + (if fst p = BLACK then 1 else 0))"
| "cinvh (RC l a p # cs) n \<longleftrightarrow> invh l \<and> bh l = n \<and> cinvh cs (n + (if fst p = BLACK then 1 else 0))"

lemma not_RED [simp]: "c \<noteq> RED \<longleftrightarrow> c = BLACK"
  by (cases c) auto

lemma invc_plug [shape_simps]: "invc (plug cs t) \<longleftrightarrow> invc t \<and> cinvc cs (col t)"
  by (induction cs t rule: plug.induct) auto

lemma invh_plug [shape_simps]: "invh (plug cs t) \<longleftrightarrow> invh t \<and> cinvh cs (bh t)"
  by (induction cs t rule: plug.induct) auto

lemma cinvc_BLACK: "cinvc cs c \<Longrightarrow> cinvc cs BLACK"
  by (cases cs rule: cp.cases) auto

fun ccol :: "'a rbctx \<Rightarrow> RBTColor" where
  "ccol [] = BLACK"
| "ccol (LC a p r # cs) = fst p"
| "ccol (RC l a p # cs) = fst p"

abbreviation root_black :: "'a rbctx \<Rightarrow> bool" where
  "root_black cs \<equiv> cs = [] \<or> ccol [last cs] = BLACK"

lemma col_plug: "col (plug cs t) = (if cs = [] then col t else ccol [last cs])"
  by (induction cs t rule: plug.induct) auto

lemma cinvc_ccol: "ccol cs = BLACK \<Longrightarrow> cinvc cs c = cinvc cs d"
  by (cases cs rule: ccol.cases) auto

lemma ccol_read: "rb_repr G h root (plug cs t) \<Longrightarrow> rb_nonnull_red h (cp cs) = Some (ccol cs = RED)"
  by (cases cs rule: ccol.cases) (auto simp: repr_def shape_simps heap_simps rb_access)

lemma entries_simps [simp]:
  "entries Lf = []" "entries (Nd l a p r) = entries l @ (a, snd p) # entries r"
  by (simp_all add: entries_def)

lemma entries_plug:
  "entries (plug cs t) = map (\<lambda>(a, p). (a, snd p)) (cleft cs) @ entries t
     @ map (\<lambda>(a, p). (a, snd p)) (cright cs)"
  by (simp add: entries_def items_plug)

lemma entries_plug_cong: "entries t = entries u \<Longrightarrow> entries (plug cs t) = entries (plug cs u)"
  by (simp add: entries_plug)

lemma addrs_entries: "addrs t = map fst (entries t)"
  by (simp add: entries_def addrs_items case_prod_unfold comp_def)

lemma keys_entries: "rb_keys t = map snd (entries t)"
  by (simp add: entries_def pays_items case_prod_unfold comp_def)

subsection \<open>The root is coloured black at the end\<close>

fun blacken :: "'a rbtree \<Rightarrow> 'a rbtree" where
  "blacken Lf = Lf"
| "blacken (Nd l a p r) = Nd l a (BLACK, snd p) r"

lemma blacken_entries [simp]: "entries (blacken t) = entries t"
  by (cases t) auto

lemma blacken_inv: "invc t \<Longrightarrow> invh t \<Longrightarrow> rb_inv (blacken t)"
  by (cases t) (auto simp: rb_inv_def)

lemma blacken_id: "col t = BLACK \<Longrightarrow> blacken t = t"
  by (cases t) auto

lemma set_root_black:
  assumes "rb_repr G h root t" and "t \<noteq> Lf"
  shows "\<exists>h'. rb_set_black h root = Some h' \<and> rb_repr G h' root (blacken t)"
proof (cases t)
  case (Nd l a p r)
  then have "root = a" using assms by (simp add: repr_def)
  then show ?thesis
    using set_color_repr [of G h root "[]" l a p r BLACK] assms Nd by simp
qed (use assms in simp)

subsection \<open>One iteration of the loop\<close>

lemma insertFixUp_left_recolour:
  assumes "rb_repr G h root (plug es (Nd (Nd A p pc B) g gc (Nd U1 u uc U2)))" and "fst uc = RED"
  shows "\<exists>h'. insertFixUp_left h root node p g = Some (h', root, g)
    \<and> rb_repr G h' root (plug es (Nd (Nd A p (BLACK, snd pc) B) g (RED, snd gc) (Nd U1 u (BLACK, snd uc) U2)))"
proof -
  have r: "rd right h g = Some u" "rb_nonnull_red h u = Some True"
    using assms by (auto simp: repr_def shape_simps heap_simps rb_access)
  obtain h1 where 1: "rb_set_black h u = Some h1"
    "rb_repr G h1 root (plug es (Nd (Nd A p pc B) g gc (Nd U1 u (BLACK, snd uc) U2)))"
    using set_color_repr [of G h root "RC (Nd A p pc B) g gc # es" U1 u uc U2 BLACK] assms by auto
  obtain h2 where 2: "rb_set_black h1 p = Some h2"
    "rb_repr G h2 root (plug es (Nd (Nd A p (BLACK, snd pc) B) g gc (Nd U1 u (BLACK, snd uc) U2)))"
    using set_color_repr [of G h1 root "LC g gc (Nd U1 u (BLACK, snd uc) U2) # es" A p pc B BLACK] 1 by auto
  obtain h3 where 3: "rb_set_red h2 g = Some h3"
    "rb_repr G h3 root (plug es (Nd (Nd A p (BLACK, snd pc) B) g (RED, snd gc) (Nd U1 u (BLACK, snd uc) U2)))"
    using set_color_repr [OF 2(2), of RED] by auto
  show ?thesis using 3(2)
    by (simp add: insertFixUp_left_def r 1(1) 2(1) 3(1))
qed

lemma insertFixUp_left_outer:
  assumes "rb_repr G h root (plug es (Nd (Nd A p pc B) g gc U))" and "col U = BLACK"
    and "rp B \<noteq> node"
  shows "\<exists>h' root'. insertFixUp_left h root node p g = Some (h', root', node)
    \<and> rb_repr G h' root' (plug es (Nd A p (BLACK, snd pc) (Nd B g (RED, snd gc) U)))"
proof -
  have r: "rd right h g = Some (rp U)" "rb_nonnull_red h (rp U) = Some False"
    "rd right h p = Some (rp B)"
    using assms by (cases U; auto simp: repr_def shape_simps heap_simps rb_access)+
  obtain h2 where 2: "rb_set_black h p = Some h2"
    "rb_repr G h2 root (plug es (Nd (Nd A p (BLACK, snd pc) B) g gc U))"
    using set_color_repr [of G h root "LC g gc U # es" A p pc B BLACK] assms by auto
  obtain h3 where 3: "rb_set_red h2 g = Some h3"
    "rb_repr G h3 root (plug es (Nd (Nd A p (BLACK, snd pc) B) g (RED, snd gc) U))"
    using set_color_repr [OF 2(2), of RED] by auto
  obtain h4 root' where 4: "rightRotate h3 root g = Some (h4, root')"
    "rb_repr G h4 root' (plug es (Nd A p (BLACK, snd pc) (Nd B g (RED, snd gc) U)))"
    using rightRotate_repr [OF 3(2)] by auto
  show ?thesis using 4(2) assms(3)
    by (simp add: insertFixUp_left_def r 2(1) 3(1) 4(1))
qed

lemma insertFixUp_left_inner:
  assumes "rb_repr G h root (plug es (Nd (Nd A p pc (Nd B x xc C)) g gc U))" and "col U = BLACK"
  shows "\<exists>h' root'. insertFixUp_left h root x p g = Some (h', root', p)
    \<and> rb_repr G h' root' (plug es (Nd (Nd A p pc B) x (BLACK, snd xc) (Nd C g (RED, snd gc) U)))"
proof -
  have r: "rd right h g = Some (rp U)" "rb_nonnull_red h (rp U) = Some False"
    "rd right h p = Some x"
    using assms by (cases U; auto simp: repr_def shape_simps heap_simps rb_access)+
  obtain h1 root1 where 1: "leftRotate h root p = Some (h1, root1)"
    "rb_repr G h1 root1 (plug es (Nd (Nd (Nd A p pc B) x xc C) g gc U))"
    using leftRotate_repr [of G h root "LC g gc U # es" A p pc B x xc C] assms by auto
  obtain h2 where 2: "rb_set_black h1 x = Some h2"
    "rb_repr G h2 root1 (plug es (Nd (Nd (Nd A p pc B) x (BLACK, snd xc) C) g gc U))"
    using set_color_repr [of G h1 root1 "LC g gc U # es" "Nd A p pc B" x xc C BLACK] 1 by auto
  obtain h3 where 3: "rb_set_red h2 g = Some h3"
    "rb_repr G h3 root1 (plug es (Nd (Nd (Nd A p pc B) x (BLACK, snd xc) C) g (RED, snd gc) U))"
    using set_color_repr [OF 2(2), of RED] by auto
  obtain h4 root' where 4: "rightRotate h3 root1 g = Some (h4, root')"
    "rb_repr G h4 root' (plug es (Nd (Nd A p pc B) x (BLACK, snd xc) (Nd C g (RED, snd gc) U)))"
    using rightRotate_repr [OF 3(2)] by auto
  show ?thesis using 4(2)
    by (simp add: insertFixUp_left_def r 1(1) 2(1) 3(1) 4(1))
qed

lemma insertFixUp_right_recolour:
  assumes "rb_repr G h root (plug es (Nd (Nd U1 u uc U2) g gc (Nd A p pc B)))" and "fst uc = RED"
  shows "\<exists>h'. insertFixUp_right h root node p g = Some (h', root, g)
    \<and> rb_repr G h' root (plug es (Nd (Nd U1 u (BLACK, snd uc) U2) g (RED, snd gc) (Nd A p (BLACK, snd pc) B)))"
proof -
  have r: "rd left h g = Some u" "rb_nonnull_red h u = Some True"
    using assms by (auto simp: repr_def shape_simps heap_simps rb_access)
  obtain h1 where 1: "rb_set_black h u = Some h1"
    "rb_repr G h1 root (plug es (Nd (Nd U1 u (BLACK, snd uc) U2) g gc (Nd A p pc B)))"
    using set_color_repr [of G h root "LC g gc (Nd A p pc B) # es" U1 u uc U2 BLACK] assms by auto
  obtain h2 where 2: "rb_set_black h1 p = Some h2"
    "rb_repr G h2 root (plug es (Nd (Nd U1 u (BLACK, snd uc) U2) g gc (Nd A p (BLACK, snd pc) B)))"
    using set_color_repr [of G h1 root "RC (Nd U1 u (BLACK, snd uc) U2) g gc # es" A p pc B BLACK] 1 by auto
  obtain h3 where 3: "rb_set_red h2 g = Some h3"
    "rb_repr G h3 root (plug es (Nd (Nd U1 u (BLACK, snd uc) U2) g (RED, snd gc) (Nd A p (BLACK, snd pc) B)))"
    using set_color_repr [OF 2(2), of RED] by auto
  show ?thesis using 3(2)
    by (simp add: insertFixUp_right_def r 1(1) 2(1) 3(1))
qed

lemma insertFixUp_right_outer:
  assumes "rb_repr G h root (plug es (Nd U g gc (Nd A p pc B)))" and "col U = BLACK"
    and "rp A \<noteq> node"
  shows "\<exists>h' root'. insertFixUp_right h root node p g = Some (h', root', node)
    \<and> rb_repr G h' root' (plug es (Nd (Nd U g (RED, snd gc) A) p (BLACK, snd pc) B))"
proof -
  have r: "rd left h g = Some (rp U)" "rb_nonnull_red h (rp U) = Some False"
    "rd left h p = Some (rp A)"
    using assms by (cases U; auto simp: repr_def shape_simps heap_simps rb_access)+
  obtain h2 where 2: "rb_set_black h p = Some h2"
    "rb_repr G h2 root (plug es (Nd U g gc (Nd A p (BLACK, snd pc) B)))"
    using set_color_repr [of G h root "RC U g gc # es" A p pc B BLACK] assms by auto
  obtain h3 where 3: "rb_set_red h2 g = Some h3"
    "rb_repr G h3 root (plug es (Nd U g (RED, snd gc) (Nd A p (BLACK, snd pc) B)))"
    using set_color_repr [OF 2(2), of RED] by auto
  obtain h4 root' where 4: "leftRotate h3 root g = Some (h4, root')"
    "rb_repr G h4 root' (plug es (Nd (Nd U g (RED, snd gc) A) p (BLACK, snd pc) B))"
    using leftRotate_repr [OF 3(2)] by auto
  show ?thesis using 4(2) assms(3)
    by (simp add: insertFixUp_right_def r 2(1) 3(1) 4(1))
qed

lemma insertFixUp_right_inner:
  assumes "rb_repr G h root (plug es (Nd U g gc (Nd (Nd B x xc C) p pc A)))" and "col U = BLACK"
  shows "\<exists>h' root'. insertFixUp_right h root x p g = Some (h', root', p)
    \<and> rb_repr G h' root' (plug es (Nd (Nd U g (RED, snd gc) B) x (BLACK, snd xc) (Nd C p pc A)))"
proof -
  have r: "rd left h g = Some (rp U)" "rb_nonnull_red h (rp U) = Some False"
    "rd left h p = Some x"
    using assms by (cases U; auto simp: repr_def shape_simps heap_simps rb_access)+
  obtain h1 root1 where 1: "rightRotate h root p = Some (h1, root1)"
    "rb_repr G h1 root1 (plug es (Nd U g gc (Nd B x xc (Nd C p pc A))))"
    using rightRotate_repr [of G h root "RC U g gc # es" B x xc C p pc A] assms by auto
  obtain h2 where 2: "rb_set_black h1 x = Some h2"
    "rb_repr G h2 root1 (plug es (Nd U g gc (Nd B x (BLACK, snd xc) (Nd C p pc A))))"
    using set_color_repr [of G h1 root1 "RC U g gc # es" B x xc "Nd C p pc A" BLACK] 1 by auto
  obtain h3 where 3: "rb_set_red h2 g = Some h3"
    "rb_repr G h3 root1 (plug es (Nd U g (RED, snd gc) (Nd B x (BLACK, snd xc) (Nd C p pc A))))"
    using set_color_repr [OF 2(2), of RED] by auto
  obtain h4 root' where 4: "leftRotate h3 root1 g = Some (h4, root')"
    "rb_repr G h4 root' (plug es (Nd (Nd U g (RED, snd gc) B) x (BLACK, snd xc) (Nd C p pc A)))"
    using leftRotate_repr [OF 3(2)] by auto
  show ?thesis using 4(2)
    by (simp add: insertFixUp_right_def r 1(1) 2(1) 3(1) 4(1))
qed

subsection \<open>The loop\<close>

text \<open>
  What holds at the head of the loop: the focus is red and sound by itself, the context would be
  sound around a black focus, and the root is black unless it is the focus.
\<close>

definition ins_ok :: "'a rbctx \<Rightarrow> 'a rbtree \<Rightarrow> bool" where
  "ins_ok cs t \<longleftrightarrow> invc t \<and> invh t \<and> col t = RED
     \<and> cinvc cs BLACK \<and> cinvh cs (bh t) \<and> root_black cs"

lemma ins_okI:
  "\<lbrakk>invc t; invh t; col t = RED; cinvc cs BLACK; cinvh cs (bh t); root_black cs\<rbrakk> \<Longrightarrow> ins_ok cs t"
  by (simp add: ins_ok_def)

lemma insertFixUp_step_left:
  assumes R: "rb_repr G h root (plug (c # LC g gc U # es) t)"
    and ok: "ins_ok (c # LC g gc U # es) t" and red: "ccol [c] = RED"
  shows "\<exists>h' root' ds u. insertFixUp_left h root (rp t) (cp [c]) g = Some (h', root', rp u)
    \<and> rb_repr G h' root' (plug ds u) \<and> ins_ok ds u \<and> length ds < length es + 2
    \<and> entries (plug ds u) = entries (plug (c # LC g gc U # es) t)"
proof -
  have gB: "fst gc = BLACK" using ok red by (cases c) (auto simp: ins_ok_def)
  have rb: "root_black es" using ok by (auto simp: ins_ok_def split: if_splits)
  obtain A p pc B where P: "plug (c # LC g gc U # es) t = plug es (Nd (Nd A p pc B) g gc U)"
    and cpc: "cp [c] = p" and side: "c = LC p pc B \<and> t = A \<or> c = RC A p pc \<and> t = B"
    by (cases c) auto
  have pR: "fst pc = RED" using red side by auto
  show ?thesis
  proof (cases "col U")
    case RED
    then obtain U1 u uc U2 where U: "U = Nd U1 u uc U2" and uR: "fst uc = RED" by (cases U) auto
    let ?u = "Nd (Nd A p (BLACK, snd pc) B) g (RED, snd gc) (Nd U1 u (BLACK, snd uc) U2)"
    obtain h' where 1: "insertFixUp_left h root (rp t) p g = Some (h', root, g)"
      "rb_repr G h' root (plug es ?u)"
      using insertFixUp_left_recolour [of G h root es A p pc B g gc U1 u uc U2] R P U uR by fastforce
    have "ins_ok es ?u"
      using ok side gB pR U uR rb by (auto simp: ins_ok_def)
    moreover have "entries (plug es ?u) = entries (plug (c # LC g gc U # es) t)"
      unfolding P by (rule entries_plug_cong) (simp add: U)
    ultimately show ?thesis
      using 1 cpc by (intro exI [of _ h'] exI [of _ root] exI [of _ es] exI [of _ ?u]) simp
  next
    case BLACK
    show ?thesis
    proof (cases "c = LC p pc B \<and> t = A")
      case True
      let ?d = "LC p (BLACK, snd pc) (Nd B g (RED, snd gc) U)"
      have "rp B \<noteq> rp t"
        using R P True ok by (cases t) (auto simp: repr_def shape_simps ins_ok_def dest: rp_eqD)
      then obtain h' root' where 1: "insertFixUp_left h root (rp t) p g = Some (h', root', rp t)"
        "rb_repr G h' root' (plug es (Nd A p (BLACK, snd pc) (Nd B g (RED, snd gc) U)))"
        using insertFixUp_left_outer [of G h root es A p pc B g gc U "rp t"] R P BLACK by auto
      have "ins_ok (?d # es) t"
        using ok True gB pR BLACK by (auto simp: ins_ok_def split: if_splits)
      moreover have "entries (plug (?d # es) t) = entries (plug (c # LC g gc U # es) t)"
        unfolding P by (simp, rule entries_plug_cong) (simp add: True)
      ultimately show ?thesis
        using 1 cpc True
        by (intro exI [of _ h'] exI [of _ root'] exI [of _ "?d # es"] exI [of _ t]) simp
    next
      case False
      then obtain C x xc D where t: "t = Nd C x xc D" "c = RC A p pc" "t = B" "fst xc = RED"
        using side ok by (cases t) (auto simp: ins_ok_def)
      let ?d = "LC x (BLACK, snd xc) (Nd D g (RED, snd gc) U)" and ?u = "Nd A p pc C"
      obtain h' root' where 1: "insertFixUp_left h root x p g = Some (h', root', p)"
        "rb_repr G h' root' (plug (?d # es) ?u)"
        using insertFixUp_left_inner [of G h root es A p pc C x xc D g gc U] R t BLACK by auto
      have "ins_ok (?d # es) ?u"
        using ok t gB pR BLACK by (auto simp: ins_ok_def split: if_splits)
      moreover have "entries (plug (?d # es) ?u) = entries (plug (c # LC g gc U # es) t)"
        unfolding P by (simp, rule entries_plug_cong) (simp flip: t(3), simp add: t(1))
      ultimately show ?thesis
        using 1 cpc t
        by (intro exI [of _ h'] exI [of _ root'] exI [of _ "?d # es"] exI [of _ ?u]) simp
    qed
  qed
qed

lemma insertFixUp_step_right:
  assumes R: "rb_repr G h root (plug (c # RC U g gc # es) t)"
    and ok: "ins_ok (c # RC U g gc # es) t" and red: "ccol [c] = RED"
  shows "\<exists>h' root' ds u. insertFixUp_right h root (rp t) (cp [c]) g = Some (h', root', rp u)
    \<and> rb_repr G h' root' (plug ds u) \<and> ins_ok ds u \<and> length ds < length es + 2
    \<and> entries (plug ds u) = entries (plug (c # RC U g gc # es) t)"
proof -
  have gB: "fst gc = BLACK" using ok red by (cases c) (auto simp: ins_ok_def)
  have rb: "root_black es" using ok by (auto simp: ins_ok_def split: if_splits)
  obtain A p pc B where P: "plug (c # RC U g gc # es) t = plug es (Nd U g gc (Nd A p pc B))"
    and cpc: "cp [c] = p" and side: "c = LC p pc B \<and> t = A \<or> c = RC A p pc \<and> t = B"
    by (cases c) auto
  have pR: "fst pc = RED" using red side by auto
  show ?thesis
  proof (cases "col U")
    case RED
    then obtain U1 u uc U2 where U: "U = Nd U1 u uc U2" and uR: "fst uc = RED" by (cases U) auto
    let ?u = "Nd (Nd U1 u (BLACK, snd uc) U2) g (RED, snd gc) (Nd A p (BLACK, snd pc) B)"
    obtain h' where 1: "insertFixUp_right h root (rp t) p g = Some (h', root, g)"
      "rb_repr G h' root (plug es ?u)"
      using insertFixUp_right_recolour [of G h root es U1 u uc U2 g gc A p pc B] R P U uR by fastforce
    have "ins_ok es ?u"
      using ok side gB pR U uR rb by (auto simp: ins_ok_def)
    moreover have "entries (plug es ?u) = entries (plug (c # RC U g gc # es) t)"
      unfolding P by (rule entries_plug_cong) (simp add: U)
    ultimately show ?thesis
      using 1 cpc by (intro exI [of _ h'] exI [of _ root] exI [of _ es] exI [of _ ?u]) simp
  next
    case BLACK
    show ?thesis
    proof (cases "c = RC A p pc \<and> t = B")
      case True
      let ?d = "RC (Nd U g (RED, snd gc) A) p (BLACK, snd pc)"
      have "rp A \<noteq> rp t"
        using R P True ok by (cases t) (auto simp: repr_def shape_simps ins_ok_def dest: rp_eqD)
      then obtain h' root' where 1: "insertFixUp_right h root (rp t) p g = Some (h', root', rp t)"
        "rb_repr G h' root' (plug es (Nd (Nd U g (RED, snd gc) A) p (BLACK, snd pc) B))"
        using insertFixUp_right_outer [of G h root es U g gc A p pc B "rp t"] R P BLACK by auto
      have "ins_ok (?d # es) t"
        using ok True gB pR BLACK by (auto simp: ins_ok_def split: if_splits)
      moreover have "entries (plug (?d # es) t) = entries (plug (c # RC U g gc # es) t)"
        unfolding P by (simp, rule entries_plug_cong) (simp add: True)
      ultimately show ?thesis
        using 1 cpc True
        by (intro exI [of _ h'] exI [of _ root'] exI [of _ "?d # es"] exI [of _ t]) simp
    next
      case False
      then obtain C x xc D where t: "t = Nd C x xc D" "c = LC p pc B" "t = A" "fst xc = RED"
        using side ok by (cases t) (auto simp: ins_ok_def)
      let ?d = "RC (Nd U g (RED, snd gc) C) x (BLACK, snd xc)" and ?u = "Nd D p pc B"
      obtain h' root' where 1: "insertFixUp_right h root x p g = Some (h', root', p)"
        "rb_repr G h' root' (plug (?d # es) ?u)"
        using insertFixUp_right_inner [of G h root es U g gc C x xc D p pc B] R t BLACK by auto
      have "ins_ok (?d # es) ?u"
        using ok t gB pR BLACK by (auto simp: ins_ok_def split: if_splits)
      moreover have "entries (plug (?d # es) ?u) = entries (plug (c # RC U g gc # es) t)"
        unfolding P by (simp, rule entries_plug_cong) (simp flip: t(3), simp add: t(1))
      ultimately show ?thesis
        using 1 cpc t
        by (intro exI [of _ h'] exI [of _ root'] exI [of _ "?d # es"] exI [of _ ?u]) simp
    qed
  qed
qed

lemma insertFixUp_run:
  assumes "rb_repr G h root (plug cs t)" and "ins_ok cs t"
  shows "\<exists>h' root' t'. insertFixUp h root (rp t) = Some (h', root')
    \<and> rb_repr G h' root' t' \<and> rb_inv t' \<and> entries t' = entries (plug cs t)"
  using assms
proof (induction "length cs" arbitrary: cs t h root rule: less_induct)
  case less
  have tn: "t \<noteq> Lf" using less.prems(2) by (auto simp: ins_ok_def)
  have par: "rd parent h (rp t) = Some (cp cs)"
    using less.prems(1) tn by (cases t) (auto simp: repr_def shape_simps heap_simps)
  have test: "rb_nonnull_red h (cp cs) = Some (ccol cs = RED)"
    by (rule ccol_read [OF less.prems(1)])
  show ?case
  proof (cases "ccol cs")
    case BLACK
    have "plug cs t \<noteq> Lf" using tn by (metis items_Nil items_plug append_is_Nil_conv)
    then obtain h' where h': "rb_set_black h root = Some h'" "rb_repr G h' root (blacken (plug cs t))"
      using set_root_black less.prems(1) by blast
    have "rb_inv (blacken (plug cs t))"
      using less.prems(2) cinvc_ccol [OF BLACK, of "col t" RBTColor.BLACK]
      by (intro blacken_inv) (auto simp: ins_ok_def invc_plug invh_plug cinvc_ccol [OF BLACK, of RED])
    then show ?thesis
      using h' BLACK by (auto simp: insertFixUp.simps [of h root] par test)
  next
    case RED
    obtain c g es where cs: "cs = c # g # es"
    proof (cases cs rule: remdups_adj.cases)
      case (2 x)
      then show ?thesis using RED less.prems(2) by (auto simp: ins_ok_def)
    qed (use RED in auto)
    have red: "ccol [c] = RBTColor.RED" using RED cs by (cases c) auto
    have cpc: "cp cs = cp [c]" using cs by (cases c) auto
    have test: "rb_nonnull_red h (cp [c]) = Some True"
      using test RED cpc by simp
    have gp: "rd parent h (cp [c]) = Some (cp (g # es))"
      using less.prems(1) cs by (cases c) (auto simp: repr_def shape_simps heap_simps)
    obtain gl h1 root1 ds u where
      gl: "rd left h (cp (g # es)) = Some gl" and
      step: "(if cp [c] = gl then insertFixUp_left h root (rp t) (cp [c]) (cp (g # es))
          else insertFixUp_right h root (rp t) (cp [c]) (cp (g # es))) = Some (h1, root1, rp u)"
      and 1: "rb_repr G h1 root1 (plug ds u)" "ins_ok ds u" "length ds < length cs"
        "entries (plug ds u) = entries (plug cs t)"
    proof (cases g)
      case (LC a gc U)
      have "rd left h a = Some (cp [c])"
        using less.prems(1) cs LC by (cases c) (auto simp: repr_def shape_simps heap_simps)
      moreover obtain h1 root1 ds u where
        "insertFixUp_left h root (rp t) (cp [c]) a = Some (h1, root1, rp u)"
        "rb_repr G h1 root1 (plug ds u)" "ins_ok ds u" "length ds < length cs"
        "entries (plug ds u) = entries (plug cs t)"
        using insertFixUp_step_left [of G h root c a gc U es t] less.prems cs LC red by auto
      ultimately show ?thesis using LC by (intro that [of _ h1 root1 u ds]) auto
    next
      case (RC U a gc)
      have "rd left h a = Some (rp U)"
        using less.prems(1) cs RC by (cases c) (auto simp: repr_def shape_simps heap_simps)
      moreover have "cp [c] \<noteq> NULL" "cp [c] \<notin> set (addrs U)"
        using less.prems(1) cs RC by (cases c; auto simp: repr_def shape_simps)+
      then have "rp U \<noteq> cp [c]" by (rule rp_notin)
      moreover obtain h1 root1 ds u where
        "insertFixUp_right h root (rp t) (cp [c]) a = Some (h1, root1, rp u)"
        "rb_repr G h1 root1 (plug ds u)" "ins_ok ds u" "length ds < length cs"
        "entries (plug ds u) = entries (plug cs t)"
        using insertFixUp_step_right [of G h root c U a gc es t] less.prems cs RC red by auto
      ultimately show ?thesis using RC by (intro that [of _ h1 root1 u ds]) auto
    qed
    have "insertFixUp h root (rp t) = insertFixUp h1 root1 (rp u)"
      by (subst insertFixUp.simps) (simp only: par test RED cpc gp gl step run_simps simp_thms)
    then show ?thesis using less.hyps [OF 1(3) 1(1,2)] 1(4) by simp
  qed
qed

subsection \<open>Descent and attachment\<close>

interpretation rb_descend: insert_walk rb_cell snd key left right parent insert_descend
  by unfold_locales (subst insert_descend.simps, rule refl)

lemma attach:
  assumes "ctx_in rb_cell h NULL cs" "side_ok snd k cs" "cs \<noteq> []" "distinct (caddrs cs)"
  shows "\<exists>ky h'. rd key h (cp cs) = Some ky
    \<and> (if k < ky then set_left h (cp cs) z else set_right h (cp cs) z) = Some h'
    \<and> ctx_in rb_cell h' z cs \<and> dom h' = dom h \<and> (\<forall>a. a \<noteq> cp cs \<longrightarrow> h' a = h a)"
  using assms by (cases cs rule: cp.cases) (auto simp: heap_simps rb_access shape_simps)

lemma insert_node_attach:
  assumes R: "rb_repr G h root (plug cs Lf)" and side: "side_ok snd k cs" and z: "z \<noteq> NULL" "h z = None"
    and pos: "ins_pos snd k [] (plug cs Lf) = cs"
  shows "\<exists>h' root'. insert_key c z h root k = insertFixUp h' root' z
    \<and> rb_repr G h' root' (plug cs (Nd Lf z (RED, k) Lf))"
proof -
  have zc: "z \<notin> set (caddrs cs) \<union> G"
    using R z domIff [of z h] by (auto simp: repr_def shape_simps)
  moreover have "z \<noteq> cp cs" using zc z cp_in_caddrs [of cs] by (cases "cs = []") auto
  ultimately have zn: "z \<notin> set (caddrs cs)" "z \<notin> G" "z \<noteq> cp cs" by auto
  have D: "distinct (caddrs cs)" "ctx_in rb_cell h NULL cs" "root = rp (plug cs Lf)"
    "dom h = set (caddrs cs) \<union> G" "G \<inter> set (caddrs cs) = {}"
    using R by (auto simp: repr_def shape_simps)
  define h0 where "h0 = h(z \<mapsto> new_RBTNode k c NULL NULL NULL)"
  have n: "new_RBTNode k c NULL NULL NULL = rb_cell (c, k) NULL NULL NULL"
    by (simp add: new_RBTNode_def rb_cell.simps)
  define h1 where "h1 = h(z \<mapsto> rb_cell (c, k) NULL NULL (cp cs))"
  have t0: "tree_in rb_cell h0 NULL (plug cs Lf)"
    using R zn by (simp add: repr_def h0_def tree_in_frame set_addrs_plug)
  have desc: "insert_descend h0 k NULL root = Some (cp cs)"
    using rb_descend.desc_pos [of h0 "[]" "plug cs Lf" k] t0 D(3) pos by simp
  have run: "rd key h0 z = Some k" "rb_set_parent h0 z (cp cs) = Some h1"
    using z n by (simp_all add: heap_simps rb_access h0_def h1_def)
  have c1: "ctx_in rb_cell h1 NULL cs" using D zn by (simp add: h1_def shape_simps)
  obtain h2 root' where h2: "(if cp cs \<noteq> NULL then do {
          ky \<leftarrow> rd key h1 (cp cs);
          h \<leftarrow> (if k < ky then set_left h1 (cp cs) z else set_right h1 (cp cs) z);
          Some (h, root) }
        else Some (h1, z)) = Some (h2, root')"
    "root' = rp (plug cs (Nd Lf z (RED, k) Lf))"
    "ctx_in rb_cell h2 z cs" "dom h2 = dom h1" "h2 z = h1 z"
  proof (cases "cs = []")
    case True
    then show ?thesis using that [of h1 z] by simp
  next
    case False
    then have "cp cs \<noteq> NULL" using c1 by (cases cs rule: cp.cases) auto
    moreover have "root = rp (plug cs (Nd Lf z (RED, k) Lf))"
      using D(3) False rp_plug_any by metis
    ultimately show ?thesis
      using attach [OF c1 side False D(1), of z] that zn by auto
  qed
  define h3 where "h3 = h2(z \<mapsto> rb_cell (RED, k) NULL NULL (cp cs))"
  have red: "rb_set_red h2 z = Some h3"
    using h2(5) z by (simp add: h1_def h3_def heap_simps rb_access)
  have "insert_key c z h root k = insertFixUp h3 root' z"
    using z by (simp only: insert_key_def insert_node_def h0_def [symmetric] run desc h2(1) red
      run_simps simp_thms)
  moreover have "rb_repr G h3 root' (plug cs (Nd Lf z (RED, k) Lf))"
    using h2 D z zn by (auto simp: repr_def shape_simps h3_def h1_def)
  ultimately show ?thesis by blast
qed

subsection \<open>Correctness of insert\<close>

lemma insert_key_run:
  assumes R: "rb_repr G h root t" and inv: "rb_inv t" and srt: "sorted (rb_keys t)"
    and z: "z \<noteq> NULL" "h z = None"
  shows "\<exists>h' root' t'. insert_key c z h root k = Some (h', root') \<and> rb_repr G h' root' t'
    \<and> rb_inv t' \<and> sorted (rb_keys t')
    \<and> entries t' = filter (\<lambda>e. snd e \<le> k) (entries t) @ (z, k) # filter (\<lambda>e. k < snd e) (entries t)"
proof -
  define cs where "cs = ins_pos snd k [] t"
  have t: "t = plug cs Lf" by (simp add: cs_def ins_pos_plug)
  have pos: "ins_pos snd k [] (plug cs Lf) = cs" unfolding t [symmetric] by (rule cs_def [symmetric])
  have side: "side_ok snd k cs" unfolding cs_def by (rule ins_pos_side) simp
  have R': "rb_repr G h root (plug cs Lf)" unfolding t [symmetric] by (rule R)
  obtain h1 root1 where 1: "insert_key c z h root k = insertFixUp h1 root1 z"
    "rb_repr G h1 root1 (plug cs (Nd Lf z (RED, k) Lf))"
    using insert_node_attach [OF R' side z pos] by blast
  have "ins_ok cs (Nd Lf z (RED, k) Lf)"
    using inv by (auto simp: t rb_inv_def ins_ok_def invc_plug invh_plug col_plug split: if_splits)
  from insertFixUp_run [OF 1(2) this] obtain h' root' t' where 2:
    "insertFixUp h1 root1 z = Some (h', root')" "rb_repr G h' root' t'" "rb_inv t'"
    "entries t' = entries (plug cs (Nd Lf z (RED, k) Lf))" by auto
  have b: "\<forall>e \<in> set (cleft cs). snd (snd e) \<le> k" "\<forall>e \<in> set (cright cs). k < snd (snd e)"
    using ins_pos_bounds [of snd "[]" t k] srt by (simp_all add: cs_def)
  have f: "filter (\<lambda>e. snd e \<le> k) (entries t) = map (\<lambda>(a, p). (a, snd p)) (cleft cs)"
    "filter (\<lambda>e. k < snd e) (entries t) = map (\<lambda>(a, p). (a, snd p)) (cright cs)"
    using b by (auto simp: t entries_plug filter_map comp_def case_prod_unfold not_less filter_id_conv
      filter_empty_conv)
  have e: "entries t' = filter (\<lambda>e. snd e \<le> k) (entries t) @ (z, k) # filter (\<lambda>e. k < snd e) (entries t)"
    using 2(4) unfolding f by (simp add: entries_plug)
  have "sorted (rb_keys t')"
    using srt unfolding keys_entries e by (rule sorted_split_insert) simp
  with 1(1) 2(1-3) e show ?thesis
    by (intro exI [of _ h'] exI [of _ root'] exI [of _ t'] conjI) simp_all
qed

end
