(* ===== verification/RBTree_Remove.thy ===== *)
theory RBTree_Remove
  imports RBTree_Insert
begin

text \<open>
  Correctness of \<open>remove\<close>: the loop of \<open>removeFixUp\<close> repairs a tree in which one subtree is a
  black node short, and \<open>remove_node\<close> unlinks exactly the node it is given.
\<close>

lemma not_BLACK [simp]: "c \<noteq> BLACK \<longleftrightarrow> c = RED"
  by (cases c) auto

subsection \<open>The cases with a black sibling\<close>

lemma null_or_black_tree:
  "tree_in rb_cell h q t \<Longrightarrow> rb_null_or_black h (rp t) = Some (col t = BLACK)"
  by (cases t) (auto simp: heap_simps rb_access)

lemma left_case2:
  assumes "rb_repr G h root (plug es (Nd t p pc (Nd lw w wc rw)))"
    and "col lw = BLACK" "col rw = BLACK"
  shows "\<exists>h'. removeFixUp_left_black h root p w = Some (h', root, p, cp es, False)
    \<and> rb_repr G h' root (plug es (Nd t p pc (Nd lw w (RED, snd wc) rw)))"
proof -
  have T: "tree_in rb_cell h w lw" "tree_in rb_cell h w rw"
    using assms(1) by (auto simp: repr_def shape_simps)
  have r: "rd left h w = Some (rp lw)" "rd right h w = Some (rp rw)"
    using assms(1) by (auto simp: repr_def shape_simps heap_simps)
  obtain h1 where 1: "rb_set_red h w = Some h1"
    "rb_repr G h1 root (plug es (Nd t p pc (Nd lw w (RED, snd wc) rw)))"
    using set_color_repr [of G h root "RC t p pc # es" lw w wc rw RED] assms(1) by auto
  have "rd parent h1 p = Some (cp es)"
    using 1(2) by (auto simp: repr_def shape_simps heap_simps)
  then show ?thesis
    using 1 assms(2,3)
    by (simp add: removeFixUp_left_black_def r null_or_black_tree [OF T(1)] null_or_black_tree [OF T(2)])
qed

lemma left_case3:
  assumes "rb_repr G h root (plug es (Nd t p pc (Nd (Nd a x xc b) w wc rw)))"
    and "fst xc = RED" "col rw = BLACK"
  shows "\<exists>h' root'. removeFixUp_left_black h root p w = Some (h', root', root', p, True)
    \<and> rb_repr G h' root' (plug es (Nd (Nd t p (BLACK, snd pc) a) x (fst pc, snd xc)
        (Nd b w (BLACK, snd wc) rw)))"
proof -
  have T: "tree_in rb_cell h w rw"
    using assms(1) by (auto simp: repr_def shape_simps)
  have r: "rd left h w = Some x" "rd right h w = Some (rp rw)" "rb_null_or_black h x = Some False"
    using assms(1,2) by (auto simp: repr_def shape_simps heap_simps rb_access)
  obtain h1 where 1: "rb_set_black h x = Some h1"
    "rb_repr G h1 root (plug es (Nd t p pc (Nd (Nd a x (BLACK, snd xc) b) w wc rw)))"
    using set_color_repr [of G h root "LC w wc rw # RC t p pc # es" a x xc b BLACK] assms(1) by auto
  obtain h2 where 2: "rb_set_red h1 w = Some h2"
    "rb_repr G h2 root (plug es (Nd t p pc (Nd (Nd a x (BLACK, snd xc) b) w (RED, snd wc) rw)))"
    using set_color_repr [of G h1 root "RC t p pc # es" _ w wc rw RED] 1(2) by auto
  obtain h3 root1 where 3: "rightRotate h2 root w = Some (h3, root1)"
    "rb_repr G h3 root1 (plug es (Nd t p pc (Nd a x (BLACK, snd xc) (Nd b w (RED, snd wc) rw))))"
    using rightRotate_repr [of G h2 root "RC t p pc # es" a x "(BLACK, snd xc)" b w "(RED, snd wc)" rw]
      2(2) by auto
  have r3: "rd right h3 p = Some x" "rd color h3 p = Some (fst pc)"
    using 3(2) by (auto simp: repr_def shape_simps heap_simps)
  obtain h4 where 4: "rb_set_color h3 x (fst pc) = Some h4"
    "rb_repr G h4 root1 (plug es (Nd t p pc (Nd a x (fst pc, snd xc) (Nd b w (RED, snd wc) rw))))"
    using set_color_repr [of G h3 root1 "RC t p pc # es" a x "(BLACK, snd xc)" _ "fst pc"] 3(2) by auto
  obtain h5 where 5: "rb_set_black h4 p = Some h5"
    "rb_repr G h5 root1 (plug es (Nd t p (BLACK, snd pc) (Nd a x (fst pc, snd xc) (Nd b w (RED, snd wc) rw))))"
    using set_color_repr [OF 4(2), of BLACK] by auto
  have r5: "rd right h5 x = Some w"
    using 5(2) by (auto simp: repr_def shape_simps heap_simps)
  obtain h6 where 6: "rb_set_black h5 w = Some h6"
    "rb_repr G h6 root1 (plug es (Nd t p (BLACK, snd pc) (Nd a x (fst pc, snd xc) (Nd b w (BLACK, snd wc) rw))))"
    using set_color_repr [of G h5 root1 "RC a x (fst pc, snd xc) # RC t p (BLACK, snd pc) # es"
        b w "(RED, snd wc)" rw BLACK] 5(2) by auto
  obtain h7 root' where 7: "leftRotate h6 root1 p = Some (h7, root')"
    "rb_repr G h7 root' (plug es (Nd (Nd t p (BLACK, snd pc) a) x (fst pc, snd xc) (Nd b w (BLACK, snd wc) rw)))"
    using leftRotate_repr [OF 6(2)] by auto
  show ?thesis
    using 7(2) assms(3)
    by (simp add: removeFixUp_left_black_def r null_or_black_tree [OF T] 1(1) 2(1) 3(1) r3 4(1) 5(1)
        r5 6(1) 7(1))
qed

lemma left_case4:
  assumes "rb_repr G h root (plug es (Nd t p pc (Nd lw w wc (Nd c y yc d))))"
    and "fst yc = RED"
  shows "\<exists>h' root'. removeFixUp_left_black h root p w = Some (h', root', root', p, True)
    \<and> rb_repr G h' root' (plug es (Nd (Nd t p (BLACK, snd pc) lw) w (fst pc, snd wc)
        (Nd c y (BLACK, snd yc) d)))"
proof -
  have T: "tree_in rb_cell h w lw"
    using assms(1) by (auto simp: repr_def shape_simps)
  have r: "rd left h w = Some (rp lw)" "rd right h w = Some y" "rb_null_or_black h y = Some False"
    "rd color h p = Some (fst pc)"
    using assms by (auto simp: repr_def shape_simps heap_simps rb_access)
  obtain h4 where 4: "rb_set_color h w (fst pc) = Some h4"
    "rb_repr G h4 root (plug es (Nd t p pc (Nd lw w (fst pc, snd wc) (Nd c y yc d))))"
    using set_color_repr [of G h root "RC t p pc # es" lw w wc _ "fst pc"] assms(1) by auto
  obtain h5 where 5: "rb_set_black h4 p = Some h5"
    "rb_repr G h5 root (plug es (Nd t p (BLACK, snd pc) (Nd lw w (fst pc, snd wc) (Nd c y yc d))))"
    using set_color_repr [OF 4(2), of BLACK] by auto
  have r5: "rd right h5 w = Some y"
    using 5(2) by (auto simp: repr_def shape_simps heap_simps)
  obtain h6 where 6: "rb_set_black h5 y = Some h6"
    "rb_repr G h6 root (plug es (Nd t p (BLACK, snd pc) (Nd lw w (fst pc, snd wc) (Nd c y (BLACK, snd yc) d))))"
    using set_color_repr [of G h5 root "RC lw w (fst pc, snd wc) # RC t p (BLACK, snd pc) # es"
        c y yc d BLACK] 5(2) by auto
  obtain h7 root' where 7: "leftRotate h6 root p = Some (h7, root')"
    "rb_repr G h7 root' (plug es (Nd (Nd t p (BLACK, snd pc) lw) w (fst pc, snd wc) (Nd c y (BLACK, snd yc) d)))"
    using leftRotate_repr [OF 6(2)] by auto
  show ?thesis
    using 7(2)
    by (simp add: removeFixUp_left_black_def r null_or_black_tree [OF T] 4(1) 5(1) r5 6(1) 7(1))
qed

lemma right_case2:
  assumes "rb_repr G h root (plug es (Nd (Nd lw w wc rw) p pc t))"
    and "col lw = BLACK" "col rw = BLACK"
  shows "\<exists>h'. removeFixUp_right_black h root p w = Some (h', root, p, cp es, False)
    \<and> rb_repr G h' root (plug es (Nd (Nd lw w (RED, snd wc) rw) p pc t))"
proof -
  have T: "tree_in rb_cell h w lw" "tree_in rb_cell h w rw"
    using assms(1) by (auto simp: repr_def shape_simps)
  have r: "rd left h w = Some (rp lw)" "rd right h w = Some (rp rw)"
    using assms(1) by (auto simp: repr_def shape_simps heap_simps)
  obtain h1 where 1: "rb_set_red h w = Some h1"
    "rb_repr G h1 root (plug es (Nd (Nd lw w (RED, snd wc) rw) p pc t))"
    using set_color_repr [of G h root "LC p pc t # es" lw w wc rw RED] assms(1) by auto
  have "rd parent h1 p = Some (cp es)"
    using 1(2) by (auto simp: repr_def shape_simps heap_simps)
  then show ?thesis
    using 1 assms(2,3)
    by (simp add: removeFixUp_right_black_def r null_or_black_tree [OF T(1)] null_or_black_tree [OF T(2)])
qed

lemma right_case3:
  assumes "rb_repr G h root (plug es (Nd (Nd lw w wc (Nd a x xc b)) p pc t))"
    and "fst xc = RED" "col lw = BLACK"
  shows "\<exists>h' root'. removeFixUp_right_black h root p w = Some (h', root', root', p, True)
    \<and> rb_repr G h' root' (plug es (Nd (Nd lw w (BLACK, snd wc) a) x (fst pc, snd xc)
        (Nd b p (BLACK, snd pc) t)))"
proof -
  have T: "tree_in rb_cell h w lw"
    using assms(1) by (auto simp: repr_def shape_simps)
  have r: "rd left h w = Some (rp lw)" "rd right h w = Some x" "rb_null_or_black h x = Some False"
    using assms(1,2) by (auto simp: repr_def shape_simps heap_simps rb_access)
  obtain h1 where 1: "rb_set_black h x = Some h1"
    "rb_repr G h1 root (plug es (Nd (Nd lw w wc (Nd a x (BLACK, snd xc) b)) p pc t))"
    using set_color_repr [of G h root "RC lw w wc # LC p pc t # es" a x xc b BLACK] assms(1) by auto
  obtain h2 where 2: "rb_set_red h1 w = Some h2"
    "rb_repr G h2 root (plug es (Nd (Nd lw w (RED, snd wc) (Nd a x (BLACK, snd xc) b)) p pc t))"
    using set_color_repr [of G h1 root "LC p pc t # es" lw w wc _ RED] 1(2) by auto
  obtain h3 root1 where 3: "leftRotate h2 root w = Some (h3, root1)"
    "rb_repr G h3 root1 (plug es (Nd (Nd (Nd lw w (RED, snd wc) a) x (BLACK, snd xc) b) p pc t))"
    using leftRotate_repr [of G h2 root "LC p pc t # es" lw w "(RED, snd wc)" a x "(BLACK, snd xc)" b]
      2(2) by auto
  have r3: "rd left h3 p = Some x" "rd color h3 p = Some (fst pc)"
    using 3(2) by (auto simp: repr_def shape_simps heap_simps)
  obtain h4 where 4: "rb_set_color h3 x (fst pc) = Some h4"
    "rb_repr G h4 root1 (plug es (Nd (Nd (Nd lw w (RED, snd wc) a) x (fst pc, snd xc) b) p pc t))"
    using set_color_repr [of G h3 root1 "LC p pc t # es" _ x "(BLACK, snd xc)" b "fst pc"] 3(2) by auto
  obtain h5 where 5: "rb_set_black h4 p = Some h5"
    "rb_repr G h5 root1 (plug es (Nd (Nd (Nd lw w (RED, snd wc) a) x (fst pc, snd xc) b) p (BLACK, snd pc) t))"
    using set_color_repr [OF 4(2), of BLACK] by auto
  have r5: "rd left h5 x = Some w"
    using 5(2) by (auto simp: repr_def shape_simps heap_simps)
  obtain h6 where 6: "rb_set_black h5 w = Some h6"
    "rb_repr G h6 root1 (plug es (Nd (Nd (Nd lw w (BLACK, snd wc) a) x (fst pc, snd xc) b) p (BLACK, snd pc) t))"
    using set_color_repr [of G h5 root1 "LC x (fst pc, snd xc) b # LC p (BLACK, snd pc) t # es"
        lw w "(RED, snd wc)" a BLACK] 5(2) by auto
  obtain h7 root' where 7: "rightRotate h6 root1 p = Some (h7, root')"
    "rb_repr G h7 root' (plug es (Nd (Nd lw w (BLACK, snd wc) a) x (fst pc, snd xc) (Nd b p (BLACK, snd pc) t)))"
    using rightRotate_repr [OF 6(2)] by auto
  show ?thesis
    using 7(2) assms(3)
    by (simp add: removeFixUp_right_black_def r null_or_black_tree [OF T] 1(1) 2(1) 3(1) r3 4(1) 5(1)
        r5 6(1) 7(1))
qed

lemma right_case4:
  assumes "rb_repr G h root (plug es (Nd (Nd (Nd c y yc d) w wc rw) p pc t))"
    and "fst yc = RED"
  shows "\<exists>h' root'. removeFixUp_right_black h root p w = Some (h', root', root', p, True)
    \<and> rb_repr G h' root' (plug es (Nd (Nd c y (BLACK, snd yc) d) w (fst pc, snd wc)
        (Nd rw p (BLACK, snd pc) t)))"
proof -
  have T: "tree_in rb_cell h w rw"
    using assms(1) by (auto simp: repr_def shape_simps)
  have r: "rd left h w = Some y" "rd right h w = Some (rp rw)" "rb_null_or_black h y = Some False"
    "rd color h p = Some (fst pc)"
    using assms by (auto simp: repr_def shape_simps heap_simps rb_access)
  obtain h4 where 4: "rb_set_color h w (fst pc) = Some h4"
    "rb_repr G h4 root (plug es (Nd (Nd (Nd c y yc d) w (fst pc, snd wc) rw) p pc t))"
    using set_color_repr [of G h root "LC p pc t # es" _ w wc rw "fst pc"] assms(1) by auto
  obtain h5 where 5: "rb_set_black h4 p = Some h5"
    "rb_repr G h5 root (plug es (Nd (Nd (Nd c y yc d) w (fst pc, snd wc) rw) p (BLACK, snd pc) t))"
    using set_color_repr [OF 4(2), of BLACK] by auto
  have r5: "rd left h5 w = Some y"
    using 5(2) by (auto simp: repr_def shape_simps heap_simps)
  obtain h6 where 6: "rb_set_black h5 y = Some h6"
    "rb_repr G h6 root (plug es (Nd (Nd (Nd c y (BLACK, snd yc) d) w (fst pc, snd wc) rw) p (BLACK, snd pc) t))"
    using set_color_repr [of G h5 root "LC w (fst pc, snd wc) rw # LC p (BLACK, snd pc) t # es"
        c y yc d BLACK] 5(2) by auto
  obtain h7 root' where 7: "rightRotate h6 root p = Some (h7, root')"
    "rb_repr G h7 root' (plug es (Nd (Nd c y (BLACK, snd yc) d) w (fst pc, snd wc) (Nd rw p (BLACK, snd pc) t)))"
    using rightRotate_repr [OF 6(2)] by auto
  show ?thesis
    using 7(2)
    by (simp add: removeFixUp_right_black_def r null_or_black_tree [OF T] 4(1) 5(1) r5 6(1) 7(1))
qed

subsection \<open>One iteration\<close>

text \<open>
  At the head of the loop the subtree at the focus is one black node short; it is sound except
  that its root may be red with a red child, which the blackening after the loop repairs.
\<close>

definition del_ok :: "'a rbctx \<Rightarrow> 'a rbtree \<Rightarrow> bool" where
  "del_ok cs t \<longleftrightarrow> invc (blacken t) \<and> invh t
     \<and> cinvc cs BLACK \<and> cinvh cs (Suc (bh t)) \<and> root_black cs"

text \<open>
  The two ways an iteration ends: with a new focus whose root is red or whose context is shorter,
  or in \<open>break\<close> with a red-black tree.
\<close>

definition step_result :: "ptr set \<Rightarrow> 'a rbctx \<Rightarrow> 'a rbtree \<Rightarrow> ptr \<Rightarrow>
    ('a rbheap \<times> ptr \<times> ptr \<times> ptr \<times> bool) option \<Rightarrow> bool" where
  "step_result G cs t p x \<longleftrightarrow>
     (\<exists>h' root' es u. x = Some (h', root', rp u, cp es, False) \<and> rb_repr G h' root' (plug es u)
        \<and> del_ok es u \<and> (col u = RED \<or> length es < length cs) \<and> entries (plug es u) = entries (plug cs t))
   \<or> (\<exists>h' root' T. x = Some (h', root', root', p, True) \<and> rb_repr G h' root' T
        \<and> rb_inv T \<and> entries T = entries (plug cs t))"

lemma step_resultI1:
  "\<lbrakk>x = Some (h', root', rp u, cp es, False); rb_repr G h' root' (plug es u); del_ok es u;
    col u = RED \<or> length es < length cs; entries (plug es u) = entries (plug cs t)\<rbrakk>
   \<Longrightarrow> step_result G cs t p x"
  unfolding step_result_def by blast

lemma step_resultI2:
  "\<lbrakk>x = Some (h', root', root', p, True); rb_repr G h' root' T; rb_inv T;
    entries T = entries (plug cs t)\<rbrakk> \<Longrightarrow> step_result G cs t p x"
  unfolding step_result_def by blast

lemma rb_inv_plug:
  "rb_inv (plug cs t) \<longleftrightarrow> invc t \<and> invh t \<and> cinvc cs (col t) \<and> cinvh cs (bh t)
     \<and> (if cs = [] then col t = BLACK else ccol [last cs] = BLACK)"
  by (auto simp: rb_inv_def invc_plug invh_plug col_plug)

lemma left_black_step:
  assumes R: "rb_repr G h root (plug es (Nd t p pc (Nd lw w wc rw)))"
    and ok: "del_ok (LC p pc (Nd lw w wc rw) # es) t" and t: "col t = BLACK" and w: "fst wc = BLACK"
    and len: "fst pc = RED \<or> length es < length cs"
    and ent: "entries (plug cs s) = entries (plug es (Nd t p pc (Nd lw w wc rw)))"
  shows "step_result G cs s p (removeFixUp_left_black h root p w)"
proof (cases "col lw = BLACK \<and> col rw = BLACK")
  case True
  let ?u = "Nd t p pc (Nd lw w (RED, snd wc) rw)"
  obtain h' where 1: "removeFixUp_left_black h root p w = Some (h', root, p, cp es, False)"
    "rb_repr G h' root (plug es ?u)"
    using left_case2 [OF R] True by blast
  have "del_ok es ?u"
    using ok t w True by (auto simp: del_ok_def blacken_id split: if_splits dest: cinvc_BLACK)
  moreover have "entries (plug es ?u) = entries (plug cs s)"
    unfolding ent by (rule entries_plug_cong) simp
  ultimately show ?thesis
    using step_resultI1 [of _ h' root ?u es G cs s p] 1 len by simp
next
  case False
  show ?thesis
  proof (cases "col rw")
    case BLACK
    then obtain a x xc b where l: "lw = Nd a x xc b" "fst xc = RED"
      using False by (cases lw) auto
    let ?u = "Nd (Nd t p (BLACK, snd pc) a) x (fst pc, snd xc) (Nd b w (BLACK, snd wc) rw)"
    obtain h' root' where 1: "removeFixUp_left_black h root p w = Some (h', root', root', p, True)"
      "rb_repr G h' root' (plug es ?u)"
      using left_case3 [of G h root es t p pc a x xc b w wc rw] R l BLACK by blast
    have "rb_inv (plug es ?u)"
      using ok t w l BLACK unfolding rb_inv_plug
      by (auto simp: del_ok_def blacken_id split: if_splits)
    moreover have "entries (plug es ?u) = entries (plug cs s)"
      unfolding ent by (rule entries_plug_cong) (simp add: l)
    ultimately show ?thesis using 1 by (intro step_resultI2)
  next
    case RED
    then obtain c y yc d where r: "rw = Nd c y yc d" "fst yc = RBTColor.RED" by (cases rw) auto
    let ?u = "Nd (Nd t p (BLACK, snd pc) lw) w (fst pc, snd wc) (Nd c y (BLACK, snd yc) d)"
    obtain h' root' where 1: "removeFixUp_left_black h root p w = Some (h', root', root', p, True)"
      "rb_repr G h' root' (plug es ?u)"
      using left_case4 [of G h root es t p pc lw w wc c y yc d] R r by blast
    have "rb_inv (plug es ?u)"
      using ok t w r unfolding rb_inv_plug
      by (auto simp: del_ok_def blacken_id split: if_splits)
    moreover have "entries (plug es ?u) = entries (plug cs s)"
      unfolding ent by (rule entries_plug_cong) (simp add: r)
    ultimately show ?thesis using 1 by (intro step_resultI2)
  qed
qed

lemma removeFixUp_left_step:
  assumes R: "rb_repr G h root (plug (LC p pc W # es) t)"
    and ok: "del_ok (LC p pc W # es) t" and t: "col t = BLACK"
  shows "step_result G (LC p pc W # es) t p (removeFixUp_left h root p)"
proof -
  obtain lw w wc rw where W: "W = Nd lw w wc rw"
    using ok by (cases W) (auto simp: del_ok_def)
  have r: "rd right h p = Some w" "rd color h w = Some (fst wc)"
    using R W by (auto simp: repr_def shape_simps heap_simps)
  show ?thesis
  proof (cases "fst wc")
    case BLACK
    have "removeFixUp_left h root p = removeFixUp_left_black h root p w"
      by (simp add: removeFixUp_left_def r BLACK)
    then show ?thesis
      using left_black_step [of G h root es t p pc lw w wc rw "LC p pc W # es" t] R ok t W BLACK
      by simp
  next
    case RED
    have pB: "fst pc = RBTColor.BLACK" and lB: "col lw = RBTColor.BLACK"
      using ok W RED by (auto simp: del_ok_def)
    obtain vl v vc vr where L: "lw = Nd vl v vc vr"
      using ok W RED by (cases lw) (auto simp: del_ok_def)
    obtain h1 where 1: "rb_set_black h w = Some h1"
      "rb_repr G h1 root (plug es (Nd t p pc (Nd lw w (BLACK, snd wc) rw)))"
      using set_color_repr [of G h root "RC t p pc # es" lw w wc rw BLACK] R W by auto
    obtain h2 where 2: "rb_set_red h1 p = Some h2"
      "rb_repr G h2 root (plug es (Nd t p (RED, snd pc) (Nd lw w (BLACK, snd wc) rw)))"
      using set_color_repr [OF 1(2), of RBTColor.RED] by auto
    let ?d = "LC w (BLACK, snd wc) rw"
    obtain h3 root3 where 3: "leftRotate h2 root p = Some (h3, root3)"
      "rb_repr G h3 root3 (plug (?d # es) (Nd t p (RED, snd pc) lw))"
      using leftRotate_repr [OF 2(2)] by auto
    have "rd right h3 p = Some v"
      using 3(2) L by (auto simp: repr_def shape_simps heap_simps)
    then have run: "removeFixUp_left h root p = removeFixUp_left_black h3 root3 p v"
      by (simp add: removeFixUp_left_def r RED 1(1) 2(1) 3(1))
    have "del_ok (LC p (RED, snd pc) lw # ?d # es) t"
      using ok W RED pB lB t by (auto simp: del_ok_def split: if_splits)
    moreover have "entries (plug (LC p pc W # es) t) = entries (plug (?d # es) (Nd t p (RED, snd pc) lw))"
      by (simp, rule entries_plug_cong) (simp add: W)
    ultimately show ?thesis
      unfolding run
      using left_black_step [of G h3 root3 "?d # es" t p "(RED, snd pc)" vl v vc vr "LC p pc W # es" t]
        3(2) L lB t by simp
  qed
qed

lemma right_black_step:
  assumes R: "rb_repr G h root (plug es (Nd (Nd lw w wc rw) p pc t))"
    and ok: "del_ok (RC (Nd lw w wc rw) p pc # es) t" and t: "col t = BLACK" and w: "fst wc = BLACK"
    and len: "fst pc = RED \<or> length es < length cs"
    and ent: "entries (plug cs s) = entries (plug es (Nd (Nd lw w wc rw) p pc t))"
  shows "step_result G cs s p (removeFixUp_right_black h root p w)"
proof (cases "col lw = BLACK \<and> col rw = BLACK")
  case True
  let ?u = "Nd (Nd lw w (RED, snd wc) rw) p pc t"
  obtain h' where 1: "removeFixUp_right_black h root p w = Some (h', root, p, cp es, False)"
    "rb_repr G h' root (plug es ?u)"
    using right_case2 [OF R] True by blast
  have "del_ok es ?u"
    using ok t w True by (auto simp: del_ok_def blacken_id split: if_splits dest: cinvc_BLACK)
  moreover have "entries (plug es ?u) = entries (plug cs s)"
    unfolding ent by (rule entries_plug_cong) simp
  ultimately show ?thesis
    using step_resultI1 [of _ h' root ?u es G cs s p] 1 len by simp
next
  case False
  show ?thesis
  proof (cases "col lw")
    case BLACK
    then obtain a x xc b where r: "rw = Nd a x xc b" "fst xc = RED"
      using False by (cases rw) auto
    let ?u = "Nd (Nd lw w (BLACK, snd wc) a) x (fst pc, snd xc) (Nd b p (BLACK, snd pc) t)"
    obtain h' root' where 1: "removeFixUp_right_black h root p w = Some (h', root', root', p, True)"
      "rb_repr G h' root' (plug es ?u)"
      using right_case3 [of G h root es lw w wc a x xc b p pc t] R r BLACK by blast
    have "rb_inv (plug es ?u)"
      using ok t w r BLACK unfolding rb_inv_plug
      by (auto simp: del_ok_def blacken_id split: if_splits)
    moreover have "entries (plug es ?u) = entries (plug cs s)"
      unfolding ent by (rule entries_plug_cong) (simp add: r)
    ultimately show ?thesis using 1 by (intro step_resultI2)
  next
    case RED
    then obtain c y yc d where l: "lw = Nd c y yc d" "fst yc = RBTColor.RED" by (cases lw) auto
    let ?u = "Nd (Nd c y (BLACK, snd yc) d) w (fst pc, snd wc) (Nd rw p (BLACK, snd pc) t)"
    obtain h' root' where 1: "removeFixUp_right_black h root p w = Some (h', root', root', p, True)"
      "rb_repr G h' root' (plug es ?u)"
      using right_case4 [of G h root es c y yc d w wc rw p pc t] R l by blast
    have "rb_inv (plug es ?u)"
      using ok t w l unfolding rb_inv_plug
      by (auto simp: del_ok_def blacken_id split: if_splits)
    moreover have "entries (plug es ?u) = entries (plug cs s)"
      unfolding ent by (rule entries_plug_cong) (simp add: l)
    ultimately show ?thesis using 1 by (intro step_resultI2)
  qed
qed

lemma removeFixUp_right_step:
  assumes R: "rb_repr G h root (plug (RC W p pc # es) t)"
    and ok: "del_ok (RC W p pc # es) t" and t: "col t = BLACK"
  shows "step_result G (RC W p pc # es) t p (removeFixUp_right h root p)"
proof -
  obtain lw w wc rw where W: "W = Nd lw w wc rw"
    using ok by (cases W) (auto simp: del_ok_def)
  have r: "rd left h p = Some w" "rd color h w = Some (fst wc)"
    using R W by (auto simp: repr_def shape_simps heap_simps)
  show ?thesis
  proof (cases "fst wc")
    case BLACK
    have "removeFixUp_right h root p = removeFixUp_right_black h root p w"
      by (simp add: removeFixUp_right_def r BLACK)
    then show ?thesis
      using right_black_step [of G h root es lw w wc rw p pc t "RC W p pc # es" t] R ok t W BLACK
      by simp
  next
    case RED
    have pB: "fst pc = RBTColor.BLACK" and rB: "col rw = RBTColor.BLACK"
      using ok W RED by (auto simp: del_ok_def)
    obtain vl v vc vr where V: "rw = Nd vl v vc vr"
      using ok W RED by (cases rw) (auto simp: del_ok_def)
    obtain h1 where 1: "rb_set_black h w = Some h1"
      "rb_repr G h1 root (plug es (Nd (Nd lw w (BLACK, snd wc) rw) p pc t))"
      using set_color_repr [of G h root "LC p pc t # es" lw w wc rw BLACK] R W by auto
    obtain h2 where 2: "rb_set_red h1 p = Some h2"
      "rb_repr G h2 root (plug es (Nd (Nd lw w (BLACK, snd wc) rw) p (RED, snd pc) t))"
      using set_color_repr [OF 1(2), of RBTColor.RED] by auto
    let ?d = "RC lw w (BLACK, snd wc)"
    obtain h3 root3 where 3: "rightRotate h2 root p = Some (h3, root3)"
      "rb_repr G h3 root3 (plug (?d # es) (Nd rw p (RED, snd pc) t))"
      using rightRotate_repr [OF 2(2)] by auto
    have "rd left h3 p = Some v"
      using 3(2) V by (auto simp: repr_def shape_simps heap_simps)
    then have run: "removeFixUp_right h root p = removeFixUp_right_black h3 root3 p v"
      by (simp add: removeFixUp_right_def r RED 1(1) 2(1) 3(1))
    have "del_ok (RC rw p (RED, snd pc) # ?d # es) t"
      using ok W RED pB rB t by (auto simp: del_ok_def split: if_splits)
    moreover have "entries (plug (RC W p pc # es) t) = entries (plug (?d # es) (Nd rw p (RED, snd pc) t))"
      by (simp, rule entries_plug_cong) (simp add: W)
    ultimately show ?thesis
      unfolding run
      using right_black_step [of G h3 root3 "?d # es" vl v vc vr p "(RED, snd pc)" t "RC W p pc # es" t]
        3(2) V rB t by simp
  qed
qed

subsection \<open>The loop\<close>

lemma removeFixUp_end_repr:
  assumes "rb_repr G h root (plug cs t)"
  shows "\<exists>h'. removeFixUp_end h root (rp t) = Some (h', root) \<and> rb_repr G h' root (plug cs (blacken t))"
proof (cases t)
  case Lf
  then show ?thesis using assms by (auto simp: removeFixUp_end_def)
next
  case (Nd l a p r)
  then have "a \<noteq> NULL" using assms by (auto simp: repr_def shape_simps)
  moreover obtain h' where "rb_set_black h a = Some h'" "rb_repr G h' root (plug cs (blacken t))"
    using set_color_repr [of G h root cs l a p r BLACK] assms Nd by auto
  ultimately show ?thesis using Nd by (simp add: removeFixUp_end_def)
qed

lemma rb_inv_Lf: "rb_inv Lf"
  by (simp add: rb_inv_def)

lemma del_ok_stop:
  assumes "del_ok cs t" and "col t = RED \<or> cs = []"
  shows "rb_inv (plug cs (blacken t))"
  using assms rb_inv_Lf by (cases t) (auto simp: del_ok_def rb_inv_plug)

lemma removeFixUp_run:
  assumes "rb_repr G h root (plug cs t)" and "del_ok cs t"
  shows "\<exists>h' root' t'. removeFixUp h root (rp t) (cp cs) = Some (h', root')
    \<and> rb_repr G h' root' t' \<and> rb_inv t' \<and> entries t' = entries (plug cs t)"
  using assms
proof (induction "if col t = RED then 0 else Suc (length cs)" arbitrary: cs t h root rule: less_induct)
  case less
  have test: "rb_null_or_black h (rp t) = Some (col t = BLACK)"
    using null_or_black_tree [of h "cp cs" t] less.prems(1) by (simp add: repr_def shape_simps)
  have iff: "rp t \<noteq> root \<longleftrightarrow> cs \<noteq> []"
    using repr_root_iff [OF less.prems(1)] by simp
  show ?case
  proof (cases "col t = BLACK \<and> cs \<noteq> []")
    case False
    then have stop: "col t = RED \<or> cs = []" by auto
    obtain h' where "removeFixUp_end h root (rp t) = Some (h', root)"
      "rb_repr G h' root (plug cs (blacken t))"
      using removeFixUp_end_repr [OF less.prems(1)] by blast
    moreover have "removeFixUp h root (rp t) (cp cs) = removeFixUp_end h root (rp t)"
      using False iff by (subst removeFixUp.simps) (auto simp: test)
    ultimately show ?thesis
      using del_ok_stop [OF less.prems(2) stop] entries_plug_cong [OF blacken_entries] by auto
  next
    case True
    then obtain c es where cs: "cs = c # es" by (cases cs) auto
    obtain gl x where step: "rd left h (cp cs) = Some gl"
      "(if gl = rp t then removeFixUp_left h root (cp cs) else removeFixUp_right h root (cp cs)) = x"
      and x: "step_result G cs t (cp cs) x"
    proof (cases c)
      case (LC p pc W)
      have "rd left h p = Some (rp t)"
        using less.prems(1) cs LC by (auto simp: repr_def shape_simps heap_simps)
      then show ?thesis
        using that removeFixUp_left_step [of G h root p pc W es t] less.prems cs LC True by auto
    next
      case (RC W p pc)
      have gl: "rd left h p = Some (rp W)"
        using less.prems(1) cs RC by (auto simp: repr_def shape_simps heap_simps)
      have "rp W \<noteq> NULL" "rp W \<in> set (addrs W)"
        using less.prems cs RC by (cases W; auto simp: del_ok_def repr_def shape_simps)+
      moreover have "set (addrs W) \<inter> set (addrs t) = {}"
        using less.prems(1) cs RC by (auto simp: repr_def shape_simps)
      ultimately have "rp W \<noteq> rp t" using rp_in_addrs [of t] by auto
      then show ?thesis
        using gl that removeFixUp_right_step [of G h root W p pc es t] less.prems cs RC True by auto
    qed
    have nr: "rp t \<noteq> root" using True iff by simp
    from x consider (on) h1 root1 ds u where
        "x = Some (h1, root1, rp u, cp ds, False)" "rb_repr G h1 root1 (plug ds u)"
        "del_ok ds u" "entries (plug ds u) = entries (plug cs t)"
        "col u = RED \<or> length ds < length cs"
      | (off) h1 root1 T where
        "x = Some (h1, root1, root1, cp cs, True)" "rb_repr G h1 root1 T" "rb_inv T"
        "entries T = entries (plug cs t)"
      unfolding step_result_def by blast
    then show ?thesis
    proof cases
      case on
      then have lt: "(if col u = RED then 0 else Suc (length ds)) < (if col t = RED then 0 else Suc (length cs))"
        using True by auto
      have "removeFixUp h root (rp t) (cp cs) = removeFixUp h1 root1 (rp u) (cp ds)"
        by (subst removeFixUp.simps [of h root]) (simp only: test True nr step on(1) run_simps simp_thms)
      then show ?thesis using less.hyps [OF lt on(2,3)] on(4) by simp
    next
      case off
      have "removeFixUp h root (rp t) (cp cs) = removeFixUp_end h1 root1 root1"
        by (subst removeFixUp.simps) (simp only: test True nr step off(1) run_simps simp_thms)
      moreover obtain h' where "removeFixUp_end h1 root1 (rp T) = Some (h', root1)"
        "rb_repr G h' root1 (blacken T)"
        using removeFixUp_end_repr [of G h1 root1 "[]" T] off(2) by auto
      moreover have "root1 = rp T" using off(2) by (simp add: repr_def)
      moreover have "blacken T = T" using off(3) by (intro blacken_id) (simp add: rb_inv_def)
      ultimately show ?thesis using off(3,4) by auto
    qed
  qed
qed

end
