(* ===== verification/RBTree_Delete.thy ===== *)
theory RBTree_Delete
  imports RBTree_Remove
begin

text \<open>
  Correctness of \<open>remove\<close>: unlinking a node with at most one child, replacing a node with two
  children by its successor, the repair, and the \<open>delete\<close> at the end.
\<close>

subsection \<open>After the unlinking\<close>

lemma free_repr:
  assumes "rb_repr (insert x G) h root t" and "x \<notin> G" and "x \<noteq> NULL"
  shows "\<exists>h'. free h x = Some h' \<and> rb_repr G h' root t"
proof -
  obtain n where "h x = Some n" using assms(1) by (auto simp: repr_def)
  then show ?thesis using assms by (auto simp: repr_def heap_simps shape_simps)
qed

lemma remove_finish:
  assumes R: "rb_repr (insert x G) h root (plug cs u)" and x: "x \<notin> G" "x \<noteq> NULL"
    and ok: "if c = BLACK then del_ok cs u else rb_inv (plug cs u)"
  shows "\<exists>h' root' t'. do {
        (h, root) \<leftarrow> (if c = BLACK then removeFixUp h root (rp u) (cp cs) else Some (h, root));
        h \<leftarrow> free h x;
        Some (h, root) } = Some (h', root')
    \<and> rb_repr G h' root' t' \<and> rb_inv t' \<and> entries t' = entries (plug cs u)"
proof -
  obtain h1 root1 t' where 1:
    "(if c = BLACK then removeFixUp h root (rp u) (cp cs) else Some (h, root)) = Some (h1, root1)"
    "rb_repr (insert x G) h1 root1 t'" "rb_inv t'" "entries t' = entries (plug cs u)"
  proof (cases "c = BLACK")
    case True
    then show ?thesis using that removeFixUp_run [OF R] ok by auto
  next
    case False
    then show ?thesis using that [of h root "plug cs u"] R ok by auto
  qed
  obtain h' where "free h1 x = Some h'" "rb_repr G h' root1 t'"
    using free_repr [OF 1(2) x] by blast
  then show ?thesis using 1 by (auto simp: 1(1))
qed

lemma unlink_ok:
  assumes "rb_inv (plug cs (Nd l x p r))" and "l = Lf \<and> u = r \<or> r = Lf \<and> u = l"
  shows "if fst p = BLACK then del_ok cs u else rb_inv (plug cs u)"
proof -
  have "invc u \<Longrightarrow> invc (blacken u)" by (cases u) auto
  with assms show ?thesis
    by (auto simp: rb_inv_plug del_ok_def cinvc_BLACK split: if_splits)
qed

lemma relink:
  assumes "ctx_in rb_cell h x cs" "x \<noteq> NULL" "x \<notin> set (caddrs cs)" "distinct (caddrs cs)"
    "rp t = x" "rp u = y"
  shows "\<exists>h'. (if cp cs \<noteq> NULL then do {
        l \<leftarrow> rd left h (cp cs);
        h \<leftarrow> (if l = x then set_left h (cp cs) y else set_right h (cp cs) y);
        Some (h, rp (plug cs t)) } else Some (h, y)) = Some (h', rp (plug cs u))
    \<and> ctx_in rb_cell h' y cs \<and> dom h' = dom h \<and> (\<forall>a. a \<notin> set (caddrs cs) \<longrightarrow> h' a = h a)"
  using link_child_left [OF assms] by (cases "cp cs = NULL") auto

subsection \<open>At most one child\<close>

lemma remove_node_one:
  assumes R: "rb_repr G h root (plug cs (Nd l x p r))" and inv: "rb_inv (plug cs (Nd l x p r))"
    and one: "l = Lf \<and> u = r \<or> r = Lf \<and> u = l"
  shows "\<exists>h' root' t'. remove_node h root x = Some (h', root') \<and> rb_repr G h' root' t'
    \<and> rb_inv t' \<and> entries t' = entries (plug cs u)"
proof -
  have D: "x \<noteq> NULL" "x \<notin> set (caddrs cs)" "distinct (caddrs cs)" "x \<notin> set (addrs u)" "x \<notin> G"
    "distinct (addrs u)" "set (caddrs cs) \<inter> set (addrs u) = {}" "set (addrs (Nd l x p r)) = insert x (set (addrs u))"
    using R one by (auto simp: repr_def shape_simps)
  have H: "h x = Some (rb_cell p (rp l) (rp r) (cp cs))" "tree_in rb_cell h x u" "ctx_in rb_cell h x cs"
    "root = rp (plug cs (Nd l x p r))" "dom h = insert x (set (addrs u)) \<union> set (caddrs cs) \<union> G"
    "G \<inter> set (caddrs cs) = {}" "G \<inter> set (addrs u) = {}"
    using R one by (auto simp: repr_def shape_simps)
  have ne: "rp l = NULL \<or> rp r = NULL" "(if rp l \<noteq> NULL then Some (rp l) else Some (rp r)) = Some (rp u)"
    using R one rp_eq_NULL [of rb_cell h x u] H(2) by auto
  obtain h1 where h1: "(if rp u \<noteq> NULL then rb_set_parent h (rp u) (cp cs) else Some h) = Some h1"
    "tree_in rb_cell h1 (cp cs) u" "dom h1 = dom h" "\<And>a. a \<notin> set (addrs u) \<Longrightarrow> h1 a = h a"
    using adopt [OF H(2) D(6), of "cp cs"] by auto
  have c1: "ctx_in rb_cell h1 x cs" using ctx_in_agree [OF H(3) h1(4)] D by blast
  obtain h2 where h2: "(if cp cs \<noteq> NULL then do {
        l \<leftarrow> rd left h1 (cp cs);
        h \<leftarrow> (if l = x then set_left h1 (cp cs) (rp u) else set_right h1 (cp cs) (rp u));
        Some (h, root) } else Some (h1, rp u)) = Some (h2, rp (plug cs u))"
    "ctx_in rb_cell h2 (rp u) cs" "dom h2 = dom h1" "\<And>a. a \<notin> set (caddrs cs) \<Longrightarrow> h2 a = h1 a"
    using relink [OF c1 D(1-3), of "Nd l x p r" u "rp u"] unfolding H(4) by auto
  have "tree_in rb_cell h2 (cp cs) u" using tree_in_agree [OF h1(2) h2(4)] D by blast
  then have "rb_repr (insert x G) h2 (rp (plug cs u)) (plug cs u)"
    using h2(2,3) h1(3) H D by (auto simp: repr_def shape_simps)
  from remove_finish [OF this D(5,1) unlink_ok [OF inv one]] obtain h' root' t' where f: "do {
        (h, root) \<leftarrow> (if fst p = BLACK then removeFixUp h2 (rp (plug cs u)) (rp u) (cp cs)
          else Some (h2, rp (plug cs u)));
        h \<leftarrow> free h x;
        Some (h, root) } = Some (h', root')"
    "rb_repr G h' root' t'" "rb_inv t'" "entries t' = entries (plug cs u)" by blast
  have run: "rd left h x = Some (rp l)" "rd right h x = Some (rp r)" "rd parent h x = Some (cp cs)"
    "rd color h x = Some (fst p)"
    using H(1) D(1) by (simp_all add: heap_simps)
  have nb: "(rp l \<noteq> NULL \<and> rp r \<noteq> NULL) = False" using ne(1) by simp
  have "remove_node h root x = Some (h', root')"
    by (simp only: remove_node_def run run_simps nb ne(2) h1(1) h2(1) f(1))
  then show ?thesis using f(2-4) by blast
qed

subsection \<open>Two children\<close>

text \<open>The path to the least node of a subtree turns left only.\<close>

fun all_lc :: "'a rbctx \<Rightarrow> bool" where
  "all_lc [] \<longleftrightarrow> True"
| "all_lc (LC a p r # cs) \<longleftrightarrow> all_lc cs"
| "all_lc (RC l a p # cs) \<longleftrightarrow> False"

lemma all_lc_append: "all_lc cs \<Longrightarrow> all_lc (cs @ [LC a p r])"
  by (induction cs rule: all_lc.induct) auto

lemma min_split:
  "t \<noteq> Lf \<Longrightarrow> \<exists>ds m q s. t = plug ds (Nd Lf m q s) \<and> leftmost t = m \<and> all_lc ds"
proof (induction t)
  case (Nd l a p r)
  show ?case
  proof (cases "l = Lf")
    case True
    then show ?thesis by (intro exI [of _ "[]"]) auto
  next
    case False
    then obtain ds m q s where "l = plug ds (Nd Lf m q s)" "leftmost l = m" "all_lc ds"
      using Nd.IH(1) by blast
    then have "Nd l a p r = plug (ds @ [LC a p r]) (Nd Lf m q s)"
      "leftmost (Nd l a p r) = m" "all_lc (ds @ [LC a p r])"
      using False by (simp_all add: plug_append all_lc_append)
    then show ?thesis by blast
  qed
qed simp

lemma all_lc_cleft: "all_lc ds \<Longrightarrow> cleft ds = []"
  by (induction ds rule: all_lc.induct) auto

lemma swap_inv:
  "fst p = fst p' \<Longrightarrow> cinvc (ds @ RC l a p # cs) c = cinvc (ds @ RC l a' p' # cs) c"
  "fst p = fst p' \<Longrightarrow> cinvh (ds @ RC l a p # cs) n = cinvh (ds @ RC l a' p' # cs) n"
proof (induction ds arbitrary: c n)
  case (Cons d ds)
  { case 1 then show ?case using Cons by (cases d) auto }
  { case 2 then show ?case using Cons by (cases d) auto }
qed auto

lemma swap_rb_inv:
  "fst p = fst p' \<Longrightarrow>
   rb_inv (plug (ds @ RC l a p # cs) t) = rb_inv (plug (ds @ RC l a' p' # cs) t)"
  unfolding rb_inv_plug using swap_inv [of p p' ds l a cs _ a'] by auto

lemma seg_set_left:
  assumes "seg_in rb_cell h x m ds" "all_lc ds" "ds \<noteq> []" "distinct (caddrs ds)"
  shows "\<exists>h'. set_left h (cp ds) y = Some h' \<and> seg_in rb_cell h' x y ds \<and> dom h' = dom h
    \<and> (\<forall>a. a \<noteq> cp ds \<longrightarrow> h' a = h a)"
proof (cases ds rule: cp.cases)
  case (2 a p r es)
  then have n: "a \<noteq> NULL" "h a = Some (rb_cell p m (rp r) (cpq x es))" "a \<notin> set (addrs r)"
    "a \<notin> set (caddrs es)" "tree_in rb_cell h a r" "seg_in rb_cell h x a es"
    using assms by auto
  have "seg_in rb_cell (h(a \<mapsto> rb_cell p y (rp r) (cpq x es))) x a es"
    using seg_in_agree [OF n(6), of "{a}"] n(4) by simp
  then show ?thesis using 2 n by (auto simp: heap_simps rb_access shape_simps)
qed (use assms in auto)

text \<open>The first part: \<open>replace\<close> is cut out of the right subtree, which becomes its own.\<close>

lemma cut_successor:
  assumes m: "h m = Some (rb_cell q NULL (rp s) (cpq x ds))" "m \<noteq> NULL"
    and T: "tree_in rb_cell h m s" "seg_in rb_cell h x m ds"
    and x: "h x = Some (rb_cell p l (rp (plug ds (Nd Lf m q s))) np)" "x \<noteq> NULL"
    and D: "distinct (m # x # addrs s @ caddrs ds)" and lc: "all_lc ds"
  shows "\<exists>h'. (if cpq x ds = x then Some (h, m) else do {
          h \<leftarrow> (if rp s \<noteq> NULL then rb_set_parent h (rp s) (cpq x ds) else Some h);
          h \<leftarrow> set_left h (cpq x ds) (rp s);
          nr \<leftarrow> rd right h x;
          h \<leftarrow> set_right h m nr;
          nr \<leftarrow> rd right h x;
          h \<leftarrow> rb_set_parent h nr m;
          Some (h, cpq x ds) }) = Some (h', cpq m ds)
    \<and> h' m = Some (rb_cell q NULL (rp (plug ds s)) (cpq x ds)) \<and> tree_in rb_cell h' m (plug ds s)
    \<and> dom h' = dom h \<and> (\<forall>a. a \<noteq> m \<longrightarrow> a \<notin> set (addrs s) \<longrightarrow> a \<notin> set (caddrs ds) \<longrightarrow> h' a = h a)"
proof (cases "ds = []")
  case True
  then show ?thesis using assms by (auto simp: cpq_def)
next
  case False
  have cx: "cpq x ds = cp ds" "cpq m ds = cp ds" "cp ds \<in> set (caddrs ds)"
    using False cp_in_caddrs [of ds] by (auto simp: cpq_def)
  then have cd: "cp ds \<noteq> x" "cp ds \<noteq> m" "cp ds \<notin> set (addrs s)" using D by auto
  have rpe: "rp (plug ds (Nd Lf m q s)) = rp (plug ds s)" by (rule rp_plug_any [OF False])
  obtain h1 where h1: "(if rp s \<noteq> NULL then rb_set_parent h (rp s) (cp ds) else Some h) = Some h1"
    "tree_in rb_cell h1 (cp ds) s" "dom h1 = dom h" "\<And>a. a \<notin> set (addrs s) \<Longrightarrow> h1 a = h a"
    using adopt [OF T(1), of "cp ds"] D by auto
  have s1: "seg_in rb_cell h1 x m ds" using seg_in_agree [OF T(2) h1(4)] D by auto
  obtain h2 where h2: "set_left h1 (cp ds) (rp s) = Some h2" "seg_in rb_cell h2 x (rp s) ds"
    "dom h2 = dom h1" "\<And>a. a \<noteq> cp ds \<Longrightarrow> h2 a = h1 a"
    using seg_set_left [OF s1 lc False, of "rp s"] D by auto
  have t2: "tree_in rb_cell h2 (cp ds) s"
    using tree_in_agree [OF h1(2), of "{cp ds}" h2] h2(4) cd by auto
  have m2: "h2 m = Some (rb_cell q NULL (rp s) (cp ds))" "h2 x = Some (rb_cell p l (rp (plug ds s)) np)"
    using m x D cd h1(4) h2(4) cx rpe by auto
  define h3 where "h3 = h2(m \<mapsto> rb_cell q NULL (rp (plug ds s)) (cp ds))"
  have "tree_in rb_cell h2 x (plug ds s)"
    using t2 h2(2) cx(1) by (simp add: tree_in_plug_seg)
  then have t3: "tree_in rb_cell h3 x (plug ds s)"
    using D by (simp add: h3_def tree_in_frame set_addrs_plug)
  have "plug ds s \<noteq> Lf" using False rp_plug_in [of ds s] cx by (metis items_Nil items_plug 
      append_is_Nil_conv addrs.simps(1) empty_iff empty_set set_addrs_plug Un_iff)
  then have nn: "rp (plug ds s) \<noteq> NULL" using rp_eq_NULL [OF t3] by simp
  obtain h4 where h4: "rb_set_parent h3 (rp (plug ds s)) m = Some h4"
    "tree_in rb_cell h4 m (plug ds s)" "dom h4 = dom h3"
    "\<And>a. a \<notin> set (addrs (plug ds s)) \<Longrightarrow> h4 a = h3 a"
    using adopt [OF t3, of m] nn D by (auto simp: distinct_addrs_plug)
  have run: "rd right h2 x = Some (rp (plug ds s))" "set_right h2 m (rp (plug ds s)) = Some h3"
    "rd right h3 x = Some (rp (plug ds s))"
    using m2 m(2) x(2) D by (auto simp: h3_def heap_simps rb_access)
  have "(cp ds = x) = False" using cd by simp
  note r = this
  have fr: "\<forall>a. a \<noteq> m \<longrightarrow> a \<notin> set (addrs s) \<longrightarrow> a \<notin> set (caddrs ds) \<longrightarrow> h4 a = h a"
  proof (intro allI impI)
    fix a assume a: "a \<noteq> m" "a \<notin> set (addrs s)" "a \<notin> set (caddrs ds)"
    then have "a \<noteq> cp ds" using cx(3) by auto
    then show "h4 a = h a" using a h4(4) [of a] h2(4) [of a] h1(4) [of a] by (simp add: h3_def set_addrs_plug)
  qed
  have d4: "dom h4 = dom h" using h1(3) h2(3) h4(3) m2(1) by (auto simp: h3_def)
  have m4: "h4 m = Some (rb_cell q NULL (rp (plug ds s)) (cp ds))"
    using h4(4) [of m] D by (simp add: h3_def set_addrs_plug)
  show ?thesis
    unfolding cx(1,2)
    by (intro exI [of _ h4] conjI fr d4 m4 h4(2)) (simp only: r h1(1) h2(1) run h4(1) run_simps)
qed

text \<open>The second part: \<open>replace\<close> takes over the links and the colour of \<open>node\<close>.\<close>

lemma take_over:
  assumes m: "h m = Some (rb_cell q NULL mr mp)" "m \<noteq> NULL" and x: "h x = Some (rb_cell p (rp l) xr np)"
    "x \<noteq> NULL" and T: "tree_in rb_cell h x l" "l \<noteq> Lf" and D: "distinct (m # x # addrs l)"
  shows "\<exists>h'. do {
          np \<leftarrow> rd parent h x;
          h \<leftarrow> rb_set_parent h m np;
          nc \<leftarrow> rd color h x;
          h \<leftarrow> rb_set_color h m nc;
          nl \<leftarrow> rd left h x;
          h \<leftarrow> set_left h m nl;
          nl \<leftarrow> rd left h x;
          h \<leftarrow> rb_set_parent h nl m;
          f h } = f h'
    \<and> h' m = Some (rb_cell (fst p, snd q) (rp l) mr np) \<and> tree_in rb_cell h' m l
    \<and> dom h' = dom h \<and> (\<forall>a. a \<noteq> m \<longrightarrow> a \<notin> set (addrs l) \<longrightarrow> h' a = h a)"
proof -
  define h1 where "h1 = h(m \<mapsto> rb_cell q NULL mr np)"
  define h2 where "h2 = h(m \<mapsto> rb_cell (fst p, snd q) NULL mr np)"
  define h3 where "h3 = h(m \<mapsto> rb_cell (fst p, snd q) (rp l) mr np)"
  have t3: "tree_in rb_cell h3 x l" using T D by (simp add: h3_def tree_in_frame)
  have nn: "rp l \<noteq> NULL" using rp_eq_NULL [OF T(1)] T(2) by simp
  obtain h4 where h4: "rb_set_parent h3 (rp l) m = Some h4" "tree_in rb_cell h4 m l"
    "dom h4 = dom h3" "\<And>a. a \<notin> set (addrs l) \<Longrightarrow> h4 a = h3 a"
    using adopt [OF t3, of m] nn D by auto
  have run: "rd parent h x = Some np" "rb_set_parent h m np = Some h1" "rd color h1 x = Some (fst p)"
    "rb_set_color h1 m (fst p) = Some h2" "rd left h2 x = Some (rp l)" "set_left h2 m (rp l) = Some h3"
    "rd left h3 x = Some (rp l)"
    using m x D by (auto simp: h1_def h2_def h3_def heap_simps rb_access)
  have "dom h4 = dom h" using h4(3) m(1) by (auto simp: h3_def)
  moreover have "h4 m = Some (rb_cell (fst p, snd q) (rp l) mr np)" using h4(4) D by (simp add: h3_def)
  moreover have "\<forall>a. a \<noteq> m \<longrightarrow> a \<notin> set (addrs l) \<longrightarrow> h4 a = h a" using h4(4) by (simp add: h3_def)
  ultimately show ?thesis
    by (intro exI [of _ h4]) (simp only: run h4(1) h4(2) run_simps simp_thms)
qed

lemma remove_node_two:
  fixes h :: "'a::linorder rbheap"
  assumes R: "rb_repr G h root (plug cs (Nd l x p (plug ds (Nd Lf m q s))))"
    and inv: "rb_inv (plug cs (Nd l x p (plug ds (Nd Lf m q s))))"
    and l: "l \<noteq> Lf" and lc: "all_lc ds" and lm: "leftmost (plug ds (Nd Lf m q s)) = m"
  shows "\<exists>h' root' t'. remove_node h root x = Some (h', root') \<and> rb_repr G h' root' t'
    \<and> rb_inv t' \<and> entries t' = entries (plug cs (Nd l m (fst p, snd q) (plug ds s)))"
    (is "\<exists>h' root' t'. _ \<and> _ \<and> _ \<and> entries t' = entries (plug cs ?n)")
proof -
  let ?r = "plug ds (Nd Lf m q s)"
  have D: "distinct (x # m # addrs l @ addrs s @ caddrs ds @ caddrs cs)"
    "G \<inter> set (x # m # addrs l @ addrs s @ caddrs ds @ caddrs cs) = {}"
    using R by (auto simp: repr_def shape_simps)
  have H: "h x = Some (rb_cell p (rp l) (rp ?r) (cp cs))" "x \<noteq> NULL" "tree_in rb_cell h x l"
    "ctx_in rb_cell h x cs" "tree_in rb_cell h x ?r" "root = rp (plug cs (Nd l x p ?r))"
    "dom h = set (x # m # addrs l @ addrs s @ caddrs ds @ caddrs cs) \<union> G"
    using R by (auto simp: repr_def shape_simps)
  have M: "h m = Some (rb_cell q NULL (rp s) (cpq x ds))" "m \<noteq> NULL" "tree_in rb_cell h m s"
    "seg_in rb_cell h x m ds"
    using H(5) by (auto simp: tree_in_plug_seg)
  have rne: "?r \<noteq> Lf" using lm M(2) by auto
  have nn: "rp l \<noteq> NULL" "rp ?r \<noteq> NULL" using rp_eq_NULL [OF H(3)] rp_eq_NULL [OF H(5)] l rne by auto
  have mn: "minimum_loop h (rp ?r) = Some m"
    using rb_min.desc_leftmost [OF H(5) rne] lm by simp
  \<comment> \<open>the parent of node\<close>
  obtain h1 where h1: "(if cp cs \<noteq> NULL then do {
        l \<leftarrow> rd left h (cp cs);
        h \<leftarrow> (if l = x then set_left h (cp cs) m else set_right h (cp cs) m);
        Some (h, root) } else Some (h, m)) = Some (h1, rp (plug cs ?n))"
    "ctx_in rb_cell h1 m cs" "dom h1 = dom h" "\<And>a. a \<notin> set (caddrs cs) \<Longrightarrow> h1 a = h a"
    using relink [OF H(4,2), of "Nd l x p ?r" ?n m] D unfolding H(6) by auto
  have e1: "h1 m = h m" "h1 x = h x" using h1(4) D by auto
  have T1: "tree_in rb_cell h1 m s" "seg_in rb_cell h1 x m ds" "tree_in rb_cell h1 x l"
    subgoal using tree_in_agree [where S = "set (caddrs cs)", OF M(3) h1(4)] D by auto
    subgoal using seg_in_agree [where S = "set (caddrs cs)", OF M(4) h1(4)] D by auto
    subgoal using tree_in_agree [where S = "set (caddrs cs)", OF H(3) h1(4)] D by auto
    done
  \<comment> \<open>the right subtree\<close>
  have Dc: "distinct (m # x # addrs s @ caddrs ds)" using D(1) by auto
  obtain h2 where h2: "(if cpq x ds = x then Some (h1, m) else do {
          h \<leftarrow> (if rp s \<noteq> NULL then rb_set_parent h1 (rp s) (cpq x ds) else Some h1);
          h \<leftarrow> set_left h (cpq x ds) (rp s);
          nr \<leftarrow> rd right h x;
          h \<leftarrow> set_right h m nr;
          nr \<leftarrow> rd right h x;
          h \<leftarrow> rb_set_parent h nr m;
          Some (h, cpq x ds) }) = Some (h2, cpq m ds)"
    "h2 m = Some (rb_cell q NULL (rp (plug ds s)) (cpq x ds))" "tree_in rb_cell h2 m (plug ds s)"
    "dom h2 = dom h1" "\<And>a. a \<noteq> m \<Longrightarrow> a \<notin> set (addrs s) \<Longrightarrow> a \<notin> set (caddrs ds) \<Longrightarrow> h2 a = h1 a"
    using cut_successor [OF e1(1) [unfolded M(1)] M(2) T1(1,2) e1(2) [unfolded H(1)] H(2) Dc lc]
    by blast
  have x2: "h2 x = Some (rb_cell p (rp l) (rp ?r) (cp cs))" using h2(5) e1 H(1) D by auto
  have f2: "\<And>a. a \<notin> insert m (set (addrs s) \<union> set (caddrs ds)) \<Longrightarrow> h2 a = h1 a" using h2(5) by auto
  have T2: "tree_in rb_cell h2 x l" "ctx_in rb_cell h2 m cs"
    subgoal using tree_in_agree [where S = "insert m (set (addrs s) \<union> set (caddrs ds))", OF T1(3) f2] D by auto
    subgoal using ctx_in_agree [where S = "insert m (set (addrs s) \<union> set (caddrs ds))", OF h1(2) f2] D by auto
    done
  \<comment> \<open>the fields of replace, the repair and the deletion\<close>
  define fin where "fin h = do {
        (h, root) \<leftarrow> (if fst q = BLACK then removeFixUp h (rp (plug cs ?n)) (rp s) (cpq m ds)
          else Some (h, rp (plug cs ?n)));
        h \<leftarrow> free h x;
        Some (h, root) }" for h :: "'a rbheap"
  obtain h3 where h3: "do {
          np \<leftarrow> rd parent h2 x;
          h \<leftarrow> rb_set_parent h2 m np;
          nc \<leftarrow> rd color h x;
          h \<leftarrow> rb_set_color h m nc;
          nl \<leftarrow> rd left h x;
          h \<leftarrow> set_left h m nl;
          nl \<leftarrow> rd left h x;
          h \<leftarrow> rb_set_parent h nl m;
          fin h } = fin h3"
    "h3 m = Some (rb_cell (fst p, snd q) (rp l) (rp (plug ds s)) (cp cs))" "tree_in rb_cell h3 m l"
    "dom h3 = dom h2" "\<And>a. a \<notin> insert m (set (addrs l)) \<Longrightarrow> h3 a = h2 a"
    using take_over [OF h2(2) M(2) x2 H(2) T2(1) l, of fin] D by auto
  have T3: "tree_in rb_cell h3 m (plug ds s)" "ctx_in rb_cell h3 m cs"
    subgoal using tree_in_agree [where S = "insert m (set (addrs l))", OF h2(3) h3(5)] D by (auto simp: set_addrs_plug)
    subgoal using ctx_in_agree [where S = "insert m (set (addrs l))", OF T2(2) h3(5)] D by auto
    done
  have n: "plug (ds @ RC l m (fst p, snd q) # cs) s = plug cs ?n" by (simp add: plug_append)
  have "rb_repr (insert x G) h3 (rp (plug cs ?n)) (plug cs ?n)"
    using T3 h3(2,3,4) h2(4) h1(3) H(7) D M(2) by (auto simp: repr_def shape_simps)
  then have R3: "rb_repr (insert x G) h3 (rp (plug cs ?n)) (plug (ds @ RC l m (fst p, snd q) # cs) s)"
    unfolding n .
  have "rb_inv (plug (ds @ RC l x p # cs) (Nd Lf m q s))" using inv by (simp add: plug_append)
  then have "rb_inv (plug (ds @ RC l m (fst p, snd q) # cs) (Nd Lf m q s))"
    by (subst (asm) swap_rb_inv [of p "(fst p, snd q)"]) auto
  from unlink_ok [OF this, of s] have ok: "if fst q = BLACK then del_ok (ds @ RC l m (fst p, snd q) # cs) s
      else rb_inv (plug (ds @ RC l m (fst p, snd q) # cs) s)" by simp
  have cpe: "cp (ds @ RC l m (fst p, snd q) # cs) = cpq m ds"
    by (cases ds rule: cp.cases) (auto simp: cpq_def)
  have xG: "x \<notin> G" using D(2) by auto
  obtain h' root' t' where f: "fin h3 = Some (h', root')" "rb_repr G h' root' t'" "rb_inv t'"
    "entries t' = entries (plug cs ?n)"
    using remove_finish [OF R3 xG H(2) ok] unfolding fin_def cpe n by blast
  have run: "rd left h x = Some (rp l)" "rd right h x = Some (rp ?r)" "rd parent h x = Some (cp cs)"
    "rd right h1 m = Some (rp s)" "rd parent h1 m = Some (cpq x ds)" "rd color h1 m = Some (fst q)"
    using H(1,2) M(1,2) e1 by (simp_all add: heap_simps)
  have "remove_node h root x = remove_two_children h root x"
    by (simp only: remove_node_def run run_simps nn simp_thms)
  also have "\<dots> = fin h3"
    by (rule trans [OF _ h3(1)])
      (simp only: remove_two_children_def run mn h1(1) h2(1) run_simps fin_def)
  finally show ?thesis using f by auto
qed

subsection \<open>Correctness of remove\<close>

lemma filter_other:
  assumes "distinct (addrs (plug cs (Nd l x p r)))"
  shows "filter (\<lambda>e. fst e \<noteq> x) (entries (plug cs (Nd l x p r))) =
    map (\<lambda>(a, p). (a, snd p)) (cleft cs) @ entries l @ entries r @ map (\<lambda>(a, p). (a, snd p)) (cright cs)"
proof -
  define A B where "A = map (\<lambda>(a, p). (a, snd p)) (cleft cs)" and "B = map (\<lambda>(a, p). (a, snd p)) (cright cs)"
  have e: "entries (plug cs (Nd l x p r)) = A @ entries l @ (x, snd p) # entries r @ B"
    by (simp add: entries_plug A_def B_def)
  have "distinct (map fst (A @ entries l @ (x, snd p) # entries r @ B))"
    using assms unfolding e [symmetric] by (simp add: addrs_entries)
  then have "filter (\<lambda>e. fst e \<noteq> x) A = A" "filter (\<lambda>e. fst e \<noteq> x) (entries l) = entries l"
    "filter (\<lambda>e. fst e \<noteq> x) (entries r) = entries r" "filter (\<lambda>e. fst e \<noteq> x) B = B"
    by (force simp: filter_id_conv)+
  then show ?thesis unfolding e by (simp flip: A_def B_def)
qed

lemma remove_node_run:
  fixes h :: "'a::linorder rbheap"
  assumes R: "rb_repr G h root t" and inv: "rb_inv t" and x: "x \<in> set (addrs t)"
  shows "\<exists>h' root' t'. remove_node h root x = Some (h', root') \<and> rb_repr G h' root' t'
    \<and> rb_inv t' \<and> entries t' = filter (\<lambda>e. fst e \<noteq> x) (entries t)"
proof -
  obtain cs l p r where t: "t = plug cs (Nd l x p r)" using x at_address by metis
  have f: "filter (\<lambda>e. fst e \<noteq> x) (entries t) = entries (plug cs u)"
    if "entries u = entries l @ entries r" for u
    using R that unfolding t by (subst filter_other) (auto simp: repr_def entries_plug)
  show ?thesis
  proof (cases "l = Lf \<or> r = Lf")
    case True
    define u where "u = (if l = Lf then r else l)"
    have "l = Lf \<and> u = r \<or> r = Lf \<and> u = l" using True by (auto simp: u_def)
    moreover from this have "entries u = entries l @ entries r" by auto
    ultimately show ?thesis
      using remove_node_one [OF R [unfolded t] inv [unfolded t]] f [of u] by simp
  next
    case False
    then obtain ds m q s where r: "r = plug ds (Nd Lf m q s)" "leftmost r = m" "all_lc ds"
      using min_split by blast
    have "entries (Nd l m (fst p, snd q) (plug ds s)) = entries l @ entries r"
      using r(3) by (simp add: r(1) entries_plug all_lc_cleft)
    note e = f [OF this]
    show ?thesis
      using remove_node_two [OF R [unfolded t r(1)] inv [unfolded t r(1)] _ r(3) r(2) [unfolded r(1)]]
        False e by simp
  qed
qed

end
