(* ===== verification/RBTree_Props.thy ===== *)
theory RBTree_Props
  imports RBTree_Delete
begin

text \<open>
  What the class \<open>RBTree\<close> promises: each public operation on a heap that represents a red-black
  tree, and every history of insertions and removals that starts from the empty tree.
\<close>

subsection \<open>Removal by key\<close>

lemma mset_filter_entry:
  assumes "distinct (map fst es)" and "(x, k) \<in> set es"
  shows "mset (map snd (filter (\<lambda>e. fst e \<noteq> x) es)) = mset (map snd es) - {#k#}"
proof -
  obtain as bs where es: "es = as @ (x, k) # bs" using split_list [OF assms(2)] by blast
  then have "filter (\<lambda>e. fst e \<noteq> x) as = as" "filter (\<lambda>e. fst e \<noteq> x) bs = bs"
    using assms(1) by (force simp: filter_id_conv)+
  then show ?thesis by (simp add: es)
qed

lemma sorted_map_filter_snd: "sorted (map snd es) \<Longrightarrow> sorted (map snd (filter P es))"
  by (rule sorted_filter)

lemma remove_key_absent:
  assumes "rb_repr G h root t" "sorted (rb_keys t)" "k \<notin> set (rb_keys t)"
  shows "remove_key h root k = Some (h, root)"
proof -
  have T: "tree_in rb_cell h NULL t" "root = rp t" using assms(1) by (simp_all add: repr_def)
  then show ?thesis
    using rb_search.srch_correct [OF T(1) assms(2), of k] assms(3) by (auto simp: remove_key_def)
qed

lemma remove_key_present:
  fixes h :: "'a::linorder rbheap"
  assumes R: "rb_repr G h root t" and inv: "rb_inv t" and srt: "sorted (rb_keys t)" and k: "k \<in> set (rb_keys t)"
  shows "\<exists>x h' root' t'. (x, k) \<in> set (entries t) \<and> remove_key h root k = Some (h', root') \<and> rb_repr G h' root' t'
    \<and> rb_inv t' \<and> sorted (rb_keys t') \<and> entries t' = filter (\<lambda>e. fst e \<noteq> x) (entries t)
    \<and> mset (rb_keys t') = mset (rb_keys t) - {#k#}"
proof -
  have T: "tree_in rb_cell h NULL t" "root = rp t" using R by (simp_all add: repr_def)
  obtain x where x: "search h root k = Some x" "x \<noteq> NULL" "x \<in> set (addrs t)" "rd key h x = Some k"
    using rb_search.srch_correct [OF T(1) srt, of k] T(2) k by auto
  obtain cs l p r where t: "t = plug cs (Nd l x p r)" using x(3) at_address by metis
  have "snd p = k" using T(1) x(4) by (auto simp: t shape_simps heap_simps)
  then have e: "(x, k) \<in> set (entries t)" by (auto simp: t entries_plug)
  have d: "distinct (map fst (entries t))" using R by (simp add: repr_def addrs_entries)
  obtain h' root' t' where 1: "remove_node h root x = Some (h', root')" "rb_repr G h' root' t'" "rb_inv t'"
    "entries t' = filter (\<lambda>e. fst e \<noteq> x) (entries t)"
    using remove_node_run [OF R inv x(3)] by blast
  have "sorted (rb_keys t')" "mset (rb_keys t') = mset (rb_keys t) - {#k#}"
    using srt mset_filter_entry [OF d e] unfolding keys_entries 1(4) by (simp_all add: sorted_map_filter_snd)
  then show ?thesis using 1 x(1,2) e
    by (intro exI [of _ x] exI [of _ h'] exI [of _ root'] exI [of _ t']) (simp add: remove_key_def)
qed

lemma remove_key_run:
  fixes h :: "'a::linorder rbheap"
  assumes "rb_repr G h root t" "rb_inv t" "sorted (rb_keys t)"
  shows "\<exists>h' root' t'. remove_key h root k = Some (h', root') \<and> rb_repr G h' root' t'
    \<and> rb_inv t' \<and> sorted (rb_keys t') \<and> mset (rb_keys t') = mset (rb_keys t) - {#k#}"
proof (cases "k \<in> set (rb_keys t)")
  case True
  then show ?thesis using remove_key_present [OF assms True] by blast
next
  case False
  then have "mset (rb_keys t) - {#k#} = mset (rb_keys t)"
    by (intro diff_single_trivial) (simp add: in_multiset_in_set)
  then show ?thesis using remove_key_absent [OF assms(1,3) False] assms by auto
qed

subsection \<open>Height\<close>

fun height :: "'p atree \<Rightarrow> nat" where
  "height Lf = 0"
| "height (Nd l a p r) = Suc (max (height l) (height r))"

lemma bh_size: "invh t \<Longrightarrow> 2 ^ bh t \<le> Suc (length (addrs t))"
  by (induction t) auto

lemma height_bh: "invc t \<Longrightarrow> invh t \<Longrightarrow> height t \<le> 2 * bh t + (if col t = RED then 1 else 0)"
  by (induction t) (auto simp: max_def split: if_splits)

lemma height_bound:
  assumes "rb_inv t"
  shows "2 ^ height t \<le> Suc (length (addrs t)) ^ 2"
proof -
  have "height t \<le> 2 * bh t" using height_bh [of t] assms by (simp add: rb_inv_def)
  then have "(2::nat) ^ height t \<le> (2 ^ bh t) ^ 2"
    by (simp add: power_increasing mult.commute flip: power_mult)
  also have "\<dots> \<le> Suc (length (addrs t)) ^ 2"
    using bh_size [of t] assms by (intro power_mono) (auto simp: rb_inv_def)
  finally show ?thesis .
qed

subsection \<open>Histories\<close>

text \<open>
  A history of calls on one tree, the last call first.  An insertion names the address that
  \<open>new\<close> returns, which may be one freed by an earlier removal.
\<close>

datatype 'a rb_op = Ins ptr 'a | Rem 'a

inductive rb_run :: "'a::linorder rb_op list \<Rightarrow> 'a rbheap \<times> ptr \<Rightarrow> bool" where
  rb_start: "rb_run [] (\<lambda>_. None, NULL)"
| rb_ins: "\<lbrakk>rb_run ops (h, root); z \<noteq> NULL; h z = None; insert_key c z h root k = Some s\<rbrakk>
    \<Longrightarrow> rb_run (Ins z k # ops) s"
| rb_rem: "\<lbrakk>rb_run ops (h, root); remove_key h root k = Some s\<rbrakk> \<Longrightarrow> rb_run (Rem k # ops) s"

inductive_cases rb_run_InsE: "rb_run (Ins z k # ops) s"
inductive_cases rb_run_RemE: "rb_run (Rem k # ops) s"

fun content :: "'a rb_op list \<Rightarrow> 'a multiset" where
  "content [] = {#}"
| "content (Ins z k # ops) = add_mset k (content ops)"
| "content (Rem k # ops) = content ops - {#k#}"

definition rb_good :: "'a::linorder multiset \<Rightarrow> 'a rbheap \<times> ptr \<Rightarrow> 'a rbtree \<Rightarrow> bool" where
  "rb_good M s t \<longleftrightarrow> rb_repr {} (fst s) (snd s) t \<and> rb_inv t \<and> sorted (rb_keys t)
     \<and> mset (rb_keys t) = M"

lemma mset_partition:
  "mset (map snd (filter (\<lambda>e. snd e \<le> (k::'a::linorder)) es @ x # filter (\<lambda>e. k < snd e) es))
   = add_mset (snd x) (mset (map snd es))"
  by (induction es) auto

lemma rb_good_insert:
  assumes "rb_good M (h, root) t" "z \<noteq> NULL" "h z = None"
  shows "\<exists>s t'. insert_key c z h root k = Some s \<and> rb_good (add_mset k M) s t'"
proof -
  from insert_key_run [of "{}" h root t z c k] assms obtain h' root' t' where
    1: "insert_key c z h root k = Some (h', root')" "rb_repr {} h' root' t'" "rb_inv t'"
    "sorted (rb_keys t')"
    "entries t' = filter (\<lambda>e. snd e \<le> k) (entries t) @ (z, k) # filter (\<lambda>e. k < snd e) (entries t)"
    by (auto simp: rb_good_def)
  have "mset (rb_keys t') = add_mset k (mset (rb_keys t))"
    using mset_partition [of k "entries t" "(z, k)"] unfolding keys_entries 1(5) by simp
  then show ?thesis using 1 assms(1)
    by (intro exI [of _ "(h', root')"] exI [of _ t']) (simp add: rb_good_def)
qed

lemma rb_good_remove:
  assumes "rb_good M (h, root) t"
  shows "\<exists>s t'. remove_key h root k = Some s \<and> rb_good (M - {#k#}) s t'"
proof -
  from remove_key_run [of "{}" h root t k] assms obtain h' root' t' where
    "remove_key h root k = Some (h', root')" "rb_repr {} h' root' t'" "rb_inv t'"
    "sorted (rb_keys t')" "mset (rb_keys t') = mset (rb_keys t) - {#k#}"
    by (auto simp: rb_good_def)
  then show ?thesis using assms
    by (intro exI [of _ "(h', root')"] exI [of _ t']) (simp add: rb_good_def)
qed

lemma rb_run_good: "rb_run ops s \<Longrightarrow> \<exists>t. rb_good (content ops) s t"
proof (induction rule: rb_run.induct)
  case rb_start
  show ?case by (rule exI [of _ Lf]) (simp add: rb_good_def repr_def rb_inv_def)
next
  case (rb_ins ops h root z c k s)
  then show ?case using rb_good_insert [of "content ops" h root _ z c k] by fastforce
next
  case (rb_rem ops h root k s)
  then show ?case using rb_good_remove [of "content ops" h root _ k] by fastforce
qed

lemma rb_run_insert:
  assumes "rb_run ops (h, root)" "z \<noteq> NULL" "h z = None"
  shows "\<exists>s. insert_key c z h root k = Some s \<and> rb_run (Ins z k # ops) s"
  using rb_run_good [OF assms(1)] rb_good_insert [of _ h root _ z c k] assms rb_ins [OF assms]
  by blast

lemma rb_run_remove:
  assumes "rb_run ops (h, root)"
  shows "\<exists>s. remove_key h root k = Some s \<and> rb_run (Rem k # ops) s"
  using rb_run_good [OF assms] rb_good_remove [of _ h root _ k] rb_rem [OF assms] by blast

lemma rb_good_inOrder: "rb_good M (h, root) t \<Longrightarrow> inOrder h root = Some (sorted_list_of_multiset M)"
  using inOrder_tree [of h NULL t] sorted_list_of_multiset_mset [of "rb_keys t"]
  by (auto simp: rb_good_def repr_def sorted_sort_id simp del: mset_map)

lemma rb_good_size:
  assumes "rb_good M s t"
  shows "length (addrs t) = size M" "card (dom (fst s)) = size M" "finite (dom (fst s))"
proof -
  have "size (mset (rb_keys t)) = size M" using assms by (simp only: rb_good_def)
  then show 1: "length (addrs t) = size M" by (simp add: addrs_items pays_items)
  have "dom (fst s) = set (addrs t)" "distinct (addrs t)" using assms by (simp_all add: rb_good_def repr_def)
  then show "card (dom (fst s)) = size M" "finite (dom (fst s))" using 1 distinct_card [of "addrs t"] by simp_all
qed

subsection \<open>Destruction\<close>

lemma set_ref_defined:
  assumes "get_ref h root ref = Some x" "ref_nodes ref \<inter> A = {}" "y \<in> A"
  shows "\<exists>h' root'. set_ref (h(y := None)) root ref v = Some (h', root') \<and> dom h' = dom h - {y}"
  using assms
  by (cases ref) (auto simp: get_ref_def set_ref_def set_left_def set_right_def wr_def rd_def
      split: if_splits option.splits)

lemma destroy_one:
  assumes "tree_in rb_cell h q t" "t \<noteq> Lf" "distinct (addrs t)"
    "get_ref h root ref = Some (rp t)" "ref_nodes ref \<inter> set (addrs t) = {}"
  shows "\<exists>x h' root'. destroy h root ref = Some (h', root') \<and> x \<in> set (addrs t) \<and> dom h' = dom h - {x}"
  using assms
proof (induction t arbitrary: q ref)
  case (Nd l a p r)
  have a: "a \<noteq> NULL" "h a = Some (rb_cell p (rp l) (rp r) q)" "tree_in rb_cell h a l" "tree_in rb_cell h a r"
    using Nd.prems by auto
  have rd: "rd left h a = Some (rp l)" "rd right h a = Some (rp r)" "free h a = Some (h(a := None))"
    using a by (auto simp: heap_simps)
  have nn: "rp l = NULL \<longleftrightarrow> l = Lf" "rp r = NULL \<longleftrightarrow> r = Lf" using a rp_eq_NULL by blast+
  consider "l \<noteq> Lf" | "l = Lf" "r \<noteq> Lf" | "l = Lf" "r = Lf" by auto
  then show ?case
  proof cases
    case 1
    then have "destroy h root ref = destroy h root (LeftRef a)"
      by (subst destroy.simps) (simp add: Nd.prems(4) a(1) rd nn)
    moreover have "\<exists>x h' root'. destroy h root (LeftRef a) = Some (h', root') \<and> x \<in> set (addrs l)
        \<and> dom h' = dom h - {x}"
      using Nd.prems 1 rd by (intro Nd.IH(1) [OF a(3)]) (auto simp: get_ref_def)
    ultimately show ?thesis by fastforce
  next
    case 2
    then have "destroy h root ref = destroy h root (RightRef a)"
      by (subst destroy.simps) (simp add: Nd.prems(4) a(1) rd nn)
    moreover have "\<exists>x h' root'. destroy h root (RightRef a) = Some (h', root') \<and> x \<in> set (addrs r)
        \<and> dom h' = dom h - {x}"
      using Nd.prems 2 rd by (intro Nd.IH(2) [OF a(4)]) (auto simp: get_ref_def)
    ultimately show ?thesis by fastforce
  next
    case 3
    then have "destroy h root ref = set_ref (h(a := None)) root ref NULL"
      by (subst destroy.simps) (simp add: Nd.prems(4) a(1) rd nn)
    then show ?thesis using set_ref_defined [OF Nd.prems(4,5), of a NULL] by auto
  qed
qed simp

subsection \<open>Printing\<close>

fun line_key :: "'a print_line \<Rightarrow> 'a" where
  "line_key (RootLine k) = k"
| "line_key (BranchLine k c q d) = k"

fun branch_lines :: "'a \<Rightarrow> bool \<Rightarrow> 'a rbtree \<Rightarrow> 'a print_line list" where
  "branch_lines k d Lf = []"
| "branch_lines k d (Nd l a p r) =
     BranchLine (snd p) (fst p = RED) k d # branch_lines (snd p) False l @ branch_lines (snd p) True r"

fun all_lines :: "'a rbtree \<Rightarrow> 'a print_line list" where
  "all_lines Lf = []"
| "all_lines (Nd l a p r) = RootLine (snd p) # branch_lines (snd p) False l @ branch_lines (snd p) True r"

lemma print_tree_branch:
  "tree_in rb_cell h q t \<Longrightarrow> d \<noteq> 0 \<Longrightarrow> print_tree h (rp t) k d = Some (branch_lines k (d = 1) t)"
proof (induction t arbitrary: q k d)
  case (Nd l a p r)
  show ?case
    using Nd.prems Nd.IH(1) [of a "-1" "snd p"] Nd.IH(2) [of a 1 "snd p"]
    by (simp add: print_tree.simps [of h a] heap_simps)
qed (simp add: print_tree.simps)

lemma print_root_lines: "tree_in rb_cell h NULL t \<Longrightarrow> print_root h (rp t) = Some (all_lines t)"
proof (cases t)
  case (Nd l a p r)
  assume "tree_in rb_cell h NULL t"
  then show ?thesis
    using Nd print_tree_branch [of h a l "-1" "snd p"] print_tree_branch [of h a r 1 "snd p"]
    by (simp add: print_root_def print_tree.simps [of h a] heap_simps)
qed (simp add: print_root_def)

lemma keys_of_lines: "map line_key (branch_lines k d t) = preorder_keys t"
  "map line_key (all_lines t) = preorder_keys t"
proof -
  show 1: "map line_key (branch_lines k d t) = preorder_keys t" for k d and t :: "'a rbtree"
    by (induction k d t rule: branch_lines.induct) auto
  show "map line_key (all_lines t) = preorder_keys t"
    by (cases t) (simp_all add: 1)
qed

subsection \<open>The properties\<close>

text \<open>A tree of two nodes, on which the properties below are instantiated.\<close>

definition demo_tree :: "int rbtree" where
  "demo_tree = Nd (Nd Lf (Ptr 2) (RED, 1) Lf) (Ptr 1) (BLACK, 2) Lf"

definition demo_heap :: "int rbheap" where
  "demo_heap = [Ptr 1 \<mapsto> rb_cell (BLACK, 2) (Ptr 2) NULL NULL, Ptr 2 \<mapsto> rb_cell (RED, 1) NULL NULL (Ptr 1)]"

lemma demo_repr: "rb_repr {} demo_heap (Ptr 1) demo_tree"
  by (auto simp: repr_def demo_heap_def demo_tree_def)

lemma demo_inv: "rb_inv demo_tree" "sorted (rb_keys demo_tree)" "demo_tree \<noteq> Lf"
  by (simp_all add: rb_inv_def demo_tree_def)

lemma demo_insert:
  "insert_key BLACK (Ptr 2) (\<lambda>_. None) NULL (3::int) = Some ([Ptr 2 \<mapsto> rb_cell (BLACK, 3) NULL NULL NULL], Ptr 2)"
  unfolding insert_key_def insert_node_def
  by (subst insert_descend.simps, subst insertFixUp.simps)
    (simp add: rd_def wr_def rb_access new_RBTNode_def rb_cell.simps)

lemma demo_run1: "rb_run [Ins (Ptr 2) (3::int)] ([Ptr 2 \<mapsto> rb_cell (BLACK, 3) NULL NULL NULL], Ptr 2)"
  using rb_ins [OF rb_start _ _ demo_insert] by simp

lemma demo_run: "\<exists>s. rb_run [Rem 3, Ins (Ptr 1) 5, Ins (Ptr 2) (3::int)] s"
proof -
  obtain s where "rb_run [Ins (Ptr 1) 5, Ins (Ptr 2) (3::int)] s"
    using rb_run_insert [OF demo_run1, of "Ptr 1" BLACK 5] by auto
  then have "rb_run [Ins (Ptr 1) 5, Ins (Ptr 2) 3] (fst s, snd s)" by simp
  from rb_run_remove [OF this, of 3] show ?thesis by blast
qed

text \<open>C12: Every history of insertions and removals on an initially empty tree leaves a tree whose
  \<open>inOrder\<close> traversal prints the inserted and not yet removed keys in ascending order, with
  their multiplicities; and exactly as many nodes are allocated as keys are in the tree.\<close>

theorem rb_history_sorted:
  assumes "rb_run ops (h, root)"
  shows "inOrder h root = Some (sorted_list_of_multiset (content ops)) \<and> finite (dom h)
    \<and> card (dom h) = size (content ops)"
proof -
  obtain t where t: "rb_good (content ops) (h, root) t" using rb_run_good [OF assms] by blast
  then show ?thesis using rb_good_inOrder [OF t] rb_good_size [OF t] by simp
qed

theorem rb_history_sorted_witness:
  "\<exists>h root. inOrder h root = Some [5::int] \<and> card (dom h) = 1"
proof -
  obtain h root where "rb_run [Rem 3, Ins (Ptr 1) 5, Ins (Ptr 2) (3::int)] (h, root)"
    using demo_run by (metis surj_pair)
  from rb_history_sorted [OF this] show ?thesis by auto
qed

text \<open>C13: In every tree reached by insertions and removals the next insertion (at any fresh
  address) and the next removal (of any key, present or not) return: no null or freed node is
  dereferenced and no loop runs forever.\<close>

theorem rb_history_progress:
  assumes "rb_run ops (h, root)"
  shows "(\<exists>s. remove_key h root k = Some s)
    \<and> (z \<noteq> NULL \<and> h z = None \<longrightarrow> (\<exists>s. insert_key c z h root k = Some s))"
  using rb_run_insert [OF assms] rb_run_remove [OF assms] by blast

theorem rb_history_progress_witness:
  "(\<exists>s. remove_key [Ptr 2 \<mapsto> rb_cell (BLACK, 3) NULL NULL NULL] (Ptr 2) (4::int) = Some s)
   \<and> (\<exists>s. insert_key RED (Ptr 7) [Ptr 2 \<mapsto> rb_cell (BLACK, 3::int) NULL NULL NULL] (Ptr 2) 4 = Some s)"
  using rb_history_progress [OF demo_run1, of 4 "Ptr 7" RED] by simp

text \<open>C2: \<open>insert\<close> on a red-black search tree returns, keeps the tree red-black and sorted,
  and puts the new node after the nodes with an equal or smaller key, moving no other key to
  another node.\<close>

theorem rb_insert_correct:
  assumes "rb_repr G h root t" and "rb_inv t" and "sorted (rb_keys t)"
    and "z \<noteq> NULL" and "h z = None"
  shows "\<exists>h' root' t'. insert_key c z h root k = Some (h', root') \<and> rb_repr G h' root' t'
    \<and> rb_inv t' \<and> sorted (rb_keys t')
    \<and> entries t' = filter (\<lambda>e. snd e \<le> k) (entries t) @ (z, k) # filter (\<lambda>e. k < snd e) (entries t)"
  by (rule insert_key_run [OF assms])

theorem rb_insert_correct_witness:
  "\<exists>h' root' t'. insert_key RED (Ptr 3) demo_heap (Ptr 1) 1 = Some (h', root') \<and> rb_repr {} h' root' t'
    \<and> entries t' = [(Ptr 2, 1), (Ptr 3, 1), (Ptr 1, 2)]"
  using rb_insert_correct [OF demo_repr demo_inv(1,2), of "Ptr 3" RED 1]
  by (force simp: demo_heap_def demo_tree_def)

text \<open>C1: \<open>remove\<close> of a key that a red-black search tree has returns, deallocates exactly one
  node, which has that key, and leaves every other node with its key and its place in the order; the tree
  stays red-black and sorted.  When the key is absent the heap and the root are unchanged.\<close>

theorem rb_remove_correct:
  assumes "rb_repr G h root t" and "rb_inv t" and "sorted (rb_keys t)"
  shows "(k \<notin> set (rb_keys t) \<longrightarrow> remove_key h root k = Some (h, root))
    \<and> (k \<in> set (rb_keys t) \<longrightarrow> (\<exists>x h' root' t'. (x, k) \<in> set (entries t)
        \<and> remove_key h root k = Some (h', root') \<and> dom h' = dom h - {x} \<and> rb_repr G h' root' t'
        \<and> rb_inv t' \<and> sorted (rb_keys t') \<and> entries t' = filter (\<lambda>e. fst e \<noteq> x) (entries t)
        \<and> mset (rb_keys t') = mset (rb_keys t) - {#k#}))"
proof (intro conjI impI)
  assume "k \<in> set (rb_keys t)"
  then obtain x h' root' t' where 1: "(x, k) \<in> set (entries t)" "remove_key h root k = Some (h', root')" "rb_repr G h' root' t'"
    "rb_inv t'" "sorted (rb_keys t')" "entries t' = filter (\<lambda>e. fst e \<noteq> x) (entries t)"
    "mset (rb_keys t') = mset (rb_keys t) - {#k#}"
    using remove_key_present [OF assms] by blast
  have "fst ` set (entries t') = fst ` set (entries t) - {x}" unfolding 1(6) by auto
  moreover have "x \<notin> G"
    using assms(1) 1(1) by (force simp: repr_def addrs_entries)
  ultimately have "dom h' = dom h - {x}"
    using 1(3) assms(1) by (auto simp: repr_def addrs_entries)
  then show "\<exists>x h' root' t'. (x, k) \<in> set (entries t)
        \<and> remove_key h root k = Some (h', root') \<and> dom h' = dom h - {x} \<and> rb_repr G h' root' t'
        \<and> rb_inv t' \<and> sorted (rb_keys t') \<and> entries t' = filter (\<lambda>e. fst e \<noteq> x) (entries t)
        \<and> mset (rb_keys t') = mset (rb_keys t) - {#k#}" using 1 by blast
qed (rule remove_key_absent [OF assms(1,3)])

theorem rb_remove_correct_witness:
  "\<exists>h' root' t'. remove_key demo_heap (Ptr 1) 2 = Some (h', root') \<and> rb_repr {} h' root' t'
    \<and> dom h' = {Ptr 2} \<and> entries t' = [(Ptr 2, 1)] \<and> remove_key demo_heap (Ptr 1) 9 = Some (demo_heap, Ptr 1)"
  using rb_remove_correct [OF demo_repr demo_inv(1,2), of 2] rb_remove_correct [OF demo_repr demo_inv(1,2), of 9]
  by (fastforce simp: demo_tree_def demo_heap_def)

text \<open>C19: In every tree reached by insertions and removals the longest path is at most twice
  the logarithm of the number of keys plus one.\<close>

theorem rb_height_logarithmic:
  assumes "rb_run ops (h, root)"
  shows "\<exists>t. rb_repr {} h root t \<and> 2 ^ height t \<le> Suc (size (content ops)) ^ 2"
proof -
  obtain t where t: "rb_good (content ops) (h, root) t" using rb_run_good [OF assms] by blast
  then show ?thesis using rb_good_size(1) [OF t] height_bound [of t] by (auto simp: rb_good_def)
qed

theorem rb_height_logarithmic_witness:
  "\<exists>t. rb_repr {} [Ptr 2 \<mapsto> rb_cell (BLACK, 3::int) NULL NULL NULL] (Ptr 2) t \<and> 2 ^ height t \<le> Suc 1 ^ 2"
  using rb_height_logarithmic [OF demo_run1] by simp

text \<open>\<open>search\<close> and \<open>iterativeSearch\<close> return the same node on a search tree: a node of the
  tree with the key, or null exactly when the key is absent.\<close>

theorem rb_search_correct:
  assumes "rb_repr G h root t" and "sorted (rb_keys t)"
  shows "\<exists>x. search h root k = Some x \<and> iterativeSearch h root k = Some x
    \<and> (x = NULL \<longleftrightarrow> k \<notin> set (rb_keys t)) \<and> (x \<noteq> NULL \<longrightarrow> x \<in> set (addrs t) \<and> rd key h x = Some k)"
proof -
  have T: "tree_in rb_cell h NULL t" "root = rp t" using assms(1) by (simp_all add: repr_def)
  show ?thesis
    using rb_search.srch_correct [OF T(1) assms(2), of k] rb_search.srch_find [OF T(1), of k]
      rb_iter.srch_find [OF T(1), of k] T(2) by auto
qed

theorem rb_search_correct_witness:
  "\<exists>x. search demo_heap (Ptr 1) 1 = Some x \<and> iterativeSearch demo_heap (Ptr 1) 1 = Some x \<and> x \<noteq> NULL"
  using rb_search_correct [OF demo_repr demo_inv(2), of 1] by (auto simp: demo_tree_def)

text \<open>\<open>successor\<close> of the i-th node in key order is the next node in key order, and null for
  the last; \<open>predecessor\<close> is the node before it, and null for the first.\<close>

theorem rb_successor_predecessor:
  fixes h :: "'a::linorder rbheap"
  assumes "rb_repr G h root t" and "i < length (addrs t)"
  shows "successor h (addrs t ! i) = Some (if Suc i < length (addrs t) then addrs t ! Suc i else NULL)
    \<and> predecessor h (addrs t ! i) = Some (if 0 < i then addrs t ! (i - 1) else NULL)"
  using rb_nav.neighbours [OF assms] by simp

theorem rb_successor_predecessor_witness:
  "successor demo_heap (Ptr 2) = Some (Ptr 1) \<and> predecessor demo_heap (Ptr 2) = Some NULL"
  using rb_successor_predecessor [OF demo_repr, of 0] by (simp add: demo_tree_def)

text \<open>\<open>minimum\<close> and \<open>maximum\<close> return the least and the greatest key of a search tree, and
  \<open>(T)NULL\<close> on an empty one.\<close>

theorem rb_minimum_maximum:
  assumes "rb_repr G h root t" and "sorted (rb_keys t)"
  shows "minimum_key d h root = Some (if t = Lf then d else Min (set (rb_keys t)))
    \<and> maximum_key d h root = Some (if t = Lf then d else Max (set (rb_keys t)))"
proof (cases "t = Lf")
  case True
  then show ?thesis using assms(1)
    by (simp add: repr_def minimum_key_def maximum_key_def minimum_def maximum_def)
next
  case False
  then show ?thesis using rb_nav.extrema [OF assms]
    by (auto simp: minimum_key_def maximum_key_def minimum_def maximum_def)
qed

theorem rb_minimum_maximum_witness:
  "minimum_key 0 demo_heap (Ptr 1) = Some 1 \<and> maximum_key 0 demo_heap (Ptr 1) = Some 2"
  using rb_minimum_maximum [OF demo_repr demo_inv(2), of 0] by (simp add: demo_tree_def)

text \<open>The three traversals print every key of the tree, in the orders of their names, and
  \<open>print\<close> writes one line per node, in preorder.\<close>

theorem rb_traversals:
  assumes "rb_repr G h root t"
  shows "inOrder h root = Some (rb_keys t) \<and> preOrder h root = Some (preorder_keys t)
    \<and> postOrder h root = Some (postorder_keys t)
    \<and> (\<exists>ls. print_root h root = Some ls \<and> map line_key ls = preorder_keys t)"
  using assms inOrder_tree [of h NULL t] preOrder_tree [of h NULL t] postOrder_tree [of h NULL t]
    print_root_lines [of h t] keys_of_lines(2) [of t]
  by (auto simp: repr_def)

theorem rb_traversals_witness:
  "inOrder demo_heap (Ptr 1) = Some [1, 2] \<and> preOrder demo_heap (Ptr 1) = Some [2, 1]
    \<and> postOrder demo_heap (Ptr 1) = Some [1, 2]"
  using rb_traversals [OF demo_repr] by (simp add: demo_tree_def)

text \<open>\<open>destroy\<close> on a non-empty tree deallocates exactly one node: it returns from the
  recursive call on the first child it finds, so the other nodes of the tree stay allocated.\<close>

theorem rb_destroy_frees_one:
  assumes "rb_repr G h root t" and "t \<noteq> Lf"
  shows "\<exists>x h' root'. destroy h root RootRef = Some (h', root') \<and> x \<in> set (addrs t) \<and> dom h' = dom h - {x}"
  using destroy_one [of h NULL t root RootRef] assms by (simp add: repr_def get_ref_def)

theorem rb_destroy_frees_one_witness:
  "\<exists>h' root'. destroy demo_heap (Ptr 1) RootRef = Some (h', root') \<and> card (dom h') = 1"
  using rb_destroy_frees_one [OF demo_repr demo_inv(3)]
  by (fastforce simp: demo_heap_def demo_tree_def)

end
