(* ===== verification/BSTree.thy ===== *)
theory BSTree
  imports PtrTree
begin

text \<open>
  The class \<open>BSTree\<close> of \<open>algorithm/binarytree.h\<close>, on the same heaps and with the same conventions
  as \<open>RBTree\<close>.  The header declares \<open>remove\<close>, \<open>destroy\<close> and \<open>print\<close> without defining them; they
  are not modelled.  The walks are verified by interpreting the locales of \<open>PtrTree\<close>.
\<close>

subsection \<open>Definitions\<close>

record 'a BSTNode =
  bst_key :: 'a
  bst_left :: ptr
  bst_right :: ptr
  bst_parent :: ptr

text \<open>The constructor ignores its parameter \<open>p\<close>: \<open>parent()\<close> sets the field to null.\<close>

definition new_BSTNode :: "'a \<Rightarrow> ptr \<Rightarrow> ptr \<Rightarrow> ptr \<Rightarrow> 'a BSTNode" where
  "new_BSTNode value p l r = \<lparr>bst_key = value, bst_left = l, bst_right = r, bst_parent = NULL\<rparr>"

type_synonym 'a bst_heap = "'a BSTNode heap"

partial_function (option) bst_preOrder :: "'a bst_heap \<Rightarrow> ptr \<Rightarrow> 'a list option" where
  "bst_preOrder h tree = (if tree \<noteq> NULL then do {
      k \<leftarrow> rd bst_key h tree;
      l \<leftarrow> rd bst_left h tree;
      out1 \<leftarrow> bst_preOrder h l;
      r \<leftarrow> rd bst_right h tree;
      out2 \<leftarrow> bst_preOrder h r;
      Some ([k] @ out1 @ out2)
    } else Some [])"

partial_function (option) bst_inOrder :: "'a bst_heap \<Rightarrow> ptr \<Rightarrow> 'a list option" where
  "bst_inOrder h tree = (if tree \<noteq> NULL then do {
      l \<leftarrow> rd bst_left h tree;
      out1 \<leftarrow> bst_inOrder h l;
      k \<leftarrow> rd bst_key h tree;
      r \<leftarrow> rd bst_right h tree;
      out2 \<leftarrow> bst_inOrder h r;
      Some (out1 @ [k] @ out2)
    } else Some [])"

partial_function (option) bst_postOrder :: "'a bst_heap \<Rightarrow> ptr \<Rightarrow> 'a list option" where
  "bst_postOrder h tree = (if tree \<noteq> NULL then do {
      l \<leftarrow> rd bst_left h tree;
      out1 \<leftarrow> bst_postOrder h l;
      r \<leftarrow> rd bst_right h tree;
      out2 \<leftarrow> bst_postOrder h r;
      k \<leftarrow> rd bst_key h tree;
      Some (out1 @ out2 @ [k])
    } else Some [])"

partial_function (option) bst_search :: "'a::linorder bst_heap \<Rightarrow> ptr \<Rightarrow> 'a \<Rightarrow> ptr option" where
  "bst_search h x k = (if x = NULL then Some x else do {
      kx \<leftarrow> rd bst_key h x;
      if kx = k then Some x
      else if k < kx then do { l \<leftarrow> rd bst_left h x; bst_search h l k }
      else do { r \<leftarrow> rd bst_right h x; bst_search h r k } })"

partial_function (option) bst_iterativeSearch :: "'a::linorder bst_heap \<Rightarrow> ptr \<Rightarrow> 'a \<Rightarrow> ptr option" where
  "bst_iterativeSearch h x k = do {
      go \<leftarrow> (if x \<noteq> NULL then do { kx \<leftarrow> rd bst_key h x; Some (kx \<noteq> k) } else Some False);
      if go then do {
        kx \<leftarrow> rd bst_key h x;
        x \<leftarrow> (if k < kx then rd bst_left h x else rd bst_right h x);
        bst_iterativeSearch h x k }
      else Some x }"

partial_function (option) bst_minimum_loop :: "'a bst_heap \<Rightarrow> ptr \<Rightarrow> ptr option" where
  "bst_minimum_loop h tree = do {
      l \<leftarrow> rd bst_left h tree; if l \<noteq> NULL then bst_minimum_loop h l else Some tree }"

definition bst_minimum :: "'a bst_heap \<Rightarrow> ptr \<Rightarrow> ptr option" where
  "bst_minimum h tree = (if tree = NULL then Some NULL else bst_minimum_loop h tree)"

partial_function (option) bst_maximum_loop :: "'a bst_heap \<Rightarrow> ptr \<Rightarrow> ptr option" where
  "bst_maximum_loop h tree = do {
      r \<leftarrow> rd bst_right h tree; if r \<noteq> NULL then bst_maximum_loop h r else Some tree }"

definition bst_maximum :: "'a bst_heap \<Rightarrow> ptr \<Rightarrow> ptr option" where
  "bst_maximum h tree = (if tree = NULL then Some NULL else bst_maximum_loop h tree)"

definition bst_minimum_key :: "'a \<Rightarrow> 'a bst_heap \<Rightarrow> ptr \<Rightarrow> 'a option" where
  "bst_minimum_key dflt h mRoot = do {
      p \<leftarrow> bst_minimum h mRoot; if p \<noteq> NULL then rd bst_key h p else Some dflt }"

definition bst_maximum_key :: "'a \<Rightarrow> 'a bst_heap \<Rightarrow> ptr \<Rightarrow> 'a option" where
  "bst_maximum_key dflt h mRoot = do {
      p \<leftarrow> bst_maximum h mRoot; if p \<noteq> NULL then rd bst_key h p else Some dflt }"

partial_function (option) bst_successor_loop :: "'a bst_heap \<Rightarrow> ptr \<Rightarrow> ptr \<Rightarrow> ptr option" where
  "bst_successor_loop h x y = (if y = NULL then Some y else do {
      r \<leftarrow> rd bst_right h y;
      if x = r then do { y' \<leftarrow> rd bst_parent h y; bst_successor_loop h y y' } else Some y })"

definition bst_successor :: "'a bst_heap \<Rightarrow> ptr \<Rightarrow> ptr option" where
  "bst_successor h x = do {
      r \<leftarrow> rd bst_right h x;
      if r \<noteq> NULL then bst_minimum h r
      else do { y \<leftarrow> rd bst_parent h x; bst_successor_loop h x y } }"

partial_function (option) bst_predecessor_loop :: "'a bst_heap \<Rightarrow> ptr \<Rightarrow> ptr \<Rightarrow> ptr option" where
  "bst_predecessor_loop h x y = (if y = NULL then Some y else do {
      l \<leftarrow> rd bst_left h y;
      if x = l then do { y' \<leftarrow> rd bst_parent h y; bst_predecessor_loop h y y' } else Some y })"

definition bst_predecessor :: "'a bst_heap \<Rightarrow> ptr \<Rightarrow> ptr option" where
  "bst_predecessor h x = do {
      l \<leftarrow> rd bst_left h x;
      if l \<noteq> NULL then bst_maximum h l
      else do { y \<leftarrow> rd bst_parent h x; bst_predecessor_loop h x y } }"

partial_function (option) bst_insert_descend ::
  "'a::linorder bst_heap \<Rightarrow> 'a \<Rightarrow> ptr \<Rightarrow> ptr \<Rightarrow> ptr option" where
  "bst_insert_descend h k y x = (if x \<noteq> NULL then do {
      kx \<leftarrow> rd bst_key h x;
      x' \<leftarrow> (if k < kx then rd bst_left h x else rd bst_right h x);
      bst_insert_descend h k x x' } else Some y)"

definition bst_set_left :: "'a bst_heap \<Rightarrow> ptr \<Rightarrow> ptr \<Rightarrow> 'a bst_heap option" where
  "bst_set_left h p q = wr (bst_left_update (\<lambda>_. q)) h p"

definition bst_set_right :: "'a bst_heap \<Rightarrow> ptr \<Rightarrow> ptr \<Rightarrow> 'a bst_heap option" where
  "bst_set_right h p q = wr (bst_right_update (\<lambda>_. q)) h p"

definition bst_set_parent :: "'a bst_heap \<Rightarrow> ptr \<Rightarrow> ptr \<Rightarrow> 'a bst_heap option" where
  "bst_set_parent h p q = wr (bst_parent_update (\<lambda>_. q)) h p"

definition bst_insert_node ::
  "'a::linorder bst_heap \<Rightarrow> ptr \<Rightarrow> ptr \<Rightarrow> ('a bst_heap \<times> ptr) option" where
  "bst_insert_node h root node = do {
      k \<leftarrow> rd bst_key h node;
      y \<leftarrow> bst_insert_descend h k NULL root;
      h \<leftarrow> bst_set_parent h node y;
      if y \<noteq> NULL then do {
        ky \<leftarrow> rd bst_key h y;
        h \<leftarrow> (if k < ky then bst_set_left h y node else bst_set_right h y node);
        Some (h, root) }
      else Some (h, node) }"

text \<open>
  \<open>insertRecursively\<close> takes its root by reference; the recursive calls pass references to child
  fields.  In the right branch the source assigns \<open>node->parent = root->right\<close>, which at that
  point is \<open>node\<close>.
\<close>

definition bst_get_ref :: "'a bst_heap \<Rightarrow> ptr \<Rightarrow> ptr_ref \<Rightarrow> ptr option" where
  "bst_get_ref h mRoot r = (case r of RootRef \<Rightarrow> Some mRoot
     | LeftRef p \<Rightarrow> rd bst_left h p | RightRef p \<Rightarrow> rd bst_right h p)"

definition bst_set_ref :: "'a bst_heap \<Rightarrow> ptr \<Rightarrow> ptr_ref \<Rightarrow> ptr \<Rightarrow> ('a bst_heap \<times> ptr) option" where
  "bst_set_ref h mRoot r v = (case r of RootRef \<Rightarrow> Some (h, v)
     | LeftRef p \<Rightarrow> do { h \<leftarrow> bst_set_left h p v; Some (h, mRoot) }
     | RightRef p \<Rightarrow> do { h \<leftarrow> bst_set_right h p v; Some (h, mRoot) })"

partial_function (option) insertRecursively ::
  "'a::linorder bst_heap \<Rightarrow> ptr \<Rightarrow> ptr_ref \<Rightarrow> ptr \<Rightarrow> ('a bst_heap \<times> ptr \<times> bool) option" where
  "insertRecursively h mRoot ref node = do {
      root \<leftarrow> bst_get_ref h mRoot ref;
      if root = NULL then do {
        (h, mRoot) \<leftarrow> bst_set_ref h mRoot ref node;
        Some (h, mRoot, True) }
      else do {
        rk \<leftarrow> rd bst_key h root;
        nk \<leftarrow> rd bst_key h node;
        if nk < rk then do {
          l \<leftarrow> rd bst_left h root;
          if l = NULL then do {
            h \<leftarrow> bst_set_left h root node;
            h \<leftarrow> bst_set_parent h node root;
            Some (h, mRoot, False) }
          else insertRecursively h mRoot (LeftRef root) node }
        else if rk < nk then do {
          r \<leftarrow> rd bst_right h root;
          if r = NULL then do {
            h \<leftarrow> bst_set_right h root node;
            rr \<leftarrow> rd bst_right h root;
            h \<leftarrow> bst_set_parent h node rr;
            Some (h, mRoot, False) }
          else insertRecursively h mRoot (RightRef root) node }
        else Some (h, mRoot, False) } }"

subsection \<open>The walks\<close>

definition bst_cell :: "'a \<Rightarrow> ptr \<Rightarrow> ptr \<Rightarrow> ptr \<Rightarrow> 'a BSTNode" where
  "bst_cell k l r q = \<lparr>bst_key = k, bst_left = l, bst_right = r, bst_parent = q\<rparr>"

abbreviation bst_repr :: "ptr set \<Rightarrow> 'a bst_heap \<Rightarrow> ptr \<Rightarrow> 'a atree \<Rightarrow> bool" where
  "bst_repr \<equiv> repr bst_cell"

lemma bst_cell_selectors [simp]:
  "bst_key (bst_cell k l r q) = k" "bst_left (bst_cell k l r q) = l"
  "bst_right (bst_cell k l r q) = r" "bst_parent (bst_cell k l r q) = q"
  by (simp_all add: bst_cell_def)

lemma bst_cell_updates [simp]:
  "bst_left_update (\<lambda>_. x) (bst_cell k l r q) = bst_cell k x r q"
  "bst_right_update (\<lambda>_. x) (bst_cell k l r q) = bst_cell k l x q"
  "bst_parent_update (\<lambda>_. x) (bst_cell k l r q) = bst_cell k l r x"
  by (simp_all add: bst_cell_def)

lemmas bst_access = bst_set_left_def bst_set_right_def bst_set_parent_def

interpretation bst: node_layout bst_cell "\<lambda>k. k" bst_key bst_left bst_right bst_parent
  by unfold_locales simp_all

interpretation bst_srch: search_walk bst_cell "\<lambda>k. k" bst_key bst_left bst_right bst_parent bst_search
  by unfold_locales (subst bst_search.simps, simp)

interpretation bst_iter: search_walk bst_cell "\<lambda>k. k" bst_key bst_left bst_right bst_parent bst_iterativeSearch
proof (unfold_locales, goal_cases)
  case (1 h x k)
  show ?case
    by (subst bst_iterativeSearch.simps, cases "rd bst_key h x") auto
qed

interpretation bst_min: left_walk bst_cell "\<lambda>k. k" bst_key bst_left bst_right bst_parent bst_minimum_loop
  by unfold_locales (subst bst_minimum_loop.simps, rule refl)

interpretation bst_max: right_walk bst_cell "\<lambda>k. k" bst_key bst_left bst_right bst_parent bst_maximum_loop
  by unfold_locales (subst bst_maximum_loop.simps, rule refl)

interpretation bst_succ: climb_walk bst_cell "\<lambda>k. k" bst_key bst_left bst_right bst_parent bst_successor_loop
  by unfold_locales (subst bst_successor_loop.simps, rule refl)

interpretation bst_pred: climb_walk_back bst_cell "\<lambda>k. k" bst_key bst_left bst_right bst_parent bst_predecessor_loop
  by unfold_locales (subst bst_predecessor_loop.simps, rule refl)

interpretation bst_descend: insert_walk bst_cell "\<lambda>k. k" bst_key bst_left bst_right bst_parent bst_insert_descend
  by unfold_locales (subst bst_insert_descend.simps, rule refl)

interpretation bst_nav: tree_walks bst_cell "\<lambda>k. k" bst_key bst_left bst_right bst_parent
  bst_minimum_loop bst_maximum_loop bst_successor_loop bst_predecessor_loop bst_successor bst_predecessor
  by unfold_locales
    (simp_all add: bst_successor_def bst_predecessor_def bst_minimum_def bst_maximum_def cong: if_cong)

end
