(* ===== verification/BSTree_Props.thy ===== *)
theory BSTree_Props
  imports BSTree
begin

text \<open>
  The properties of \<open>BSTree\<close>: the queries, the iterative insertion, and what
  \<open>insertRecursively\<close> really does.
\<close>

subsection \<open>Insertion\<close>

lemma fresh_repr:
  assumes "bst_repr G h root t" "z \<noteq> NULL" "h z = None"
  shows "z \<notin> set (addrs t)" "z \<notin> G"
  using assms domIff [of z h] by (auto simp: repr_def)

lemma bst_attach:
  assumes "ctx_in bst_cell h NULL cs" "side_ok (\<lambda>k. k) k cs" "cs \<noteq> []" "distinct (caddrs cs)"
  shows "\<exists>ky h'. rd bst_key h (cp cs) = Some ky \<and> cp cs \<noteq> NULL
    \<and> (if k < ky then bst_set_left h (cp cs) z else bst_set_right h (cp cs) z) = Some h'
    \<and> ctx_in bst_cell h' z cs \<and> dom h' = dom h \<and> (\<forall>a. a \<noteq> cp cs \<longrightarrow> h' a = h a)"
  using assms by (cases cs rule: cp.cases) (auto simp: heap_simps bst_access shape_simps)

lemma bst_insert_run:
  assumes R: "bst_repr G h root t" and z: "z \<noteq> NULL" "h z = None"
  shows "\<exists>h' root'. bst_insert_node (h(z \<mapsto> new_BSTNode k NULL NULL NULL)) root z = Some (h', root')
    \<and> bst_repr G h' root' (plug (ins_pos (\<lambda>k. k) k [] t) (Nd Lf z k Lf))"
proof -
  define cs where "cs = ins_pos (\<lambda>k. k) k [] t"
  have t: "t = plug cs Lf" by (simp add: cs_def ins_pos_plug)
  have side: "side_ok (\<lambda>k. k) k cs" unfolding cs_def by (rule ins_pos_side) simp
  have f: "z \<notin> set (caddrs cs)" "z \<notin> G"
    using fresh_repr [OF R z] by (auto simp: t shape_simps)
  have D: "distinct (caddrs cs)" "ctx_in bst_cell h NULL cs" "root = rp (plug cs Lf)"
    "dom h = set (caddrs cs) \<union> G" "G \<inter> set (caddrs cs) = {}"
    using R unfolding t by (auto simp: repr_def shape_simps)
  define h0 where "h0 = h(z \<mapsto> new_BSTNode k NULL NULL NULL)"
  define h1 where "h1 = h(z \<mapsto> bst_cell k NULL NULL (cp cs))"
  have n: "new_BSTNode k NULL NULL NULL = bst_cell k NULL NULL NULL"
    by (simp add: new_BSTNode_def bst_cell_def)
  have "tree_in bst_cell h0 NULL t"
    using R fresh_repr [OF R z] by (simp add: repr_def h0_def tree_in_frame)
  then have desc: "bst_insert_descend h0 k NULL root = Some (cp cs)"
    using bst_descend.desc_pos [of h0 "[]" t k] R by (simp add: cs_def repr_def)
  have run: "rd bst_key h0 z = Some k" "bst_set_parent h0 z (cp cs) = Some h1"
    using z n by (simp_all add: heap_simps bst_access h0_def h1_def)
  have c1: "ctx_in bst_cell h1 NULL cs" using D f by (simp add: h1_def shape_simps)
  show ?thesis
  proof (cases "cs = []")
    case True
    then have "bst_insert_node h0 root z = Some (h1, z)"
      using desc run by (simp add: bst_insert_node_def)
    then show ?thesis
      using True D f z by (simp flip: h0_def cs_def) (auto simp: repr_def h1_def)
  next
    case False
    obtain ky h2 where 2: "rd bst_key h1 (cp cs) = Some ky" "cp cs \<noteq> NULL"
      "(if k < ky then bst_set_left h1 (cp cs) z else bst_set_right h1 (cp cs) z) = Some h2"
      "ctx_in bst_cell h2 z cs" "dom h2 = dom h1" "\<forall>a. a \<noteq> cp cs \<longrightarrow> h2 a = h1 a"
      using bst_attach [OF c1 side False D(1), of z] by blast
    have "bst_insert_node h0 root z = Some (h2, root)"
      by (simp only: bst_insert_node_def run desc 2(1,2,3) run_simps simp_thms)
    moreover have "z \<noteq> cp cs" using f(1) cp_in_caddrs [OF False] by auto
    then have "h2 z = Some (bst_cell k NULL NULL (cp cs))" using 2(6) by (simp add: h1_def)
    then have "bst_repr G h2 root (plug cs (Nd Lf z k Lf))"
      using 2(4,5) D f z rp_plug_any [OF False, of Lf "Nd Lf z k Lf"]
      by (auto simp: repr_def shape_simps h1_def)
    ultimately show ?thesis unfolding h0_def [symmetric] cs_def [symmetric] by blast
  qed
qed

lemma ins_pos_items:
  assumes "sorted (keys_of kp t)" "kp p = k"
  shows "items (plug (ins_pos kp k [] t) (Nd Lf z p Lf)) =
    filter (\<lambda>e. kp (snd e) \<le> k) (items t) @ (z, p) # filter (\<lambda>e. k < kp (snd e)) (items t)"
proof -
  let ?cs = "ins_pos kp k [] t"
  have t: "items t = cleft ?cs @ cright ?cs"
    using ins_pos_plug [of kp k "[]" t] items_plug [of ?cs Lf] by simp
  have b: "\<forall>e \<in> set (cleft ?cs). kp (snd e) \<le> k" "\<forall>e \<in> set (cright ?cs). k < kp (snd e)"
    using ins_pos_bounds [of kp "[]" t k] assms(1) by simp_all
  then have "filter (\<lambda>e. kp (snd e) \<le> k) (items t) = cleft ?cs"
    "filter (\<lambda>e. k < kp (snd e)) (items t) = cright ?cs"
    unfolding t by (auto simp: filter_id_conv filter_empty_conv not_le not_less)
  then show ?thesis by (simp add: items_plug)
qed

subsection \<open>insertRecursively\<close>

text \<open>The parent field of the new node after \<open>insertRecursively\<close>.\<close>

fun rec_parent :: "ptr \<Rightarrow> 'a crumb list \<Rightarrow> ptr" where
  "rec_parent z (LC a p r # cs) = a"
| "rec_parent z cs = z"

lemma insertRecursively_absent:
  fixes h :: "'a::linorder bst_heap"
  assumes "tree_in bst_cell h (cp cs) t" "ctx_in bst_cell h (rp t) cs" "distinct (addrs t @ caddrs cs)"
    "h z = Some (bst_cell k NULL NULL q)" "z \<noteq> NULL" "z \<notin> set (addrs t @ caddrs cs)"
    "t \<noteq> Lf" "bst_get_ref h root ref = Some (rp t)" "find (\<lambda>k. k) k t = Lf"
  shows "\<exists>h'. insertRecursively h root ref z = Some (h', root, False)
    \<and> ctx_in bst_cell h' z (ins_pos (\<lambda>k. k) k cs t)
    \<and> h' z = Some (bst_cell k NULL NULL (rec_parent z (ins_pos (\<lambda>k. k) k cs t)))
    \<and> dom h' = dom h \<and> (\<forall>a. a \<notin> set (addrs t @ caddrs cs) \<longrightarrow> a \<noteq> z \<longrightarrow> h' a = h a)"
  using assms
proof (induction t arbitrary: cs ref)
  case (Nd l a p r)
  have a: "a \<noteq> NULL" "h a = Some (bst_cell p (rp l) (rp r) (cp cs))" "a \<noteq> z" using Nd.prems by auto
  have read: "rd bst_key h a = Some p" "rd bst_key h z = Some k" "rd bst_left h a = Some (rp l)"
    "rd bst_right h a = Some (rp r)"
    using a Nd.prems(4,5) by (simp_all add: heap_simps)
  have ne: "p \<noteq> k" using Nd.prems(9) by (auto split: if_splits)
  have nn: "rp l = NULL \<longleftrightarrow> l = Lf" "rp r = NULL \<longleftrightarrow> r = Lf"
    using Nd.prems(1) rp_eq_NULL [of bst_cell h a] by auto
  note step = insertRecursively.simps [of h root ref z]
  consider "k < p" "l = Lf" | "k < p" "l \<noteq> Lf" | "p < k" "r = Lf" "\<not> k < p" | "p < k" "r \<noteq> Lf" "\<not> k < p"
    using ne by (meson neqE not_less_iff_gr_or_eq)
  then show ?case
  proof cases
    case 1
    then have "insertRecursively h root ref z =
      Some (h(a \<mapsto> bst_cell p z (rp r) (cp cs), z \<mapsto> bst_cell k NULL NULL a), root, False)"
      using a Nd.prems(4,5,8) nn by (simp add: step read heap_simps bst_access)
    then show ?thesis
      using 1 a Nd.prems by (auto simp: shape_simps)
  next
    case 2
    then have "insertRecursively h root ref z = insertRecursively h root (LeftRef a) z"
      using a Nd.prems(8) nn by (simp add: step read)
    moreover have "\<exists>h'. insertRecursively h root (LeftRef a) z = Some (h', root, False)
      \<and> ctx_in bst_cell h' z (ins_pos (\<lambda>k. k) k (LC a p r # cs) l)
      \<and> h' z = Some (bst_cell k NULL NULL (rec_parent z (ins_pos (\<lambda>k. k) k (LC a p r # cs) l)))
      \<and> dom h' = dom h \<and> (\<forall>b. b \<notin> set (addrs l @ caddrs (LC a p r # cs)) \<longrightarrow> b \<noteq> z \<longrightarrow> h' b = h b)"
      using Nd.prems 2 read ne by (intro Nd.IH(1)) (auto simp: bst_get_ref_def)
    ultimately show ?thesis using 2 by auto
  next
    case 3
    then have "insertRecursively h root ref z =
      Some (h(a \<mapsto> bst_cell p (rp l) z (cp cs), z \<mapsto> bst_cell k NULL NULL z), root, False)"
      using a Nd.prems(4,5,8) nn 3(3) by (simp add: step read heap_simps bst_access)
    then show ?thesis
      using 3 a Nd.prems by (auto simp: shape_simps)
  next
    case 4
    then have "insertRecursively h root ref z = insertRecursively h root (RightRef a) z"
      using a Nd.prems(8) nn by (simp add: step read)
    moreover have "\<exists>h'. insertRecursively h root (RightRef a) z = Some (h', root, False)
      \<and> ctx_in bst_cell h' z (ins_pos (\<lambda>k. k) k (RC l a p # cs) r)
      \<and> h' z = Some (bst_cell k NULL NULL (rec_parent z (ins_pos (\<lambda>k. k) k (RC l a p # cs) r)))
      \<and> dom h' = dom h \<and> (\<forall>b. b \<notin> set (addrs r @ caddrs (RC l a p # cs)) \<longrightarrow> b \<noteq> z \<longrightarrow> h' b = h b)"
      using Nd.prems 4 read ne by (intro Nd.IH(2)) (auto simp: bst_get_ref_def)
    ultimately show ?thesis using 4 by auto
  qed
qed simp

lemma insertRecursively_present:
  fixes h :: "'a::linorder bst_heap"
  assumes "tree_in bst_cell h q t" "rd bst_key h z = Some k"
    "bst_get_ref h root ref = Some (rp t)" "find (\<lambda>k. k) k t \<noteq> Lf"
  shows "insertRecursively h root ref z = Some (h, root, False)"
  using assms
proof (induction t arbitrary: q ref)
  case (Nd l a p r)
  have a: "a \<noteq> NULL" "rd bst_key h a = Some p" "rd bst_left h a = Some (rp l)"
    "rd bst_right h a = Some (rp r)" using Nd.prems(1) by (auto simp: heap_simps)
  have nn: "rp l = NULL \<longleftrightarrow> l = Lf" "rp r = NULL \<longleftrightarrow> r = Lf"
    using Nd.prems(1) rp_eq_NULL [of bst_cell h a] by auto
  note step = insertRecursively.simps [of h root ref z]
  consider "k = p" | "k < p" "find (\<lambda>k. k) k l \<noteq> Lf" "l \<noteq> Lf"
    | "p < k" "\<not> k < p" "find (\<lambda>k. k) k r \<noteq> Lf" "r \<noteq> Lf"
    using Nd.prems(4) by (metis find.simps not_less_iff_gr_or_eq)
  then show ?case
  proof cases
    case 1
    then show ?thesis using a Nd.prems(2,3) by (simp add: step)
  next
    case 2
    then have "insertRecursively h root ref z = insertRecursively h root (LeftRef a) z"
      using a Nd.prems(2,3) nn by (simp add: step)
    then show ?thesis using 2 a Nd.prems Nd.IH(1) [of a "LeftRef a"] by (auto simp: bst_get_ref_def)
  next
    case 3
    then have "insertRecursively h root ref z = insertRecursively h root (RightRef a) z"
      using a Nd.prems(2,3) nn by (simp add: step)
    then show ?thesis using 3 a Nd.prems Nd.IH(2) [of a "RightRef a"] by (auto simp: bst_get_ref_def)
  qed
qed simp

lemma find_Nil: "k \<notin> set (keys_of kp t) \<Longrightarrow> find kp k t = Lf"
  by (induction t) auto

lemma insertRecursively_root:
  fixes h :: "'a::linorder bst_heap"
  assumes R: "bst_repr G h root t" and t: "t \<noteq> Lf" and k: "k \<notin> set (pays t)"
    and z: "z \<noteq> NULL" "h z = None" and cs: "cs = ins_pos (\<lambda>k. k) k [] t"
  shows "\<exists>h'. insertRecursively (h(z \<mapsto> new_BSTNode k NULL NULL NULL)) root RootRef z = Some (h', root, False)
    \<and> ctx_in bst_cell h' z cs \<and> h' z = Some (bst_cell k NULL NULL (rec_parent z cs))
    \<and> dom h' = insert z (dom h)"
proof -
  let ?h = "h(z \<mapsto> new_BSTNode k NULL NULL NULL)"
  note f = fresh_repr [OF R z]
  have "tree_in bst_cell ?h NULL t" "distinct (addrs t)" "root = rp t"
    using R f by (simp_all add: repr_def tree_in_frame)
  moreover have "?h z = Some (bst_cell k NULL NULL NULL)" by (simp add: new_BSTNode_def bst_cell_def)
  moreover have "find (\<lambda>k. k) k t = Lf" using k by (intro find_Nil) simp
  ultimately show ?thesis
    using insertRecursively_absent [of ?h "[]" t z k NULL root RootRef] t z f
    unfolding cs by (auto simp: bst_get_ref_def)
qed

subsection \<open>The properties\<close>

definition bst_demo_tree :: "int atree" where
  "bst_demo_tree = Nd (Nd Lf (Ptr 2) 1 Lf) (Ptr 1) 4 Lf"

definition bst_demo_heap :: "int bst_heap" where
  "bst_demo_heap = [Ptr 1 \<mapsto> bst_cell 4 (Ptr 2) NULL NULL, Ptr 2 \<mapsto> bst_cell 1 NULL NULL (Ptr 1)]"

lemma bst_demo:
  "bst_repr {} bst_demo_heap (Ptr 1) bst_demo_tree" "sorted (pays bst_demo_tree)"
  "bst_demo_tree \<noteq> Lf" "bst_demo_heap (Ptr 3) = None"
  by (auto simp: repr_def bst_demo_heap_def bst_demo_tree_def)

text \<open>C20: The iterative \<open>insert\<close> of the plain search tree returns and puts the new node after the
  nodes with an equal or smaller key, so the tree stays a search tree.\<close>

theorem bst_insert_correct:
  assumes "bst_repr G h root t" and "sorted (pays t)" and "z \<noteq> NULL" and "h z = None"
  shows "\<exists>h' root' t'. bst_insert_node (h(z \<mapsto> new_BSTNode k NULL NULL NULL)) root z = Some (h', root')
    \<and> bst_repr G h' root' t' \<and> sorted (pays t')
    \<and> items t' = filter (\<lambda>e. snd e \<le> k) (items t) @ (z, k) # filter (\<lambda>e. k < snd e) (items t)"
proof -
  let ?t = "plug (ins_pos (\<lambda>k. k) k [] t) (Nd Lf z k Lf)"
  have i: "items ?t = filter (\<lambda>e. snd e \<le> k) (items t) @ (z, k) # filter (\<lambda>e. k < snd e) (items t)"
    using ins_pos_items [of "\<lambda>k. k" t k k z] assms(2) by simp
  have "sorted (pays ?t)"
    using sorted_split_insert [of snd "items t" "(z, k)" k] assms(2) unfolding pays_items i by simp
  then show ?thesis using bst_insert_run [OF assms(1,3,4), of k] i by blast
qed

theorem bst_insert_correct_witness:
  "\<exists>h' root' t'. bst_insert_node (bst_demo_heap(Ptr 3 \<mapsto> new_BSTNode 2 NULL NULL NULL)) (Ptr 1) (Ptr 3)
    = Some (h', root') \<and> bst_repr {} h' root' t' \<and> pays t' = [1, 2, 4]"
  using bst_insert_correct [OF bst_demo(1,2) _ bst_demo(4), of 2]
  by (fastforce simp: bst_demo_tree_def pays_items)

text \<open>\<open>insertRecursively\<close> of a key that is absent reports false and links the new node where
  the iterative insertion would; below a greater key the tree is then a search tree again, but
  below a smaller key the new node becomes its own parent, so that \<open>successor\<close> of the node is the
  node itself and a walk by \<open>successor\<close> never ends.\<close>

theorem bst_insertRecursively_absent:
  assumes "bst_repr G h root t" and "t \<noteq> Lf" and "k \<notin> set (pays t)"
    and "z \<noteq> NULL" and "h z = None" and "cs = ins_pos (\<lambda>k. k) k [] t"
  shows "\<exists>h'. insertRecursively (h(z \<mapsto> new_BSTNode k NULL NULL NULL)) root RootRef z = Some (h', root, False)
    \<and> (case hd cs of LC a p r \<Rightarrow> bst_repr G h' root (plug cs (Nd Lf z k Lf))
        | RC l a p \<Rightarrow> rd bst_parent h' z = Some z \<and> bst_successor h' z = Some z)"
proof -
  obtain h' where 1: "insertRecursively (h(z \<mapsto> new_BSTNode k NULL NULL NULL)) root RootRef z = Some (h', root, False)"
    "ctx_in bst_cell h' z cs" "h' z = Some (bst_cell k NULL NULL (rec_parent z cs))" "dom h' = insert z (dom h)"
    using insertRecursively_root [OF assms] by blast
  have tp: "t = plug cs Lf" by (simp add: assms(6) ins_pos_plug)
  then have ne: "cs \<noteq> []" using assms(2) by auto
  note f = fresh_repr [OF assms(1,4,5)]
  show ?thesis
  proof (cases "hd cs")
    case (LC a p r)
    then have "rec_parent z cs = cp cs" using ne by (cases cs) auto
    moreover have "rp (plug cs Lf) = rp (plug cs (Nd Lf z k Lf))" by (rule rp_plug_any [OF ne])
    ultimately have "bst_repr G h' root (plug cs (Nd Lf z k Lf))"
      using 1 assms(1,4) f unfolding tp by (auto simp: repr_def shape_simps)
    then show ?thesis using LC 1(1) by simp
  next
    case (RC l a p)
    then have "rec_parent z cs = z" using ne by (cases cs) auto
    then have "rd bst_parent h' z = Some z" "rd bst_right h' z = Some NULL"
      using 1(3) assms(4) by (simp_all add: heap_simps)
    then show ?thesis using RC 1(1) assms(4)
      by (simp add: bst_successor_def bst_successor_loop.simps [of h' z])
  qed
qed

theorem bst_insertRecursively_absent_witness:
  "\<exists>h'. insertRecursively (bst_demo_heap(Ptr 3 \<mapsto> new_BSTNode 9 NULL NULL NULL)) (Ptr 1) RootRef (Ptr 3)
      = Some (h', Ptr 1, False) \<and> bst_successor h' (Ptr 3) = Some (Ptr 3)"
  using bst_insertRecursively_absent [OF bst_demo(1,3) _ _ bst_demo(4) refl, of 9]
  by (auto simp: bst_demo_tree_def)

text \<open>The queries of the plain search tree are correct: both searches return the same node,
  which carries the key, or null when it is absent; the neighbours are the neighbours in key
  order; the extrema are the least and the greatest key.\<close>

theorem bst_queries_correct:
  fixes h :: "'a::linorder bst_heap"
  assumes "bst_repr G h root t" and "sorted (pays t)" and "t \<noteq> Lf" and "i < length (addrs t)"
  shows "(\<exists>x. bst_search h root k = Some x \<and> bst_iterativeSearch h root k = Some x
      \<and> (x = NULL \<longleftrightarrow> k \<notin> set (pays t)) \<and> (x \<noteq> NULL \<longrightarrow> rd bst_key h x = Some k))
    \<and> bst_successor h (addrs t ! i) = Some (if Suc i < length (addrs t) then addrs t ! Suc i else NULL)
    \<and> bst_predecessor h (addrs t ! i) = Some (if 0 < i then addrs t ! (i - 1) else NULL)
    \<and> bst_minimum_key d h root = Some (Min (set (pays t)))
    \<and> bst_maximum_key d h root = Some (Max (set (pays t)))"
proof (intro conjI)
  have T: "tree_in bst_cell h NULL t" "root = rp t" using assms(1) by (simp_all add: repr_def)
  have s: "sorted (keys_of (\<lambda>k. k) t)" using assms(2) by simp
  show "\<exists>x. bst_search h root k = Some x \<and> bst_iterativeSearch h root k = Some x
      \<and> (x = NULL \<longleftrightarrow> k \<notin> set (pays t)) \<and> (x \<noteq> NULL \<longrightarrow> rd bst_key h x = Some k)"
    using bst_srch.srch_correct [OF T(1) s, of k] bst_srch.srch_find [OF T(1), of k]
      bst_iter.srch_find [OF T(1), of k] T(2) by auto
  show "bst_successor h (addrs t ! i) = Some (if Suc i < length (addrs t) then addrs t ! Suc i else NULL)"
    "bst_predecessor h (addrs t ! i) = Some (if 0 < i then addrs t ! (i - 1) else NULL)"
    by (rule bst_nav.neighbours [OF assms(1,4)])+
  show "bst_minimum_key d h root = Some (Min (set (pays t)))"
    "bst_maximum_key d h root = Some (Max (set (pays t)))"
    using bst_nav.extrema [OF assms(1) s assms(3)]
    by (auto simp: bst_minimum_key_def bst_maximum_key_def bst_minimum_def bst_maximum_def)
qed

theorem bst_queries_correct_witness:
  "bst_successor bst_demo_heap (Ptr 2) = Some (Ptr 1) \<and> bst_minimum_key 0 bst_demo_heap (Ptr 1) = Some 1"
  using bst_queries_correct [OF bst_demo(1-3), of 0] by (simp add: bst_demo_tree_def)

end
