(* ===== verification/QueueSpec.thy ===== *)
theory QueueSpec
  imports Prelude
begin

text \<open>
  What a bounded first-in first-out queue promises its clients, as a locale: \<open>put\<close> appends while
  there is room and reports whether it did, \<open>take\<close> removes the head or reports that the queue is
  empty.  Both return \<^const>\<open>None\<close> on undefined behaviour, which the laws exclude.  The client
  lemmas are about arbitrary sequences of operations: every operation of the code runs under
  one mutex, so a run of several threads is such a sequence (\<open>BlockQueue_Threads\<close>).
\<close>

datatype 'a queue_op = Put 'a | Take

text \<open>What an operation reports: whether the item was accepted, or the item taken.\<close>

datatype 'a queue_res = Accepted bool | Taken "'a option"

fun accepted :: "('a queue_op \<times> 'a queue_res) list \<Rightarrow> 'a list" where
  "accepted [] = []"
| "accepted ((Put x, Accepted True) # tr) = x # accepted tr"
| "accepted (_ # tr) = accepted tr"

fun taken :: "('a queue_op \<times> 'a queue_res) list \<Rightarrow> 'a list" where
  "taken [] = []"
| "taken ((Take, Taken (Some x)) # tr) = x # taken tr"
| "taken (_ # tr) = taken tr"

locale bounded_queue =
  fixes inv :: "'q \<Rightarrow> bool"
    and items :: "'q \<Rightarrow> 'a list"
    and cap :: "'q \<Rightarrow> nat"
    and put :: "'a \<Rightarrow> 'q \<Rightarrow> (bool \<times> 'q) option"
    and take1 :: "'q \<Rightarrow> ('a option \<times> 'q) option"
  assumes put_full: "inv q \<Longrightarrow> cap q \<le> length (items q) \<Longrightarrow> put x q = Some (False, q)"
    and put_room: "inv q \<Longrightarrow> length (items q) < cap q \<Longrightarrow>
      \<exists>q'. put x q = Some (True, q') \<and> inv q' \<and> cap q' = cap q \<and> items q' = items q @ [x]"
    and take_empty: "inv q \<Longrightarrow> items q = [] \<Longrightarrow> take1 q = Some (None, q)"
    and take_item: "inv q \<Longrightarrow> items q = x # xs \<Longrightarrow>
      \<exists>q'. take1 q = Some (Some x, q') \<and> inv q' \<and> cap q' = cap q \<and> items q' = xs"
begin

fun run :: "'a queue_op list \<Rightarrow> 'q \<Rightarrow> ('a queue_res list \<times> 'q) option" where
  "run [] q = Some ([], q)"
| "run (Put x # ops) q = do {
      (b, q) \<leftarrow> put x q; (rs, q) \<leftarrow> run ops q; Some (Accepted b # rs, q) }"
| "run (Take # ops) q = do {
      (v, q) \<leftarrow> take1 q; (rs, q) \<leftarrow> run ops q; Some (Taken v # rs, q) }"

text \<open>
  Every sequence of operations returns, keeps the invariant, and delivers the accepted items in
  the order in which they were accepted, each at most once: what was in the queue followed by
  what was accepted is what was taken followed by what is left.
\<close>

lemma run_fifo:
  assumes "inv q"
  shows "\<exists>rs q'. run ops q = Some (rs, q') \<and> inv q' \<and> cap q' = cap q \<and> length rs = length ops
    \<and> items q @ accepted (zip ops rs) = taken (zip ops rs) @ items q'
    \<and> (length (items q) \<le> cap q \<longrightarrow> length (items q') \<le> cap q')"
  using assms
proof (induction ops arbitrary: q)
  case (Cons op ops)
  show ?case
  proof (cases op)
    case (Put x)
    show ?thesis
    proof (cases "length (items q) < cap q")
      case True
      then obtain q1 where 1: "put x q = Some (True, q1)" "inv q1" "cap q1 = cap q" "items q1 = items q @ [x]"
        using put_room Cons.prems by blast
      then show ?thesis using Cons.IH [OF 1(2)] Put True by auto
    next
      case False
      then have "put x q = Some (False, q)" using put_full Cons.prems by simp
      then show ?thesis using Cons.IH [OF Cons.prems] Put by auto
    qed
  next
    case Take
    show ?thesis
    proof (cases "items q")
      case Nil
      then have "take1 q = Some (None, q)" using take_empty Cons.prems by simp
      then show ?thesis using Cons.IH [OF Cons.prems] Take by auto
    next
      case (Cons x xs)
      then obtain q1 where 1: "take1 q = Some (Some x, q1)" "inv q1" "cap q1 = cap q" "items q1 = xs"
        using take_item Cons.prems by blast
      then show ?thesis using Cons.IH [OF 1(2)] Take Cons by auto
    qed
  qed
qed simp

end

end
