(* ===== verification/BlockQueue.thy ===== *)
theory BlockQueue
  imports QueueSpec
begin

text \<open>
  The template \<open>block_queue\<close> of \<open>epoll/block_queue.h\<close> (and its copy in the directory log): a ring
  buffer in an array.  A read or write outside the array is \<^const>\<open>None\<close>.  Every operation holds
  the mutex from its first to its last statement, except \<open>pop\<close> while it waits on the condition
  variable; the state in which a wait ends is chosen by the other threads and is an argument.
  \<open>BlockQueue_Threads\<close> shows that this is enough for threads that run at the same time.
\<close>

subsection \<open>Definitions\<close>

record 'a block_queue =
  m_array :: "'a list"
  m_size :: int
  m_max_size :: int
  m_front :: int
  m_back :: int

text \<open>
  The constructor exits the process when the size is not positive (\<^const>\<open>None\<close>); \<open>a\<close> is the
  content of the new array.
\<close>

definition bq_new :: "int \<Rightarrow> (nat \<Rightarrow> 'a) \<Rightarrow> 'a block_queue option" where
  "bq_new max_size a = (if max_size \<le> 0 then None
     else Some \<lparr>m_array = map a [0..<nat max_size], m_size = 0, m_max_size = max_size,
       m_front = -1, m_back = -1\<rparr>)"

definition bq_clear :: "'a block_queue \<Rightarrow> 'a block_queue" where
  "bq_clear q = q\<lparr>m_size := 0, m_front := -1, m_back := -1\<rparr>"

definition bq_full :: "'a block_queue \<Rightarrow> bool" where
  "bq_full q \<longleftrightarrow> m_size q \<ge> m_max_size q"

definition bq_empty :: "'a block_queue \<Rightarrow> bool" where
  "bq_empty q \<longleftrightarrow> 0 = m_size q"

text \<open>\<open>front(T &value)\<close> and \<open>back(T &value)\<close>: \<open>Some None\<close> is the return value false.\<close>

definition bq_front :: "'a block_queue \<Rightarrow> 'a option option" where
  "bq_front q = (if 0 = m_size q then Some None
     else do { v \<leftarrow> arr_get (m_array q) (m_front q); Some (Some v) })"

definition bq_back :: "'a block_queue \<Rightarrow> 'a option option" where
  "bq_back q = (if 0 = m_size q then Some None
     else do { v \<leftarrow> arr_get (m_array q) (m_back q); Some (Some v) })"

definition bq_size :: "'a block_queue \<Rightarrow> int" where
  "bq_size q = m_size q"

definition bq_max_size :: "'a block_queue \<Rightarrow> int" where
  "bq_max_size q = m_max_size q"

definition bq_push :: "'a \<Rightarrow> 'a block_queue \<Rightarrow> (bool \<times> 'a block_queue) option" where
  "bq_push item q = (if m_size q \<ge> m_max_size q then Some (False, q)
     else do {
       let b = (m_back q + 1) smod m_max_size q;
       a \<leftarrow> arr_set (m_array q) b item;
       Some (True, q\<lparr>m_back := b, m_array := a, m_size := m_size q + 1\<rparr>) })"

text \<open>The part of \<open>pop\<close> after the wait.\<close>

definition bq_pop_item :: "'a block_queue \<Rightarrow> ('a \<times> 'a block_queue) option" where
  "bq_pop_item q = do {
     let f = (m_front q + 1) smod m_max_size q;
     v \<leftarrow> arr_get (m_array q) f;
     Some (v, q\<lparr>m_front := f, m_size := m_size q - 1\<rparr>) }"

text \<open>
  \<open>pop(T &item)\<close>.  Each element of the list is the result of one \<open>m_cond.wait\<close> with the queue as
  the other threads left it; \<open>Blocked\<close> is a \<open>pop\<close> that is still waiting.
\<close>

datatype ('a, 'q) pop_result = Popped 'a 'q | PopFailed 'q | Blocked

fun bq_pop :: "(bool \<times> 'a block_queue) list \<Rightarrow> 'a block_queue \<Rightarrow>
    ('a, 'a block_queue) pop_result option" where
  "bq_pop ws q = (if m_size q \<le> 0 then
       (case ws of [] \<Rightarrow> Some Blocked
        | (ok, q') # ws' \<Rightarrow> if \<not> ok then Some (PopFailed q') else bq_pop ws' q')
     else do { (v, q) \<leftarrow> bq_pop_item q; Some (Popped v q) })"

text \<open>
  \<open>pop(T &item, int ms_timeout)\<close>: the absolute time handed to \<open>pthread_cond_timedwait\<close>, from the
  time \<open>(tv_sec, tv_usec)\<close> of \<open>gettimeofday\<close>, and the operation; \<open>w\<close> is the result of the wait.
\<close>

definition bq_deadline :: "int \<times> int \<Rightarrow> int \<Rightarrow> int \<times> int" where
  "bq_deadline now ms_timeout = (fst now + ms_timeout sdiv 1000, (ms_timeout smod 1000) * 1000)"

definition bq_pop_timeout :: "bool \<times> 'a block_queue \<Rightarrow> 'a block_queue \<Rightarrow>
    ('a, 'a block_queue) pop_result option" where
  "bq_pop_timeout w q = do {
     let (ok, q) = (if m_size q \<le> 0 then w else (True, q));
     if \<not> ok then Some (PopFailed q)
     else if m_size q \<le> 0 then Some (PopFailed q)
     else do { (v, q) \<leftarrow> bq_pop_item q; Some (Popped v q) } }"

text \<open>\<open>pop\<close> as a queue operation that does not wait.\<close>

definition bq_try_pop :: "'a block_queue \<Rightarrow> ('a option \<times> 'a block_queue) option" where
  "bq_try_pop q = (case bq_pop_timeout (False, q) q of
      None \<Rightarrow> None
    | Some (Popped v q') \<Rightarrow> Some (Some v, q')
    | Some (PopFailed q') \<Rightarrow> Some (None, q')
    | Some Blocked \<Rightarrow> None)"

subsection \<open>The ring buffer implements a list\<close>

definition bq_inv :: "'a block_queue \<Rightarrow> bool" where
  "bq_inv q \<longleftrightarrow> 0 < m_max_size q \<and> length (m_array q) = nat (m_max_size q)
     \<and> 0 \<le> m_size q \<and> m_size q \<le> m_max_size q
     \<and> -1 \<le> m_front q \<and> m_front q < m_max_size q \<and> -1 \<le> m_back q \<and> m_back q < m_max_size q
     \<and> (m_front q + m_size q) mod m_max_size q = m_back q mod m_max_size q
     \<and> (0 < m_size q \<longrightarrow> 0 \<le> m_back q)"

text \<open>The i-th queued item sits i + 1 places after \<open>m_front\<close>.\<close>

definition bq_slot :: "'a block_queue \<Rightarrow> nat \<Rightarrow> nat" where
  "bq_slot q i = nat ((m_front q + 1 + int i) mod m_max_size q)"

definition bq_items :: "'a block_queue \<Rightarrow> 'a list" where
  "bq_items q = map (\<lambda>i. m_array q ! bq_slot q i) [0..<nat (m_size q)]"

lemma bq_items_length [simp]: "length (bq_items q) = nat (m_size q)"
  by (simp add: bq_items_def)

lemma bq_items_nth: "int i < m_size q \<Longrightarrow> bq_items q ! i = m_array q ! bq_slot q i"
  using zless_nat_eq_int_zless [of i "m_size q"] by (simp add: bq_items_def)

lemma bq_items_Nil: "bq_items q = [] \<longleftrightarrow> m_size q \<le> 0"
  by (simp add: bq_items_def)

lemma bq_slot_less: "bq_inv q \<Longrightarrow> bq_slot q i < length (m_array q)"
  by (simp add: bq_slot_def bq_inv_def nat_less_iff)

lemma mod_add_inj:
  assumes "0 < (m::int)" "0 \<le> i" "i < j" "j < i + m"
  shows "(a + i) mod m \<noteq> (a + j) mod m"
proof
  assume "(a + i) mod m = (a + j) mod m"
  then have "m dvd (a + j) - (a + i)" by (metis mod_eq_dvd_iff)
  then have "m dvd j - i" by simp
  then show False using assms zdvd_imp_le [of m "j - i"] by simp
qed

lemma bq_push_room:
  assumes inv: "bq_inv q" and room: "m_size q < m_max_size q"
  shows "\<exists>q'. bq_push x q = Some (True, q') \<and> bq_inv q' \<and> m_max_size q' = m_max_size q
    \<and> bq_items q' = bq_items q @ [x]"
proof -
  let ?m = "m_max_size q" and ?b = "(m_back q + 1) mod m_max_size q"
  have b: "(m_back q + 1) smod ?m = ?b" "0 \<le> ?b" "?b < ?m" "nat ?b < length (m_array q)"
    using inv by (simp_all add: bq_inv_def smod_pos nat_less_iff)
  have e: "?b = (m_front q + 1 + m_size q) mod ?m"
    using inv unfolding bq_inv_def by (metis mod_add_left_eq add.commute add.left_commute)
  define q' where "q' = q\<lparr>m_back := ?b, m_array := (m_array q)[nat ?b := x], m_size := m_size q + 1\<rparr>"
  have run: "bq_push x q = Some (True, q')"
    using room b by (simp add: bq_push_def arr_set_def q'_def Let_def)
  have "(m_front q + (m_size q + 1)) mod ?m = ?b mod ?m" unfolding e by (simp add: algebra_simps)
  then have inv': "bq_inv q'"
    using inv room b(3) order_trans [OF _ b(2), of "-1"] by (simp add: bq_inv_def q'_def)
  have s: "bq_slot q' i = bq_slot q i" for i by (simp add: bq_slot_def q'_def)
  have sel: "m_array q' = (m_array q)[nat ?b := x]" "m_size q' = m_size q + 1" by (simp_all add: q'_def)
  have "bq_items q' = bq_items q @ [x]"
  proof (rule nth_equalityI)
    show "length (bq_items q') = length (bq_items q @ [x])"
      using inv by (simp add: q'_def bq_inv_def nat_add_distrib)
    fix i assume "i < length (bq_items q')"
    then have i: "int i < m_size q + 1" by (simp add: q'_def)
    show "bq_items q' ! i = (bq_items q @ [x]) ! i"
    proof (cases "int i < m_size q")
      case True
      have "(m_front q + 1 + int i) mod ?m \<noteq> (m_front q + 1 + m_size q) mod ?m"
        using True inv room by (intro mod_add_inj) (auto simp: bq_inv_def)
      then have "bq_slot q i \<noteq> nat ?b"
        using b(2) e inv by (auto simp: bq_slot_def bq_inv_def eq_nat_nat_iff)
      then show ?thesis
        using True i zless_nat_eq_int_zless [of i "m_size q"]
        by (simp add: bq_items_nth nth_append s sel)
    next
      case False
      then have "i = nat (m_size q)" "bq_slot q i = nat ?b" using i inv e
        by (auto simp: bq_inv_def bq_slot_def)
      then show ?thesis
        using i b by (simp add: bq_items_nth nth_append s sel)
    qed
  qed
  then show ?thesis using run inv' by (auto simp: q'_def)
qed

lemma bq_pop_item_run:
  assumes inv: "bq_inv q" and ne: "0 < m_size q"
  shows "\<exists>q'. bq_pop_item q = Some (hd (bq_items q), q') \<and> bq_inv q' \<and> m_max_size q' = m_max_size q
    \<and> bq_items q' = tl (bq_items q) \<and> m_array q' ! nat (m_front q') = hd (bq_items q) \<and> 0 \<le> m_front q'"
proof -
  let ?m = "m_max_size q" and ?f = "(m_front q + 1) mod m_max_size q"
  have f: "(m_front q + 1) smod ?m = ?f" "0 \<le> ?f" "?f < ?m" "nat ?f < length (m_array q)"
    using inv by (simp_all add: bq_inv_def smod_pos nat_less_iff)
  define q' where "q' = q\<lparr>m_front := ?f, m_size := m_size q - 1\<rparr>"
  have h: "hd (bq_items q) = m_array q ! nat ?f"
    using ne by (simp add: bq_items_def hd_map bq_slot_def)
  have run: "bq_pop_item q = Some (hd (bq_items q), q')"
    using f by (simp add: bq_pop_item_def arr_get_def q'_def Let_def h)
  have "(?f + (m_size q - 1)) mod ?m = (m_front q + 1 + (m_size q - 1)) mod ?m" by (rule mod_add_left_eq)
  then have "(?f + (m_size q - 1)) mod ?m = m_back q mod ?m" using inv by (simp add: bq_inv_def)
  then have inv': "bq_inv q'"
    using inv ne f(2,3) order_trans [OF _ f(2), of "-1"] by (simp add: bq_inv_def q'_def)
  have "(?f + (1 + int i)) mod ?m = (m_front q + 1 + (1 + int i)) mod ?m" for i by (rule mod_add_left_eq)
  then have s: "bq_slot q' i = bq_slot q (Suc i)" for i
    by (simp add: bq_slot_def q'_def add.assoc)
  have sel: "m_array q' = m_array q" "m_size q' = m_size q - 1" by (simp_all add: q'_def)
  have "bq_items q' = tl (bq_items q)"
    using ne by (intro nth_equalityI) (auto simp: nth_tl bq_items_def s sel)
  then show ?thesis using run inv' h f by (auto simp: q'_def)
qed

lemma bq_try_pop_eq:
  "bq_inv q \<Longrightarrow> bq_try_pop q = (if m_size q \<le> 0 then Some (None, q)
     else do { (v, q') \<leftarrow> bq_pop_item q; Some (Some v, q') })"
  by (cases "bq_pop_item q") (auto simp: bq_try_pop_def bq_pop_timeout_def)

interpretation bq: bounded_queue bq_inv bq_items "\<lambda>q. nat (m_max_size q)" bq_push bq_try_pop
proof (unfold_locales, goal_cases)
  case (1 q x)
  then have "m_max_size q \<le> m_size q" by (simp add: bq_inv_def nat_le_eq_zle)
  then show ?case by (simp add: bq_push_def)
next
  case (2 q x)
  then have "m_size q < m_max_size q" by (simp add: bq_inv_def)
  then show ?case using bq_push_room [of q x] 2(1) by fastforce
next
  case (3 q)
  then have "m_size q \<le> 0" by (simp add: bq_items_Nil)
  then show ?case using 3(1) by (simp add: bq_try_pop_eq)
next
  case (4 q x xs)
  then have "0 < m_size q" using bq_items_Nil [of q] by (simp add: not_le [symmetric])
  then show ?case using bq_pop_item_run [OF 4(1)] 4 by (auto simp: bq_try_pop_eq)
qed

lemma bq_new_inv:
  assumes "0 < n"
  shows "\<exists>q. bq_new n a = Some q \<and> bq_inv q \<and> bq_items q = [] \<and> m_max_size q = n \<and> m_front q = -1"
  using assms by (simp add: bq_new_def bq_inv_def bq_items_def)

lemma bq_clear_inv: "bq_inv q \<Longrightarrow> bq_inv (bq_clear q) \<and> bq_items (bq_clear q) = []"
  by (simp add: bq_clear_def bq_inv_def bq_items_def)

lemma bq_back_last:
  assumes "bq_inv q" "bq_items q \<noteq> []"
  shows "bq_back q = Some (Some (last (bq_items q)))"
proof -
  have s: "0 < m_size q" using assms(2) bq_items_Nil [of q] by (simp add: not_le [symmetric])
  have b: "0 \<le> m_back q" "m_back q < m_max_size q" "length (m_array q) = nat (m_max_size q)"
    "(m_front q + m_size q) mod m_max_size q = m_back q"
    using assms(1) s by (simp_all add: bq_inv_def)
  have "last (bq_items q) = m_array q ! bq_slot q (nat (m_size q) - 1)"
    using s by (simp add: bq_items_def last_map)
  also have "bq_slot q (nat (m_size q) - 1) = nat (m_back q)"
    using b(4) s by (simp add: bq_slot_def of_nat_diff)
  finally show ?thesis using s b by (simp add: bq_back_def arr_get_def nat_less_iff)
qed

subsection \<open>The properties\<close>

definition bq_demo :: "int block_queue" where
  "bq_demo = \<lparr>m_array = [7, 9, 5], m_size = 2, m_max_size = 3, m_front = 1, m_back = 0\<rparr>"

lemma bq_demo_inv: "bq_inv bq_demo" "bq_items bq_demo = [5, 7]"
  by (simp_all add: bq_demo_def bq_inv_def bq_items_def bq_slot_def upt_rec)

text \<open>For every sequence of \<open>push\<close> and non-waiting \<open>pop\<close> calls, which is every interleaving of
  threads since each call holds the mutex, no call leaves the array bounds, the queue never
  holds more than \<open>m_max_size\<close> items, and the items come out exactly once each and in the order
  in which they were accepted.\<close>

theorem bq_fifo:
  assumes "bq_inv q"
  shows "\<exists>rs q'. bq.run ops q = Some (rs, q') \<and> bq_inv q' \<and> m_size q' \<le> m_max_size q'
    \<and> bq_items q @ accepted (zip ops rs) = taken (zip ops rs) @ bq_items q'"
proof -
  obtain rs q' where "bq.run ops q = Some (rs, q')" "bq_inv q'"
    "bq_items q @ accepted (zip ops rs) = taken (zip ops rs) @ bq_items q'"
    using bq.run_fifo [OF assms, of ops] by blast
  then show ?thesis by (auto simp: bq_inv_def)
qed

theorem bq_fifo_witness:
  "\<exists>rs q'. bq.run [Take, Put 8, Put 4, Put 2] bq_demo = Some (rs, q')
    \<and> [5, 7] @ accepted (zip [Take, Put 8, Put 4, Put 2] rs) = taken (zip [Take, Put 8, Put 4, Put 2] rs) @ bq_items q'"
  using bq_fifo [OF bq_demo_inv(1), of "[Take, Put 8, Put 4, Put 2]"] unfolding bq_demo_inv(2) by blast

text \<open>\<open>push\<close> refuses exactly when the queue is full and leaves it unchanged then; \<open>full\<close>,
  \<open>empty\<close>, \<open>size\<close>, \<open>back\<close> and \<open>clear\<close> agree with the list of queued items.\<close>

theorem bq_operations:
  assumes "bq_inv q"
  shows "(bq_push x q = Some (False, q) \<longleftrightarrow> bq_full q)
    \<and> bq_full q = (length (bq_items q) = nat (bq_max_size q)) \<and> bq_empty q = (bq_items q = [])
    \<and> nat (bq_size q) = length (bq_items q)
    \<and> bq_back q = Some (if bq_items q = [] then None else Some (last (bq_items q)))
    \<and> bq_items (bq_clear q) = [] \<and> bq_inv (bq_clear q)"
proof (intro conjI)
  show "bq_push x q = Some (False, q) \<longleftrightarrow> bq_full q"
    using bq_push_room [OF assms, of x] by (cases "m_size q < m_max_size q") (auto simp: bq_full_def bq_push_def)
  show "bq_full q = (length (bq_items q) = nat (bq_max_size q))"
    using assms by (auto simp: bq_full_def bq_max_size_def bq_inv_def)
  show e: "bq_empty q = (bq_items q = [])"
    using assms bq_items_length [of q] by (auto simp: bq_empty_def bq_inv_def bq_items_def)
  show "nat (bq_size q) = length (bq_items q)" by (simp add: bq_size_def)
  show "bq_back q = Some (if bq_items q = [] then None else Some (last (bq_items q)))"
    using bq_back_last [OF assms] e by (simp add: bq_back_def bq_empty_def)
qed (use bq_clear_inv [OF assms] in simp_all)

theorem bq_operations_witness: "bq_back bq_demo = Some (Some 7) \<and> \<not> bq_full bq_demo"
  using bq_operations [OF bq_demo_inv(1)] by (simp add: bq_demo_inv(2)) (simp add: bq_max_size_def bq_demo_def)

text \<open>\<open>front\<close> does not return the head of the queue: before the first \<open>pop\<close> it reads the array
  at index -1, and after a \<open>pop\<close> it returns the item that this \<open>pop\<close> removed.\<close>

theorem bq_front_stale:
  assumes "bq_inv q" and "bq_pop_item q = Some (v, q')" and "0 < m_size q" and "0 < m_size q'"
  shows "bq_front q' = Some (Some v)
    \<and> (\<forall>n a x q\<^sub>0 q\<^sub>1. bq_new n a = Some q\<^sub>0 \<longrightarrow> bq_push x q\<^sub>0 = Some (True, q\<^sub>1) \<longrightarrow> bq_front q\<^sub>1 = None)"
proof
  have "\<exists>q'. bq_pop_item q = Some (hd (bq_items q), q') \<and> bq_inv q' \<and> m_array q' ! nat (m_front q') = hd (bq_items q)
      \<and> 0 \<le> m_front q'" using bq_pop_item_run [OF assms(1,3)] by blast
  then show "bq_front q' = Some (Some v)"
    using assms by (auto simp: bq_front_def arr_get_def bq_inv_def nat_less_iff)
  show "\<forall>n a x q\<^sub>0 q\<^sub>1. bq_new n a = Some q\<^sub>0 \<longrightarrow> bq_push x q\<^sub>0 = Some (True, q\<^sub>1) \<longrightarrow> bq_front q\<^sub>1 = None"
    by (auto simp: bq_new_def bq_push_def bq_front_def arr_get_def Let_def bind_eq_Some_conv split: if_splits)
qed

theorem bq_front_stale_witness:
  "\<exists>q'. bq_pop_item bq_demo = Some (5, q') \<and> bq_front q' = Some (Some 5) \<and> bq_items q' = [7]"
proof -
  define q' where "q' = bq_demo\<lparr>m_front := 2, m_size := 1\<rparr>"
  have "bq_pop_item bq_demo = Some (5, q')"
    by (simp add: q'_def bq_pop_item_def bq_demo_def arr_get_def smod_pos)
  moreover have "0 < m_size bq_demo" "0 < m_size q'" by (simp_all add: q'_def bq_demo_def)
  from bq_front_stale [OF bq_demo_inv(1) calculation this] have "bq_front q' = Some (Some 5)"
    by (rule conjunct1)
  moreover have "bq_items q' = [7]"
    by (simp add: q'_def bq_demo_def bq_items_def bq_slot_def upt_rec)
  ultimately show ?thesis by blast
qed

text \<open>The deadline of the timed \<open>pop\<close> is not \<open>ms_timeout\<close> milliseconds after now: the
  nanosecond field gets microseconds and drops the current fraction of a second, so a timeout
  below one second has already passed whenever \<open>ms_timeout \<le> tv_usec\<close>.\<close>

theorem bq_deadline_past:
  assumes "0 \<le> ms" and "ms < 1000" and "ms \<le> usec"
  shows "1000000000 * fst (bq_deadline (sec, usec) ms) + snd (bq_deadline (sec, usec) ms)
    \<le> 1000000000 * sec + 1000 * usec"
  using assms by (simp add: bq_deadline_def smod_pos sdiv_pos)

theorem bq_deadline_past_witness:
  "1000000000 * fst (bq_deadline (10, 600000) 500) + snd (bq_deadline (10, 600000) 500)
    \<le> 1000000000 * 10 + 1000 * (600000 :: int)"
  by (rule bq_deadline_past) simp_all

text \<open>The waiting \<open>pop\<close> never takes an item that is not there: it returns the head of the queue
  it finds after its last wait, fails only when a wait fails, and otherwise still waits.\<close>

theorem bq_pop_waits:
  assumes "bq_inv q" and "\<forall>(ok, q') \<in> set ws. bq_inv q'"
  shows "\<exists>r. bq_pop ws q = Some r \<and> (case r of
      Popped v q2 \<Rightarrow> \<exists>q1 \<in> insert q (snd ` set ws). bq_items q1 = v # bq_items q2 \<and> bq_inv q2
    | PopFailed q2 \<Rightarrow> (False, q2) \<in> set ws
    | Blocked \<Rightarrow> bq_items q = [] \<and> (\<forall>(ok, q') \<in> set ws. ok \<and> bq_items q' = []))"
  using assms
proof (induction ws q rule: bq_pop.induct)
  case (1 ws q)
  show ?case
  proof (cases "m_size q \<le> 0")
    case False
    then obtain q2 where "bq_pop_item q = Some (hd (bq_items q), q2)" "bq_inv q2" "bq_items q2 = tl (bq_items q)"
      using bq_pop_item_run [OF 1(2)] by auto
    moreover have "bq_items q \<noteq> []" using False by (simp add: bq_items_Nil)
    ultimately show ?thesis using False by (subst bq_pop.simps) simp
  next
    case True
    then have e: "bq_items q = []" by (simp add: bq_items_def)
    show ?thesis
    proof (cases ws)
      case Nil
      then show ?thesis using True e by (subst bq_pop.simps) simp
    next
      case (Cons w ws')
      obtain ok q' where w: "w = (ok, q')" by (cases w)
      show ?thesis
      proof (cases ok)
        case False
        then show ?thesis using True Cons w by (subst bq_pop.simps) simp
      next
        case ok: True
        have "bq_inv q'" "\<forall>(ok, q') \<in> set ws'. bq_inv q'" using 1(3) Cons w by auto
        from 1(1) [OF True Cons w [symmetric] _ this] ok obtain r where r: "bq_pop ws' q' = Some r"
          "case r of
            Popped v q2 \<Rightarrow> \<exists>q1 \<in> insert q' (snd ` set ws'). bq_items q1 = v # bq_items q2 \<and> bq_inv q2
          | PopFailed q2 \<Rightarrow> (False, q2) \<in> set ws'
          | Blocked \<Rightarrow> bq_items q' = [] \<and> (\<forall>(ok, q') \<in> set ws'. ok \<and> bq_items q' = [])"
          by auto
        have "bq_pop ws q = Some r" using True Cons w ok r(1) by (subst bq_pop.simps) simp
        then show ?thesis using r(2) Cons w e ok by (auto split: pop_result.splits)
      qed
    qed
  qed
qed

theorem bq_pop_waits_witness:
  "\<exists>r. bq_pop [(True, bq_demo)] (bq_clear bq_demo) = Some r \<and> r \<noteq> Blocked"
  using bq_pop_waits [of "bq_clear bq_demo" "[(True, bq_demo)]"] bq_clear_inv [OF bq_demo_inv(1)]
  by (auto simp: bq_demo_inv)

end
