(* ===== verification/Locker.thy ===== *)
theory Locker
  imports Prelude
begin

text \<open>
  The wrappers of \<open>epoll/locker.h\<close> and \<open>log/locker.h\<close> around the semaphores, mutexes and condition
  variables of the thread library.  A semaphore is its value, a mutex the thread that has it, and a
  condition variable the set of the threads that wait.  Threads are numbers.  An operation either has
  to wait, or goes on with its result and the new state, or is undefined by the standard.  The two
  files differ in what a constructor does when the initialisation fails: the one in the directory log
  throws (\<open>throws\<close>), the other one has this commented out and leaves the object as it is.
\<close>

datatype 'a outcome = Waits | Undefined | Goes 'a

datatype 'a made = Made 'a | Unusable | Thrown

type_synonym sem = nat
type_synonym locker = "nat option"
type_synonym cond = "nat set"

definition made_of :: "bool \<Rightarrow> bool \<Rightarrow> 'a \<Rightarrow> 'a made" where
  "made_of throws ok x = (if ok then Made x else if throws then Thrown else Unusable)"

subsection \<open>Semaphores\<close>

definition SEM_VALUE_MAX :: nat where "SEM_VALUE_MAX = 2 ^ 31 - 1"

definition sem_new :: "bool \<Rightarrow> bool \<Rightarrow> sem made" where
  "sem_new throws ok = made_of throws ok 0"

definition sem_new_num :: "bool \<Rightarrow> bool \<Rightarrow> nat \<Rightarrow> sem made" where
  "sem_new_num throws ok num = made_of throws ok num"

text \<open>\<open>sem_wait\<close> may be interrupted by a signal; \<open>sem_post\<close> fails on the greatest value.\<close>

definition sem_wait :: "bool \<Rightarrow> sem \<Rightarrow> (bool \<times> sem) outcome" where
  "sem_wait intr s = (if intr then Goes (False, s) else if 0 < s then Goes (True, s - 1) else Waits)"

definition sem_post :: "sem \<Rightarrow> (bool \<times> sem) outcome" where
  "sem_post s = (if s < SEM_VALUE_MAX then Goes (True, s + 1) else Goes (False, s))"

text \<open>The destructors: the threads that wait on the object must be none.\<close>

definition sem_destroy :: "nat set \<Rightarrow> sem \<Rightarrow> unit outcome" where
  "sem_destroy waiting s = (if waiting = {} then Goes () else Undefined)"

subsection \<open>Mutexes\<close>

definition locker_new :: "bool \<Rightarrow> bool \<Rightarrow> locker made" where
  "locker_new throws ok = made_of throws ok None"

definition locker_destroy :: "locker \<Rightarrow> unit outcome" where
  "locker_destroy m = (if m = None then Goes () else Undefined)"

text \<open>A thread that locks a mutex it already has waits for itself.\<close>

definition lock :: "nat \<Rightarrow> locker \<Rightarrow> (bool \<times> locker) outcome" where
  "lock t m = (if m = None then Goes (True, Some t) else Waits)"

definition unlock :: "nat \<Rightarrow> locker \<Rightarrow> (bool \<times> locker) outcome" where
  "unlock t m = (if m = Some t then Goes (True, None) else Undefined)"

definition get_mutex :: "locker \<Rightarrow> locker" where
  "get_mutex m = m"

subsection \<open>Condition variables\<close>

definition cond_new :: "bool \<Rightarrow> bool \<Rightarrow> cond made" where
  "cond_new throws ok = made_of throws ok {}"

definition cond_destroy :: "cond \<Rightarrow> unit outcome" where
  "cond_destroy c = (if c = {} then Goes () else Undefined)"

text \<open>
  A wait has two parts: the thread gives the mutex up and waits; and it takes the mutex again after
  it has been woken, or woke up on its own, or after its time is over.
\<close>

datatype wake = Signalled | Spurious | Timed_out

definition wait_begin :: "nat \<Rightarrow> locker \<times> cond \<Rightarrow> (locker \<times> cond) outcome" where
  "wait_begin t mc = (if fst mc = Some t then Goes (None, insert t (snd mc)) else Undefined)"

definition wait_end :: "nat \<Rightarrow> wake \<Rightarrow> locker \<times> cond \<Rightarrow> (bool \<times> locker \<times> cond) outcome" where
  "wait_end t w mc = (if fst mc = None \<and> (case w of Signalled \<Rightarrow> t \<notin> snd mc | Spurious \<Rightarrow> True | Timed_out \<Rightarrow> False)
     then Goes (True, Some t, snd mc - {t}) else Waits)"

definition timewait_end :: "nat \<Rightarrow> wake \<Rightarrow> locker \<times> cond \<Rightarrow> (bool \<times> locker \<times> cond) outcome" where
  "timewait_end t w mc = (if w = Timed_out
     then if fst mc = None then Goes (False, Some t, snd mc - {t}) else Waits
     else wait_end t w mc)"

text \<open>\<open>signal\<close> wakes one of the waiting threads, \<open>u\<close>, if there is any; \<open>broadcast\<close> wakes all.\<close>

definition cond_signal :: "nat \<Rightarrow> cond \<Rightarrow> (bool \<times> cond) outcome" where
  "cond_signal u c = (if c = {} \<or> u \<in> c then Goes (True, c - {u}) else Undefined)"

definition broadcast :: "cond \<Rightarrow> (bool \<times> cond) outcome" where
  "broadcast c = Goes (True, {})"

end
