(* ===== verification/BlockQueue_Threads.thy ===== *)
theory BlockQueue_Threads
  imports BlockQueue Locker
begin

text \<open>
  Threads that call the operations of \<open>epoll/block_queue.h\<close> at the same time, statement by statement,
  with the mutex and the condition variable of \<open>Locker\<close>.  The theorems justify the atomic operations of
  \<open>BlockQueue\<close>: whatever the order of the statements, the calls take effect one after the other, in
  the order in which they give the mutex up.
\<close>

subsection \<open>The statements\<close>

datatype query = Ask_full | Ask_empty | Ask_front | Ask_back | Ask_size | Ask_max_size

text \<open>A call; the flag of \<open>Pop\<close> says that it is the one with a timeout.\<close>

datatype 'a bq_call = Push 'a | Pop bool | Clear | Query query

datatype 'a bq_reply = Pushed bool | Got "'a option" | Cleared | Flag bool | Value "'a option" | Number int

datatype 'a bq_pc = Out
  | Push_lock 'a | Push_test 'a | Push_back 'a | Push_store 'a | Push_size 'a | Push_wake 'a bool | Push_unlock 'a bool
  | Pop_lock bool | Pop_test bool | Pop_begin bool | Pop_wait bool | Pop_again | Pop_front bool | Pop_read bool
  | Pop_size bool 'a | Pop_unlock bool "'a option"
  | Clear_lock | Clear_size | Clear_front | Clear_back | Clear_unlock
  | Query_lock query | Query_read query | Query_unlock query "'a bq_reply"

record 'a bq_sys =
  bt_queue :: "'a block_queue"
  bt_mutex :: locker
  bt_cond :: cond
  bt_pc :: "nat \<Rightarrow> 'a bq_pc"
  bt_done :: "('a bq_call \<times> 'a bq_reply) list"

definition bt_start :: "'a bq_call \<Rightarrow> 'a bq_pc" where
  "bt_start c = (case c of Push x \<Rightarrow> Push_lock x | Pop d \<Rightarrow> Pop_lock d | Clear \<Rightarrow> Clear_lock | Query k \<Rightarrow> Query_lock k)"

definition bt_answer :: "query \<Rightarrow> 'a block_queue \<Rightarrow> 'a bq_reply option" where
  "bt_answer k q = (case k of
      Ask_full \<Rightarrow> Some (Flag (bq_full q)) | Ask_empty \<Rightarrow> Some (Flag (bq_empty q))
    | Ask_front \<Rightarrow> map_option Value (bq_front q) | Ask_back \<Rightarrow> map_option Value (bq_back q)
    | Ask_size \<Rightarrow> Some (Number (bq_size q)) | Ask_max_size \<Rightarrow> Some (Number (bq_max_size q)))"

definition bt_goto :: "nat \<Rightarrow> 'a bq_pc \<Rightarrow> 'a bq_sys \<Rightarrow> 'a bq_sys outcome" where
  "bt_goto t p s = Goes (s\<lparr>bt_pc := (bt_pc s)(t := p)\<rparr>)"

definition bt_lock :: "nat \<Rightarrow> 'a bq_pc \<Rightarrow> 'a bq_sys \<Rightarrow> 'a bq_sys outcome" where
  "bt_lock t p s = (case lock t (bt_mutex s) of Goes (_, m) \<Rightarrow> bt_goto t p (s\<lparr>bt_mutex := m\<rparr>)
     | Waits \<Rightarrow> Waits | Undefined \<Rightarrow> Undefined)"

text \<open>The mutex is given up and the call returns.\<close>

definition bt_return :: "nat \<Rightarrow> 'a bq_call \<Rightarrow> 'a bq_reply \<Rightarrow> 'a bq_sys \<Rightarrow> 'a bq_sys outcome" where
  "bt_return t c r s = (case unlock t (bt_mutex s) of
       Goes (_, m) \<Rightarrow> bt_goto t Out (s\<lparr>bt_mutex := m, bt_done := bt_done s @ [(c, r)]\<rparr>)
     | Waits \<Rightarrow> Waits | Undefined \<Rightarrow> Undefined)"

text \<open>One statement of \<open>push\<close>, of the two \<open>pop\<close>s, of \<open>clear\<close>, and of the six queries.\<close>

definition push_stmt :: "nat \<Rightarrow> 'a bq_sys \<Rightarrow> 'a bq_sys outcome" where
  "push_stmt t s = (let q = bt_queue s in case bt_pc s t of
      Push_lock x \<Rightarrow> bt_lock t (Push_test x) s
    | Push_test x \<Rightarrow> bt_goto t (if m_size q \<ge> m_max_size q then Push_wake x False else Push_back x) s
    | Push_back x \<Rightarrow> bt_goto t (Push_store x) (s\<lparr>bt_queue := q\<lparr>m_back := (m_back q + 1) smod m_max_size q\<rparr>\<rparr>)
    | Push_store x \<Rightarrow> (case arr_set (m_array q) (m_back q) x of None \<Rightarrow> Undefined
        | Some a \<Rightarrow> bt_goto t (Push_size x) (s\<lparr>bt_queue := q\<lparr>m_array := a\<rparr>\<rparr>))
    | Push_size x \<Rightarrow> bt_goto t (Push_wake x True) (s\<lparr>bt_queue := q\<lparr>m_size := m_size q + 1\<rparr>\<rparr>)
    | Push_wake x b \<Rightarrow> (case broadcast (bt_cond s) of Goes (_, c) \<Rightarrow> bt_goto t (Push_unlock x b) (s\<lparr>bt_cond := c\<rparr>)
        | Waits \<Rightarrow> Waits | Undefined \<Rightarrow> Undefined)
    | Push_unlock x b \<Rightarrow> bt_return t (Push x) (Pushed b) s
    | _ \<Rightarrow> Waits)"

definition pop_stmt :: "nat \<Rightarrow> wake \<Rightarrow> 'a bq_sys \<Rightarrow> 'a bq_sys outcome" where
  "pop_stmt t w s = (let q = bt_queue s in case bt_pc s t of
      Pop_lock d \<Rightarrow> bt_lock t (Pop_test d) s
    | Pop_test d \<Rightarrow> bt_goto t (if m_size q \<le> 0 then Pop_begin d else if d then Pop_again else Pop_front d) s
    | Pop_begin d \<Rightarrow> (case wait_begin t (bt_mutex s, bt_cond s) of
          Goes (m, c) \<Rightarrow> bt_goto t (Pop_wait d) (s\<lparr>bt_mutex := m, bt_cond := c\<rparr>)
        | Waits \<Rightarrow> Waits | Undefined \<Rightarrow> Undefined)
    | Pop_wait d \<Rightarrow> (case (if d then timewait_end t w (bt_mutex s, bt_cond s) else wait_end t w (bt_mutex s, bt_cond s)) of
          Goes (ok, m, c) \<Rightarrow> bt_goto t (if \<not> ok then Pop_unlock d None else if d then Pop_again else Pop_test d)
            (s\<lparr>bt_mutex := m, bt_cond := c\<rparr>)
        | Waits \<Rightarrow> Waits | Undefined \<Rightarrow> Undefined)
    | Pop_again \<Rightarrow> bt_goto t (if m_size q \<le> 0 then Pop_unlock True None else Pop_front True) s
    | Pop_front d \<Rightarrow> bt_goto t (Pop_read d) (s\<lparr>bt_queue := q\<lparr>m_front := (m_front q + 1) smod m_max_size q\<rparr>\<rparr>)
    | Pop_read d \<Rightarrow> (case arr_get (m_array q) (m_front q) of None \<Rightarrow> Undefined | Some v \<Rightarrow> bt_goto t (Pop_size d v) s)
    | Pop_size d v \<Rightarrow> bt_goto t (Pop_unlock d (Some v)) (s\<lparr>bt_queue := q\<lparr>m_size := m_size q - 1\<rparr>\<rparr>)
    | Pop_unlock d r \<Rightarrow> bt_return t (Pop d) (Got r) s
    | _ \<Rightarrow> Waits)"

definition other_stmt :: "nat \<Rightarrow> 'a bq_sys \<Rightarrow> 'a bq_sys outcome" where
  "other_stmt t s = (let q = bt_queue s in case bt_pc s t of
      Clear_lock \<Rightarrow> bt_lock t Clear_size s
    | Clear_size \<Rightarrow> bt_goto t Clear_front (s\<lparr>bt_queue := q\<lparr>m_size := 0\<rparr>\<rparr>)
    | Clear_front \<Rightarrow> bt_goto t Clear_back (s\<lparr>bt_queue := q\<lparr>m_front := - 1\<rparr>\<rparr>)
    | Clear_back \<Rightarrow> bt_goto t Clear_unlock (s\<lparr>bt_queue := q\<lparr>m_back := - 1\<rparr>\<rparr>)
    | Clear_unlock \<Rightarrow> bt_return t Clear Cleared s
    | Query_lock k \<Rightarrow> bt_lock t (Query_read k) s
    | Query_read k \<Rightarrow> (case bt_answer k q of None \<Rightarrow> Undefined | Some r \<Rightarrow> bt_goto t (Query_unlock k r) s)
    | Query_unlock k r \<Rightarrow> bt_return t (Query k) r s
    | _ \<Rightarrow> Waits)"

fun pc_group :: "'a bq_pc \<Rightarrow> nat" where
  "pc_group Out = 0"
| "pc_group (Push_lock x) = 1" | "pc_group (Push_test x) = 1" | "pc_group (Push_back x) = 1" | "pc_group (Push_store x) = 1"
| "pc_group (Push_size x) = 1" | "pc_group (Push_wake x b) = 1" | "pc_group (Push_unlock x b) = 1"
| "pc_group (Pop_lock d) = 2" | "pc_group (Pop_test d) = 2" | "pc_group (Pop_begin d) = 2" | "pc_group (Pop_wait d) = 2"
| "pc_group Pop_again = 2" | "pc_group (Pop_front d) = 2" | "pc_group (Pop_read d) = 2" | "pc_group (Pop_size d v) = 2"
| "pc_group (Pop_unlock d r) = 2"
| "pc_group _ = 3"

definition bt_stmt :: "nat \<Rightarrow> wake \<Rightarrow> 'a bq_sys \<Rightarrow> 'a bq_sys outcome" where
  "bt_stmt t w s = (let g = pc_group (bt_pc s t) in
     if g = 1 then push_stmt t s else if g = 2 then pop_stmt t w s else if g = 3 then other_stmt t s else Waits)"

text \<open>A thread that is in no call may begin one; the calls a program makes satisfy \<open>P\<close>.\<close>

inductive bt_step :: "('a bq_call \<Rightarrow> bool) \<Rightarrow> 'a bq_sys \<Rightarrow> 'a bq_sys \<Rightarrow> bool" for P where
  bt_call: "bt_pc s t = Out \<Longrightarrow> P c \<Longrightarrow> bt_step P s (s\<lparr>bt_pc := (bt_pc s)(t := bt_start c)\<rparr>)"
| bt_run: "bt_stmt t w s = Goes s' \<Longrightarrow> bt_step P s s'"

inductive bt_reach :: "('a bq_call \<Rightarrow> bool) \<Rightarrow> 'a bq_sys \<Rightarrow> 'a bq_sys \<Rightarrow> bool" for P s0 where
  bt_here: "bt_reach P s0 s0"
| bt_next: "bt_reach P s0 s \<Longrightarrow> bt_step P s s' \<Longrightarrow> bt_reach P s0 s'"

definition bt_init :: "'a block_queue \<Rightarrow> 'a bq_sys" where
  "bt_init q = \<lparr>bt_queue = q, bt_mutex = None, bt_cond = {}, bt_pc = (\<lambda>_. Out), bt_done = []\<rparr>"

subsection \<open>One call after the other\<close>

text \<open>
  The queue after a call with the given reply, by the operations of \<open>BlockQueue\<close>, or \<^const>\<open>None\<close> if the
  call cannot have that reply.  Only the \<open>pop\<close> with a timeout may return without an item.
\<close>

definition bq_does :: "'a bq_call \<times> 'a bq_reply \<Rightarrow> 'a block_queue \<Rightarrow> 'a block_queue option" where
  "bq_does e q = (case fst e of
      Push x \<Rightarrow> do { (b, q') \<leftarrow> bq_push x q; if snd e = Pushed b then Some q' else None }
    | Pop d \<Rightarrow> (if snd e = Got None then if d then Some q else None
        else if m_size q \<le> 0 then None
        else do { (v, q') \<leftarrow> bq_pop_item q; if snd e = Got (Some v) then Some q' else None })
    | Clear \<Rightarrow> if snd e = Cleared then Some (bq_clear q) else None
    | Query k \<Rightarrow> do { r \<leftarrow> bt_answer k q; if snd e = r then Some q else None })"

fun bq_replay :: "('a bq_call \<times> 'a bq_reply) list \<Rightarrow> 'a block_queue \<Rightarrow> 'a block_queue option" where
  "bq_replay [] q = Some q"
| "bq_replay (e # es) q = do { q \<leftarrow> bq_does e q; bq_replay es q }"

lemma bq_replay_snoc: "bq_replay (es @ [e]) q = do { q \<leftarrow> bq_replay es q; bq_does e q }"
  by (induction es arbitrary: q) (auto split: bind_splits)

lemma bq_does_inv: "bq_does e q = Some q' \<Longrightarrow> bq_inv q \<Longrightarrow> bq_inv q'"
proof (cases "fst e")
  case (Push x)
  assume a: "bq_does e q = Some q'" "bq_inv q"
  show ?thesis
  proof (cases "m_size q < m_max_size q")
    case True
    then show ?thesis using bq_push_room [OF a(2) True, of x] a Push by (auto simp: bq_does_def split: if_splits)
  next
    case False
    then show ?thesis using a Push by (auto simp: bq_does_def bq_push_def split: if_splits)
  qed
next
  case (Pop d)
  assume a: "bq_does e q = Some q'" "bq_inv q"
  show ?thesis
  proof (cases "0 < m_size q")
    case True
    then show ?thesis using bq_pop_item_run [OF a(2) True] a Pop by (auto simp: bq_does_def split: if_splits)
  next
    case False
    then show ?thesis using a Pop by (auto simp: bq_does_def split: if_splits)
  qed
next
  case Clear
  assume "bq_does e q = Some q'" "bq_inv q"
  then show ?thesis using bq_clear_inv Clear by (auto simp: bq_does_def split: if_splits)
next
  case (Query k)
  assume "bq_does e q = Some q'" "bq_inv q"
  then show ?thesis using Query by (auto simp: bq_does_def split: if_splits bind_splits)
qed

subsection \<open>The invariant\<close>

fun has_mutex :: "'a bq_pc \<Rightarrow> bool" where
  "has_mutex Out = False" | "has_mutex (Push_lock x) = False" | "has_mutex (Pop_lock d) = False"
| "has_mutex Clear_lock = False" | "has_mutex (Query_lock k) = False" | "has_mutex (Pop_wait d) = False"
| "has_mutex _ = True"

text \<open>What the thread with the mutex has made of the queue \<open>q1\<close> it found.\<close>

fun part :: "'a bq_pc \<Rightarrow> 'a block_queue \<Rightarrow> 'a block_queue \<Rightarrow> bool" where
  "part (Push_test x) q1 q \<longleftrightarrow> q = q1"
| "part (Push_back x) q1 q \<longleftrightarrow> q = q1 \<and> m_size q1 < m_max_size q1"
| "part (Push_store x) q1 q \<longleftrightarrow> q = q1\<lparr>m_back := (m_back q1 + 1) smod m_max_size q1\<rparr> \<and> m_size q1 < m_max_size q1"
| "part (Push_size x) q1 q \<longleftrightarrow> m_size q1 < m_max_size q1 \<and> bq_push x q1 = Some (True, q\<lparr>m_size := m_size q + 1\<rparr>)"
| "part (Push_wake x b) q1 q \<longleftrightarrow> bq_push x q1 = Some (b, q)"
| "part (Push_unlock x b) q1 q \<longleftrightarrow> bq_push x q1 = Some (b, q)"
| "part (Pop_test d) q1 q \<longleftrightarrow> q = q1"
| "part (Pop_begin d) q1 q \<longleftrightarrow> q = q1 \<and> m_size q1 \<le> 0"
| "part Pop_again q1 q \<longleftrightarrow> q = q1"
| "part (Pop_front d) q1 q \<longleftrightarrow> q = q1 \<and> 0 < m_size q1"
| "part (Pop_read d) q1 q \<longleftrightarrow> q = q1\<lparr>m_front := (m_front q1 + 1) smod m_max_size q1\<rparr> \<and> 0 < m_size q1"
| "part (Pop_size d v) q1 q \<longleftrightarrow> 0 < m_size q1 \<and> bq_pop_item q1 = Some (v, q\<lparr>m_size := m_size q - 1\<rparr>)"
| "part (Pop_unlock d None) q1 q \<longleftrightarrow> q = q1 \<and> d"
| "part (Pop_unlock d (Some v)) q1 q \<longleftrightarrow> 0 < m_size q1 \<and> bq_pop_item q1 = Some (v, q)"
| "part Clear_size q1 q \<longleftrightarrow> q = q1"
| "part Clear_front q1 q \<longleftrightarrow> q = q1\<lparr>m_size := 0\<rparr>"
| "part Clear_back q1 q \<longleftrightarrow> q = q1\<lparr>m_size := 0, m_front := - 1\<rparr>"
| "part Clear_unlock q1 q \<longleftrightarrow> q = bq_clear q1"
| "part (Query_read k) q1 q \<longleftrightarrow> q = q1"
| "part (Query_unlock k r) q1 q \<longleftrightarrow> q = q1 \<and> bt_answer k q = Some r"
| "part _ q1 q \<longleftrightarrow> False"

text \<open>The thread that waits for the mutex or wants it for a \<open>front\<close>.\<close>

fun asks_front :: "'a bq_pc \<Rightarrow> bool" where
  "asks_front (Query_lock k) \<longleftrightarrow> k = Ask_front"
| "asks_front (Query_read k) \<longleftrightarrow> k = Ask_front"
| "asks_front _ \<longleftrightarrow> False"

definition bt_inv :: "'a block_queue \<Rightarrow> 'a bq_sys \<Rightarrow> bool" where
  "bt_inv q0 s \<longleftrightarrow> (\<forall>t. has_mutex (bt_pc s t) \<longleftrightarrow> bt_mutex s = Some t)
     \<and> (\<forall>t \<in> bt_cond s. \<exists>d. bt_pc s t = Pop_wait d)
     \<and> (\<exists>q1. bq_replay (bt_done s) q0 = Some q1 \<and> bq_inv q1
          \<and> (case bt_mutex s of None \<Rightarrow> bt_queue s = q1 | Some t \<Rightarrow> part (bt_pc s t) q1 (bt_queue s)))
     \<and> (bt_cond s \<noteq> {} \<longrightarrow> m_size (bt_queue s) \<le> 0 \<or> (\<exists>t x. bt_mutex s = Some t \<and> bt_pc s t = Push_wake x True))"

lemma bt_inv_init: "bq_inv q \<Longrightarrow> bt_inv q (bt_init q)"
  by (simp add: bt_inv_def bt_init_def)

lemma bt_inv_call: "bt_inv q0 s \<Longrightarrow> bt_pc s t = Out \<Longrightarrow> bt_inv q0 (s\<lparr>bt_pc := (bt_pc s)(t := bt_start c)\<rparr>)"
proof -
  assume a: "bt_inv q0 s" "bt_pc s t = Out"
  have n: "bt_mutex s \<noteq> Some t" "t \<notin> bt_cond s" using a unfolding bt_inv_def by (metis has_mutex.simps(1), force)
  have h: "\<not> has_mutex (bt_start c)" by (simp add: bt_start_def split: bq_call.splits)
  show ?thesis using a n h unfolding bt_inv_def by (auto split: option.splits)
qed

text \<open>The five ways in which a statement changes the state.\<close>

lemma inv_free:
  assumes "bt_inv q0 s" "\<not> has_mutex (bt_pc s t)" "bt_mutex s = None"
  shows "\<exists>q1. bq_replay (bt_done s) q0 = Some q1 \<and> bq_inv q1 \<and> bt_queue s = q1"
  using assms unfolding bt_inv_def by auto

lemma inv_holds:
  assumes "bt_inv q0 s" "has_mutex (bt_pc s t)"
  shows "bt_mutex s = Some t" "t \<notin> bt_cond s"
    "\<exists>q1. bq_replay (bt_done s) q0 = Some q1 \<and> bq_inv q1 \<and> part (bt_pc s t) q1 (bt_queue s)"
    "bt_cond s \<noteq> {} \<Longrightarrow> m_size (bt_queue s) \<le> 0 \<or> (\<exists>x. bt_pc s t = Push_wake x True)"
proof -
  show m: "bt_mutex s = Some t" using assms unfolding bt_inv_def by blast
  show "t \<notin> bt_cond s" using assms unfolding bt_inv_def by (metis has_mutex.simps(6))
  show "\<exists>q1. bq_replay (bt_done s) q0 = Some q1 \<and> bq_inv q1 \<and> part (bt_pc s t) q1 (bt_queue s)"
    using assms m unfolding bt_inv_def by auto
  show "bt_cond s \<noteq> {} \<Longrightarrow> m_size (bt_queue s) \<le> 0 \<or> (\<exists>x. bt_pc s t = Push_wake x True)"
    using assms m unfolding bt_inv_def by auto
qed

lemma inv_lock:
  assumes "bt_inv q0 s" "\<not> has_mutex (bt_pc s t)" "\<forall>d. bt_pc s t \<noteq> Pop_wait d" "bt_lock t p s = Goes s'"
    "has_mutex p" "\<And>q. part p q q"
  shows "bt_inv q0 s'"
proof -
  have m: "bt_mutex s = None" and s': "s' = s\<lparr>bt_mutex := Some t, bt_pc := (bt_pc s)(t := p)\<rparr>"
    using assms(4) by (auto simp: bt_lock_def lock_def bt_goto_def split: if_splits)
  have n: "t \<notin> bt_cond s" using assms(1,3) unfolding bt_inv_def by blast
  obtain q1 where "bq_replay (bt_done s) q0 = Some q1" "bq_inv q1" "bt_queue s = q1" using inv_free [OF assms(1,2) m] by blast
  then show ?thesis using assms(1,5,6) m n unfolding bt_inv_def s' by auto
qed

lemma inv_goto:
  assumes "bt_inv q0 s" "has_mutex (bt_pc s t)" "has_mutex p"
    "\<And>q1. bq_inv q1 \<Longrightarrow> part (bt_pc s t) q1 (bt_queue s) \<Longrightarrow> part p q1 q"
    "m_size q \<le> m_size (bt_queue s) \<and> (\<forall>x. bt_pc s t \<noteq> Push_wake x True) \<or> (\<exists>x. p = Push_wake x True)"
    "bt_goto t p (s\<lparr>bt_queue := q\<rparr>) = Goes s'"
  shows "bt_inv q0 s'"
proof -
  note h = inv_holds [OF assms(1,2)]
  have s': "s' = s\<lparr>bt_queue := q, bt_pc := (bt_pc s)(t := p)\<rparr>" using assms(6) by (simp add: bt_goto_def)
  obtain q1 where "bq_replay (bt_done s) q0 = Some q1" "bq_inv q1" "part p q1 q" using h(3) assms(4) by blast
  moreover have "bt_cond s \<noteq> {} \<longrightarrow> m_size q \<le> 0 \<or> (\<exists>x. p = Push_wake x True)" using h(4) assms(5) by fastforce
  ultimately show ?thesis using assms(1,3) h(1,2) unfolding bt_inv_def s' by auto
qed

lemma inv_return:
  assumes "bt_inv q0 s" "has_mutex (bt_pc s t)" "\<forall>x. bt_pc s t \<noteq> Push_wake x True"
    "\<And>q1. bq_inv q1 \<Longrightarrow> part (bt_pc s t) q1 (bt_queue s) \<Longrightarrow> bq_does (c, r) q1 = Some (bt_queue s)"
    "bt_return t c r s = Goes s'"
  shows "bt_inv q0 s'"
proof -
  note h = inv_holds [OF assms(1,2)]
  have s': "s' = s\<lparr>bt_mutex := None, bt_done := bt_done s @ [(c, r)], bt_pc := (bt_pc s)(t := Out)\<rparr>"
    using assms(5) h(1) by (simp add: bt_return_def unlock_def bt_goto_def)
  obtain q1 where q1: "bq_replay (bt_done s) q0 = Some q1" "bq_inv q1" "bq_does (c, r) q1 = Some (bt_queue s)"
    using h(3) assms(4) by blast
  have "bq_replay (bt_done s @ [(c, r)]) q0 = Some (bt_queue s)" using q1(1,3) by (simp add: bq_replay_snoc)
  moreover have "bq_inv (bt_queue s)" using bq_does_inv [OF q1(3,2)] .
  moreover have "bt_cond s \<noteq> {} \<longrightarrow> m_size (bt_queue s) \<le> 0" using h(4) assms(3) by blast
  ultimately show ?thesis using assms(1) h(1,2) unfolding bt_inv_def s' by auto
qed

lemma inv_broadcast:
  assumes "bt_inv q0 s" "has_mutex (bt_pc s t)" "has_mutex p"
    "\<And>q1. part (bt_pc s t) q1 (bt_queue s) \<Longrightarrow> part p q1 (bt_queue s)"
  shows "bt_inv q0 (s\<lparr>bt_cond := {}, bt_pc := (bt_pc s)(t := p)\<rparr>)"
proof -
  note h = inv_holds [OF assms(1,2)]
  obtain q1 where "bq_replay (bt_done s) q0 = Some q1" "bq_inv q1" "part p q1 (bt_queue s)" using h(3) assms(4) by blast
  then show ?thesis using assms(1,3) h(1) unfolding bt_inv_def by auto
qed

lemma inv_wait_begin:
  assumes "bt_inv q0 s" "bt_pc s t = Pop_begin d"
  shows "bt_inv q0 (s\<lparr>bt_mutex := None, bt_cond := insert t (bt_cond s), bt_pc := (bt_pc s)(t := Pop_wait d)\<rparr>)"
proof -
  have "has_mutex (bt_pc s t)" using assms(2) by simp
  note h = inv_holds [OF assms(1) this]
  show ?thesis using assms h(1,3) unfolding bt_inv_def by auto
qed

lemma inv_wait_end:
  assumes "bt_inv q0 s" "bt_pc s t = Pop_wait d" "bt_mutex s = None" "has_mutex p" "\<And>q. part p q q"
  shows "bt_inv q0 (s\<lparr>bt_mutex := Some t, bt_cond := bt_cond s - {t}, bt_pc := (bt_pc s)(t := p)\<rparr>)"
proof -
  have "\<not> has_mutex (bt_pc s t)" using assms(2) by simp
  from inv_free [OF assms(1) this assms(3)] obtain q1 where
    "bq_replay (bt_done s) q0 = Some q1" "bq_inv q1" "bt_queue s = q1" by blast
  moreover have "bt_cond s - {t} \<noteq> {} \<longrightarrow> m_size (bt_queue s) \<le> 0" using assms(1,3) unfolding bt_inv_def by auto
  ultimately show ?thesis using assms(1,3-5) unfolding bt_inv_def by auto
qed

subsection \<open>Every statement keeps the invariant\<close>

lemma goto_same_queue: "bt_goto t p s = bt_goto t p (s\<lparr>bt_queue := bt_queue s\<rparr>)"
  by simp

lemma push_inv:
  assumes I: "bt_inv q0 s" and st: "push_stmt t s = Goes s'"
  shows "bt_inv q0 s'"
proof (cases "bt_pc s t")
  case (Push_lock x)
  then show ?thesis using st by (intro inv_lock [OF I, of t "Push_test x"]) (simp_all add: push_stmt_def Let_def)
next
  case (Push_test x)
  let ?q = "bt_queue s"
  let ?p = "if m_size ?q \<ge> m_max_size ?q then Push_wake x False else Push_back x"
  have "bt_goto t ?p (s\<lparr>bt_queue := ?q\<rparr>) = Goes s'" using st Push_test by (simp add: push_stmt_def Let_def)
  then show ?thesis
    by (rule inv_goto [OF I, rotated -1]) (auto simp: Push_test bq_push_def split: if_splits)
next
  case (Push_back x)
  then show ?thesis using st
    by (intro inv_goto [OF I, where t = t and p = "Push_store x"]) (auto simp: push_stmt_def Let_def)
next
  case (Push_store x)
  obtain a where a: "arr_set (m_array (bt_queue s)) (m_back (bt_queue s)) x = Some a"
    using st Push_store by (auto simp: push_stmt_def Let_def split: option.splits)
  then show ?thesis using st Push_store
    by (intro inv_goto [OF I, where t = t and p = "Push_size x" and q = "bt_queue s\<lparr>m_array := a\<rparr>"])
      (auto simp: push_stmt_def Let_def bq_push_def)
next
  case (Push_size x)
  then show ?thesis using st
    by (intro inv_goto [OF I, where t = t and p = "Push_wake x True"]) (auto simp: push_stmt_def Let_def)
next
  case (Push_wake x b)
  then have "s' = s\<lparr>bt_cond := {}, bt_pc := (bt_pc s)(t := Push_unlock x b)\<rparr>"
    using st by (simp add: push_stmt_def Let_def broadcast_def bt_goto_def)
  then show ?thesis using inv_broadcast [OF I, of t "Push_unlock x b"] Push_wake by simp
next
  case (Push_unlock x b)
  then show ?thesis using st
    by (intro inv_return [OF I, of t "Push x" "Pushed b"]) (auto simp: push_stmt_def Let_def bq_does_def)
qed (use st in \<open>simp_all add: push_stmt_def Let_def\<close>)

lemma pop_inv:
  assumes I: "bt_inv q0 s" and st: "pop_stmt t w s = Goes s'"
  shows "bt_inv q0 s'"
proof (cases "bt_pc s t")
  case (Pop_lock d)
  then show ?thesis using st by (intro inv_lock [OF I, of t "Pop_test d"]) (simp_all add: pop_stmt_def Let_def)
next
  case (Pop_test d)
  let ?q = "bt_queue s"
  let ?p = "if m_size ?q \<le> 0 then Pop_begin d else if d then Pop_again else Pop_front d"
  have "bt_goto t ?p (s\<lparr>bt_queue := ?q\<rparr>) = Goes s'" using st Pop_test by (simp add: pop_stmt_def Let_def)
  then show ?thesis by (rule inv_goto [OF I, rotated -1]) (auto simp: Pop_test split: if_splits)
next
  case (Pop_begin d)
  then have "s' = s\<lparr>bt_mutex := None, bt_cond := insert t (bt_cond s), bt_pc := (bt_pc s)(t := Pop_wait d)\<rparr>"
    using st by (auto simp: pop_stmt_def Let_def wait_begin_def bt_goto_def split: if_splits)
  then show ?thesis using inv_wait_begin [OF I Pop_begin] by simp
next
  case (Pop_wait d)
  have m: "bt_mutex s = None"
    using st Pop_wait by (simp add: pop_stmt_def Let_def timewait_end_def wait_end_def split: if_splits)
  define s2 where "s2 p = s\<lparr>bt_mutex := Some t, bt_cond := bt_cond s - {t}, bt_pc := (bt_pc s)(t := p)\<rparr>" for p
  have "s' = s2 (Pop_unlock d None) \<and> d \<or> s' = s2 Pop_again \<or> s' = s2 (Pop_test d)"
    unfolding s2_def using st Pop_wait
    by (cases w) (auto simp: pop_stmt_def Let_def timewait_end_def wait_end_def bt_goto_def split: if_splits)
  moreover have "bt_inv q0 (s2 p)" if "has_mutex p" "\<And>q. part p q q" for p
    unfolding s2_def by (rule inv_wait_end [OF I Pop_wait m that])
  ultimately show ?thesis by fastforce
next
  case Pop_again
  let ?q = "bt_queue s"
  let ?p = "if m_size ?q \<le> 0 then Pop_unlock True None else Pop_front True"
  have "bt_goto t ?p (s\<lparr>bt_queue := ?q\<rparr>) = Goes s'" using st Pop_again by (simp add: pop_stmt_def Let_def)
  then show ?thesis by (rule inv_goto [OF I, rotated -1]) (auto simp: Pop_again split: if_splits)
next
  case (Pop_front d)
  then show ?thesis using st
    by (intro inv_goto [OF I, where t = t and p = "Pop_read d"]) (auto simp: pop_stmt_def Let_def)
next
  case (Pop_read d)
  obtain v where v: "arr_get (m_array (bt_queue s)) (m_front (bt_queue s)) = Some v"
    using st Pop_read by (auto simp: pop_stmt_def Let_def split: option.splits)
  then have "bt_goto t (Pop_size d v) (s\<lparr>bt_queue := bt_queue s\<rparr>) = Goes s'" using st Pop_read by (simp add: pop_stmt_def Let_def)
  then show ?thesis
    by (rule inv_goto [OF I, rotated -1]) (use v in \<open>auto simp: Pop_read bq_pop_item_def Let_def\<close>)
next
  case (Pop_size d v)
  then show ?thesis using st
    by (intro inv_goto [OF I, where t = t and p = "Pop_unlock d (Some v)"]) (auto simp: pop_stmt_def Let_def)
next
  case (Pop_unlock d r)
  then show ?thesis using st
    by (intro inv_return [OF I, of t "Pop d" "Got r"]; cases r) (auto simp: pop_stmt_def Let_def bq_does_def)
qed (use st in \<open>simp_all add: pop_stmt_def Let_def\<close>)

lemma other_inv:
  assumes I: "bt_inv q0 s" and st: "other_stmt t s = Goes s'"
  shows "bt_inv q0 s'"
proof (cases "bt_pc s t")
  case Clear_lock
  then show ?thesis using st by (intro inv_lock [OF I, of t Clear_size]) (simp_all add: other_stmt_def Let_def)
next
  case Clear_size
  have "0 \<le> m_size (bt_queue s)"
    using inv_holds(3) [OF I, of t] Clear_size by (auto simp: bq_inv_def)
  then show ?thesis using st Clear_size
    by (intro inv_goto [OF I, where t = t and p = Clear_front]) (auto simp: other_stmt_def Let_def)
next
  case Clear_front
  then show ?thesis using st by (intro inv_goto [OF I, where t = t and p = Clear_back]) (auto simp: other_stmt_def Let_def)
next
  case Clear_back
  then show ?thesis using st
    by (intro inv_goto [OF I, where t = t and p = Clear_unlock]) (auto simp: other_stmt_def Let_def bq_clear_def)
next
  case Clear_unlock
  then show ?thesis using st
    by (intro inv_return [OF I, of t Clear Cleared]) (auto simp: other_stmt_def Let_def bq_does_def)
next
  case (Query_lock k)
  then show ?thesis using st by (intro inv_lock [OF I, of t "Query_read k"]) (simp_all add: other_stmt_def Let_def)
next
  case (Query_read k)
  obtain r where r: "bt_answer k (bt_queue s) = Some r"
    using st Query_read by (auto simp: other_stmt_def Let_def split: option.splits)
  then have "bt_goto t (Query_unlock k r) (s\<lparr>bt_queue := bt_queue s\<rparr>) = Goes s'" using st Query_read by (simp add: other_stmt_def Let_def)
  then show ?thesis by (rule inv_goto [OF I, rotated -1]) (use r in \<open>auto simp: Query_read\<close>)
next
  case (Query_unlock k r)
  then show ?thesis using st
    by (intro inv_return [OF I, of t "Query k" r]) (auto simp: other_stmt_def Let_def bq_does_def)
qed (use st in \<open>simp_all add: other_stmt_def Let_def\<close>)

lemma bt_inv_step: "bt_inv q0 s \<Longrightarrow> bt_step P s s' \<Longrightarrow> bt_inv q0 s'"
  by (elim bt_step.cases)
    (auto simp: bt_stmt_def Let_def intro: push_inv pop_inv other_inv bt_inv_call split: if_splits)

lemma bt_reach_inv: "bt_reach P s0 s \<Longrightarrow> bt_inv q0 s0 \<Longrightarrow> bt_inv q0 s"
  by (induction rule: bt_reach.induct) (auto intro: bt_inv_step)

subsection \<open>Nothing is undefined\<close>

lemma push_defined:
  assumes I: "bt_inv q0 s" and g: "pc_group (bt_pc s t) = 1"
  shows "push_stmt t s \<noteq> Undefined"
proof (cases "bt_pc s t")
  case (Push_store x)
  obtain q1 where q: "bq_inv q1" "bt_queue s = q1\<lparr>m_back := (m_back q1 + 1) smod m_max_size q1\<rparr>" "m_size q1 < m_max_size q1"
    using inv_holds(3) [OF I, of t] Push_store by auto
  then have "arr_set (m_array (bt_queue s)) (m_back (bt_queue s)) x \<noteq> None"
    using bq_push_room [OF q(1,3), of x] by (auto simp: bq_push_def Let_def split: bind_splits)
  then show ?thesis using Push_store by (auto simp: push_stmt_def Let_def bt_goto_def split: option.splits)
next
  case (Push_unlock x b)
  then show ?thesis using inv_holds(1) [OF I, of t] by (simp add: push_stmt_def Let_def bt_return_def unlock_def bt_goto_def)
qed (use g in \<open>auto simp: push_stmt_def Let_def bt_goto_def bt_lock_def lock_def broadcast_def\<close>)

lemma pop_defined:
  assumes I: "bt_inv q0 s" and g: "pc_group (bt_pc s t) = 2"
  shows "pop_stmt t w s \<noteq> Undefined"
proof (cases "bt_pc s t")
  case (Pop_begin d)
  then show ?thesis using inv_holds(1) [OF I, of t] by (simp add: pop_stmt_def Let_def wait_begin_def bt_goto_def)
next
  case (Pop_read d)
  obtain q1 where q: "bq_inv q1" "bt_queue s = q1\<lparr>m_front := (m_front q1 + 1) smod m_max_size q1\<rparr>" "0 < m_size q1"
    using inv_holds(3) [OF I, of t] Pop_read by auto
  then have "arr_get (m_array (bt_queue s)) (m_front (bt_queue s)) \<noteq> None"
    using bq_pop_item_run [OF q(1,3)] by (auto simp: bq_pop_item_def Let_def split: bind_splits)
  then show ?thesis using Pop_read by (auto simp: pop_stmt_def Let_def bt_goto_def split: option.splits)
next
  case (Pop_unlock d r)
  then show ?thesis using inv_holds(1) [OF I, of t] by (simp add: pop_stmt_def Let_def bt_return_def unlock_def bt_goto_def)
qed (use g in \<open>auto simp: pop_stmt_def Let_def bt_goto_def bt_lock_def lock_def timewait_end_def wait_end_def\<close>)

lemma other_defined:
  assumes I: "bt_inv q0 s" and g: "pc_group (bt_pc s t) = 3" and n: "\<not> asks_front (bt_pc s t)"
  shows "other_stmt t s \<noteq> Undefined"
proof (cases "bt_pc s t")
  case Clear_unlock
  then show ?thesis using inv_holds(1) [OF I, of t] by (simp add: other_stmt_def Let_def bt_return_def unlock_def bt_goto_def)
next
  case (Query_read k)
  then obtain q1 where q: "bq_inv q1" "bt_queue s = q1" using inv_holds(3) [OF I, of t] by auto
  have "bq_back q1 \<noteq> None"
    using bq_back_last [OF q(1)] bq_items_Nil [of q1] q(1) by (cases "m_size q1 = 0") (auto simp: bq_back_def bq_inv_def)
  then have "bt_answer k (bt_queue s) \<noteq> None" using n Query_read q(2) by (cases k) (simp_all add: bt_answer_def)
  then show ?thesis using Query_read by (auto simp: other_stmt_def Let_def bt_goto_def split: option.splits)
next
  case (Query_unlock k r)
  then show ?thesis using inv_holds(1) [OF I, of t] by (simp add: other_stmt_def Let_def bt_return_def unlock_def bt_goto_def)
qed (use g in \<open>auto simp: other_stmt_def Let_def bt_goto_def bt_lock_def lock_def\<close>)

lemma bt_defined: "bt_inv q0 s \<Longrightarrow> \<not> asks_front (bt_pc s t) \<Longrightarrow> bt_stmt t w s \<noteq> Undefined"
  unfolding bt_stmt_def Let_def
  using push_defined [of q0 s t] pop_defined [of q0 s t w] other_defined [of q0 s t] by (simp split del: if_split split: if_split)

text \<open>The calls the theorems are about: all but \<open>front\<close>, which reads the array at -1 (theory \<open>BlockQueue\<close>).\<close>

definition no_front :: "'a bq_call \<Rightarrow> bool" where
  "no_front c \<longleftrightarrow> c \<noteq> Query Ask_front"

lemma stmt_front:
  assumes "\<forall>t. \<not> asks_front (bt_pc s t)" "bt_stmt t w s = Goes s'"
  shows "\<not> asks_front (bt_pc s' u)"
proof -
  have n: "\<not> asks_front (bt_pc s t)" "\<not> asks_front (bt_pc s u)" using assms(1) by simp_all
  show ?thesis using assms(2) n
    by (cases "bt_pc s t")
      (auto simp: bt_stmt_def push_stmt_def pop_stmt_def other_stmt_def Let_def bt_goto_def bt_lock_def bt_return_def
        split: outcome.splits if_splits option.splits)
qed

lemma reach_front: "bt_reach no_front s0 s \<Longrightarrow> \<forall>t. \<not> asks_front (bt_pc s0 t) \<Longrightarrow> \<forall>t. \<not> asks_front (bt_pc s t)"
proof (induction rule: bt_reach.induct)
  case (bt_next s s')
  note IH = bt_next.IH [OF bt_next.prems]
  from bt_next.hyps(2) show ?case
  proof cases
    case (bt_call t c)
    then show ?thesis using IH by (auto simp: bt_start_def no_front_def split: bq_call.splits)
  next
    case (bt_run t w)
    then show ?thesis using stmt_front [OF IH] by blast
  qed
qed

subsection \<open>First in, first out\<close>

fun items_put :: "('a bq_call \<times> 'a bq_reply) list \<Rightarrow> 'a list" where
  "items_put [] = []"
| "items_put ((Push x, Pushed True) # es) = x # items_put es"
| "items_put (_ # es) = items_put es"

fun items_got :: "('a bq_call \<times> 'a bq_reply) list \<Rightarrow> 'a list" where
  "items_got [] = []"
| "items_got ((Pop d, Got (Some v)) # es) = v # items_got es"
| "items_got (_ # es) = items_got es"

lemma bq_does_items:
  assumes "bq_does e q = Some q'" "bq_inv q" "fst e \<noteq> Clear"
  shows "bq_items q @ items_put [e] = items_got [e] @ bq_items q'"
proof (cases "fst e")
  case (Push x)
  show ?thesis
  proof (cases "m_size q < m_max_size q")
    case True
    then show ?thesis using bq_push_room [OF assms(2) True, of x] assms(1) Push
      by (cases e) (auto simp: bq_does_def split: if_splits)
  next
    case False
    then show ?thesis using assms(1) Push by (cases e) (auto simp: bq_does_def bq_push_def split: if_splits)
  qed
next
  case (Pop d)
  show ?thesis
  proof (cases "0 < m_size q")
    case True
    then have "bq_items q \<noteq> []" by (simp add: bq_items_Nil)
    then show ?thesis using bq_pop_item_run [OF assms(2) True] assms(1) Pop
      by (cases e) (auto simp: bq_does_def split: if_splits)
  next
    case False
    then show ?thesis using assms(1) Pop by (cases e) (auto simp: bq_does_def split: if_splits)
  qed
next
  case (Query k)
  then show ?thesis using assms(1) by (cases e) (auto simp: bq_does_def split: if_splits bind_splits)
qed (use assms(3) in simp)

lemma items_cons: "items_put (e # es) = items_put [e] @ items_put es" "items_got (e # es) = items_got [e] @ items_got es"
proof -
  obtain c r where e: "e = (c, r)" by (cases e)
  have "items_put ((c, r) # es) = items_put [(c, r)] @ items_put es \<and> items_got ((c, r) # es) = items_got [(c, r)] @ items_got es"
  proof (cases r)
    case (Pushed b)
    then show ?thesis by (cases c; cases b) simp_all
  next
    case (Got v)
    then show ?thesis by (cases c; cases v) simp_all
  qed (cases c; simp)+
  then show "items_put (e # es) = items_put [e] @ items_put es" "items_got (e # es) = items_got [e] @ items_got es"
    unfolding e by blast+
qed

lemma bq_replay_items:
  "bq_replay es q = Some q' \<Longrightarrow> bq_inv q \<Longrightarrow> \<forall>e \<in> set es. fst e \<noteq> Clear
   \<Longrightarrow> bq_items q @ items_put es = items_got es @ bq_items q'"
proof (induction es arbitrary: q)
  case (Cons e es)
  obtain q1 where 1: "bq_does e q = Some q1" "bq_replay es q1 = Some q'" using Cons.prems(1) by (auto split: bind_splits)
  have "bq_items q @ items_put [e] = items_got [e] @ bq_items q1" using bq_does_items [OF 1(1) Cons.prems(2)] Cons.prems(3) by simp
  moreover have "bq_items q1 @ items_put es = items_got es @ bq_items q'"
    using Cons.IH [OF 1(2) bq_does_inv [OF 1(1) Cons.prems(2)]] Cons.prems(3) by simp
  ultimately show ?case unfolding items_cons [of e es] by (metis append_assoc)
qed simp

subsection \<open>The properties\<close>

text \<open>A list of actions, to run a system on an example: a thread begins a call, or does a statement.\<close>

datatype 'a bt_act = Begin nat "'a bq_call" | Do nat wake

fun bt_exec :: "'a bt_act list \<Rightarrow> 'a bq_sys \<Rightarrow> 'a bq_sys option" where
  "bt_exec [] s = Some s"
| "bt_exec (Begin t c # as) s = (if bt_pc s t = Out \<and> no_front c
     then bt_exec as (s\<lparr>bt_pc := (bt_pc s)(t := bt_start c)\<rparr>) else None)"
| "bt_exec (Do t w # as) s = (case bt_stmt t w s of Goes s' \<Rightarrow> bt_exec as s' | _ \<Rightarrow> None)"

lemma bt_exec_reach: "bt_exec as s = Some s' \<Longrightarrow> bt_reach no_front s0 s \<Longrightarrow> bt_reach no_front s0 s'"
proof (induction as s rule: bt_exec.induct)
  case (2 t c as s)
  then have h: "bt_pc s t = Out" "no_front c" and e: "bt_exec as (s\<lparr>bt_pc := (bt_pc s)(t := bt_start c)\<rparr>) = Some s'"
    by (auto split: if_splits)
  show ?case by (rule 2(1) [OF _ e bt_next [OF 2(3) bt_call [of s t no_front c, OF h]]]) (use h in simp)
next
  case (3 t w as s)
  then obtain s1 where s1: "bt_stmt t w s = Goes s1" "bt_exec as s1 = Some s'" by (auto split: outcome.splits)
  show ?case by (rule 3(1) [OF s1 bt_next [OF 3(3) bt_run [OF s1(1)]]])
qed simp

text \<open>C8: The queue is correct for threads that run at the same time.  In every interleaving of the
  statements of any number of threads that call its operations (all but front), with waits that end
  by a wake-up, for no reason or by a timeout: no statement is undefined (no access outside the
  array, no unlock of a mutex the thread does not have); at most one thread is between lock and
  unlock; whenever the mutex is free, the queue is what the completed calls make of it one after the
  other with the replies they gave; and if clear was not called, the items that came out, followed
  by the ones in the queue, are the ones that went in.\<close>

theorem bt_linearizable:
  assumes "bq_inv q" "bt_reach no_front (bt_init q) s"
  shows "(\<forall>t w. bt_stmt t w s \<noteq> Undefined)
    \<and> (\<forall>t u. has_mutex (bt_pc s t) \<longrightarrow> has_mutex (bt_pc s u) \<longrightarrow> t = u)
    \<and> (bt_mutex s = None \<longrightarrow> bq_replay (bt_done s) q = Some (bt_queue s)
        \<and> ((\<forall>e \<in> set (bt_done s). fst e \<noteq> Clear) \<longrightarrow>
             bq_items q @ items_put (bt_done s) = items_got (bt_done s) @ bq_items (bt_queue s)))"
proof -
  have I: "bt_inv q s" by (rule bt_reach_inv [OF assms(2) bt_inv_init [OF assms(1)]])
  have f: "\<forall>t. \<not> asks_front (bt_pc s t)" by (rule reach_front [OF assms(2)]) (simp add: bt_init_def)
  have 1: "\<forall>t w. bt_stmt t w s \<noteq> Undefined" using bt_defined [OF I] f by blast
  have 2: "\<forall>t u. has_mutex (bt_pc s t) \<longrightarrow> has_mutex (bt_pc s u) \<longrightarrow> t = u"
    using inv_holds(1) [OF I] by (metis option.inject)
  have "bt_mutex s = None \<longrightarrow> bq_replay (bt_done s) q = Some (bt_queue s)" using I unfolding bt_inv_def by auto
  then show ?thesis using 1 2 bq_replay_items [OF _ assms(1)] by blast
qed

definition bt_empty :: "int block_queue" where
  "bt_empty = \<lparr>m_array = [0, 0], m_size = 0, m_max_size = 2, m_front = - 1, m_back = - 1\<rparr>"

lemma bt_empty_inv: "bq_inv bt_empty" "bq_items bt_empty = []"
  by (simp_all add: bt_empty_def bq_inv_def bq_items_def)

text \<open>A thread pops and waits, another one pushes while it waits.\<close>

definition bt_meeting :: "int bt_act list" where
  "bt_meeting = [Begin 0 (Pop False), Do 0 Signalled, Begin 1 (Push 7), Do 0 Signalled, Do 0 Signalled]
     @ replicate 7 (Do 1 Signalled)"

lemma bt_meeting_run:
  "\<exists>s. bt_exec bt_meeting (bt_init bt_empty) = Some s \<and> bt_mutex s = None \<and> bt_done s = [(Push 7, Pushed True)]
     \<and> bt_queue s = bt_empty\<lparr>m_array := [7, 0], m_size := 1, m_back := 0\<rparr> \<and> bt_pc s 0 = Pop_wait False"
proof -
  have "case bt_exec bt_meeting (bt_init bt_empty) of None \<Rightarrow> False | Some s \<Rightarrow> bt_mutex s = None
     \<and> bt_done s = [(Push 7, Pushed True)]
     \<and> bt_queue s = bt_empty\<lparr>m_array := [7, 0], m_size := 1, m_back := 0\<rparr> \<and> bt_pc s 0 = Pop_wait False"
    by code_simp
  then show ?thesis by (cases "bt_exec bt_meeting (bt_init bt_empty)") simp_all
qed

theorem bt_linearizable_witness:
  "\<exists>s. bt_exec bt_meeting (bt_init bt_empty) = Some s \<and> bq_replay [(Push 7, Pushed True)] bt_empty = Some (bt_queue s)
     \<and> [7] = bq_items (bt_queue s) \<and> (\<forall>t w. bt_stmt t w s \<noteq> Undefined)"
proof -
  obtain s where s: "bt_exec bt_meeting (bt_init bt_empty) = Some s" "bt_mutex s = None" "bt_done s = [(Push 7, Pushed True)]"
    using bt_meeting_run by blast
  have r: "bt_reach no_front (bt_init bt_empty) s" by (rule bt_exec_reach [OF s(1) bt_here])
  show ?thesis using bt_linearizable [OF bt_empty_inv(1) r] s by (simp add: bt_empty_inv(2))
qed

text \<open>C15: No wake-up is lost.  Whenever an item is queued and the mutex is free, no thread sleeps: every
  thread inside a wait (with or without a timeout) has been woken, and if it goes on before the others
  its call returns the item at the head of the queue.\<close>

fun bt_alone :: "nat \<Rightarrow> nat \<Rightarrow> 'a bq_sys \<Rightarrow> 'a bq_sys option" where
  "bt_alone 0 t s = Some s"
| "bt_alone (Suc n) t s = (case bt_stmt t Signalled s of Goes s' \<Rightarrow> bt_alone n t s' | _ \<Rightarrow> None)"

lemma pop_alone:
  assumes q: "bq_inv (bt_queue s)" "0 < m_size (bt_queue s)" and m: "bt_mutex s = None"
    and t: "bt_pc s t = Pop_wait d" "t \<notin> bt_cond s"
  shows "\<exists>s'. bt_alone 6 t s = Some s' \<and> bt_done s' = bt_done s @ [(Pop d, Got (Some (hd (bq_items (bt_queue s)))))]
    \<and> bt_pc s' t = Out \<and> bt_mutex s' = None"
proof -
  let ?q = "bt_queue s" and ?v = "hd (bq_items (bt_queue s))"
  have g: "arr_get (m_array ?q) ((m_front ?q + 1) smod m_max_size ?q) = Some ?v"
    using bq_pop_item_run [OF q] by (auto simp: bq_pop_item_def Let_def split: bind_splits)
  have s: "bt_stmt u Signalled c = pop_stmt u Signalled c" if "pc_group (bt_pc c u) = 2" for u and c :: "'a bq_sys"
    using that by (simp add: bt_stmt_def)
  have n: "\<not> m_size ?q \<le> 0" using q(2) by simp
  show ?thesis
    by (cases d) (simp_all add: n s t m g pop_stmt_def Let_def timewait_end_def wait_end_def bt_goto_def
        bt_return_def unlock_def eval_nat_numeral)
qed

theorem bt_no_lost_wakeup:
  assumes "bq_inv q" "bt_reach no_front (bt_init q) s"
    and "bt_mutex s = None" "bq_items (bt_queue s) \<noteq> []" "bt_pc s t = Pop_wait d"
  shows "t \<notin> bt_cond s \<and> (\<exists>s'. bt_alone 6 t s = Some s' \<and> bt_pc s' t = Out \<and> bt_mutex s' = None
    \<and> bt_done s' = bt_done s @ [(Pop d, Got (Some (hd (bq_items (bt_queue s)))))])"
proof -
  have I: "bt_inv q s" by (rule bt_reach_inv [OF assms(2) bt_inv_init [OF assms(1)]])
  have n: "0 < m_size (bt_queue s)" using assms(4) bq_items_Nil [of "bt_queue s"] by simp
  then have c: "bt_cond s = {}" using I assms(3) unfolding bt_inv_def by auto
  have "bq_inv (bt_queue s)" using I assms(3) unfolding bt_inv_def by auto
  from pop_alone [OF this n assms(3,5)] c show ?thesis by auto
qed

theorem bt_no_lost_wakeup_witness:
  "\<exists>s s'. bt_exec bt_meeting (bt_init bt_empty) = Some s \<and> bt_alone 6 0 s = Some s'
     \<and> bt_done s' = [(Push 7, Pushed True), (Pop False, Got (Some 7))]"
proof -
  obtain s where s: "bt_exec bt_meeting (bt_init bt_empty) = Some s" "bt_mutex s = None" "bt_done s = [(Push 7, Pushed True)]"
    "bt_queue s = bt_empty\<lparr>m_array := [7, 0], m_size := 1, m_back := 0\<rparr>" "bt_pc s 0 = Pop_wait False"
    using bt_meeting_run by blast
  have i: "bq_items (bt_queue s) = [7]" unfolding s(4) by code_simp
  have r: "bt_reach no_front (bt_init bt_empty) s" by (rule bt_exec_reach [OF s(1) bt_here])
  show ?thesis using bt_no_lost_wakeup [OF bt_empty_inv(1) r s(2) _ s(5)] s(1,3) i by auto
qed

end
