(* ===== verification/ThreadPool.thy ===== *)
theory ThreadPool
  imports QueueSpec "HOL-Library.Multiset"
begin

text \<open>
  The thread pool of \<open>epoll/threadpool.h\<close>, with the mutex and the semaphore of \<open>epoll/locker.h\<close>
  as it uses them.  A state holds the shared fields and the program counter of every worker and
  of every thread that calls \<open>append\<close>; \<open>tp_step\<close> is one statement of one thread.  \<open>wait\<close> of the
  semaphore may also return without a token, as \<open>sem_wait\<close> does when a signal interrupts it; the
  source does not look at its result.  A request is \<^const>\<open>None\<close> when the pointer is null.  The
  destructor does not wait for the workers; once the members are destroyed (\<open>m_alive\<close> is false) a thread
  that goes on uses them after their end, so no step of the program is defined any more.
\<close>

subsection \<open>Definitions\<close>

datatype 'a wpc = WTop | WWait | WLock | WCrit | WPopped "'a option" | WRun "'a option" | WDone

datatype 'a ppc = PIdle | PLock "'a option" | PCrit "'a option" | PReject | PPushed | PPost

datatype agent = Worker nat | Producer nat

record 'a threadpool =
  m_max_requests :: nat
  m_workqueue :: "'a option list"
  m_queuelocker :: "agent option"
  m_queuestat :: nat
  m_stop :: bool
  m_alive :: bool
  workers :: "'a wpc list"
  producers :: "'a ppc list"
  appended :: "'a option list"
  popped :: "'a option list"
  processed :: "'a list"

text \<open>
  The constructor: \<^const>\<open>None\<close> is the exception.  \<open>created i\<close> and \<open>detached i\<close> say whether
  \<open>pthread_create\<close> and \<open>pthread_detach\<close> succeed for the i-th thread; \<open>np\<close> threads may append.
\<close>

definition tp_new :: "int \<Rightarrow> int \<Rightarrow> (nat \<Rightarrow> bool) \<Rightarrow> (nat \<Rightarrow> bool) \<Rightarrow> nat \<Rightarrow> 'a threadpool option" where
  "tp_new thread_number max_requests created detached np =
     (if thread_number \<le> 0 \<or> max_requests \<le> 0 then None
      else if \<not> list_all (\<lambda>i. created i \<and> detached i) [0..<nat thread_number] then None
      else Some \<lparr>m_max_requests = nat max_requests, m_workqueue = [], m_queuelocker = None,
        m_queuestat = 0, m_stop = False, m_alive = True, workers = replicate (nat thread_number) WTop,
        producers = replicate np PIdle, appended = [], popped = [], processed = []\<rparr>)"

text \<open>One statement of \<open>append\<close>, executed by producer \<open>p\<close>; \<^const>\<open>None\<close> when it has to wait.\<close>

definition append_step :: "nat \<Rightarrow> 'a threadpool \<Rightarrow> 'a threadpool option" where
  "append_step p s = (case producers s ! p of
      PIdle \<Rightarrow> None
    | PLock r \<Rightarrow> (if m_queuelocker s = None
        then Some (s\<lparr>m_queuelocker := Some (Producer p), producers := (producers s)[p := PCrit r]\<rparr>)
        else None)
    | PCrit r \<Rightarrow> (if length (m_workqueue s) > m_max_requests s
        then Some (s\<lparr>producers := (producers s)[p := PReject]\<rparr>)
        else Some (s\<lparr>m_workqueue := m_workqueue s @ [r], appended := appended s @ [r],
          producers := (producers s)[p := PPushed]\<rparr>))
    | PReject \<Rightarrow> Some (s\<lparr>m_queuelocker := None, producers := (producers s)[p := PIdle]\<rparr>)
    | PPushed \<Rightarrow> Some (s\<lparr>m_queuelocker := None, producers := (producers s)[p := PPost]\<rparr>)
    | PPost \<Rightarrow> Some (s\<lparr>m_queuestat := m_queuestat s + 1, producers := (producers s)[p := PIdle]\<rparr>))"

text \<open>One statement of \<open>run\<close>, executed by worker \<open>w\<close>; \<open>intr\<close> says that the wait is interrupted.\<close>

definition run_step :: "bool \<Rightarrow> nat \<Rightarrow> 'a threadpool \<Rightarrow> 'a threadpool option" where
  "run_step intr w s = (case workers s ! w of
      WTop \<Rightarrow> Some (s\<lparr>workers := (workers s)[w := if m_stop s then WDone else WWait]\<rparr>)
    | WWait \<Rightarrow> (if intr then Some (s\<lparr>workers := (workers s)[w := WLock]\<rparr>)
        else if 0 < m_queuestat s
        then Some (s\<lparr>m_queuestat := m_queuestat s - 1, workers := (workers s)[w := WLock]\<rparr>)
        else None)
    | WLock \<Rightarrow> (if m_queuelocker s = None
        then Some (s\<lparr>m_queuelocker := Some (Worker w), workers := (workers s)[w := WCrit]\<rparr>)
        else None)
    | WCrit \<Rightarrow> (case m_workqueue s of
          [] \<Rightarrow> Some (s\<lparr>m_queuelocker := None, workers := (workers s)[w := WTop]\<rparr>)
        | r # rs \<Rightarrow> Some (s\<lparr>m_workqueue := rs, popped := popped s @ [r],
            workers := (workers s)[w := WPopped r]\<rparr>))
    | WPopped r \<Rightarrow> Some (s\<lparr>m_queuelocker := None, workers := (workers s)[w := WRun r]\<rparr>)
    | WRun None \<Rightarrow> Some (s\<lparr>workers := (workers s)[w := WTop]\<rparr>)
    | WRun (Some r) \<Rightarrow> Some (s\<lparr>processed := processed s @ [r], workers := (workers s)[w := WTop]\<rparr>)
    | WDone \<Rightarrow> None)"

text \<open>The body of the destructor, and what it does at its end: the semaphore, the mutex and the list are destroyed.\<close>

definition stop_pool :: "'a threadpool \<Rightarrow> 'a threadpool" where
  "stop_pool s = s\<lparr>m_stop := True\<rparr>"

definition destroy_members :: "'a threadpool \<Rightarrow> 'a threadpool" where
  "destroy_members s = s\<lparr>m_queuestat := 0, m_queuelocker := None, m_workqueue := [], m_alive := False\<rparr>"

text \<open>The calls of \<open>append\<close>, the statements of the threads, and the destructor.\<close>

inductive tp_step :: "'a threadpool \<Rightarrow> 'a threadpool \<Rightarrow> bool" where
  call: "m_alive s \<Longrightarrow> p < length (producers s) \<Longrightarrow> producers s ! p = PIdle \<Longrightarrow>
    tp_step s (s\<lparr>producers := (producers s)[p := PLock r]\<rparr>)"
| prod: "m_alive s \<Longrightarrow> p < length (producers s) \<Longrightarrow> append_step p s = Some s' \<Longrightarrow> tp_step s s'"
| work: "m_alive s \<Longrightarrow> w < length (workers s) \<Longrightarrow> run_step intr w s = Some s' \<Longrightarrow> tp_step s s'"
| destruct: "m_alive s \<Longrightarrow> tp_step s (stop_pool s)"
| destroyed: "m_alive s \<Longrightarrow> m_stop s \<Longrightarrow> tp_step s (destroy_members s)"

inductive tp_reach :: "'a threadpool \<Rightarrow> 'a threadpool \<Rightarrow> bool" for s0 where
  tp_refl: "tp_reach s0 s0"
| tp_next: "tp_reach s0 s \<Longrightarrow> tp_step s s' \<Longrightarrow> tp_reach s0 s'"

inductive_cases tp_stepE: "tp_step s s'"

subsection \<open>The invariant\<close>

fun w_holds :: "'a wpc \<Rightarrow> bool" where
  "w_holds WCrit = True"
| "w_holds (WPopped r) = True"
| "w_holds _ = False"

fun p_holds :: "'a ppc \<Rightarrow> bool" where
  "p_holds (PCrit r) = True"
| "p_holds PReject = True"
| "p_holds PPushed = True"
| "p_holds _ = False"

text \<open>Workers past the wait that have not taken a request, producers that have not posted.\<close>

definition w_woken :: "'a wpc \<Rightarrow> bool" where
  "w_woken c \<longleftrightarrow> c = WLock \<or> c = WCrit"

definition p_owes :: "'a ppc \<Rightarrow> bool" where
  "p_owes c \<longleftrightarrow> c = PPushed \<or> c = PPost"

text \<open>The request a worker has taken and not yet processed.\<close>

fun w_hand :: "'a wpc \<Rightarrow> 'a multiset" where
  "w_hand (WPopped (Some r)) = {#r#}"
| "w_hand (WRun (Some r)) = {#r#}"
| "w_hand _ = {#}"

definition in_hand :: "'a wpc list \<Rightarrow> 'a multiset" where
  "in_hand ws = sum_list (map w_hand ws)"

lemma in_hand_update:
  "w < length ws \<Longrightarrow> in_hand (ws[w := c]) + w_hand (ws ! w) = in_hand ws + w_hand c"
proof (induction ws arbitrary: w)
  case (Cons d ws)
  then show ?case by (cases w) (simp_all add: in_hand_def ac_simps)
qed simp

lemma in_hand_replicate: "w_hand c = {#} \<Longrightarrow> in_hand (replicate n c) = {#}"
  by (induction n) (simp_all add: in_hand_def)

text \<open>The requests of a list that are not null.\<close>

definition requests :: "'a option list \<Rightarrow> 'a multiset" where
  "requests rs = mset (List.map_filter id rs)"

lemma requests_simps [simp]:
  "requests [] = {#}" "requests (rs @ [None]) = requests rs" "requests (rs @ [Some r]) = add_mset r (requests rs)"
  by (simp_all add: requests_def List.map_filter_def)

definition tp_inv :: "'a threadpool \<Rightarrow> bool" where
  "tp_inv s \<longleftrightarrow>
     (\<forall>w < length (workers s). w_holds (workers s ! w) = (m_queuelocker s = Some (Worker w)))
   \<and> (\<forall>p < length (producers s). p_holds (producers s ! p) = (m_queuelocker s = Some (Producer p)))
   \<and> (\<forall>w. m_queuelocker s = Some (Worker w) \<longrightarrow> w < length (workers s))
   \<and> (\<forall>p. m_queuelocker s = Some (Producer p) \<longrightarrow> p < length (producers s))
   \<and> appended s = popped s @ m_workqueue s
   \<and> length (m_workqueue s) \<le> Suc (m_max_requests s)
   \<and> length (m_workqueue s) \<le> m_queuestat s + occ p_owes (producers s) + occ w_woken (workers s)"

lemma tp_new_inv:
  "tp_new tn mr cr de np = Some s \<Longrightarrow> tp_inv s \<and> m_max_requests s = nat mr \<and> 0 < mr"
  by (auto simp: tp_new_def tp_inv_def occ_replicate p_owes_def w_woken_def split: if_splits)

lemma nth_update: "i < length xs \<Longrightarrow> xs[j := x] ! i = (if i = j then x else xs ! i)"
  by (simp add: nth_list_update)

lemma tp_inv_append:
  assumes inv: "tp_inv s" and p: "p < length (producers s)" and st: "append_step p s = Some s'"
  shows "tp_inv s'"
proof -
  note o = occ_update [OF p, of p_owes]
  have lk: "p_holds (producers s ! p) = (m_queuelocker s = Some (Producer p))"
    using inv p by (simp add: tp_inv_def)
  show ?thesis
  proof (cases "producers s ! p")
    case PIdle
    then show ?thesis using st by (simp add: append_step_def)
  next
    case (PLock r)
    then show ?thesis
      using lk inv st p o [of "PCrit r"] by (auto simp: append_step_def tp_inv_def nth_update p_owes_def split: if_splits)
  next
    case (PCrit r)
    then show ?thesis
      using lk inv st p o [of PReject] o [of PPushed]
      by (auto simp: append_step_def tp_inv_def nth_update p_owes_def split: if_splits)
  next
    case PReject
    then show ?thesis
      using PReject lk inv st p o [of PIdle] by (auto simp: append_step_def tp_inv_def nth_update p_owes_def)
  next
    case PPushed
    then show ?thesis
      using PPushed lk inv st p o [of PPost] by (auto simp: append_step_def tp_inv_def nth_update p_owes_def)
  next
    case PPost
    then show ?thesis
      using lk inv st p o [of PIdle] by (auto simp: append_step_def tp_inv_def nth_update p_owes_def split: if_splits)
  qed
qed

lemma tp_inv_run:
  assumes inv: "tp_inv s" and w: "w < length (workers s)" and st: "run_step intr w s = Some s'"
  shows "tp_inv s'"
proof -
  note o = occ_update [OF w, of w_woken]
  have lk: "w_holds (workers s ! w) = (m_queuelocker s = Some (Worker w))"
    using inv w by (simp add: tp_inv_def)
  show ?thesis
  proof (cases "workers s ! w")
    case WTop
    then show ?thesis using lk inv st w o [of WDone] o [of WWait]
      by (auto simp: run_step_def tp_inv_def nth_update w_woken_def split: if_splits)
  next
    case WWait
    then show ?thesis using lk inv st w o [of WLock]
      by (auto simp: run_step_def tp_inv_def nth_update w_woken_def split: if_splits)
  next
    case WLock
    then show ?thesis using lk inv st w o [of WCrit]
      by (auto simp: run_step_def tp_inv_def nth_update w_woken_def split: if_splits)
  next
    case WCrit
    then show ?thesis using WCrit lk inv st w o [of WTop] o [of "WPopped (hd (m_workqueue s))"]
      by (auto simp: run_step_def tp_inv_def nth_update w_woken_def split: list.splits)
  next
    case (WPopped r)
    then show ?thesis using WPopped lk inv st w o [of "WRun r"]
      by (auto simp: run_step_def tp_inv_def nth_update w_woken_def)
  next
    case (WRun r)
    then show ?thesis using lk inv st w o [of WTop]
      by (cases r) (auto simp: run_step_def tp_inv_def nth_update w_woken_def split: if_splits)
  next
    case WDone
    then show ?thesis using st by (simp add: run_step_def)
  qed
qed

lemma tp_inv_step:
  assumes "tp_inv s" and "tp_step s s'" and "m_alive s'"
  shows "tp_inv s'"
  using assms(2)
proof cases
  case (call p r)
  have "p_holds (producers s ! p) = (m_queuelocker s = Some (Producer p))"
    using assms(1) call(3) by (simp add: tp_inv_def)
  then show ?thesis using call assms(1) occ_update [OF call(3), of p_owes "PLock r"]
    by (auto simp: tp_inv_def nth_update p_owes_def)
next
  case destruct
  then show ?thesis using assms(1) by (simp add: tp_inv_def stop_pool_def)
next
  case destroyed
  then show ?thesis using assms(3) by (simp add: destroy_members_def)
qed (use assms(1) tp_inv_append tp_inv_run in blast)+

lemma tp_step_alive: "tp_step s s' \<Longrightarrow> m_alive s"
  by (cases rule: tp_step.cases)

lemma tp_reach_inv: "tp_reach s0 s \<Longrightarrow> tp_inv s0 \<Longrightarrow> m_alive s \<Longrightarrow> tp_inv s"
  by (induction rule: tp_reach.induct) (auto intro: tp_inv_step dest: tp_step_alive)

text \<open>What has been taken from the queue is processed or in the hands of a worker.\<close>

definition tp_done :: "'a threadpool \<Rightarrow> bool" where
  "tp_done s \<longleftrightarrow> requests (popped s) = mset (processed s) + in_hand (workers s)"

lemma tp_done_run:
  assumes "tp_done s" and w: "w < length (workers s)" and st: "run_step intr w s = Some s'"
  shows "tp_done s'"
proof -
  note u = in_hand_update [OF w]
  show ?thesis
  proof (cases "workers s ! w")
    case (WPopped r)
    then show ?thesis using assms u [of "WRun r"] by (cases r) (auto simp: tp_done_def run_step_def)
  next
    case (WRun r)
    then show ?thesis using assms u [of WTop] by (cases r) (auto simp: tp_done_def run_step_def)
  next
    case WCrit
    then show ?thesis using assms u [of WTop] u [of "WPopped (hd (m_workqueue s))"]
      by (cases "m_workqueue s"; cases "hd (m_workqueue s)") (auto simp: tp_done_def run_step_def)
  qed (use assms u [of WDone] u [of WWait] u [of WLock] u [of WCrit] in
      \<open>auto simp: tp_done_def run_step_def split: if_splits\<close>)
qed

lemma tp_done_step: "tp_step s s' \<Longrightarrow> tp_done s \<Longrightarrow> tp_done s'"
proof (cases rule: tp_step.cases)
  assume d: "tp_done s"
  fix p assume "append_step p s = Some s'"
  then show ?thesis using d by (auto simp: tp_done_def append_step_def split: ppc.splits if_splits)
qed (auto simp: tp_done_def stop_pool_def destroy_members_def dest: tp_done_run [unfolded tp_done_def])

lemma tp_reach_done: "tp_reach s0 s \<Longrightarrow> tp_done s0 \<Longrightarrow> tp_done s"
  by (induction rule: tp_reach.induct) (auto intro: tp_done_step)

lemma tp_new_done: "tp_new tn mr cr de np = Some s \<Longrightarrow> tp_done s \<and> m_alive s"
  by (auto simp: tp_new_def tp_done_def in_hand_replicate split: if_splits)

lemma tp_step_params: "tp_step s s' \<Longrightarrow> m_max_requests s' = m_max_requests s"
  by (elim tp_step.cases)
    (auto simp: append_step_def run_step_def stop_pool_def destroy_members_def split: ppc.splits wpc.splits if_splits list.splits option.splits)

lemma tp_reach_params: "tp_reach s0 s \<Longrightarrow> m_max_requests s = m_max_requests s0"
  by (induction rule: tp_reach.induct) (auto dest: tp_step_params)

subsection \<open>Sequential appends and the limit\<close>

text \<open>\<open>append\<close> when no other thread runs: its four statements in a row.\<close>

definition append_alone :: "nat \<Rightarrow> 'a option \<Rightarrow> 'a threadpool \<Rightarrow> 'a threadpool option" where
  "append_alone p r s = do {
     s \<leftarrow> append_step p (s\<lparr>producers := (producers s)[p := PLock r]\<rparr>);
     s \<leftarrow> append_step p s;
     s \<leftarrow> append_step p s;
     if producers s ! p = PPost then append_step p s else Some s }"

lemma append_alone_run:
  assumes "p < length (producers s)" "producers s ! p = PIdle" "m_queuelocker s = None"
  shows "append_alone p r s = Some (if length (m_workqueue s) > m_max_requests s then s
    else s\<lparr>m_workqueue := m_workqueue s @ [r], appended := appended s @ [r],
      m_queuestat := m_queuestat s + 1\<rparr>)"
  using assms by (auto simp: append_alone_def append_step_def list_update_same_conv)

lemma append_alone_reach:
  assumes "tp_reach s0 s" "m_alive s" "p < length (producers s)" "producers s ! p = PIdle" "append_alone p r s = Some s'"
  shows "tp_reach s0 s'"
proof -
  let ?s1 = "s\<lparr>producers := (producers s)[p := PLock r]\<rparr>"
  have 1: "tp_reach s0 ?s1" by (rule tp_next [OF assms(1) call [OF assms(2-4)]])
  have n: "length (producers s') = length (producers s) \<and> m_alive s' = m_alive s" if "append_step p s = Some s'" for s s' :: "'a threadpool"
    using that by (auto simp: append_step_def split: ppc.splits if_splits)
  obtain s2 s3 s4 where s: "append_step p ?s1 = Some s2" "append_step p s2 = Some s3" "append_step p s3 = Some s4"
    "(if producers s4 ! p = PPost then append_step p s4 else Some s4) = Some s'"
    using assms(5) by (auto simp: append_alone_def bind_eq_Some_conv)
  have l: "p < length (producers ?s1)" "p < length (producers s2)" "p < length (producers s3)" "p < length (producers s4)"
    and a: "m_alive ?s1" "m_alive s2" "m_alive s3" "m_alive s4"
    using assms(2,3) n [OF s(1)] n [OF s(2)] n [OF s(3)] by simp_all
  have 4: "tp_reach s0 s4"
    by (rule tp_next [OF tp_next [OF tp_next [OF 1 prod [OF a(1) l(1) s(1)]] prod [OF a(2) l(2) s(2)]] prod [OF a(3) l(3) s(3)]])
  show ?thesis
    using s(4) 4 tp_next [OF 4 prod [OF a(4) l(4)]] by (auto split: if_splits)
qed

subsection \<open>The properties\<close>

definition tp_demo :: "nat threadpool" where
  "tp_demo = \<lparr>m_max_requests = 1, m_workqueue = [], m_queuelocker = None, m_queuestat = 0,
     m_stop = False, m_alive = True, workers = [WTop], producers = [PIdle], appended = [], popped = [], processed = []\<rparr>"

lemma tp_demo_new: "tp_new 1 1 (\<lambda>_. True) (\<lambda>_. True) 1 = Some tp_demo"
  by (simp add: tp_new_def tp_demo_def)

lemma tp_demo_append:
  "tp_reach tp_demo (tp_demo\<lparr>m_workqueue := [Some 4], appended := [Some 4], m_queuestat := 1\<rparr>)"
  using append_alone_reach [OF tp_refl, of tp_demo 0 "Some 4"] append_alone_run [of 0 tp_demo "Some 4"]
  by (simp add: tp_demo_def)

lemma occ_pos: "0 < occ P xs \<longleftrightarrow> (\<exists>i < length xs. P (xs ! i))"
  unfolding occ_def length_greater_0_conv filter_empty_conv by (metis in_set_conv_nth)

lemma occ_none: "(\<And>i. i < length xs \<Longrightarrow> \<not> P (xs ! i)) \<Longrightarrow> occ P xs = 0"
  using occ_pos [of P xs] by blast

lemma occ_unique: "(\<And>i. i < length xs \<Longrightarrow> P (xs ! i) = (k = i)) \<Longrightarrow> occ P xs \<le> 1"
proof -
  assume a: "\<And>i. i < length xs \<Longrightarrow> P (xs ! i) = (k = i)"
  have "card {i. i < length xs \<and> P (xs ! i)} \<le> card {k}" by (rule card_mono) (use a in auto)
  then show ?thesis by (simp add: occ_def length_filter_conv_card)
qed

text \<open>C9: In every interleaving of any number of workers and appending threads, with interrupted
  waits, as long as the pool is not destroyed: a thread is inside the critical section exactly when it owns
  the mutex, so at most one of all threads is; the requests are taken in the order in which they were
  appended, none twice and none dropped; and each request that was taken and is not null has been processed once
  or is in the hands of one worker.\<close>

theorem tp_fifo_exclusive:
  assumes "tp_new tn mr cr de np = Some s0" and "tp_reach s0 s" and "m_alive s"
  shows "appended s = popped s @ m_workqueue s
    \<and> requests (popped s) = mset (processed s) + in_hand (workers s)
    \<and> (\<forall>i < length (workers s). w_holds (workers s ! i) \<longleftrightarrow> m_queuelocker s = Some (Worker i))
    \<and> (\<forall>i < length (producers s). p_holds (producers s ! i) \<longleftrightarrow> m_queuelocker s = Some (Producer i))
    \<and> occ w_holds (workers s) + occ p_holds (producers s) \<le> 1"
proof -
  have i: "tp_inv s" using tp_reach_inv [OF assms(2) _ assms(3)] tp_new_inv [OF assms(1)] by simp
  then have w: "\<forall>i < length (workers s). w_holds (workers s ! i) = (m_queuelocker s = Some (Worker i))"
    and p: "\<forall>i < length (producers s). p_holds (producers s ! i) = (m_queuelocker s = Some (Producer i))"
    by (simp_all add: tp_inv_def)
  have "occ w_holds (workers s) + occ p_holds (producers s) \<le> 1"
  proof (cases "m_queuelocker s")
    case (Some a)
    then show ?thesis using w p occ_none [of "workers s" w_holds] occ_none [of "producers s" p_holds]
        occ_unique [of "workers s" w_holds] occ_unique [of "producers s" p_holds] by (cases a) fastforce+
  qed (use w p occ_none [of "workers s" w_holds] occ_none [of "producers s" p_holds] in simp)
  then show ?thesis
    using i w p tp_reach_done [OF assms(2)] tp_new_done [OF assms(1)] by (simp add: tp_inv_def tp_done_def)
qed

theorem tp_fifo_exclusive_witness:
  "appended (tp_demo\<lparr>m_workqueue := [Some 4], appended := [Some 4], m_queuestat := 1\<rparr>)
   = popped (tp_demo\<lparr>m_workqueue := [Some 4], appended := [Some 4], m_queuestat := 1\<rparr>) @ [Some 4]"
  using tp_fifo_exclusive [OF tp_demo_new tp_demo_append] by (simp add: tp_demo_def)

text \<open>A thread that can execute its next statement without an interruption.\<close>

definition can_go :: "agent \<Rightarrow> 'a threadpool \<Rightarrow> bool" where
  "can_go a s \<longleftrightarrow> (case a of Worker w \<Rightarrow> w < length (workers s) \<and> run_step False w s \<noteq> None
     | Producer p \<Rightarrow> p < length (producers s) \<and> append_step p s \<noteq> None)"

lemma owner_can_go:
  assumes "tp_inv s" "w < length (workers s) \<and> w_holds (workers s ! w)" shows "can_go (Worker w) s"
  using assms by (cases "workers s ! w") (auto simp: can_go_def run_step_def split: list.splits)

lemma owner_can_go_append:
  assumes "p < length (producers s)" "p_holds (producers s ! p)" shows "can_go (Producer p) s"
  using assms by (cases "producers s ! p") (auto simp: can_go_def append_step_def)

text \<open>C16: No wake-up is lost: in every state of every interleaving, as long as the pool is not
  destroyed, whenever a request is queued, the semaphore is positive, or a thread that appended has yet to
  post, or a worker has been woken and has not yet looked at the queue.  So a queued request is never stuck:
  unless all workers have ended because of a stop, some worker or appending thread can execute its next
  statement, and every worker that waits at a positive semaphore can.\<close>

theorem tp_no_lost_wakeup:
  assumes "tp_new tn mr cr de np = Some s0" and "tp_reach s0 s" and "m_alive s" and "m_workqueue s \<noteq> []"
  shows "(0 < m_queuestat s \<or> (\<exists>p < length (producers s). p_owes (producers s ! p))
      \<or> (\<exists>w < length (workers s). w_woken (workers s ! w)))
    \<and> ((\<exists>w < length (workers s). workers s ! w \<noteq> WDone) \<longrightarrow> (\<exists>a. can_go a s))
    \<and> (\<forall>w < length (workers s). workers s ! w = WWait \<and> 0 < m_queuestat s \<longrightarrow> can_go (Worker w) s)"
proof -
  have i: "tp_inv s" using tp_reach_inv [OF assms(2) _ assms(3)] tp_new_inv [OF assms(1)] by simp
  then have "0 < m_queuestat s + occ p_owes (producers s) + occ w_woken (workers s)"
    using assms(4) by (cases "m_workqueue s") (auto simp: tp_inv_def)
  then have d: "0 < m_queuestat s \<or> (\<exists>p < length (producers s). p_owes (producers s ! p))
      \<or> (\<exists>w < length (workers s). w_woken (workers s ! w))"
    using occ_pos [of p_owes "producers s"] occ_pos [of w_woken "workers s"] by auto
  have g: "\<exists>a. can_go a s" if w: "w < length (workers s)" "workers s ! w \<noteq> WDone" for w
  proof (cases "occ w_holds (workers s) = 0 \<and> occ p_holds (producers s) = 0")
    case False
    then show ?thesis
      using owner_can_go [OF i] owner_can_go_append occ_pos [of w_holds "workers s"] occ_pos [of p_holds "producers s"]
      by (metis bot_nat_0.not_eq_extremum)
  next
    case True
    then have nw: "\<And>w. w < length (workers s) \<Longrightarrow> \<not> w_holds (workers s ! w)"
      and np: "\<And>p. p < length (producers s) \<Longrightarrow> \<not> p_holds (producers s ! p)"
      using occ_pos [of w_holds "workers s"] occ_pos [of p_holds "producers s"] by auto
    then have free: "m_queuelocker s = None"
      using i unfolding tp_inv_def by (metis agent.exhaust not_None_eq)
    have "can_go (Worker v) s" if "v < length (workers s)" "workers s ! v \<noteq> WDone"
        "workers s ! v = WWait \<longrightarrow> 0 < m_queuestat s" for v
      using that nw [OF that(1)] free
      by (cases "workers s ! v") (auto simp: can_go_def run_step_def split: option.splits)
    moreover have "can_go (Producer p) s" if "p < length (producers s)" "p_owes (producers s ! p)" for p
      using that np [OF that(1)] by (auto simp: can_go_def append_step_def p_owes_def)
    moreover have "workers s ! v \<noteq> WDone \<and> workers s ! v \<noteq> WWait" if "w_woken (workers s ! v)" for v
      using that by (auto simp: w_woken_def)
    ultimately show ?thesis using d w by metis
  qed
  show ?thesis using d g by (auto simp: can_go_def run_step_def)
qed

lemma tp_demo_waiting:
  "tp_reach tp_demo (tp_demo\<lparr>m_workqueue := [Some 4], appended := [Some 4], m_queuestat := 1, workers := [WWait]\<rparr>)"
proof -
  let ?s = "tp_demo\<lparr>m_workqueue := [Some 4], appended := [Some 4], m_queuestat := 1\<rparr>"
  have "run_step False 0 ?s = Some (?s\<lparr>workers := [WWait]\<rparr>)" by (simp add: run_step_def tp_demo_def)
  moreover have "0 < length (workers ?s)" by (simp add: tp_demo_def)
  moreover have "m_alive ?s" by (simp add: tp_demo_def)
  ultimately show ?thesis using tp_next [OF tp_demo_append work, of 0 False] by blast
qed

theorem tp_no_lost_wakeup_witness:
  "\<exists>s'. run_step False 0 (tp_demo\<lparr>m_workqueue := [Some 4], appended := [Some 4], m_queuestat := 1,
     workers := [WWait]\<rparr>) = Some s'"
  using tp_no_lost_wakeup [OF tp_demo_new tp_demo_waiting] by (auto simp: tp_demo_def can_go_def)

text \<open>The destructor does not wait: in every state of a pool that exists it can run to its end at once, whatever the
  workers are doing; a worker that has not ended then uses a pool that does not exist.\<close>

theorem tp_destroyed_early:
  assumes "tp_reach s0 s" and "m_alive s"
  shows "\<exists>s'. tp_reach s0 s' \<and> \<not> m_alive s' \<and> workers s' = workers s \<and> m_workqueue s' = []"
proof -
  have "tp_reach s0 (destroy_members (stop_pool s))"
    by (rule tp_next [OF tp_next [OF assms(1) destruct [OF assms(2)]] destroyed]) (use assms(2) in \<open>simp_all add: stop_pool_def\<close>)
  then show ?thesis by (intro exI [of _ "destroy_members (stop_pool s)"]) (simp add: destroy_members_def stop_pool_def)
qed

theorem tp_destroyed_early_witness:
  "\<exists>s'. tp_reach tp_demo s' \<and> \<not> m_alive s' \<and> workers s' = [WTop] \<and> m_workqueue s' = []"
  using tp_destroyed_early [OF tp_demo_append] by (simp add: tp_demo_def)

text \<open>The queue never holds more than \<open>m_max_requests + 1\<close> requests, and a lone \<open>append\<close>
  accepts a request exactly when at most \<open>m_max_requests\<close> are queued: the limit is one higher than
  the constructor's argument says.\<close>

theorem tp_queue_limit:
  assumes "tp_new tn mr cr de np = Some s0" and "tp_reach s0 s"
    and "m_alive s" and "p < length (producers s)" and "producers s ! p = PIdle" and "m_queuelocker s = None"
  shows "length (m_workqueue s) \<le> nat mr + 1
    \<and> (\<exists>s'. append_alone p r s = Some s' \<and> tp_reach s0 s'
        \<and> m_workqueue s' = (if length (m_workqueue s) \<le> nat mr then m_workqueue s @ [r] else m_workqueue s))"
proof -
  have "tp_inv s" using tp_reach_inv [OF assms(2) _ assms(3)] tp_new_inv [OF assms(1)] by simp
  moreover have m: "m_max_requests s = nat mr"
    using tp_reach_params [OF assms(2)] tp_new_inv [OF assms(1)] by simp
  ultimately show ?thesis
    using append_alone_run [OF assms(4-6), of r] append_alone_reach [OF assms(2-5), of r]
    by (auto simp: tp_inv_def not_less)
qed

theorem tp_queue_limit_witness:
  "\<exists>s'. append_alone 0 (Some 5) (tp_demo\<lparr>m_workqueue := [Some 4], appended := [Some 4], m_queuestat := 1\<rparr>)
      = Some s' \<and> m_max_requests tp_demo = 1 \<and> m_workqueue s' = [Some 4, Some 5]"
  using tp_queue_limit [OF tp_demo_new tp_demo_append _, of 0 "Some 5"]
  by (auto simp: tp_demo_def)

end
