(* ===== verification/DList.thy ===== *)
theory DList
  imports Prelude
begin

text \<open>
  Doubly linked lists in a heap, ended by null pointers.  \<open>dl_in mk h q xs\<close> says that the heap
  holds the list \<open>xs\<close> of addresses and payloads, that the cells are built by
  \<open>mk payload previous next\<close> and that the \<open>previous\<close> field of the first cell is \<open>q\<close>.
\<close>

abbreviation hd_ptr :: "(ptr \<times> 'p) list \<Rightarrow> ptr" where
  "hd_ptr xs \<equiv> (case xs of [] \<Rightarrow> NULL | x # _ \<Rightarrow> fst x)"

abbreviation las_ptr :: "ptr \<Rightarrow> (ptr \<times> 'p) list \<Rightarrow> ptr" where
  "las_ptr q xs \<equiv> (if xs = [] then q else fst (last xs))"

abbreviation nodes :: "(ptr \<times> 'p) list \<Rightarrow> ptr list" where
  "nodes xs \<equiv> map fst xs"

fun dl_in :: "('p \<Rightarrow> ptr \<Rightarrow> ptr \<Rightarrow> 'n) \<Rightarrow> 'n heap \<Rightarrow> ptr \<Rightarrow> (ptr \<times> 'p) list \<Rightarrow> bool" where
  "dl_in mk h q [] = True"
| "dl_in mk h q (x # xs) =
     (fst x \<noteq> NULL \<and> h (fst x) = Some (mk (snd x) q (hd_ptr xs)) \<and> dl_in mk h (fst x) xs)"

lemma dl_in_cong: "(\<And>a. a \<in> set (nodes xs) \<Longrightarrow> h' a = h a) \<Longrightarrow> dl_in mk h' q xs = dl_in mk h q xs"
  by (induction xs arbitrary: q) auto

lemma dl_in_agree:
  "dl_in mk h q xs \<Longrightarrow> (\<And>a. a \<notin> S \<Longrightarrow> h' a = h a) \<Longrightarrow> S \<inter> set (nodes xs) = {} \<Longrightarrow> dl_in mk h' q xs"
  using dl_in_cong [of xs h' h mk q] by blast

lemma dl_in_frame [shape_simps]: "a \<notin> set (nodes xs) \<Longrightarrow> dl_in mk (h(a := v)) q xs = dl_in mk h q xs"
  by (rule dl_in_cong) auto

lemma dl_in_not_NULL: "dl_in mk h q xs \<Longrightarrow> NULL \<notin> set (nodes xs)"
  by (induction xs arbitrary: q) auto

lemma hd_ptr_NULL: "dl_in mk h q xs \<Longrightarrow> hd_ptr xs = NULL \<longleftrightarrow> xs = []"
  by (cases xs) auto

text \<open>A segment whose last \<open>next\<close> field is \<open>e\<close>.\<close>

fun ds_in :: "('p \<Rightarrow> ptr \<Rightarrow> ptr \<Rightarrow> 'n) \<Rightarrow> 'n heap \<Rightarrow> ptr \<Rightarrow> (ptr \<times> 'p) list \<Rightarrow> ptr \<Rightarrow> bool" where
  "ds_in mk h q [] e = True"
| "ds_in mk h q (x # xs) e =
     (fst x \<noteq> NULL \<and> h (fst x) = Some (mk (snd x) q (if xs = [] then e else hd_ptr xs)) \<and> ds_in mk h (fst x) xs e)"

lemma dl_in_append:
  "dl_in mk h q (xs @ ys) \<longleftrightarrow> ds_in mk h q xs (hd_ptr ys) \<and> dl_in mk h (las_ptr q xs) ys"
proof (induction xs arbitrary: q)
  case (Cons x xs)
  then show ?case by (cases xs) auto
qed simp

lemma ds_in_cong: "(\<And>a. a \<in> set (nodes xs) \<Longrightarrow> h' a = h a) \<Longrightarrow> ds_in mk h' q xs e = ds_in mk h q xs e"
  by (induction xs arbitrary: q) auto

lemma ds_in_frame [shape_simps]: "a \<notin> set (nodes xs) \<Longrightarrow> ds_in mk (h(a := v)) q xs e = ds_in mk h q xs e"
  by (rule ds_in_cong) auto

lemma ds_in_snoc:
  "ds_in mk h q (xs @ [x]) e \<longleftrightarrow>
     ds_in mk h q xs (fst x) \<and> fst x \<noteq> NULL \<and> h (fst x) = Some (mk (snd x) (las_ptr q xs) e)"
proof (induction xs arbitrary: q)
  case (Cons y xs)
  then show ?case by (cases xs) auto
qed simp

text \<open>
  The interface between these lists and a node type: writing the \<open>previous\<close> and the \<open>next\<close> field
  of a cell built by \<open>mk\<close>.
\<close>

locale dl_layout =
  fixes mk :: "'p \<Rightarrow> ptr \<Rightarrow> ptr \<Rightarrow> 'n"
    and nprev nnext :: "'n \<Rightarrow> ptr"
    and uprev unext :: "ptr \<Rightarrow> 'n \<Rightarrow> 'n"
  assumes nprev_mk [simp]: "nprev (mk p a b) = a"
    and nnext_mk [simp]: "nnext (mk p a b) = b"
    and uprev_mk [simp]: "uprev x (mk p a b) = mk p x b"
    and unext_mk [simp]: "unext x (mk p a b) = mk p a x"
begin

text \<open>\<open>if (n) n->prev = v\<close> on the first cell of a list.\<close>

lemma relink_prev:
  assumes "dl_in mk h q xs" "distinct (nodes xs)"
  shows "\<exists>h'. (if hd_ptr xs \<noteq> NULL then wr (uprev v) h (hd_ptr xs) else Some h) = Some h'
    \<and> dl_in mk h' v xs \<and> dom h' = dom h \<and> (\<forall>a. a \<notin> set (nodes xs) \<longrightarrow> h' a = h a)"
  using assms by (cases xs) (auto simp: heap_simps shape_simps)

text \<open>\<open>prev->next = n\<close> on the last cell of a non-empty segment.\<close>

lemma relink_next:
  assumes "ds_in mk h q xs e" "distinct (nodes xs)" "xs \<noteq> []"
  shows "\<exists>h'. wr (unext v) h (las_ptr q xs) = Some h'
    \<and> ds_in mk h' q xs v \<and> dom h' = dom h \<and> (\<forall>a. a \<notin> set (nodes xs) \<longrightarrow> h' a = h a)"
  using assms by (cases xs rule: rev_cases) (auto simp: heap_simps ds_in_snoc shape_simps)

text \<open>Cutting a cell out of the middle.\<close>

lemma unlink_middle:
  assumes "dl_in mk h NULL (xs @ x # ys)" "distinct (nodes (xs @ x # ys))" "xs \<noteq> []"
  shows "\<exists>h1 h2. rd nprev h (fst x) = Some (las_ptr NULL xs) \<and> rd nnext h (fst x) = Some (hd_ptr ys)
    \<and> wr (unext (hd_ptr ys)) h (las_ptr NULL xs) = Some h1
    \<and> rd nnext h1 (fst x) = Some (hd_ptr ys) \<and> rd nprev h1 (fst x) = Some (las_ptr NULL xs)
    \<and> (if hd_ptr ys \<noteq> NULL then wr (uprev (las_ptr NULL xs)) h1 (hd_ptr ys) else Some h1) = Some h2
    \<and> dl_in mk h2 NULL (xs @ ys) \<and> h2 (fst x) = h (fst x) \<and> dom h2 = dom h
    \<and> (\<forall>a. a \<notin> set (nodes (xs @ ys)) \<longrightarrow> h2 a = h a)"
proof -
  have H: "ds_in mk h NULL xs (fst x)" "h (fst x) = Some (mk (snd x) (las_ptr NULL xs) (hd_ptr ys))"
    "fst x \<noteq> NULL" "dl_in mk h (fst x) ys"
    using assms(1) by (simp_all add: dl_in_append)
  have D: "distinct (nodes xs)" "distinct (nodes ys)" "fst x \<notin> set (nodes xs)" "fst x \<notin> set (nodes ys)"
    "set (nodes xs) \<inter> set (nodes ys) = {}"
    using assms(2) by auto
  obtain h1 where 1: "wr (unext (hd_ptr ys)) h (las_ptr NULL xs) = Some h1"
    "ds_in mk h1 NULL xs (hd_ptr ys)" "dom h1 = dom h" "\<And>a. a \<notin> set (nodes xs) \<Longrightarrow> h1 a = h a"
    using relink_next [OF H(1) D(1) assms(3)] by blast
  have y1: "dl_in mk h1 (fst x) ys" using dl_in_agree [where S = "set (nodes xs)", OF H(4) 1(4)] D(5) by auto
  obtain h2 where 2: "(if hd_ptr ys \<noteq> NULL then wr (uprev (las_ptr NULL xs)) h1 (hd_ptr ys) else Some h1) = Some h2"
    "dl_in mk h2 (las_ptr NULL xs) ys" "dom h2 = dom h1" "\<And>a. a \<notin> set (nodes ys) \<Longrightarrow> h2 a = h1 a"
    using relink_prev [OF y1 D(2)] by blast
  have "ds_in mk h2 NULL xs (hd_ptr ys)"
    using 1(2) ds_in_cong [of xs h2 h1] 2(4) D(5) by (metis disjoint_iff)
  then have "dl_in mk h2 NULL (xs @ ys)" using 2(2) by (simp add: dl_in_append)
  moreover have "h1 (fst x) = h (fst x)" "h2 (fst x) = h (fst x)" using 1(4) 2(4) D by auto
  moreover have "\<forall>a. a \<notin> set (nodes (xs @ ys)) \<longrightarrow> h2 a = h a" using 1(4) 2(4) by auto
  ultimately show ?thesis
    using 1(1,3) 2(1,3) H(2,3) by (intro exI [of _ h1] exI [of _ h2]) (simp add: heap_simps)
qed

end

end
