(* ===== verification/TimerWheel.thy ===== *)
theory TimerWheel
  imports DList
begin

text \<open>
  The timing wheel of \<open>epoll/timerwheel.h\<close>: \<open>N\<close> slots, each a doubly linked list of timers, and the
  slot the next \<open>tick\<close> looks at.  The constructor of a timer leaves \<open>cb_func\<close> and \<open>user_data\<close>
  uninitialised; the two together are one field here, \<^const>\<open>None\<close> until the caller sets them,
  and calling the callback of a timer without them is undefined.  The result of \<open>tick\<close> lists the
  data its callbacks were called with, in order.  The lines that the functions print are left out.
\<close>

subsection \<open>Definitions\<close>

record 'd tw_timer =
  rotation :: int
  time_slot :: int
  user_data :: "'d option"
  tw_next :: ptr
  tw_prev :: ptr

type_synonym 'd tw_heap = "'d tw_timer heap"

record time_wheel =
  slots :: "ptr list"
  cur_slot :: int

definition tw_N :: int where
  "tw_N = 60"

definition tw_TI :: int where
  "tw_TI = 1"

definition new_tw_timer :: "int \<Rightarrow> int \<Rightarrow> 'd tw_timer" where
  "new_tw_timer rot ts =
     \<lparr>rotation = rot, time_slot = ts, user_data = None, tw_next = NULL, tw_prev = NULL\<rparr>"

definition tw_init :: "int \<Rightarrow> int \<Rightarrow> 'd tw_timer \<Rightarrow> 'd tw_timer" where
  "tw_init timeout cur t = (let ticks = (if timeout < tw_TI then 1 else timeout sdiv tw_TI) in
     t\<lparr>rotation := ticks sdiv tw_N, time_slot := (cur + ticks smod tw_N) smod tw_N\<rparr>)"

definition set_next :: "'d tw_heap \<Rightarrow> ptr \<Rightarrow> ptr \<Rightarrow> 'd tw_heap option" where
  "set_next h p q = wr (tw_next_update (\<lambda>_. q)) h p"

definition set_prev :: "'d tw_heap \<Rightarrow> ptr \<Rightarrow> ptr \<Rightarrow> 'd tw_heap option" where
  "set_prev h p q = wr (tw_prev_update (\<lambda>_. q)) h p"

definition tw_new :: time_wheel where
  "tw_new = \<lparr>slots = replicate (nat tw_N) NULL, cur_slot = 0\<rparr>"

text \<open>The destructor: the inner loop over one slot, the outer loop over all slots.\<close>

partial_function (option) tw_delete_list :: "'d tw_heap \<Rightarrow> ptr \<Rightarrow> 'd tw_heap option" where
  "tw_delete_list h tmp = (if tmp = NULL then Some h else do {
      n \<leftarrow> rd tw_next h tmp;
      h \<leftarrow> free h tmp;
      tw_delete_list h n })"

fun tw_destroy_slots :: "'d tw_heap \<Rightarrow> ptr list \<Rightarrow> 'd tw_heap option" where
  "tw_destroy_slots h [] = Some h"
| "tw_destroy_slots h (p # ps) = do { h \<leftarrow> tw_delete_list h p; tw_destroy_slots h ps }"

definition tw_destroy :: "'d tw_heap \<Rightarrow> time_wheel \<Rightarrow> 'd tw_heap option" where
  "tw_destroy h w = tw_destroy_slots h (slots w)"

text \<open>Putting a timer at the head of the list of its slot, as \<open>add_timer\<close> and \<open>adjust_timer\<close> end.\<close>

definition tw_push_slot :: "'d tw_heap \<Rightarrow> time_wheel \<Rightarrow> ptr \<Rightarrow> ('d tw_heap \<times> time_wheel) option" where
  "tw_push_slot h w timer = do {
      ts \<leftarrow> rd time_slot h timer;
      head \<leftarrow> arr_get (slots w) ts;
      h \<leftarrow> (if head = NULL then Some h
            else do { h \<leftarrow> set_next h timer head; set_prev h head timer });
      s \<leftarrow> arr_set (slots w) ts timer;
      Some (h, w\<lparr>slots := s\<rparr>) }"

text \<open>\<open>z\<close> is the address that \<open>new\<close> returns.\<close>

definition add_timer ::
  "ptr \<Rightarrow> 'd tw_heap \<Rightarrow> time_wheel \<Rightarrow> int \<Rightarrow> ('d tw_heap \<times> time_wheel \<times> ptr) option" where
  "add_timer z h w timeout = (if timeout < 0 then Some (h, w, NULL) else do {
      h \<leftarrow> wr (tw_init timeout (cur_slot w)) (h(z \<mapsto> new_tw_timer 0 0)) z;
      (h, w) \<leftarrow> tw_push_slot h w z;
      Some (h, w, z) })"

text \<open>Taking a timer out of the list of its slot, as \<open>del_timer\<close> and \<open>adjust_timer\<close> begin.\<close>

definition tw_unlink :: "'d tw_heap \<Rightarrow> time_wheel \<Rightarrow> ptr \<Rightarrow> ('d tw_heap \<times> time_wheel) option" where
  "tw_unlink h w timer = do {
      ts \<leftarrow> rd time_slot h timer;
      head \<leftarrow> arr_get (slots w) ts;
      if timer = head then do {
        n \<leftarrow> rd tw_next h timer;
        s \<leftarrow> arr_set (slots w) ts n;
        h \<leftarrow> (if n \<noteq> NULL then set_prev h n NULL else Some h);
        Some (h, w\<lparr>slots := s\<rparr>) }
      else do {
        p \<leftarrow> rd tw_prev h timer;
        n \<leftarrow> rd tw_next h timer;
        h \<leftarrow> set_next h p n;
        n \<leftarrow> rd tw_next h timer;
        p \<leftarrow> rd tw_prev h timer;
        h \<leftarrow> (if n \<noteq> NULL then set_prev h n p else Some h);
        Some (h, w) } }"

definition del_timer :: "'d tw_heap \<Rightarrow> time_wheel \<Rightarrow> ptr \<Rightarrow> ('d tw_heap \<times> time_wheel) option" where
  "del_timer h w timer = (if timer = NULL then Some (h, w) else do {
      (h, w) \<leftarrow> tw_unlink h w timer;
      h \<leftarrow> free h timer;
      Some (h, w) })"

definition adjust_timer ::
  "'d tw_heap \<Rightarrow> time_wheel \<Rightarrow> int \<Rightarrow> ptr \<Rightarrow> ('d tw_heap \<times> time_wheel) option" where
  "adjust_timer h w timeout pTimer = do {
      (h, w) \<leftarrow> tw_unlink h w pTimer;
      h \<leftarrow> set_prev h pTimer NULL;
      h \<leftarrow> set_next h pTimer NULL;
      h \<leftarrow> wr (tw_init timeout (cur_slot w)) h pTimer;
      tw_push_slot h w pTimer }"

text \<open>The loop of \<open>tick\<close> over the list of the current slot.\<close>

partial_function (option) tick_loop ::
  "'d tw_heap \<Rightarrow> time_wheel \<Rightarrow> ptr \<Rightarrow> ('d tw_heap \<times> time_wheel \<times> 'd list) option" where
  "tick_loop h w tmp = (if tmp = NULL then Some (h, w, []) else do {
      r \<leftarrow> rd rotation h tmp;
      if r > 0 then do {
        h \<leftarrow> wr (rotation_update (\<lambda>_. r - 1)) h tmp;
        n \<leftarrow> rd tw_next h tmp;
        tick_loop h w n }
      else do {
        u \<leftarrow> rd user_data h tmp;
        d \<leftarrow> u;
        head \<leftarrow> arr_get (slots w) (cur_slot w);
        if tmp = head then do {
          n \<leftarrow> rd tw_next h tmp;
          s \<leftarrow> arr_set (slots w) (cur_slot w) n;
          h \<leftarrow> free h tmp;
          h \<leftarrow> (if n \<noteq> NULL then set_prev h n NULL else Some h);
          (h, w, ds) \<leftarrow> tick_loop h (w\<lparr>slots := s\<rparr>) n;
          Some (h, w, d # ds) }
        else do {
          p \<leftarrow> rd tw_prev h tmp;
          n \<leftarrow> rd tw_next h tmp;
          h \<leftarrow> set_next h p n;
          n \<leftarrow> rd tw_next h tmp;
          p \<leftarrow> rd tw_prev h tmp;
          h \<leftarrow> (if n \<noteq> NULL then set_prev h n p else Some h);
          tmp2 \<leftarrow> rd tw_next h tmp;
          h \<leftarrow> free h tmp;
          (h, w, ds) \<leftarrow> tick_loop h w tmp2;
          Some (h, w, d # ds) } } })"

definition tick :: "'d tw_heap \<Rightarrow> time_wheel \<Rightarrow> ('d tw_heap \<times> time_wheel \<times> 'd list) option" where
  "tick h w = do {
      tmp \<leftarrow> arr_get (slots w) (cur_slot w);
      (h, w, ds) \<leftarrow> tick_loop h w tmp;
      Some (h, w\<lparr>cur_slot := (cur_slot w + 1) smod tw_N\<rparr>, ds) }"

text \<open>What the callers do with the timer \<open>add_timer\<close> returned: set its callback and its data.\<close>

definition set_user_data :: "'d tw_heap \<Rightarrow> ptr \<Rightarrow> 'd \<Rightarrow> 'd tw_heap option" where
  "set_user_data h timer d = wr (user_data_update (\<lambda>_. Some d)) h timer"

subsection \<open>The representation\<close>

text \<open>A payload is the rotation, the slot and the data of a timer.\<close>

type_synonym 'd tw_pay = "int \<times> int \<times> 'd option"

definition tw_cell :: "'d tw_pay \<Rightarrow> ptr \<Rightarrow> ptr \<Rightarrow> 'd tw_timer" where
  "tw_cell p a b = \<lparr>rotation = fst p, time_slot = fst (snd p), user_data = snd (snd p),
     tw_next = b, tw_prev = a\<rparr>"

lemma tw_cell_selectors [simp]:
  "rotation (tw_cell p a b) = fst p" "time_slot (tw_cell p a b) = fst (snd p)"
  "user_data (tw_cell p a b) = snd (snd p)" "tw_next (tw_cell p a b) = b" "tw_prev (tw_cell p a b) = a"
  by (simp_all add: tw_cell_def)

lemma tw_cell_updates [simp]:
  "rotation_update (\<lambda>_. x) (tw_cell p a b) = tw_cell (x, snd p) a b"
  "user_data_update (\<lambda>_. y) (tw_cell p a b) = tw_cell (fst p, fst (snd p), y) a b"
  "tw_next_update (\<lambda>_. q) (tw_cell p a b) = tw_cell p a q"
  "tw_prev_update (\<lambda>_. q) (tw_cell p a b) = tw_cell p q b"
  by (simp_all add: tw_cell_def)

interpretation tw: dl_layout tw_cell tw_prev tw_next "\<lambda>q. tw_prev_update (\<lambda>_. q)" "\<lambda>q. tw_next_update (\<lambda>_. q)"
  by unfold_locales simp_all

lemmas tw_access = set_next_def set_prev_def

text \<open>
  The wheel represents the lists \<open>L i\<close> of its slots: the cells, the heads, the timers' own record
  of their slot, and what else is allocated.
\<close>

definition tw_all :: "(nat \<Rightarrow> (ptr \<times> 'd tw_pay) list) \<Rightarrow> (ptr \<times> 'd tw_pay) list" where
  "tw_all L = concat (map L [0..<60])"

definition tw_repr :: "ptr set \<Rightarrow> 'd tw_heap \<Rightarrow> time_wheel \<Rightarrow> (nat \<Rightarrow> (ptr \<times> 'd tw_pay) list) \<Rightarrow> bool" where
  "tw_repr G h w L \<longleftrightarrow> length (slots w) = 60 \<and> 0 \<le> cur_slot w \<and> cur_slot w < 60
     \<and> (\<forall>i < 60. slots w ! i = hd_ptr (L i) \<and> dl_in tw_cell h NULL (L i)
          \<and> distinct (nodes (L i)) \<and> (\<forall>e \<in> set (L i). fst (snd (snd e)) = int i \<and> 0 \<le> fst (snd e)))
     \<and> (\<forall>i < 60. \<forall>j < 60. i \<noteq> j \<longrightarrow> set (nodes (L i)) \<inter> set (nodes (L j)) = {})
     \<and> dom h = (\<Union>i < 60. set (nodes (L i))) \<union> G \<and> (\<forall>i < 60. G \<inter> set (nodes (L i)) = {})"

text \<open>
  The abstract wheel: the timers with the number of ticks after which they are due.
\<close>

definition tw_due :: "int \<Rightarrow> nat \<Rightarrow> int \<Rightarrow> int" where
  "tw_due cur i r = r * 60 + (int i - cur) mod 60"

definition tw_abs :: "time_wheel \<Rightarrow> (nat \<Rightarrow> (ptr \<times> 'd tw_pay) list) \<Rightarrow> (ptr \<times> int \<times> 'd option) set" where
  "tw_abs w L = (\<Union>i < 60. (\<lambda>(a, r, s, u). (a, tw_due (cur_slot w) i r, u)) ` set (L i))"

lemma tw_abs_iff:
  "(a, n, u) \<in> tw_abs w L \<longleftrightarrow> (\<exists>i < 60. \<exists>r s. (a, r, s, u) \<in> set (L i) \<and> n = tw_due (cur_slot w) i r)"
  by (force simp: tw_abs_def)

end
