(* ===== verification/TimerWheel_Props.thy ===== *)
theory TimerWheel_Props
  imports TimerWheel
begin

text \<open>
  The wheel implements the set of its timers with the ticks that remain: \<open>add_timer\<close> and
  \<open>adjust_timer\<close> set the remaining ticks, \<open>tick\<close> counts them down and calls back exactly the
  timers that are due.
\<close>

subsection \<open>Changing one slot\<close>

lemma tw_slot:
  assumes "tw_repr G h w L" "i < 60"
  shows "slots w ! i = hd_ptr (L i)" "dl_in tw_cell h NULL (L i)" "distinct (nodes (L i))"
    "\<And>e. e \<in> set (L i) \<Longrightarrow> fst (snd (snd e)) = int i \<and> 0 \<le> fst (snd e)"
    "arr_get (slots w) (int i) = Some (hd_ptr (L i))"
    "arr_set (slots w) (int i) v = Some ((slots w)[i := v])"
  using assms by (auto simp: tw_repr_def arr_get_def arr_set_def)

lemma tw_repr_update:
  assumes R: "tw_repr G h w L" and i: "i < 60"
    and M: "dl_in tw_cell h' NULL M" "distinct (nodes M)"
      "\<And>e. e \<in> set M \<Longrightarrow> fst (snd (snd e)) = int i \<and> 0 \<le> fst (snd e)"
    and frame: "\<And>a. a \<notin> set (nodes (L i)) \<Longrightarrow> a \<notin> F \<Longrightarrow> h' a = h a"
    and F: "\<And>j. j < 60 \<Longrightarrow> j \<noteq> i \<Longrightarrow> F \<inter> set (nodes (L j)) = {}"
    and sub: "set (nodes M) \<subseteq> set (nodes (L i)) \<union> F"
    and dom: "dom h' = (dom h - (set (nodes (L i)) \<union> G)) \<union> set (nodes M) \<union> G'"
    and G: "G' \<inter> set (nodes M) = {}" "\<And>j. j < 60 \<Longrightarrow> j \<noteq> i \<Longrightarrow> G' \<inter> set (nodes (L j)) = {}"
  shows "tw_repr G' h' (w\<lparr>slots := (slots w)[i := hd_ptr M]\<rparr>) (L(i := M))"
proof -
  have S: "length (slots w) = 60" "0 \<le> cur_slot w" "cur_slot w < 60"
    "\<And>j. j < 60 \<Longrightarrow> slots w ! j = hd_ptr (L j) \<and> dl_in tw_cell h NULL (L j)
          \<and> distinct (nodes (L j)) \<and> (\<forall>e \<in> set (L j). fst (snd (snd e)) = int j \<and> 0 \<le> fst (snd e))"
    "\<And>j k. j < 60 \<Longrightarrow> k < 60 \<Longrightarrow> j \<noteq> k \<Longrightarrow> set (nodes (L j)) \<inter> set (nodes (L k)) = {}"
    "dom h = (\<Union>j < 60. set (nodes (L j))) \<union> G" "\<And>j. j < 60 \<Longrightarrow> G \<inter> set (nodes (L j)) = {}"
    using R by (simp_all add: tw_repr_def)
  have o: "dl_in tw_cell h' NULL (L j)" if "j < 60" "j \<noteq> i" for j
  proof (rule dl_in_agree [where S = "set (nodes (L i)) \<union> F"])
    show "dl_in tw_cell h NULL (L j)" using S(4) that by blast
    show "(set (nodes (L i)) \<union> F) \<inter> set (nodes (L j)) = {}"
      using F [OF that] S(5) [OF i that(1)] that(2) by blast
  qed (use frame in blast)
  have dj: "set (nodes M) \<inter> set (nodes (L j)) = {}" if "j < 60" "j \<noteq> i" for j
    using sub F [OF that] S(5) [OF i that(1)] that(2) by blast
  have ot: "dom h - (set (nodes (L i)) \<union> G) = (\<Union>j \<in> {..<60} - {i}. set (nodes (L j)))"
  proof
    show "dom h - (set (nodes (L i)) \<union> G) \<subseteq> (\<Union>j \<in> {..<60} - {i}. set (nodes (L j)))"
      unfolding S(6) by auto
    show "(\<Union>j \<in> {..<60} - {i}. set (nodes (L j))) \<subseteq> dom h - (set (nodes (L i)) \<union> G)"
      unfolding S(6) using S(5) [OF i] S(7) by blast
  qed
  have u: "(\<Union>j < 60. set (nodes ((L(i := M)) j))) = set (nodes M) \<union> (\<Union>j \<in> {..<60} - {i}. set (nodes (L j)))"
  proof -
    have "{..<60} = insert i ({..<60} - {i})" using i by auto
    then have "(\<Union>j < 60. set (nodes ((L(i := M)) j))) = (\<Union>j \<in> insert i ({..<60} - {i}). set (nodes ((L(i := M)) j)))"
      by simp
    also have "\<dots> = set (nodes M) \<union> (\<Union>j \<in> {..<60} - {i}. set (nodes ((L(i := M)) j)))"
      by (simp only: UN_insert fun_upd_same)
    also have "(\<Union>j \<in> {..<60} - {i}. set (nodes ((L(i := M)) j))) = (\<Union>j \<in> {..<60} - {i}. set (nodes (L j)))"
      by (rule SUP_cong) auto
    finally show ?thesis .
  qed
  show ?thesis
    unfolding tw_repr_def
  proof (intro conjI allI impI)
    show "dom h' = (\<Union>j < 60. set (nodes ((L(i := M)) j))) \<union> G'"
      unfolding u dom ot by blast
    show "G' \<inter> set (nodes ((L(i := M)) j)) = {}" if "j < 60" for j using G that by simp
    show "set (nodes ((L(i := M)) j)) \<inter> set (nodes ((L(i := M)) k)) = {}"
      if "j < 60" "k < 60" "j \<noteq> k" for j k
      using that S(5) [of j k] dj [of j] dj [of k] by (cases "j = i"; cases "k = i") (simp_all add: Int_commute)
    show "\<And>j. j < 60 \<Longrightarrow> slots (w\<lparr>slots := (slots w)[i := hd_ptr M]\<rparr>) ! j = hd_ptr ((L(i := M)) j)"
      using S(1,4) i by (simp add: nth_list_update)
    show "\<And>j. j < 60 \<Longrightarrow> dl_in tw_cell h' NULL ((L(i := M)) j)" using o M(1) by simp
    show "\<And>j. j < 60 \<Longrightarrow> distinct (nodes ((L(i := M)) j))" using S(4) M(2) by simp
    show "\<And>j. j < 60 \<Longrightarrow> \<forall>e \<in> set ((L(i := M)) j). fst (snd (snd e)) = int j \<and> 0 \<le> fst (snd e)"
      using S(4) M(3) by simp
  qed (use S in simp_all)
qed

lemma tw_abs_update:
  "tw_abs (w\<lparr>slots := s\<rparr>) L = tw_abs w L"
  by (simp add: tw_abs_def)

subsection \<open>Taking a timer out and putting it in\<close>

lemma split_at: "a \<in> set (nodes xs) \<Longrightarrow> \<exists>ys p zs. xs = ys @ (a, p) # zs"
  by (force dest: split_list)

lemma tw_unlink_run:
  assumes R: "tw_repr G h w L" and i: "i < 60" and L: "L i = xs @ (a, p) # ys"
  shows "\<exists>h' w'. tw_unlink h w a = Some (h', w') \<and> tw_repr (insert a G) h' w' (L(i := xs @ ys))
    \<and> cur_slot w' = cur_slot w \<and> (\<exists>u v. h' a = Some (tw_cell p u v)) \<and> a \<noteq> NULL"
proof -
  note s = tw_slot [OF R i]
  have pi: "fst (snd p) = int i" using s(4) [of "(a, p)"] by (simp add: L)
  have D: "a \<notin> set (nodes xs)" "a \<notin> set (nodes ys)" "a \<noteq> NULL"
    "distinct (nodes (xs @ (a, p) # ys))" "a \<in> set (nodes (L i))"
    using s(2,3) by (auto simp: L dl_in_append)
  have c: "h a = Some (tw_cell p (las_ptr NULL xs) (hd_ptr ys))"
    using s(2) by (simp add: L dl_in_append)
  have rd: "rd time_slot h a = Some (int i)" "rd tw_next h a = Some (hd_ptr ys)"
    using c D(3) pi by (simp_all add: heap_simps)
  have Gi: "G \<inter> set (nodes (L i)) = {}" "\<And>j. j < 60 \<Longrightarrow> j \<noteq> i \<Longrightarrow> insert a G \<inter> set (nodes (L j)) = {}"
  proof -
    show "G \<inter> set (nodes (L i)) = {}" using R i by (simp add: tw_repr_def)
    fix j :: nat assume j: "j < 60" "j \<noteq> i"
    then have "set (nodes (L i)) \<inter> set (nodes (L j)) = {}" "G \<inter> set (nodes (L j)) = {}"
      using R i unfolding tw_repr_def by blast+
    then show "insert a G \<inter> set (nodes (L j)) = {}" using D(5) by blast
  qed
  have sub: "set (nodes (L i)) \<union> G \<subseteq> dom h" using R i unfolding tw_repr_def by blast
  have e: "\<And>x. x \<in> set (xs @ ys) \<Longrightarrow> fst (snd (snd x)) = int i \<and> 0 \<le> fst (snd x)"
    using s(4) by (simp add: L)
  obtain h' where h': "tw_unlink h w a = Some (h', w\<lparr>slots := (slots w)[i := hd_ptr (xs @ ys)]\<rparr>)"
    "dl_in tw_cell h' NULL (xs @ ys)" "dom h' = dom h" "\<And>b. b \<notin> set (nodes (xs @ ys)) \<Longrightarrow> h' b = h b"
  proof (cases "xs = []")
    case True
    have "dl_in tw_cell h a ys" "distinct (nodes ys)" using s(2) D(4) by (simp_all add: L dl_in_append)
    from tw.relink_prev [OF this, of NULL] obtain h' where "(if hd_ptr ys \<noteq> NULL then set_prev h (hd_ptr ys) NULL else Some h) = Some h'"
      "dl_in tw_cell h' NULL ys" "dom h' = dom h" "\<forall>b. b \<notin> set (nodes ys) \<longrightarrow> h' b = h b"
      unfolding tw_access by blast
    moreover from this(1) have "tw_unlink h w a = Some (h', w\<lparr>slots := (slots w)[i := hd_ptr ys]\<rparr>)"
      using True by (simp add: tw_unlink_def rd s(5,6) L)
    ultimately show ?thesis using that True by simp
  next
    case False
    have hd: "hd_ptr (L i) = hd_ptr xs" "hd_ptr (xs @ ys) = hd_ptr xs" using False by (auto simp: L split: list.splits)
    then have ne: "(a = hd_ptr (L i)) = False" using D(1) False by (cases xs) auto
    have "(slots w)[i := hd_ptr xs] = slots w" using s(1) hd(1) by (metis list_update_id)
    then have same: "w\<lparr>slots := (slots w)[i := hd_ptr xs]\<rparr> = w" by simp
    obtain h1 h2 where 1: "rd tw_prev h a = Some (las_ptr NULL xs)" "rd tw_next h a = Some (hd_ptr ys)"
      "set_next h (las_ptr NULL xs) (hd_ptr ys) = Some h1" "rd tw_next h1 a = Some (hd_ptr ys)"
      "rd tw_prev h1 a = Some (las_ptr NULL xs)"
      "(if hd_ptr ys \<noteq> NULL then set_prev h1 (hd_ptr ys) (las_ptr NULL xs) else Some h1) = Some h2"
      "dl_in tw_cell h2 NULL (xs @ ys)" "dom h2 = dom h"
      "\<forall>b. b \<notin> set (nodes (xs @ ys)) \<longrightarrow> h2 b = h b"
      using tw.unlink_middle [of h xs "(a, p)" ys] s(2) D(4) False unfolding tw_access L by auto
    have "tw_unlink h w a = Some (h2, w)"
      by (simp only: tw_unlink_def rd(1) s(5) ne 1(1-6) run_simps)
    then show ?thesis using that 1(7-9) same hd(2) by simp
  qed
  have "tw_repr (insert a G) h' (w\<lparr>slots := (slots w)[i := hd_ptr (xs @ ys)]\<rparr>) (L(i := xs @ ys))"
  proof (rule tw_repr_update [OF R i h'(2) _ e, where F = "{}"])
    show "dom h' = (dom h - (set (nodes (L i)) \<union> G)) \<union> set (nodes (xs @ ys)) \<union> insert a G"
      using sub h'(3) by (auto simp: L)
  qed (use D Gi h'(4) in \<open>auto simp: L\<close>)
  moreover have "h' a = h a" using h'(4) D by simp
  ultimately show ?thesis using h'(1) c D(3) by auto
qed

lemma tw_push_run:
  assumes R: "tw_repr G h w L" and i: "i < 60" and a: "a \<in> G" "a \<noteq> NULL" "0 \<le> fst p"
    "fst (snd p) = int i" and c: "h a = Some (tw_cell p NULL NULL)"
  shows "\<exists>h' w'. tw_push_slot h w a = Some (h', w') \<and> tw_repr (G - {a}) h' w' (L(i := (a, p) # L i))
    \<and> cur_slot w' = cur_slot w"
proof -
  note s = tw_slot [OF R i]
  have Gj: "\<And>j. j < 60 \<Longrightarrow> G \<inter> set (nodes (L j)) = {}" using R by (simp add: tw_repr_def)
  have ai: "a \<notin> set (nodes (L i))" using Gj [OF i] a(1) by blast
  have sub: "set (nodes (L i)) \<union> G \<subseteq> dom h" using R i unfolding tw_repr_def by blast
  have rd: "rd time_slot h a = Some (int i)" using c a by (simp add: heap_simps)
  define h1 where "h1 = h(a \<mapsto> tw_cell p NULL (hd_ptr (L i)))"
  have l1: "dl_in tw_cell h1 NULL (L i)" using s(2) ai by (simp add: h1_def dl_in_frame)
  obtain h2 where 2: "(if hd_ptr (L i) = NULL then Some h
      else do { h \<leftarrow> set_next h a (hd_ptr (L i)); set_prev h (hd_ptr (L i)) a }) = Some h2"
    "dl_in tw_cell h2 NULL ((a, p) # L i)" "dom h2 = dom h" "\<And>b. b \<noteq> a \<Longrightarrow> b \<notin> set (nodes (L i)) \<Longrightarrow> h2 b = h b"
  proof (cases "L i = []")
    case True
    then show ?thesis using that [of h] c a by simp
  next
    case False
    then have nn: "hd_ptr (L i) \<noteq> NULL" using hd_ptr_NULL [OF s(2)] by blast
    obtain h2 where h2: "wr (tw_prev_update (\<lambda>_. a)) h1 (hd_ptr (L i)) = Some h2" "dl_in tw_cell h2 a (L i)"
      "dom h2 = dom h1" "\<forall>b. b \<notin> set (nodes (L i)) \<longrightarrow> h2 b = h1 b"
      using tw.relink_prev [OF l1 s(3), of a] nn by auto
    have "set_next h a (hd_ptr (L i)) = Some h1"
      using c a by (simp add: tw_access heap_simps h1_def)
    moreover have "dom h1 = dom h" using c by (auto simp: h1_def)
    ultimately show ?thesis using that [of h2] nn h2 ai a by (simp add: tw_access h1_def)
  qed
  have run: "tw_push_slot h w a = Some (h2, w\<lparr>slots := (slots w)[i := hd_ptr ((a, p) # L i)]\<rparr>)"
    by (simp add: tw_push_slot_def rd s(5,6) 2(1))
  have "tw_repr (G - {a}) h2 (w\<lparr>slots := (slots w)[i := hd_ptr ((a, p) # L i)]\<rparr>) (L(i := (a, p) # L i))"
  proof (rule tw_repr_update [OF R i 2(2), where F = "{a}"])
    show "dom h2 = (dom h - (set (nodes (L i)) \<union> G)) \<union> set (nodes ((a, p) # L i)) \<union> (G - {a})"
      using sub 2(3) a(1) by auto
    show "{a} \<inter> set (nodes (L j)) = {}" if "j < 60" for j using Gj [OF that] a(1) by blast
    show "(G - {a}) \<inter> set (nodes (L j)) = {}" if "j < 60" for j using Gj [OF that] by blast
  qed (use s(3,4) ai a Gj [OF i] 2(4) in auto)
  then show ?thesis using run by auto
qed

subsection \<open>The loop of tick\<close>

text \<open>What stays in the slot, and the data of the timers that are due, in list order.\<close>

definition stay :: "(ptr \<times> 'd tw_pay) list \<Rightarrow> (ptr \<times> 'd tw_pay) list" where
  "stay xs = map (\<lambda>e. (fst e, fst (snd e) - 1, snd (snd e))) (filter (\<lambda>e. 0 < fst (snd e)) xs)"

definition due :: "(ptr \<times> 'd tw_pay) list \<Rightarrow> (ptr \<times> 'd tw_pay) list" where
  "due xs = filter (\<lambda>e. \<not> 0 < fst (snd e)) xs"

lemma stay_simps [simp]:
  "stay [] = []" "stay (e # xs) = (if 0 < fst (snd e) then (fst e, fst (snd e) - 1, snd (snd e)) # stay xs else stay xs)"
  by (simp_all add: stay_def)

lemma due_simps [simp]: "due [] = []" "due (e # xs) = (if 0 < fst (snd e) then due xs else e # due xs)"
  by (simp_all add: due_def)

lemma set_stay: "(a, r, su) \<in> set (stay xs) \<longleftrightarrow> (a, r + 1, su) \<in> set xs \<and> 0 \<le> r"
  by (induction xs) auto

lemma set_due: "e \<in> set (due xs) \<longleftrightarrow> e \<in> set xs \<and> \<not> 0 < fst (snd e)"
  by (simp add: due_def)

lemma nodes_stay: "nodes (stay xs) = nodes (filter (\<lambda>e. 0 < fst (snd e)) xs)"
  by (induction xs) auto

lemma nodes_split:
  assumes "distinct (nodes xs)"
  shows "set (nodes xs) = set (nodes (stay xs)) \<union> set (nodes (due xs))"
    "set (nodes (stay xs)) \<inter> set (nodes (due xs)) = {}" "distinct (nodes (stay xs))"
    "distinct (nodes (due xs))"
proof -
  show "set (nodes xs) = set (nodes (stay xs)) \<union> set (nodes (due xs))"
    unfolding nodes_stay due_def by auto
  show "set (nodes (stay xs)) \<inter> set (nodes (due xs)) = {}"
    using assms unfolding nodes_stay due_def by (auto simp: distinct_map inj_on_def)
  show "distinct (nodes (stay xs))" "distinct (nodes (due xs))"
    using assms unfolding nodes_stay due_def by (simp_all add: distinct_map_filter)
qed

definition fired :: "(ptr \<times> 'd tw_pay) list \<Rightarrow> 'd list" where
  "fired xs = map (\<lambda>e. the (snd (snd (snd e)))) (due xs)"

lemma hd_ptr_append: "hd_ptr (xs @ ys) = (if xs = [] then hd_ptr ys else hd_ptr xs)"
  by (cases xs) auto

lemma tick_loop_run:
  assumes "dl_in tw_cell h NULL (xs @ ys)" "distinct (nodes (xs @ ys))"
    and "i < length (slots w)" "cur_slot w = int i" "slots w ! i = hd_ptr (xs @ ys)"
    and "\<forall>e \<in> set (due ys). snd (snd (snd e)) \<noteq> None"
  shows "\<exists>h'. tick_loop h w (hd_ptr ys) =
      Some (h', w\<lparr>slots := (slots w)[i := hd_ptr (xs @ stay ys)]\<rparr>, fired ys)
    \<and> dl_in tw_cell h' NULL (xs @ stay ys) \<and> dom h' = dom h - set (nodes (due ys))
    \<and> (\<forall>a. a \<notin> set (nodes (xs @ ys)) \<longrightarrow> h' a = h a)"
  using assms
proof (induction ys arbitrary: h w xs)
  case Nil
  have "(slots w)[i := hd_ptr xs] = slots w" using Nil.prems(5) by (metis append_Nil2 list_update_id)
  then show ?case using Nil.prems by (subst tick_loop.simps) (auto simp: fired_def)
next
  case (Cons e ys)
  obtain a r sl u where e: "e = (a, r, sl, u)" by (cases e) auto
  have C: "ds_in tw_cell h NULL xs a" "h a = Some (tw_cell (r, sl, u) (las_ptr NULL xs) (hd_ptr ys))"
    "a \<noteq> NULL" "dl_in tw_cell h a ys"
    using Cons.prems(1) by (simp_all add: dl_in_append e)
  have D: "a \<notin> set (nodes xs)" "a \<notin> set (nodes ys)" "distinct (nodes (xs @ ys))" "distinct (nodes ys)"
    using Cons.prems(2) by (auto simp: e)
  have rd: "rd rotation h a = Some r" "rd user_data h a = Some u" "rd tw_next h a = Some (hd_ptr ys)"
    using C by (simp_all add: heap_simps)
  have arr: "arr_get (slots w) (int i) = Some (hd_ptr (xs @ e # ys))"
    "\<And>v. arr_set (slots w) (int i) v = Some ((slots w)[i := v])"
    using Cons.prems(3,5) by (simp_all add: heap_simps)
  note unf = tick_loop.simps [of h w a]
  show ?case
  proof (cases "0 < r")
    case True
    define h1 where "h1 = h(a \<mapsto> tw_cell (r - 1, sl, u) (las_ptr NULL xs) (hd_ptr ys))"
    have w1: "wr (rotation_update (\<lambda>_. r - 1)) h a = Some h1" "rd tw_next h1 a = Some (hd_ptr ys)"
      using C by (simp_all add: heap_simps h1_def)
    have step: "tick_loop h w (hd_ptr (e # ys)) = tick_loop h1 w (hd_ptr ys)"
      using True C(3) by (simp add: e unf rd w1)
    let ?xs = "xs @ [(a, r - 1, sl, u)]"
    have l1: "dl_in tw_cell h1 NULL (?xs @ ys)"
      using C D by (simp add: dl_in_append ds_in_snoc h1_def ds_in_frame dl_in_frame)
    have d1: "dom h1 = dom h" "\<forall>b. b \<noteq> a \<longrightarrow> h1 b = h b" using C by (auto simp: h1_def)
    have "distinct (nodes (?xs @ ys))" "slots w ! i = hd_ptr (?xs @ ys)"
      "\<forall>e \<in> set (due ys). snd (snd (snd e)) \<noteq> None"
      using Cons.prems(2,5,6) by (simp_all add: e hd_ptr_append)
    from Cons.IH [OF l1 this(1) Cons.prems(3,4) this(2,3)] obtain h' where
      "tick_loop h1 w (hd_ptr ys) = Some (h', w\<lparr>slots := (slots w)[i := hd_ptr (?xs @ stay ys)]\<rparr>, fired ys)"
      "dl_in tw_cell h' NULL (?xs @ stay ys)" "dom h' = dom h1 - set (nodes (due ys))"
      "\<forall>b. b \<notin> set (nodes (?xs @ ys)) \<longrightarrow> h' b = h1 b" by blast
    moreover have "due (e # ys) = due ys" "stay (e # ys) = (a, r - 1, sl, u) # stay ys"
      "fired (e # ys) = fired ys"
      using True by (simp_all add: e fired_def)
    note f = this
    ultimately show ?thesis
      unfolding f step using d1 by (intro exI [of _ h']) (simp add: e)
  next
    case False
    obtain d where u: "u = Some d" using Cons.prems(6) False by (auto simp: e)
    have "due (e # ys) = e # due ys" "stay (e # ys) = stay ys" "fired (e # ys) = d # fired ys"
      using False by (simp_all add: e u fired_def)
    note f = this
    show ?thesis
    proof (cases "xs = []")
      case True
      define h1 where "h1 = h(a := None)"
      have y1: "dl_in tw_cell h1 a ys" using C(4) D(2) by (simp add: h1_def dl_in_frame)
      obtain h2 where 2: "(if hd_ptr ys \<noteq> NULL then set_prev h1 (hd_ptr ys) NULL else Some h1) = Some h2"
        "dl_in tw_cell h2 NULL ys" "dom h2 = dom h1" "\<And>b. b \<notin> set (nodes ys) \<Longrightarrow> h2 b = h1 b"
        using tw.relink_prev [OF y1 D(4), of NULL] unfolding tw_access by blast
      let ?w = "w\<lparr>slots := (slots w)[i := hd_ptr ys]\<rparr>"
      have fr: "free h a = Some h1" using C by (simp add: heap_simps h1_def)
      have ah: "(a = hd_ptr (xs @ e # ys)) = True" "a = hd_ptr (e # ys)" using True by (simp_all add: e)
      have "tick_loop h w a = (do {
          (h, w, ds) \<leftarrow> tick_loop h2 ?w (hd_ptr ys); Some (h, w, d # ds) })"
        using C(3) False by (simp only: unf rd u Cons.prems(4) arr ah(1) fr 2(1) run_simps simp_thms)
      moreover obtain h' where "tick_loop h2 ?w (hd_ptr ys) =
          Some (h', ?w\<lparr>slots := (slots ?w)[i := hd_ptr ([] @ stay ys)]\<rparr>, fired ys)"
        "dl_in tw_cell h' NULL ([] @ stay ys)" "dom h' = dom h2 - set (nodes (due ys))"
        "\<forall>b. b \<notin> set (nodes ([] @ ys)) \<longrightarrow> h' b = h2 b"
        using Cons.IH [of h2 "[]" ?w] 2(2) D(4) Cons.prems(3-6) by auto
      ultimately show ?thesis
        using True 2(3,4) unfolding f by (auto simp: e h1_def)
    next
      case ne: False
      have "hd_ptr (xs @ e # ys) = hd_ptr xs" "hd_ptr xs \<in> set (nodes xs)" using ne by (cases xs; simp)+
      then have ah: "(a = hd_ptr (xs @ e # ys)) = False" using D(1) by auto
      obtain h1 h2 where 1: "rd tw_prev h a = Some (las_ptr NULL xs)"
        "set_next h (las_ptr NULL xs) (hd_ptr ys) = Some h1" "rd tw_next h1 a = Some (hd_ptr ys)"
        "rd tw_prev h1 a = Some (las_ptr NULL xs)"
        "(if hd_ptr ys \<noteq> NULL then set_prev h1 (hd_ptr ys) (las_ptr NULL xs) else Some h1) = Some h2"
        "dl_in tw_cell h2 NULL (xs @ ys)" "h2 a = h a" "dom h2 = dom h"
        "\<forall>b. b \<notin> set (nodes (xs @ ys)) \<longrightarrow> h2 b = h b"
        using tw.unlink_middle [of h xs e ys] Cons.prems(1,2) ne unfolding tw_access by (auto simp: e)
      define h3 where "h3 = h2(a := None)"
      have 3: "rd tw_next h2 a = Some (hd_ptr ys)" "free h2 a = Some h3"
        "dl_in tw_cell h3 NULL (xs @ ys)"
        using 1(6,7) C D by (simp_all add: heap_simps h3_def dl_in_frame)
      have "tick_loop h w a = (do {
          (h, w, ds) \<leftarrow> tick_loop h3 w (hd_ptr ys); Some (h, w, d # ds) })"
        using C(3) False by (simp only: unf rd u Cons.prems(4) arr ah 1(1-5) 3(1,2) run_simps simp_thms)
      moreover obtain h' where "tick_loop h3 w (hd_ptr ys) =
          Some (h', w\<lparr>slots := (slots w)[i := hd_ptr (xs @ stay ys)]\<rparr>, fired ys)"
        "dl_in tw_cell h' NULL (xs @ stay ys)" "dom h' = dom h3 - set (nodes (due ys))"
        "\<forall>b. b \<notin> set (nodes (xs @ ys)) \<longrightarrow> h' b = h3 b"
        using Cons.IH [of h3 xs w] 3(3) D(3) Cons.prems(3-6) ne by (auto simp: hd_ptr_append)
      ultimately show ?thesis
        using 1(7-9) unfolding f by (auto simp: e h3_def)
    qed
  qed
qed

subsection \<open>One tick\<close>

lemma tw_dist:
  assumes "0 \<le> j" "j < 60" "0 \<le> c" "c < 60"
  shows "(j - c) mod 60 = (if c \<le> j then j - c else j - c + (60::int))"
proof (cases "c \<le> j")
  case False
  have "(j - c) mod 60 = (j - c + 60) mod 60" by simp
  also have "\<dots> = j - c + 60" using assms False by (intro mod_pos_pos_trivial) auto
  finally show ?thesis using False by simp
qed (use assms in simp)

lemma tw_due_zero: "0 \<le> r \<Longrightarrow> i < 60 \<Longrightarrow> 0 \<le> c \<Longrightarrow> c < 60 \<Longrightarrow> tw_due c i r = 0 \<longleftrightarrow> r = 0 \<and> int i = c"
  unfolding tw_due_def using tw_dist [of "int i" c] by (cases "c \<le> int i") (simp; linarith)+

lemma tw_due_nonneg: "0 \<le> r \<Longrightarrow> 0 \<le> tw_due c i r"
  by (simp add: tw_due_def)

lemma tw_due_next:
  assumes "i < 60" "0 \<le> c" "c < 60"
  shows "tw_due ((c + 1) mod 60) i r = (if int i = c then tw_due c i (r + 1) else tw_due c i r) - 1"
proof -
  have "(c + 1) mod 60 = (if c = 59 then 0 else c + 1)" using assms by auto
  then show ?thesis using assms by (auto simp: tw_due_def tw_dist)
qed

lemma tw_all_nonneg: "tw_repr G h w L \<Longrightarrow> i < 60 \<Longrightarrow> (a, r, s, u) \<in> set (L i) \<Longrightarrow> 0 \<le> r"
  using tw_slot(4) by fastforce

lemma tick_abs:
  assumes R: "tw_repr G h w L" and i: "i < 60" "cur_slot w = int i" and c: "cur_slot w' = (cur_slot w + 1) mod 60"
  shows "tw_abs w' (L(i := stay (L i))) = {(a, n - 1, u) | a n u. (a, n, u) \<in> tw_abs w L \<and> 0 < n}"
proof (rule set_eqI, clarify)
  fix a n and u :: "'a option"
  have c2: "0 \<le> cur_slot w" "cur_slot w < 60" using R by (simp_all add: tw_repr_def)
  note nx = tw_due_next [OF _ c2]
  show "(a, n, u) \<in> tw_abs w' (L(i := stay (L i)))
    \<longleftrightarrow> (a, n, u) \<in> {(a, n - 1, u) | a n u. (a, n, u) \<in> tw_abs w L \<and> 0 < n}" (is "?l \<longleftrightarrow> ?r")
  proof
    assume ?l
    then obtain j r s where j: "j < 60" "(a, r, s, u) \<in> set ((L(i := stay (L i))) j)"
      "n = tw_due ((cur_slot w + 1) mod 60) j r" by (auto simp: tw_abs_iff c)
    show ?r
    proof (cases "j = i")
      case True
      then have m: "(a, r + 1, s, u) \<in> set (L i)" "0 \<le> r" using j(2) by (auto simp: set_stay)
      then have "(a, n + 1, u) \<in> tw_abs w L"
        using nx [OF i(1), of r] i j(3) True by (auto simp: tw_abs_iff)
      moreover have "0 \<le> n" using tw_due_nonneg [OF m(2)] j(3) by simp
      ultimately show ?thesis by force
    next
      case False
      then have m: "(a, r, s, u) \<in> set (L j)" using j(2) by simp
      then have "(a, n + 1, u) \<in> tw_abs w L"
        using nx [OF j(1), of r] i j False by (auto simp: tw_abs_iff)
      moreover have "0 \<le> n" using tw_due_nonneg [OF tw_all_nonneg [OF R j(1) m]] j(3) by simp
      ultimately show ?thesis by force
    qed
  next
    assume ?r
    then obtain j r s where j: "j < 60" "(a, r, s, u) \<in> set (L j)" "n = tw_due (cur_slot w) j r - 1" "0 \<le> n"
      by (auto simp: tw_abs_iff)
    show ?l
    proof (cases "j = i")
      case True
      have r: "0 < r" using tw_all_nonneg [OF R j(1,2)] j(3,4) i True by (cases "r = 0") (auto simp: tw_due_def)
      then have "(a, r - 1, s, u) \<in> set (stay (L i))" using j(2) True by (simp add: set_stay)
      moreover have "n = tw_due ((cur_slot w + 1) mod 60) i (r - 1)"
        using nx [OF i(1), of "r - 1"] i j(3) True by simp
      ultimately show ?thesis
        using i(1) unfolding tw_abs_iff c by (intro exI [of _ i] conjI exI [of _ "r - 1"] exI [of _ s]) simp_all
    next
      case False
      then have "n = tw_due ((cur_slot w + 1) mod 60) j r" using nx [OF j(1), of r] i j(3) by simp
      then show ?thesis using j(1,2) False by (auto simp: tw_abs_iff c intro!: exI [of _ j])
    qed
  qed
qed

lemma due_set:
  assumes "tw_repr G h w L" "i < 60" "cur_slot w = int i"
  shows "(a, 0, u) \<in> tw_abs w L \<longleftrightarrow> (\<exists>r s. (a, r, s, u) \<in> set (due (L i)))"
proof -
  have c2: "0 \<le> cur_slot w" "cur_slot w < 60" using assms(1) by (simp_all add: tw_repr_def)
  show ?thesis
  proof
    assume "(a, 0, u) \<in> tw_abs w L"
    then obtain j r s where j: "j < 60" "(a, r, s, u) \<in> set (L j)" "tw_due (cur_slot w) j r = 0"
      by (auto simp: tw_abs_iff)
    then have "r = 0 \<and> int j = cur_slot w"
      using tw_due_zero [OF tw_all_nonneg [OF assms(1) j(1,2)] j(1) c2] by simp
    then show "\<exists>r s. (a, r, s, u) \<in> set (due (L i))" using j(2) assms(3) by (auto simp: set_due)
  next
    assume "\<exists>r s. (a, r, s, u) \<in> set (due (L i))"
    then obtain r s where m: "(a, r, s, u) \<in> set (L i)" "\<not> 0 < r" by (auto simp: set_due)
    then have "r = 0" using tw_all_nonneg [OF assms(1,2)] by force
    then show "(a, 0, u) \<in> tw_abs w L"
      using m assms(2,3) by (auto simp: tw_abs_iff tw_due_def intro!: exI [of _ i])
  qed
qed

lemma tick_run:
  fixes L :: "nat \<Rightarrow> (ptr \<times> 'd tw_pay) list"
  assumes R: "tw_repr G h w L" and data: "\<forall>a. (a, 0, None) \<notin> tw_abs w L"
  shows "\<exists>h' w' L' as. tick h w = Some (h', w', map snd as) \<and> tw_repr G h' w' L'
    \<and> tw_abs w' L' = {(a, n - 1, u) | a n u. (a, n, u) \<in> tw_abs w L \<and> 0 < n}
    \<and> distinct (map fst as) \<and> set as = {(a, d). (a, 0, Some d) \<in> tw_abs w L}"
proof -
  define i where "i = nat (cur_slot w)"
  have i: "i < 60" "cur_slot w = int i" using R by (auto simp: i_def tw_repr_def)
  note s = tw_slot [OF R i(1)]
  have len: "i < length (slots w)" using R i by (simp add: tw_repr_def)
  have dn: "\<forall>e \<in> set (due (L i)). snd (snd (snd e)) \<noteq> None"
    using data due_set [OF R i] by (metis prod.collapse)
  from tick_loop_run [of h "[]" "L i" i w] s len i(2) dn obtain h' where
    1: "tick_loop h w (hd_ptr (L i)) = Some (h', w\<lparr>slots := (slots w)[i := hd_ptr (stay (L i))]\<rparr>, fired (L i))"
    "dl_in tw_cell h' NULL (stay (L i))" "dom h' = dom h - set (nodes (due (L i)))"
    "\<And>a. a \<notin> set (nodes (L i)) \<Longrightarrow> h' a = h a" by auto
  let ?w1 = "w\<lparr>slots := (slots w)[i := hd_ptr (stay (L i))]\<rparr>"
  let ?w' = "?w1\<lparr>cur_slot := (int i + 1) mod 60\<rparr>"
  have Gj: "\<And>j. j < 60 \<Longrightarrow> G \<inter> set (nodes (L j)) = {}" using R by (simp add: tw_repr_def)
  have sub: "set (nodes (L i)) \<union> G \<subseteq> dom h" using R i(1) unfolding tw_repr_def by blast
  note sd = nodes_split(1) [OF s(3)] and dis = nodes_split(2) [OF s(3)]
  have "tw_repr G h' ?w1 (L(i := stay (L i)))"
  proof (rule tw_repr_update [OF R i(1) 1(2), where F = "{}"])
    show "distinct (nodes (stay (L i)))" by (rule nodes_split(3) [OF s(3)])
    show "fst (snd (snd e)) = int i \<and> 0 \<le> fst (snd e)" if e: "e \<in> set (stay (L i))" for e
    proof -
      obtain a r su where "e = (a, r, su)" by (cases e)
      then show ?thesis using e s(4) [of "(a, r + 1, su)"] by (simp add: set_stay)
    qed
    show "dom h' = dom h - (set (nodes (L i)) \<union> G) \<union> set (nodes (stay (L i))) \<union> G"
      unfolding 1(3) using sd dis sub Gj [OF i(1)] by blast
    show "set (nodes (stay (L i))) \<subseteq> set (nodes (L i)) \<union> {}" using sd by blast
    show "G \<inter> set (nodes (stay (L i))) = {}" using sd Gj [OF i(1)] by blast
    show "h' a = h a" if "a \<notin> set (nodes (L i))" for a using 1(4) that .
  qed (use Gj in simp_all)
  then have R': "tw_repr G h' ?w' (L(i := stay (L i)))"
    by (simp add: tw_repr_def)
  define as where "as = map (\<lambda>(a, r, s, u). (a, the u)) (due (L i))"
  have f: "fired (L i) = map snd as" by (simp add: fired_def as_def case_prod_unfold comp_def)
  have "map fst as = nodes (due (L i))" by (simp add: as_def case_prod_unfold comp_def)
  then have da: "distinct (map fst as)" using nodes_split(4) [OF s(3)] by simp
  have sa: "set as = {(a, d). (a, 0, Some d) \<in> tw_abs w L}"
  proof (rule set_eqI, clarify)
    fix a d
    show "(a, d) \<in> set as \<longleftrightarrow> (a, d) \<in> {(a, d). (a, 0, Some d) \<in> tw_abs w L}"
      using due_set [OF R i, of a "Some d"] dn by (force simp: as_def)
  qed
  have "tick h w = Some (h', ?w', map snd as)"
    using 1(1) s(5) i(2) by (simp add: tick_def f signed_modulo_int_def sgn_if tw_N_def)
  then show ?thesis
    using R' tick_abs [OF R i, of ?w'] da sa i(2) by auto
qed

subsection \<open>The operations on the abstract wheel\<close>

definition tw_ticks :: "int \<Rightarrow> int" where
  "tw_ticks timeout = max 1 timeout"

lemma tw_init_cell:
  assumes "0 \<le> cur" "cur < 60"
  shows "tw_init timeout cur (tw_cell (r, s, u) a b) =
    tw_cell (tw_ticks timeout div 60, (cur + tw_ticks timeout mod 60) mod 60, u) a b"
proof -
  have t: "(if timeout < 1 then 1 else timeout sdiv 1) = tw_ticks timeout"
    by (simp add: tw_ticks_def sdiv_pos)
  have p: "0 \<le> tw_ticks timeout" "0 \<le> cur + tw_ticks timeout mod 60"
    using assms by (simp_all add: tw_ticks_def)
  show ?thesis
    unfolding tw_init_def tw_TI_def t tw_N_def Let_def using p by (simp add: tw_cell_def sdiv_pos smod_pos)
qed

lemma tw_due_init:
  assumes "0 \<le> cur" "cur < 60"
  shows "tw_due cur (nat ((cur + tw_ticks timeout mod 60) mod 60)) (tw_ticks timeout div 60) = tw_ticks timeout"
proof -
  have "((cur + tw_ticks timeout mod 60) mod 60 - cur) mod 60 = tw_ticks timeout mod 60"
    by (simp add: mod_simps)
  then show ?thesis by (simp add: tw_due_def)
qed

lemma tw_abs_push:
  "i < 60 \<Longrightarrow> tw_abs w (L(i := (a, r, s, u) # L i)) = insert (a, tw_due (cur_slot w) i r, u) (tw_abs w L)"
proof (rule set_eqI, clarify)
  fix b n and v :: "'a option"
  assume i: "i < 60"
  have "e \<in> set ((L(i := (a, r, s, u) # L i)) j) \<longleftrightarrow> e \<in> set (L j) \<or> j = i \<and> e = (a, r, s, u)" for e j
    by auto
  then have "(b, n, v) \<in> tw_abs w (L(i := (a, r, s, u) # L i)) \<longleftrightarrow>
      (\<exists>j < 60. \<exists>q t. ((b, q, t, v) \<in> set (L j) \<or> j = i \<and> (b, q, t, v) = (a, r, s, u)) \<and> n = tw_due (cur_slot w) j q)"
    by (simp only: tw_abs_iff)
  then show "(b, n, v) \<in> tw_abs w (L(i := (a, r, s, u) # L i)) \<longleftrightarrow>
      (b, n, v) \<in> insert (a, tw_due (cur_slot w) i r, u) (tw_abs w L)"
    using i unfolding insert_iff tw_abs_iff by blast
qed

lemma tw_abs_cut:
  assumes R: "tw_repr G h w L" and i: "i < 60" and L: "L i = xs @ (a, p) # ys"
  shows "tw_abs w (L(i := xs @ ys)) = {e \<in> tw_abs w L. fst e \<noteq> a}"
proof -
  have d: "distinct (nodes (xs @ (a, p) # ys))" using tw_slot(3) [OF R i] by (simp add: L)
  have o: "a \<notin> set (nodes (L j))" if "j < 60" "j \<noteq> i" for j
  proof -
    have "set (nodes (L i)) \<inter> set (nodes (L j)) = {}" using R i that unfolding tw_repr_def by blast
    then show ?thesis by (auto simp: L)
  qed
  show ?thesis
  proof (rule set_eqI, clarify)
    fix b n and u :: "'a option"
    show "(b, n, u) \<in> tw_abs w (L(i := xs @ ys)) \<longleftrightarrow> (b, n, u) \<in> {e \<in> tw_abs w L. fst e \<noteq> a}"
      (is "?l \<longleftrightarrow> ?r")
    proof
      assume ?l
      then obtain j r s where j: "j < 60" "(b, r, s, u) \<in> set ((L(i := xs @ ys)) j)" "n = tw_due (cur_slot w) j r"
        by (auto simp: tw_abs_iff)
      then have "(b, r, s, u) \<in> set (L j) \<and> b \<noteq> a" using d o [of j] L by (cases "j = i") force+
      then show ?r using j by (auto simp: tw_abs_iff)
    next
      assume ?r
      then obtain j r s where j: "j < 60" "(b, r, s, u) \<in> set (L j)" "n = tw_due (cur_slot w) j r" "b \<noteq> a"
        by (auto simp: tw_abs_iff)
      then have "(b, r, s, u) \<in> set ((L(i := xs @ ys)) j)" using L by (cases "j = i") auto
      then show ?l using j unfolding tw_abs_iff by blast
    qed
  qed
qed

lemma tw_abs_addr:
  assumes "tw_repr G h w L" "(a, n, u) \<in> tw_abs w L"
  shows "\<exists>i xs r s ys. i < 60 \<and> L i = xs @ (a, r, s, u) # ys"
  using assms(2) split_list by (fastforce simp: tw_abs_iff)

lemma tw_abs_inj:
  assumes R: "tw_repr G h w L" and "(a, n, u) \<in> tw_abs w L" "(a, m, v) \<in> tw_abs w L"
  shows "n = m \<and> u = v"
proof -
  obtain i r s j q t where i: "i < 60" "(a, r, s, u) \<in> set (L i)" "n = tw_due (cur_slot w) i r"
    and j: "j < 60" "(a, q, t, v) \<in> set (L j)" "m = tw_due (cur_slot w) j q"
    using assms(2,3) by (auto simp: tw_abs_iff)
  have "a \<in> set (nodes (L i))" "a \<in> set (nodes (L j))" using i(2) j(2) by force+
  then have "i = j" using R i(1) j(1) unfolding tw_repr_def by blast
  then have "(r, s, u) = (q, t, v)"
    using eq_key_imp_eq_value [OF tw_slot(3) [OF R i(1)] i(2)] j(2) by simp
  then show ?thesis using i(3) j(3) \<open>i = j\<close> by simp
qed

lemma tw_repr_alloc:
  assumes "tw_repr G h w L" "h z = None"
  shows "tw_repr (insert z G) (h(z \<mapsto> c)) w L"
proof -
  have z: "z \<notin> set (nodes (L i))" if "i < 60" for i
    using assms that unfolding tw_repr_def by blast
  have "dl_in tw_cell (h(z \<mapsto> c)) NULL (L i)" if "i < 60" for i
    using assms(1) z [OF that] that by (simp add: dl_in_frame tw_repr_def)
  then show ?thesis using assms(1) z by (simp add: tw_repr_def)
qed

lemma tw_repr_set:
  assumes R: "tw_repr (insert a G) h w L" and "a \<notin> G" and "h a = Some c0"
  shows "tw_repr (insert a G) (h(a \<mapsto> c)) w L"
proof -
  have z: "a \<notin> set (nodes (L i))" if "i < 60" for i
    using R that unfolding tw_repr_def by blast
  have "dl_in tw_cell (h(a \<mapsto> c)) NULL (L i)" if "i < 60" for i
    using R z [OF that] that by (simp add: dl_in_frame tw_repr_def)
  moreover have "dom (h(a \<mapsto> c)) = dom h" using assms(3) by auto
  ultimately show ?thesis using R z by (simp add: tw_repr_def)
qed

lemma tw_place:
  assumes R: "tw_repr (insert a G) h w L" and a: "a \<notin> G" "a \<noteq> NULL"
    and c: "h a = Some (tw_cell (r, s, u) NULL NULL)"
  shows "\<exists>h1 h' w' L'. wr (tw_init timeout (cur_slot w)) h a = Some h1 \<and> tw_push_slot h1 w a = Some (h', w')
    \<and> tw_repr G h' w' L' \<and> cur_slot w' = cur_slot w
    \<and> tw_abs w' L' = insert (a, tw_ticks timeout, u) (tw_abs w L)"
proof -
  have c2: "0 \<le> cur_slot w" "cur_slot w < 60" using R by (simp_all add: tw_repr_def)
  define sl where "sl = (cur_slot w + tw_ticks timeout mod 60) mod 60"
  define p where "p = (tw_ticks timeout div 60, sl, u)"
  have sl: "nat sl < 60" "int (nat sl) = sl" by (simp_all add: sl_def nat_less_iff)
  define h1 where "h1 = h(a \<mapsto> tw_cell p NULL NULL)"
  have 1: "wr (tw_init timeout (cur_slot w)) h a = Some h1"
    using c a by (simp add: heap_simps tw_init_cell [OF c2] h1_def p_def sl_def)
  have "tw_repr (insert a G) h1 w L" unfolding h1_def by (rule tw_repr_set [OF R a(1) c])
  moreover have "0 \<le> tw_ticks timeout div 60" by (simp add: tw_ticks_def pos_imp_zdiv_nonneg_iff)
  ultimately obtain h' w' where
    "tw_push_slot h1 w a = Some (h', w')" "tw_repr (insert a G - {a}) h' w' (L(nat sl := (a, p) # L (nat sl)))"
    "cur_slot w' = cur_slot w"
    using tw_push_run [OF _ sl(1), of "insert a G" h1 w L a p] a(2) sl(2) by (auto simp: p_def h1_def)
  moreover have "tw_abs w' (L(nat sl := (a, p) # L (nat sl))) = insert (a, tw_ticks timeout, u) (tw_abs w L)"
    using tw_abs_push [OF sl(1), of w' L a "fst p" sl u] tw_due_init [OF c2, of timeout] calculation(3)
    by (simp add: p_def sl_def tw_abs_def)
  ultimately show ?thesis using 1 a(1) by auto
qed

lemma add_timer_run:
  assumes R: "tw_repr G h w L" and z: "z \<noteq> NULL" "h z = None" and t: "0 \<le> timeout"
  shows "\<exists>h' w' L'. add_timer z h w timeout = Some (h', w', z) \<and> tw_repr G h' w' L'
    \<and> cur_slot w' = cur_slot w \<and> tw_abs w' L' = insert (z, tw_ticks timeout, None) (tw_abs w L)"
proof -
  let ?h = "h(z \<mapsto> new_tw_timer 0 0)"
  have "z \<notin> G" using R z(2) unfolding tw_repr_def by blast
  moreover have "?h z = Some (tw_cell (0, 0, None) NULL NULL)" by (simp add: new_tw_timer_def tw_cell_def)
  ultimately obtain h1 h' w' L' where "wr (tw_init timeout (cur_slot w)) ?h z = Some h1"
    "tw_push_slot h1 w z = Some (h', w')" "tw_repr G h' w' L'" "cur_slot w' = cur_slot w"
    "tw_abs w' L' = insert (z, tw_ticks timeout, None) (tw_abs w L)"
    using tw_place [OF tw_repr_alloc [OF R z(2)] _ z(1)] by blast
  then show ?thesis using t by (auto simp: add_timer_def)
qed

lemma tw_repr_free:
  assumes "tw_repr (insert a G) h w L" "a \<notin> G" "a \<noteq> NULL"
  shows "\<exists>h'. free h a = Some h' \<and> tw_repr G h' w L"
proof -
  have z: "a \<notin> set (nodes (L i))" if "i < 60" for i using assms(1) that unfolding tw_repr_def by blast
  have "a \<in> dom h" using assms(1) unfolding tw_repr_def by blast
  then have "free h a = Some (h(a := None))" using assms(3) by (auto simp: heap_simps)
  moreover have "dl_in tw_cell (h(a := None)) NULL (L i)" if "i < 60" for i
    using assms(1) z [OF that] that by (simp add: dl_in_frame tw_repr_def)
  moreover have "dom (h(a := None)) = (\<Union>i < 60. set (nodes (L i))) \<union> G"
  proof -
    have "dom h = (\<Union>i < 60. set (nodes (L i))) \<union> insert a G" using assms(1) by (simp add: tw_repr_def)
    then show ?thesis using z assms(2) by auto
  qed
  ultimately show ?thesis using assms(1) by (simp add: tw_repr_def)
qed

lemma tw_cut:
  assumes R: "tw_repr G h w L" and m: "(a, n, u) \<in> tw_abs w L"
  shows "\<exists>h' w' L' r s x y. tw_unlink h w a = Some (h', w') \<and> tw_repr (insert a G) h' w' L'
    \<and> cur_slot w' = cur_slot w \<and> h' a = Some (tw_cell (r, s, u) x y) \<and> a \<noteq> NULL \<and> a \<notin> G
    \<and> tw_abs w' L' = {e \<in> tw_abs w L. fst e \<noteq> a}"
proof -
  obtain i xs r s ys where i: "i < 60" "L i = xs @ (a, r, s, u) # ys" using tw_abs_addr [OF R m] by blast
  have "a \<notin> G" using R i unfolding tw_repr_def by fastforce
  moreover obtain h' w' x y where "tw_unlink h w a = Some (h', w')"
    "tw_repr (insert a G) h' w' (L(i := xs @ ys))" "cur_slot w' = cur_slot w"
    "h' a = Some (tw_cell (r, s, u) x y)" "a \<noteq> NULL"
    using tw_unlink_run [OF R i] by blast
  moreover have "tw_abs w' (L(i := xs @ ys)) = {e \<in> tw_abs w L. fst e \<noteq> a}"
    using tw_abs_cut [OF R i] calculation(4) by (simp add: tw_abs_def)
  ultimately show ?thesis by blast
qed

lemma del_timer_run:
  assumes R: "tw_repr G h w L" and m: "(a, n, u) \<in> tw_abs w L"
  shows "\<exists>h' w' L'. del_timer h w a = Some (h', w') \<and> tw_repr G h' w' L'
    \<and> cur_slot w' = cur_slot w \<and> tw_abs w' L' = {e \<in> tw_abs w L. fst e \<noteq> a}"
proof -
  obtain h1 w1 L1 where 1: "tw_unlink h w a = Some (h1, w1)" "tw_repr (insert a G) h1 w1 L1"
    "cur_slot w1 = cur_slot w" "a \<noteq> NULL" "a \<notin> G" "tw_abs w1 L1 = {e \<in> tw_abs w L. fst e \<noteq> a}"
    using tw_cut [OF assms] by blast
  obtain h2 where "free h1 a = Some h2" "tw_repr G h2 w1 L1" using tw_repr_free [OF 1(2,5,4)] by blast
  then show ?thesis using 1 by (auto simp: del_timer_def)
qed

lemma adjust_timer_run:
  assumes R: "tw_repr G h w L" and m: "(a, n, u) \<in> tw_abs w L"
  shows "\<exists>h' w' L'. adjust_timer h w timeout a = Some (h', w') \<and> tw_repr G h' w' L'
    \<and> cur_slot w' = cur_slot w
    \<and> tw_abs w' L' = insert (a, tw_ticks timeout, u) {e \<in> tw_abs w L. fst e \<noteq> a}"
proof -
  obtain h1 w1 L1 r s x y where 1: "tw_unlink h w a = Some (h1, w1)" "tw_repr (insert a G) h1 w1 L1"
    "cur_slot w1 = cur_slot w" "h1 a = Some (tw_cell (r, s, u) x y)" "a \<noteq> NULL" "a \<notin> G"
    "tw_abs w1 L1 = {e \<in> tw_abs w L. fst e \<noteq> a}"
    using tw_cut [OF assms] by blast
  define h3 where "h3 = h1(a \<mapsto> tw_cell (r, s, u) NULL NULL)"
  have 2: "set_prev h1 a NULL = Some (h1(a \<mapsto> tw_cell (r, s, u) NULL y))"
    "set_next (h1(a \<mapsto> tw_cell (r, s, u) NULL y)) a NULL = Some h3"
    using 1(4,5) by (simp_all add: tw_access heap_simps h3_def)
  have R3: "tw_repr (insert a G) h3 w1 L1" unfolding h3_def by (rule tw_repr_set [OF 1(2,6,4)])
  have c3: "h3 a = Some (tw_cell (r, s, u) NULL NULL)" by (simp add: h3_def)
  obtain h4 h' w' L' where 4: "wr (tw_init timeout (cur_slot w1)) h3 a = Some h4"
    "tw_push_slot h4 w1 a = Some (h', w')" "tw_repr G h' w' L'" "cur_slot w' = cur_slot w1"
    "tw_abs w' L' = insert (a, tw_ticks timeout, u) (tw_abs w1 L1)"
    using tw_place [OF R3 1(6,5) c3, of timeout] by blast
  have "adjust_timer h w timeout a = Some (h', w')"
    by (simp only: adjust_timer_def 1(1) 2 4(1,2) run_simps)
  then show ?thesis using 4(3-5) 1(3,7) by auto
qed

lemma insert_unique:
  "x \<in> S \<Longrightarrow> (\<And>e. e \<in> S \<Longrightarrow> fst e = fst x \<Longrightarrow> e = x) \<Longrightarrow> S = insert x {e \<in> S. fst e \<noteq> fst x}"
  by auto

lemma tw_absI: "i < 60 \<Longrightarrow> (a, r, s, u) \<in> set (L i) \<Longrightarrow> (a, tw_due (cur_slot w) i r, u) \<in> tw_abs w L"
  unfolding tw_abs_iff by blast

lemma set_user_data_run:
  assumes R: "tw_repr G h w L" and m: "(a, n, u) \<in> tw_abs w L"
  shows "\<exists>h' L'. set_user_data h a d = Some h' \<and> tw_repr G h' w L'
    \<and> tw_abs w L' = insert (a, n, Some d) {e \<in> tw_abs w L. fst e \<noteq> a}"
proof -
  obtain i xs r s ys where i: "i < 60" "L i = xs @ (a, r, s, u) # ys" using tw_abs_addr [OF R m] by blast
  note sl = tw_slot [OF R i(1)]
  have mem: "(a, r, s, u) \<in> set (L i)" by (simp add: i(2))
  have n: "n = tw_due (cur_slot w) i r"
    using tw_abs_inj [OF R m tw_absI [of i a r s u L w, OF i(1) mem]] by (rule conjunct1)
  have D: "a \<notin> set (nodes xs)" "a \<notin> set (nodes ys)" "a \<noteq> NULL" "distinct (nodes (L i))"
    using sl(2,3) by (auto simp: i(2) dl_in_append)
  have c: "ds_in tw_cell h NULL xs a" "h a = Some (tw_cell (r, s, u) (las_ptr NULL xs) (hd_ptr ys))"
    "dl_in tw_cell h a ys" using sl(2) by (simp_all add: i(2) dl_in_append)
  let ?M = "xs @ (a, r, s, Some d) # ys"
  define h' where "h' = h(a \<mapsto> tw_cell (r, s, Some d) (las_ptr NULL xs) (hd_ptr ys))"
  have run: "set_user_data h a d = Some h'" using c(2) D(3) by (simp add: set_user_data_def heap_simps h'_def)
  have M: "dl_in tw_cell h' NULL ?M"
    using c D by (simp add: dl_in_append h'_def ds_in_frame dl_in_frame)
  have nM: "nodes ?M = nodes (L i)" "hd_ptr ?M = hd_ptr (L i)" by (simp_all add: i(2) hd_ptr_append)
  have sub: "set (nodes (L i)) \<union> G \<subseteq> dom h" using R i(1) unfolding tw_repr_def by blast
  have "(slots w)[i := hd_ptr ?M] = slots w" unfolding nM(2) using sl(1) by (metis list_update_id)
  then have w: "w\<lparr>slots := (slots w)[i := hd_ptr ?M]\<rparr> = w" by simp
  have "tw_repr G h' (w\<lparr>slots := (slots w)[i := hd_ptr ?M]\<rparr>) (L(i := ?M))"
  proof (rule tw_repr_update [OF R i(1) M, where F = "{}"])
    show "fst (snd (snd e)) = int i \<and> 0 \<le> fst (snd e)" if "e \<in> set ?M" for e
      using that sl(4) [of e] sl(4) [of "(a, r, s, u)"] by (auto simp: i(2))
    show "h' b = h b" if "b \<notin> set (nodes (L i))" for b using that by (auto simp: h'_def i(2))
    have "dom h' = dom h" using c(2) by (auto simp: h'_def)
    then show "dom h' = dom h - (set (nodes (L i)) \<union> G) \<union> set (nodes ?M) \<union> G" unfolding nM(1) using sub by blast
    show "distinct (nodes ?M)" unfolding nM(1) by (rule D(4))
    show "set (nodes ?M) \<subseteq> set (nodes (L i)) \<union> {}" unfolding nM(1) by simp
    show "G \<inter> set (nodes ?M) = {}" unfolding nM(1) using R i(1) by (simp add: tw_repr_def)
  qed (use R in \<open>simp_all add: tw_repr_def\<close>)
  then have R': "tw_repr G h' w (L(i := ?M))" unfolding w .
  have "L(i := xs @ ys) = (L(i := ?M))(i := xs @ ys)" by simp
  then have cut: "{e \<in> tw_abs w (L(i := ?M)). fst e \<noteq> a} = {e \<in> tw_abs w L. fst e \<noteq> a}"
    using tw_abs_cut [OF R i] tw_abs_cut [OF R' i(1), of xs a "(r, s, Some d)" ys] by simp
  have m': "(a, n, Some d) \<in> tw_abs w (L(i := ?M))"
    unfolding n by (rule tw_absI [OF i(1), where s = s]) simp
  have "tw_abs w (L(i := ?M)) = insert (a, n, Some d) {e \<in> tw_abs w L. fst e \<noteq> a}"
  proof -
    have "e = (a, n, Some d)" if "e \<in> tw_abs w (L(i := ?M))" "fst e = fst (a, n, Some d)" for e
      using tw_abs_inj [OF R' m', of "fst (snd e)" "snd (snd e)"] that by (cases e) simp
    from insert_unique [OF m' this] show ?thesis
      by (simp only: fst_conv cut)
  qed
  then show ?thesis using run R' by blast
qed

subsection \<open>Runs of ticks\<close>

fun ticks :: "nat \<Rightarrow> 'd tw_heap \<Rightarrow> time_wheel \<Rightarrow> ('d tw_heap \<times> time_wheel \<times> 'd list list) option" where
  "ticks 0 h w = Some (h, w, [])"
| "ticks (Suc n) h w = do {
     (h, w, ds) \<leftarrow> tick h w; (h, w, dss) \<leftarrow> ticks n h w; Some (h, w, ds # dss) }"

lemma ticks_run:
  assumes "tw_repr G h w L" and "\<forall>a n. (a, n, None) \<notin> tw_abs w L"
  shows "\<exists>h' w' dss. ticks k h w = Some (h', w', dss) \<and> length dss = k
    \<and> (\<forall>j < k. \<exists>as. dss ! j = map snd as \<and> distinct (map fst as) \<and> set as = {(a, d). (a, int j, Some d) \<in> tw_abs w L})"
  using assms
proof (induction k arbitrary: h w L)
  case (Suc k)
  obtain h1 w1 L1 as where 1: "tick h w = Some (h1, w1, map snd as)" "tw_repr G h1 w1 L1"
    "tw_abs w1 L1 = {(a, n - 1, u) | a n u. (a, n, u) \<in> tw_abs w L \<and> 0 < n}"
    "distinct (map fst as)" "set as = {(a, d). (a, 0, Some d) \<in> tw_abs w L}"
    using tick_run [OF Suc.prems(1)] Suc.prems(2) by blast
  have "\<forall>a n. (a, n, None) \<notin> tw_abs w1 L1" unfolding 1(3) using Suc.prems(2) by blast
  from Suc.IH [OF 1(2) this] obtain h' w' dss where 2: "ticks k h1 w1 = Some (h', w', dss)" "length dss = k"
    "\<forall>j < k. \<exists>as. dss ! j = map snd as \<and> distinct (map fst as) \<and> set as = {(a, d). (a, int j, Some d) \<in> tw_abs w1 L1}"
    by blast
  have s: "(a, int j, u) \<in> tw_abs w1 L1 \<longleftrightarrow> (a, int (Suc j), u) \<in> tw_abs w L" for a j u
    unfolding 1(3) by force
  have "\<exists>as'. (map snd as # dss) ! j = map snd as' \<and> distinct (map fst as')
      \<and> set as' = {(a, d). (a, int j, Some d) \<in> tw_abs w L}" if "j < Suc k" for j
  proof (cases j)
    case 0
    then show ?thesis using 1(4,5) by (intro exI [of _ as]) simp
  next
    case (Suc i)
    then have "i < k" using that by simp
    then obtain as' where "dss ! i = map snd as'" "distinct (map fst as')"
      "set as' = {(a, d). (a, int i, Some d) \<in> tw_abs w1 L1}" using 2(3) by blast
    then show ?thesis using Suc s [of _ i] by (intro exI [of _ as']) simp
  qed
  then show ?case using 1(1) 2(1,2) by (intro exI [of _ h'] exI [of _ w'] exI [of _ "map snd as # dss"]) simp
qed simp

subsection \<open>Destruction\<close>

lemma tw_delete_list_run:
  "dl_in tw_cell h q xs \<Longrightarrow> distinct (nodes xs) \<Longrightarrow>
   \<exists>h'. tw_delete_list h (hd_ptr xs) = Some h' \<and> dom h' = dom h - set (nodes xs)
     \<and> (\<forall>a. a \<notin> set (nodes xs) \<longrightarrow> h' a = h a)"
proof (induction xs arbitrary: h q)
  case Nil
  then show ?case by (simp add: tw_delete_list.simps)
next
  case (Cons x xs)
  let ?h = "h(fst x := None)"
  have c: "fst x \<noteq> NULL" "h (fst x) = Some (tw_cell (snd x) q (hd_ptr xs))" "dl_in tw_cell h (fst x) xs"
    "fst x \<notin> set (nodes xs)" "distinct (nodes xs)" using Cons.prems by auto
  have "dl_in tw_cell ?h (fst x) xs" using c by (simp add: dl_in_frame)
  from Cons.IH [OF this c(5)] obtain h' where "tw_delete_list ?h (hd_ptr xs) = Some h'"
    "dom h' = dom ?h - set (nodes xs)" "\<forall>a. a \<notin> set (nodes xs) \<longrightarrow> h' a = ?h a" by blast
  then show ?case using c by (subst tw_delete_list.simps) (auto simp: heap_simps)
qed

lemma tw_destroy_slots_run:
  assumes "\<And>xs. xs \<in> set Ls \<Longrightarrow> dl_in tw_cell h NULL xs" "distinct (concat (map nodes Ls))"
  shows "\<exists>h'. tw_destroy_slots h (map hd_ptr Ls) = Some h' \<and> dom h' = dom h - (\<Union>xs \<in> set Ls. set (nodes xs))"
  using assms
proof (induction Ls arbitrary: h)
  case (Cons xs Ls)
  have d: "distinct (nodes xs)" "distinct (concat (map nodes Ls))"
    "\<And>ys. ys \<in> set Ls \<Longrightarrow> set (nodes xs) \<inter> set (nodes ys) = {}"
    using Cons.prems(2) by (auto simp: disjoint_iff)
  obtain h1 where 1: "tw_delete_list h (hd_ptr xs) = Some h1" "dom h1 = dom h - set (nodes xs)"
    "\<And>a. a \<notin> set (nodes xs) \<Longrightarrow> h1 a = h a"
    using tw_delete_list_run [OF Cons.prems(1) d(1)] by auto
  have "dl_in tw_cell h1 NULL ys" if "ys \<in> set Ls" for ys
    using dl_in_agree [where S = "set (nodes xs)", OF Cons.prems(1) 1(3)] d(3) [OF that] that by simp
  from Cons.IH [OF this d(2)] obtain h' where "tw_destroy_slots h1 (map hd_ptr Ls) = Some h'"
    "dom h' = dom h1 - (\<Union>xs \<in> set Ls. set (nodes xs))" by blast
  then show ?case using 1(1,2) by auto
qed simp

subsection \<open>The properties\<close>

lemma tw_new_repr: "tw_repr {} (\<lambda>_. None) tw_new (\<lambda>_. [])" "tw_abs tw_new (\<lambda>_. []) = {}"
  by (simp_all add: tw_repr_def tw_new_def tw_N_def tw_abs_def)

lemma tw_unused:
  assumes "tw_repr {} h w L" "\<And>n u. (z, n, u) \<notin> tw_abs w L"
  shows "h z = None"
proof (rule ccontr)
  assume "h z \<noteq> None"
  then have "z \<in> dom h" by blast
  then have "z \<in> (\<Union>i < 60. set (nodes (L i)))" using assms(1) unfolding tw_repr_def by simp
  then obtain i where "i < 60" "z \<in> set (nodes (L i))" by blast
  then obtain p where "(z, p) \<in> set (L i)" by auto
  then have "(z, tw_due (cur_slot w) i (fst p), snd (snd p)) \<in> tw_abs w L"
    using \<open>i < 60\<close> by (cases p) (auto simp: tw_abs_iff)
  then show False using assms(2) by blast
qed

text \<open>A wheel with two timers in the same slot, one of them a turn later.\<close>

lemma two_timers:
  obtains h1 w1 h2 h3 w3 h4 and L :: "nat \<Rightarrow> (ptr \<times> string tw_pay) list" where
    "add_timer (Ptr 1) (\<lambda>_. None) tw_new 1 = Some (h1, w1, Ptr 1)" "set_user_data h1 (Ptr 1) ''a'' = Some h2"
    "add_timer (Ptr 2) h2 w1 61 = Some (h3, w3, Ptr 2)" "set_user_data h3 (Ptr 2) ''b'' = Some h4"
    "tw_repr {} h4 w3 L" "tw_abs w3 L = {(Ptr 1, 1, Some ''a''), (Ptr 2, 61, Some ''b'')}"
proof -
  obtain h1 w1 and L1 :: "nat \<Rightarrow> (ptr \<times> string tw_pay) list" where
    1: "add_timer (Ptr 1) (\<lambda>_. None) tw_new 1 = Some (h1, w1, Ptr 1)" "tw_repr {} h1 w1 L1" "tw_abs w1 L1 = {(Ptr 1, 1, None)}"
    using add_timer_run [OF tw_new_repr(1), of "Ptr 1" 1] by (auto simp: tw_new_repr(2) tw_ticks_def)
  have "(Ptr 1, 1, None) \<in> tw_abs w1 L1" by (simp add: 1(3))
  moreover have "{e \<in> tw_abs w1 L1. fst e \<noteq> Ptr 1} = {}" by (auto simp: 1(3))
  ultimately obtain h2 L2 where
    2: "set_user_data h1 (Ptr 1) ''a'' = Some h2" "tw_repr {} h2 w1 L2" "tw_abs w1 L2 = {(Ptr 1, 1, Some ''a'')}"
    using set_user_data_run [OF 1(2), of "Ptr 1" 1 None "''a''"] by metis
  have "h2 (Ptr 2) = None" by (rule tw_unused [OF 2(2)]) (simp add: 2(3))
  from add_timer_run [OF 2(2) _ this, of 61] obtain h3 w3 L3 where
    3: "add_timer (Ptr 2) h2 w1 61 = Some (h3, w3, Ptr 2)" "tw_repr {} h3 w3 L3"
    "tw_abs w3 L3 = {(Ptr 2, 61, None), (Ptr 1, 1, Some ''a'')}"
    by (auto simp: 2(3) tw_ticks_def)
  have "(Ptr 2, 61, None) \<in> tw_abs w3 L3" by (simp add: 3(3))
  moreover have "{e \<in> tw_abs w3 L3. fst e \<noteq> Ptr 2} = {(Ptr 1, 1, Some ''a'')}" by (auto simp: 3(3))
  ultimately obtain h4 L4 where
    4: "set_user_data h3 (Ptr 2) ''b'' = Some h4" "tw_repr {} h4 w3 L4"
    "tw_abs w3 L4 = {(Ptr 1, 1, Some ''a''), (Ptr 2, 61, Some ''b'')}"
    using set_user_data_run [OF 3(2), of "Ptr 2" 61 None "''b''"] by (metis insert_commute)
  show thesis by (rule that [OF 1(1) 2(1) 3(1) 4])
qed

text \<open>C7: The wheel implements a countdown of its timers: with the data of every timer set, the
  j-th of k consecutive calls of \<open>tick\<close> (counting from 0) calls back exactly the timers with j
  remaining ticks, each once, and no call dereferences a null or deleted timer.\<close>

theorem tw_ticks_fire_on_time:
  assumes "tw_repr G h w L" and "\<forall>a n. (a, n, None) \<notin> tw_abs w L" and "j < k"
  shows "\<exists>h' w' dss as. ticks k h w = Some (h', w', dss) \<and> length dss = k \<and> dss ! j = map snd as
    \<and> distinct (map fst as) \<and> set as = {(a, d). (a, int j, Some d) \<in> tw_abs w L}"
  using ticks_run [OF assms(1,2), of k] assms(3) by blast

theorem tw_ticks_fire_on_time_witness:
  "\<exists>h1 w1 h2 h3 w3 h4 h' w' dss. add_timer (Ptr 1) (\<lambda>_. None) tw_new 1 = Some (h1, w1, Ptr 1)
    \<and> set_user_data h1 (Ptr 1) ''a'' = Some h2 \<and> add_timer (Ptr 2) h2 w1 61 = Some (h3, w3, Ptr 2)
    \<and> set_user_data h3 (Ptr 2) ''b'' = Some h4 \<and> ticks 62 h4 w3 = Some (h', w', dss)
    \<and> dss ! 0 = [] \<and> dss ! 1 = [''a''] \<and> dss ! 61 = [''b'']"
proof -
  obtain h1 w1 h2 h3 w3 h4 and L :: "nat \<Rightarrow> (ptr \<times> string tw_pay) list" where
    1: "add_timer (Ptr 1) (\<lambda>_. None) tw_new 1 = Some (h1, w1, Ptr 1)" "set_user_data h1 (Ptr 1) ''a'' = Some h2"
    "add_timer (Ptr 2) h2 w1 61 = Some (h3, w3, Ptr 2)" "set_user_data h3 (Ptr 2) ''b'' = Some h4"
    "tw_repr {} h4 w3 L" "tw_abs w3 L = {(Ptr 1, 1, Some ''a''), (Ptr 2, 61, Some ''b'')}"
    by (rule two_timers)
  have d: "\<forall>a n. (a, n, None) \<notin> tw_abs w3 L" by (simp add: 1(6))
  have fires: "\<exists>h' w' dss. ticks 62 h4 w3 = Some (h', w', dss) \<and> dss ! j = map snd as"
    if c: "j < 62" "set as = {(a, d). (a, int j, Some d) \<in> tw_abs w3 L}" "length as \<le> 1" for j as
  proof -
    obtain h' w' dss bs where b: "ticks 62 h4 w3 = Some (h', w', dss)" "dss ! j = map snd bs" "distinct (map fst bs)"
      "set bs = set as" using tw_ticks_fire_on_time [OF 1(5) d c(1)] c(2) by blast
    have "length bs = card (set as)" using b(3,4) by (metis distinct_card distinct_map)
    then have "bs = as" using c(3) b(4) card_length [of as]
      by (cases as; cases bs) auto
    then show ?thesis using b by blast
  qed
  have "\<exists>h' w' dss. ticks 62 h4 w3 = Some (h', w', dss) \<and> dss ! 0 = map snd ([] :: (ptr \<times> string) list)"
    "\<exists>h' w' dss. ticks 62 h4 w3 = Some (h', w', dss) \<and> dss ! 1 = map snd [(Ptr 1, ''a'')]"
    "\<exists>h' w' dss. ticks 62 h4 w3 = Some (h', w', dss) \<and> dss ! 61 = map snd [(Ptr 2, ''b'')]"
    by (rule fires; auto simp: 1(6))+
  then show ?thesis using 1(1-4) by fastforce
qed

text \<open>C14: On a new wheel, a timer added with timeout t >= 0 and its data set is called back in the
  call number max(1, t) + 1 of \<open>tick\<close> and in no other of the calls: one tick later than the
  comment of \<open>init\<close> says, for every timeout however many turns of the wheel it takes.\<close>

theorem tw_timer_fires_once:
  fixes d :: 'd
  assumes "0 \<le> timeout" and "z \<noteq> NULL"
  shows "\<exists>h1 w1 h2 h3 w3 dss. add_timer z (\<lambda>_. None :: 'd tw_timer option) tw_new timeout = Some (h1, w1, z)
    \<and> set_user_data h1 z d = Some h2 \<and> ticks k h2 w1 = Some (h3, w3, dss)
    \<and> length dss = k \<and> (\<forall>j < k. dss ! j = (if int j = max 1 timeout then [d] else []))"
proof -
  obtain h1 w1 L1 where 1: "add_timer z (\<lambda>_. None :: 'd tw_timer option) tw_new timeout = Some (h1, w1, z)" "tw_repr {} h1 w1 L1"
    "tw_abs w1 L1 = {(z, max 1 timeout, None)}"
    using add_timer_run [OF tw_new_repr(1) assms(2) _ assms(1)] by (auto simp: tw_new_repr(2) tw_ticks_def)
  obtain h2 L2 where 2: "set_user_data h1 z d = Some h2" "tw_repr {} h2 w1 L2"
    "tw_abs w1 L2 = {(z, max 1 timeout, Some d)}"
  proof -
    have "(z, max 1 timeout, None) \<in> tw_abs w1 L1" by (simp add: 1(3))
    from set_user_data_run [OF 1(2) this, of d] obtain h2 L2 where "set_user_data h1 z d = Some h2"
      "tw_repr {} h2 w1 L2" "tw_abs w1 L2 = insert (z, max 1 timeout, Some d) {e \<in> tw_abs w1 L1. fst e \<noteq> z}"
      by blast
    moreover have "{e \<in> tw_abs w1 L1. fst e \<noteq> z} = {}" by (auto simp: 1(3))
    ultimately show ?thesis using that by simp
  qed
  have "\<forall>a n. (a, n, None) \<notin> tw_abs w1 L2" by (simp add: 2(3))
  from ticks_run [OF 2(2) this, of k] obtain h3 w3 dss where 3: "ticks k h2 w1 = Some (h3, w3, dss)"
    "length dss = k" "\<forall>j < k. \<exists>as. dss ! j = map snd as \<and> distinct (map fst as)
      \<and> set as = {(a, e). (a, int j, Some e) \<in> tw_abs w1 L2}" by blast
  have "dss ! j = (if int j = max 1 timeout then [d] else [])" if jk: "j < k" for j
  proof -
    obtain as where a: "dss ! j = map snd as" "distinct (map fst as)"
      "set as = (if int j = max 1 timeout then {(z, d)} else {})"
    proof -
      have "{(a, e). (a, int j, Some e) \<in> tw_abs w1 L2} = (if int j = max 1 timeout then {(z, d)} else {})"
        unfolding 2(3) by auto
      moreover obtain as where "dss ! j = map snd as" "distinct (map fst as)"
        "set as = {(a, e). (a, int j, Some e) \<in> tw_abs w1 L2}" using 3(3) jk by blast
      ultimately show ?thesis using that by metis
    qed
    have "length as = card (set as)" using a(2) by (metis distinct_card distinct_map)
    then show ?thesis using a by (cases as) (auto split: if_splits)
  qed
  then show ?thesis using 1(1) 2(1) 3(1,2) by blast
qed

theorem tw_timer_fires_once_witness:
  "\<exists>h1 w1 h2 h3 w3 dss. add_timer (Ptr 1) (\<lambda>_. None) tw_new 61 = Some (h1, w1, Ptr 1)
    \<and> set_user_data h1 (Ptr 1) ''x'' = Some h2 \<and> ticks 62 h2 w1 = Some (h3, w3, dss) \<and> dss ! 61 = [''x'']"
  using tw_timer_fires_once [of 61 "Ptr 1" "''x''" 62] by fastforce

text \<open>C17: \<open>del_timer\<close> and \<open>adjust_timer\<close> act on the timer they are given and on no other: the first
  takes it out of the wheel and deallocates it, the second gives it max(1, timeout) remaining ticks
  and keeps its data; neither dereferences a null or deleted timer.\<close>

theorem tw_del_adjust:
  assumes "tw_repr G h w L" and "(a, n, u) \<in> tw_abs w L"
  shows "(\<exists>h' w' L'. del_timer h w a = Some (h', w') \<and> tw_repr G h' w' L'
      \<and> tw_abs w' L' = {e \<in> tw_abs w L. fst e \<noteq> a})
    \<and> (\<exists>h' w' L'. adjust_timer h w timeout a = Some (h', w') \<and> tw_repr G h' w' L'
      \<and> tw_abs w' L' = insert (a, max 1 timeout, u) {e \<in> tw_abs w L. fst e \<noteq> a})"
  using del_timer_run [OF assms] adjust_timer_run [OF assms, of timeout] unfolding tw_ticks_def by blast

theorem tw_del_adjust_witness:
  "\<exists>h w (L :: nat \<Rightarrow> (ptr \<times> nat tw_pay) list) h' w' L'. add_timer (Ptr 1) (\<lambda>_. None) tw_new 5 = Some (h, w, Ptr 1)
    \<and> tw_repr {} h w L \<and> del_timer h w (Ptr 1) = Some (h', w') \<and> tw_repr {} h' w' L' \<and> tw_abs w' L' = {}"
proof -
  obtain h w and L :: "nat \<Rightarrow> (ptr \<times> nat tw_pay) list" where
    1: "add_timer (Ptr 1) (\<lambda>_. None) tw_new 5 = Some (h, w, Ptr 1)" "tw_repr {} h w L"
    "tw_abs w L = {(Ptr 1, 5, None)}"
    using add_timer_run [OF tw_new_repr(1), of "Ptr 1" 5] by (auto simp: tw_new_repr(2) tw_ticks_def)
  have "(Ptr 1, 5, None) \<in> tw_abs w L" by (simp add: 1(3))
  from tw_del_adjust [OF 1(2) this] have
    "\<exists>h' w' L'. del_timer h w (Ptr 1) = Some (h', w') \<and> tw_repr {} h' w' L' \<and> tw_abs w' L' = {}"
    unfolding 1(3) by fastforce
  then show ?thesis using 1(1,2) by blast
qed

text \<open>The destructor of the wheel deallocates every timer in it, once, and nothing else.\<close>

theorem tw_destroy_frees_all:
  assumes "tw_repr G h w L"
  shows "\<exists>h'. tw_destroy h w = Some h' \<and> dom h' = G"
proof -
  have s: "slots w = map hd_ptr (map L [0..<60])"
    using assms by (intro nth_equalityI) (simp_all add: tw_repr_def)
  have D: "\<And>i. i < 60 \<Longrightarrow> distinct (nodes (L i))"
    "\<And>i j. i < 60 \<Longrightarrow> j < 60 \<Longrightarrow> i \<noteq> j \<Longrightarrow> set (nodes (L i)) \<inter> set (nodes (L j)) = {}"
    using assms by (simp_all add: tw_repr_def)
  have dj: "distinct (concat (map nodes (map L [0..<n])))" if "n \<le> 60" for n
    using that
  proof (induction n)
    case (Suc n)
    have "(\<Union>i \<in> {0..<n}. set (nodes (L i))) \<inter> set (nodes (L n)) = {}"
    proof -
      have "set (nodes (L i)) \<inter> set (nodes (L n)) = {}" if "i < n" for i
        using D(2) [of i n] that Suc.prems by simp
      then have "\<And>i x. i \<in> {0..<n} \<Longrightarrow> x \<in> set (nodes (L i)) \<Longrightarrow> x \<notin> set (nodes (L n))"
        unfolding disjoint_iff by (metis atLeastLessThan_iff)
      then show ?thesis unfolding disjoint_iff UN_iff by metis
    qed
    moreover have "set (concat (map nodes (map L [0..<n]))) = (\<Union>i \<in> {0..<n}. set (nodes (L i)))" by simp
    ultimately show ?case using Suc D(1) [of n] by (simp only: upt_Suc map_append concat_append distinct_append) simp
  qed simp
  have "dl_in tw_cell h NULL xs" if "xs \<in> set (map L [0..<60])" for xs
    using that assms by (auto simp: tw_repr_def)
  from tw_destroy_slots_run [OF this dj [OF order_refl]] obtain h' where
    "tw_destroy h w = Some h'" "dom h' = dom h - (\<Union>xs \<in> set (map L [0..<60]). set (nodes xs))"
    unfolding tw_destroy_def s by blast
  moreover have "dom h = (\<Union>xs \<in> set (map L [0..<60]). set (nodes xs)) \<union> G"
    using assms by (simp add: tw_repr_def lessThan_atLeast0)
  moreover have "G \<inter> set (nodes (L i)) = {}" if "i < 60" for i
    using assms that by (simp add: tw_repr_def)
  then have "G \<inter> (\<Union>xs \<in> set (map L [0..<60]). set (nodes xs)) = {}"
    unfolding set_map set_upt by (simp only: disjoint_iff UN_iff image_iff Bex_def atLeastLessThan_iff) blast
  ultimately show ?thesis by (metis Diff_triv Un_Diff Un_Diff_cancel2 Diff_cancel Un_empty_left)
qed

theorem tw_destroy_frees_all_witness:
  "tw_destroy (\<lambda>_. None :: nat tw_timer option) tw_new = Some (\<lambda>_. None)"
  using tw_destroy_frees_all [OF tw_new_repr(1)] by auto

end
