(* ===== verification/CText.thy ===== *)
theory CText
  imports Prelude
begin

text \<open>
  The C string functions the sources call, on arrays of characters.  A \<open>char *\<close> into an array is
  an index; the string at an index ends before the first NUL, and an array without a NUL from
  that index on has no string there (\<^const>\<open>None\<close>: the function would read past the array).
  The functions below follow the C standard (\<open>strpbrk\<close>, \<open>strspn\<close>, \<open>strcasecmp\<close>, \<open>strncasecmp\<close>,
  \<open>strchr\<close>, \<open>strncpy\<close>, \<open>vsnprintf\<close>, \<open>atol\<close>, in the C locale).
\<close>

abbreviation NUL :: char where "NUL \<equiv> CHR 0x00"
abbreviation CR :: char where "CR \<equiv> CHR 0x0D"
abbreviation LF :: char where "LF \<equiv> CHR 0x0A"
abbreviation TAB :: char where "TAB \<equiv> CHR 0x09"
abbreviation crlf :: string where "crlf \<equiv> [CR, LF]"
abbreviation blanks :: string where "blanks \<equiv> [CHR 0x20, TAB]"

definition cstr :: "char list \<Rightarrow> int \<Rightarrow> string option" where
  "cstr buf i = (if 0 \<le> i \<and> NUL \<in> set (drop (nat i) buf)
     then Some (takeWhile (\<lambda>c. c \<noteq> NUL) (drop (nat i) buf)) else None)"

definition strpbrk :: "string \<Rightarrow> string \<Rightarrow> int option" where
  "strpbrk s acc = (let n = length (takeWhile (\<lambda>c. c \<notin> set acc) s) in
     if n < length s then Some (int n) else None)"

definition strspn :: "string \<Rightarrow> string \<Rightarrow> int" where
  "strspn s acc = int (length (takeWhile (\<lambda>c. c \<in> set acc) s))"

definition tolower :: "char \<Rightarrow> char" where
  "tolower c = (let n = of_char c :: nat in if 65 \<le> n \<and> n \<le> 90 then char_of (n + 32) else c)"

definition strcase_eq :: "string \<Rightarrow> string \<Rightarrow> bool" where
  "strcase_eq a b \<longleftrightarrow> map tolower a = map tolower b"

definition strncase_eq :: "string \<Rightarrow> string \<Rightarrow> nat \<Rightarrow> bool" where
  "strncase_eq a b n \<longleftrightarrow> take n (map tolower a) = take n (map tolower b)"

text \<open>\<open>strncpy(dst + i, s, n)\<close>: at most \<open>n\<close> characters, padded with NUL up to \<open>n\<close>.\<close>

definition strncpy :: "char list \<Rightarrow> nat \<Rightarrow> string \<Rightarrow> nat \<Rightarrow> char list option" where
  "strncpy dst i s n = (if i + n \<le> length dst
     then Some (take i dst @ take n s @ replicate (n - length s) NUL @ drop (i + n) dst) else None)"

text \<open>\<open>strcpy(dst, s)\<close>, with the NUL that ends the string.\<close>

definition strcpy :: "char list \<Rightarrow> string \<Rightarrow> char list option" where
  "strcpy dst s = (if length s < length dst
     then Some (s @ [NUL] @ drop (Suc (length s)) dst) else None)"

text \<open>
  \<open>vsnprintf(buf + i, n, ...)\<close> for a format whose expansion is \<open>s\<close>: at most \<open>n - 1\<close>
  characters and a NUL; the result is the length of the whole expansion.
\<close>

definition vsnprintf :: "char list \<Rightarrow> nat \<Rightarrow> nat \<Rightarrow> string \<Rightarrow> (int \<times> char list) option" where
  "vsnprintf buf i n s = (if n = 0 then Some (int (length s), buf)
     else let t = take (n - 1) s in
       if i + length t < length buf
       then Some (int (length s), take i buf @ t @ [NUL] @ drop (Suc (i + length t)) buf) else None)"

definition digit_value :: "char \<Rightarrow> nat option" where
  "digit_value c = (let n = of_char c :: nat in if 48 \<le> n \<and> n \<le> 57 then Some (n - 48) else None)"

fun digits_value :: "nat \<Rightarrow> string \<Rightarrow> nat" where
  "digits_value a [] = a"
| "digits_value a (c # cs) = (case digit_value c of None \<Rightarrow> a | Some d \<Rightarrow> digits_value (10 * a + d) cs)"

definition is_space :: "char \<Rightarrow> bool" where
  "is_space c \<longleftrightarrow> of_char c \<in> {32::nat, 9, 10, 11, 12, 13}"

text \<open>\<open>atol\<close>: a value that a \<open>long\<close> of 64 bits cannot represent is undefined.\<close>

definition atol :: "string \<Rightarrow> int option" where
  "atol s = (let s = dropWhile is_space s;
       v = (case s of [] \<Rightarrow> 0
            | c # cs \<Rightarrow> if c = CHR ''-'' then - int (digits_value 0 cs)
                        else if c = CHR ''+'' then int (digits_value 0 cs)
                        else int (digits_value 0 s)) in
     if - (2 ^ 63) \<le> v \<and> v < 2 ^ 63 then Some v else None)"

text \<open>The conversion of a wider integer to a 32-bit \<open>int\<close>.\<close>

definition to_int :: "int \<Rightarrow> int" where
  "to_int v = (v + 2 ^ 31) mod 2 ^ 32 - 2 ^ 31"

definition int_range :: "int \<Rightarrow> bool" where
  "int_range v \<longleftrightarrow> - (2 ^ 31) \<le> v \<and> v < 2 ^ 31"

text \<open>The sum of two ints; signed overflow is undefined.\<close>

definition add_int :: "int \<Rightarrow> int \<Rightarrow> int option" where
  "add_int a b = (if int_range (a + b) then Some (a + b) else None)"

text \<open>The conversion \<open>%d\<close>.\<close>

fun dec_nat :: "nat \<Rightarrow> string" where
  "dec_nat n = (if n < 10 then [char_of (48 + n)] else dec_nat (n div 10) @ [char_of (48 + n mod 10)])"

declare dec_nat.simps [simp del]

definition dec :: "int \<Rightarrow> string" where
  "dec i = (if i < 0 then CHR ''-'' # dec_nat (nat (- i)) else dec_nat (nat i))"

subsection \<open>Lemmas\<close>

lemma to_int_id: "int_range v \<Longrightarrow> to_int v = v"
  by (simp add: to_int_def int_range_def)

lemma to_int_range: "int_range (to_int v)"
  by (simp add: to_int_def int_range_def)

lemma takeWhile_stop: "(\<And>x. x \<in> set s \<Longrightarrow> P x) \<Longrightarrow> \<not> P y \<Longrightarrow> takeWhile P (s @ y # b) = s"
  by (induction s) auto

lemma takeWhile_shorter: "x \<in> set s \<Longrightarrow> \<not> P x \<Longrightarrow> length (takeWhile P s) < length s"
  by (induction s) auto

lemma cstr_0 [simp]: "cstr (NUL # b) 0 = Some []"
  by (simp add: cstr_def)

lemma cstr_append:
  assumes "NUL \<notin> set s"
  shows "cstr (a @ s @ NUL # b) (int (length a)) = Some s"
proof -
  have "takeWhile (\<lambda>c. c \<noteq> NUL) (s @ NUL # b) = s"
    using assms by (intro takeWhile_stop) auto
  then show ?thesis by (simp add: cstr_def)
qed

lemma cstr_None_iff: "cstr buf i = None \<longleftrightarrow> i < 0 \<or> NUL \<notin> set (drop (nat i) buf)"
  by (auto simp: cstr_def)

lemma cstr_len:
  assumes "cstr buf i = Some s"
  shows "nat i + length s < length buf" "buf ! (nat i + length s) = NUL" "0 \<le> i"
    "s = take (length s) (drop (nat i) buf)" "NUL \<notin> set s"
proof -
  let ?d = "drop (nat i) buf"
  have s: "s = takeWhile (\<lambda>c. c \<noteq> NUL) ?d" and i: "0 \<le> i" and "NUL \<in> set ?d"
    using assms by (auto simp: cstr_def split: if_splits)
  have "length s < length ?d"
    unfolding s by (rule takeWhile_shorter [OF \<open>NUL \<in> set ?d\<close>]) simp
  then show "nat i + length s < length buf" by simp
  have "?d ! length s = NUL"
    using nth_length_takeWhile [of "\<lambda>c. c \<noteq> NUL" ?d] \<open>length s < length ?d\<close> by (simp add: s)
  then show "buf ! (nat i + length s) = NUL" using \<open>length s < length ?d\<close> by simp
  show "0 \<le> i" by (rule i)
  show "s = take (length s) ?d" unfolding s by (rule takeWhile_eq_take)
  show "NUL \<notin> set s" unfolding s by (auto dest: set_takeWhileD)
qed

text \<open>The string at a later place of the same string.\<close>

lemma cstr_shift:
  assumes "cstr buf i = Some s" and "n \<le> length s"
  shows "cstr buf (i + int n) = Some (drop n s)"
proof -
  note c = cstr_len [OF assms(1)]
  have e: "nat (i + int n) = nat i + n" using c(3) by simp
  have b: "buf = take (nat i) buf @ s @ NUL # drop (Suc (nat i + length s)) buf"
    using c(1,2) c(4) id_take_nth_drop [OF c(1)] by (metis append_assoc take_add)
  have b': "buf = (take (nat i) buf @ take n s) @ drop n s @ NUL # drop (Suc (nat i + length s)) buf"
    using b by (metis append_assoc append_take_drop_id)
  have "cstr buf (int (length (take (nat i) buf @ take n s))) = Some (drop n s)"
    by (subst b') (rule cstr_append, use c(5) in_set_dropD [of NUL n s] in blast)
  moreover have "int (length (take (nat i) buf @ take n s)) = i + int n"
    using c(1,3) assms(2) by simp
  ultimately show ?thesis by (simp only:)
qed

text \<open>Writing NUL inside the string cuts it there.\<close>

lemma cstr_cut:
  assumes "cstr buf i = Some s" and "n \<le> length s"
  shows "cstr (buf[nat i + n := NUL]) i = Some (take n s)"
proof -
  note c = cstr_len [OF assms(1)]
  have "drop (nat i) (buf[nat i + n := NUL]) = (drop (nat i) buf)[n := NUL]"
    by (simp add: drop_update_swap)
  also have "\<dots> = take n (drop (nat i) buf) @ NUL # drop (Suc n) (drop (nat i) buf)"
    using c(1) assms(2) by (simp add: upd_conv_take_nth_drop)
  also have "take n (drop (nat i) buf) = take n s"
    using assms(2) c(4) by (metis min.absorb1 take_take)
  finally have d: "drop (nat i) (buf[nat i + n := NUL]) = take n s @ NUL # drop (Suc n) (drop (nat i) buf)" .
  have "takeWhile (\<lambda>c. c \<noteq> NUL) (take n s @ NUL # drop (Suc n) (drop (nat i) buf)) = take n s"
    using c(5) by (intro takeWhile_stop) (auto dest: in_set_takeD)
  then show ?thesis using c(3) by (simp add: cstr_def d)
qed

lemma cstr_other:
  assumes "cstr buf i = Some s" and "k < nat i \<or> nat i + length s < k"
  shows "cstr (buf[k := x]) i = Some s"
proof -
  note c = cstr_len [OF assms(1)]
  have "take (length s) (drop (nat i) (buf[k := x])) = s" "buf[k := x] ! (nat i + length s) = NUL"
    using assms(2) c by (auto simp: drop_update_swap drop_update_cancel)
  then have b: "buf[k := x] = take (nat i) (buf[k := x]) @ s @ NUL # drop (Suc (nat i + length s)) (buf[k := x])"
    using c(1) id_take_nth_drop [of "nat i + length s" "buf[k := x]"]
    by (metis append_assoc length_list_update take_add)
  have "cstr (buf[k := x]) (int (length (take (nat i) (buf[k := x])))) = Some s"
    by (subst b) (rule cstr_append [OF c(5)])
  then show ?thesis using c(1,3) by simp
qed

lemma strpbrk_Some:
  assumes "strpbrk s acc = Some n"
  shows "0 \<le> n" "nat n < length s" "s ! nat n \<in> set acc" "\<And>c. c \<in> set (take (nat n) s) \<Longrightarrow> c \<notin> set acc"
proof -
  let ?P = "\<lambda>c. c \<notin> set acc"
  have n: "n = int (length (takeWhile ?P s))" and l: "length (takeWhile ?P s) < length s"
    using assms by (auto simp: strpbrk_def Let_def split: if_splits)
  show "0 \<le> n" "nat n < length s" using n l by simp_all
  show "s ! nat n \<in> set acc" using nth_length_takeWhile [OF l] n by simp
  show "\<And>c. c \<in> set (take (nat n) s) \<Longrightarrow> c \<notin> set acc"
    using n takeWhile_eq_take [of ?P s] by (auto dest: set_takeWhileD)
qed

lemma strspn_le: "0 \<le> strspn s acc" "nat (strspn s acc) \<le> length s"
  by (simp_all add: strspn_def length_takeWhile_le)

lemma strpbrk_append:
  assumes "set a \<inter> set acc = {}" and "c \<in> set acc"
  shows "strpbrk (a @ c # b) acc = Some (int (length a))"
proof -
  have "takeWhile (\<lambda>c. c \<notin> set acc) (a @ c # b) = a"
    using assms by (intro takeWhile_stop) auto
  then show ?thesis by (simp add: strpbrk_def)
qed

lemma strspn_none: "(case s of [] \<Rightarrow> True | c # _ \<Rightarrow> c \<notin> set acc) \<Longrightarrow> strspn s acc = 0"
  by (simp add: strspn_def split: list.splits)

lemma strncpy_length: "strncpy d i s n = Some d' \<Longrightarrow> length d' = length d"
  by (auto simp: strncpy_def split: if_splits)

lemma vsnprintf_length: "vsnprintf b i n s = Some (l, b') \<Longrightarrow> length b' = length b"
  by (auto simp: vsnprintf_def Let_def split: if_splits)

lemma dec_nat_length: "n < 10 ^ Suc k \<Longrightarrow> length (dec_nat n) \<le> Suc k"
proof (induction k arbitrary: n)
  case 0
  then show ?case by (simp add: dec_nat.simps)
next
  case (Suc k)
  show ?case
  proof (cases "n < 10")
    case False
    have "n div 10 < 10 ^ Suc k" using Suc.prems by (simp add: less_mult_imp_div_less)
    then show ?thesis using Suc.IH [of "n div 10"] False by (simp add: dec_nat.simps [of n])
  qed (simp add: dec_nat.simps)
qed


lemma vsnprintf_fit:
  assumes "length s < n" "i + length s < length buf"
  shows "vsnprintf buf i n s = Some (int (length s), take i buf @ s @ NUL # drop (Suc (i + length s)) buf)"
  using assms by (auto simp: vsnprintf_def)

lemma dec_nat_digits: "set (dec_nat n) \<subseteq> char_of ` {48..57::nat}"
proof (induction n rule: dec_nat.induct)
  case (1 n)
  have "char_of (48 + n mod 10) \<in> char_of ` {48..57::nat}" by (intro imageI) simp
  moreover have "char_of (48 + n) \<in> char_of ` {48..57::nat}" if "n < 10" using that by (intro imageI) simp
  ultimately show ?case using 1 by (subst dec_nat.simps) auto
qed

lemma dec_no_NUL [simp]: "NUL \<notin> set (dec i)"
proof -
  have "char_of n \<noteq> NUL" if "n \<in> {48..57}" for n :: nat
  proof
    assume "char_of n = NUL"
    then have "of_char (char_of n) = (of_char NUL :: nat)" by (rule arg_cong)
    then show False using that by (simp add: take_bit_eq_mod)
  qed
  then have "NUL \<notin> char_of ` {48..57::nat}" by (metis imageE)
  then show ?thesis using dec_nat_digits by (auto simp: dec_def)
qed

end
