(* ===== verification/Posix.thy ===== *)
theory Posix
  imports CText "HOL-Library.Word"
begin

unbundle bit_operations_syntax

text \<open>
  The calls of the operating system the servers make, and the helpers of \<open>epoll/util.h\<close>.  A trace
  is the list of the calls made, the last one first; what a call answers is an argument of the
  definition that makes it.
\<close>

datatype epoll_flag = EPOLLIN | EPOLLOUT | EPOLLET | EPOLLRDHUP | EPOLLONESHOT | EPOLLHUP | EPOLLERR

datatype sig_disp = Sig_handler | Sig_ign

datatype sys_call = Epoll_add int int "epoll_flag list" | Epoll_del int int
  | Epoll_mod int int "epoll_flag list" | Close int | Set_flags int "32 word"
  | Reuse_addr int | Munmap int int | Writev int nat | Print string
  | Send int string | Write int string | Alarm int | Sigaction int sig_disp bool
  | Linger int | Bind int int | Listen int int | Connect int string int | Epoll_create int
  | Kill int int | Shutdown int

type_synonym trace = "sys_call list"

datatype recv_result = Received string | Recv_again | Recv_error | Recv_closed
datatype send_result = Sent nat | Send_again | Send_error

record epoll_event =
  ev_fd :: int
  ev_events :: "epoll_flag list"

text \<open>
  An address, in host byte order, and \<open>inet_ntoa\<close>; an array of \<open>n\<close> zero bytes into which
  \<open>read\<close> has put \<open>s\<close> (\<^const>\<open>None\<close> if that does not fit), and the \<open>std::string\<close> made of it.
\<close>

record sockaddr_in =
  sin_addr :: "32 word"
  sin_port :: "16 word"

definition inet_ntoa :: "32 word \<Rightarrow> string" where
  "inet_ntoa a = dec (uint (drop_bit 24 a AND 0xFF)) @ ''.'' @ dec (uint (drop_bit 16 a AND 0xFF))
     @ ''.'' @ dec (uint (drop_bit 8 a AND 0xFF)) @ ''.'' @ dec (uint (a AND 0xFF))"

definition read_into :: "nat \<Rightarrow> string \<Rightarrow> char list option" where
  "read_into n s = (if length s \<le> n then Some (s @ replicate (n - length s) NUL) else None)"

definition read_string :: "nat \<Rightarrow> string \<Rightarrow> string option" where
  "read_string n s = do { buf \<leftarrow> read_into n s; cstr buf 0 }"

lemma read_string_some:
  assumes "length s < n"
  shows "read_string n s = Some (takeWhile (\<lambda>c. c \<noteq> NUL) s)"
proof -
  obtain k where k: "n - length s = Suc k" using assms by (cases "n - length s") auto
  have "takeWhile (\<lambda>c. c \<noteq> NUL) (s @ NUL # r) = takeWhile (\<lambda>c. c \<noteq> NUL) s" for r
    by (induction s) auto
  then show ?thesis using assms k by (simp add: read_string_def read_into_def cstr_def)
qed

lemma read_string_text: "length s < n \<Longrightarrow> NUL \<notin> set s \<Longrightarrow> read_string n s = Some s"
  by (simp add: read_string_some takeWhile_eq_all_conv) (metis (full_types))

lemma read_string_full: "length s = n \<Longrightarrow> NUL \<notin> set s \<Longrightarrow> read_string n s = None"
  by (simp add: read_string_def read_into_def cstr_def)

text \<open>A text that a server reads whole: shorter than the buffer, without NUL, and not the command.\<close>

definition plain_text :: "string \<Rightarrow> bool" where
  "plain_text s \<longleftrightarrow> s \<noteq> [] \<and> length s < 4096 \<and> NUL \<notin> set s \<and> s \<noteq> ''exit''"

text \<open>The states of a connection, which the server and the client declare alike.\<close>

datatype NetworkState = UnknownSate | Connected | Unconnected | HostLookup | Connecting | Bound
  | Listening | Closing | Disconnect | ManualDisconnect | WaitConnect

text \<open>The answers of \<open>fcntl\<close>: the flags of a descriptor, and whether setting them succeeds.\<close>

record fcntl_answers =
  fc_get :: "int \<Rightarrow> 32 word"
  fc_set :: "int \<Rightarrow> bool"

definition O_NONBLOCK :: "32 word" where "O_NONBLOCK = 0x800"

definition SIGINT :: int where "SIGINT = 2"
definition SIGPIPE :: int where "SIGPIPE = 13"
definition SIGALRM :: int where "SIGALRM = 14"
definition SIGTERM :: int where "SIGTERM = 15"
definition SIGCHLD :: int where "SIGCHLD = 17"

text \<open>The helpers of \<open>epoll/util.h\<close>; \<open>flags\<close> is what \<open>fcntl(fd, F_GETFL)\<close> answers.\<close>

definition util_setnonblocking :: "(int \<Rightarrow> 32 word) \<Rightarrow> int \<Rightarrow> trace \<Rightarrow> 32 word \<times> trace" where
  "util_setnonblocking flags fd tr = (let old_option = flags fd;
      new_option = old_option OR O_NONBLOCK in (old_option, Set_flags fd new_option # tr))"

definition util_addfd :: "(int \<Rightarrow> 32 word) \<Rightarrow> int \<Rightarrow> int \<Rightarrow> bool \<Rightarrow> bool \<Rightarrow> trace \<Rightarrow> trace" where
  "util_addfd flags epollfd fd one_shot bServer tr = (let
      events = (if bServer then (if one_shot then [EPOLLIN, EPOLLET, EPOLLONESHOT] else [EPOLLIN, EPOLLET])
                else [EPOLLOUT, EPOLLET, EPOLLERR]) in
      snd (util_setnonblocking flags fd (Epoll_add epollfd fd events # tr)))"

definition util_removefd :: "int \<Rightarrow> int \<Rightarrow> trace \<Rightarrow> trace" where
  "util_removefd epollfd fd tr = Close fd # Epoll_del epollfd fd # tr"

text \<open>
  \<open>sig_handler\<close> sends the lowest byte of the signal number through the pipe and restores \<open>errno\<close>,
  which its call of \<open>send\<close> sets to \<open>e\<close>.
\<close>

definition sig_byte :: "int \<Rightarrow> char" where
  "sig_byte sig = char_of sig"

definition sig_handler :: "int \<Rightarrow> int \<Rightarrow> int \<Rightarrow> int \<times> trace \<Rightarrow> int \<times> trace" where
  "sig_handler sig_pipefd1 e sig s = (let save_errno = fst s; msg = sig;
      s = (e, Send sig_pipefd1 [sig_byte msg] # snd s) in (save_errno, snd s))"

text \<open>The receiver compares the bytes of the pipe with signal numbers; \<open>char\<close> is signed.\<close>

definition byte_sig :: "char \<Rightarrow> int" where
  "byte_sig c = (let n = of_char c in if n < 128 then n else n - 256)"

text \<open>\<open>addsig\<close>: \<open>ok\<close> says whether \<open>sigaction\<close> succeeds; \<^const>\<open>None\<close> is the failed assertion.\<close>

definition addsig :: "bool \<Rightarrow> int \<Rightarrow> sig_disp \<Rightarrow> bool \<Rightarrow> trace \<Rightarrow> trace option" where
  "addsig ok sig handler restart tr = (if ok then Some (Sigaction sig handler restart # tr) else None)"

lemma byte_sig_byte: "0 \<le> sig \<Longrightarrow> sig < 128 \<Longrightarrow> byte_sig (sig_byte sig) = sig"
  by (simp add: byte_sig_def sig_byte_def)

end
