(* ===== verification/HttpConn.thy ===== *)
theory HttpConn
  imports Posix
begin

unbundle bit_operations_syntax

text \<open>
  The HTTP connection of \<open>epoll/http_conn.h\<close> and \<open>epoll/http_conn.cpp\<close>.  The record holds the
  fields of the object and the two static members; a \<open>char *\<close> into \<open>m_read_buf\<close> is an index
  into it.  A function that reads or writes outside an array, scans past its end, uses a null
  pointer or overflows an \<open>int\<close> is \<^const>\<open>None\<close>.  The kernel is an argument: \<open>http_os\<close> has the
  answers of \<open>fcntl\<close>, \<open>stat\<close>, \<open>open\<close> and \<open>mmap\<close>, and the answers of \<open>recv\<close> and \<open>writev\<close> come as
  lists.  The field \<open>sys_calls\<close> records the calls the object made, the last one first.
\<close>

subsection \<open>State\<close>

datatype METHOD = GET | POST | HEAD | PUT | DELETE | TRACE | OPTIONS | CONNECT | PATCH
datatype CHECK_STATE = CHECK_STATE_REQUESTLINE | CHECK_STATE_HEADER | CHECK_STATE_CONTENT
datatype HTTP_CODE = NO_REQUEST | GET_REQUEST | BAD_REQUEST | NO_RESOURCE | FORBIDDEN_REQUEST
  | FILE_REQUEST | INTERNAL_ERROR | CLOSED_CONNECTION
datatype LINE_STATUS = LINE_OK | LINE_BAD | LINE_OPEN

record file_stat =
  st_mode :: "32 word"
  st_size :: int

record http_os =
  os_flags :: "int \<Rightarrow> 32 word"
  os_stat :: "string \<Rightarrow> file_stat option"
  os_open :: "string \<Rightarrow> int"
  os_mmap :: "int \<Rightarrow> int \<Rightarrow> int"

datatype iov_base = Write_buf | File_address int

record 'a http_conn =
  m_epollfd :: int
  m_user_count :: int
  m_sockfd :: int
  m_address :: 'a
  m_read_buf :: "char list"
  m_read_idx :: int
  m_checked_idx :: int
  m_start_line :: int
  m_write_buf :: "char list"
  m_write_idx :: int
  m_check_state :: CHECK_STATE
  m_method :: METHOD
  m_real_file :: "char list"
  m_url :: "int option"
  m_version :: "int option"
  m_host :: "int option"
  m_content_length :: int
  m_linger :: bool
  m_file_address :: int
  m_file_stat :: file_stat
  m_iv :: "(iov_base \<times> int) list"
  m_iv_count :: int
  m_pTimer :: ptr
  sys_calls :: "sys_call list"

definition FILENAME_LEN :: nat where "FILENAME_LEN = 200"
definition READ_BUFFER_SIZE :: nat where "READ_BUFFER_SIZE = 2048"
definition WRITE_BUFFER_SIZE :: nat where "WRITE_BUFFER_SIZE = 1024"
definition doc_root :: string where "doc_root = ''/var/www/html''"

definition error_400_form :: string where
  "error_400_form = ''Your request has bad syntax or is inherently impossible to satisfy.'' @ [LF]"
definition error_403_form :: string where
  "error_403_form = ''You do not have permission to get file from this server.'' @ [LF]"
definition error_404_form :: string where
  "error_404_form = ''The requested file was not found on this server.'' @ [LF]"
definition error_500_form :: string where
  "error_500_form = ''There was an unusual problem serving the requested file.'' @ [LF]"

definition setTimer :: "ptr \<Rightarrow> 'a http_conn \<Rightarrow> 'a http_conn" where
  "setTimer p c = c\<lparr>m_pTimer := p\<rparr>"

definition getTimer :: "'a http_conn \<Rightarrow> ptr" where
  "getTimer c = m_pTimer c"

subsection \<open>Descriptors\<close>

definition sys :: "sys_call \<Rightarrow> 'a http_conn \<Rightarrow> 'a http_conn" where
  "sys e c = c\<lparr>sys_calls := e # sys_calls c\<rparr>"

definition setnonblocking :: "http_os \<Rightarrow> int \<Rightarrow> 'a http_conn \<Rightarrow> 32 word \<times> 'a http_conn" where
  "setnonblocking os fd c = (let old_option = os_flags os fd;
       new_option = old_option OR O_NONBLOCK in (old_option, sys (Set_flags fd new_option) c))"

definition addfd :: "http_os \<Rightarrow> int \<Rightarrow> int \<Rightarrow> bool \<Rightarrow> 'a http_conn \<Rightarrow> 'a http_conn" where
  "addfd os epollfd fd one_shot c = (let events = [EPOLLIN, EPOLLET, EPOLLRDHUP] @
         (if one_shot then [EPOLLONESHOT] else []);
       c = sys (Epoll_add epollfd fd events) c in snd (setnonblocking os fd c))"

definition removefd :: "int \<Rightarrow> int \<Rightarrow> 'a http_conn \<Rightarrow> 'a http_conn" where
  "removefd epollfd fd c = sys (Close fd) (sys (Epoll_del epollfd fd) c)"

definition modfd :: "int \<Rightarrow> int \<Rightarrow> epoll_flag \<Rightarrow> 'a http_conn \<Rightarrow> 'a http_conn" where
  "modfd epollfd fd ev c = sys (Epoll_mod epollfd fd [ev, EPOLLET, EPOLLONESHOT, EPOLLRDHUP]) c"

definition close_conn :: "bool \<Rightarrow> 'a http_conn \<Rightarrow> 'a http_conn" where
  "close_conn real_close c = (if real_close \<and> m_sockfd c \<noteq> -1
     then (let c = removefd (m_epollfd c) (m_sockfd c) c in
       c\<lparr>m_sockfd := -1, m_user_count := m_user_count c - 1\<rparr>) else c)"

definition init_request :: "'a http_conn \<Rightarrow> 'a http_conn" where
  "init_request c = c\<lparr>m_check_state := CHECK_STATE_REQUESTLINE, m_linger := False,
     m_method := GET, m_url := None, m_version := None, m_content_length := 0, m_host := None,
     m_start_line := 0, m_checked_idx := 0, m_read_idx := 0, m_write_idx := 0,
     m_read_buf := replicate READ_BUFFER_SIZE NUL, m_write_buf := replicate WRITE_BUFFER_SIZE NUL,
     m_real_file := replicate FILENAME_LEN NUL\<rparr>"

definition init :: "http_os \<Rightarrow> int \<Rightarrow> 'a \<Rightarrow> 'a http_conn \<Rightarrow> 'a http_conn" where
  "init os sockfd addr c = (let
       c = c\<lparr>m_sockfd := sockfd, m_address := addr\<rparr>;
       c = sys (Reuse_addr sockfd) c;
       c = addfd os (m_epollfd c) sockfd True c;
       c = c\<lparr>m_user_count := m_user_count c + 1\<rparr> in init_request c)"

subsection \<open>Reading\<close>

text \<open>
  The loop of \<open>read\<close>; the list has the results of its calls of \<open>recv\<close>, and the function is
  \<^const>\<open>None\<close> if the list ends before the loop does or if a result does not fit the buffer the
  call passed.
\<close>

fun read_loop :: "recv_result list \<Rightarrow> 'a http_conn \<Rightarrow> (bool \<times> 'a http_conn) option" where
  "read_loop [] c = None"
| "read_loop (r # rs) c = (case r of
      Recv_again \<Rightarrow> Some (True, c)
    | Recv_error \<Rightarrow> Some (False, c)
    | Recv_closed \<Rightarrow> Some (False, c)
    | Received s \<Rightarrow> (if s \<noteq> [] \<and> m_read_idx c \<ge> 0 \<and> m_read_idx c + int (length s) \<le> int READ_BUFFER_SIZE
        then read_loop rs (c\<lparr>m_read_buf := take (nat (m_read_idx c)) (m_read_buf c) @ s
               @ drop (nat (m_read_idx c) + length s) (m_read_buf c),
             m_read_idx := m_read_idx c + int (length s)\<rparr>)
        else None))"

definition http_read :: "recv_result list \<Rightarrow> 'a http_conn \<Rightarrow> (bool \<times> 'a http_conn) option" where
  "http_read rs c = (if m_read_idx c \<ge> int READ_BUFFER_SIZE then Some (False, c) else read_loop rs c)"

subsection \<open>Parsing\<close>

partial_function (option) parse_line_loop ::
  "char list \<Rightarrow> int \<Rightarrow> int \<Rightarrow> (LINE_STATUS \<times> char list \<times> int) option" where
  "parse_line_loop buf i n = (if i < n then do {
      temp \<leftarrow> arr_get buf i;
      if temp = CR then
        (if i + 1 = n then Some (LINE_OPEN, buf, i)
         else do {
           d \<leftarrow> arr_get buf (i + 1);
           if d = LF then do {
             buf \<leftarrow> arr_set buf i NUL;
             buf \<leftarrow> arr_set buf (i + 1) NUL;
             Some (LINE_OK, buf, i + 2) }
           else Some (LINE_BAD, buf, i) })
      else if temp = LF then do {
        b \<leftarrow> (if i > 1 then do { d \<leftarrow> arr_get buf (i - 1); Some (d = CR) } else Some False);
        if b then do {
          buf \<leftarrow> arr_set buf (i - 1) NUL;
          buf \<leftarrow> arr_set buf i NUL;
          Some (LINE_OK, buf, i + 1) }
        else Some (LINE_BAD, buf, i) }
      else parse_line_loop buf (i + 1) n }
    else Some (LINE_OPEN, buf, i))"

definition parse_line :: "'a http_conn \<Rightarrow> (LINE_STATUS \<times> 'a http_conn) option" where
  "parse_line c = do {
     (st, buf, i) \<leftarrow> parse_line_loop (m_read_buf c) (m_checked_idx c) (m_read_idx c);
     Some (st, c\<lparr>m_read_buf := buf, m_checked_idx := i\<rparr>) }"

declare parse_line_loop.simps [code]

text \<open>\<open>strpbrk(text, " \\t")\<close> as an index, and \<open>p + strspn(p, " \\t")\<close>.\<close>

definition find_blank :: "char list \<Rightarrow> int \<Rightarrow> int option option" where
  "find_blank buf p = do { s \<leftarrow> cstr buf p; Some (map_option (\<lambda>n. p + n) (strpbrk s blanks)) }"

definition skip_blanks :: "char list \<Rightarrow> int \<Rightarrow> int option" where
  "skip_blanks buf p = do { s \<leftarrow> cstr buf p; Some (p + strspn s blanks) }"

definition skip_scheme :: "char list \<Rightarrow> int \<Rightarrow> int option option" where
  "skip_scheme buf url = do {
     s \<leftarrow> cstr buf url;
     if strncase_eq s ''http://'' 7 then do {
       s \<leftarrow> cstr buf (url + 7);
       Some (map_option (\<lambda>n. url + 7 + n) (strpbrk s ''/'')) }
     else Some (Some url) }"

definition parse_request_line :: "int \<Rightarrow> 'a http_conn \<Rightarrow> (HTTP_CODE \<times> 'a http_conn) option" where
  "parse_request_line text c = do {
     url \<leftarrow> find_blank (m_read_buf c) text;
     let c = c\<lparr>m_url := url\<rparr>;
     case url of None \<Rightarrow> Some (BAD_REQUEST, c) | Some u \<Rightarrow> do {
     buf \<leftarrow> arr_set (m_read_buf c) u NUL;
     let c = c\<lparr>m_read_buf := buf, m_url := Some (u + 1)\<rparr>;
     meth \<leftarrow> cstr (m_read_buf c) text;
     if \<not> strcase_eq meth ''GET'' then Some (BAD_REQUEST, c) else do {
     let c = c\<lparr>m_method := GET\<rparr>;
     u \<leftarrow> skip_blanks (m_read_buf c) (u + 1);
     let c = c\<lparr>m_url := Some u\<rparr>;
     version \<leftarrow> find_blank (m_read_buf c) u;
     let c = c\<lparr>m_version := version\<rparr>;
     case version of None \<Rightarrow> Some (BAD_REQUEST, c) | Some v \<Rightarrow> do {
     buf \<leftarrow> arr_set (m_read_buf c) v NUL;
     v \<leftarrow> skip_blanks buf (v + 1);
     let c = c\<lparr>m_read_buf := buf, m_version := Some v\<rparr>;
     vs \<leftarrow> cstr (m_read_buf c) v;
     if \<not> strcase_eq vs ''HTTP/1.1'' then Some (BAD_REQUEST, c) else do {
     url \<leftarrow> skip_scheme (m_read_buf c) u;
     let c = c\<lparr>m_url := url\<rparr>;
     case url of None \<Rightarrow> Some (BAD_REQUEST, c) | Some u \<Rightarrow> do {
     d \<leftarrow> arr_get (m_read_buf c) u;
     if d \<noteq> CHR ''/'' then Some (BAD_REQUEST, c)
     else Some (NO_REQUEST, c\<lparr>m_check_state := CHECK_STATE_HEADER\<rparr>) }}}}}}"

definition parse_headers :: "int \<Rightarrow> 'a http_conn \<Rightarrow> (HTTP_CODE \<times> 'a http_conn) option" where
  "parse_headers text c = do {
     s \<leftarrow> cstr (m_read_buf c) text;
     if s = [] then
       (if m_method c = HEAD then Some (GET_REQUEST, c)
        else if m_content_length c \<noteq> 0 then Some (NO_REQUEST, c\<lparr>m_check_state := CHECK_STATE_CONTENT\<rparr>)
        else Some (GET_REQUEST, c))
     else if strncase_eq s ''Connection:'' 11 then do {
       text \<leftarrow> skip_blanks (m_read_buf c) (text + 11);
       s \<leftarrow> cstr (m_read_buf c) text;
       Some (NO_REQUEST, if strcase_eq s ''keep-alive'' then c\<lparr>m_linger := True\<rparr> else c) }
     else if strncase_eq s ''Content-Length:'' 15 then do {
       text \<leftarrow> skip_blanks (m_read_buf c) (text + 15);
       s \<leftarrow> cstr (m_read_buf c) text;
       v \<leftarrow> atol s;
       Some (NO_REQUEST, c\<lparr>m_content_length := to_int v\<rparr>) }
     else if strncase_eq s ''Host:'' 5 then do {
       text \<leftarrow> skip_blanks (m_read_buf c) (text + 5);
       Some (NO_REQUEST, c\<lparr>m_host := Some text\<rparr>) }
     else Some (NO_REQUEST, sys (Print (''oop! unknow header '' @ s @ [LF])) c) }"

definition parse_content :: "int \<Rightarrow> 'a http_conn \<Rightarrow> (HTTP_CODE \<times> 'a http_conn) option" where
  "parse_content text c = do {
     e \<leftarrow> add_int (m_content_length c) (m_checked_idx c);
     if m_read_idx c \<ge> e then do {
       buf \<leftarrow> arr_set (m_read_buf c) (text + m_content_length c) NUL;
       Some (GET_REQUEST, c\<lparr>m_read_buf := buf\<rparr>) }
     else Some (NO_REQUEST, c) }"

definition S_IROTH :: "32 word" where "S_IROTH = 4"
definition S_ISDIR :: "32 word \<Rightarrow> bool" where "S_ISDIR m \<longleftrightarrow> m AND 0xF000 = 0x4000"

definition do_request :: "http_os \<Rightarrow> 'a http_conn \<Rightarrow> (HTTP_CODE \<times> 'a http_conn) option" where
  "do_request os c = do {
     f \<leftarrow> strcpy (m_real_file c) doc_root;
     let len = length doc_root;
     u \<leftarrow> m_url c;
     url \<leftarrow> cstr (m_read_buf c) u;
     f \<leftarrow> strncpy f len url (FILENAME_LEN - len - 1);
     let c = c\<lparr>m_real_file := f\<rparr>;
     path \<leftarrow> cstr f 0;
     case os_stat os path of None \<Rightarrow> Some (NO_RESOURCE, c) | Some st \<Rightarrow> do {
     let c = c\<lparr>m_file_stat := st\<rparr>;
     if st_mode st AND S_IROTH = 0 then Some (FORBIDDEN_REQUEST, c)
     else if S_ISDIR (st_mode st) then Some (BAD_REQUEST, c)
     else do {
       let fd = os_open os path;
       let c = sys (Close fd) (c\<lparr>m_file_address := os_mmap os fd (st_size st)\<rparr>);
       Some (FILE_REQUEST, c) } } }"

text \<open>
  The loop of \<open>process_read\<close> with its local variable \<open>line_status\<close>; \<open>line_step\<close> is its body, whose
  result is the value the function returns or the new line status.
\<close>

definition line_step ::
  "http_os \<Rightarrow> 'a http_conn \<Rightarrow> ((HTTP_CODE + LINE_STATUS) \<times> 'a http_conn) option" where
  "line_step os c = do {
     let text = m_start_line c;
     let c = c\<lparr>m_start_line := m_checked_idx c\<rparr>;
     s \<leftarrow> cstr (m_read_buf c) text;
     let c = sys (Print (''got 1 http line: '' @ s @ [LF])) c;
     case m_check_state c of
       CHECK_STATE_REQUESTLINE \<Rightarrow> do {
         (ret, c) \<leftarrow> parse_request_line text c;
         Some (if ret = BAD_REQUEST then Inl BAD_REQUEST else Inr LINE_OK, c) }
     | CHECK_STATE_HEADER \<Rightarrow> do {
         (ret, c) \<leftarrow> parse_headers text c;
         if ret = BAD_REQUEST then Some (Inl BAD_REQUEST, c)
         else if ret = GET_REQUEST then do { (r, c) \<leftarrow> do_request os c; Some (Inl r, c) }
         else Some (Inr LINE_OK, c) }
     | CHECK_STATE_CONTENT \<Rightarrow> do {
         (ret, c) \<leftarrow> parse_content text c;
         if ret = GET_REQUEST then do { (r, c) \<leftarrow> do_request os c; Some (Inl r, c) }
         else Some (Inr LINE_OPEN, c) } }"

definition loop_condition :: "LINE_STATUS \<Rightarrow> 'a http_conn \<Rightarrow> (LINE_STATUS \<times> 'a http_conn) option" where
  "loop_condition line_status c =
     (if m_check_state c = CHECK_STATE_CONTENT \<and> line_status = LINE_OK then Some (LINE_OK, c)
      else parse_line c)"

partial_function (option) process_read_loop ::
  "http_os \<Rightarrow> LINE_STATUS \<Rightarrow> 'a http_conn \<Rightarrow> (HTTP_CODE \<times> 'a http_conn) option" where
  "process_read_loop os line_status c = do {
     (line_status, c) \<leftarrow> loop_condition line_status c;
     if line_status = LINE_OK then do {
       (r, c) \<leftarrow> line_step os c;
       case r of Inl ret \<Rightarrow> Some (ret, c) | Inr line_status \<Rightarrow> process_read_loop os line_status c }
     else Some (NO_REQUEST, c) }"

declare process_read_loop.simps [code]

definition process_read :: "http_os \<Rightarrow> 'a http_conn \<Rightarrow> (HTTP_CODE \<times> 'a http_conn) option" where
  "process_read os c = process_read_loop os LINE_OK c"

subsection \<open>Writing\<close>

definition unmap :: "'a http_conn \<Rightarrow> 'a http_conn" where
  "unmap c = (if m_file_address c \<noteq> 0
     then (sys (Munmap (m_file_address c) (st_size (m_file_stat c))) c)\<lparr>m_file_address := 0\<rparr> else c)"

text \<open>The loop of \<open>write\<close>; the list has the results of \<open>writev\<close>.\<close>

fun write_loop :: "send_result list \<Rightarrow> int \<Rightarrow> int \<Rightarrow> 'a http_conn \<Rightarrow> (bool \<times> 'a http_conn) option" where
  "write_loop [] bytes_to_send bytes_have_send c = None"
| "write_loop (r # rs) bytes_to_send bytes_have_send c = (case r of
      Send_again \<Rightarrow> Some (True, modfd (m_epollfd c) (m_sockfd c) EPOLLOUT c)
    | Send_error \<Rightarrow> Some (False, unmap c)
    | Sent temp \<Rightarrow> (let
        c = sys (Writev (m_sockfd c) temp) c;
        bytes_to_send = bytes_to_send - int temp;
        bytes_have_send = bytes_have_send + int temp in
        if bytes_to_send \<le> bytes_have_send then
          (let c = unmap c in
           if m_linger c then (let c = init_request c in
             Some (True, modfd (m_epollfd c) (m_sockfd c) EPOLLIN c))
           else Some (False, modfd (m_epollfd c) (m_sockfd c) EPOLLIN c))
        else write_loop rs bytes_to_send bytes_have_send c))"

definition http_write :: "send_result list \<Rightarrow> 'a http_conn \<Rightarrow> (bool \<times> 'a http_conn) option" where
  "http_write rs c = (let bytes_to_send = m_write_idx c in
     if bytes_to_send = 0 then
       Some (True, init_request (modfd (m_epollfd c) (m_sockfd c) EPOLLIN c))
     else write_loop rs bytes_to_send 0 c)"

text \<open>\<open>add_response\<close>, whose argument is the expansion of the format.\<close>

definition add_response :: "string \<Rightarrow> 'a http_conn \<Rightarrow> (bool \<times> 'a http_conn) option" where
  "add_response s c = (if m_write_idx c \<ge> int WRITE_BUFFER_SIZE then Some (False, c) else do {
     (len, buf) \<leftarrow> vsnprintf (m_write_buf c) (nat (m_write_idx c))
         (nat (int WRITE_BUFFER_SIZE - 1 - m_write_idx c)) s;
     let c = c\<lparr>m_write_buf := buf\<rparr>;
     if len \<ge> int WRITE_BUFFER_SIZE - 1 - m_write_idx c then Some (False, c)
     else Some (True, c\<lparr>m_write_idx := m_write_idx c + len\<rparr>) })"

definition status_line :: "int \<Rightarrow> string \<Rightarrow> string" where
  "status_line status title = ''HTTP/1.1'' @ '' '' @ dec status @ '' '' @ title @ crlf"

definition content_length_line :: "int \<Rightarrow> string" where
  "content_length_line n = ''Content-Length: '' @ dec n @ crlf"

definition connection_line :: "bool \<Rightarrow> string" where
  "connection_line linger = ''Connection: '' @ (if linger then ''keep-alive'' else ''close'') @ crlf"

definition add_status_line :: "int \<Rightarrow> string \<Rightarrow> 'a http_conn \<Rightarrow> (bool \<times> 'a http_conn) option" where
  "add_status_line status title = add_response (status_line status title)"

definition add_content_length :: "int \<Rightarrow> 'a http_conn \<Rightarrow> (bool \<times> 'a http_conn) option" where
  "add_content_length n = add_response (content_length_line n)"

definition add_linger :: "'a http_conn \<Rightarrow> (bool \<times> 'a http_conn) option" where
  "add_linger c = add_response (connection_line (m_linger c)) c"

definition add_blank_line :: "'a http_conn \<Rightarrow> (bool \<times> 'a http_conn) option" where
  "add_blank_line = add_response crlf"

definition add_content :: "string \<Rightarrow> 'a http_conn \<Rightarrow> (bool \<times> 'a http_conn) option" where
  "add_content content = add_response content"

text \<open>\<open>add_headers\<close> has no return statement; no caller uses its result.\<close>

definition add_headers :: "int \<Rightarrow> 'a http_conn \<Rightarrow> 'a http_conn option" where
  "add_headers content_len c = do {
     (_, c) \<leftarrow> add_content_length content_len c;
     (_, c) \<leftarrow> add_linger c;
     (_, c) \<leftarrow> add_blank_line c;
     Some c }"

text \<open>The four error answers, which differ in the status, the title and the text only.\<close>

definition error_response :: "int \<Rightarrow> string \<Rightarrow> string \<Rightarrow> 'a http_conn \<Rightarrow> (bool \<times> 'a http_conn) option" where
  "error_response status title form c = do {
     (_, c) \<leftarrow> add_status_line status title c;
     c \<leftarrow> add_headers (int (length form)) c;
     (ok, c) \<leftarrow> add_content form c;
     if \<not> ok then Some (False, c)
     else Some (True, c\<lparr>m_iv := (m_iv c)[0 := (Write_buf, m_write_idx c)], m_iv_count := 1\<rparr>) }"

definition process_write :: "HTTP_CODE \<Rightarrow> 'a http_conn \<Rightarrow> (bool \<times> 'a http_conn) option" where
  "process_write ret c = (case ret of
      INTERNAL_ERROR \<Rightarrow> error_response 500 ''Internal Error'' error_500_form c
    | BAD_REQUEST \<Rightarrow> error_response 400 ''Bad Request'' error_400_form c
    | NO_RESOURCE \<Rightarrow> error_response 404 ''Not Found'' error_404_form c
    | FORBIDDEN_REQUEST \<Rightarrow> error_response 403 ''Forbidden'' error_403_form c
    | FILE_REQUEST \<Rightarrow> do {
        (_, c) \<leftarrow> add_status_line 200 ''OK'' c;
        if st_size (m_file_stat c) \<noteq> 0 then do {
          c \<leftarrow> add_headers (to_int (st_size (m_file_stat c))) c;
          Some (True, c\<lparr>m_iv := [(Write_buf, m_write_idx c),
                 (File_address (m_file_address c), st_size (m_file_stat c))], m_iv_count := 2\<rparr>) }
        else do {
          let ok_string = ''<html><body></body></html>'';
          c \<leftarrow> add_headers (int (length ok_string)) c;
          (_, c) \<leftarrow> add_content ok_string c;
          Some (False, c) } }
    | _ \<Rightarrow> Some (False, c))"

definition process :: "http_os \<Rightarrow> 'a http_conn \<Rightarrow> 'a http_conn option" where
  "process os c = do {
     (read_ret, c) \<leftarrow> process_read os c;
     if read_ret = NO_REQUEST then Some (modfd (m_epollfd c) (m_sockfd c) EPOLLIN c)
     else do {
       (write_ret, c) \<leftarrow> process_write read_ret c;
       let c = (if \<not> write_ret then close_conn True c else c);
       Some (modfd (m_epollfd c) (m_sockfd c) EPOLLOUT c) } }"

end
