(* ===== verification/HttpConn_Line.thy ===== *)
theory HttpConn_Line
  imports HttpConn
begin

text \<open>
  What \<open>parse_line\<close> of \<open>epoll/http_conn.cpp\<close> computes: the first line end after the scanned part,
  independently of how the bytes arrived.
\<close>

subsection \<open>The first line end\<close>

definition line_end :: "char list \<Rightarrow> nat \<Rightarrow> nat \<Rightarrow> nat" where
  "line_end buf i n = i + length (takeWhile (\<lambda>c. c \<noteq> CR \<and> c \<noteq> LF) (drop i (take n buf)))"

text \<open>
  \<open>i\<close> characters of the buffer are scanned and \<open>n\<close> are filled: the status, the buffer with the
  line end overwritten, and the number of characters scanned afterwards.
\<close>

definition line_spec :: "char list \<Rightarrow> nat \<Rightarrow> nat \<Rightarrow> LINE_STATUS \<times> char list \<times> nat" where
  "line_spec buf i n = (let j = line_end buf i n in
     if j = n then (LINE_OPEN, buf, n)
     else if buf ! j = LF then (LINE_BAD, buf, j)
     else if j + 1 = n then (LINE_OPEN, buf, j)
     else if buf ! (j + 1) = LF then (LINE_OK, buf[j := NUL, j + 1 := NUL], j + 2)
     else (LINE_BAD, buf, j))"

lemma line_end_step:
  assumes "i < n" "n \<le> length buf" "buf ! i \<noteq> CR" "buf ! i \<noteq> LF"
  shows "line_end buf i n = line_end buf (Suc i) n"
proof -
  have "drop i (take n buf) = buf ! i # drop (Suc i) (take n buf)"
    using assms(1,2) Cons_nth_drop_Suc [of i "take n buf"] by simp
  then show ?thesis using assms(3,4) by (simp add: line_end_def)
qed

lemma line_end_here:
  assumes "i < n" "n \<le> length buf" "buf ! i = CR \<or> buf ! i = LF"
  shows "line_end buf i n = i"
proof -
  have "drop i (take n buf) = buf ! i # drop (Suc i) (take n buf)"
    using assms(1,2) Cons_nth_drop_Suc [of i "take n buf"] by simp
  then show ?thesis using assms(3) by (auto simp: line_end_def)
qed

lemma line_end_full: "n \<le> length buf \<Longrightarrow> line_end buf n n = n"
  by (simp add: line_end_def)

lemma line_end_bounds:
  assumes "i \<le> n" "n \<le> length buf"
  shows "i \<le> line_end buf i n" "line_end buf i n \<le> n"
  using assms length_takeWhile_le [of "\<lambda>c. c \<noteq> CR \<and> c \<noteq> LF" "drop i (take n buf)"]
  by (simp_all add: line_end_def)

lemma line_end_char:
  assumes "i \<le> n" "n \<le> length buf" "line_end buf i n < n"
  shows "buf ! line_end buf i n = CR \<or> buf ! line_end buf i n = LF"
  using assms(3,1,2)
proof (induction "n - i" arbitrary: i)
  case 0 then show ?case by (simp add: line_end_full)
next
  case (Suc d)
  then have "i < n" by simp
  show ?case
  proof (cases "buf ! i = CR \<or> buf ! i = LF")
    case True then show ?thesis using line_end_here [OF \<open>i < n\<close> Suc.prems(3)] by simp
  next
    case False
    then have e: "line_end buf i n = line_end buf (Suc i) n"
      using line_end_step [OF \<open>i < n\<close> Suc.prems(3)] by simp
    show ?thesis using Suc.hyps(1) [of "Suc i"] Suc.hyps(2) Suc.prems \<open>i < n\<close> unfolding e by simp
  qed
qed

lemma line_end_before:
  assumes "i \<le> n" "n \<le> length buf" "i \<le> k" "k < line_end buf i n"
  shows "buf ! k \<noteq> CR \<and> buf ! k \<noteq> LF"
  using assms
proof (induction "n - i" arbitrary: i)
  case 0 then show ?case by (simp add: line_end_full)
next
  case (Suc d)
  then have "i < n" by simp
  show ?case
  proof (cases "buf ! i = CR \<or> buf ! i = LF")
    case True then show ?thesis using line_end_here [OF \<open>i < n\<close> Suc.prems(2)] Suc.prems by simp
  next
    case False
    then have e: "line_end buf i n = line_end buf (Suc i) n"
      using line_end_step [OF \<open>i < n\<close> Suc.prems(2)] by simp
    show ?thesis
    proof (cases "k = i")
      case True then show ?thesis using False by simp
    next
      case False
      then show ?thesis using Suc.hyps(1) [of "Suc i"] Suc.hyps(2) Suc.prems \<open>i < n\<close> e by simp
    qed
  qed
qed

subsection \<open>The loop\<close>

definition int_result :: "LINE_STATUS \<times> char list \<times> nat \<Rightarrow> LINE_STATUS \<times> char list \<times> int" where
  "int_result r = (case r of (st, buf, i) \<Rightarrow> (st, buf, int i))"

lemma parse_line_loop_end: "\<not> i < n \<Longrightarrow> parse_line_loop buf i n = Some (LINE_OPEN, buf, i)"
  by (subst parse_line_loop.simps) simp

lemma parse_line_loop_step:
  assumes "i < n" "n \<le> length buf" "buf ! i \<noteq> CR" "buf ! i \<noteq> LF"
  shows "parse_line_loop buf (int i) (int n) = parse_line_loop buf (int (Suc i)) (int n)"
  using assms by (subst parse_line_loop.simps) (simp add: arr_get_nat add.commute)

lemma parse_line_loop_CR:
  assumes "i < n" "n \<le> length buf" "buf ! i = CR"
  shows "parse_line_loop buf (int i) (int n) =
    (if i + 1 = n then Some (LINE_OPEN, buf, int i)
     else if buf ! (i + 1) = LF then Some (LINE_OK, buf[i := NUL, i + 1 := NUL], int i + 2)
     else Some (LINE_BAD, buf, int i))"
proof -
  have "arr_get buf (int i) = Some CR"
    "i + 1 \<noteq> n \<Longrightarrow> arr_get buf (int i + 1) = Some (buf ! (i + 1))"
    "arr_set buf (int i) NUL = Some (buf[i := NUL])"
    "i + 1 \<noteq> n \<Longrightarrow> arr_set (buf[i := NUL]) (int i + 1) NUL = Some (buf[i := NUL, i + 1 := NUL])"
    using assms by (auto simp: arr_get_def arr_set_def nat_add_distrib)
  then show ?thesis using assms(1)
    by (subst parse_line_loop.simps) (auto simp del: One_nat_def)
qed

lemma parse_line_loop_LF:
  assumes "i < n" "n \<le> length buf" "buf ! i = LF" and "0 < i \<Longrightarrow> buf ! (i - 1) \<noteq> CR"
  shows "parse_line_loop buf (int i) (int n) = Some (LINE_BAD, buf, int i)"
proof -
  have "arr_get buf (int i) = Some LF"
    "int i > 1 \<Longrightarrow> arr_get buf (int i - 1) = Some (buf ! (i - 1))"
    using assms by (auto simp: arr_get_def nat_diff_distrib)
  then show ?thesis using assms(1,4)
    by (subst parse_line_loop.simps) (auto simp del: One_nat_def)
qed

lemma parse_line_loop_spec:
  assumes "i \<le> n" "n \<le> length buf" and "0 < i \<Longrightarrow> buf ! (i - 1) \<noteq> CR"
  shows "parse_line_loop buf (int i) (int n) = Some (int_result (line_spec buf i n))"
  using assms
proof (induction "n - i" arbitrary: i)
  case 0
  then show ?case by (simp add: parse_line_loop_end line_spec_def line_end_full int_result_def)
next
  case (Suc d)
  then have l: "i < n" by simp
  consider "buf ! i = CR" | "buf ! i = LF" | "buf ! i \<noteq> CR" "buf ! i \<noteq> LF" by blast
  then show ?case
  proof cases
    case 1
    then show ?thesis using l Suc.prems(2)
      by (simp add: parse_line_loop_CR line_spec_def line_end_here int_result_def Let_def)
  next
    case 2
    then show ?thesis using l Suc.prems
      by (simp add: parse_line_loop_LF line_spec_def line_end_here int_result_def)
  next
    case 3
    have "parse_line_loop buf (int (Suc i)) (int n) = Some (int_result (line_spec buf (Suc i) n))"
      using Suc.hyps(1) [of "Suc i"] Suc.hyps(2) Suc.prems(2) l 3 by simp
    then show ?thesis using parse_line_loop_step [OF l Suc.prems(2) 3] line_end_step [OF l Suc.prems(2) 3]
      by (simp add: line_spec_def)
  qed
qed

text \<open>The shape of the four results.\<close>

lemma line_spec_cases:
  assumes "i \<le> n" "n \<le> length buf"
  obtains (ok) j where "i \<le> j" "j + 2 \<le> n" "buf ! j = CR" "buf ! (j + 1) = LF"
      "line_spec buf i n = (LINE_OK, buf[j := NUL, j + 1 := NUL], j + 2)"
    | (stay) st j where "st \<noteq> LINE_OK" "i \<le> j" "j \<le> n" "line_spec buf i n = (st, buf, j)"
      "\<And>k. i \<le> k \<Longrightarrow> k < j \<Longrightarrow> buf ! k \<noteq> CR"
proof -
  let ?j = "line_end buf i n"
  note b = line_end_bounds [OF assms] and c = line_end_char [OF assms]
  have before: "\<And>k. i \<le> k \<Longrightarrow> k < ?j \<Longrightarrow> buf ! k \<noteq> CR" using line_end_before [OF assms] by blast
  show thesis
  proof (cases "?j \<noteq> n \<and> buf ! ?j \<noteq> LF \<and> ?j + 1 \<noteq> n \<and> buf ! (?j + 1) = LF")
    case True
    then show ?thesis using b c by (intro ok [of ?j]) (auto simp: line_spec_def Let_def)
  next
    case False
    then have "\<exists>st. st \<noteq> LINE_OK \<and> line_spec buf i n = (st, buf, ?j)"
      by (auto simp: line_spec_def Let_def)
    then show ?thesis using stay [of _ ?j] b before by blast
  qed
qed

subsection \<open>Resuming\<close>

lemma parse_line_loop_skip:
  assumes "i \<le> j" "j \<le> n" "n \<le> length buf" and "\<And>k. i \<le> k \<Longrightarrow> k < j \<Longrightarrow> buf ! k \<noteq> CR \<and> buf ! k \<noteq> LF"
  shows "parse_line_loop buf (int i) (int n) = parse_line_loop buf (int j) (int n)"
  using assms
proof (induction "j - i" arbitrary: i)
  case 0 then show ?case by simp
next
  case (Suc d)
  then have "i < n" "i < j" by simp_all
  then have "parse_line_loop buf (int i) (int n) = parse_line_loop buf (int (Suc i)) (int n)"
    using Suc.prems by (intro parse_line_loop_step) auto
  then show ?case using Suc.hyps(1) [of "Suc i"] Suc.hyps(2) Suc.prems by simp
qed

text \<open>A connection of the descriptor 5 that has received the text \<open>s\<close>.\<close>

definition conn_after :: "string \<Rightarrow> unit http_conn" where
  "conn_after s = \<lparr>m_epollfd = 3, m_user_count = 1, m_sockfd = 5, m_address = (),
     m_read_buf = s @ replicate (READ_BUFFER_SIZE - length s) NUL, m_read_idx = int (length s),
     m_checked_idx = 0, m_start_line = 0, m_write_buf = replicate WRITE_BUFFER_SIZE NUL,
     m_write_idx = 0, m_check_state = CHECK_STATE_REQUESTLINE, m_method = GET,
     m_real_file = replicate FILENAME_LEN NUL, m_url = None, m_version = None, m_host = None,
     m_content_length = 0, m_linger = False, m_file_address = 0,
     m_file_stat = \<lparr>st_mode = 0, st_size = 0\<rparr>, m_iv = [(Write_buf, 0), (Write_buf, 0)],
     m_iv_count = 0, m_pTimer = NULL, sys_calls = []\<rparr>"

text \<open>C11: parse_line computes the first line end of the filled part of the buffer: LINE_OK and both
  characters overwritten by NUL if it is CR LF, LINE_BAD if it is a lone LF or a CR followed by
  something else, LINE_OPEN if there is none or only the CR has arrived.  No access is outside the
  buffer and nothing else of the connection changes.\<close>

theorem http_parse_line_correct:
  assumes "length (m_read_buf c) = READ_BUFFER_SIZE" and "0 \<le> m_checked_idx c"
    and "m_checked_idx c \<le> m_read_idx c" and "m_read_idx c \<le> int READ_BUFFER_SIZE"
    and "0 < m_checked_idx c \<Longrightarrow> m_read_buf c ! (nat (m_checked_idx c) - 1) \<noteq> CR"
  shows "parse_line c = (case line_spec (m_read_buf c) (nat (m_checked_idx c)) (nat (m_read_idx c)) of
    (st, buf, i) \<Rightarrow> Some (st, c\<lparr>m_read_buf := buf, m_checked_idx := int i\<rparr>))"
proof -
  have "parse_line_loop (m_read_buf c) (m_checked_idx c) (m_read_idx c) =
      Some (int_result (line_spec (m_read_buf c) (nat (m_checked_idx c)) (nat (m_read_idx c))))"
    using parse_line_loop_spec [of "nat (m_checked_idx c)" "nat (m_read_idx c)" "m_read_buf c"] assms
    by simp
  then show ?thesis by (simp add: parse_line_def int_result_def split: prod.splits)
qed

theorem http_parse_line_correct_witness:
  "\<exists>c. parse_line (conn_after (''ab'' @ crlf)) = Some (LINE_OK, c) \<and> m_checked_idx c = 4"
proof -
  let ?c = "conn_after (''ab'' @ crlf)"
  have e: "nat (m_checked_idx ?c) = 0" "nat (m_read_idx ?c) = 4" by (simp_all add: conn_after_def)
  have "line_end (m_read_buf ?c) 0 4 = 2" by (simp add: line_end_def conn_after_def)
  then have l: "line_spec (m_read_buf ?c) 0 4 = (LINE_OK, (m_read_buf ?c)[2 := NUL, 3 := NUL], 4)"
    by (simp add: line_spec_def conn_after_def Let_def)
  have "parse_line ?c = (case line_spec (m_read_buf ?c) (nat (m_checked_idx ?c)) (nat (m_read_idx ?c)) of
    (st, buf, i) \<Rightarrow> Some (st, ?c\<lparr>m_read_buf := buf, m_checked_idx := int i\<rparr>))"
    by (rule http_parse_line_correct) (simp_all add: conn_after_def READ_BUFFER_SIZE_def)
  then show ?thesis unfolding e l by simp
qed

text \<open>The way the bytes arrive does not matter: if the scan of the first n characters is LINE_OPEN
  and stops at i', then once more characters are there (n' in all) the scan that resumes at i'
  gives what a scan from the first position i of all n' characters gives.\<close>

theorem http_parse_line_resumes:
  assumes "i \<le> n" "n \<le> n'" "n' \<le> length buf'" and "length buf = length buf'" "take n buf' = take n buf"
    and "0 < i \<Longrightarrow> buf ! (i - 1) \<noteq> CR"
    and "parse_line_loop buf (int i) (int n) = Some (LINE_OPEN, b, i')"
  shows "parse_line_loop buf' i' (int n') = parse_line_loop buf' (int i) (int n')"
proof -
  have l: "n \<le> length buf" using assms by simp
  note s = parse_line_loop_spec [OF assms(1) l assms(6)]
  let ?j = "line_end buf i n"
  note b = line_end_bounds [OF assms(1) l]
  have i': "i' = int ?j"
    using assms(7) s by (auto simp: line_spec_def int_result_def Let_def split: if_splits)
  have e: "buf' ! k = buf ! k" if "k < n" for k
    using assms(5) that by (metis nth_take)
  have "parse_line_loop buf' (int i) (int n') = parse_line_loop buf' (int ?j) (int n')"
  proof (rule parse_line_loop_skip)
    show "i \<le> ?j" "?j \<le> n'" "n' \<le> length buf'" using b assms by simp_all
    show "\<And>k. i \<le> k \<Longrightarrow> k < ?j \<Longrightarrow> buf' ! k \<noteq> CR \<and> buf' ! k \<noteq> LF"
      using line_end_before [OF assms(1) l] e b by simp
  qed
  then show ?thesis by (simp add: i')
qed

theorem http_parse_line_resumes_witness:
  "parse_line_loop (''ab'' @ crlf) 2 4 = parse_line_loop (''ab'' @ crlf) 0 4"
  using http_parse_line_resumes [of 0 3 4 "''ab'' @ crlf" "''ab'' @ [CR, NUL]" "''ab'' @ [CR, NUL]" 2]
  by (simp add: parse_line_loop.simps arr_get_def)

end
