(* ===== verification/HttpConn_Request.thy ===== *)
theory HttpConn_Request
  imports HttpConn_Line
begin

text \<open>
  \<open>parse_request_line\<close> of \<open>epoll/http_conn.cpp\<close> against a reference function on strings: which
  lines it accepts and the path it finds; and the writes of the parser, which only ever
  overwrite characters of the current line by NUL.
\<close>

subsection \<open>Overwriting by NUL\<close>

text \<open>\<open>b'\<close> is \<open>b\<close> with some characters of the places from \<open>lo\<close> to below \<open>hi\<close> overwritten by NUL.\<close>

definition nul_within :: "char list \<Rightarrow> char list \<Rightarrow> nat \<Rightarrow> nat \<Rightarrow> bool" where
  "nul_within b b' lo hi \<longleftrightarrow> length b' = length b
     \<and> (\<forall>i < length b. b' ! i = b ! i \<or> b' ! i = NUL \<and> lo \<le> i \<and> i < hi)"

lemma nul_within_refl [simp]: "nul_within b b lo hi"
  by (simp add: nul_within_def)

lemma nul_within_set: "nul_within b b' lo hi \<Longrightarrow> lo \<le> k \<Longrightarrow> k < hi \<Longrightarrow> nul_within b (b'[k := NUL]) lo hi"
  unfolding nul_within_def by (intro conjI allI impI) (simp, case_tac "i = k", auto)

lemma nul_within_trans:
  assumes "nul_within b b' lo hi" "nul_within b' b'' lo' hi'" "lo'' \<le> lo" "lo'' \<le> lo'" "hi \<le> hi''" "hi' \<le> hi''"
  shows "nul_within b b'' lo'' hi''"
  unfolding nul_within_def
proof (intro conjI allI impI)
  show "length b'' = length b" using assms(1,2) by (simp add: nul_within_def)
  fix i assume "i < length b"
  then have "b' ! i = b ! i \<or> b' ! i = NUL \<and> lo \<le> i \<and> i < hi"
    "b'' ! i = b' ! i \<or> b'' ! i = NUL \<and> lo' \<le> i \<and> i < hi'"
    using assms(1,2) by (simp_all add: nul_within_def)
  then show "b'' ! i = b ! i \<or> b'' ! i = NUL \<and> lo'' \<le> i \<and> i < hi''"
    using assms(3-6) by auto
qed

lemma nul_within_length: "nul_within b b' lo hi \<Longrightarrow> length b' = length b"
  by (simp add: nul_within_def)

lemma nul_within_nul: "nul_within b b' lo hi \<Longrightarrow> i < length b \<Longrightarrow> b ! i = NUL \<Longrightarrow> b' ! i = NUL"
  by (auto simp: nul_within_def)

lemma nul_within_ne: "nul_within b b' lo hi \<Longrightarrow> i < length b \<Longrightarrow> b ! i \<noteq> x \<Longrightarrow> x \<noteq> NUL \<Longrightarrow> b' ! i \<noteq> x"
  by (auto simp: nul_within_def)

text \<open>A string that ends before the overwritten places, or begins after them, stays.\<close>

lemma cstr_cong:
  assumes "cstr b i = Some s" "length b' = length b" "\<And>k. nat i \<le> k \<Longrightarrow> k \<le> nat i + length s \<Longrightarrow> b' ! k = b ! k"
  shows "cstr b' i = Some s"
proof -
  note c = cstr_len [OF assms(1)]
  have "take (length s) (drop (nat i) b') = take (length s) (drop (nat i) b)"
    by (rule nth_equalityI) (use c(1) assms(2,3) in simp_all)
  then have t: "take (length s) (drop (nat i) b') = s" using c(4) by simp
  have "b' ! (nat i + length s) = NUL" using c(2) assms(3) by simp
  then have b: "b' = take (nat i) b' @ s @ NUL # drop (Suc (nat i + length s)) b'"
    using c(1) assms(2) t id_take_nth_drop [of "nat i + length s" b'] by (metis append_assoc take_add)
  have "cstr b' (int (length (take (nat i) b'))) = Some s"
    by (subst b) (rule cstr_append [OF c(5)])
  then show ?thesis using c(1,3) assms(2) by simp
qed

lemma cstr_nul_within:
  assumes "cstr b i = Some s" "nul_within b b' lo hi" "nat i + length s < lo"
  shows "cstr b' i = Some s"
proof (rule cstr_cong [OF assms(1)])
  show "length b' = length b" using assms(2) by (simp add: nul_within_def)
  fix k assume "k \<le> nat i + length s"
  then have "k < length b" "k < lo" using cstr_len(1) [OF assms(1)] assms(3) by simp_all
  then show "b' ! k = b ! k" using assms(2) by (auto simp: nul_within_def)
qed

lemma cstr_exists:
  assumes "i \<le> j" "j < length b" "b ! j = NUL"
  obtains s where "cstr b (int i) = Some s" "i + length s \<le> j"
proof -
  have m: "drop i b ! (j - i) = NUL" "j - i < length (drop i b)" using assms by simp_all
  then have "NUL \<in> set (drop i b)" by (metis nth_mem)
  then have c: "cstr b (int i) = Some (takeWhile (\<lambda>c. c \<noteq> NUL) (drop i b))" by (simp add: cstr_def)
  have "length (takeWhile (\<lambda>c. c \<noteq> NUL) (drop i b)) \<le> j - i"
  proof (rule ccontr)
    assume "\<not> ?thesis"
    then have l: "j - i < length (takeWhile (\<lambda>c. c \<noteq> NUL) (drop i b))" by simp
    have "takeWhile (\<lambda>c. c \<noteq> NUL) (drop i b) ! (j - i) = NUL"
      using takeWhile_nth [OF l] m(1) by simp
    moreover have "takeWhile (\<lambda>c. c \<noteq> NUL) (drop i b) ! (j - i) \<noteq> NUL"
      using nth_mem [OF l] by (auto dest: set_takeWhileD)
    ultimately show False by simp
  qed
  then show ?thesis using that [OF c] assms(1) by simp
qed

subsection \<open>The scanning functions\<close>

abbreviation blank :: "char \<Rightarrow> bool" where "blank c \<equiv> c \<in> set blanks"

lemma strpbrk_dropWhile:
  "strpbrk s acc = (if dropWhile (\<lambda>c. c \<notin> set acc) s = [] then None
     else Some (int (length (takeWhile (\<lambda>c. c \<notin> set acc) s))))"
proof -
  have "length (takeWhile P s) < length s \<longleftrightarrow> dropWhile P s \<noteq> []" for P :: "char \<Rightarrow> bool"
    by (induction s) auto
  then show ?thesis by (simp add: strpbrk_def Let_def del: dropWhile_eq_Nil_conv)
qed

lemma strspn_dropWhile: "strspn s acc = int (length (takeWhile (\<lambda>c. c \<in> set acc) s))"
  by (simp add: strspn_def)

lemma find_blank_cstr:
  assumes "cstr buf p = Some s"
  shows "find_blank buf p = Some (if dropWhile (\<lambda>c. \<not> blank c) s = [] then None
     else Some (p + int (length (takeWhile (\<lambda>c. \<not> blank c) s))))"
  by (simp add: find_blank_def assms strpbrk_dropWhile del: set_simps)

lemma skip_blanks_cstr:
  assumes "cstr buf p = Some s"
  shows "skip_blanks buf p = Some (p + int (length (takeWhile blank s)))"
    "cstr buf (p + int (length (takeWhile blank s))) = Some (dropWhile blank s)"
  using assms cstr_shift [OF assms, of "length (takeWhile blank s)"]
  by (simp_all add: skip_blanks_def strspn_dropWhile length_takeWhile_le dropWhile_eq_drop del: set_simps)

subsection \<open>The reference function\<close>

text \<open>The path of a request line, if the line is a request the program accepts.\<close>

definition strip_scheme :: "string \<Rightarrow> string" where
  "strip_scheme u = (if strncase_eq u ''http://'' 7 then dropWhile (\<lambda>c. c \<noteq> CHR ''/'') (drop 7 u) else u)"

definition request_path :: "string \<Rightarrow> string option" where
  "request_path s = (let
       meth = takeWhile (\<lambda>c. \<not> blank c) s;
       r = dropWhile (\<lambda>c. \<not> blank c) s;
       r1 = dropWhile blank (tl r);
       url = takeWhile (\<lambda>c. \<not> blank c) r1;
       r2 = dropWhile (\<lambda>c. \<not> blank c) r1;
       version = dropWhile blank (tl r2);
       path = strip_scheme url in
     if r \<noteq> [] \<and> strcase_eq meth ''GET'' \<and> r2 \<noteq> [] \<and> strcase_eq version ''HTTP/1.1''
        \<and> path \<noteq> [] \<and> hd path = CHR ''/'' then Some path else None)"

lemma skip_scheme_cstr:
  assumes "cstr buf p = Some u"
  shows "\<exists>r. skip_scheme buf p = Some r \<and> (r = None \<longrightarrow> strip_scheme u = [])
    \<and> (\<forall>q. r = Some q \<longrightarrow> p \<le> q \<and> cstr buf q = Some (strip_scheme u)
          \<and> nat q + length (strip_scheme u) = nat p + length u)"
proof (cases "strncase_eq u ''http://'' 7")
  case True
  then have "length (take 7 (map tolower u)) = length (take 7 (map tolower ''http://''))"
    unfolding strncase_eq_def by (rule arg_cong)
  then have l: "7 \<le> length u" by simp
  let ?P = "\<lambda>c. c \<noteq> CHR ''/''" and ?d = "drop 7 u"
  have c7: "cstr buf (p + 7) = Some ?d" using cstr_shift [OF assms l] by simp
  have c: "cstr buf (p + 7 + int (length (takeWhile ?P ?d))) = Some (dropWhile ?P ?d)"
    using cstr_shift [OF c7 length_takeWhile_le [of ?P ?d]] by (simp add: dropWhile_eq_drop)
  have "length (takeWhile ?P ?d) + length (dropWhile ?P ?d) = length u - 7"
    by (metis length_append length_drop takeWhile_dropWhile_id)
  then have n: "nat (p + 7 + int (length (takeWhile ?P ?d))) + length (dropWhile ?P ?d) = nat p + length u"
    using l cstr_len(3) [OF assms] by simp
  show ?thesis using True assms c7 c n by (simp add: skip_scheme_def strip_scheme_def strpbrk_dropWhile)
next
  case False
  then show ?thesis using assms by (simp add: skip_scheme_def strip_scheme_def)
qed

text \<open>Cutting a string at the first character that fails a test.\<close>

lemma cstr_split:
  assumes "cstr buf (int p) = Some s" and "dropWhile P s \<noteq> []"
  defines "k \<equiv> p + length (takeWhile P s)"
  shows "arr_set buf (int k) NUL = Some (buf[k := NUL])"
    "cstr (buf[k := NUL]) (int p) = Some (takeWhile P s)"
    "cstr (buf[k := NUL]) (int k + 1) = Some (tl (dropWhile P s))"
    "k + 1 + length (tl (dropWhile P s)) = p + length s"
proof -
  note c = cstr_len [OF assms(1)]
  have l: "length (takeWhile P s) + length (dropWhile P s) = length s"
    by (metis length_append takeWhile_dropWhile_id)
  have "0 < length (dropWhile P s)" using assms(2) by (rule length_greater_0_conv [THEN iffD2])
  then have d: "length (dropWhile P s) = Suc (length (tl (dropWhile P s)))"
    unfolding length_tl by (rule Suc_pred')
  show "k + 1 + length (tl (dropWhile P s)) = p + length s" using l d unfolding k_def by linarith
  have "k < length buf" using c(1) l d unfolding k_def nat_int by linarith
  then show "arr_set buf (int k) NUL = Some (buf[k := NUL])" by (rule arr_set_nat)
  show "cstr (buf[k := NUL]) (int p) = Some (takeWhile P s)"
    using cstr_cut [OF assms(1) length_takeWhile_le [of P s]]
    unfolding k_def takeWhile_eq_take [of P s, symmetric] by (simp only: nat_int)
  have "cstr buf (int p + int (Suc (length (takeWhile P s)))) = Some (drop (Suc (length (takeWhile P s))) s)"
    by (rule cstr_shift [OF assms(1)]) (use l d in linarith)
  moreover have "tl (dropWhile P s) = drop (Suc (length (takeWhile P s))) s"
    unfolding dropWhile_eq_drop [of P s] by (simp only: tl_drop drop_Suc)
  moreover have "int p + int (Suc (length (takeWhile P s))) = int k + 1" by (simp add: k_def)
  ultimately have "cstr buf (int k + 1) = Some (tl (dropWhile P s))" by (simp only:)
  then show "cstr (buf[k := NUL]) (int k + 1) = Some (tl (dropWhile P s))"
    by (rule cstr_other) (simp add: nat_add_distrib)
qed

text \<open>
  The result of \<open>parse_request_line\<close> on the line \<open>s\<close> that begins at \<open>t\<close>: the fields it changes, and
  what they hold.
\<close>

definition request_result ::
  "nat \<Rightarrow> string \<Rightarrow> 'a http_conn \<Rightarrow> HTTP_CODE \<Rightarrow> 'a http_conn \<Rightarrow> bool" where
  "request_result t s c ret c' \<longleftrightarrow>
     c' = c\<lparr>m_read_buf := m_read_buf c', m_url := m_url c', m_version := m_version c',
            m_method := m_method c', m_check_state := m_check_state c'\<rparr>
     \<and> nul_within (m_read_buf c) (m_read_buf c') t (t + length s)
     \<and> (m_method c = GET \<longrightarrow> m_method c' = GET)
     \<and> (case request_path s of None \<Rightarrow> ret = BAD_REQUEST \<and> m_check_state c' = m_check_state c
        | Some path \<Rightarrow> ret = NO_REQUEST \<and> m_check_state c' = CHECK_STATE_HEADER \<and> m_method c' = GET
           \<and> (\<exists>u. m_url c' = Some (int u) \<and> t \<le> u \<and> cstr (m_read_buf c') (int u) = Some path
                 \<and> u + length path < t + length s))"

lemma parse_request_line_spec:
  assumes s: "cstr (m_read_buf c) (int t) = Some s"
  shows "\<exists>ret c'. parse_request_line (int t) c = Some (ret, c') \<and> request_result t s c ret c'"
proof -
  let ?nb = "\<lambda>c. \<not> blank c"
  define meth where "meth = takeWhile ?nb s"
  define r where "r = dropWhile ?nb s"
  define r1 where "r1 = dropWhile blank (tl r)"
  define url where "url = takeWhile ?nb r1"
  define r2 where "r2 = dropWhile ?nb r1"
  define version where "version = dropWhile blank (tl r2)"
  have path: "request_path s = (let path = strip_scheme url in
     if r \<noteq> [] \<and> strcase_eq meth ''GET'' \<and> r2 \<noteq> [] \<and> strcase_eq version ''HTTP/1.1''
        \<and> path \<noteq> [] \<and> hd path = CHR ''/'' then Some path else None)"
    unfolding request_path_def meth_def r_def r1_def url_def r2_def version_def Let_def ..
  show ?thesis
  proof (cases "r = []")
    case True
    then show ?thesis using find_blank_cstr [OF s]
      by (simp add: parse_request_line_def path r_def request_result_def del: dropWhile_eq_Nil_conv)
  next
    case False
    define k where "k = t + length meth"
    define b1 where "b1 = (m_read_buf c)[k := NUL]"
    note split1 = cstr_split [OF s, of ?nb, folded meth_def r_def, OF False, folded k_def, folded b1_def]
    have fb: "find_blank (m_read_buf c) (int t) = Some (Some (int k))"
      using find_blank_cstr [OF s] False by (simp add: r_def meth_def k_def del: dropWhile_eq_Nil_conv)
    have nw1: "nul_within (m_read_buf c) b1 t (t + length s)"
      unfolding b1_def by (rule nul_within_set) (use split1(4) in \<open>simp_all add: k_def\<close>)
    define u where "u = k + 1 + length (takeWhile blank (tl r))"
    have lr: "length (takeWhile blank (tl r)) + length r1 = length (tl r)"
      unfolding r1_def by (metis length_append takeWhile_dropWhile_id)
    have sb: "skip_blanks b1 (int k + 1) = Some (int u)" and cr1: "cstr b1 (int u) = Some r1"
      using skip_blanks_cstr [OF split1(3)] by (simp_all add: u_def r1_def ac_simps)
    note run1 = fb split1(1) split1(2) sb find_blank_cstr [OF cr1, folded r2_def url_def]
    show ?thesis
    proof (cases "strcase_eq meth ''GET'' \<and> r2 \<noteq> []")
      case False
      then show ?thesis using \<open>r \<noteq> []\<close> nw1
        by (cases "strcase_eq meth ''GET''") (simp_all add: parse_request_line_def path run1 request_result_def Let_def)
    next
      case True
      define v where "v = u + length url"
      define b2 where "b2 = b1[v := NUL]"
      have r2: "dropWhile ?nb r1 \<noteq> []" using True by (simp add: r2_def del: dropWhile_eq_Nil_conv)
      note split2 = cstr_split [OF cr1 r2, folded url_def r2_def, folded v_def, folded b2_def]
      have nw2: "nul_within (m_read_buf c) b2 t (t + length s)"
        unfolding b2_def by (rule nul_within_set [OF nw1]) (use split1(4) split2(4) lr in \<open>simp_all add: v_def u_def k_def\<close>)
      have fv: "find_blank b1 (int u) = Some (Some (int v))"
        using run1(5) True by (simp add: v_def)
      obtain w where sv: "skip_blanks b2 (int v + 1) = Some w" "cstr b2 w = Some version"
        using skip_blanks_cstr [OF split2(3)] unfolding version_def by blast
      obtain q where q: "skip_scheme b2 (int u) = Some q" "q = None \<Longrightarrow> strip_scheme url = []"
        "\<And>a. q = Some a \<Longrightarrow> int u \<le> a \<and> cstr b2 a = Some (strip_scheme url)
            \<and> nat a + length (strip_scheme url) = u + length url"
        using skip_scheme_cstr [OF split2(2)] by auto
      note run2 = run1(1-4) fv split2(1) sv q(1)
      show ?thesis
      proof (cases "strcase_eq version ''HTTP/1.1'' \<and> q \<noteq> None")
        case False
        then show ?thesis using \<open>r \<noteq> []\<close> True nw2 q(2)
          by (cases "strcase_eq version ''HTTP/1.1''")
             (simp_all add: parse_request_line_def path run2 request_result_def Let_def)
      next
        case False': True
        then obtain a where a: "q = Some a" by auto
        define n where "n = nat a"
        note qa = q(3) [OF a]
        have an: "a = int n" using qa by (simp add: n_def)
        have l: "n + length (strip_scheme url) < t + length s"
          using qa split1(4) split2(4) lr by (simp add: v_def u_def k_def n_def)
        have "int t \<le> a" using conjunct1 [OF qa] by (simp add: u_def k_def)
        then have "t \<le> n" by (simp add: an)
        have cn: "cstr b2 (int n) = Some (strip_scheme url)" using qa an by simp
        have g: "arr_get b2 a = Some (if strip_scheme url = [] then NUL else hd (strip_scheme url))"
        proof (cases "strip_scheme url")
          case Nil
          then have c: "cstr b2 a = Some []" using qa by simp
          show ?thesis using cstr_len(1-3) [OF c] Nil by (simp add: arr_get_def nat_less_iff)
        next
          case (Cons x xs)
          then have c: "cstr b2 a = Some (x # xs)" using qa by simp
          have "(x # xs) ! 0 = take (length (x # xs)) (drop (nat a) b2) ! 0"
            by (rule arg_cong [OF cstr_len(4) [OF c]])
          also have "\<dots> = b2 ! nat a" using cstr_len(1) [OF c] by simp
          finally have "b2 ! nat a = x" by simp
          then show ?thesis using cstr_len(1,3) [OF c] Cons by (simp add: arr_get_def nat_less_iff)
        qed
        show ?thesis
        proof (cases "strip_scheme url = [] \<or> hd (strip_scheme url) \<noteq> CHR ''/''")
          case True
          then show ?thesis using \<open>r \<noteq> []\<close> \<open>strcase_eq meth ''GET'' \<and> r2 \<noteq> []\<close> False' nw2
            by (auto simp: parse_request_line_def path run2 request_result_def Let_def a g)
        next
          case False
          then show ?thesis using \<open>r \<noteq> []\<close> True False' nw2 l cn \<open>t \<le> n\<close>
            by (simp add: parse_request_line_def path run2 request_result_def Let_def a g [unfolded an] an)
        qed
      qed
    qed
  qed
qed

lemma conn_after_cstr:
  assumes "NUL \<notin> set s" "length s < READ_BUFFER_SIZE"
  shows "cstr (m_read_buf (conn_after s)) 0 = Some s"
proof -
  have "replicate (READ_BUFFER_SIZE - length s) NUL = NUL # replicate (READ_BUFFER_SIZE - length s - 1) NUL"
    using assms(2) by (cases "READ_BUFFER_SIZE - length s") simp_all
  then show ?thesis using cstr_append [OF assms(1), of "[]"] by (simp add: conn_after_def)
qed

text \<open>C10: parse_request_line decides a line as the reference function request_path does, without an
  access outside the buffer: it answers NO_REQUEST and moves on to the headers when the line is
  GET, blanks, a URL, blanks and HTTP/1.1 (in any case of letters) and the path of the URL begins
  with a slash, and m_url is then that path, within the line; otherwise it answers BAD_REQUEST and
  stays in its state.  It only overwrites characters of the line, by NUL.\<close>

theorem http_request_line_correct:
  assumes "cstr (m_read_buf c) (int t) = Some s"
  shows "\<exists>ret c'. parse_request_line (int t) c = Some (ret, c')
     \<and> c' = c\<lparr>m_read_buf := m_read_buf c', m_url := m_url c', m_version := m_version c',
            m_method := m_method c', m_check_state := m_check_state c'\<rparr>
     \<and> nul_within (m_read_buf c) (m_read_buf c') t (t + length s)
     \<and> (case request_path s of None \<Rightarrow> ret = BAD_REQUEST \<and> m_check_state c' = m_check_state c
        | Some path \<Rightarrow> ret = NO_REQUEST \<and> m_check_state c' = CHECK_STATE_HEADER \<and> m_method c' = GET
           \<and> (\<exists>u. m_url c' = Some (int u) \<and> t \<le> u \<and> cstr (m_read_buf c') (int u) = Some path
                 \<and> u + length path < t + length s))"
  using parse_request_line_spec [OF assms] unfolding request_result_def by blast

theorem http_request_line_correct_witness:
  "\<exists>c'. parse_request_line 0 (conn_after ''get  http://h/a.html HTTP/1.1'') = Some (NO_REQUEST, c')
     \<and> (\<exists>u. m_url c' = Some (int u) \<and> cstr (m_read_buf c') (int u) = Some ''/a.html'')"
proof -
  have p: "request_path ''get  http://h/a.html HTTP/1.1'' = Some ''/a.html''"
    by code_simp
  have c: "cstr (m_read_buf (conn_after ''get  http://h/a.html HTTP/1.1'')) (int 0) = Some ''get  http://h/a.html HTTP/1.1''"
    using conn_after_cstr [of "''get  http://h/a.html HTTP/1.1''"] by (simp add: READ_BUFFER_SIZE_def)
  show ?thesis using http_request_line_correct [OF c] unfolding p by auto
qed

end
