(* ===== verification/HttpConn_Read.thy ===== *)
theory HttpConn_Read
  imports HttpConn_Request
begin

text \<open>
  The parser of \<open>epoll/http_conn.cpp\<close> as a whole: the invariant of a connection between two
  calls, and \<open>process_read\<close> under it.
\<close>

subsection \<open>The invariant\<close>

text \<open>
  \<open>t\<close>, \<open>i\<close> and \<open>n\<close> are \<open>m_start_line\<close>, \<open>m_checked_idx\<close> and \<open>m_read_idx\<close>.  Once the request line is
  parsed, \<open>m_url\<close> is a string that ends before the current line.
\<close>

definition url_ok :: "'a http_conn \<Rightarrow> nat \<Rightarrow> bool" where
  "url_ok c t \<longleftrightarrow> (\<exists>u s. m_url c = Some (int u) \<and> cstr (m_read_buf c) (int u) = Some s \<and> u + length s < t)"

definition conn_at :: "'a http_conn \<Rightarrow> nat \<Rightarrow> nat \<Rightarrow> nat \<Rightarrow> bool" where
  "conn_at c t i n \<longleftrightarrow> length (m_read_buf c) = READ_BUFFER_SIZE
     \<and> m_start_line c = int t \<and> m_checked_idx c = int i \<and> m_read_idx c = int n
     \<and> t \<le> i \<and> i \<le> n \<and> n < READ_BUFFER_SIZE
     \<and> (0 < i \<longrightarrow> m_read_buf c ! (i - 1) \<noteq> CR)
     \<and> (\<forall>k. n \<le> k \<and> k < READ_BUFFER_SIZE \<longrightarrow> m_read_buf c ! k = NUL)
     \<and> length (m_real_file c) = FILENAME_LEN \<and> m_real_file c ! (FILENAME_LEN - 1) = NUL
     \<and> (m_check_state c \<noteq> CHECK_STATE_REQUESTLINE \<longrightarrow> url_ok c t)"

definition conn_ok :: "'a http_conn \<Rightarrow> bool" where
  "conn_ok c \<longleftrightarrow> (\<exists>t i n. conn_at c t i n)"

text \<open>
  Every Content-Length header of the buffer announces between 0 and \<open>2 ^ 30\<close> bytes, also after any
  characters of the buffer are overwritten by NUL.
\<close>

definition content_lengths_ok :: "char list \<Rightarrow> bool" where
  "content_lengths_ok buf \<longleftrightarrow> (\<forall>b p s. nul_within buf b 0 (length buf) \<longrightarrow> cstr b p = Some s
     \<longrightarrow> strncase_eq s ''Content-Length:'' 15
     \<longrightarrow> (\<exists>v. atol (dropWhile blank (drop 15 s)) = Some v \<and> 0 \<le> v \<and> v \<le> 2 ^ 30))"

definition body_ok :: "'a http_conn \<Rightarrow> bool" where
  "body_ok c \<longleftrightarrow> 0 \<le> m_content_length c \<and> m_content_length c \<le> 2 ^ 30 \<and> content_lengths_ok (m_read_buf c)"

lemma nul_within_any: "nul_within b b' lo hi \<Longrightarrow> nul_within b b' 0 (length b)"
  unfolding nul_within_def by blast

lemma content_lengths_ok_mono:
  assumes "content_lengths_ok b" "nul_within b b' lo hi"
  shows "content_lengths_ok b'"
proof -
  have "nul_within b b'' 0 (length b)" if "nul_within b' b'' 0 (length b')" for b''
    using nul_within_trans [OF nul_within_any [OF assms(2)] that] nul_within_length [OF assms(2)] by simp
  then show ?thesis using assms(1) unfolding content_lengths_ok_def by blast
qed

lemma url_ok_cong:
  assumes "url_ok c t" "m_url c' = m_url c" "nul_within (m_read_buf c) (m_read_buf c') t hi" "t \<le> t'"
  shows "url_ok c' t'"
proof -
  obtain u s where u: "m_url c = Some (int u)" "cstr (m_read_buf c) (int u) = Some s" "u + length s < t"
    using assms(1) unfolding url_ok_def by blast
  have "cstr (m_read_buf c') (int u) = Some s"
    by (rule cstr_nul_within [OF u(2) assms(3)]) (use u(3) in simp)
  then show ?thesis unfolding url_ok_def using u assms(2,4) by auto
qed

text \<open>Overwriting a part of the current line, or scanning further, keeps the invariant.\<close>

lemma conn_at_update:
  assumes "conn_at c t i n" "nul_within (m_read_buf c) (m_read_buf c') t hi"
    and "m_start_line c' = int t'" "m_checked_idx c' = int i'" "m_read_idx c' = int n"
    and "t' \<le> i'" "i' \<le> n" "0 < i' \<Longrightarrow> m_read_buf c' ! (i' - 1) \<noteq> CR"
    and "length (m_real_file c') = FILENAME_LEN" "m_real_file c' ! (FILENAME_LEN - 1) = NUL"
    and "m_check_state c' \<noteq> CHECK_STATE_REQUESTLINE \<Longrightarrow> url_ok c' t'"
  shows "conn_at c' t' i' n"
  using assms nul_within_nul [OF assms(2)] nul_within_length [OF assms(2)]
  unfolding conn_at_def by simp

lemma conn_at_nul:
  assumes "conn_at c t i n" "nul_within (m_read_buf c) (m_read_buf c') t hi"
    and "m_start_line c' = int t'" "m_checked_idx c' = int i'" "m_read_idx c' = int n"
    and "t \<le> t'" "t' \<le> i'" "i' \<le> n" "0 < i' \<Longrightarrow> m_read_buf c' ! (i' - 1) \<noteq> CR"
    and "m_real_file c' = m_real_file c" "m_url c' = m_url c" "m_check_state c' = m_check_state c"
  shows "conn_at c' t' i' n"
proof (rule conn_at_update [OF assms(1-5,7-9)])
  show "length (m_real_file c') = FILENAME_LEN" "m_real_file c' ! (FILENAME_LEN - 1) = NUL"
    using assms(1,10) by (simp_all add: conn_at_def)
  assume "m_check_state c' \<noteq> CHECK_STATE_REQUESTLINE"
  then have "url_ok c t" using assms(1,12) by (simp add: conn_at_def)
  then show "url_ok c' t'" by (rule url_ok_cong [OF _ assms(11,2,6)])
qed

subsection \<open>One line\<close>

lemma strncase_eq_length:
  assumes "strncase_eq s b n" "n \<le> length b"
  shows "n \<le> length s"
proof -
  have "length (take n (map tolower s)) = length (take n (map tolower b))"
    using assms(1) unfolding strncase_eq_def by (rule arg_cong)
  then show ?thesis using assms(2) by simp
qed

text \<open>After a complete line, \<open>get_line()\<close> is a string that ends within the scanned part.\<close>

lemma parse_line_step:
  assumes "conn_at c t i n"
  shows "\<exists>st c' i'. parse_line c = Some (st, c') \<and> conn_at c' t i' n \<and> i \<le> i'
    \<and> c' = c\<lparr>m_read_buf := m_read_buf c', m_checked_idx := int i'\<rparr>
    \<and> nul_within (m_read_buf c) (m_read_buf c') t READ_BUFFER_SIZE
    \<and> (st \<noteq> LINE_OK \<longrightarrow> m_read_buf c' = m_read_buf c)
    \<and> (st = LINE_OK \<longrightarrow> i < i' \<and> (\<exists>s. cstr (m_read_buf c') (int t) = Some s \<and> t + length s < i'))"
proof -
  let ?b = "m_read_buf c"
  have a: "length ?b = READ_BUFFER_SIZE" "m_checked_idx c = int i" "m_read_idx c = int n" "m_start_line c = int t"
      "t \<le> i" "i \<le> n" "n < READ_BUFFER_SIZE" "0 < i \<Longrightarrow> ?b ! (i - 1) \<noteq> CR"
    using assms unfolding conn_at_def by blast+
  have l: "n \<le> length ?b" using a by simp
  have p: "parse_line c = (case line_spec ?b i n of (st, buf, i) \<Rightarrow>
      Some (st, c\<lparr>m_read_buf := buf, m_checked_idx := int i\<rparr>))"
    using parse_line_loop_spec [OF a(6) l a(8)] a(2,3)
    by (simp add: parse_line_def int_result_def split: prod.splits)
  from a(6) l show ?thesis
  proof (cases rule: line_spec_cases)
    case (ok j)
    let ?c = "c\<lparr>m_read_buf := ?b[j := NUL, j + 1 := NUL], m_checked_idx := int (j + 2)\<rparr>"
    have nw: "nul_within ?b (m_read_buf ?c) t READ_BUFFER_SIZE"
      using ok a by (auto intro!: nul_within_set)
    have "conn_at ?c t (j + 2) n"
      by (rule conn_at_nul [OF assms nw]) (use ok a in \<open>simp_all add: nth_list_update\<close>)
    moreover obtain s where "cstr (m_read_buf ?c) (int t) = Some s" "t + length s \<le> j"
      using cstr_exists [of t j "m_read_buf ?c"] ok a by (auto simp: nth_list_update)
    ultimately show ?thesis using p nw ok
      by (intro exI [of _ LINE_OK] exI [of _ ?c] exI [of _ "j + 2"]) (auto simp: ok(5))
  next
    case (stay st j)
    have "0 < j \<Longrightarrow> ?b ! (j - 1) \<noteq> CR"
      using stay(5) [of "j - 1"] a(8) stay(2) by (cases "j = i") auto
    then have "conn_at (c\<lparr>m_checked_idx := int j\<rparr>) t j n"
      using a stay by (intro conn_at_nul [OF assms, where hi = 0]) simp_all
    moreover have "c\<lparr>m_read_buf := ?b\<rparr> = c" by (cases c) simp
    ultimately show ?thesis using p stay
      by (intro exI [of _ st] exI [of _ "c\<lparr>m_checked_idx := int j\<rparr>"] exI [of _ j]) simp
  qed
qed

text \<open>A header line: nothing but the four fields of the request changes.\<close>

lemma parse_headers_step:
  assumes s: "cstr (m_read_buf c) (int t) = Some s" and "body_ok c"
  shows "\<exists>ret c'. parse_headers (int t) c = Some (ret, c') \<and> ret \<noteq> BAD_REQUEST
    \<and> body_ok c' \<and> (m_check_state c' = m_check_state c \<or> m_check_state c' = CHECK_STATE_CONTENT)
    \<and> c' = c\<lparr>m_check_state := m_check_state c', m_linger := m_linger c',
         m_content_length := m_content_length c', m_host := m_host c', sys_calls := sys_calls c'\<rparr>"
proof -
  have skip: "\<exists>q. skip_blanks (m_read_buf c) (int t + int k) = Some q
      \<and> cstr (m_read_buf c) q = Some (dropWhile blank (drop k s))" if "k \<le> length s" for k
    using skip_blanks_cstr [OF cstr_shift [OF s that]] by blast
  consider (empty) "s = []" | (conn) "s \<noteq> []" "strncase_eq s ''Connection:'' 11"
    | (len) "s \<noteq> []" "\<not> strncase_eq s ''Connection:'' 11" "strncase_eq s ''Content-Length:'' 15"
    | (host) "s \<noteq> []" "\<not> strncase_eq s ''Connection:'' 11" "\<not> strncase_eq s ''Content-Length:'' 15"
        "strncase_eq s ''Host:'' 5"
    | (other) "s \<noteq> []" "\<not> strncase_eq s ''Connection:'' 11" "\<not> strncase_eq s ''Content-Length:'' 15"
        "\<not> strncase_eq s ''Host:'' 5" by blast
  then show ?thesis
  proof cases
    case empty
    then show ?thesis using s assms(2) by (simp add: parse_headers_def body_ok_def)
  next
    case conn
    obtain q where "skip_blanks (m_read_buf c) (int t + 11) = Some q"
      "cstr (m_read_buf c) q = Some (dropWhile blank (drop 11 s))"
      using skip [of 11] strncase_eq_length [OF conn(2)] by auto
    then show ?thesis using s assms(2) conn by (simp add: parse_headers_def body_ok_def)
  next
    case len
    obtain q where q: "skip_blanks (m_read_buf c) (int t + 15) = Some q"
      "cstr (m_read_buf c) q = Some (dropWhile blank (drop 15 s))"
      using skip [of 15] strncase_eq_length [OF len(3)] by auto
    have "content_lengths_ok (m_read_buf c)" using assms(2) by (simp add: body_ok_def)
    then obtain v where v: "atol (dropWhile blank (drop 15 s)) = Some v" "0 \<le> v" "v \<le> 2 ^ 30"
      using s len(3) unfolding content_lengths_ok_def by (metis nul_within_refl)
    then have "to_int v = v" by (simp add: to_int_id int_range_def)
    then show ?thesis using s assms(2) len q v by (simp add: parse_headers_def body_ok_def)
  next
    case host
    obtain q where "skip_blanks (m_read_buf c) (int t + 5) = Some q"
      using skip [of 5] strncase_eq_length [OF host(4)] by auto
    then show ?thesis using s assms(2) host by (simp add: parse_headers_def body_ok_def)
  next
    case other
    then show ?thesis using s assms(2) by (simp add: parse_headers_def body_ok_def sys_def)
  qed
qed

subsection \<open>The answer to a request\<close>

text \<open>The file a request is for; \<open>FILENAME_LEN\<close> cuts the path.\<close>

definition request_file :: "string \<Rightarrow> string" where
  "request_file path = doc_root @ take (FILENAME_LEN - length doc_root - 1) path"

definition file_code :: "file_stat option \<Rightarrow> HTTP_CODE" where
  "file_code st = (case st of None \<Rightarrow> NO_RESOURCE
     | Some st \<Rightarrow> if st_mode st AND S_IROTH = 0 then FORBIDDEN_REQUEST
                 else if S_ISDIR (st_mode st) then BAD_REQUEST else FILE_REQUEST)"

lemma doc_root_length [simp]: "length doc_root = 13"
  by (simp add: doc_root_def)

lemma doc_root_nul: "NUL \<notin> set doc_root"
  by (simp add: doc_root_def)

lemma real_file_path:
  assumes "length f = FILENAME_LEN" "f ! (FILENAME_LEN - 1) = NUL" "NUL \<notin> set s"
  shows "\<exists>f1 f2. strcpy f doc_root = Some f1
    \<and> strncpy f1 (length doc_root) s (FILENAME_LEN - length doc_root - 1) = Some f2
    \<and> length f2 = FILENAME_LEN \<and> f2 ! (FILENAME_LEN - 1) = NUL \<and> cstr f2 0 = Some (request_file s)"
proof -
  let ?f1 = "doc_root @ [NUL] @ drop 14 f"
  let ?m = "take 186 s @ replicate (186 - length s) NUL"
  have d: "drop 199 ?f1 = [NUL]"
  proof -
    have "drop 199 ?f1 = drop 199 f" by simp
    also have "\<dots> = f ! 199 # drop (Suc 199) f"
      using assms(1) by (intro Cons_nth_drop_Suc [symmetric]) (simp add: FILENAME_LEN_def)
    finally show ?thesis using assms(1,2) by (simp add: FILENAME_LEN_def)
  qed
  have c: "strcpy f doc_root = Some ?f1"
    using assms(1) by (simp add: strcpy_def FILENAME_LEN_def)
  have n: "strncpy ?f1 13 s 186 = Some (doc_root @ ?m @ [NUL])"
    using assms(1) d by (simp add: strncpy_def FILENAME_LEN_def)
  have l: "length ?m = 186" by simp
  have "\<exists>b. ?m @ [NUL] = take 186 s @ NUL # b"
    by (cases "186 - length s") auto
  then obtain b where b: "?m @ [NUL] = take 186 s @ NUL # b" ..
  have "cstr ([] @ (doc_root @ take 186 s) @ NUL # b) (int (length ([]::string))) = Some (doc_root @ take 186 s)"
    by (rule cstr_append) (use assms(3) doc_root_nul in \<open>auto dest: in_set_takeD\<close>)
  then have "cstr (doc_root @ ?m @ [NUL]) 0 = Some (request_file s)"
    unfolding b by (simp add: request_file_def FILENAME_LEN_def)
  moreover have "(doc_root @ ?m @ [NUL]) ! 199 = NUL"
  proof -
    have "length (doc_root @ ?m) = 199" unfolding length_append l by simp
    then show ?thesis using nth_append_length [of "doc_root @ ?m" NUL "[]"] by simp
  qed
  ultimately show ?thesis using c n
    by (intro exI [of _ ?f1] exI [of _ "doc_root @ ?m @ [NUL]"]) (simp add: FILENAME_LEN_def)
qed

lemma do_request_step:
  assumes "length (m_real_file c) = FILENAME_LEN" "m_real_file c ! (FILENAME_LEN - 1) = NUL"
    and "m_url c = Some u" "cstr (m_read_buf c) u = Some s"
  shows "\<exists>c'. do_request os c = Some (file_code (os_stat os (request_file s)), c')
    \<and> c' = c\<lparr>m_real_file := m_real_file c', m_file_stat := m_file_stat c',
         m_file_address := m_file_address c', sys_calls := sys_calls c'\<rparr>
    \<and> length (m_real_file c') = FILENAME_LEN \<and> m_real_file c' ! (FILENAME_LEN - 1) = NUL
    \<and> (\<forall>st. os_stat os (request_file s) = Some st \<longrightarrow> m_file_stat c' = st)
    \<and> (file_code (os_stat os (request_file s)) = FILE_REQUEST \<longrightarrow>
         m_file_address c' = os_mmap os (os_open os (request_file s)) (st_size (m_file_stat c')))"
proof -
  obtain f1 f2 where f: "strcpy (m_real_file c) doc_root = Some f1"
    "strncpy f1 (length doc_root) s (FILENAME_LEN - length doc_root - 1) = Some f2"
    "length f2 = FILENAME_LEN" "f2 ! (FILENAME_LEN - 1) = NUL" "cstr f2 0 = Some (request_file s)"
    using real_file_path [OF assms(1,2) cstr_len(5) [OF assms(4)]] by blast
  show ?thesis
  proof (cases "os_stat os (request_file s)")
    case None
    then show ?thesis using f assms(3,4) by (simp add: do_request_def file_code_def Let_def)
  next
    case (Some st)
    then show ?thesis using f assms(3,4) by (simp add: do_request_def file_code_def Let_def sys_def)
  qed
qed

text \<open>The answer to a parsed request is decided by the file doc_root followed by the path, cut so
  that it fits m_real_file: NO_RESOURCE if stat fails, FORBIDDEN_REQUEST if others may not read it,
  BAD_REQUEST for a directory, else FILE_REQUEST with the file mapped.  Nothing is written outside
  m_real_file.  No component of the path is looked at: a path with .. leaves doc_root.\<close>

theorem http_do_request_correct:
  assumes "length (m_real_file c) = FILENAME_LEN" "m_real_file c ! (FILENAME_LEN - 1) = NUL"
    and "m_url c = Some u" "cstr (m_read_buf c) u = Some path"
  shows "\<exists>c'. do_request os c = Some (file_code (os_stat os (request_file path)), c')
    \<and> c' = c\<lparr>m_real_file := m_real_file c', m_file_stat := m_file_stat c',
         m_file_address := m_file_address c', sys_calls := sys_calls c'\<rparr>
    \<and> (\<forall>st. os_stat os (request_file path) = Some st \<longrightarrow> m_file_stat c' = st)
    \<and> (file_code (os_stat os (request_file path)) = FILE_REQUEST \<longrightarrow>
         m_file_address c' = os_mmap os (os_open os (request_file path)) (st_size (m_file_stat c')))"
  using do_request_step [OF assms, of os] by blast

text \<open>A server whose only readable file outside its root is the password file.\<close>

definition sample_os :: http_os where
  "sample_os = \<lparr>os_flags = (\<lambda>_. 0),
     os_stat = (\<lambda>f. if f = ''/var/www/html/../../../etc/passwd''
        then Some \<lparr>st_mode = 0x81A4, st_size = 7\<rparr> else None),
     os_open = (\<lambda>_. 9), os_mmap = (\<lambda>_ _. 4096)\<rparr>"

theorem http_do_request_correct_witness:
  "\<exists>c'. do_request sample_os ((conn_after ''/../../../etc/passwd'')\<lparr>m_url := Some 0\<rparr>) = Some (FILE_REQUEST, c')
     \<and> m_file_address c' = 4096"
proof -
  let ?p = "''/../../../etc/passwd''"
  let ?c = "(conn_after ?p)\<lparr>m_url := Some 0\<rparr>"
  have a: "length (m_real_file ?c) = FILENAME_LEN" "m_real_file ?c ! (FILENAME_LEN - 1) = NUL"
    "m_url ?c = Some 0" by (simp_all add: conn_after_def FILENAME_LEN_def)
  have c: "cstr (m_read_buf ?c) 0 = Some ?p"
    using conn_after_cstr [of ?p] by (simp add: READ_BUFFER_SIZE_def)
  have s: "os_stat sample_os (request_file ?p) = Some \<lparr>st_mode = 0x81A4, st_size = 7\<rparr>"
    by (simp add: sample_os_def request_file_def doc_root_def FILENAME_LEN_def)
  have f: "file_code (os_stat sample_os (request_file ?p)) = FILE_REQUEST"
    unfolding s by (simp add: file_code_def S_IROTH_def S_ISDIR_def)
  have m: "os_mmap sample_os d n = 4096" for d n by (simp add: sample_os_def)
  show ?thesis using http_do_request_correct [OF a c, of sample_os] unfolding f m by blast
qed

subsection \<open>The loop of process_read\<close>

definition new_line :: "nat \<Rightarrow> string \<Rightarrow> 'a http_conn \<Rightarrow> 'a http_conn" where
  "new_line i s c = sys (Print (''got 1 http line: '' @ s @ [LF])) (c\<lparr>m_start_line := int i\<rparr>)"

lemma new_line_simps [simp]:
  "m_read_buf (new_line i s c) = m_read_buf c" "m_start_line (new_line i s c) = int i"
  "m_checked_idx (new_line i s c) = m_checked_idx c" "m_read_idx (new_line i s c) = m_read_idx c"
  "m_real_file (new_line i s c) = m_real_file c" "m_url (new_line i s c) = m_url c"
  "m_check_state (new_line i s c) = m_check_state c" "m_content_length (new_line i s c) = m_content_length c"
  "m_file_stat (new_line i s c) = m_file_stat c"
  by (simp_all add: new_line_def sys_def)

lemma line_step_new:
  assumes "cstr (m_read_buf c) (int t) = Some s" "m_start_line c = int t" "m_checked_idx c = int i"
  shows "line_step os c = (case m_check_state c of
       CHECK_STATE_REQUESTLINE \<Rightarrow> do {
         (ret, c) \<leftarrow> parse_request_line (int t) (new_line i s c);
         Some (if ret = BAD_REQUEST then Inl BAD_REQUEST else Inr LINE_OK, c) }
     | CHECK_STATE_HEADER \<Rightarrow> do {
         (ret, c) \<leftarrow> parse_headers (int t) (new_line i s c);
         if ret = BAD_REQUEST then Some (Inl BAD_REQUEST, c)
         else if ret = GET_REQUEST then do { (r, c) \<leftarrow> do_request os c; Some (Inl r, c) }
         else Some (Inr LINE_OK, c) }
     | CHECK_STATE_CONTENT \<Rightarrow> do {
         (ret, c) \<leftarrow> parse_content (int t) (new_line i s c);
         if ret = GET_REQUEST then do { (r, c) \<leftarrow> do_request os c; Some (Inl r, c) }
         else Some (Inr LINE_OPEN, c) })"
  using assms by (cases "m_check_state c") (simp_all add: line_step_def new_line_def sys_def Let_def)

lemma body_ok_new_line [simp]: "body_ok (new_line i s c) = body_ok c"
  by (simp add: body_ok_def)

lemma conn_at_new_line:
  assumes "conn_at c t i n"
  shows "conn_at (new_line i s c) i i n"
  using assms by (intro conn_at_nul [OF assms, where hi = 0]) (auto simp: conn_at_def)

lemma body_ok_cong:
  assumes "body_ok c" "m_content_length c' = m_content_length c" "nul_within (m_read_buf c) (m_read_buf c') lo hi"
  shows "body_ok c'"
  using assms content_lengths_ok_mono [OF _ assms(3)] by (simp add: body_ok_def)

lemma do_request_at:
  assumes "conn_at c t i n" "m_check_state c \<noteq> CHECK_STATE_REQUESTLINE" "body_ok c"
  shows "\<exists>r d. do_request os c = Some (r, d) \<and> conn_at d t i n \<and> body_ok d"
proof -
  have a: "length (m_real_file c) = FILENAME_LEN" "m_real_file c ! (FILENAME_LEN - 1) = NUL" "url_ok c t"
    using assms(1,2) unfolding conn_at_def by blast+
  obtain u s where u: "m_url c = Some (int u)" "cstr (m_read_buf c) (int u) = Some s"
    using a(3) unfolding url_ok_def by blast
  obtain r d where d: "do_request os c = Some (r, d)"
    "d = c\<lparr>m_real_file := m_real_file d, m_file_stat := m_file_stat d,
         m_file_address := m_file_address d, sys_calls := sys_calls d\<rparr>"
    "length (m_real_file d) = FILENAME_LEN" "m_real_file d ! (FILENAME_LEN - 1) = NUL"
    using do_request_step [OF a(1,2) u] by blast
  have e: "m_read_buf d = m_read_buf c" "m_start_line d = m_start_line c" "m_checked_idx d = m_checked_idx c"
    "m_read_idx d = m_read_idx c" "m_url d = m_url c" "m_content_length d = m_content_length c"
    by (subst d(2), simp)+
  have "conn_at d t i n"
    using assms(1) a(3) by (intro conn_at_update [OF assms(1), where hi = 0])
      (auto simp: conn_at_def url_ok_def e d(3,4) simp del: One_nat_def)
  moreover have "body_ok d" using assms(3) by (simp add: body_ok_def e)
  ultimately show ?thesis using d(1) by blast
qed

lemma parse_content_step:
  assumes "conn_at c t i n" "body_ok c"
  shows "\<exists>ret d. parse_content (int t) (new_line i s c) = Some (ret, d) \<and> conn_at d i i n \<and> body_ok d
    \<and> m_check_state d = m_check_state c"
proof -
  let ?c = "new_line i s c" and ?l = "m_content_length c"
  have a: "length (m_read_buf c) = READ_BUFFER_SIZE" "m_checked_idx c = int i" "m_read_idx c = int n"
    "t \<le> i" "i \<le> n" "n < READ_BUFFER_SIZE" "0 < i \<Longrightarrow> m_read_buf c ! (i - 1) \<noteq> CR"
    using assms(1) unfolding conn_at_def by blast+
  have l: "0 \<le> ?l" "?l \<le> 2 ^ 30" using assms(2) by (simp_all add: body_ok_def)
  have e: "add_int ?l (int i) = Some (?l + int i)"
    using l a(5,6) by (simp add: add_int_def int_range_def READ_BUFFER_SIZE_def)
  show ?thesis
  proof (cases "int n \<ge> ?l + int i")
    case False
    then show ?thesis using a e conn_at_new_line [OF assms(1)] assms(2) by (simp add: parse_content_def)
  next
    case True
    let ?k = "t + nat ?l"
    let ?d = "?c\<lparr>m_read_buf := (m_read_buf c)[?k := NUL]\<rparr>"
    have k: "int t + ?l = int ?k" "?k < READ_BUFFER_SIZE" using True l a(4,6) by simp_all
    have nw: "nul_within (m_read_buf c) (m_read_buf ?d) t READ_BUFFER_SIZE"
      using k by (auto intro!: nul_within_set)
    have "conn_at ?d i i n"
      by (rule conn_at_nul [OF assms(1) nw]) (use a nul_within_ne [OF nw] in auto)
    moreover have "body_ok ?d" by (rule body_ok_cong [OF assms(2) _ nw]) simp
    ultimately show ?thesis using True a e k arr_set_nat [of ?k "m_read_buf c" NUL]
      by (simp add: parse_content_def)
  qed
qed

text \<open>
  A line in any state: afterwards the invariant holds and the scanned and filled parts are as they
  were; the loop goes on with \<open>LINE_OPEN\<close> after a piece of the body and with \<open>LINE_OK\<close> otherwise.
\<close>

lemma line_step_step:
  assumes "conn_at c t i n" "body_ok c"
    and "m_check_state c \<noteq> CHECK_STATE_CONTENT \<Longrightarrow> \<exists>s. cstr (m_read_buf c) (int t) = Some s \<and> t + length s < i"
  shows "\<exists>r d. line_step os c = Some (r, d) \<and> conn_at d i i n \<and> body_ok d
    \<and> (\<forall>st. r = Inr st \<longrightarrow> st = (if m_check_state c = CHECK_STATE_CONTENT then LINE_OPEN else LINE_OK))"
proof -
  have a: "length (m_read_buf c) = READ_BUFFER_SIZE" "m_checked_idx c = int i" "m_start_line c = int t"
    "m_read_idx c = int n" "t \<le> i" "i \<le> n" "n < READ_BUFFER_SIZE" "0 < i \<Longrightarrow> m_read_buf c ! (i - 1) \<noteq> CR"
    "\<And>k. n \<le> k \<Longrightarrow> k < READ_BUFFER_SIZE \<Longrightarrow> m_read_buf c ! k = NUL"
    "length (m_real_file c) = FILENAME_LEN" "m_real_file c ! (FILENAME_LEN - 1) = NUL"
    using assms(1) unfolding conn_at_def by blast+
  have "\<exists>s. cstr (m_read_buf c) (int t) = Some s \<and> (m_check_state c \<noteq> CHECK_STATE_CONTENT \<longrightarrow> t + length s < i)"
  proof (cases "m_check_state c = CHECK_STATE_CONTENT")
    case True
    then show ?thesis using cstr_exists [of t n "m_read_buf c"] a by auto
  qed (use assms(3) in blast)
  then obtain s where s: "cstr (m_read_buf c) (int t) = Some s"
    "m_check_state c \<noteq> CHECK_STATE_CONTENT \<Longrightarrow> t + length s < i" by blast
  have c1: "conn_at (new_line i s c) i i n" by (rule conn_at_new_line [OF assms(1)])
  have b1: "body_ok (new_line i s c)" using assms(2) by simp
  note run = line_step_new [OF s(1) a(3,2)]
  show ?thesis
  proof (cases "m_check_state c")
    case CHECK_STATE_REQUESTLINE
    obtain ret d where d: "parse_request_line (int t) (new_line i s c) = Some (ret, d)"
      "request_result t s (new_line i s c) ret d"
      using parse_request_line_spec [of "new_line i s c" t s] s by auto
    have r: "d = (new_line i s c)\<lparr>m_read_buf := m_read_buf d, m_url := m_url d, m_version := m_version d,
            m_method := m_method d, m_check_state := m_check_state d\<rparr>"
      "nul_within (m_read_buf c) (m_read_buf d) t (t + length s)"
      using d(2) unfolding request_result_def by simp_all
    have e: "m_start_line d = int i" "m_checked_idx d = int i" "m_read_idx d = int n"
      "m_real_file d = m_real_file c" "m_content_length d = m_content_length c"
      by (subst r(1), simp add: a)+
    have u: "m_check_state d \<noteq> CHECK_STATE_REQUESTLINE \<Longrightarrow> url_ok d i"
      using d(2) s(2) CHECK_STATE_REQUESTLINE unfolding request_result_def url_ok_def
      by (auto split: option.splits)
    have "conn_at d i i n"
      by (rule conn_at_update [OF assms(1) r(2) e(1-3)])
        (use a u e nul_within_ne [OF r(2)] in auto)
    moreover have "body_ok d" by (rule body_ok_cong [OF assms(2) e(5) r(2)])
    ultimately show ?thesis using d(1) CHECK_STATE_REQUESTLINE by (simp add: run)
  next
    case CHECK_STATE_HEADER
    obtain ret d where d: "parse_headers (int t) (new_line i s c) = Some (ret, d)" "ret \<noteq> BAD_REQUEST" "body_ok d"
      "m_check_state d = m_check_state c \<or> m_check_state d = CHECK_STATE_CONTENT"
      "d = (new_line i s c)\<lparr>m_check_state := m_check_state d, m_linger := m_linger d,
         m_content_length := m_content_length d, m_host := m_host d, sys_calls := sys_calls d\<rparr>"
      using parse_headers_step [of "new_line i s c" t s] s b1 by auto
    have e: "m_start_line d = int i" "m_checked_idx d = int i" "m_read_idx d = int n"
      "m_real_file d = m_real_file c" "m_read_buf d = m_read_buf c" "m_url d = m_url c"
      by (subst d(5), simp add: a)+
    have "url_ok c t" using assms(1) CHECK_STATE_HEADER by (simp add: conn_at_def)
    then have "url_ok d i" by (rule url_ok_cong [where hi = 0]) (use e a in simp_all)
    then have at: "conn_at d i i n"
      by (intro conn_at_update [OF assms(1), where hi = 0]) (use a e in auto)
    have st: "m_check_state d \<noteq> CHECK_STATE_REQUESTLINE" using d(4) CHECK_STATE_HEADER by auto
    obtain r d' where "do_request os d = Some (r, d')" "conn_at d' i i n" "body_ok d'"
      using do_request_at [OF at st d(3)] by blast
    then show ?thesis using d(1,2,3) at CHECK_STATE_HEADER by (simp add: run)
  next
    case CHECK_STATE_CONTENT
    obtain ret d where d: "parse_content (int t) (new_line i s c) = Some (ret, d)" "conn_at d i i n" "body_ok d"
      "m_check_state d = m_check_state c"
      using parse_content_step [OF assms(1,2)] by blast
    have st: "m_check_state d \<noteq> CHECK_STATE_REQUESTLINE" using d(4) CHECK_STATE_CONTENT by simp
    obtain r d' where "do_request os d = Some (r, d')" "conn_at d' i i n" "body_ok d'"
      using do_request_at [OF d(2) st d(3)] by blast
    then show ?thesis using d CHECK_STATE_CONTENT by (simp add: run)
  qed
qed

lemma process_read_loop_total:
  assumes "conn_at c t i n" "body_ok c"
  shows "\<exists>r d. process_read_loop os st c = Some (r, d) \<and> conn_ok d \<and> body_ok d"
  using assms
proof (induction "2 * (n - i) + (if st = LINE_OK then 1 else 0)" arbitrary: c t i st rule: less_induct)
  case less
  have one: "\<exists>r d. process_read_loop os st c = Some (r, d) \<and> conn_ok d \<and> body_ok d"
    if lc: "loop_condition st c = Some (LINE_OK, c1)" and at: "conn_at c1 t i1 n" and b: "body_ok c1"
      and ln: "m_check_state c1 \<noteq> CHECK_STATE_CONTENT \<Longrightarrow> \<exists>s. cstr (m_read_buf c1) (int t) = Some s \<and> t + length s < i1"
      and dec: "i < i1 \<or> st = LINE_OK \<and> i1 = i \<and> m_check_state c1 = CHECK_STATE_CONTENT" for c1 i1
  proof -
    obtain r d where d: "line_step os c1 = Some (r, d)" "conn_at d i1 i1 n" "body_ok d"
      "\<And>st. r = Inr st \<Longrightarrow> st = (if m_check_state c1 = CHECK_STATE_CONTENT then LINE_OPEN else LINE_OK)"
      using line_step_step [OF at b ln] by blast
    show ?thesis
    proof (cases r)
      case (Inl ret)
      then show ?thesis using d lc unfolding conn_ok_def
        by (subst process_read_loop.simps) auto
    next
      case (Inr st')
      note st' = d(4) [OF Inr]
      have "i1 \<le> n" using at by (simp add: conn_at_def)
      then have "2 * (n - i1) + (if st' = LINE_OK then 1 else 0) < 2 * (n - i) + (if st = LINE_OK then 1 else 0)"
        using dec st' by (auto split: if_splits)
      then have "\<exists>r d'. process_read_loop os st' d = Some (r, d') \<and> conn_ok d' \<and> body_ok d'"
        by (rule less.hyps [OF _ d(2,3)])
      then show ?thesis using d lc Inr
        by (subst process_read_loop.simps) auto
    qed
  qed
  show ?case
  proof (cases "m_check_state c = CHECK_STATE_CONTENT \<and> st = LINE_OK")
    case True
    then show ?thesis using one [of c i] less.prems by (simp add: loop_condition_def)
  next
    case False
    obtain st1 c1 i1 where p: "parse_line c = Some (st1, c1)" "conn_at c1 t i1 n"
      "c1 = c\<lparr>m_read_buf := m_read_buf c1, m_checked_idx := int i1\<rparr>"
      "nul_within (m_read_buf c) (m_read_buf c1) t READ_BUFFER_SIZE"
      "st1 = LINE_OK \<Longrightarrow> i < i1 \<and> (\<exists>s. cstr (m_read_buf c1) (int t) = Some s \<and> t + length s < i1)"
      using parse_line_step [OF less.prems(1)] by blast
    have lc: "loop_condition st c = Some (st1, c1)" using False p(1) by (auto simp: loop_condition_def)
    have b: "body_ok c1" using less.prems(2) p(3) content_lengths_ok_mono [OF _ p(4)]
      unfolding body_ok_def by (metis (no_types, lifting) http_conn.select_convs(17) http_conn.surjective http_conn.update_convs(5,7))
    show ?thesis
    proof (cases "st1 = LINE_OK")
      case True
      then show ?thesis using one [OF _ p(2) b] lc p(5) by blast
    next
      case False
      then show ?thesis using lc p(2) b unfolding conn_ok_def
        by (subst process_read_loop.simps) auto
    qed
  qed
qed

subsection \<open>Receiving\<close>

text \<open>What \<open>recv\<close> stores begins at \<open>m_read_idx\<close>, so the invariant is kept as long as the buffer
  does not become full.\<close>

lemma received_buffer:
  assumes "n + length s \<le> length b"
  defines "b' \<equiv> take n b @ s @ drop (n + length s) b"
  shows "length b' = length b" "take n b' = take n b" "\<And>k. n + length s \<le> k \<Longrightarrow> k < length b \<Longrightarrow> b' ! k = b ! k"
  using assms(1) by (auto simp: b'_def nth_append)

lemma conn_at_received:
  assumes "conn_at c t i n" "n + length s < READ_BUFFER_SIZE"
  shows "conn_at (c\<lparr>m_read_buf := take n (m_read_buf c) @ s @ drop (n + length s) (m_read_buf c),
      m_read_idx := int (n + length s)\<rparr>) t i (n + length s)"
proof -
  let ?b = "m_read_buf c" and ?b' = "take n (m_read_buf c) @ s @ drop (n + length s) (m_read_buf c)"
  have a: "length ?b = READ_BUFFER_SIZE" "t \<le> i" "i \<le> n" using assms(1) unfolding conn_at_def by blast+
  note r = received_buffer [of n s ?b] 
  have e: "?b' ! k = ?b ! k" if "k < n" for k using that a assms(2) by (simp add: nth_append)
  have u: "url_ok c t \<Longrightarrow> url_ok (c\<lparr>m_read_buf := ?b', m_read_idx := int (n + length s)\<rparr>) t"
    unfolding url_ok_def using cstr_cong [of ?b _ _ ?b'] r(1) a e assms(2) by fastforce
  show ?thesis using assms u r a e unfolding conn_at_def by auto
qed

lemma read_loop_mono:
  "read_loop rs c = Some (b, c') \<Longrightarrow> m_read_idx c \<le> m_read_idx c'"
proof (induction rs arbitrary: c)
  case (Cons r rs)
  show ?case
  proof (cases r)
    case (Received s)
    then obtain d where "read_loop rs d = Some (b, c')" "m_read_idx d = m_read_idx c + int (length s)"
      using Cons.prems by (auto split: if_splits)
    then show ?thesis using Cons.IH [of d] by simp
  qed (use Cons.prems in auto)
qed simp

lemma read_loop_ok:
  assumes "conn_at c t i n" "read_loop rs c = Some (True, c')" "m_read_idx c' < int READ_BUFFER_SIZE"
  shows "conn_ok c'"
  using assms
proof (induction rs arbitrary: c n)
  case Nil then show ?case by simp
next
  case (Cons r rs)
  show ?case
  proof (cases r)
    case (Received s)
    have n: "m_read_idx c = int n" using Cons.prems(1) by (simp add: conn_at_def)
    let ?c = "c\<lparr>m_read_buf := take n (m_read_buf c) @ s @ drop (n + length s) (m_read_buf c),
      m_read_idx := int (n + length s)\<rparr>"
    have l: "read_loop rs ?c = Some (True, c')"
      using Cons.prems(2) Received n by (simp split: if_splits)
    have "n + length s < READ_BUFFER_SIZE" using read_loop_mono [OF l] Cons.prems(3) by simp
    then show ?thesis using Cons.IH [OF conn_at_received [OF Cons.prems(1)] l Cons.prems(3)] by blast
  qed (use Cons.prems in \<open>auto simp: conn_ok_def\<close>)
qed

subsection \<open>Properties\<close>

text \<open>A buffer without a colon has no header that announces a body.\<close>

lemma tolower_colon: "tolower c = CHR '':'' \<longleftrightarrow> c = CHR '':''"
proof
  assume l: "tolower c = CHR '':''"
  show "c = CHR '':''"
  proof (cases "65 \<le> (of_char c :: nat) \<and> (of_char c :: nat) \<le> 90")
    case True
    then have "tolower c = char_of (of_char c + 32 :: nat)" by (simp add: tolower_def)
    then have "(of_char (tolower c) :: nat) = of_char c + 32" using True by simp
    then show ?thesis using l True by simp
  next
    case False
    then have "tolower c = c" unfolding tolower_def Let_def by (simp only: if_False)
    then show ?thesis using l by simp
  qed
qed (simp add: tolower_def Let_def)

lemma content_lengths_ok_no_colon:
  assumes "CHR '':'' \<notin> set buf"
  shows "content_lengths_ok buf"
proof -
  have "\<not> strncase_eq s ''Content-Length:'' 15" if nw: "nul_within buf b 0 (length buf)" and c: "cstr b p = Some s" for b p s
  proof
    assume q: "strncase_eq s ''Content-Length:'' 15"
    then have l: "15 \<le> length s" using strncase_eq_length [OF q] by simp
    have "take 15 (map tolower s) ! 14 = take 15 (map tolower ''Content-Length:'') ! 14"
      using q unfolding strncase_eq_def by (rule arg_cong)
    also have "\<dots> = CHR '':''" by (simp add: tolower_def)
    finally have "s ! 14 = CHR '':''" using l by (simp add: tolower_colon)
    moreover have "s ! 14 = take (length s) (drop (nat p) b) ! 14" by (rule arg_cong [OF cstr_len(4) [OF c]])
    ultimately have "b ! (nat p + 14) = CHR '':''" "nat p + 14 < length b"
      using l cstr_len(1) [OF c] by simp_all
    moreover have "length b = length buf" by (rule nul_within_length [OF nw])
    ultimately have k: "nat p + 14 < length buf" by simp
    have "buf ! (nat p + 14) = CHR '':''"
      using nul_within_ne [OF nw k] \<open>b ! (nat p + 14) = CHR '':''\<close> by fastforce
    then show False using assms nth_mem [OF k] by simp
  qed
  then show ?thesis unfolding content_lengths_ok_def by blast
qed

lemma conn_after_ok:
  assumes "length s < READ_BUFFER_SIZE"
  shows "conn_at (conn_after s) 0 0 (length s)"
  using assms by (auto simp: conn_at_def conn_after_def nth_append FILENAME_LEN_def)

lemma init_request_ok:
  fixes e :: "'a http_conn"
  shows "conn_ok (init_request e)" "body_ok (init_request e)"
proof -
  have "conn_at (init_request e) 0 0 0"
    by (simp add: init_request_def conn_at_def READ_BUFFER_SIZE_def FILENAME_LEN_def)
  then show "conn_ok (init_request e)" unfolding conn_ok_def by blast
  have "content_lengths_ok (m_read_buf (init_request e))"
    by (rule content_lengths_ok_no_colon) (simp add: init_request_def)
  then show "body_ok (init_request e)" by (simp add: body_ok_def init_request_def)
qed

text \<open>C4: A connection between two calls satisfies conn_ok: both init functions establish it from any
  state of the object, together with body_ok; read keeps it unless the buffer becomes full; and
  process_read keeps both.  Under conn_ok and body_ok process_read reaches its end for every input:
  its loop terminates, no read or write is outside the buffers, no string runs past its array and no
  int overflows.  The hypothesis body_ok is that wherever the text Content-Length: stands in the
  buffer, in a header or at any other place, the number behind it is between 0 and 2 ^ 30, also
  when characters of the buffer are overwritten by NUL.\<close>

theorem http_process_read_safe:
  fixes c :: "'a http_conn"
  assumes "conn_ok c" and "body_ok c"
  shows "(\<exists>ret d. process_read os c = Some (ret, d) \<and> conn_ok d \<and> body_ok d)
     \<and> (\<forall>e :: 'a http_conn. conn_ok (init_request e) \<and> body_ok (init_request e)
          \<and> (\<forall>os fd addr. conn_ok (init os fd addr e) \<and> body_ok (init os fd addr e)))
     \<and> (\<forall>rs d. http_read rs c = Some (True, d) \<longrightarrow> m_read_idx d < int READ_BUFFER_SIZE \<longrightarrow> conn_ok d)"
proof (intro conjI allI impI)
  obtain t i n where at: "conn_at c t i n" using assms(1) unfolding conn_ok_def by blast
  show "\<exists>ret d. process_read os c = Some (ret, d) \<and> conn_ok d \<and> body_ok d"
    unfolding process_read_def by (rule process_read_loop_total [OF at assms(2)])
  fix rs d assume r: "http_read rs c = Some (True, d)" and l: "m_read_idx d < int READ_BUFFER_SIZE"
  show "conn_ok d"
    by (rule read_loop_ok [OF at _ l]) (use r in \<open>auto simp: http_read_def split: if_splits\<close>)
qed (simp_all add: init_request_ok init_def Let_def)

theorem http_process_read_safe_witness:
  "\<exists>ret d. process_read sample_os (conn_after (''GET / HTTP/1.1'' @ crlf @ crlf)) = Some (ret, d) \<and> conn_ok d"
proof -
  let ?s = "''GET / HTTP/1.1'' @ crlf @ crlf"
  have a: "conn_ok (conn_after ?s)"
    using conn_after_ok [of ?s] unfolding conn_ok_def by (auto simp: READ_BUFFER_SIZE_def)
  have "content_lengths_ok (m_read_buf (conn_after ?s))"
    by (rule content_lengths_ok_no_colon) (simp add: conn_after_def)
  then have b: "body_ok (conn_after ?s)" by (simp add: body_ok_def conn_after_def)
  show ?thesis using http_process_read_safe [OF a b, of sample_os] by blast
qed

end
