(* ===== verification/HttpConn_Props.thy ===== *)
theory HttpConn_Props
  imports HttpConn_Read
begin

text \<open>
  The body of a request of \<open>epoll/http_conn.cpp\<close>, and lines that end badly.
\<close>

subsection \<open>The body\<close>

text \<open>Bytes that one \<open>recv\<close> stores.\<close>

definition receive :: "string \<Rightarrow> 'a http_conn \<Rightarrow> 'a http_conn" where
  "receive s c = c\<lparr>m_read_buf := take (nat (m_read_idx c)) (m_read_buf c) @ s
       @ drop (nat (m_read_idx c) + length s) (m_read_buf c),
     m_read_idx := m_read_idx c + int (length s)\<rparr>"

lemma receive_step:
  assumes "s \<noteq> []" "0 \<le> m_read_idx c" "m_read_idx c + int (length s) \<le> int READ_BUFFER_SIZE"
  shows "read_loop (Received s # rs) c = read_loop rs (receive s c)"
  using assms by (simp add: receive_def)

lemma conn_at_receive:
  assumes "conn_at c t i n" "n + length s < READ_BUFFER_SIZE"
  shows "conn_at (receive s c) t i (n + length s)"
  using conn_at_received [OF assms] assms(1) by (simp add: receive_def conn_at_def)

lemma receive_nth:
  assumes "conn_at c t i n" "n + length s < READ_BUFFER_SIZE"
  shows "k < n \<Longrightarrow> m_read_buf (receive s c) ! k = m_read_buf c ! k"
    "k < length s \<Longrightarrow> m_read_buf (receive s c) ! (n + k) = s ! k"
  using assms by (auto simp: receive_def conn_at_def nth_append)

text \<open>A connection that waits for a body of \<open>l\<close> bytes and has \<open>s\<close> of it.\<close>

definition conn_body :: "string \<Rightarrow> int \<Rightarrow> unit http_conn" where
  "conn_body s l = (conn_after (''/u'' @ NUL # s))\<lparr>m_check_state := CHECK_STATE_CONTENT,
     m_url := Some 0, m_start_line := 3, m_checked_idx := 3, m_content_length := l\<rparr>"

lemma conn_body_ok:
  assumes "length s + 3 < READ_BUFFER_SIZE"
  shows "conn_at (conn_body s l) 3 3 (length s + 3)"
proof -
  have e: "m_read_buf (conn_body s l) = [] @ ''/u'' @ NUL # s @ replicate (READ_BUFFER_SIZE - (length s + 3)) NUL"
    by (simp add: conn_body_def conn_after_def)
  have u: "cstr (m_read_buf (conn_body s l)) (int 0) = Some ''/u''"
    unfolding e using cstr_append [of "''/u''" "[]"] by simp
  have "url_ok (conn_body s l) 3"
    unfolding url_ok_def by (intro exI [of _ 0] exI [of _ "''/u''"]) (use u in \<open>simp_all add: conn_body_def\<close>)
  moreover have "\<forall>k. length s + 3 \<le> k \<and> k < READ_BUFFER_SIZE \<longrightarrow> m_read_buf (conn_body s l) ! k = NUL"
    unfolding e by (auto simp: nth_append nth_Cons')
  ultimately show ?thesis using assms
    by (simp add: conn_at_def e) (simp add: conn_body_def conn_after_def FILENAME_LEN_def)
qed

text \<open>A part of a body without a line end: the text is scanned, and nothing is answered.\<close>

lemma body_piece:
  assumes at: "conn_at c t i n" and b: "body_ok c" and st: "m_check_state c = CHECK_STATE_CONTENT"
    and short: "int n < int i + m_content_length c"
    and no: "\<And>k. i \<le> k \<Longrightarrow> k < n \<Longrightarrow> m_read_buf c ! k \<noteq> CR \<and> m_read_buf c ! k \<noteq> LF"
  shows "\<exists>e d. process_read os c = Some (NO_REQUEST, d) \<and> conn_at d i n n \<and> body_ok d
    \<and> d = c\<lparr>m_start_line := int i, m_checked_idx := int n, sys_calls := e\<rparr>"
proof -
  have a: "length (m_read_buf c) = READ_BUFFER_SIZE" "m_checked_idx c = int i" "m_read_idx c = int n"
    "m_start_line c = int t" "t \<le> i" "i \<le> n" "n < READ_BUFFER_SIZE" "m_read_buf c ! n = NUL"
    using at unfolding conn_at_def by auto
  obtain s where s: "cstr (m_read_buf c) (int t) = Some s"
    using cstr_exists [of t n "m_read_buf c"] a by auto
  let ?c = "new_line i s c"
  let ?d = "?c\<lparr>m_checked_idx := int n\<rparr>"
  have l: "0 \<le> m_content_length c" "m_content_length c \<le> 2 ^ 30" using b by (simp_all add: body_ok_def)
  have "add_int (m_content_length c) (int i) = Some (m_content_length c + int i)"
    using l a(6,7) by (simp add: add_int_def int_range_def READ_BUFFER_SIZE_def)
  then have "parse_content (int t) ?c = Some (NO_REQUEST, ?c)"
    using short a by (simp add: parse_content_def)
  then have ls: "line_step os c = Some (Inr LINE_OPEN, ?c)"
    using line_step_new [OF s a(4,2)] st by simp
  have "parse_line_loop (m_read_buf c) (int i) (int n) = parse_line_loop (m_read_buf c) (int n) (int n)"
    by (rule parse_line_loop_skip) (use a no in auto)
  then have "parse_line ?c = Some (LINE_OPEN, ?c\<lparr>m_read_buf := m_read_buf c, m_checked_idx := int n\<rparr>)"
    using a by (simp add: parse_line_def parse_line_loop_end)
  then have pl: "parse_line ?c = Some (LINE_OPEN, ?d)"
    by (simp add: new_line_def sys_def)
  have lc: "loop_condition LINE_OK c = Some (LINE_OK, c)" "loop_condition LINE_OPEN ?c = Some (LINE_OPEN, ?d)"
    using st pl by (simp_all add: loop_condition_def)
  have "process_read_loop os LINE_OPEN ?c = Some (NO_REQUEST, ?d)"
    by (subst process_read_loop.simps) (simp add: lc)
  then have p: "process_read os c = Some (NO_REQUEST, ?d)"
    unfolding process_read_def by (subst process_read_loop.simps) (simp add: lc ls)
  have "conn_at ?d i n n"
  proof (rule conn_at_nul [OF at, where hi = 0])
    show "0 < n \<Longrightarrow> m_read_buf ?d ! (n - 1) \<noteq> CR"
      using no [of "n - 1"] at a(6) by (cases "i = n") (auto simp: conn_at_def)
  qed (use a in auto)
  moreover have "body_ok ?d" using b by (simp add: body_ok_def)
  ultimately show ?thesis using p
    by (intro exI [of _ "sys_calls ?d"] exI [of _ ?d]) (simp add: new_line_def sys_def)
qed

text \<open>C18: A body that arrives in two pieces is not answered: a connection waits for a body of L
  bytes that begins at t, and n - t > 0 bytes of it are there; process_read answers NO_REQUEST, and
  again NO_REQUEST when exactly the rest of the body has arrived, because the scan of the first piece
  moved m_checked_idx to its end and the length is counted from there.  Neither piece has a CR or a
  LF, the buffer has room for the whole, and, before and after the second piece, the number behind
  any Content-Length: in the buffer is between 0 and 2 ^ 30.\<close>

theorem http_split_body_stalls:
  assumes "conn_at c t t n" "body_ok c" "m_check_state c = CHECK_STATE_CONTENT"
    and "t < n" "m_content_length c = int (n - t + length r)" "r \<noteq> []" "n + length r < READ_BUFFER_SIZE"
    and "\<And>k. t \<le> k \<Longrightarrow> k < n \<Longrightarrow> m_read_buf c ! k \<noteq> CR \<and> m_read_buf c ! k \<noteq> LF"
    and "CR \<notin> set r" "LF \<notin> set r"
    and "content_lengths_ok (m_read_buf (receive r c))"
  shows "\<exists>c' c''. process_read os c = Some (NO_REQUEST, c')
     \<and> process_read os (receive r c') = Some (NO_REQUEST, c'')"
proof -
  have "int n < int t + m_content_length c" using assms(4-6) by simp
  from body_piece [OF assms(1-3) this assms(8)] obtain e c'
    where c': "process_read os c = Some (NO_REQUEST, c')" "conn_at c' t n n" "body_ok c'"
      "c' = c\<lparr>m_start_line := int t, m_checked_idx := int n, sys_calls := e\<rparr>" by blast
  let ?r = "receive r c'"
  note at = conn_at_receive [OF c'(2) assms(7)]
  have b: "m_read_buf ?r = m_read_buf (receive r c)" "m_content_length ?r = m_content_length c"
    "m_check_state ?r = CHECK_STATE_CONTENT"
    using assms(3) unfolding receive_def c'(4) by simp_all
  have bd: "body_ok ?r" using assms(2,11) b by (simp add: body_ok_def)
  have short: "int (n + length r) < int n + m_content_length ?r" using b(2) assms(4,5) by simp
  have no: "m_read_buf ?r ! k \<noteq> CR \<and> m_read_buf ?r ! k \<noteq> LF" if "n \<le> k" "k < n + length r" for k
  proof -
    have kn: "k - n < length r" using that by simp
    have "m_read_buf ?r ! (n + (k - n)) = r ! (k - n)"
      by (rule receive_nth(2) [OF c'(2) assms(7) kn])
    then have "m_read_buf ?r ! k = r ! (k - n)" using that by simp
    then show ?thesis using assms(9,10) nth_mem [OF kn] by metis
  qed
  show ?thesis using c'(1) body_piece [OF at bd b(3) short no, of os] by blast
qed

theorem http_split_body_stalls_witness:
  "\<exists>c' c''. process_read sample_os (conn_body ''ab'' 4) = Some (NO_REQUEST, c')
     \<and> process_read sample_os (receive ''cd'' c') = Some (NO_REQUEST, c'')"
proof (rule http_split_body_stalls)
  show "conn_at (conn_body ''ab'' 4) 3 3 5"
    using conn_body_ok [of "''ab''" 4] by (simp add: READ_BUFFER_SIZE_def)
  show "body_ok (conn_body ''ab'' 4)"
    unfolding body_ok_def by (intro conjI content_lengths_ok_no_colon) (simp_all add: conn_body_def conn_after_def)
  show "content_lengths_ok (m_read_buf (receive ''cd'' (conn_body ''ab'' 4)))"
    by (rule content_lengths_ok_no_colon) (simp add: receive_def conn_body_def conn_after_def)
  show "m_read_buf (conn_body ''ab'' 4) ! k \<noteq> CR \<and> m_read_buf (conn_body ''ab'' 4) ! k \<noteq> LF"
    if "3 \<le> k" "k < 5" for k :: nat
    using that by (auto simp: conn_body_def conn_after_def nth_Cons' nth_append)
qed (simp_all add: conn_body_def READ_BUFFER_SIZE_def)

text \<open>A negative Content-Length makes the parser write in front of the read buffer: in the state in
  which the body is awaited, with m_content_length below minus the place where the body begins,
  process_read is undefined.\<close>

theorem http_negative_length:
  assumes "conn_at c t i n" "m_check_state c = CHECK_STATE_CONTENT" "m_content_length c < - int t"
  shows "process_read os c = None"
proof -
  have a: "m_checked_idx c = int i" "m_read_idx c = int n" "m_start_line c = int t" "t \<le> i" "i \<le> n"
    "length (m_read_buf c) = READ_BUFFER_SIZE" "n < READ_BUFFER_SIZE" "m_read_buf c ! n = NUL"
    using assms(1) unfolding conn_at_def by auto
  obtain s where s: "cstr (m_read_buf c) (int t) = Some s"
    using cstr_exists [of t n "m_read_buf c"] a by auto
  have "parse_content (int t) (new_line i s c) = None"
    using a assms(3) by (cases "add_int (m_content_length c) (int i)")
      (auto simp: parse_content_def add_int_def arr_set_def split: if_splits)
  then have "line_step os c = None" using line_step_new [OF s a(3,1)] assms(2) by simp
  then show ?thesis using assms(2)
    unfolding process_read_def by (subst process_read_loop.simps) (simp add: loop_condition_def)
qed

theorem http_negative_length_witness:
  "process_read sample_os (conn_body ''ab'' (-99)) = None"
  using http_negative_length [OF conn_body_ok [of "''ab''" "-99"]]
  by (simp add: conn_body_def READ_BUFFER_SIZE_def)

text \<open>A line that ends badly blocks the connection for good: once parse_line has found LINE_BAD,
  process_read answers NO_REQUEST (not BAD_REQUEST) and, whatever is received afterwards, answers
  NO_REQUEST again and changes nothing.\<close>

theorem http_bad_line_blocks:
  assumes "conn_at c t i n" "m_check_state c \<noteq> CHECK_STATE_CONTENT" "parse_line c = Some (LINE_BAD, c')"
    and "n + length r < READ_BUFFER_SIZE"
  shows "process_read os c = Some (NO_REQUEST, c')
    \<and> process_read os (receive r c') = Some (NO_REQUEST, receive r c')"
proof -
  have a: "length (m_read_buf c) = READ_BUFFER_SIZE" "m_checked_idx c = int i" "m_read_idx c = int n"
    "i \<le> n" "n < READ_BUFFER_SIZE" "0 < i \<Longrightarrow> m_read_buf c ! (i - 1) \<noteq> CR"
    using assms(1) unfolding conn_at_def by auto
  have l: "n \<le> length (m_read_buf c)" using a by simp
  let ?j = "line_end (m_read_buf c) i n"
  note j = line_end_bounds [OF a(4) l]
  have p: "parse_line c = (case line_spec (m_read_buf c) i n of (st, buf, i) \<Rightarrow>
      Some (st, c\<lparr>m_read_buf := buf, m_checked_idx := int i\<rparr>))"
    using parse_line_loop_spec [OF a(4) l a(6)] a(2,3)
    by (simp add: parse_line_def int_result_def split: prod.splits)
  have q: "c' = c\<lparr>m_checked_idx := int ?j\<rparr>" "?j < n"
    "m_read_buf c ! ?j = LF \<or> m_read_buf c ! ?j = CR \<and> ?j + 1 < n \<and> m_read_buf c ! (?j + 1) \<noteq> LF"
    using p assms(3) j line_end_char [OF a(4) l] by (auto simp: line_spec_def Let_def split: if_splits)
  obtain st' c1 i1 where s: "parse_line c = Some (st', c1)" "conn_at c1 t i1 n"
    "c1 = c\<lparr>m_read_buf := m_read_buf c1, m_checked_idx := int i1\<rparr>"
    using parse_line_step [OF assms(1)] by blast
  have "c1 = c'" using s(1) assms(3) by simp
  moreover have "m_checked_idx c1 = int i1" using s(2) by (simp add: conn_at_def)
  ultimately have "conn_at c' t ?j n" using s(2) q(1) by simp
  note at = conn_at_receive [OF this assms(4)] and nth = receive_nth(1) [OF this assms(4)]
  let ?r = "receive r c'"
  have r: "m_checked_idx ?r = int ?j" "m_read_idx ?r = int (n + length r)" "length (m_read_buf ?r) = READ_BUFFER_SIZE"
    "n + length r < READ_BUFFER_SIZE" "0 < ?j \<Longrightarrow> m_read_buf ?r ! (?j - 1) \<noteq> CR"
    using at unfolding conn_at_def by blast+
  have b: "m_read_buf ?r ! ?j = m_read_buf c ! ?j" "?j + 1 < n \<Longrightarrow> m_read_buf ?r ! (?j + 1) = m_read_buf c ! (?j + 1)"
    using nth q by simp_all
  have "parse_line_loop (m_read_buf ?r) (int ?j) (int (n + length r)) = Some (LINE_BAD, m_read_buf ?r, int ?j)"
    using q(3)
  proof
    assume "m_read_buf c ! ?j = LF"
    then show ?thesis using b q(2) r by (intro parse_line_loop_LF) auto
  next
    assume "m_read_buf c ! ?j = CR \<and> ?j + 1 < n \<and> m_read_buf c ! (?j + 1) \<noteq> LF"
    then show ?thesis using b q(2) r parse_line_loop_CR [of ?j "n + length r" "m_read_buf ?r"] by simp
  qed
  then have "parse_line ?r = Some (LINE_BAD, ?r\<lparr>m_read_buf := m_read_buf ?r, m_checked_idx := m_checked_idx ?r\<rparr>)"
    using r by (simp add: parse_line_def)
  then have pr: "parse_line ?r = Some (LINE_BAD, ?r)" by simp
  have st: "m_check_state ?r \<noteq> CHECK_STATE_CONTENT" using assms(2) q(1) by (simp add: receive_def)
  have "process_read os c = Some (NO_REQUEST, c')" "process_read os ?r = Some (NO_REQUEST, ?r)"
    unfolding process_read_def
    using assms(2,3) st pr by (subst process_read_loop.simps, simp add: loop_condition_def)+
  then show ?thesis by blast
qed

theorem http_bad_line_blocks_witness:
  "\<exists>c'. process_read sample_os (conn_after (''GET'' @ [LF])) = Some (NO_REQUEST, c')
    \<and> process_read sample_os (receive ''x'' c') = Some (NO_REQUEST, receive ''x'' c')"
proof -
  let ?c = "conn_after (''GET'' @ [LF])"
  have l: "length (''GET'' @ [LF]) = 4" by simp
  have at: "conn_at ?c 0 0 4"
    using conn_after_ok [of "''GET'' @ [LF]", unfolded l READ_BUFFER_SIZE_def] by simp
  have "parse_line_loop (m_read_buf ?c) (int 0) (int 4) = parse_line_loop (m_read_buf ?c) (int 3) (int 4)"
    by (rule parse_line_loop_skip)
      (auto simp: conn_after_def READ_BUFFER_SIZE_def nth_Cons' less_Suc_eq numeral_3_eq_3)
  also have "\<dots> = Some (LINE_BAD, m_read_buf ?c, int 3)"
    by (rule parse_line_loop_LF) (simp_all add: conn_after_def READ_BUFFER_SIZE_def)
  finally have "parse_line ?c = Some (LINE_BAD, ?c\<lparr>m_checked_idx := 3\<rparr>)"
    by (simp add: parse_line_def) (simp add: conn_after_def)
  then show ?thesis
    using http_bad_line_blocks [OF at, of _ "''x''" sample_os]
    by (fastforce simp: conn_after_def READ_BUFFER_SIZE_def)
qed

end
