(* ===== verification/HttpConn_Chunks.thy ===== *)
theory HttpConn_Chunks
  imports HttpConn_Props
begin

text \<open>
  A request that arrives in pieces.  \<open>process_read\<close> is called after every piece and keeps its place
  in the buffer; here it is shown that the head of a request is parsed the same way however it was
  cut.  The operations of the parser look at nothing behind the end of the current line, so they
  commute with the arrival of more bytes.
\<close>

subsection \<open>A buffer that has received more\<close>

definition ext :: "string \<Rightarrow> nat \<Rightarrow> char list \<Rightarrow> char list" where
  "ext r n b = take n b @ r @ drop (n + length r) b"

text \<open>A place \<open>e\<close> in the filled part that holds NUL.\<close>

definition ends :: "char list \<Rightarrow> nat \<Rightarrow> nat \<Rightarrow> bool" where
  "ends b e n \<longleftrightarrow> e < n \<and> n \<le> length b \<and> b ! e = NUL"

lemma ext_nth: "k < n \<Longrightarrow> n \<le> length b \<Longrightarrow> ext r n b ! k = b ! k"
  by (simp add: ext_def nth_append)

lemma ext_length: "n + length r \<le> length b \<Longrightarrow> length (ext r n b) = length b"
  by (simp add: ext_def)

lemma ext_set: "k < n \<Longrightarrow> n \<le> length b \<Longrightarrow> ext r n (b[k := v]) = (ext r n b)[k := v]"
  by (simp add: ext_def list_update_append take_update_swap)

lemma ends_set: "ends b e n \<Longrightarrow> ends (b[k := NUL]) e n"
  by (cases "k = e") (auto simp: ends_def)

lemma ends_cstr:
  assumes "ends b e n" "0 \<le> p" "nat p \<le> e"
  obtains s where "cstr b p = Some s" "nat p + length s \<le> e"
  using cstr_exists [of "nat p" e b] assms by (auto simp: ends_def)

lemma ext_cstr:
  assumes "ends b e n" "n + length r \<le> length b" "0 \<le> p" "nat p \<le> e"
  shows "cstr (ext r n b) p = cstr b p"
proof -
  obtain s where s: "cstr b p = Some s" "nat p + length s \<le> e" using ends_cstr [OF assms(1,3,4)] .
  have "cstr (ext r n b) p = Some s"
  proof (rule cstr_cong [OF s(1) ext_length [OF assms(2)]])
    fix k assume "k \<le> nat p + length s"
    then have "k < n" "n \<le> length b" using s(2) assms(1) by (simp_all add: ends_def)
    then show "ext r n b ! k = b ! k" by (rule ext_nth)
  qed
  then show ?thesis by (simp add: s(1))
qed

lemma ext_arr:
  assumes "0 \<le> k" "nat k < n" "n + length r \<le> length b"
  shows "arr_get (ext r n b) k = Some (b ! nat k)" "arr_get b k = Some (b ! nat k)"
    "arr_set (ext r n b) k v = Some (ext r n (b[nat k := v]))" "arr_set b k v = Some (b[nat k := v])"
  using assms ext_length [OF assms(3)] by (simp_all add: arr_get_def arr_set_def ext_set ext_nth)

lemma find_blank_ext:
  assumes "ends b e n" "n + length r \<le> length b" "0 \<le> p" "nat p \<le> e"
  obtains x where "find_blank b p = Some x" "find_blank (ext r n b) p = Some x"
    "\<And>u. x = Some u \<Longrightarrow> p \<le> u \<and> nat u < e"
proof -
  obtain s where s: "cstr b p = Some s" "nat p + length s \<le> e" using ends_cstr [OF assms(1,3,4)] .
  have "p \<le> p + u \<and> nat (p + u) < e" if "strpbrk s blanks = Some u" for u
    using strpbrk_Some(1,2) [OF that] s(2) assms(3) by (simp add: nat_add_distrib)
  then have "\<And>u. map_option (\<lambda>n. p + n) (strpbrk s blanks) = Some u \<Longrightarrow> p \<le> u \<and> nat u < e" by (auto simp del: set_simps)
  then show ?thesis using s(1) ext_cstr [OF assms]
    by (intro that [of "map_option (\<lambda>n. p + n) (strpbrk s blanks)"]) (simp_all add: find_blank_def)
qed

lemma skip_blanks_ext:
  assumes "ends b e n" "n + length r \<le> length b" "0 \<le> p" "nat p \<le> e"
  obtains q where "skip_blanks b p = Some q" "skip_blanks (ext r n b) p = Some q" "p \<le> q" "nat q \<le> e"
proof -
  obtain s where s: "cstr b p = Some s" "nat p + length s \<le> e" using ends_cstr [OF assms(1,3,4)] .
  show ?thesis using that [of "p + strspn s blanks"] s ext_cstr [OF assms] strspn_le [of s blanks] assms(3)
    by (auto simp: skip_blanks_def nat_add_distrib)
qed

lemma skip_scheme_ext:
  assumes "ends b e n" "n + length r \<le> length b" "0 \<le> p" "nat p \<le> e"
  obtains x where "skip_scheme b p = Some x" "skip_scheme (ext r n b) p = Some x"
    "\<And>u. x = Some u \<Longrightarrow> p \<le> u \<and> nat u \<le> e"
proof -
  obtain s where s: "cstr b p = Some s" "nat p + length s \<le> e" using ends_cstr [OF assms(1,3,4)] .
  show ?thesis
  proof (cases "strncase_eq s ''http://'' 7")
    case True
    have l: "7 \<le> length s" using strncase_eq_length [OF True] by simp
    have p7: "0 \<le> p + 7" "nat (p + 7) \<le> e" using l s(2) assms(3) by (simp_all add: nat_add_distrib)
    obtain s7 where s7: "cstr b (p + 7) = Some s7" "nat (p + 7) + length s7 \<le> e" using ends_cstr [OF assms(1) p7] .
    have "p \<le> p + 7 + u \<and> nat (p + 7 + u) \<le> e" if "strpbrk s7 ''/'' = Some u" for u
      using strpbrk_Some(1,2) [OF that] s7(2) p7(1) assms(3) by (simp add: nat_add_distrib)
    then have "\<And>u. map_option (\<lambda>n. p + 7 + n) (strpbrk s7 ''/'') = Some u \<Longrightarrow> p \<le> u \<and> nat u \<le> e" by auto
    then show ?thesis using True s(1) s7(1) ext_cstr [OF assms] ext_cstr [OF assms(1,2) p7]
      by (intro that [of "map_option (\<lambda>n. p + 7 + n) (strpbrk s7 ''/'')"]) (simp_all add: skip_scheme_def)
  next
    case False
    then show ?thesis using that [of "Some p"] s(1) ext_cstr [OF assms] assms(4) by (simp add: skip_scheme_def)
  qed
qed

subsection \<open>The operations of the parser\<close>

lemma receive_ext: "receive s c = c\<lparr>m_read_buf := ext s (nat (m_read_idx c)) (m_read_buf c), m_read_idx := m_read_idx c + int (length s)\<rparr>"
  by (simp add: receive_def ext_def)

lemma receive_sel [simp]:
  "m_read_buf (receive s c) = ext s (nat (m_read_idx c)) (m_read_buf c)" "m_read_idx (receive s c) = m_read_idx c + int (length s)"
  "m_start_line (receive s c) = m_start_line c" "m_checked_idx (receive s c) = m_checked_idx c"
  "m_check_state (receive s c) = m_check_state c" "m_method (receive s c) = m_method c" "m_url (receive s c) = m_url c"
  "m_content_length (receive s c) = m_content_length c" "m_real_file (receive s c) = m_real_file c"
  "m_linger (receive s c) = m_linger c"
  by (simp_all add: receive_ext)

text \<open>What changes in the connection does not depend on what has arrived behind the line.\<close>

lemma receive_upd:
  "receive s (c\<lparr>m_url := u\<rparr>) = (receive s c)\<lparr>m_url := u\<rparr>" "receive s (c\<lparr>m_version := v\<rparr>) = (receive s c)\<lparr>m_version := v\<rparr>"
  "receive s (c\<lparr>m_method := m\<rparr>) = (receive s c)\<lparr>m_method := m\<rparr>" "receive s (c\<lparr>m_check_state := st\<rparr>) = (receive s c)\<lparr>m_check_state := st\<rparr>"
  "receive s (c\<lparr>m_linger := l\<rparr>) = (receive s c)\<lparr>m_linger := l\<rparr>" "receive s (c\<lparr>m_content_length := n\<rparr>) = (receive s c)\<lparr>m_content_length := n\<rparr>"
  "receive s (c\<lparr>m_host := h\<rparr>) = (receive s c)\<lparr>m_host := h\<rparr>" "receive s (c\<lparr>m_real_file := f\<rparr>) = (receive s c)\<lparr>m_real_file := f\<rparr>"
  "receive s (c\<lparr>m_file_stat := fs\<rparr>) = (receive s c)\<lparr>m_file_stat := fs\<rparr>" "receive s (c\<lparr>m_file_address := a\<rparr>) = (receive s c)\<lparr>m_file_address := a\<rparr>"
  "receive s (c\<lparr>m_start_line := i\<rparr>) = (receive s c)\<lparr>m_start_line := i\<rparr>" "receive s (c\<lparr>m_checked_idx := i\<rparr>) = (receive s c)\<lparr>m_checked_idx := i\<rparr>"
  "receive s (c\<lparr>m_read_buf := b\<rparr>) = (receive s c)\<lparr>m_read_buf := ext s (nat (m_read_idx c)) b\<rparr>"
  "receive s (sys x c) = sys x (receive s c)"
  by (simp_all add: receive_ext sys_def)

abbreviation later :: "string \<Rightarrow> ('r \<times> 'a http_conn) option \<Rightarrow> ('r \<times> 'a http_conn) option" where
  "later s r \<equiv> map_option (\<lambda>(x, c). (x, receive s c)) r"

text \<open>The line in front of the place \<open>e\<close>, which begins at \<open>t\<close>.\<close>

definition line_at :: "string \<Rightarrow> 'a http_conn \<Rightarrow> int \<Rightarrow> nat \<Rightarrow> bool" where
  "line_at s c t e \<longleftrightarrow> 0 \<le> t \<and> nat t \<le> e \<and> ends (m_read_buf c) e (nat (m_read_idx c))
     \<and> nat (m_read_idx c) + length s \<le> length (m_read_buf c)"

lemma parse_request_line_later:
  assumes "line_at r c t e"
  shows "parse_request_line t (receive r c) = later r (parse_request_line t c)"
proof -
  let ?b = "m_read_buf c" and ?n = "nat (m_read_idx c)"
  have a: "ends ?b e ?n" "?n + length r \<le> length ?b" "0 \<le> t" "nat t \<le> e" using assms by (auto simp: line_at_def)
  have en: "e < ?n" using a(1) by (simp add: ends_def)
  obtain x where x: "find_blank ?b t = Some x" "find_blank (ext r ?n ?b) t = Some x" "\<And>u. x = Some u \<Longrightarrow> t \<le> u \<and> nat u < e"
    using find_blank_ext [OF a] by blast
  show ?thesis
  proof (cases x)
    case None
    then show ?thesis using x by (simp add: parse_request_line_def receive_upd)
  next
    case (Some u)
    then have u: "0 \<le> u" "nat u < e" "nat u < ?n" using x(3) [OF Some] a(3) en by auto
    let ?b1 = "?b[nat u := NUL]"
    have b1: "ends ?b1 e ?n" "?n + length r \<le> length ?b1" using a ends_set by simp_all
    obtain meth where meth: "cstr ?b1 t = Some meth" "cstr (ext r ?n ?b1) t = Some meth"
      using ends_cstr [OF b1(1) a(3,4)] ext_cstr [OF b1 a(3,4)] by metis
    have u1: "0 \<le> u + 1" "nat (u + 1) \<le> e" using u by (simp_all add: nat_add_distrib)
    obtain q where q: "skip_blanks ?b1 (u + 1) = Some q" "skip_blanks (ext r ?n ?b1) (u + 1) = Some q" "u + 1 \<le> q" "nat q \<le> e"
      using skip_blanks_ext [OF b1 u1] by blast
    have q0: "0 \<le> q" using q(3) u by simp
    obtain y where y: "find_blank ?b1 q = Some y" "find_blank (ext r ?n ?b1) q = Some y" "\<And>v. y = Some v \<Longrightarrow> q \<le> v \<and> nat v < e"
      using find_blank_ext [OF b1 q0 q(4)] by blast
    note s1 = ext_arr(3,4) [OF u(1,3) a(2), of NUL]
    show ?thesis
    proof (cases "strcase_eq meth ''GET''")
      case False
      then show ?thesis using x Some s1 meth by (simp add: parse_request_line_def receive_upd)
    next
      case get: True
      show ?thesis
      proof (cases y)
        case None
        then show ?thesis using x Some s1 meth get q y by (simp add: parse_request_line_def receive_upd)
      next
        case y': (Some v)
        then have v: "0 \<le> v" "nat v < e" "nat v < ?n" using y(3) [OF y'] q0 en by auto
        let ?b2 = "?b1[nat v := NUL]"
        have b2: "ends ?b2 e ?n" "?n + length r \<le> length ?b2" using b1 ends_set by simp_all
        have v1: "0 \<le> v + 1" "nat (v + 1) \<le> e" using v by (simp_all add: nat_add_distrib)
        obtain w where w: "skip_blanks ?b2 (v + 1) = Some w" "skip_blanks (ext r ?n ?b2) (v + 1) = Some w" "v + 1 \<le> w" "nat w \<le> e"
          using skip_blanks_ext [OF b2 v1] by blast
        have w0: "0 \<le> w" using w(3) v by simp
        obtain vs where vs: "cstr ?b2 w = Some vs" "cstr (ext r ?n ?b2) w = Some vs"
          using ends_cstr [OF b2(1) w0 w(4)] ext_cstr [OF b2 w0 w(4)] by metis
        obtain z where z: "skip_scheme ?b2 q = Some z" "skip_scheme (ext r ?n ?b2) q = Some z" "\<And>u. z = Some u \<Longrightarrow> q \<le> u \<and> nat u \<le> e"
          using skip_scheme_ext [OF b2 q0 q(4)] by blast
        note s2 = ext_arr(3,4) [OF v(1,3) b1(2), of NUL]
        show ?thesis
        proof (cases z)
          case None
          then show ?thesis using x Some s1 meth get q y y' s2 w vs z
            by (cases "strcase_eq vs ''HTTP/1.1''") (simp_all add: parse_request_line_def receive_upd)
        next
          case z': (Some k)
          then have k: "0 \<le> k" "nat k < ?n" using z(3) [OF z'] q0 en by auto
          then show ?thesis using x Some s1 meth get q y y' s2 w vs z z' ext_arr(1,2) [OF k b2(2)]
            by (cases "strcase_eq vs ''HTTP/1.1''") (simp_all add: parse_request_line_def receive_upd Let_def)
        qed
      qed
    qed
  qed
qed

lemma parse_headers_frame:
  assumes "parse_headers t c = Some (ret, d)"
  shows "m_url d = m_url c \<and> m_read_buf d = m_read_buf c \<and> m_read_idx d = m_read_idx c"
proof -
  obtain s where s: "cstr (m_read_buf c) t = Some s" using assms by (cases "cstr (m_read_buf c) t") (auto simp: parse_headers_def)
  show ?thesis
  proof (cases "s = []")
    case True
    then show ?thesis using assms s by (auto simp: parse_headers_def split: if_splits)
  next
    case False
    note run = assms [unfolded parse_headers_def s bind.bind_lunit]
    show ?thesis
    proof (cases "strncase_eq s ''Connection:'' 11")
      case True
      then show ?thesis using run False by (auto simp: bind_eq_Some_conv simp del: set_simps)
    next
      case nc: False
      show ?thesis
      proof (cases "strncase_eq s ''Content-Length:'' 15")
        case True
        then show ?thesis using run False nc by (auto simp: bind_eq_Some_conv)
      next
        case nl: False
        then show ?thesis using run False nc by (cases "strncase_eq s ''Host:'' 5") (auto simp: bind_eq_Some_conv sys_def)
      qed
    qed
  qed
qed

lemma parse_headers_later:
  assumes "line_at r c t e"
  shows "parse_headers t (receive r c) = later r (parse_headers t c)"
proof -
  let ?b = "m_read_buf c" and ?n = "nat (m_read_idx c)"
  have a: "ends ?b e ?n" "?n + length r \<le> length ?b" "0 \<le> t" "nat t \<le> e" using assms by (auto simp: line_at_def)
  obtain s where s: "cstr ?b t = Some s" "nat t + length s \<le> e" using ends_cstr [OF a(1,3,4)] .
  have s': "cstr (ext r ?n ?b) t = Some s" using ext_cstr [OF a] s(1) by simp
  have skip: "\<exists>q v. skip_blanks ?b (t + int k) = Some q \<and> skip_blanks (ext r ?n ?b) (t + int k) = Some q
      \<and> cstr ?b q = Some v \<and> cstr (ext r ?n ?b) q = Some v" if "k \<le> length s" for k
  proof -
    have k: "0 \<le> t + int k" "nat (t + int k) \<le> e" using that s(2) a(3) by (simp_all add: nat_add_distrib)
    obtain q where q: "skip_blanks ?b (t + int k) = Some q" "skip_blanks (ext r ?n ?b) (t + int k) = Some q" "t + int k \<le> q" "nat q \<le> e"
      using skip_blanks_ext [OF a(1,2) k] by blast
    have q0: "0 \<le> q" using q(3) k(1) by simp
    obtain v where "cstr ?b q = Some v" using ends_cstr [OF a(1) q0 q(4)] by blast
    then show ?thesis using q(1,2) ext_cstr [OF a(1,2) q0 q(4)] by auto
  qed
  consider "s = []" | "s \<noteq> []" "strncase_eq s ''Connection:'' 11"
    | "s \<noteq> []" "\<not> strncase_eq s ''Connection:'' 11" "strncase_eq s ''Content-Length:'' 15"
    | "s \<noteq> []" "\<not> strncase_eq s ''Connection:'' 11" "\<not> strncase_eq s ''Content-Length:'' 15" "strncase_eq s ''Host:'' 5"
    | "s \<noteq> []" "\<not> strncase_eq s ''Connection:'' 11" "\<not> strncase_eq s ''Content-Length:'' 15" "\<not> strncase_eq s ''Host:'' 5" by blast
  then show ?thesis
  proof cases
    case 1
    then show ?thesis using s(1) s' by (simp add: parse_headers_def receive_upd)
  next
    case 2
    then have "11 \<le> length s" using strncase_eq_length [of s "''Connection:''" 11] by simp
    then show ?thesis using 2 s(1) s' skip [of 11] by (auto simp: parse_headers_def receive_upd)
  next
    case 3
    then have "15 \<le> length s" using strncase_eq_length [of s "''Content-Length:''" 15] by simp
    then obtain q v where q: "skip_blanks ?b (t + 15) = Some q" "skip_blanks (ext r ?n ?b) (t + 15) = Some q"
      "cstr ?b q = Some v" "cstr (ext r ?n ?b) q = Some v" using skip [of 15] by auto
    then show ?thesis using 3 s(1) s' by (cases "atol v") (simp_all add: parse_headers_def receive_upd)
  next
    case 4
    then have "5 \<le> length s" using strncase_eq_length [of s "''Host:''" 5] by simp
    then show ?thesis using 4 s(1) s' skip [of 5] by (auto simp: parse_headers_def receive_upd)
  next
    case 5
    then show ?thesis using s(1) s' by (simp add: parse_headers_def receive_upd)
  qed
qed

lemma do_request_later:
  assumes "line_at r c u e" "m_url c = Some u"
  shows "do_request os (receive r c) = later r (do_request os c)"
proof -
  let ?b = "m_read_buf c" and ?n = "nat (m_read_idx c)"
  have a: "ends ?b e ?n" "?n + length r \<le> length ?b" "0 \<le> u" "nat u \<le> e" using assms(1) by (auto simp: line_at_def)
  obtain s where s: "cstr ?b u = Some s" using ends_cstr [OF a(1,3,4)] .
  have s': "cstr (ext r ?n ?b) u = Some s" using ext_cstr [OF a] s by simp
  show ?thesis
  proof (cases "strcpy (m_real_file c) doc_root \<bind> (\<lambda>f. strncpy f (length doc_root) s (FILENAME_LEN - length doc_root - 1))")
    case None
    then show ?thesis using s s' assms(2)
      by (cases "strcpy (m_real_file c) doc_root") (simp_all add: do_request_def Let_def)
  next
    case (Some f2)
    then obtain f1 where f: "strcpy (m_real_file c) doc_root = Some f1"
      "strncpy f1 (length doc_root) s (FILENAME_LEN - length doc_root - 1) = Some f2" by (auto simp: bind_eq_Some_conv)
    show ?thesis
    proof (cases "cstr f2 0")
      case None
      then show ?thesis using f s s' assms(2) by (simp add: do_request_def Let_def)
    next
      case (Some path)
      then show ?thesis using f s s' assms(2)
        by (cases "os_stat os path") (simp_all add: do_request_def Let_def receive_upd)
    qed
  qed
qed

lemma line_at_cong:
  "line_at r c t e \<Longrightarrow> m_read_buf c' = m_read_buf c \<Longrightarrow> m_read_idx c' = m_read_idx c \<Longrightarrow> line_at r c' t e"
  by (simp add: line_at_def)

text \<open>
  What \<open>conn_at\<close> says of the line that was just completed, and of the path in front of it.
\<close>

lemma conn_line_at:
  assumes "conn_at c t i n" "n + length r < READ_BUFFER_SIZE" "cstr (m_read_buf c) (int t) = Some s" "t + length s < i"
  shows "line_at r c (int t) (t + length s)"
  using assms cstr_len [OF assms(3)] by (auto simp: line_at_def ends_def conn_at_def)

lemma conn_url_at:
  assumes "conn_at c t i n" "n + length r < READ_BUFFER_SIZE" "m_check_state c \<noteq> CHECK_STATE_REQUESTLINE"
  shows "\<exists>u e. m_url c = Some u \<and> line_at r c u e"
proof -
  obtain u s where u: "m_url c = Some (int u)" "cstr (m_read_buf c) (int u) = Some s" "u + length s < t"
    using assms(1,3) by (auto simp: conn_at_def url_ok_def)
  have "line_at r c (int u) (u + length s)"
    using assms(1,2) u(3) cstr_len [OF u(2)] by (auto simp: line_at_def ends_def conn_at_def)
  then show ?thesis using u(1) by blast
qed

lemma receive_new_line: "receive r (new_line i s c) = new_line i s (receive r c)"
  by (simp add: new_line_def receive_upd)

lemma line_step_later:
  assumes at: "conn_at c t i n" and r: "n + length r < READ_BUFFER_SIZE" and st: "m_check_state c \<noteq> CHECK_STATE_CONTENT"
    and s: "cstr (m_read_buf c) (int t) = Some s" "t + length s < i"
  shows "line_step os (receive r c) = later r (line_step os c)"
proof -
  note l = conn_line_at [OF at r s]
  have idx: "m_start_line c = int t" "m_checked_idx c = int i" using at by (simp_all add: conn_at_def)
  have n: "nat (m_read_idx c) = n" "length (m_read_buf c) = READ_BUFFER_SIZE" using at by (simp_all add: conn_at_def)
  have s': "cstr (m_read_buf (receive r c)) (int t) = Some s"
    using ext_cstr [of "m_read_buf c" "t + length s" n r "int t"] l s(1) n by (simp add: line_at_def)
  have run: "line_step os c = (case m_check_state c of
       CHECK_STATE_REQUESTLINE \<Rightarrow> do {
         (ret, c) \<leftarrow> parse_request_line (int t) (new_line i s c);
         Some (if ret = BAD_REQUEST then Inl BAD_REQUEST else Inr LINE_OK, c) }
     | _ \<Rightarrow> do {
         (ret, c) \<leftarrow> parse_headers (int t) (new_line i s c);
         if ret = BAD_REQUEST then Some (Inl BAD_REQUEST, c)
         else if ret = GET_REQUEST then do { (r, c) \<leftarrow> do_request os c; Some (Inl r, c) }
         else Some (Inr LINE_OK, c) })"
    if "cstr (m_read_buf c) (int t) = Some s" "m_start_line c = int t" "m_checked_idx c = int i" "m_check_state c \<noteq> CHECK_STATE_CONTENT"
    for c :: "'a http_conn"
    using line_step_new [OF that(1-3)] that(4) by (cases "m_check_state c") simp_all
  note run1 = run [OF s(1) idx st]
  have r2: "line_step os (receive r c) = (case m_check_state c of
       CHECK_STATE_REQUESTLINE \<Rightarrow> do {
         (ret, c) \<leftarrow> parse_request_line (int t) (receive r (new_line i s c));
         Some (if ret = BAD_REQUEST then Inl BAD_REQUEST else Inr LINE_OK, c) }
     | _ \<Rightarrow> do {
         (ret, c) \<leftarrow> parse_headers (int t) (receive r (new_line i s c));
         if ret = BAD_REQUEST then Some (Inl BAD_REQUEST, c)
         else if ret = GET_REQUEST then do { (r, c) \<leftarrow> do_request os c; Some (Inl r, c) }
         else Some (Inr LINE_OK, c) })"
    unfolding receive_new_line using run [OF s'] idx st by simp
  have ln: "line_at r (new_line i s c) (int t) (t + length s)" by (rule line_at_cong [OF l]) simp_all
  show ?thesis
  proof (cases "m_check_state c")
    case CHECK_STATE_REQUESTLINE
    then show ?thesis
      using parse_request_line_later [OF ln] by (cases "parse_request_line (int t) (new_line i s c)") (auto simp: run1 r2)
  next
    case CHECK_STATE_HEADER
    show ?thesis
    proof (cases "parse_headers (int t) (new_line i s c)")
      case None
      then show ?thesis using parse_headers_later [OF ln] CHECK_STATE_HEADER by (simp add: run1 r2)
    next
      case (Some a)
      then obtain ret d where d: "parse_headers (int t) (new_line i s c) = Some (ret, d)" by (cases a) auto
      obtain u e where u: "m_url c = Some u" "line_at r c u e" using conn_url_at [OF at r] CHECK_STATE_HEADER by auto
      have same: "m_url d = m_url c" "m_read_buf d = m_read_buf c" "m_read_idx d = m_read_idx c"
        using parse_headers_frame [OF d] by simp_all
      have "do_request os (receive r d) = later r (do_request os d)"
        using u same by (intro do_request_later [of r d u e]) (auto simp: line_at_def)
      then show ?thesis
        using d parse_headers_later [OF ln] CHECK_STATE_HEADER
        by (cases "do_request os d") (auto simp: run1 r2)
    qed
  qed (use st in simp)
qed

subsection \<open>The loop\<close>

text \<open>A complete line is found again; an incomplete one is looked for again from where the scan stopped.\<close>

lemma line_spec_later:
  assumes "i \<le> n" "n + length r \<le> length b" "line_spec b i n = (LINE_OK, b', j)"
  shows "line_spec (ext r n b) i (n + length r) = (LINE_OK, ext r n b', j)"
proof -
  have n: "n \<le> length b" "n + length r \<le> length (ext r n b)" using assms(2) by (simp_all add: ext_length)
  let ?j = "line_end b i n"
  note bd = line_end_bounds [OF assms(1) n(1)]
  have ok: "?j < n" "b ! ?j = CR" "?j + 1 < n" "b ! (?j + 1) = LF" "b' = b[?j := NUL, ?j + 1 := NUL]" "j = ?j + 2"
    using assms(3) bd(2) line_end_char [OF assms(1) n(1)] by (auto simp: line_spec_def Let_def split: if_splits)
  have e: "ext r n b ! k = b ! k" if "k < n" for k using that n(1) by (rule ext_nth)
  have "line_end (ext r n b) i (n + length r) = ?j"
  proof -
    let ?P = "\<lambda>c. c \<noteq> CR \<and> c \<noteq> LF"
    have u: "drop i (take (n + length r) (ext r n b)) = drop i (take n b) @ r" using n(1) assms(1) by (simp add: ext_def)
    have "length (takeWhile ?P (drop i (take n b))) < length (drop i (take n b))" using ok(1) n(1) bd(1) by (simp add: line_end_def)
    note x = nth_mem [OF this] nth_length_takeWhile [OF this]
    have "takeWhile ?P (drop i (take n b) @ r) = takeWhile ?P (drop i (take n b))"
      by (rule takeWhile_append1 [OF x(1)]) (rule x(2))
    then show ?thesis by (simp add: line_end_def u)
  qed
  then show ?thesis using ok e n assms(2) by (simp add: line_spec_def Let_def ext_set)
qed

lemma parse_line_conn:
  assumes "conn_at c t i n"
  shows "parse_line c = (case line_spec (m_read_buf c) i n of (st, buf, j) \<Rightarrow> Some (st, c\<lparr>m_read_buf := buf, m_checked_idx := int j\<rparr>))"
  using parse_line_loop_spec [of i n "m_read_buf c"] assms
  by (simp add: parse_line_def conn_at_def int_result_def split: prod.splits)

lemma parse_line_later:
  assumes "conn_at c t i n" "n + length r < READ_BUFFER_SIZE" "parse_line c = Some (LINE_OK, c1)"
  shows "parse_line (receive r c) = Some (LINE_OK, receive r c1)"
proof -
  obtain b j where b: "line_spec (m_read_buf c) i n = (LINE_OK, b, j)" "c1 = c\<lparr>m_read_buf := b, m_checked_idx := int j\<rparr>"
    using assms(3) parse_line_conn [OF assms(1)] by (auto split: prod.splits)
  have a: "i \<le> n" "n + length r \<le> length (m_read_buf c)" "nat (m_read_idx c) = n" using assms(1,2) by (simp_all add: conn_at_def)
  show ?thesis
    using parse_line_conn [OF conn_at_receive [OF assms(1,2)]] line_spec_later [OF a(1,2) b(1)] a(3) by (simp add: b(2) receive_upd)
qed

lemma parse_line_again:
  assumes "conn_at c t i n" "n + length r < READ_BUFFER_SIZE" "parse_line c = Some (st, c1)" "st \<noteq> LINE_OK"
  shows "parse_line (receive r c1) = parse_line (receive r c)"
proof -
  let ?b = "m_read_buf c"
  have a: "i \<le> n" "n \<le> length ?b" "length ?b = READ_BUFFER_SIZE" "nat (m_read_idx c) = n" "0 < i \<longrightarrow> ?b ! (i - 1) \<noteq> CR"
    "m_checked_idx c = int i" "m_read_idx c = int n"
    using assms(1) by (auto simp: conn_at_def)
  let ?j = "line_end ?b i n"
  have c1: "c1 = c\<lparr>m_checked_idx := int ?j\<rparr>"
    using assms(3,4) parse_line_conn [OF assms(1)] by (cases c) (auto simp: line_spec_def Let_def split: prod.splits if_splits)
  have e: "ext r n ?b ! k = ?b ! k" if "k < n" for k using that a(2) by (rule ext_nth)
  have "parse_line_loop (ext r n ?b) (int i) (int (n + length r)) = parse_line_loop (ext r n ?b) (int ?j) (int (n + length r))"
  proof (rule parse_line_loop_skip)
    show "i \<le> ?j" "?j \<le> n + length r" using line_end_bounds [OF a(1,2)] by simp_all
    show "n + length r \<le> length (ext r n ?b)" using assms(2) a(3) by (simp add: ext_length)
    show "ext r n ?b ! k \<noteq> CR \<and> ext r n ?b ! k \<noteq> LF" if "i \<le> k" "k < ?j" for k
      using line_end_before [OF a(1,2) that] e line_end_bounds [OF a(1,2)] that by simp
  qed
  then show ?thesis by (simp add: c1 parse_line_def receive_upd a(4,6,7))
qed

text \<open>In the body the parser stays in the body, and no answer is \<open>NO_REQUEST\<close>.\<close>

lemma do_request_code: "do_request os c = Some (ret, d) \<Longrightarrow> ret \<noteq> NO_REQUEST"
  by (auto simp: do_request_def Let_def bind_eq_Some_conv split: option.splits if_splits)

lemma line_step_content:
  assumes "line_step os c = Some (x, d)"
  shows "x \<noteq> Inl NO_REQUEST" "m_check_state c = CHECK_STATE_CONTENT \<Longrightarrow> x = Inr st \<Longrightarrow> m_check_state d = CHECK_STATE_CONTENT"
  using assms
  by (cases "m_check_state c"; auto simp: line_step_def Let_def bind_eq_Some_conv parse_content_def sys_def dest!: do_request_code
      split: if_splits)+

lemma parse_line_state: "parse_line c = Some (st, d) \<Longrightarrow> m_check_state d = m_check_state c"
  by (auto simp: parse_line_def bind_eq_Some_conv)

lemma process_read_content:
  assumes "process_read_loop os st c = Some x"
  shows "fst x = NO_REQUEST \<longrightarrow> m_check_state c = CHECK_STATE_CONTENT \<longrightarrow> m_check_state (snd x) = CHECK_STATE_CONTENT"
    (is "?P os st c x")
proof (rule process_read_loop.raw_induct [OF _ assms, of ?P])
  fix f os st c x
  assume IH: "\<And>st c b y. f st c b = Some y \<Longrightarrow> ?P st c b y"
    and run: "do {
      (line_status, c) \<leftarrow> loop_condition st c;
      if line_status = LINE_OK then do {
        (r, c) \<leftarrow> line_step os c;
        case r of Inl ret \<Rightarrow> Some (ret, c) | Inr line_status \<Rightarrow> f os line_status c }
      else Some (NO_REQUEST, c) } = Some x"
  show "?P os st c x"
  proof (intro impI)
    assume no: "fst x = NO_REQUEST" and cont: "m_check_state c = CHECK_STATE_CONTENT"
    obtain st1 c1 where l: "loop_condition st c = Some (st1, c1)" using run by (cases "loop_condition st c") auto
    have s1: "m_check_state c1 = CHECK_STATE_CONTENT"
      using l cont parse_line_state [of c st1 c1] by (auto simp: loop_condition_def split: if_splits)
    show "m_check_state (snd x) = CHECK_STATE_CONTENT"
    proof (cases "st1 = LINE_OK")
      case True
      then obtain y d where d: "line_step os c1 = Some (y, d)" using run l by (cases "line_step os c1") auto
      show ?thesis
      proof (cases y)
        case (Inl ret)
        then show ?thesis using run no l d True line_step_content(1) [OF d] by auto
      next
        case (Inr st2)
        then have "f os st2 d = Some x" using run l d True by simp
        then show ?thesis using IH no line_step_content(2) [OF d s1 Inr] by blast
      qed
    next
      case False
      then show ?thesis using run l s1 by auto
    qed
  qed
qed

lemma body_ok_parse_line:
  assumes "body_ok c" "c1 = c\<lparr>m_read_buf := m_read_buf c1, m_checked_idx := i1\<rparr>" "nul_within (m_read_buf c) (m_read_buf c1) lo hi"
  shows "body_ok c1"
proof (rule body_ok_cong [OF assms(1) _ assms(3)])
  show "m_content_length c1 = m_content_length c" by (subst assms(2)) simp
qed

text \<open>The central fact: going on after more bytes have come is the same as having had them from the start.\<close>

lemma process_read_loop_resumes:
  assumes "process_read_loop os st c = Some (NO_REQUEST, c')" "m_check_state c' \<noteq> CHECK_STATE_CONTENT"
    and "conn_at c t i n" "body_ok c" "n + length r < READ_BUFFER_SIZE"
  shows "process_read_loop os LINE_OK (receive r c') = process_read_loop os st (receive r c)"
  using assms(1,3,4)
proof (induction "n - i" arbitrary: c t i st rule: less_induct)
  case less
  have nc: "m_check_state c \<noteq> CHECK_STATE_CONTENT"
    using process_read_content [OF less.prems(1)] assms(2) by auto
  obtain st1 c1 i1 where p: "parse_line c = Some (st1, c1)" "conn_at c1 t i1 n" "i \<le> i1"
    "c1 = c\<lparr>m_read_buf := m_read_buf c1, m_checked_idx := int i1\<rparr>"
    "nul_within (m_read_buf c) (m_read_buf c1) t READ_BUFFER_SIZE"
    "st1 = LINE_OK \<Longrightarrow> i < i1 \<and> (\<exists>s. cstr (m_read_buf c1) (int t) = Some s \<and> t + length s < i1)"
    using parse_line_step [OF less.prems(2)] by blast
  have nc1: "m_check_state c1 \<noteq> CHECK_STATE_CONTENT" using nc parse_line_state [OF p(1)] by simp
  have lc: "loop_condition st c = Some (st1, c1)" using nc p(1) by (simp add: loop_condition_def)
  show ?case
  proof (cases "st1 = LINE_OK")
    case False
    have "c' = c1" using less.prems(1) lc False by (subst (asm) process_read_loop.simps) simp
    then have "loop_condition LINE_OK (receive r c') = loop_condition st (receive r c)"
      using nc nc1 parse_line_again [OF less.prems(2) assms(5) p(1) False] by (simp add: loop_condition_def)
    then show ?thesis by (subst (1 2) process_read_loop.simps) simp
  next
    case True
    obtain s where s: "i < i1" "cstr (m_read_buf c1) (int t) = Some s" "t + length s < i1" using p(6) [OF True] by blast
    have b1: "body_ok c1" by (rule body_ok_parse_line [OF less.prems(3) p(4,5)])
    obtain y d where d: "line_step os c1 = Some (y, d)" "conn_at d i1 i1 n" "body_ok d"
      using line_step_step [OF p(2) b1] s(2,3) by blast
    have lc': "loop_condition st (receive r c) = Some (LINE_OK, receive r c1)"
      using nc parse_line_later [OF less.prems(2) assms(5)] p(1) True by (simp add: loop_condition_def)
    have ls': "line_step os (receive r c1) = Some (y, receive r d)"
      using line_step_later [OF p(2) assms(5) nc1 s(2,3)] d(1) by simp
    show ?thesis
    proof (cases y)
      case (Inl ret)
      then have "ret = NO_REQUEST" using less.prems(1) lc True d(1) by (subst (asm) process_read_loop.simps) simp
      then show ?thesis using line_step_content(1) [OF d(1)] Inl by simp
    next
      case (Inr st2)
      then have "process_read_loop os st2 d = Some (NO_REQUEST, c')"
        using less.prems(1) lc True d(1) by (subst (asm) process_read_loop.simps) simp
      moreover have "i1 \<le> n" using d(2) unfolding conn_at_def by blast
      then have "n - i1 < n - i" using s(1) by linarith
      ultimately have "process_read_loop os LINE_OK (receive r c') = process_read_loop os st2 (receive r d)"
        using less.hyps [OF _ _ d(2,3)] by blast
      then show ?thesis using lc' ls' Inr by (subst (2) process_read_loop.simps) simp
    qed
  qed
qed

text \<open>
  The pieces of a request, with a call of \<open>process_read\<close> after each: the result is that of the first
  call whose answer is not \<open>NO_REQUEST\<close>, or that of the last.
\<close>

fun read_pieces :: "http_os \<Rightarrow> string list \<Rightarrow> 'a http_conn \<Rightarrow> (HTTP_CODE \<times> 'a http_conn) option" where
  "read_pieces os [] c = process_read os c"
| "read_pieces os (r # rs) c = do {
     (ret, c') \<leftarrow> process_read os c;
     if ret = NO_REQUEST then read_pieces os rs (receive r c') else Some (ret, c') }"

text \<open>All calls but the last answer \<open>NO_REQUEST\<close> and do not yet wait for a body.\<close>

fun still_waiting :: "http_os \<Rightarrow> string list \<Rightarrow> 'a http_conn \<Rightarrow> bool" where
  "still_waiting os [] c \<longleftrightarrow> True"
| "still_waiting os (r # rs) c \<longleftrightarrow> (case process_read os c of None \<Rightarrow> False
    | Some (ret, c') \<Rightarrow> ret = NO_REQUEST \<and> m_check_state c' \<noteq> CHECK_STATE_CONTENT \<and> still_waiting os rs (receive r c'))"

lemma receive_receive:
  assumes "0 \<le> m_read_idx c" "nat (m_read_idx c) + length a + length b \<le> length (m_read_buf c)"
  shows "receive b (receive a c) = receive (a @ b) c"
proof -
  have e: "ext b (nat (m_read_idx c) + length a) (ext a (nat (m_read_idx c)) (m_read_buf c)) = ext (a @ b) (nat (m_read_idx c)) (m_read_buf c)"
    using assms(2) by (simp add: ext_def ac_simps)
  have "nat (m_read_idx c + int (length a)) = nat (m_read_idx c) + length a" using assms(1) by (simp add: nat_add_distrib)
  then show ?thesis using e by (simp add: receive_ext)
qed

lemma nul_within_shorter:
  assumes "conn_at c t i n" "n + length r < READ_BUFFER_SIZE"
  shows "nul_within (m_read_buf (receive r c)) (m_read_buf c) 0 (n + length r)"
proof -
  have a: "length (m_read_buf c) = READ_BUFFER_SIZE" "nat (m_read_idx c) = n" "\<And>k. n \<le> k \<Longrightarrow> k < READ_BUFFER_SIZE \<Longrightarrow> m_read_buf c ! k = NUL"
    using assms(1) by (auto simp: conn_at_def)
  have "m_read_buf c ! k = ext r n (m_read_buf c) ! k \<or> m_read_buf c ! k = NUL \<and> k < n + length r" if "k < READ_BUFFER_SIZE" for k
  proof (cases "n \<le> k")
    case True
    then show ?thesis using a that assms(2) by (cases "k < n + length r") (auto simp: ext_def nth_append)
  next
    case False
    then show ?thesis using a assms(2) by (simp add: ext_nth)
  qed
  then show ?thesis using a assms(2) by (auto simp: nul_within_def ext_length)
qed

lemma body_ok_shorter:
  assumes "conn_at c t i n" "n + length r < READ_BUFFER_SIZE" "body_ok (receive r c)"
  shows "body_ok c"
  using assms(3) content_lengths_ok_mono [OF _ nul_within_shorter [OF assms(1,2)]] by (simp add: body_ok_def)

lemma nul_within_ext:
  assumes "nul_within b b' 0 m" "n + length r \<le> length b"
  shows "nul_within (ext r n b) (ext r n b') 0 m"
proof -
  have l: "length b' = length b" using assms(1) by (simp add: nul_within_def)
  have "ext r n b' ! k = ext r n b ! k \<or> ext r n b' ! k = NUL \<and> k < m" if "k < length b" for k
  proof (cases "k < n")
    case True
    then show ?thesis using assms l by (auto simp: ext_nth nul_within_def)
  next
    case False
    show ?thesis
    proof (cases "k < n + length r")
      case True
      have "ext r n b'' ! k = r ! (k - n)" if "length b'' = length b" for b''
      proof -
        have "min n (length b'') = n" using that assms(2) by simp
        then show ?thesis using False True that assms(2) by (simp add: ext_def nth_append less_diff_conv2)
      qed
      then show ?thesis using l by simp
    next
      case f: False
      have "ext r n b'' ! k = b'' ! k" if "length b'' = length b" for b''
      proof -
        have "\<not> k - n < length r" "min n (length b'') = n" "n + length r + (k - n - length r) = k" using False f that assms(2) by simp_all
        then show ?thesis using False that assms(2) \<open>k < length b\<close> by (simp add: ext_def nth_append)
      qed
      then show ?thesis using assms(1) l that by (auto simp: nul_within_def)
    qed
  qed
  then show ?thesis using assms(2) l by (simp add: nul_within_def ext_length)
qed

text \<open>What \<open>process_read\<close> does to the buffer.\<close>

lemma line_step_nul:
  assumes "line_step os c = Some (y, d)" "m_start_line c = int t" "m_checked_idx c = int i"
  shows "nul_within (m_read_buf c) (m_read_buf d) 0 (length (m_read_buf c))"
proof -
  obtain s where s: "cstr (m_read_buf c) (int t) = Some s"
    using assms(1,2) by (cases "cstr (m_read_buf c) (int t)") (auto simp: line_step_def Let_def)
  note run = assms(1) [unfolded line_step_new [OF s assms(2,3)]]
  have dr: "m_read_buf e' = m_read_buf e" if "do_request os e = Some (ret, e')" for e e' ret
    using that by (auto simp: do_request_def Let_def bind_eq_Some_conv sys_def split: option.splits if_splits)
  have ln: "t + length s \<le> length (m_read_buf c)" using cstr_len(1) [OF s] by simp
  show ?thesis
  proof (cases "m_check_state c")
    case CHECK_STATE_REQUESTLINE
    obtain ret d' where d': "parse_request_line (int t) (new_line i s c) = Some (ret, d')" "request_result t s (new_line i s c) ret d'"
      using parse_request_line_spec [of "new_line i s c" t s] s by auto
    then have "d = d'" using run CHECK_STATE_REQUESTLINE by simp
    moreover have "nul_within (m_read_buf c) (m_read_buf d') t (t + length s)" using d'(2) unfolding request_result_def by simp
    ultimately show ?thesis using nul_within_any by blast
  next
    case CHECK_STATE_HEADER
    then obtain ret d' where d': "parse_headers (int t) (new_line i s c) = Some (ret, d')" "m_read_buf d = m_read_buf d'"
      using run by (auto simp: bind_eq_Some_conv dest!: dr split: if_splits)
    then have "m_read_buf d = m_read_buf c" using parse_headers_frame [OF d'(1)] by simp
    then show ?thesis by simp
  next
    case CHECK_STATE_CONTENT
    then obtain ret d' where d': "parse_content (int t) (new_line i s c) = Some (ret, d')" "m_read_buf d = m_read_buf d'"
      using run by (auto simp: bind_eq_Some_conv dest!: dr split: if_splits)
    have "m_read_buf d' = m_read_buf c \<or> (\<exists>k < length (m_read_buf c). m_read_buf d' = (m_read_buf c)[k := NUL])"
    proof -
      have "m_read_buf d' = m_read_buf c
        \<or> 0 \<le> int t + m_content_length c \<and> int t + m_content_length c < int (length (m_read_buf c))
          \<and> m_read_buf d' = (m_read_buf c)[nat (int t + m_content_length c) := NUL]"
        using d'(1) by (auto simp: parse_content_def bind_eq_Some_conv arr_set_def split: if_splits)
      then show ?thesis using nat_less_iff by blast
    qed
    then show ?thesis using d'(2) by (auto intro!: nul_within_set)
  qed
qed

lemma process_read_loop_frame:
  assumes "process_read_loop os st c = Some (ret, c')" "conn_at c t i n" "body_ok c"
  shows "\<exists>t' i'. conn_at c' t' i' n \<and> body_ok c' \<and> nul_within (m_read_buf c) (m_read_buf c') 0 READ_BUFFER_SIZE"
  using assms
proof (induction "2 * (n - i) + (if st = LINE_OK then 1 else 0)" arbitrary: c t i st rule: less_induct)
  case less
  have one: ?case if lc: "loop_condition st c = Some (LINE_OK, c1)" and at: "conn_at c1 t i1 n" and b: "body_ok c1"
      and ln: "m_check_state c1 \<noteq> CHECK_STATE_CONTENT \<Longrightarrow> \<exists>s. cstr (m_read_buf c1) (int t) = Some s \<and> t + length s < i1"
      and nw: "nul_within (m_read_buf c) (m_read_buf c1) 0 READ_BUFFER_SIZE"
      and dec: "i < i1 \<or> st = LINE_OK \<and> i1 = i \<and> m_check_state c1 = CHECK_STATE_CONTENT" for c1 i1
  proof -
    obtain y d where d: "line_step os c1 = Some (y, d)" "conn_at d i1 i1 n" "body_ok d"
      "\<And>st. y = Inr st \<Longrightarrow> st = (if m_check_state c1 = CHECK_STATE_CONTENT then LINE_OPEN else LINE_OK)"
      using line_step_step [OF at b ln] by blast
    have idx: "m_start_line c1 = int t" "m_checked_idx c1 = int i1" "length (m_read_buf c1) = READ_BUFFER_SIZE"
      using at by (simp_all add: conn_at_def)
    have nd: "nul_within (m_read_buf c) (m_read_buf d) 0 READ_BUFFER_SIZE"
      using nul_within_trans [OF nw line_step_nul [OF d(1) idx(1,2)]] idx(3) by simp
    show ?thesis
    proof (cases y)
      case (Inl r)
      then have "c' = d" using less.prems(1) lc d(1) by (subst (asm) process_read_loop.simps) simp
      then show ?thesis using d(2,3) nd by blast
    next
      case (Inr st')
      then have run: "process_read_loop os st' d = Some (ret, c')"
        using less.prems(1) lc d(1) by (subst (asm) process_read_loop.simps) simp
      have "i1 \<le> n" using at unfolding conn_at_def by blast
      then have "2 * (n - i1) + (if st' = LINE_OK then 1 else 0) < 2 * (n - i) + (if st = LINE_OK then 1 else 0)"
        using dec d(4) [OF Inr] by (auto split: if_splits)
      from less.hyps [OF this run d(2,3)] show ?thesis using nul_within_trans [OF nd] by blast
    qed
  qed
  show ?case
  proof (cases "m_check_state c = CHECK_STATE_CONTENT \<and> st = LINE_OK")
    case True
    then show ?thesis using one [of c i] less.prems by (simp add: loop_condition_def)
  next
    case False
    obtain st1 c1 i1 where p: "parse_line c = Some (st1, c1)" "conn_at c1 t i1 n"
      "c1 = c\<lparr>m_read_buf := m_read_buf c1, m_checked_idx := int i1\<rparr>"
      "nul_within (m_read_buf c) (m_read_buf c1) t READ_BUFFER_SIZE"
      "st1 = LINE_OK \<Longrightarrow> i < i1 \<and> (\<exists>s. cstr (m_read_buf c1) (int t) = Some s \<and> t + length s < i1)"
      using parse_line_step [OF less.prems(2)] by blast
    have lc: "loop_condition st c = Some (st1, c1)" using False p(1) by (auto simp: loop_condition_def)
    have b: "body_ok c1" by (rule body_ok_parse_line [OF less.prems(3) p(3,4)])
    have "length (m_read_buf c) = READ_BUFFER_SIZE" using less.prems(2) by (simp add: conn_at_def)
    then have nw: "nul_within (m_read_buf c) (m_read_buf c1) 0 READ_BUFFER_SIZE" using nul_within_any [OF p(4)] by simp
    show ?thesis
    proof (cases "st1 = LINE_OK")
      case True
      then show ?thesis using one [OF _ p(2) b _ nw] lc p(5) by blast
    next
      case False
      then have "c' = c1" using less.prems(1) lc by (subst (asm) process_read_loop.simps) simp
      then show ?thesis using p(2) b nw by blast
    qed
  qed
qed



end
