(* ===== verification/MemDetect.thy ===== *)
theory MemDetect
  imports CText "HOL-Library.Word"
begin

unbundle bit_operations_syntax

text \<open>
  The allocation tracker of \<open>memoryleak/memorydetect.cc\<close>: a header in front of every block, the
  headers of all live blocks in a circular doubly linked list, and the reports on it.  Addresses are
  numbers; \<open>Ptr LIST\<close> is the address of the global \<open>new_ptr_list\<close>.  What \<open>malloc\<close> returns is an
  argument.  The lines printed are recorded as messages.  The locks make each update of the list
  one step and do not appear.
\<close>

subsection \<open>Definitions\<close>

definition DEBUG_NEW_MAGIC :: "32 word" where "DEBUG_NEW_MAGIC = 0x4442474E"
definition DEBUG_NEW_FILENAME_LEN :: nat where "DEBUG_NEW_FILENAME_LEN = 200"

definition ALIGN :: "int \<Rightarrow> int" where "ALIGN s = (s + 16 - 1) AND NOT (16 - 1)"

text \<open>The header has three words of 8 bytes, the file name and two words of 4 bytes.\<close>

definition ALIGNED_LIST_ITEM_SIZE :: nat where
  "ALIGNED_LIST_ITEM_SIZE = nat (ALIGN (8 + 8 + 8 + int DEBUG_NEW_FILENAME_LEN + 4 + 4))"

text \<open>The union of the file name and the address of the caller.\<close>

datatype origin = File string | Addr ptr

record new_ptr_list_t =
  nx :: ptr
  pv :: ptr
  bsize :: "64 word"
  origin :: origin
  line :: int
  is_array :: bool
  magic :: "32 word"

datatype position = At_line string int | At_address ptr | Unknown

datatype mem_message = Out_of_memory "64 word"
  | Allocated bool nat "64 word" position
  | Free_null
  | Invalid_pointer bool nat position
  | Mismatch string nat "64 word" position position
  | Freed bool nat "64 word" "64 word"
  | Corrupt_near nat
  | Leaked nat "64 word" position
  | Corrupt nat "64 word" position
  | Leaks_found int | Leak_check int | Corruption_check int

record mem_state =
  cells :: "new_ptr_list_t heap"
  total_mem_alloc :: "64 word"
  new_verbose_flag :: bool
  printed :: "mem_message list"

text \<open>What an operation that may call \<open>abort\<close> ends with.\<close>

datatype 'a outcome = Done 'a mem_state | Aborted mem_state

definition LIST :: nat where "LIST = 0"

definition mem_init :: mem_state where
  "mem_init = \<lparr>cells = (\<lambda>_. None)(Ptr LIST \<mapsto> \<lparr>nx = Ptr LIST, pv = Ptr LIST, bsize = 0, origin = File '''',
       line = 0, is_array = False, magic = DEBUG_NEW_MAGIC\<rparr>),
     total_mem_alloc = 0, new_verbose_flag = True, printed = []\<rparr>"

definition say :: "mem_message \<Rightarrow> mem_state \<Rightarrow> mem_state" where
  "say m s = s\<lparr>printed := printed s @ [m]\<rparr>"

text \<open>\<open>print_position(line != 0 ? file : addr, line)\<close>, as every call of it selects the pointer.\<close>

definition print_position :: "origin \<Rightarrow> int \<Rightarrow> position" where
  "print_position p ln = (if ln \<noteq> 0 then (case p of File f \<Rightarrow> At_line f ln | Addr _ \<Rightarrow> Unknown)
     else (case p of Addr a \<Rightarrow> if a \<noteq> NULL then At_address a else Unknown | File f \<Rightarrow> Unknown))"

definition usr :: "nat \<Rightarrow> nat" where "usr a = a + ALIGNED_LIST_ITEM_SIZE"

text \<open>Linking a header in at the end of the list.\<close>

definition link_block :: "nat \<Rightarrow> new_ptr_list_t heap \<Rightarrow> new_ptr_list_t heap option" where
  "link_block a h = do {
     l \<leftarrow> rd pv h (Ptr LIST);
     h \<leftarrow> wr (pv_update (\<lambda>_. l)) h (Ptr a);
     h \<leftarrow> wr (nx_update (\<lambda>_. Ptr LIST)) h (Ptr a);
     l \<leftarrow> rd pv h (Ptr LIST);
     h \<leftarrow> wr (nx_update (\<lambda>_. Ptr a)) h l;
     wr (pv_update (\<lambda>_. Ptr a)) h (Ptr LIST) }"

text \<open>
  \<open>m\<close> is the result of \<open>malloc(s)\<close>, \<open>c\<close> the content of the new memory, \<open>origin_arg\<close> the argument
  \<open>file\<close>, which is a string when \<open>ln\<close> is not 0 and the address of the caller otherwise.  A negative line fails
  the assertion.  The sum of the size and the size of the header wraps around; a block that is too small for the
  header then is written past its end.
\<close>

definition alloc_mem :: "ptr \<Rightarrow> new_ptr_list_t \<Rightarrow> 64 word \<Rightarrow> origin \<Rightarrow> int \<Rightarrow> bool \<Rightarrow> mem_state \<Rightarrow> nat outcome option" where
  "alloc_mem m c size_arg origin_arg ln arr s = (if ln < 0 then Some (Aborted s) else
     case m of NULL \<Rightarrow> Some (Aborted (say (Out_of_memory size_arg) s))
     | Ptr a \<Rightarrow> let sum = size_arg + of_nat ALIGNED_LIST_ITEM_SIZE in
       if unat sum < ALIGNED_LIST_ITEM_SIZE then None else do {
       let org = (case origin_arg of File f \<Rightarrow> File (take (DEBUG_NEW_FILENAME_LEN - 1) f) | Addr p \<Rightarrow> Addr p);
       let c = c\<lparr>origin := org, line := ln mod 2 ^ 31, is_array := arr, bsize := size_arg, magic := DEBUG_NEW_MAGIC\<rparr>;
       h \<leftarrow> link_block a ((cells s)(Ptr a \<mapsto> c));
       let s = s\<lparr>cells := h\<rparr>;
       let s = (if new_verbose_flag s then say (Allocated arr (usr a) size_arg (print_position org ln)) s else s);
       Some (Done (usr a) (s\<lparr>total_mem_alloc := total_mem_alloc s + size_arg\<rparr>)) })"

text \<open>The two walks over the list.\<close>

partial_function (option) check_leaks_loop :: "ptr \<Rightarrow> int \<Rightarrow> mem_state \<Rightarrow> (int \<times> mem_state) option" where
  "check_leaks_loop p n s = (if p = Ptr LIST then Some (n, s) else do {
     c \<leftarrow> rd id (cells s) p;
     a \<leftarrow> (case p of NULL \<Rightarrow> None | Ptr a \<Rightarrow> Some (usr a));
     let s = (if magic c \<noteq> DEBUG_NEW_MAGIC then say (Corrupt_near a) s else s);
     let s = say (Leaked a (bsize c) (print_position (origin c) (line c))) s;
     check_leaks_loop (nx c) (n + 1) s })"

definition checkLeaks :: "mem_state \<Rightarrow> (int \<times> mem_state) option" where
  "checkLeaks s = do {
     p \<leftarrow> rd nx (cells s) (Ptr LIST);
     (n, s) \<leftarrow> check_leaks_loop p 0 s;
     let s = (if new_verbose_flag s \<or> n \<noteq> 0 then say (Leaks_found n) s else s);
     Some (n, say (Leak_check n) s) }"

partial_function (option) check_corruption_loop :: "ptr \<Rightarrow> int \<Rightarrow> mem_state \<Rightarrow> (int \<times> mem_state) option" where
  "check_corruption_loop p n s = (if p = Ptr LIST then Some (n, s) else do {
     c \<leftarrow> rd id (cells s) p;
     a \<leftarrow> (case p of NULL \<Rightarrow> None | Ptr a \<Rightarrow> Some (usr a));
     if magic c = DEBUG_NEW_MAGIC then check_corruption_loop (nx c) n s
     else check_corruption_loop (nx c) (n + 1)
            (say (Corrupt a (bsize c) (print_position (origin c) (line c))) s) })"

definition checkMemCorruption :: "mem_state \<Rightarrow> (int \<times> mem_state) option" where
  "checkMemCorruption s = do {
     p \<leftarrow> rd nx (cells s) (Ptr LIST);
     (n, s) \<leftarrow> check_corruption_loop p 0 s;
     Some (n, say (Corruption_check n) s) }"

text \<open>Taking a header out of the list.\<close>

definition unlink_block :: "nat \<Rightarrow> new_ptr_list_t heap \<Rightarrow> new_ptr_list_t heap option" where
  "unlink_block a h = do {
     h \<leftarrow> wr (magic_update (\<lambda>_. 0)) h (Ptr a);
     p \<leftarrow> rd pv h (Ptr a);
     n \<leftarrow> rd nx h (Ptr a);
     h \<leftarrow> wr (nx_update (\<lambda>_. n)) h p;
     n \<leftarrow> rd nx h (Ptr a);
     p \<leftarrow> rd pv h (Ptr a);
     wr (pv_update (\<lambda>_. p)) h n }"

text \<open>\<open>u\<close> is the pointer to free; \<open>None\<close> is a header that cannot be read.\<close>

definition free_pointer :: "ptr \<Rightarrow> ptr \<Rightarrow> bool \<Rightarrow> mem_state \<Rightarrow> unit outcome option" where
  "free_pointer u addr arr s = (case u of NULL \<Rightarrow> Some (Done () (say Free_null s)) | Ptr ua \<Rightarrow>
     if ua < ALIGNED_LIST_ITEM_SIZE then None else do {
     let a = ua - ALIGNED_LIST_ITEM_SIZE;
     c \<leftarrow> rd id (cells s) (Ptr a);
     if magic c \<noteq> DEBUG_NEW_MAGIC then do {
       (_, s) \<leftarrow> checkMemCorruption (say (Invalid_pointer arr ua (print_position (Addr addr) 0)) s);
       Some (Aborted s) }
     else if arr \<noteq> is_array c then
       Some (Aborted (say (Mismatch (if arr then ''delete[] after new'' else ''delete after new[]'') (usr a)
         (bsize c) (print_position (Addr addr) 0) (print_position (origin c) (line c))) s))
     else do {
       let s = s\<lparr>total_mem_alloc := total_mem_alloc s - bsize c\<rparr>;
       h \<leftarrow> unlink_block a (cells s);
       let s = s\<lparr>cells := h\<rparr>;
       let s = (if new_verbose_flag s then say (Freed arr (usr a) (bsize c) (total_mem_alloc s)) s else s);
       h \<leftarrow> free (cells s) (Ptr a);
       Some (Done () (s\<lparr>cells := h\<rparr>)) } })"

text \<open>The operators.\<close>

definition op_new_at :: "ptr \<Rightarrow> new_ptr_list_t \<Rightarrow> 64 word \<Rightarrow> string \<Rightarrow> int \<Rightarrow> mem_state \<Rightarrow> nat outcome option" where
  "op_new_at m c n file ln = alloc_mem m c n (File file) ln False"

definition op_new_array_at :: "ptr \<Rightarrow> new_ptr_list_t \<Rightarrow> 64 word \<Rightarrow> string \<Rightarrow> int \<Rightarrow> mem_state \<Rightarrow> nat outcome option" where
  "op_new_array_at m c n file ln = alloc_mem m c n (File file) ln True"

definition op_new :: "ptr \<Rightarrow> new_ptr_list_t \<Rightarrow> 64 word \<Rightarrow> ptr \<Rightarrow> mem_state \<Rightarrow> nat outcome option" where
  "op_new m c n caller = alloc_mem m c n (Addr caller) 0 False"

definition op_new_array :: "ptr \<Rightarrow> new_ptr_list_t \<Rightarrow> 64 word \<Rightarrow> ptr \<Rightarrow> mem_state \<Rightarrow> nat outcome option" where
  "op_new_array m c n caller = alloc_mem m c n (Addr caller) 0 True"

definition op_delete :: "ptr \<Rightarrow> ptr \<Rightarrow> mem_state \<Rightarrow> unit outcome option" where
  "op_delete u caller = free_pointer u caller False"

definition op_delete_array :: "ptr \<Rightarrow> ptr \<Rightarrow> mem_state \<Rightarrow> unit outcome option" where
  "op_delete_array u caller = free_pointer u caller True"

subsection \<open>The circular list\<close>

text \<open>\<open>N\<close> and \<open>P\<close> are the next and previous pointers.\<close>

definition adj :: "('a \<Rightarrow> 'a) \<Rightarrow> ('a \<Rightarrow> 'a) \<Rightarrow> 'a \<Rightarrow> 'a \<Rightarrow> bool" where
  "adj N P a b \<longleftrightarrow> N a = b \<and> P b = a"

definition ring :: "('a \<Rightarrow> 'a) \<Rightarrow> ('a \<Rightarrow> 'a) \<Rightarrow> 'a \<Rightarrow> 'a list \<Rightarrow> bool" where
  "ring N P s ps \<longleftrightarrow> distinct (s # ps) \<and> successively (adj N P) (s # ps @ [s])"

lemma successively_adj_cong:
  assumes "successively (adj N P) xs" "\<And>a. a \<in> set (butlast xs) \<Longrightarrow> N' a = N a"
    and "\<And>b. b \<in> set (tl xs) \<Longrightarrow> P' b = P b"
  shows "successively (adj N' P') xs"
  using assms
proof (induction "adj N P" xs rule: successively.induct)
  case (3 x y xs)
  then show ?case by (auto simp: adj_def)
qed auto

lemma ring_append:
  assumes "ring N P s ps" "p \<notin> set (s # ps)"
  defines "l \<equiv> P s"
  shows "ring (N(p := s, l := p)) (P(p := l, s := p)) s (ps @ [p])" "l = last (s # ps)"
proof -
  let ?N = "N(p := s, l := p)" and ?P = "P(p := l, s := p)"
  have d: "distinct (s # ps)" and sc: "successively (adj N P) ((s # ps) @ [s])"
    using assms(1) by (auto simp: ring_def)
  have l: "l = last (s # ps)" and s1: "successively (adj N P) (s # ps)"
    using sc unfolding successively_append_iff by (auto simp: adj_def l_def)
  then show "l = last (s # ps)" by simp
  have bl: "set (butlast (s # ps)) \<subseteq> set (s # ps) - {l}"
  proof -
    have "s # ps = butlast (s # ps) @ [l]" using l by (metis append_butlast_last_id list.distinct(1))
    then show ?thesis using d by (metis Diff_insert_absorb Un_insert_right append.right_neutral disjoint_insert(1)
        distinct_append empty_set list.simps(15) set_append subset_insertI order_refl)
  qed
  have "successively (adj ?N ?P) (s # ps)"
    by (rule successively_adj_cong [OF s1]) (use bl d assms(2) in \<open>auto\<close>)
  moreover have "adj ?N ?P l p" "adj ?N ?P p s" using assms(2) l by (auto simp: adj_def)
  ultimately have "successively (adj ?N ?P) ((s # ps) @ [p, s])"
    unfolding successively_append_iff using l by simp
  then show "ring ?N ?P s (ps @ [p])" using d assms(2) by (auto simp: ring_def)
qed

lemma ring_remove:
  assumes "ring N P s (as @ p # bs)"
  shows "ring (N(P p := N p)) (P(N p := P p)) s (as @ bs)"
    "P p = last (s # as)" "N p = hd (bs @ [s])"
proof -
  let ?l = "last (s # as)" and ?n = "hd (bs @ [s])"
  let ?N = "N(?l := ?n)" and ?P = "P(?n := ?l)"
  have d: "distinct (s # as @ p # bs)" and "successively (adj N P) ((s # as) @ [p] @ (bs @ [s]))"
    using assms by (auto simp: ring_def)
  then have sc: "successively (adj N P) (s # as)" "successively (adj N P) (bs @ [s])" "adj N P ?l p" "adj N P p ?n"
    unfolding successively_append_iff by auto
  then show e: "P p = ?l" "N p = ?n" by (auto simp: adj_def)
  have "distinct (butlast (s # as) @ [?l])" using d by (metis append_butlast_last_id distinct_append list.distinct(1) append_Cons)
  then have l: "?l \<notin> set (butlast (s # as))" by simp
  have n: "?n \<notin> set (tl (bs @ [s]))" using d by (cases bs) auto
  have nn: "?n \<notin> set as" using d by (cases bs) auto
  have ll: "?l \<notin> set bs" using d last_in_set [of "s # as"] by auto
  have "successively (adj ?N ?P) (s # as)"
    by (rule successively_adj_cong [OF sc(1)]) (use l nn in auto)
  moreover have "successively (adj ?N ?P) (bs @ [s])"
    by (rule successively_adj_cong [OF sc(2)]) (use n ll in auto)
  moreover have "adj ?N ?P ?l ?n" by (simp add: adj_def)
  ultimately have "successively (adj ?N ?P) ((s # as) @ bs @ [s])"
    unfolding successively_append_iff by simp
  then show "ring (N(P p := N p)) (P(N p := P p)) s (as @ bs)" using d by (simp add: ring_def e)
qed

subsection \<open>The list in the heap\<close>

definition nxf :: "new_ptr_list_t heap \<Rightarrow> ptr \<Rightarrow> ptr" where "nxf h p = nx (the (h p))"
definition pvf :: "new_ptr_list_t heap \<Rightarrow> ptr \<Rightarrow> ptr" where "pvf h p = pv (the (h p))"

text \<open>A header without its links.\<close>

definition strip :: "new_ptr_list_t \<Rightarrow> new_ptr_list_t" where "strip c = c\<lparr>nx := NULL, pv := NULL\<rparr>"

text \<open>\<open>h'\<close> differs from \<open>h\<close> in links only.\<close>

definition relinked :: "new_ptr_list_t heap \<Rightarrow> new_ptr_list_t heap \<Rightarrow> bool" where
  "relinked h h' \<longleftrightarrow> (\<forall>p. map_option strip (h' p) = map_option strip (h p))"

lemma relinked_refl [simp]: "relinked h h"
  by (simp add: relinked_def)

lemma relinked_trans: "relinked h h' \<Longrightarrow> relinked h' h'' \<Longrightarrow> relinked h h''"
  by (simp add: relinked_def)

lemma relinked_dom: "relinked h h' \<Longrightarrow> (h' p = None) = (h p = None)"
  unfolding relinked_def by (metis option.map_disc_iff)

lemma wr_nx:
  assumes "p \<noteq> NULL" "h p \<noteq> None"
  shows "\<exists>h'. wr (nx_update (\<lambda>_. v)) h p = Some h' \<and> nxf h' = (nxf h)(p := v) \<and> pvf h' = pvf h \<and> relinked h h'"
proof -
  obtain y where "h p = Some y" using assms(2) by auto
  then show ?thesis using assms(1)
    by (intro exI [of _ "h(p \<mapsto> y\<lparr>nx := v\<rparr>)"]) (simp add: wr_def nxf_def pvf_def relinked_def strip_def fun_eq_iff)
qed

lemma wr_pv:
  assumes "p \<noteq> NULL" "h p \<noteq> None"
  shows "\<exists>h'. wr (pv_update (\<lambda>_. v)) h p = Some h' \<and> pvf h' = (pvf h)(p := v) \<and> nxf h' = nxf h \<and> relinked h h'"
proof -
  obtain y where "h p = Some y" using assms(2) by auto
  then show ?thesis using assms(1)
    by (intro exI [of _ "h(p \<mapsto> y\<lparr>pv := v\<rparr>)"]) (simp add: wr_def nxf_def pvf_def relinked_def strip_def fun_eq_iff)
qed

lemma rd_links:
  "p \<noteq> NULL \<Longrightarrow> h p \<noteq> None \<Longrightarrow> rd nx h p = Some (nxf h p)"
  "p \<noteq> NULL \<Longrightarrow> h p \<noteq> None \<Longrightarrow> rd pv h p = Some (pvf h p)"
  by (auto simp: rd_def nxf_def pvf_def)

definition mem_ring :: "new_ptr_list_t heap \<Rightarrow> ptr list \<Rightarrow> bool" where
  "mem_ring h ps \<longleftrightarrow> ring (nxf h) (pvf h) (Ptr LIST) ps \<and> NULL \<notin> set ps
     \<and> (\<forall>p \<in> set (Ptr LIST # ps). h p \<noteq> None)"

lemma ring_last: "ring N P s ps \<Longrightarrow> P s = last (s # ps)"
proof -
  assume "ring N P s ps"
  then have "successively (adj N P) ((s # ps) @ [s])" by (simp add: ring_def)
  then show ?thesis unfolding successively_append_iff by (auto simp: adj_def)
qed

lemma link_block_step:
  assumes "mem_ring h ps" "Ptr a \<notin> set (Ptr LIST # ps)" "h (Ptr a) \<noteq> None"
  shows "\<exists>h'. link_block a h = Some h' \<and> mem_ring h' (ps @ [Ptr a]) \<and> relinked h h'"
proof -
  let ?s = "Ptr LIST" and ?p = "Ptr a"
  define l where "l = pvf h ?s"
  have r: "ring (nxf h) (pvf h) ?s ps" and d: "\<And>p. p \<in> set (?s # ps) \<Longrightarrow> h p \<noteq> None" and n: "NULL \<notin> set ps"
    using assms(1) by (auto simp: mem_ring_def)
  have ll: "l \<in> set (?s # ps)" unfolding l_def using ring_last [OF r] last_in_set [of "?s # ps"] by simp
  then have l: "l \<noteq> NULL" "h l \<noteq> None" "l \<noteq> ?p" using d n assms(2) by auto
  have s: "h ?s \<noteq> None" using d by simp
  obtain h1 where h1: "wr (pv_update (\<lambda>_. l)) h ?p = Some h1" "pvf h1 = (pvf h)(?p := l)" "nxf h1 = nxf h" "relinked h h1"
    using wr_pv [of ?p h l] assms(3) by auto
  obtain h2 where h2: "wr (nx_update (\<lambda>_. ?s)) h1 ?p = Some h2" "nxf h2 = (nxf h1)(?p := ?s)" "pvf h2 = pvf h1" "relinked h1 h2"
    using wr_nx [of ?p h1 ?s] assms(3) relinked_dom [OF h1(4)] by auto
  note r2 = relinked_trans [OF h1(4) h2(4)]
  obtain h3 where h3: "wr (nx_update (\<lambda>_. ?p)) h2 l = Some h3" "nxf h3 = (nxf h2)(l := ?p)" "pvf h3 = pvf h2" "relinked h2 h3"
    using wr_nx [of l h2 ?p] l relinked_dom [OF r2] by auto
  note r3 = relinked_trans [OF r2 h3(4)]
  obtain h4 where h4: "wr (pv_update (\<lambda>_. ?p)) h3 ?s = Some h4" "pvf h4 = (pvf h3)(?s := ?p)" "nxf h4 = nxf h3" "relinked h3 h4"
    using wr_pv [of ?s h3 ?p] s relinked_dom [OF r3] by auto
  note r4 = relinked_trans [OF r3 h4(4)]
  have rd: "rd pv h ?s = Some l" "rd pv h2 ?s = Some l"
    using s rd_links(2) [of ?s h] rd_links(2) [of ?s h2] relinked_dom [OF r2] h1 h2 assms(2) by (auto simp: l_def)
  have "link_block a h = Some h4"
    by (simp only: link_block_def rd h1(1) h2(1) h3(1) h4(1) run_simps)
  moreover have "mem_ring h4 (ps @ [?p])"
    using ring_append(1) [OF r assms(2)] d n relinked_dom [OF r4] assms(3) h1 h2 h3 h4
    unfolding mem_ring_def by (auto simp: l_def)
  ultimately show ?thesis using r4 by blast
qed

lemma unlink_block_step:
  assumes "mem_ring h (as @ Ptr a # bs)"
  shows "\<exists>h' h1. unlink_block a h = Some h' \<and> mem_ring h' (as @ bs) \<and> wr (magic_update (\<lambda>_. 0)) h (Ptr a) = Some h1
    \<and> relinked h1 h'"
proof -
  let ?s = "Ptr LIST" and ?p = "Ptr a"
  have r: "ring (nxf h) (pvf h) ?s (as @ ?p # bs)" and d: "\<And>p. p \<in> set (?s # as @ ?p # bs) \<Longrightarrow> h p \<noteq> None"
    and n: "NULL \<notin> set (as @ bs)" using assms by (auto simp: mem_ring_def)
  note rr = ring_remove [OF r]
  have di: "distinct (?s # as @ ?p # bs)" using r by (simp add: ring_def)
  obtain h1 where h1: "wr (magic_update (\<lambda>_. 0)) h ?p = Some h1" "nxf h1 = nxf h" "pvf h1 = pvf h" "dom h1 = dom h"
  proof -
    obtain y where y: "h ?p = Some y" using d [of ?p] by auto
    show ?thesis by (rule that [of "h(?p \<mapsto> y\<lparr>magic := 0\<rparr>)"]) (use y in \<open>auto simp: wr_def nxf_def pvf_def fun_eq_iff\<close>)
  qed
  define q where "q = pvf h ?p"
  define m where "m = nxf h ?p"
  have qs: "q \<in> set (?s # as)" unfolding q_def rr(2) by (rule last_in_set) simp
  have ms: "m \<in> set (bs @ [?s])" unfolding m_def rr(3) by (rule hd_in_set) simp
  have dom1: "h1 x \<noteq> None \<longleftrightarrow> h x \<noteq> None" for x using h1(4) by (metis domIff)
  have q: "q \<noteq> NULL" "h1 q \<noteq> None" "q \<noteq> ?p" and m: "m \<noteq> NULL" "h1 m \<noteq> None" "m \<noteq> ?p" and p: "h1 ?p \<noteq> None"
    using qs ms d n di dom1 by auto
  obtain h2 where h2: "wr (nx_update (\<lambda>_. m)) h1 q = Some h2" "nxf h2 = (nxf h1)(q := m)" "pvf h2 = pvf h1" "relinked h1 h2"
    using wr_nx [of q h1 m] q(1,2) by blast
  obtain h3 where h3: "wr (pv_update (\<lambda>_. q)) h2 m = Some h3" "pvf h3 = (pvf h2)(m := q)" "nxf h3 = nxf h2" "relinked h2 h3"
    using wr_pv [of m h2 q] m relinked_dom [OF h2(4)] by auto
  note r3 = relinked_trans [OF h2(4) h3(4)]
  have rd: "rd pv h1 ?p = Some q" "rd nx h1 ?p = Some m" "rd pv h2 ?p = Some q" "rd nx h2 ?p = Some m"
    using rd_links [of ?p h1] rd_links [of ?p h2] p relinked_dom [OF h2(4), of ?p] h1 h2 q(3) by (auto simp: q_def m_def)
  have "unlink_block a h = Some h3"
    by (simp only: unlink_block_def h1(1) rd h2(1) h3(1) run_simps)
  moreover have "mem_ring h3 (as @ bs)"
    using rr(1) d n relinked_dom [OF r3] dom1 h1 h2 h3 unfolding mem_ring_def by (auto simp: q_def m_def)
  ultimately show ?thesis using h1(1) r3 by blast
qed

subsection \<open>The tracker implements a list of live blocks\<close>

type_synonym blocks = "(nat \<times> new_ptr_list_t) list"

definition mem_repr :: "mem_state \<Rightarrow> blocks \<Rightarrow> bool" where
  "mem_repr s bs \<longleftrightarrow> mem_ring (cells s) (map (Ptr \<circ> fst) bs)
     \<and> dom (cells s) = insert (Ptr LIST) (Ptr ` fst ` set bs)
     \<and> (\<forall>(a, b) \<in> set bs. map_option strip (cells s (Ptr a)) = Some b \<and> magic b = DEBUG_NEW_MAGIC)
     \<and> total_mem_alloc s = sum_list (map (bsize \<circ> snd) bs)"

definition block_of :: "new_ptr_list_t \<Rightarrow> 64 word \<Rightarrow> origin \<Rightarrow> int \<Rightarrow> bool \<Rightarrow> new_ptr_list_t" where
  "block_of c n org ln arr = strip (c\<lparr>origin := (case org of File f \<Rightarrow> File (take 199 f) | Addr p \<Rightarrow> Addr p),
     line := ln, is_array := arr, bsize := n, magic := DEBUG_NEW_MAGIC\<rparr>)"

datatype mem_op = New nat new_ptr_list_t "64 word" origin int bool | Delete nat ptr bool

text \<open>
  What the operations mean: \<open>New\<close> at an address that is not in use, of a size to which the size of the header can
  be added, appends a block, \<open>Delete\<close> of a
  live block with the operator that matches removes it.
\<close>

fun mem_spec :: "mem_op \<Rightarrow> blocks \<Rightarrow> blocks option" where
  "mem_spec (New a c n org ln arr) bs = (if a \<noteq> LIST \<and> a \<notin> fst ` set bs \<and> 0 \<le> ln \<and> ln < 2 ^ 31
       \<and> unat n + ALIGNED_LIST_ITEM_SIZE < 2 ^ 64
     then Some (bs @ [(a, block_of c n org ln arr)]) else None)"
| "mem_spec (Delete a addr arr) bs = (case map_of bs a of None \<Rightarrow> None
     | Some b \<Rightarrow> if is_array b = arr then Some (filter (\<lambda>x. fst x \<noteq> a) bs) else None)"

fun mem_do :: "mem_op \<Rightarrow> mem_state \<Rightarrow> mem_state option" where
  "mem_do (New a c n org ln arr) s = (case alloc_mem (Ptr a) c n org ln arr s of
      Some (Done u s') \<Rightarrow> Some s' | _ \<Rightarrow> None)"
| "mem_do (Delete a addr arr) s = (case free_pointer (Ptr (usr a)) addr arr s of
      Some (Done u s') \<Rightarrow> Some s' | _ \<Rightarrow> None)"

fun mem_runs :: "mem_op list \<Rightarrow> mem_state \<Rightarrow> mem_state option" where
  "mem_runs [] s = Some s"
| "mem_runs (x # xs) s = do { s \<leftarrow> mem_do x s; mem_runs xs s }"

fun mem_specs :: "mem_op list \<Rightarrow> blocks \<Rightarrow> blocks option" where
  "mem_specs [] bs = Some bs"
| "mem_specs (x # xs) bs = do { bs \<leftarrow> mem_spec x bs; mem_specs xs bs }"

lemma mem_repr_init: "mem_repr mem_init []"
  by (simp add: mem_repr_def mem_ring_def ring_def mem_init_def adj_def nxf_def pvf_def)

lemma magic_strip [simp]: "magic (strip c) = magic c" "bsize (strip c) = bsize c" "is_array (strip c) = is_array c"
    "origin (strip c) = origin c" "line (strip c) = line c"
  by (simp_all add: strip_def)

lemma mem_repr_distinct: "mem_repr s bs \<Longrightarrow> distinct (LIST # map fst bs)"
  unfolding mem_repr_def mem_ring_def ring_def by (auto simp: distinct_map inj_on_def comp_def image_iff)

lemma header_size: "ALIGNED_LIST_ITEM_SIZE = 240"
  by code_simp

lemma block_size:
  "unat n + ALIGNED_LIST_ITEM_SIZE < 2 ^ 64 \<longleftrightarrow> \<not> unat ((n::64 word) + of_nat ALIGNED_LIST_ITEM_SIZE) < ALIGNED_LIST_ITEM_SIZE"
proof -
  have u: "unat (of_nat ALIGNED_LIST_ITEM_SIZE :: 64 word) = ALIGNED_LIST_ITEM_SIZE"
    by (simp add: header_size)
  show ?thesis
  proof (cases "unat n + ALIGNED_LIST_ITEM_SIZE < 2 ^ 64")
    case True
    then show ?thesis by (simp add: unat_word_ariths u)
  next
    case False
    have "unat n < 2 ^ 64" using unsigned_less [of n, where 'a = nat] by simp
    then have "(unat n + ALIGNED_LIST_ITEM_SIZE) mod 2 ^ 64 < ALIGNED_LIST_ITEM_SIZE"
      using False by (simp add: mod_if header_size) arith
    then show ?thesis using False by (simp add: unat_word_ariths u)
  qed
qed

lemma alloc_mem_step:
  assumes "mem_repr s bs" "a \<noteq> LIST" "a \<notin> fst ` set bs" "0 \<le> ln" "ln < 2 ^ 31"
    and size: "unat n + ALIGNED_LIST_ITEM_SIZE < 2 ^ 64"
  shows "\<exists>s'. alloc_mem (Ptr a) c n org ln arr s = Some (Done (usr a) s') \<and> mem_repr s' (bs @ [(a, block_of c n org ln arr)])"
proof -
  let ?org = "(case org of File f \<Rightarrow> File (take (DEBUG_NEW_FILENAME_LEN - 1) f) | Addr p \<Rightarrow> Addr p)"
  let ?c = "c\<lparr>origin := ?org, line := ln mod 2 ^ 31, is_array := arr, bsize := n, magic := DEBUG_NEW_MAGIC\<rparr>"
  let ?h = "(cells s)(Ptr a \<mapsto> ?c)"
  have r: "mem_ring (cells s) (map (Ptr \<circ> fst) bs)" and dm: "dom (cells s) = insert (Ptr LIST) (Ptr ` fst ` set bs)"
    and b: "\<And>x y. (x, y) \<in> set bs \<Longrightarrow> map_option strip (cells s (Ptr x)) = Some y \<and> magic y = DEBUG_NEW_MAGIC"
    and t: "total_mem_alloc s = sum_list (map (bsize \<circ> snd) bs)"
    using assms(1) by (auto simp: mem_repr_def)
  have f: "Ptr a \<notin> set (Ptr LIST # map (Ptr \<circ> fst) bs)" using assms(2,3) by (auto simp: image_iff)
  have "successively (adj (nxf ?h) (pvf ?h)) (Ptr LIST # map (Ptr \<circ> fst) bs @ [Ptr LIST])"
    by (rule successively_adj_cong [where N = "nxf (cells s)" and P = "pvf (cells s)"])
      (use r f in \<open>auto simp: mem_ring_def ring_def nxf_def pvf_def dest!: in_set_butlastD split: if_splits\<close>)
  then have r': "mem_ring ?h (map (Ptr \<circ> fst) bs)"
    using r by (auto simp: mem_ring_def ring_def)
  obtain h where h: "link_block a ?h = Some h" "mem_ring h (map (Ptr \<circ> fst) bs @ [Ptr a])" "relinked ?h h"
    using link_block_step [OF r' f] by auto
  let ?m = "s\<lparr>cells := h\<rparr>"
  let ?s = "(if new_verbose_flag ?m then say (Allocated arr (usr a) n (print_position ?org ln)) ?m else ?m)"
  let ?r = "?s\<lparr>total_mem_alloc := total_mem_alloc ?s + n\<rparr>"
  have e: "alloc_mem (Ptr a) c n org ln arr s = Some (Done (usr a) ?r)"
    using assms(4) h(1) size [unfolded block_size] by (simp add: alloc_mem_def Let_def)
  have st: "cells ?r = h" "total_mem_alloc ?r = total_mem_alloc s + n" by (simp_all add: say_def)
  have c: "strip ?c = block_of c n org ln arr"
    using assms(4,5) by (cases org) (simp_all add: block_of_def DEBUG_NEW_FILENAME_LEN_def)
  have hh: "map_option strip (h p) = map_option strip (?h p)" for p using h(3) by (simp add: relinked_def)
  have "dom h = insert (Ptr a) (dom (cells s))"
    using relinked_dom [OF h(3)] by (auto simp: dom_def split: if_splits)
  moreover have "map_option strip (h (Ptr x)) = Some y \<and> magic y = DEBUG_NEW_MAGIC"
    if "(x, y) \<in> set (bs @ [(a, block_of c n org ln arr)])" for x y
  proof (cases "x = a")
    case True
    then have "y = block_of c n org ln arr" using that assms(3) by (force simp: image_iff)
    then show ?thesis using True c by (simp add: hh) (simp add: block_of_def)
  next
    case False
    then show ?thesis using that b by (auto simp: hh)
  qed
  ultimately have "mem_repr ?r (bs @ [(a, block_of c n org ln arr)])"
    using h(2) dm t unfolding mem_repr_def st by (auto simp: block_of_def)
  then show ?thesis using e by blast
qed

lemma usr_inverse [simp]: "\<not> usr a < ALIGNED_LIST_ITEM_SIZE" "usr a - ALIGNED_LIST_ITEM_SIZE = a"
  by (simp_all add: usr_def)

lemma mem_repr_cell:
  assumes "mem_repr s bs" "map_of bs a = Some b"
  obtains c where "cells s (Ptr a) = Some c" "strip c = b" "magic c = DEBUG_NEW_MAGIC"
  using assms map_of_SomeD [OF assms(2)] unfolding mem_repr_def by fastforce

lemma free_pointer_step:
  assumes "mem_repr s bs" "map_of bs a = Some b" "is_array b = arr"
  shows "\<exists>s'. free_pointer (Ptr (usr a)) addr arr s = Some (Done () s') \<and> mem_repr s' (filter (\<lambda>x. fst x \<noteq> a) bs)"
proof -
  obtain c where c: "cells s (Ptr a) = Some c" "strip c = b" "magic c = DEBUG_NEW_MAGIC"
    using mem_repr_cell [OF assms(1,2)] .
  obtain xs ys where xy: "bs = xs @ (a, b) # ys" using split_list [OF map_of_SomeD [OF assms(2)]] by blast
  note d = mem_repr_distinct [OF assms(1)]
  have fl: "filter (\<lambda>x. fst x \<noteq> a) bs = xs @ ys"
  proof -
    have "filter (\<lambda>x. fst x \<noteq> a) xs = xs" "filter (\<lambda>x. fst x \<noteq> a) ys = ys"
      using d unfolding xy by (auto simp: filter_id_conv image_iff)
    then show ?thesis by (simp add: xy)
  qed
  let ?h = "cells s"
  have r: "mem_ring ?h (map (Ptr \<circ> fst) xs @ Ptr a # map (Ptr \<circ> fst) ys)"
    using assms(1) by (simp add: mem_repr_def xy)
  obtain h h1 where h: "unlink_block a ?h = Some h" "mem_ring h (map (Ptr \<circ> fst) xs @ map (Ptr \<circ> fst) ys)"
    "wr (magic_update (\<lambda>_. 0)) ?h (Ptr a) = Some h1" "relinked h1 h"
    using unlink_block_step [OF r] by blast
  have h1: "h1 = ?h(Ptr a \<mapsto> c\<lparr>magic := 0\<rparr>)" using h(3) c(1) by (simp add: wr_def)
  have ha: "h (Ptr a) \<noteq> None" using relinked_dom [OF h(4), of "Ptr a"] h1 by simp
  let ?s = "s\<lparr>total_mem_alloc := total_mem_alloc s - bsize c, cells := h\<rparr>"
  let ?f = "if new_verbose_flag s then say (Freed arr (usr a) (bsize c) (total_mem_alloc s - bsize c)) ?s else ?s"
  let ?r = "?f\<lparr>cells := h(Ptr a := None)\<rparr>"
  have "cells ?f = h" by (simp add: say_def)
  then have "free (cells ?f) (Ptr a) = Some (h(Ptr a := None))" using ha by (auto simp: free_def)
  then have e: "free_pointer (Ptr (usr a)) addr arr s = Some (Done () ?r)"
    using c assms(3) h(1) by (auto simp: free_pointer_def rd_def Let_def)
  have st: "cells ?r = h(Ptr a := None)" "total_mem_alloc ?r = total_mem_alloc s - bsize c" by (simp_all add: say_def)
  have na: "Ptr a \<notin> set (Ptr LIST # map (Ptr \<circ> fst) xs @ map (Ptr \<circ> fst) ys)"
    using r by (auto simp: mem_ring_def ring_def)
  have "successively (adj (nxf (cells ?r)) (pvf (cells ?r))) (Ptr LIST # (map (Ptr \<circ> fst) xs @ map (Ptr \<circ> fst) ys) @ [Ptr LIST])"
    by (rule successively_adj_cong [where N = "nxf h" and P = "pvf h"])
      (use h(2) na in \<open>auto simp: st mem_ring_def ring_def nxf_def pvf_def dest!: in_set_butlastD split: if_splits\<close>)
  then have ring: "mem_ring (cells ?r) (map (Ptr \<circ> fst) (xs @ ys))"
    using h(2) na unfolding st by (auto simp: mem_ring_def ring_def)
  have dm: "dom (cells ?r) = insert (Ptr LIST) (Ptr ` fst ` set (xs @ ys))"
  proof -
    have "dom h = dom ?h" using relinked_dom [OF h(4)] h1 c(1) by (auto simp: dom_def split: if_splits)
    then have "dom (cells ?r) = insert (Ptr LIST) (Ptr ` fst ` set bs) - {Ptr a}"
      using assms(1) by (simp add: st mem_repr_def)
    also have "\<dots> = insert (Ptr LIST) (Ptr ` fst ` set (xs @ ys))" using na by (auto simp: xy image_iff)
    finally show ?thesis .
  qed
  have all: "\<forall>(a, b) \<in> set bs. map_option strip (cells s (Ptr a)) = Some b \<and> magic b = DEBUG_NEW_MAGIC"
    using assms(1) unfolding mem_repr_def by (elim conjE)
  have bl: "map_option strip (cells ?r (Ptr x)) = Some y \<and> magic y = DEBUG_NEW_MAGIC" if "(x, y) \<in> set (xs @ ys)" for x y
  proof -
    have "x \<noteq> a" using that na by (force simp: image_iff)
    then have "map_option strip (cells ?r (Ptr x)) = map_option strip (?h (Ptr x))"
      using h(4) h1 by (simp add: st relinked_def)
    moreover have "(x, y) \<in> set bs" using that by (auto simp: xy)
    then have "map_option strip (?h (Ptr x)) = Some y \<and> magic y = DEBUG_NEW_MAGIC"
      using all by fast
    ultimately show ?thesis by (simp only: simp_thms)
  qed
  have "bsize c = bsize b" using c(2) by auto
  then have "total_mem_alloc ?r = sum_list (map (bsize \<circ> snd) (xs @ ys))"
    using assms(1) by (simp add: st mem_repr_def xy)
  then show ?thesis using e ring dm bl unfolding fl mem_repr_def by blast
qed

text \<open>Freeing with the wrong operator stops the program after the report.\<close>

lemma free_pointer_mismatch:
  assumes "mem_repr s bs" "map_of bs a = Some b" "is_array b \<noteq> arr"
  shows "\<exists>m s'. free_pointer (Ptr (usr a)) addr arr s = Some (Aborted s') \<and> printed s' = printed s @ [m]"
proof -
  obtain c where c: "cells s (Ptr a) = Some c" "strip c = b" "magic c = DEBUG_NEW_MAGIC"
    using mem_repr_cell [OF assms(1,2)] .
  then show ?thesis using assms(3) by (auto simp: free_pointer_def rd_def Let_def say_def)
qed

definition leak_messages :: "blocks \<Rightarrow> mem_message list" where
  "leak_messages bs = map (\<lambda>(a, b). Leaked (usr a) (bsize b) (print_position (origin b) (line b))) bs"

text \<open>A walk along a suffix of the list.\<close>

lemma check_leaks_loop_step:
  assumes "mem_repr s (xs @ bs)"
  shows "check_leaks_loop (hd (map (Ptr \<circ> fst) bs @ [Ptr LIST])) n (s\<lparr>printed := out\<rparr>) =
    Some (n + int (length bs), s\<lparr>printed := out @ leak_messages bs\<rparr>)"
  using assms
proof (induction bs arbitrary: xs n out)
  case Nil
  then show ?case by (subst check_leaks_loop.simps) (simp add: leak_messages_def)
next
  case (Cons x bs)
  obtain a b where x: "x = (a, b)" by (cases x)
  have "map_of (xs @ x # bs) a = Some b"
    by (rule map_of_is_SomeI) (use mem_repr_distinct [OF Cons.prems] in \<open>simp_all add: x\<close>)
  then obtain c where c: "cells s (Ptr a) = Some c" "strip c = b" "magic c = DEBUG_NEW_MAGIC"
    using mem_repr_cell [OF Cons.prems] by metis
  have "Ptr a \<noteq> Ptr LIST" using mem_repr_distinct [OF Cons.prems] by (auto simp: x)
  have "successively (adj (nxf (cells s)) (pvf (cells s))) ((Ptr LIST # map (Ptr \<circ> fst) xs) @ [Ptr a] @ (map (Ptr \<circ> fst) bs @ [Ptr LIST]))"
    using Cons.prems by (simp add: mem_repr_def mem_ring_def ring_def x)
  then have "adj (nxf (cells s)) (pvf (cells s)) (Ptr a) (hd (map (Ptr \<circ> fst) bs @ [Ptr LIST]))"
    unfolding successively_append_iff by simp
  then have n: "nx c = hd (map (Ptr \<circ> fst) bs @ [Ptr LIST])" using c(1) by (simp add: adj_def nxf_def)
  have f: "bsize c = bsize b" "origin c = origin b" "line c = line b" using c(2) by auto
  have "mem_repr s ((xs @ [x]) @ bs)" using Cons.prems by simp
  note IH = Cons.IH [OF this, of "n + 1" "out @ [Leaked (usr a) (bsize b) (print_position (origin b) (line b))]"]
  let ?s = "s\<lparr>printed := out @ [Leaked (usr a) (bsize b) (print_position (origin b) (line b))]\<rparr>"
  have "check_leaks_loop (Ptr a) n (s\<lparr>printed := out\<rparr>) = check_leaks_loop (nx c) (n + 1) ?s"
    using c \<open>Ptr a \<noteq> Ptr LIST\<close> f by (subst check_leaks_loop.simps) (simp add: rd_def say_def)
  also have "\<dots> = Some (n + 1 + int (length bs), ?s\<lparr>printed := printed ?s @ leak_messages bs\<rparr>)"
    unfolding n IH by simp
  finally show ?case by (simp add: x leak_messages_def)
qed

lemma checkLeaks_step:
  assumes "mem_repr s bs"
  shows "checkLeaks s = Some (int (length bs), s\<lparr>printed := printed s @ leak_messages bs
    @ (if new_verbose_flag s \<or> bs \<noteq> [] then [Leaks_found (int (length bs))] else []) @ [Leak_check (int (length bs))]\<rparr>)"
proof -
  have "successively (adj (nxf (cells s)) (pvf (cells s))) ([Ptr LIST] @ (map (Ptr \<circ> fst) bs @ [Ptr LIST]))"
    and d: "cells s (Ptr LIST) \<noteq> None"
    using assms by (auto simp: mem_repr_def mem_ring_def ring_def)
  then have "adj (nxf (cells s)) (pvf (cells s)) (Ptr LIST) (hd (map (Ptr \<circ> fst) bs @ [Ptr LIST]))"
    unfolding successively_append_iff by simp
  then have "rd nx (cells s) (Ptr LIST) = Some (hd (map (Ptr \<circ> fst) bs @ [Ptr LIST]))"
    using d rd_links(1) [of "Ptr LIST" "cells s"] by (simp add: adj_def)
  moreover have "check_leaks_loop (hd (map (Ptr \<circ> fst) bs @ [Ptr LIST])) 0 s =
      Some (int (length bs), s\<lparr>printed := printed s @ leak_messages bs\<rparr>)"
    using check_leaks_loop_step [of s "[]" bs 0 "printed s"] assms by simp
  ultimately show ?thesis by (simp add: checkLeaks_def say_def)
qed

lemma mem_do_refines:
  assumes "mem_repr s bs" "mem_spec x bs = Some bs'"
  shows "\<exists>s'. mem_do x s = Some s' \<and> mem_repr s' bs'"
proof (cases x)
  case (New a c n org ln arr)
  then show ?thesis using alloc_mem_step [OF assms(1), of a ln n c org arr] assms(2) by (auto split: if_splits)
next
  case (Delete a addr arr)
  then obtain b where "map_of bs a = Some b" "is_array b = arr" "bs' = filter (\<lambda>x. fst x \<noteq> a) bs"
    using assms(2) by (auto split: option.splits if_splits)
  then show ?thesis using free_pointer_step [OF assms(1), of a b arr addr] Delete by auto
qed

lemma mem_runs_refine:
  "mem_repr s bs \<Longrightarrow> mem_specs ops bs = Some bs' \<Longrightarrow> \<exists>s'. mem_runs ops s = Some s' \<and> mem_repr s' bs'"
proof (induction ops arbitrary: s bs)
  case (Cons x ops)
  obtain b1 where "mem_spec x bs = Some b1" "mem_specs ops b1 = Some bs'"
    using Cons.prems(2) by (auto split: Option.bind_splits)
  then show ?case using mem_do_refines [OF Cons.prems(1)] Cons.IH by fastforce
qed simp

text \<open>C21: The allocation tracker implements a list of live blocks: after any sequence of allocations at
  unused addresses, of sizes to which the size of the header can be added without wrapping around, and of
  deletions of live blocks with the matching operator, every call returned, total_mem_alloc is the sum
  of the sizes of the live blocks modulo 2 ^ 64, and checkLeaks returns the number of live blocks and
  reports each once, in the order of allocation, with its size and origin.  An allocation of a greater size, for
  which malloc is asked for a few bytes only, writes its header past them.\<close>

theorem mem_leaks_exact:
  assumes "mem_specs ops [] = Some bs"
  shows "\<exists>s s'. mem_runs ops mem_init = Some s \<and> total_mem_alloc s = sum_list (map (bsize \<circ> snd) bs)
    \<and> checkLeaks s = Some (int (length bs), s')
    \<and> printed s' = printed s @ leak_messages bs
        @ (if new_verbose_flag s \<or> bs \<noteq> [] then [Leaks_found (int (length bs))] else []) @ [Leak_check (int (length bs))]
    \<and> (2 ^ 64 \<le> unat m + ALIGNED_LIST_ITEM_SIZE \<and> 0 \<le> ln \<longrightarrow> alloc_mem (Ptr a) c m org ln arr s = None)"
proof -
  obtain s where s: "mem_runs ops mem_init = Some s" "mem_repr s bs"
    using mem_runs_refine [OF mem_repr_init assms] by blast
  have "2 ^ 64 \<le> unat m + ALIGNED_LIST_ITEM_SIZE \<and> 0 \<le> ln \<longrightarrow> alloc_mem (Ptr a) c m org ln arr s = None"
    using block_size [of m] by (auto simp: alloc_mem_def Let_def)
  then show ?thesis using s(1) checkLeaks_step [OF s(2)] s(2) by (auto simp: mem_repr_def)
qed

definition raw_block :: new_ptr_list_t where
  "raw_block = \<lparr>nx = NULL, pv = NULL, bsize = 0, origin = Addr NULL, line = 0, is_array = False, magic = 0\<rparr>"

theorem mem_leaks_exact_witness:
  "\<exists>s s'. mem_runs [New 1000 raw_block 4 (File ''main.cpp'') 15 False, New 2000 raw_block 16 (File ''main.cpp'') 17 True,
      Delete 2000 (Ptr 7) True] mem_init = Some s \<and> checkLeaks s = Some (1, s')"
proof -
  let ?ops = "[New 1000 raw_block 4 (File ''main.cpp'') 15 False, New 2000 raw_block 16 (File ''main.cpp'') 17 True,
      Delete 2000 (Ptr 7) True]"
  have "mem_specs ?ops [] = Some [(1000, block_of raw_block 4 (File ''main.cpp'') 15 False)]"
    by (simp add: LIST_def block_of_def header_size)
  then show ?thesis using mem_leaks_exact [of ?ops] by fastforce
qed

text \<open>Deleting a live block with the operator of the other kind is detected: free_pointer reports it
  and stops the program, whatever the state reached by the history before.\<close>

theorem mem_mismatch_aborts:
  assumes "mem_specs ops [] = Some bs" "map_of bs a = Some b" "is_array b \<noteq> arr"
  shows "\<exists>s s' m. mem_runs ops mem_init = Some s
    \<and> free_pointer (Ptr (usr a)) addr arr s = Some (Aborted s') \<and> printed s' = printed s @ [m]"
proof -
  obtain s where s: "mem_runs ops mem_init = Some s" "mem_repr s bs"
    using mem_runs_refine [OF mem_repr_init assms(1)] by blast
  then show ?thesis using free_pointer_mismatch [OF s(2) assms(2,3)] by blast
qed

theorem mem_mismatch_aborts_witness:
  "\<exists>s s'. mem_runs [New 1000 raw_block 4 (File ''main.cpp'') 15 False] mem_init = Some s
    \<and> free_pointer (Ptr (usr 1000)) NULL True s = Some (Aborted s')"
proof -
  have a: "mem_specs [New 1000 raw_block 4 (File ''main.cpp'') 15 False] []
      = Some [(1000, block_of raw_block 4 (File ''main.cpp'') 15 False)]" by (simp add: LIST_def header_size)
  show ?thesis using mem_mismatch_aborts [OF a, of 1000 _ True NULL] by (fastforce simp: block_of_def)
qed

end
