(* ===== verification/CVector.thy ===== *)
theory CVector
  imports Prelude
begin

text \<open>
  The template \<open>CVector\<close> of \<open>mystl/vector.h\<close>.  The storage is a list of cells, \<^const>\<open>None\<close> where no
  object has been constructed; the pointers \<open>_start\<close>, \<open>_end\<close> and \<open>_endofStorage\<close> are the place 0, the
  size and the length of the list, and all are null when there is no storage.  An iterator is an
  index.  Assigning to a cell without an object is undefined unless the element type is trivially
  copyable, which is the argument \<open>triv\<close>.  The numbers of places are of the type \<open>size_t\<close> and wrap around;
  an allocation is taken to succeed.  The copy constructor cannot be instantiated, since it calls members
  that are not \<open>const\<close>, and is left out.
\<close>

subsection \<open>Definitions\<close>

record 'a cvector =
  storage :: "'a option list option"
  v_end :: nat

definition vec_new :: "'a cvector" where
  "vec_new = \<lparr>storage = None, v_end = 0\<rparr>"

definition vec_new_fill :: "nat \<Rightarrow> 'a \<Rightarrow> 'a cvector" where
  "vec_new_fill n value = \<lparr>storage = Some (replicate n (Some value)), v_end = n\<rparr>"

text \<open>\<open>CVector(size_t n)\<close> fills with 0.\<close>

definition vec_new_size :: "nat \<Rightarrow> 'a::zero cvector" where
  "vec_new_size n = vec_new_fill n 0"

definition vec_size :: "'a cvector \<Rightarrow> nat" where
  "vec_size v = v_end v"

definition vec_capacity :: "'a cvector \<Rightarrow> nat" where
  "vec_capacity v = (case storage v of None \<Rightarrow> 0 | Some st \<Rightarrow> length st)"

definition cells_of :: "'a cvector \<Rightarrow> 'a option list" where
  "cells_of v = (case storage v of None \<Rightarrow> [] | Some st \<Rightarrow> st)"

text \<open>Reading an object, constructing one in a raw or dead cell, assigning to one, destroying one.\<close>

definition cell_read :: "'a option list \<Rightarrow> nat \<Rightarrow> 'a option" where
  "cell_read st i = (if i < length st then st ! i else None)"

definition cell_construct :: "'a option list \<Rightarrow> nat \<Rightarrow> 'a \<Rightarrow> 'a option list option" where
  "cell_construct st i x = (if i < length st then Some (st[i := Some x]) else None)"

definition cell_assign :: "bool \<Rightarrow> 'a option list \<Rightarrow> nat \<Rightarrow> 'a \<Rightarrow> 'a option list option" where
  "cell_assign triv st i x = (if i < length st \<and> (triv \<or> st ! i \<noteq> None) then Some (st[i := Some x]) else None)"

definition cell_destroy :: "'a option list \<Rightarrow> nat \<Rightarrow> 'a option list option" where
  "cell_destroy st i = (if i < length st \<and> st ! i \<noteq> None then Some (st[i := None]) else None)"

text \<open>\<open>std::uninitialized_copy\<close> of the places \<open>[i, j)\<close> to another storage, at \<open>k\<close>.\<close>

fun uninitialized_copy :: "'a option list \<Rightarrow> nat \<Rightarrow> nat \<Rightarrow> 'a option list \<Rightarrow> nat \<Rightarrow> 'a option list option" where
  "uninitialized_copy src i 0 dst k = Some dst"
| "uninitialized_copy src i (Suc n) dst k = do {
     x \<leftarrow> cell_read src i;
     dst \<leftarrow> cell_construct dst k x;
     uninitialized_copy src (Suc i) n dst (Suc k) }"

fun uninitialized_fill_n :: "'a option list \<Rightarrow> nat \<Rightarrow> nat \<Rightarrow> 'a \<Rightarrow> 'a option list option" where
  "uninitialized_fill_n dst k 0 x = Some dst"
| "uninitialized_fill_n dst k (Suc n) x = do {
     dst \<leftarrow> cell_construct dst k x;
     uninitialized_fill_n dst (Suc k) n x }"

text \<open>\<open>std::copy_backward\<close> of the \<open>m\<close> places that end before \<open>j\<close>, by \<open>n\<close> places up.\<close>

fun copy_backward :: "bool \<Rightarrow> 'a option list \<Rightarrow> nat \<Rightarrow> nat \<Rightarrow> nat \<Rightarrow> 'a option list option" where
  "copy_backward triv st i 0 n = Some st"
| "copy_backward triv st i (Suc m) n = do {
     x \<leftarrow> cell_read st (i + m);
     st \<leftarrow> cell_assign triv st (i + m + n) x;
     copy_backward triv st i m n }"

text \<open>\<open>std::copy\<close> of \<open>m\<close> places from \<open>i + 1\<close> on, one place down.\<close>

fun copy_down :: "bool \<Rightarrow> 'a option list \<Rightarrow> nat \<Rightarrow> nat \<Rightarrow> 'a option list option" where
  "copy_down triv st i 0 = Some st"
| "copy_down triv st i (Suc m) = do {
     x \<leftarrow> cell_read st (Suc i);
     st \<leftarrow> cell_assign triv st i x;
     copy_down triv st (Suc i) m }"

text \<open>A \<open>const T &\<close> refers to an object of its own or to an element of the vector.\<close>

datatype 'a vref = Own 'a | Elem nat

definition deref :: "'a option list \<Rightarrow> 'a vref \<Rightarrow> 'a option" where
  "deref st r = (case r of Own x \<Rightarrow> Some x | Elem k \<Rightarrow> cell_read st k)"

fun fill_n :: "bool \<Rightarrow> 'a option list \<Rightarrow> nat \<Rightarrow> nat \<Rightarrow> 'a vref \<Rightarrow> 'a option list option" where
  "fill_n triv st i 0 r = Some st"
| "fill_n triv st i (Suc n) r = do {
     x \<leftarrow> deref st r;
     st \<leftarrow> cell_assign triv st i x;
     fill_n triv st (Suc i) n r }"

definition vec_at :: "'a cvector \<Rightarrow> nat \<Rightarrow> 'a option" where
  "vec_at v n = cell_read (cells_of v) n"

definition vec_front :: "'a cvector \<Rightarrow> 'a option" where
  "vec_front v = cell_read (cells_of v) 0"

definition vec_back :: "'a cvector \<Rightarrow> 'a option" where
  "vec_back v = (if v_end v = 0 then None else cell_read (cells_of v) (v_end v - 1))"

text \<open>\<open>destroy\<close>: every object from the last to the first, then the storage.\<close>

fun destroy_down :: "'a option list \<Rightarrow> nat \<Rightarrow> 'a option list option" where
  "destroy_down st 0 = Some st"
| "destroy_down st (Suc n) = do { st \<leftarrow> cell_destroy st n; destroy_down st n }"

definition vec_destroy :: "'a cvector \<Rightarrow> 'a cvector option" where
  "vec_destroy v = do {
     _ \<leftarrow> (case storage v of None \<Rightarrow> Some [] | Some st \<Rightarrow> destroy_down st (v_end v));
     Some vec_new }"

text \<open>A value of type \<open>size_t\<close>.\<close>

definition size_t :: "nat \<Rightarrow> nat" where "size_t n = n mod 2 ^ 64"

definition push_back :: "'a vref \<Rightarrow> 'a cvector \<Rightarrow> 'a cvector option" where
  "push_back r v = (if v_end v \<noteq> length (cells_of v) then do {
       x \<leftarrow> deref (cells_of v) r;
       st \<leftarrow> cell_construct (cells_of v) (v_end v) x;
       Some \<lparr>storage = Some st, v_end = v_end v + 1\<rparr> }
     else do {
       let n = vec_capacity v;
       p \<leftarrow> uninitialized_copy (cells_of v) 0 (v_end v) (replicate (size_t (2 * n)) None) 0;
       x \<leftarrow> deref (cells_of v) r;
       p \<leftarrow> cell_construct p (v_end v) x;
       _ \<leftarrow> vec_destroy v;
       Some \<lparr>storage = Some p, v_end = v_end v + 1\<rparr> })"

text \<open>\<open>insert(T *ite, size_t n, const T &value)\<close>; the iterator points into the vector or to its end.\<close>

definition vec_insert :: "bool \<Rightarrow> nat \<Rightarrow> nat \<Rightarrow> 'a vref \<Rightarrow> 'a cvector \<Rightarrow> 'a cvector option" where
  "vec_insert triv i n r v = (if i > v_end v then None
     else if size_t (n + vec_size v) > vec_capacity v then do {
       let old = vec_capacity v;
       let new = size_t (2 * (old + max n old));
       p \<leftarrow> uninitialized_copy (cells_of v) 0 i (replicate new None) 0;
       x \<leftarrow> deref (cells_of v) r;
       p \<leftarrow> uninitialized_fill_n p i n x;
       p \<leftarrow> uninitialized_copy (cells_of v) i (v_end v - i) p (i + n);
       _ \<leftarrow> vec_destroy v;
       Some \<lparr>storage = Some p, v_end = v_end v + n\<rparr> }
     else if v_end v \<noteq> length (cells_of v) then do {
       st \<leftarrow> copy_backward triv (cells_of v) i (v_end v - i) n;
       st \<leftarrow> fill_n triv st i n r;
       Some \<lparr>storage = Some st, v_end = v_end v + n\<rparr> }
     else Some v)"

definition vec_insert_one :: "bool \<Rightarrow> nat \<Rightarrow> 'a vref \<Rightarrow> 'a cvector \<Rightarrow> 'a cvector option" where
  "vec_insert_one triv i r v = vec_insert triv i 1 r v"

definition vec_erase :: "bool \<Rightarrow> nat \<Rightarrow> 'a cvector \<Rightarrow> (nat \<times> 'a cvector) option" where
  "vec_erase triv i v = (if i \<ge> v_end v then None else do {
     st \<leftarrow> (if i + 1 \<noteq> v_end v then copy_down triv (cells_of v) i (v_end v - (i + 1)) else Some (cells_of v));
     let e = v_end v - 1;
     st \<leftarrow> cell_destroy st e;
     Some (i, \<lparr>storage = Some st, v_end = e\<rparr>) })"

subsection \<open>The vector implements a list\<close>

text \<open>Objects in the first places, raw cells behind them.\<close>

definition vec_repr :: "'a cvector \<Rightarrow> 'a list \<Rightarrow> bool" where
  "vec_repr v xs \<longleftrightarrow> v_end v = length xs \<and> (\<exists>k. cells_of v = map Some xs @ replicate k None)
     \<and> (storage v = None \<longrightarrow> xs = [])"

lemma uninitialized_copy_spec:
  assumes "src = map Some xs @ a" "dst = map Some ys @ replicate (n + m) None" "i + n \<le> length xs"
  shows "uninitialized_copy src i n dst (length ys) =
    Some (map Some (ys @ take n (drop i xs)) @ replicate m None)"
  using assms(2,3)
proof (induction n arbitrary: i ys dst)
  case 0
  then show ?case by simp
next
  case (Suc n)
  have r: "cell_read src i = Some (xs ! i)" using Suc.prems(2) by (simp add: cell_read_def assms(1) nth_append)
  have c: "cell_construct dst (length ys) (xs ! i) = Some (map Some (ys @ [xs ! i]) @ replicate (n + m) None)"
    using Suc.prems(1) by (simp add: cell_construct_def list_update_append)
  have "drop i xs = xs ! i # drop (Suc i) xs" using Suc.prems(2) by (simp add: Cons_nth_drop_Suc)
  then show ?case using Suc.IH [OF refl, of "Suc i" "ys @ [xs ! i]"] Suc.prems(2) r c by simp
qed

lemma uninitialized_fill_n_spec:
  "uninitialized_fill_n (map Some ys @ replicate (n + m) None) (length ys) n x =
    Some (map Some (ys @ replicate n x) @ replicate m None)"
proof (induction n arbitrary: ys)
  case (Suc n)
  have "cell_construct (map Some ys @ replicate (Suc n + m) None) (length ys) x =
      Some (map Some (ys @ [x]) @ replicate (n + m) None)"
    by (simp add: cell_construct_def list_update_append)
  then show ?case using Suc [of "ys @ [x]"] by simp
qed simp

lemma destroy_down_spec: "n \<le> length xs \<Longrightarrow> \<exists>st. destroy_down (map Some xs @ a) n = Some st"
proof (induction n arbitrary: xs a)
  case (Suc n)
  have "destroy_down (map Some xs @ a) (Suc n) = destroy_down (map Some (take n xs) @ None # map Some (drop (Suc n) xs) @ a) n"
    using Suc.prems by (simp add: cell_destroy_def nth_append list_update_append upd_conv_take_nth_drop take_map drop_map)
  then show ?case using Suc.IH [of "take n xs" "None # map Some (drop (Suc n) xs) @ a"] Suc.prems by simp
qed simp

lemma vec_destroy_spec:
  assumes "vec_repr v xs"
  shows "vec_destroy v = Some vec_new"
proof (cases "storage v")
  case None
  then show ?thesis by (simp add: vec_destroy_def)
next
  case (Some st)
  obtain k where "st = map Some xs @ replicate k None" "v_end v = length xs"
    using assms Some by (auto simp: vec_repr_def cells_of_def)
  then obtain st' where "destroy_down st (v_end v) = Some st'"
    using destroy_down_spec [of "v_end v" xs] by fastforce
  then show ?thesis using Some by (simp add: vec_destroy_def)
qed

text \<open>A state of the storage while elements are moved up: the places from \<open>i + m\<close> on hold what is
  already moved.\<close>

lemma copy_backward_spec:
  assumes "length st = length xs + k" "n \<le> k" "i + m \<le> length xs" "m \<le> length xs - i"
    and "\<And>j. j < i + m \<Longrightarrow> st ! j = Some (xs ! j)"
  shows "\<exists>st'. copy_backward True st i m n = Some st' \<and> length st' = length st
    \<and> (\<forall>j. i + n \<le> j \<and> j < i + m + n \<longrightarrow> st' ! j = Some (xs ! (j - n)))
    \<and> (\<forall>j. j < i + n \<or> i + m + n \<le> j \<longrightarrow> st' ! j = st ! j)"
  using assms
proof (induction m arbitrary: st)
  case 0
  then show ?case by auto
next
  case (Suc m)
  let ?st = "st[i + m + n := Some (xs ! (i + m))]"
  have r: "cell_read st (i + m) = Some (xs ! (i + m))" using Suc.prems by (simp add: cell_read_def)
  have a: "cell_assign True st (i + m + n) (xs ! (i + m)) = Some ?st"
    using Suc.prems by (simp add: cell_assign_def)
  have "\<exists>st'. copy_backward True ?st i m n = Some st' \<and> length st' = length ?st
    \<and> (\<forall>j. i + n \<le> j \<and> j < i + m + n \<longrightarrow> st' ! j = Some (xs ! (j - n)))
    \<and> (\<forall>j. j < i + n \<or> i + m + n \<le> j \<longrightarrow> st' ! j = ?st ! j)"
    by (rule Suc.IH) (use Suc.prems in \<open>auto simp: nth_list_update\<close>)
  then obtain st' where st': "copy_backward True ?st i m n = Some st'" "length st' = length ?st"
    "\<And>j. i + n \<le> j \<Longrightarrow> j < i + m + n \<Longrightarrow> st' ! j = Some (xs ! (j - n))"
    "\<And>j. j < i + n \<or> i + m + n \<le> j \<Longrightarrow> st' ! j = ?st ! j" by blast
  have "st' ! j = Some (xs ! (j - n))" if "i + n \<le> j" "j < i + Suc m + n" for j
    using that st'(3) [of j] st'(4) [of j] Suc.prems(1,2,3) by (cases "j = i + m + n") auto
  moreover have "st' ! j = st ! j" if "j < i + n \<or> i + Suc m + n \<le> j" for j
    using that st'(4) [of j] by auto
  ultimately show ?case using r a st'(1,2) by auto
qed

lemma fill_n_spec:
  assumes "i + n \<le> length st"
  shows "\<exists>st'. fill_n True st i n (Own x) = Some st' \<and> length st' = length st
    \<and> (\<forall>j. i \<le> j \<and> j < i + n \<longrightarrow> st' ! j = Some x) \<and> (\<forall>j. j < i \<or> i + n \<le> j \<longrightarrow> st' ! j = st ! j)"
  using assms
proof (induction n arbitrary: i st)
  case 0
  then show ?case by auto
next
  case (Suc n)
  let ?st = "st[i := Some x]"
  have a: "cell_assign True st i x = Some ?st" using Suc.prems by (simp add: cell_assign_def)
  obtain st' where st': "fill_n True ?st (Suc i) n (Own x) = Some st'" "length st' = length ?st"
    "\<And>j. Suc i \<le> j \<Longrightarrow> j < Suc i + n \<Longrightarrow> st' ! j = Some x" "\<And>j. j < Suc i \<or> Suc i + n \<le> j \<Longrightarrow> st' ! j = ?st ! j"
  proof -
    have c: "Suc i + n \<le> length ?st" using Suc.prems by simp
    show thesis using Suc.IH [OF c] that by blast
  qed
  have "st' ! j = Some x" if "i \<le> j" "j < i + Suc n" for j
    using that st'(3) [of j] st'(4) [of j] Suc.prems by (cases "j = i") auto
  moreover have "st' ! j = st ! j" if "j < i \<or> i + Suc n \<le> j" for j using that st'(4) [of j] by auto
  ultimately show ?case using a st'(1,2) by (auto simp: deref_def)
qed

lemma copy_down_spec:
  assumes "i + Suc m \<le> length st" "\<And>j. j \<le> i + m \<Longrightarrow> st ! j \<noteq> None"
  shows "\<exists>st'. copy_down triv st i m = Some st' \<and> length st' = length st
    \<and> (\<forall>j. i \<le> j \<and> j < i + m \<longrightarrow> st' ! j = st ! Suc j) \<and> (\<forall>j. j < i \<or> i + m \<le> j \<longrightarrow> st' ! j = st ! j)"
  using assms
proof (induction m arbitrary: i st)
  case 0
  then show ?case by auto
next
  case (Suc m)
  obtain x where x: "st ! Suc i = Some x" using Suc.prems(2) [of "Suc i"] by auto
  let ?st = "st[i := Some x]"
  have a: "cell_read st (Suc i) = Some x" "cell_assign triv st i x = Some ?st"
    using Suc.prems(1) Suc.prems(2) [of i] x by (simp_all add: cell_assign_def cell_read_def)
  obtain st' where st': "copy_down triv ?st (Suc i) m = Some st'" "length st' = length ?st"
    "\<And>j. Suc i \<le> j \<Longrightarrow> j < Suc i + m \<Longrightarrow> st' ! j = ?st ! Suc j" "\<And>j. j < Suc i \<or> Suc i + m \<le> j \<Longrightarrow> st' ! j = ?st ! j"
  proof -
    have c: "Suc i + Suc m \<le> length ?st" using Suc.prems(1) by simp
    have d: "?st ! j \<noteq> None" if "j \<le> Suc i + m" for j
      using that Suc.prems by (cases "j = i") auto
    show thesis using Suc.IH [OF c d] that by blast
  qed
  have "st' ! j = st ! Suc j" if "i \<le> j" "j < i + Suc m" for j
    using that st'(3) [of j] st'(4) [of j] Suc.prems(1) x by (cases "j = i") auto
  moreover have "st' ! j = st ! j" if "j < i \<or> i + Suc m \<le> j" for j using that st'(4) [of j] by auto
  ultimately show ?case using a st'(1,2) by auto
qed

lemma vec_cells:
  assumes "vec_repr v xs"
  obtains k where "cells_of v = map Some xs @ replicate k None" "v_end v = length xs" "vec_capacity v = length xs + k"
  using assms that by (auto simp: vec_repr_def vec_capacity_def cells_of_def split: option.splits)

lemma vec_reprI: "cells_of v = map Some xs @ replicate k None \<Longrightarrow> v_end v = length xs \<Longrightarrow> storage v \<noteq> None \<Longrightarrow> vec_repr v xs"
  by (auto simp: vec_repr_def)

lemma size_t_id: "n < 2 ^ 64 \<Longrightarrow> size_t n = n"
  by (simp add: size_t_def)

lemma push_back_spec:
  assumes "vec_repr v xs" "vec_capacity v \<noteq> 0" "2 * vec_capacity v < 2 ^ 64" "deref (cells_of v) r = Some x"
  shows "\<exists>v'. push_back r v = Some v' \<and> vec_repr v' (xs @ [x])
    \<and> vec_capacity v' = (if length xs = vec_capacity v then 2 * vec_capacity v else vec_capacity v)"
proof -
  obtain k where k: "cells_of v = map Some xs @ replicate k None" "v_end v = length xs" "vec_capacity v = length xs + k"
    using vec_cells [OF assms(1)] .
  show ?thesis
  proof (cases k)
    case 0
    let ?n = "length xs"
    have n: "?n \<noteq> 0" using assms(2) k 0 by simp
    have c: "uninitialized_copy (cells_of v) 0 (v_end v) (replicate (2 * vec_capacity v) None) 0 =
        Some (map Some xs @ replicate ?n None)"
      using uninitialized_copy_spec [of "cells_of v" xs "[]" "replicate (2 * ?n) None" "[]" ?n ?n 0] k 0
      by (simp add: mult_2)
    have d: "cell_construct (map Some xs @ replicate ?n None) ?n x = Some (map Some (xs @ [x]) @ replicate (?n - 1) None)"
      using n by (cases ?n) (simp_all add: cell_construct_def list_update_append)
    let ?v = "\<lparr>storage = Some (map Some (xs @ [x]) @ replicate (?n - 1) None), v_end = ?n + 1\<rparr>"
    have "v_end v = length (cells_of v)" using k 0 by simp
    then have "push_back r v = Some ?v"
      using c d vec_destroy_spec [OF assms(1)] k(2) assms(4) size_t_id [OF assms(3)] by (simp add: push_back_def Let_def)
    moreover have "vec_repr ?v (xs @ [x])" by (rule vec_reprI [of _ _ "?n - 1"]) (simp_all add: cells_of_def)
    moreover have "vec_capacity ?v = 2 * vec_capacity v" using k(3) 0 n by (simp add: vec_capacity_def)
    ultimately show ?thesis using k(3) 0 by auto
  next
    case (Suc k')
    have d: "cell_construct (cells_of v) (v_end v) x = Some (map Some (xs @ [x]) @ replicate k' None)"
      using k Suc by (simp add: cell_construct_def list_update_append)
    show ?thesis using d k Suc assms(4)
      by (auto simp: push_back_def vec_repr_def vec_capacity_def cells_of_def)
  qed
qed

lemma in_place:
  assumes "length st = length xs + k" "n \<le> k" "i \<le> length xs" "st = map Some xs @ replicate k None"
  shows "\<exists>st'. copy_backward True st i (length xs - i) n = Some st' \<and> length st' = length st
    \<and> (\<forall>j. j < i \<longrightarrow> st' ! j = Some (xs ! j))
    \<and> (\<forall>j. i + n \<le> j \<and> j < length xs + n \<longrightarrow> st' ! j = Some (xs ! (j - n)))
    \<and> (\<forall>j. length xs + n \<le> j \<and> j < length st \<longrightarrow> st' ! j = None)"
proof -
  obtain st' where st': "copy_backward True st i (length xs - i) n = Some st'" "length st' = length st"
    "\<And>j. i + n \<le> j \<Longrightarrow> j < i + (length xs - i) + n \<Longrightarrow> st' ! j = Some (xs ! (j - n))"
    "\<And>j. j < i + n \<or> i + (length xs - i) + n \<le> j \<Longrightarrow> st' ! j = st ! j"
  proof -
    have c: "i + (length xs - i) \<le> length xs" "length xs - i \<le> length xs - i" using assms(3) by simp_all
    have d: "st ! j = Some (xs ! j)" if "j < i + (length xs - i)" for j
      using that assms(3,4) by (simp add: nth_append)
    show thesis using copy_backward_spec [OF assms(1,2) c d] that by blast
  qed
  have "st' ! j = Some (xs ! j)" if "j < i" for j using st'(4) [of j] that assms(3,4) by (simp add: nth_append)
  moreover have "st' ! j = None" if "length xs + n \<le> j" "j < length st" for j
    using st'(4) [of j] that assms by (simp add: nth_append)
  ultimately show ?thesis using st'(1-3) assms(3) by auto
qed

lemma insert_spec:
  assumes "vec_repr v xs" "i \<le> length xs" "2 * (vec_capacity v + max n (vec_capacity v)) < 2 ^ 64"
    and "deref (cells_of v) r = Some x" "vec_capacity v < n + length xs \<or> triv \<and> r = Own x"
  shows "\<exists>v'. vec_insert triv i n r v = Some v' \<and> vec_repr v' (take i xs @ replicate n x @ drop i xs)"
proof -
  obtain k where k: "cells_of v = map Some xs @ replicate k None" "v_end v = length xs" "vec_capacity v = length xs + k"
    using vec_cells [OF assms(1)] .
  let ?l = "length xs" and ?r = "take i xs @ replicate n x @ drop i xs"
  consider (grow) "n + ?l > vec_capacity v" | (fit) "n \<le> k" "k \<noteq> 0" "\<not> n + ?l > vec_capacity v"
    | (none) "n = 0" "k = 0" using k(3) by linarith
  then show ?thesis
  proof cases
    case grow
    define new where "new = 2 * (vec_capacity v + max n (vec_capacity v))"
    have new: "?l + n \<le> new" using k(3) by (simp add: new_def)
    have sz: "size_t (2 * (vec_capacity v + max n (vec_capacity v))) = new" "size_t (n + ?l) = n + ?l"
      using assms(3) k(3) by (simp_all add: size_t_id new_def)
    have c1: "uninitialized_copy (cells_of v) 0 i (replicate new None) 0 =
        Some (map Some (take i xs) @ replicate (n + (new - i - n)) None)"
      using uninitialized_copy_spec [of "cells_of v" xs _ "replicate new None" "[]" i "new - i" 0] k assms(2) new by simp
    have c2: "uninitialized_fill_n (map Some (take i xs) @ replicate (n + (new - i - n)) None) i n x =
        Some (map Some (take i xs @ replicate n x) @ replicate (new - i - n) None)"
    proof -
      have "length (take i xs) = i" using assms(2) by simp
      then show ?thesis using uninitialized_fill_n_spec [of "take i xs" n "new - i - n" x] by (simp only:)
    qed
    have c3: "uninitialized_copy (cells_of v) i (?l - i) (map Some (take i xs @ replicate n x) @ replicate (new - i - n) None) (i + n)
        = Some (map Some ?r @ replicate (new - ?l - n) None)"
      using uninitialized_copy_spec [of "cells_of v" xs "replicate k None"
          "map Some (take i xs @ replicate n x) @ replicate (new - i - n) None" "take i xs @ replicate n x" "?l - i" "new - ?l - n" i]
        k assms(2) new by (simp add: min_def split: if_splits)
    have g: "size_t (n + vec_size v) > vec_capacity v" using grow k(2) sz(2) by (simp add: vec_size_def)
    let ?v = "\<lparr>storage = Some (map Some ?r @ replicate (new - ?l - n) None), v_end = ?l + n\<rparr>"
    have "vec_insert triv i n r v = Some ?v"
      using g assms(2,4) k(2) c1 c2 c3 vec_destroy_spec [OF assms(1)]
      by (simp add: vec_insert_def Let_def sz(1) del: distrib_left_numeral)
    moreover have "vec_repr ?v ?r"
      by (rule vec_reprI [of _ _ "new - ?l - n"]) (use assms(2) in \<open>simp_all add: cells_of_def\<close>)
    ultimately show ?thesis by blast
  next
    case fit
    then have t: "triv" "r = Own x" using assms(5) by auto
    have sz: "size_t (n + ?l) = n + ?l" using assms(3) k(3) by (simp add: size_t_id)
    let ?st = "cells_of v"
    have l: "length ?st = ?l + k" using k(1) by simp
    obtain s1 where s1: "copy_backward True ?st i (?l - i) n = Some s1" "length s1 = length ?st"
      "\<And>j. j < i \<Longrightarrow> s1 ! j = Some (xs ! j)" "\<And>j. i + n \<le> j \<Longrightarrow> j < ?l + n \<Longrightarrow> s1 ! j = Some (xs ! (j - n))"
      "\<And>j. ?l + n \<le> j \<Longrightarrow> j < length ?st \<Longrightarrow> s1 ! j = None"
      using in_place [OF l fit(1) assms(2) k(1)] by blast
    obtain s2 where s2: "fill_n True s1 i n (Own x) = Some s2" "length s2 = length s1"
      "\<And>j. i \<le> j \<Longrightarrow> j < i + n \<Longrightarrow> s2 ! j = Some x" "\<And>j. j < i \<or> i + n \<le> j \<Longrightarrow> s2 ! j = s1 ! j"
      using fill_n_spec [of i n s1 x] s1(2) l fit(1) assms(2) by auto
    have "s2 = map Some ?r @ replicate (k - n) None"
    proof (rule nth_equalityI)
      show "length s2 = length (map Some ?r @ replicate (k - n) None)" using s2(2) s1(2) l fit(1) assms(2) by simp
      fix j assume "j < length s2"
      then have j: "j < ?l + k" using s2(2) s1(2) l by simp
      consider "j < i" | "i \<le> j" "j < i + n" | "i + n \<le> j" "j < ?l + n" | "?l + n \<le> j" by linarith
      then show "s2 ! j = (map Some ?r @ replicate (k - n) None) ! j"
        using s1(3-5) [of j] s2(3,4) [of j] j l assms(2) fit(1)
        by cases (auto simp: nth_append min_def)
    qed
    then show ?thesis using s1(1) s2(1) fit k assms(2) t sz
      by (auto simp: vec_insert_def vec_size_def vec_repr_def cells_of_def)
  next
    case none
    then show ?thesis using assms(1,2) k size_t_def by (auto simp: vec_insert_def vec_size_def)
  qed
qed

lemma erase_spec:
  assumes "vec_repr v xs" "i < length xs"
  shows "\<exists>v'. vec_erase triv i v = Some (i, v') \<and> vec_repr v' (take i xs @ drop (Suc i) xs)"
proof -
  obtain k where k: "cells_of v = map Some xs @ replicate k None" "v_end v = length xs" "vec_capacity v = length xs + k"
    using vec_cells [OF assms(1)] .
  let ?l = "length xs" and ?m = "length xs - Suc i"
  obtain s1 where s1: "copy_down triv (cells_of v) i ?m = Some s1" "length s1 = ?l + k"
    "\<And>j. i \<le> j \<Longrightarrow> j < i + ?m \<Longrightarrow> s1 ! j = cells_of v ! Suc j" "\<And>j. j < i \<or> i + ?m \<le> j \<Longrightarrow> s1 ! j = cells_of v ! j"
  proof -
    have c: "i + Suc ?m \<le> length (cells_of v)" using k(1) assms(2) by simp
    have d: "cells_of v ! j \<noteq> None" if "j \<le> i + ?m" for j
      using that k(1) assms(2) by (simp add: nth_append)
    have l: "length (cells_of v) = ?l + k" using k(1) by simp
    show thesis using copy_down_spec [OF c d, of triv] that unfolding l by blast
  qed
  have c: "(if i + 1 \<noteq> v_end v then copy_down triv (cells_of v) i (v_end v - (i + 1)) else Some (cells_of v)) = Some s1"
    using s1(1) k(2) by auto
  have "s1 ! (?l - 1) = cells_of v ! (?l - 1)" using s1(4) [of "?l - 1"] assms(2) by simp
  then have d: "cell_destroy s1 (?l - 1) = Some (s1[?l - 1 := None])"
    using s1(2) assms(2) k(1) by (auto simp: cell_destroy_def nth_append)
  have "s1[?l - 1 := None] = map Some (take i xs @ drop (Suc i) xs) @ replicate (Suc k) None"
  proof (rule nth_equalityI)
    show "length (s1[?l - 1 := None]) = length (map Some (take i xs @ drop (Suc i) xs) @ replicate (Suc k) None)"
      using s1(2) assms(2) by simp
    fix j assume "j < length (s1[?l - 1 := None])"
    then have j: "j < ?l + k" using s1(2) by simp
    consider "j < i" | "i \<le> j" "j < ?l - 1" | "j = ?l - 1" | "?l - 1 < j" by linarith
    then show "s1[?l - 1 := None] ! j = (map Some (take i xs @ drop (Suc i) xs) @ replicate (Suc k) None) ! j"
      using s1(2) s1(3,4) [of j] j assms(2) k(1)
      by cases (auto simp: nth_append min_def nth_Cons')
  qed
  then have "cells_of \<lparr>storage = Some (s1[?l - 1 := None]), v_end = ?l - 1\<rparr> =
      map Some (take i xs @ drop (Suc i) xs) @ replicate (Suc k) None" by (simp add: cells_of_def)
  then have "vec_repr \<lparr>storage = Some (s1[?l - 1 := None]), v_end = ?l - 1\<rparr> (take i xs @ drop (Suc i) xs)"
    by (rule vec_reprI) (use assms(2) in simp_all)
  then show ?thesis using c d k(2) assms(2) by (auto simp: vec_erase_def Let_def)
qed

subsection \<open>Properties\<close>

text \<open>A vector built by the constructors.\<close>

lemma vec_new_fill_repr: "vec_repr (vec_new_fill n x) (replicate n x)"
  by (rule vec_reprI [of _ _ 0]) (simp_all add: vec_new_fill_def cells_of_def map_replicate)

lemma vec_new_repr: "vec_repr vec_new []"
  by (simp add: vec_new_def vec_repr_def cells_of_def)



text \<open>Where the vector fails: push_back on an empty vector without storage (doubling 0 gives no room)
  and insert into spare room for an element type that is not trivially copyable (elements are assigned
  to raw memory) are undefined; and insert into spare room before place i of an element of the vector
  itself behind that place inserts its left neighbour.\<close>

theorem vec_failures:
  assumes "vec_repr v xs" "i < length xs" "length xs + n \<le> vec_capacity v" "0 < n"
    and "i < k" "k < length xs" "vec_at v k = Some x"
  shows "push_back (Own x) vec_new = None
    \<and> vec_insert False i n (Own x) v = None
    \<and> (\<exists>v'. vec_insert True i 1 (Elem k) v = Some v'
         \<and> vec_repr v' (take i xs @ (xs ! (k - 1)) # drop i xs))"
proof (intro conjI)
  obtain r where r: "cells_of v = map Some xs @ replicate r None" "v_end v = length xs" "vec_capacity v = length xs + r"
    using vec_cells [OF assms(1)] .
  let ?l = "length xs" and ?st = "cells_of v"
  show "push_back (Own x) vec_new = None"
    by (simp add: push_back_def vec_new_def cells_of_def vec_capacity_def deref_def cell_construct_def size_t_def)
  obtain m where m: "?l - i = Suc m" using assms(2) by (cases "?l - i") auto
  have "cell_assign False ?st (i + m + n) y = None" for y
    using m assms(2-4) r by (simp add: cell_assign_def nth_append)
  then have "copy_backward False ?st i (?l - i) n = None" unfolding m by (cases "cell_read ?st (i + m)") simp_all
  moreover have g: "\<not> size_t (n + vec_size v) > vec_capacity v" "v_end v \<noteq> length ?st"
    using assms(3,4) r mod_less_eq_dividend [of "n + vec_size v" "2 ^ 64"] by (simp_all add: vec_size_def size_t_def)
  ultimately show "vec_insert False i n (Own x) v = None"
    using assms(2) r(2) by (simp add: vec_insert_def)
  have l: "length ?st = ?l + r" and one: "1 \<le> r" using r assms(3,4) by simp_all
  have il: "i \<le> ?l" using assms(2) by simp
  obtain s1 where s1: "copy_backward True ?st i (?l - i) 1 = Some s1" "length s1 = length ?st"
    "\<And>j. j < i \<Longrightarrow> s1 ! j = Some (xs ! j)" "\<And>j. i + 1 \<le> j \<Longrightarrow> j < ?l + 1 \<Longrightarrow> s1 ! j = Some (xs ! (j - 1))"
    "\<And>j. ?l + 1 \<le> j \<Longrightarrow> j < length ?st \<Longrightarrow> s1 ! j = None"
    using in_place [OF l one il r(1)] by blast
  let ?x = "xs ! (k - 1)" and ?xs = "take i xs @ xs ! (k - 1) # drop i xs"
  have "s1 ! k = Some ?x" using s1(4) [of k] assms(5,6) by simp
  then have f: "fill_n True s1 i 1 (Elem k) = Some (s1[i := Some ?x])"
    using s1(2) l assms(2,6) by (simp add: deref_def cell_read_def cell_assign_def)
  have e: "s1[i := Some ?x] = map Some ?xs @ replicate (r - 1) None"
  proof (rule nth_equalityI)
    show "length (s1[i := Some ?x]) = length (map Some ?xs @ replicate (r - 1) None)"
      using s1(2) l one assms(2) by simp
    fix j assume "j < length (s1[i := Some ?x])"
    then have j: "j < ?l + r" using s1(2) l by simp
    consider "j < i" | "j = i" | "i + 1 \<le> j" "j < ?l + 1" | "?l + 1 \<le> j" by linarith
    then show "s1[i := Some ?x] ! j = (map Some ?xs @ replicate (r - 1) None) ! j"
      using s1(2) s1(3-5) [of j] j l assms(2) one
      by cases (auto simp: nth_append nth_Cons' min_def)
  qed
  have g1: "\<not> size_t (1 + vec_size v) > vec_capacity v"
    using one r mod_less_eq_dividend [of "1 + vec_size v" "2 ^ 64"] by (simp add: vec_size_def size_t_def)
  have "vec_insert True i 1 (Elem k) v = Some \<lparr>storage = Some (s1[i := Some ?x]), v_end = ?l + 1\<rparr>"
    using s1(1) f g1 g(2) il r(2) by (simp add: vec_insert_def del: fill_n.simps)
  moreover have "vec_repr \<lparr>storage = Some (s1[i := Some ?x]), v_end = ?l + 1\<rparr> ?xs"
    by (rule vec_reprI [of _ _ "r - 1"]) (use e il in \<open>simp_all add: cells_of_def\<close>)
  ultimately show "\<exists>v'. vec_insert True i 1 (Elem k) v = Some v' \<and> vec_repr v' ?xs" by blast
qed

theorem vec_failures_witness:
  "\<exists>v. vec_repr v [1, 2, 3::int] \<and> vec_insert False 0 1 (Own 3) v = None
     \<and> (\<exists>v'. vec_insert True 0 1 (Elem 2) v = Some v' \<and> vec_repr v' [2, 1, 2, 3])"
proof -
  let ?v = "\<lparr>storage = Some [Some 1, Some 2, Some 3, None], v_end = 3\<rparr> :: int cvector"
  have r: "vec_repr ?v [1, 2, 3]" by (rule vec_reprI [of _ _ 1]) (simp_all add: cells_of_def)
  show ?thesis using r vec_failures [OF r, of 0 1 2 3]
    by (auto simp: vec_capacity_def vec_at_def cells_of_def cell_read_def)
qed

end
