(* ===== verification/CStringMod.thy ===== *)
theory CStringMod
  imports CText
begin

text \<open>
  The class \<open>CString\<close> of \<open>mystl/cstring.h\<close>.  The heap maps addresses to arrays of characters; the
  cell also says whether it comes from \<open>new char[n]\<close> or from \<open>new char(c)\<close>, because \<open>delete[]\<close> is
  defined for the former only.  The address that \<open>new\<close> returns and the initial content of new memory
  are arguments.  The member \<open>m_len\<close> is never used.  The length of a string is kept in an \<open>int\<close>: what
  \<open>strlen\<close> answers is converted (\<^const>\<open>to_int\<close>), adding one to the greatest \<open>int\<close> is undefined, and \<open>new\<close> with a
  negative number throws an exception that nothing catches; both are \<^const>\<open>None\<close>.
\<close>

subsection \<open>Definitions\<close>

record char_block =
  new_array :: bool
  block_chars :: "char list"

type_synonym str_heap = "char_block heap"

record cstring =
  m_data :: ptr

definition heap_string :: "str_heap \<Rightarrow> ptr \<Rightarrow> string option" where
  "heap_string h p = do { b \<leftarrow> rd block_chars h p; cstr b 0 }"

definition c_strlen :: "str_heap \<Rightarrow> ptr \<Rightarrow> nat option" where
  "c_strlen h p = do { s \<leftarrow> heap_string h p; Some (length s) }"

text \<open>\<open>strcpy(dst + off, src)\<close>, the string and its NUL.\<close>

definition c_strcpy :: "str_heap \<Rightarrow> ptr \<Rightarrow> nat \<Rightarrow> string \<Rightarrow> str_heap option" where
  "c_strcpy h dst off s = do {
     b \<leftarrow> rd block_chars h dst;
     if off + length s < length b
     then wr (block_chars_update (\<lambda>_. take off b @ s @ [NUL] @ drop (Suc (off + length s)) b)) h dst
     else None }"

definition new_chars :: "(nat \<Rightarrow> char) \<Rightarrow> nat \<Rightarrow> nat \<Rightarrow> str_heap \<Rightarrow> str_heap" where
  "new_chars junk z n h = h(Ptr z \<mapsto> \<lparr>new_array = True, block_chars = map junk [0..<n]\<rparr>)"

definition new_char :: "nat \<Rightarrow> char \<Rightarrow> str_heap \<Rightarrow> str_heap" where
  "new_char z c h = h(Ptr z \<mapsto> \<lparr>new_array = False, block_chars = [c]\<rparr>)"

definition delete_array :: "ptr \<Rightarrow> str_heap \<Rightarrow> str_heap option" where
  "delete_array p h = (if p = NULL then Some h else do {
     a \<leftarrow> rd new_array h p;
     if a then free h p else None })"

text \<open>\<open>new char[len+1]\<close> for \<open>int len = strlen(s)\<close>.\<close>

definition new_string :: "(nat \<Rightarrow> char) \<Rightarrow> nat \<Rightarrow> nat \<Rightarrow> str_heap \<Rightarrow> str_heap option" where
  "new_string junk z strlen h = do {
     n \<leftarrow> add_int (to_int (int strlen)) 1;
     if n < 0 then None else Some (new_chars junk z (nat n) h) }"

text \<open>The constructor from a \<open>char *\<close>; \<open>None\<close> is \<open>nullptr\<close>.  \<open>delete[]\<close> acts on the initial null pointer.\<close>

definition cs_new :: "(nat \<Rightarrow> char) \<Rightarrow> nat \<Rightarrow> string option \<Rightarrow> str_heap \<Rightarrow> (cstring \<times> str_heap) option" where
  "cs_new junk z str h = (case str of
      None \<Rightarrow> do { h \<leftarrow> wr (block_chars_update (\<lambda>b. b[0 := NUL])) (new_chars junk z 1 h) (Ptr z);
                   Some (\<lparr>m_data = Ptr z\<rparr>, h) }
    | Some s \<Rightarrow> do {
        h \<leftarrow> delete_array NULL h;
        h \<leftarrow> new_string junk z (length s) h;
        h \<leftarrow> c_strcpy h (Ptr z) 0 s;
        Some (\<lparr>m_data = Ptr z\<rparr>, h) })"

definition cs_copy :: "(nat \<Rightarrow> char) \<Rightarrow> nat \<Rightarrow> cstring \<Rightarrow> str_heap \<Rightarrow> (cstring \<times> str_heap) option" where
  "cs_copy junk z str h = do {
     len \<leftarrow> c_strlen h (m_data str);
     h \<leftarrow> new_string junk z len h;
     s \<leftarrow> heap_string h (m_data str);
     h \<leftarrow> c_strcpy h (Ptr z) 0 s;
     Some (\<lparr>m_data = Ptr z\<rparr>, h) }"

text \<open>Moving leaves a null pointer behind: the new object and the old one.\<close>

definition cs_move :: "cstring \<Rightarrow> cstring \<times> cstring" where
  "cs_move str = (\<lparr>m_data = m_data str\<rparr>, str\<lparr>m_data := NULL\<rparr>)"

definition cs_destroy :: "cstring \<Rightarrow> str_heap \<Rightarrow> str_heap option" where
  "cs_destroy str h = (if m_data str \<noteq> NULL then delete_array (m_data str) h else Some h)"

text \<open>\<open>operator+\<close>; \<open>z\<close> and \<open>z'\<close> are the addresses of its two allocations.\<close>

definition cs_plus :: "(nat \<Rightarrow> char) \<Rightarrow> nat \<Rightarrow> nat \<Rightarrow> cstring \<Rightarrow> cstring \<Rightarrow> str_heap \<Rightarrow> (cstring \<times> str_heap) option" where
  "cs_plus junk z z' this str h = do {
     (newStr, h) \<leftarrow> cs_new junk z None h;
     a \<leftarrow> c_strlen h (m_data this);
     b \<leftarrow> c_strlen h (m_data str);
     let h = new_chars junk z' (a + b) h;
     let newStr = newStr\<lparr>m_data := Ptr z'\<rparr>;
     s \<leftarrow> heap_string h (m_data this);
     h \<leftarrow> c_strcpy h (m_data newStr) 0 s;
     a \<leftarrow> c_strlen h (m_data this);
     s \<leftarrow> heap_string h (m_data str);
     h \<leftarrow> c_strcpy h (m_data newStr) a s;
     Some (newStr, h) }"

text \<open>The assignments; \<open>self\<close> says whether both sides are the same object.\<close>

definition cs_assign :: "nat \<Rightarrow> bool \<Rightarrow> cstring \<Rightarrow> cstring \<Rightarrow> str_heap \<Rightarrow> (cstring \<times> str_heap) option" where
  "cs_assign z self this str h = (if self then Some (this, h) else do {
     h \<leftarrow> delete_array (m_data this) h;
     len \<leftarrow> c_strlen h (m_data str);
     n \<leftarrow> add_int (to_int (int len)) 1;
     let h = new_char z (char_of (nat (n mod 256))) h;
     s \<leftarrow> heap_string h (m_data str);
     h \<leftarrow> c_strcpy h (Ptr z) 0 s;
     Some (this\<lparr>m_data := Ptr z\<rparr>, h) })"

definition cs_move_assign :: "bool \<Rightarrow> cstring \<Rightarrow> cstring \<Rightarrow> str_heap \<Rightarrow> (cstring \<times> cstring \<times> str_heap) option" where
  "cs_move_assign self this str h = (if self then Some (this, str, h) else do {
     h \<leftarrow> delete_array (m_data this) h;
     Some (this\<lparr>m_data := m_data str\<rparr>, str\<lparr>m_data := NULL\<rparr>, h) })"

subsection \<open>Properties\<close>

text \<open>An object that owns an array holding \<open>s\<close>.\<close>

definition holds_string :: "str_heap \<Rightarrow> cstring \<Rightarrow> string \<Rightarrow> bool" where
  "holds_string h c s \<longleftrightarrow> heap_string h (m_data c) = Some s \<and> rd new_array h (m_data c) = Some True"

lemma c_strcpy_new:
  assumes "NUL \<notin> set s"
  shows "c_strcpy (new_chars junk z (length s + 1) h) (Ptr z) 0 s =
    Some (h(Ptr z \<mapsto> \<lparr>new_array = True, block_chars = s @ [NUL]\<rparr>))"
  by (simp add: c_strcpy_def new_chars_def rd_def wr_def)

lemma new_string_run:
  "int n < 2 ^ 31 - 1 \<Longrightarrow> new_string junk z n h = Some (new_chars junk z (n + 1) h)"
  by (simp add: new_string_def to_int_id int_range_def add_int_def nat_add_distrib)

lemma new_string_long:
  assumes "2 ^ 31 - 1 \<le> int n \<and> int n < 2 ^ 32 - 1"
  shows "new_string junk z n h = None"
proof (cases "int n = 2 ^ 31 - 1")
  case False
  then have r: "2 ^ 31 \<le> int n" "int n < 2 ^ 32 - 1" using assms by auto
  have "(int n + 2 ^ 31) mod 2 ^ 32 = (int n + 2 ^ 31 - 2 ^ 32) mod 2 ^ 32" by (rule minus_mod_self2 [symmetric])
  also have "\<dots> = int n + 2 ^ 31 - 2 ^ 32" using r by (intro mod_pos_pos_trivial) simp_all
  finally have "(int n + 2 ^ 31) mod 2 ^ 32 = int n + 2 ^ 31 - 2 ^ 32" .
  then have "to_int (int n) = int n - 2 ^ 32" by (simp add: to_int_def)
  then show ?thesis using r by (auto simp: new_string_def add_int_def int_range_def)
qed (simp add: new_string_def add_int_def to_int_def int_range_def)

lemma heap_string_block:
  assumes "NUL \<notin> set s"
  shows "heap_string (h(Ptr z \<mapsto> \<lparr>new_array = True, block_chars = s @ [NUL]\<rparr>)) (Ptr z) = Some s"
  using cstr_append [OF assms, of "[]" "[]"] by (simp add: heap_string_def rd_def)

lemma heap_string_other: "p \<noteq> q \<Longrightarrow> heap_string (h(q := c)) p = heap_string h p"
  "p \<noteq> q \<Longrightarrow> rd f (h(q := c)) p = rd f h p"
  by (simp_all add: heap_string_def rd_def)

lemma heap_string_nul: "heap_string h p = Some s \<Longrightarrow> NUL \<notin> set s \<and> p \<noteq> NULL \<and> h p \<noteq> None"
  using cstr_len(5) by (auto simp: heap_string_def rd_def split: Option.bind_splits if_splits)

lemma cs_new_run:
  assumes "NUL \<notin> set s" "int (length s) < 2 ^ 31 - 1"
  shows "cs_new junk z (Some s) h = Some (\<lparr>m_data = Ptr z\<rparr>, h(Ptr z \<mapsto> \<lparr>new_array = True, block_chars = s @ [NUL]\<rparr>))"
  using c_strcpy_new [OF assms(1)] new_string_run [OF assms(2)] by (simp add: cs_new_def delete_array_def)

lemma cs_copy_run:
  assumes "heap_string h (m_data c) = Some s" "m_data c \<noteq> Ptr z" "int (length s) < 2 ^ 31 - 1"
  shows "cs_copy junk z c h = Some (\<lparr>m_data = Ptr z\<rparr>, h(Ptr z \<mapsto> \<lparr>new_array = True, block_chars = s @ [NUL]\<rparr>))"
proof -
  have "heap_string (new_chars junk z (length s + 1) h) (m_data c) = Some s"
    using assms(1,2) by (simp add: new_chars_def heap_string_other)
  then show ?thesis
    using assms(1) c_strcpy_new [of s junk z h] heap_string_nul [OF assms(1)] new_string_run [OF assms(3)]
    by (simp add: cs_copy_def c_strlen_def)
qed

text \<open>C40: The life of strings of fewer than 2 ^ 31 - 1 characters: an object constructed from a string
  or copied from an object holds that string in an array of its own and leaves all other arrays as they are;
  destruction frees exactly the array of the object; the object moved from can be destroyed without any
  effect; and move assignment frees the old array of the target and gives it the array of the source, so
  that destroying both objects afterwards leaves nothing behind.  A string of 2 ^ 31 - 1 to 2 ^ 32 - 2
  characters can be neither constructed nor copied: the length does not fit into an int.\<close>

theorem cs_lifecycle:
  assumes "NUL \<notin> set s" "h (Ptr z) = None" "h (Ptr z') = None" "z \<noteq> z'"
  shows "(int (length s) < 2 ^ 31 - 1 \<longrightarrow> (\<exists>c h1 d h2. cs_new junk z (Some s) h = Some (c, h1) \<and> holds_string h1 c s
      \<and> cs_copy junk z' c h1 = Some (d, h2) \<and> holds_string h2 c s \<and> holds_string h2 d s \<and> m_data c \<noteq> m_data d
      \<and> (\<forall>p. p \<noteq> Ptr z \<and> p \<noteq> Ptr z' \<longrightarrow> h2 p = h p)
      \<and> cs_destroy d h2 = Some h1 \<and> cs_destroy c h1 = Some h
      \<and> (case cs_move d of (e, d') \<Rightarrow> holds_string h2 e s \<and> cs_destroy d' h2 = Some h2 \<and> cs_destroy e h2 = Some h1)
      \<and> (\<exists>c' d' h3. cs_move_assign False c d h2 = Some (c', d', h3) \<and> holds_string h3 c' s \<and> h3 = h2(m_data c := None)
          \<and> (\<exists>h4. cs_destroy d' h3 = Some h4 \<and> cs_destroy c' h4 = Some h))))
    \<and> (2 ^ 31 - 1 \<le> int (length s) \<and> int (length s) < 2 ^ 32 - 1 \<longrightarrow> cs_new junk z (Some s) h = None
      \<and> (\<forall>h c. holds_string h c s \<longrightarrow> cs_copy junk z c h = None))"
proof (intro conjI impI)
  assume small: "int (length s) < 2 ^ 31 - 1"
  let ?b = "\<lparr>new_array = True, block_chars = s @ [NUL]\<rparr>"
  let ?c = "\<lparr>m_data = Ptr z\<rparr>" and ?d = "\<lparr>m_data = Ptr z'\<rparr>"
  let ?h1 = "h(Ptr z \<mapsto> ?b)"
  let ?h2 = "?h1(Ptr z' \<mapsto> ?b)"
  let ?h3 = "?h2(Ptr z := None)"
  have n: "cs_new junk z (Some s) h = Some (?c, ?h1)"
    by (rule cs_new_run [OF assms(1) small])
  have s1: "heap_string ?h1 (Ptr z) = Some s" by (rule heap_string_block [OF assms(1)])
  have s2: "heap_string ?h2 (Ptr z') = Some s" by (rule heap_string_block [OF assms(1)])
  have s3: "heap_string ?h2 (Ptr z) = Some s" using s1 assms(4) by (simp add: heap_string_other)
  have c: "cs_copy junk z' ?c ?h1 = Some (?d, ?h2)"
    by (rule cs_copy_run) (use s1 small assms(4) in simp_all)
  have d: "cs_destroy ?d ?h2 = Some ?h1" "cs_destroy ?c ?h1 = Some h"
    using assms(2-4) by (auto simp: cs_destroy_def delete_array_def rd_def free_def fun_eq_iff)
  have r: "rd new_array ?h1 (Ptr z) = Some True" "rd new_array ?h2 (Ptr z) = Some True" "rd new_array ?h2 (Ptr z') = Some True"
    using assms(4) by (simp_all add: rd_def)
  have hs: "holds_string ?h1 ?c s" "holds_string ?h2 ?c s" "holds_string ?h2 ?d s"
    using s1 s2 s3 r by (simp_all add: holds_string_def)
  have mv: "case cs_move ?d of (e, d') \<Rightarrow> holds_string ?h2 e s \<and> cs_destroy d' ?h2 = Some ?h2 \<and> cs_destroy e ?h2 = Some ?h1"
    using hs(3) d(1) by (simp add: cs_move_def cs_destroy_def)
  have "delete_array (Ptr z) ?h2 = Some ?h3"
    using r(2) by (simp add: delete_array_def free_def)
  then have ma: "cs_move_assign False ?c ?d ?h2 = Some (?d, \<lparr>m_data = NULL\<rparr>, ?h3)"
    by (simp add: cs_move_assign_def)
  have "holds_string ?h3 ?d s"
    using heap_string_block [OF assms(1), of h z'] r(3) assms(4)
    by (auto simp: holds_string_def heap_string_def rd_def)
  moreover have "cs_destroy \<lparr>m_data = NULL\<rparr> ?h3 = Some ?h3" "cs_destroy ?d ?h3 = Some h"
    using assms(2-4) by (auto simp: cs_destroy_def delete_array_def rd_def free_def fun_eq_iff)
  ultimately have "\<exists>c' d' h3. cs_move_assign False ?c ?d ?h2 = Some (c', d', h3) \<and> holds_string h3 c' s
      \<and> h3 = ?h2(m_data ?c := None) \<and> (\<exists>h4. cs_destroy d' h3 = Some h4 \<and> cs_destroy c' h4 = Some h)"
    using ma by - (rule exI [of _ ?d], rule exI [of _ "\<lparr>m_data = NULL\<rparr>"], rule exI [of _ ?h3], auto)
  then show "\<exists>c h1 d h2. cs_new junk z (Some s) h = Some (c, h1) \<and> holds_string h1 c s
      \<and> cs_copy junk z' c h1 = Some (d, h2) \<and> holds_string h2 c s \<and> holds_string h2 d s \<and> m_data c \<noteq> m_data d
      \<and> (\<forall>p. p \<noteq> Ptr z \<and> p \<noteq> Ptr z' \<longrightarrow> h2 p = h p)
      \<and> cs_destroy d h2 = Some h1 \<and> cs_destroy c h1 = Some h
      \<and> (case cs_move d of (e, d') \<Rightarrow> holds_string h2 e s \<and> cs_destroy d' h2 = Some h2 \<and> cs_destroy e h2 = Some h1)
      \<and> (\<exists>c' d' h3. cs_move_assign False c d h2 = Some (c', d', h3) \<and> holds_string h3 c' s \<and> h3 = h2(m_data c := None)
          \<and> (\<exists>h4. cs_destroy d' h3 = Some h4 \<and> cs_destroy c' h4 = Some h))"
    using n c d hs mv assms(4) by (intro exI [of _ ?c] exI [of _ ?h1] exI [of _ ?d] exI [of _ ?h2]) simp
next
  assume big: "2 ^ 31 - 1 \<le> int (length s) \<and> int (length s) < 2 ^ 32 - 1"
  then have no: "new_string junk z (length s) h = None" for h by (rule new_string_long)
  show "cs_new junk z (Some s) h = None" by (simp add: cs_new_def delete_array_def no)
  show "\<forall>h c. holds_string h c s \<longrightarrow> cs_copy junk z c h = None"
    by (simp add: cs_copy_def c_strlen_def holds_string_def no)
qed

theorem cs_lifecycle_witness:
  "\<exists>c h1. cs_new (\<lambda>_. CHR ''?'') 1 (Some ''hello my string'') (\<lambda>_. None) = Some (c, h1)
     \<and> holds_string h1 c ''hello my string'' \<and> cs_destroy c h1 = Some (\<lambda>_. None)"
  using cs_lifecycle [of "''hello my string''" "\<lambda>_. None" 1 2 "\<lambda>_. CHR ''?''"] by auto

text \<open>operator+ always writes one character past its array, which has no room for the final NUL;
  operator= of a string that is not empty writes past the single character that new char(len+1)
  allocates; and copying a string that has been moved from dereferences null.\<close>

theorem cs_failures:
  assumes "holds_string h c s" "holds_string h d t" "h (Ptr z) = None" "h (Ptr z') = None" "z \<noteq> z'"
    and "m_data c \<noteq> m_data d" "t \<noteq> []"
  shows "cs_plus junk z z' c d h = None \<and> cs_assign z False c d h = None
    \<and> cs_copy junk z (snd (cs_move d)) h = None"
proof (intro conjI)
  have hc: "heap_string h (m_data c) = Some s" "rd new_array h (m_data c) = Some True"
    and hd: "heap_string h (m_data d) = Some t" using assms(1,2) by (simp_all add: holds_string_def)
  have ne: "m_data c \<noteq> Ptr z" "m_data c \<noteq> Ptr z'" "m_data d \<noteq> Ptr z" "m_data d \<noteq> Ptr z'" "m_data c \<noteq> NULL"
    using heap_string_nul [OF hc(1)] heap_string_nul [OF hd] assms(3,4) by auto
  let ?h1 = "h(Ptr z \<mapsto> \<lparr>new_array = True, block_chars = [NUL]\<rparr>)"
  have n: "cs_new junk z None h = Some (\<lparr>m_data = Ptr z\<rparr>, ?h1)"
    by (simp add: cs_new_def new_chars_def wr_def)
  let ?h2 = "new_chars junk z' (length s + length t) ?h1"
  have l: "c_strlen ?h1 (m_data c) = Some (length s)" "c_strlen ?h1 (m_data d) = Some (length t)"
    using hc hd ne by (simp_all add: c_strlen_def heap_string_other)
  have g: "heap_string ?h2 (m_data c) = Some s" "heap_string ?h2 (m_data d) = Some t"
    using hc hd ne by (simp_all add: new_chars_def heap_string_other)
  let ?j = "map junk [0..<length s + length t]"
  let ?h3 = "?h2(Ptr z' \<mapsto> \<lparr>new_array = True, block_chars = s @ [NUL] @ drop (Suc (length s)) ?j\<rparr>)"
  have c1: "c_strcpy ?h2 (Ptr z') 0 s = Some ?h3"
    using assms(7) by (simp add: c_strcpy_def new_chars_def rd_def wr_def)
  have g3: "c_strlen ?h3 (m_data c) = Some (length s)" "heap_string ?h3 (m_data d) = Some t"
    using g ne by (simp_all add: c_strlen_def heap_string_other)
  have lt: "length t \<noteq> 0" using assms(7) by simp
  have "length (block_chars (the (?h3 (Ptr z')))) = length s + length t"
    using lt by (simp del: upt_Suc length_0_conv)
  then have c2: "c_strcpy ?h3 (Ptr z') (length s) t = None"
    by (simp add: c_strcpy_def rd_def del: length_append length_Cons)
  show "cs_plus junk z z' c d h = None"
    using n l g c1 c2 g3 by (simp add: cs_plus_def Let_def)
  obtain h4 where h4: "delete_array (m_data c) h = Some h4" "heap_string h4 (m_data d) = Some t"
  proof -
    have "free h (m_data c) = Some (h(m_data c := None))"
      using heap_string_nul [OF hc(1)] by (auto simp: free_def)
    then have "delete_array (m_data c) h = Some (h(m_data c := None))"
      using hc(2) ne by (simp add: delete_array_def)
    moreover have "heap_string (h(m_data c := None)) (m_data d) = Some t"
      using hd assms(6) by (simp add: heap_string_other)
    ultimately show thesis by (rule that)
  qed
  have "heap_string (new_char z x h4) (m_data d) = Some t" for x
    using h4(2) ne by (simp add: new_char_def heap_string_other)
  moreover have "c_strcpy (new_char z x h4) (Ptr z) 0 t = None" for x
    using lt by (simp add: c_strcpy_def new_char_def rd_def)
  ultimately show "cs_assign z False c d h = None"
    using h4 by (simp add: cs_assign_def c_strlen_def Let_def)
  show "cs_copy junk z (snd (cs_move d)) h = None"
    by (simp add: cs_copy_def cs_move_def c_strlen_def heap_string_def)
qed

theorem cs_failures_witness:
  "cs_assign 3 False \<lparr>m_data = Ptr 1\<rparr> \<lparr>m_data = Ptr 2\<rparr> ((\<lambda>_. None)
     (Ptr 1 \<mapsto> \<lparr>new_array = True, block_chars = [NUL]\<rparr>,
      Ptr 2 \<mapsto> \<lparr>new_array = True, block_chars = ''hi'' @ [NUL]\<rparr>)) = None"
  using cs_failures [of "(\<lambda>_. None)(Ptr 1 \<mapsto> \<lparr>new_array = True, block_chars = [NUL]\<rparr>,
      Ptr 2 \<mapsto> \<lparr>new_array = True, block_chars = ''hi'' @ [NUL]\<rparr>)" "\<lparr>m_data = Ptr 1\<rparr>" "[]" "\<lparr>m_data = Ptr 2\<rparr>" "''hi''" 3 4]
  by (simp add: holds_string_def heap_string_def rd_def cstr_def)

end
