(* ===== verification/WebServer.thy ===== *)
theory WebServer
  imports HttpConn TimerWheel_Props
begin

text \<open>
  The web server of \<open>epoll/webserver.cpp\<close>: one thread that waits for events and dispatches them to
  the connections of \<open>HttpConn\<close>, the timers of \<open>TimerWheel\<close> and the request queue of the thread
  pool.  The two static members of \<open>http_conn\<close> and the trace of the calls of the operating system
  are part of the state and are put into a connection while one of its methods runs.
\<close>

subsection \<open>State\<close>

record client_data =
  cd_epollfd :: int
  cd_sockfd :: int
  cd_timer :: ptr

record 'a web_server =
  users :: "int \<Rightarrow> 'a http_conn"
  static_epollfd :: int
  static_user_count :: int
  wheel_heap :: "client_data tw_heap"
  m_pTwPtr :: time_wheel
  pool_queue :: "int list"
  listenfd :: int
  sig_pipefd0 :: int
  stop_server :: bool
  timeout :: bool
  ws_trace :: trace

definition TIMEOUT :: int where "TIMEOUT = 5"
definition TIMESLOT :: int where "TIMESLOT = 1"
definition MAX_FD :: int where "MAX_FD = 65536"

text \<open>
  What the operating system and \<open>new\<close> answer while one event is handled: \<open>accept\<close> (a descriptor,
  negative for a failure, and an address) and the \<open>errno\<close> it leaves, the address of a new timer, the calls of \<open>recv\<close> on the
  signal pipe (\<^const>\<open>None\<close> for -1) and on a connection, and the calls of \<open>writev\<close>.
\<close>

record 'a ws_answers =
  an_os :: http_os
  an_accept :: "int \<times> 'a"
  an_errno :: int
  an_timer :: ptr
  an_signals :: "string option"
  an_recv :: "recv_result list"
  an_writev :: "send_result list"

text \<open>The connection with the index \<open>fd\<close>; the array ends at \<^const>\<open>MAX_FD\<close>.\<close>

definition user_at :: "int \<Rightarrow> 'a web_server \<Rightarrow> 'a http_conn option" where
  "user_at fd s = (if 0 \<le> fd \<and> fd < MAX_FD then Some ((users s fd)\<lparr>m_epollfd := static_epollfd s,
     m_user_count := static_user_count s, sys_calls := ws_trace s\<rparr>) else None)"

definition put_user :: "int \<Rightarrow> 'a http_conn \<Rightarrow> 'a web_server \<Rightarrow> 'a web_server" where
  "put_user fd c s = s\<lparr>users := (users s)(fd := c), static_user_count := m_user_count c,
     ws_trace := sys_calls c\<rparr>"

definition ws_sys :: "sys_call \<Rightarrow> 'a web_server \<Rightarrow> 'a web_server" where
  "ws_sys e s = s\<lparr>ws_trace := e # ws_trace s\<rparr>"

subsection \<open>Operations\<close>

definition show_error :: "int \<Rightarrow> string \<Rightarrow> 'a web_server \<Rightarrow> 'a web_server" where
  "show_error connfd info s = ws_sys (Close connfd) (ws_sys (Send connfd info) (ws_sys (Print info) s))"

definition cb_func :: "client_data \<Rightarrow> 'a web_server \<Rightarrow> 'a web_server" where
  "cb_func u s = ws_sys (Print (''close fd '' @ dec (cd_sockfd u) @ [LF]))
     (ws_sys (Close (cd_sockfd u)) (ws_sys (Epoll_del (cd_epollfd u) (cd_sockfd u)) s))"

text \<open>The calls of \<open>cb_func\<close> in one \<open>tick\<close>, and \<open>timer_handler\<close>.\<close>

definition run_callbacks :: "client_data list \<Rightarrow> 'a web_server \<Rightarrow> 'a web_server" where
  "run_callbacks ds s = fold cb_func ds s"

definition timer_handler :: "'a web_server \<Rightarrow> 'a web_server option" where
  "timer_handler s = do {
     (h, w, ds) \<leftarrow> tick (wheel_heap s) (m_pTwPtr s);
     let s = run_callbacks ds (s\<lparr>wheel_heap := h, m_pTwPtr := w\<rparr>);
     Some (ws_sys (Alarm TIMESLOT) s) }"

text \<open>A new connection.  The flag of the result says that the \<open>continue\<close> of the source was taken.\<close>

definition on_accept :: "'a ws_answers \<Rightarrow> 'a web_server \<Rightarrow> (bool \<times> 'a web_server) option" where
  "on_accept a s = (let (connfd, client_address) = an_accept a in
     if connfd < 0 then Some (True, ws_sys (Print (''errno is: '' @ dec (an_errno a) @ [LF])) s)
     else if static_user_count s \<ge> MAX_FD then Some (True, show_error connfd ''Internal server busy'' s)
     else do {
       let s = ws_sys (Print ('' new connection fd = '' @ dec connfd @ [LF])) s;
       c \<leftarrow> user_at connfd s;
       let s = put_user connfd (init (an_os a) connfd client_address c) s;
       (h, w, pTimer) \<leftarrow> add_timer (an_timer a) (wheel_heap s) (m_pTwPtr s) TIMEOUT;
       h \<leftarrow> set_user_data h pTimer \<lparr>cd_epollfd = static_epollfd s, cd_sockfd = connfd, cd_timer = pTimer\<rparr>;
       let s = s\<lparr>wheel_heap := h, m_pTwPtr := w\<rparr>;
       c \<leftarrow> user_at connfd s;
       Some (False, put_user connfd (setTimer pTimer c) s) })"

text \<open>The signal pipe.\<close>

definition on_signal :: "char \<Rightarrow> 'a web_server \<Rightarrow> 'a web_server" where
  "on_signal b s = (if byte_sig b = SIGALRM then s\<lparr>timeout := True\<rparr>
     else if byte_sig b = SIGTERM then s\<lparr>stop_server := True\<rparr> else s)"

definition on_signals :: "'a ws_answers \<Rightarrow> 'a web_server \<Rightarrow> (bool \<times> 'a web_server) option" where
  "on_signals a s = (case an_signals a of None \<Rightarrow> Some (True, s)
     | Some bs \<Rightarrow> if bs = [] then Some (True, s) else Some (False, fold on_signal bs s))"

text \<open>What follows a failed \<open>read\<close> or \<open>write\<close>.\<close>

definition drop_timer :: "int \<Rightarrow> 'a web_server \<Rightarrow> 'a web_server option" where
  "drop_timer fd s = do {
     c \<leftarrow> user_at fd s;
     let p = getTimer c;
     if p \<noteq> NULL then do {
       u \<leftarrow> rd user_data (wheel_heap s) p;
       d \<leftarrow> u;
       let s = cb_func d s;
       (h, w) \<leftarrow> del_timer (wheel_heap s) (m_pTwPtr s) p;
       let s = s\<lparr>wheel_heap := h, m_pTwPtr := w\<rparr>;
       c \<leftarrow> user_at fd s;
       Some (put_user fd (setTimer NULL c) s) }
     else Some s }"

definition close_user :: "int \<Rightarrow> 'a web_server \<Rightarrow> 'a web_server option" where
  "close_user fd s = do { c \<leftarrow> user_at fd s; Some (put_user fd (close_conn True c) s) }"

text \<open>\<open>pool->append\<close>: the pool was made with its default limit of 10000 requests.\<close>

definition pool_append :: "int \<Rightarrow> 'a web_server \<Rightarrow> 'a web_server" where
  "pool_append fd s = (if length (pool_queue s) > 10000 then s else s\<lparr>pool_queue := pool_queue s @ [fd]\<rparr>)"

definition on_readable :: "'a ws_answers \<Rightarrow> int \<Rightarrow> 'a web_server \<Rightarrow> 'a web_server option" where
  "on_readable a fd s = do {
     c \<leftarrow> user_at fd s;
     (ok, c) \<leftarrow> http_read (an_recv a) c;
     let s = put_user fd c s;
     if ok then do {
       let s = pool_append fd s;
       c \<leftarrow> user_at fd s;
       let p = getTimer c;
       if p \<noteq> NULL then do {
         (h, w) \<leftarrow> adjust_timer (wheel_heap s) (m_pTwPtr s) TIMEOUT p;
         Some (s\<lparr>wheel_heap := h, m_pTwPtr := w\<rparr>) }
       else Some s }
     else do { s \<leftarrow> drop_timer fd s; close_user fd s } }"

definition on_writable :: "'a ws_answers \<Rightarrow> int \<Rightarrow> 'a web_server \<Rightarrow> 'a web_server option" where
  "on_writable a fd s = do {
     c \<leftarrow> user_at fd s;
     (ok, c) \<leftarrow> http_write (an_writev a) c;
     let s = put_user fd c s;
     if \<not> ok then do { s \<leftarrow> drop_timer fd s; close_user fd s } else Some s }"

text \<open>The body of the loop over the events, and the loop.\<close>

definition dispatch :: "'a ws_answers \<Rightarrow> epoll_event \<Rightarrow> 'a web_server \<Rightarrow> (bool \<times> 'a web_server) option" where
  "dispatch a e s = (let sockfd = ev_fd e in
     if sockfd = listenfd s then on_accept a s
     else if sockfd = sig_pipefd0 s \<and> EPOLLIN \<in> set (ev_events e) then on_signals a s
     else if {EPOLLRDHUP, EPOLLHUP, EPOLLERR} \<inter> set (ev_events e) \<noteq> {}
       then map_option (Pair False) (close_user sockfd s)
     else if EPOLLIN \<in> set (ev_events e) then map_option (Pair False) (on_readable a sockfd s)
     else if EPOLLOUT \<in> set (ev_events e) then map_option (Pair False) (on_writable a sockfd s)
     else Some (False, s))"

definition handle_event :: "'a ws_answers \<Rightarrow> epoll_event \<Rightarrow> 'a web_server \<Rightarrow> 'a web_server option" where
  "handle_event a e s = do {
     (continued, s) \<leftarrow> dispatch a e s;
     if \<not> continued \<and> timeout s then do {
       s \<leftarrow> timer_handler s;
       Some (s\<lparr>timeout := False\<rparr>) }
     else Some s }"

fun handle_events :: "('a ws_answers \<times> epoll_event) list \<Rightarrow> 'a web_server \<Rightarrow> 'a web_server option" where
  "handle_events [] s = Some s"
| "handle_events (e # es) s = do { s \<leftarrow> handle_event (fst e) (snd e) s; handle_events es s }"

text \<open>
  The loop of \<open>run\<close>; an answer of \<open>epoll_wait\<close> is a failure, with the value of \<open>errno = EINTR\<close>, or
  the events.  The list has the answers; the function is \<^const>\<open>None\<close> if it ends before the loop.
\<close>

datatype 'a wait_answer = Wait_failed bool | Events "('a ws_answers \<times> epoll_event) list"

fun ws_loop :: "'a wait_answer list \<Rightarrow> 'a web_server \<Rightarrow> 'a web_server option" where
  "ws_loop ws s = (if stop_server s then Some s else case ws of [] \<Rightarrow> None
     | Wait_failed eintr # ws \<Rightarrow>
        if eintr then ws_loop ws s else Some (ws_sys (Print (''epoll failure'' @ [LF])) s)
     | Events es # ws \<Rightarrow> do { s \<leftarrow> handle_events es s; ws_loop ws s })"

text \<open>A worker of the pool takes the first request and processes it.\<close>

definition worker_process :: "http_os \<Rightarrow> 'a web_server \<Rightarrow> 'a web_server option" where
  "worker_process os s = (case pool_queue s of [] \<Rightarrow> Some s
     | fd # q \<Rightarrow> do {
        c \<leftarrow> user_at fd s;
        c \<leftarrow> process os c;
        Some (put_user fd c (s\<lparr>pool_queue := q\<rparr>)) })"

subsection \<open>Start and end of the server\<close>

text \<open>
  The constructor narrows the port to 16 bits.  The start of \<open>run\<close> ends in the state of the loop, or
  with the value it returns, or in a failed assertion.  The calls that may fail are answered by
  \<open>ws_start_answers\<close>; \<open>conns\<close> is the new array of connections.
\<close>

record web_server_obj =
  m_port :: "16 word"
  m_ip :: string
  obj_wheel :: time_wheel

definition CWebServer :: "32 word \<Rightarrow> string \<Rightarrow> trace \<Rightarrow> web_server_obj \<times> trace" where
  "CWebServer port ip tr = (\<lparr>m_port = ucast port, m_ip = ip, obj_wheel = tw_new\<rparr>,
     Print ('' server ip = '' @ ip @ [LF]) # tr)"

datatype ws_failure = Returned int | Assertion_failed

record ws_start_answers =
  st_pool :: bool
  st_listenfd :: int
  st_bind :: int
  st_listen :: int
  st_epollfd :: int
  st_socketpair :: int
  st_pipe :: "int \<times> int"
  st_flags :: "int \<Rightarrow> 32 word"
  st_sigaction :: "int \<Rightarrow> bool"

definition assertion :: "bool \<Rightarrow> ws_failure + unit" where
  "assertion b = (if b then Inr () else Inl Assertion_failed)"

definition and_then :: "'e + 'a \<Rightarrow> ('a \<Rightarrow> 'e + 'b) \<Rightarrow> 'e + 'b" where
  "and_then r k = (case r of Inl e \<Rightarrow> Inl e | Inr x \<Rightarrow> k x)"

definition add_signal :: "ws_start_answers \<Rightarrow> int \<Rightarrow> sig_disp \<Rightarrow> trace \<Rightarrow> ws_failure + trace" where
  "add_signal an sig d tr = (case addsig (st_sigaction an sig) sig d True tr of
     None \<Rightarrow> Inl Assertion_failed | Some tr \<Rightarrow> Inr tr)"

definition ws_open :: "ws_start_answers \<Rightarrow> web_server_obj \<Rightarrow> trace \<Rightarrow> ws_failure + trace" where
  "ws_open an obj tr =
     and_then (assertion (st_listenfd an \<ge> 0)) (\<lambda>_.
     let tr = Linger (st_listenfd an) # tr;
         tr = Bind (st_listenfd an) (uint (m_port obj)) # tr in
     and_then (assertion (st_bind an \<ge> 0)) (\<lambda>_.
     let tr = Listen (st_listenfd an) 5 # tr in
     and_then (assertion (st_listen an \<ge> 0)) (\<lambda>_.
     let tr = Epoll_create 5 # tr in
     and_then (assertion (st_epollfd an \<noteq> - 1)) (\<lambda>_.
     Inr (util_addfd (st_flags an) (st_epollfd an) (st_listenfd an) False True tr)))))"

definition ws_signals :: "ws_start_answers \<Rightarrow> trace \<Rightarrow> ws_failure + trace" where
  "ws_signals an tr =
     and_then (assertion (st_socketpair an \<noteq> - 1)) (\<lambda>_.
     let tr = snd (util_setnonblocking (st_flags an) (snd (st_pipe an)) tr);
         tr = util_addfd (st_flags an) (st_epollfd an) (fst (st_pipe an)) False True tr in
     and_then (add_signal an SIGALRM Sig_handler tr) (\<lambda>tr. add_signal an SIGTERM Sig_handler tr))"

definition ws_start :: "ws_start_answers \<Rightarrow> (int \<Rightarrow> 'a http_conn) \<Rightarrow> web_server_obj \<Rightarrow> trace
    \<Rightarrow> ws_failure + 'a web_server" where
  "ws_start an conns obj tr =
     and_then (add_signal an SIGPIPE Sig_ign tr) (\<lambda>tr.
     if \<not> st_pool an then Inl (Returned 1) else
     and_then (ws_open an obj tr) (\<lambda>tr.
     and_then (ws_signals an tr) (\<lambda>tr.
     Inr \<lparr>users = conns, static_epollfd = st_epollfd an, static_user_count = 0,
       wheel_heap = (\<lambda>_. None), m_pTwPtr = obj_wheel obj, pool_queue = [],
       listenfd = st_listenfd an, sig_pipefd0 = fst (st_pipe an), stop_server = False,
       timeout = False, ws_trace = Alarm TIMESLOT # tr\<rparr>)))"

definition ws_finish :: "'a web_server \<Rightarrow> 'a web_server" where
  "ws_finish s = ws_sys (Close (listenfd s)) (ws_sys (Close (static_epollfd s)) s)"

text \<open>\<open>run\<close>: the start, the loop and the end; \<^const>\<open>None\<close> is undefined behaviour.\<close>

definition ws_run :: "ws_start_answers \<Rightarrow> (int \<Rightarrow> 'a http_conn) \<Rightarrow> 'a wait_answer list
    \<Rightarrow> web_server_obj \<Rightarrow> trace \<Rightarrow> (ws_failure + 'a web_server) option" where
  "ws_run an conns ws obj tr = (case ws_start an conns obj tr of Inl e \<Rightarrow> Some (Inl e)
     | Inr s \<Rightarrow> map_option (\<lambda>s. Inr (ws_finish s)) (ws_loop ws s))"

end
