(* ===== verification/WebServer_Props.thy ===== *)
theory WebServer_Props
  imports WebServer HttpConn_Read
begin

text \<open>
  What the web server does with its connections and their timers: a connection is closed after
  five seconds without data, reading postpones that, and what the closing leaves behind.
\<close>

subsection \<open>The timers of the server\<close>

type_synonym ws_slots = "nat \<Rightarrow> (ptr \<times> client_data tw_pay) list"

definition timers :: "'a web_server \<Rightarrow> ws_slots \<Rightarrow> (ptr \<times> int \<times> client_data option) set" where
  "timers s L = tw_abs (m_pTwPtr s) L"

text \<open>Every timer of the wheel has its data: its own address and the descriptor of the epoll set.\<close>

definition ws_inv :: "'a web_server \<Rightarrow> ws_slots \<Rightarrow> bool" where
  "ws_inv s L \<longleftrightarrow> tw_repr {} (wheel_heap s) (m_pTwPtr s) L
     \<and> (\<forall>a n u. (a, n, u) \<in> timers s L \<longrightarrow>
          (\<exists>d. u = Some d \<and> cd_timer d = a \<and> cd_epollfd d = static_epollfd s))"

lemma ws_invD:
  assumes "ws_inv s L"
  shows "tw_repr {} (wheel_heap s) (m_pTwPtr s) L"
    "(a, n, u) \<in> timers s L \<Longrightarrow> \<exists>d. u = Some d \<and> cd_timer d = a \<and> cd_epollfd d = static_epollfd s"
  using assms unfolding ws_inv_def by blast+

lemma timers_cong: "m_pTwPtr s = m_pTwPtr t \<Longrightarrow> timers s L = timers t L"
  by (simp add: timers_def)

lemma ws_inv_cong:
  "wheel_heap s = wheel_heap t \<Longrightarrow> m_pTwPtr s = m_pTwPtr t \<Longrightarrow> static_epollfd s = static_epollfd t
   \<Longrightarrow> ws_inv s L = ws_inv t L"
  by (simp add: ws_inv_def timers_def)

text \<open>The calls of one callback, the last one first.\<close>

definition closes :: "client_data \<Rightarrow> trace" where
  "closes d = [Print (''close fd '' @ dec (cd_sockfd d) @ [LF]), Close (cd_sockfd d),
     Epoll_del (cd_epollfd d) (cd_sockfd d)]"

lemma cb_func_trace: "cb_func d s = s\<lparr>ws_trace := closes d @ ws_trace s\<rparr>"
  by (simp add: cb_func_def ws_sys_def closes_def)

lemma run_callbacks_trace:
  "run_callbacks ds s = s\<lparr>ws_trace := concat (map closes (rev ds)) @ ws_trace s\<rparr>"
  unfolding run_callbacks_def by (induction ds arbitrary: s) (simp_all add: cb_func_trace)

lemma close_in_callbacks: "Close fd \<in> set (concat (map closes ds)) \<longleftrightarrow> (\<exists>d \<in> set ds. cd_sockfd d = fd)"
  by (auto simp: closes_def)

subsection \<open>One alarm\<close>

definition alarm_answers :: "'a ws_answers \<Rightarrow> bool" where
  "alarm_answers a \<longleftrightarrow> an_signals a = Some [sig_byte SIGALRM]"

definition alarm_event :: "'a web_server \<Rightarrow> epoll_event" where
  "alarm_event s = \<lparr>ev_fd = sig_pipefd0 s, ev_events = [EPOLLIN]\<rparr>"

lemma timer_handler_run:
  assumes I: "ws_inv s L"
  shows "\<exists>h w L' as. timer_handler s = Some (s\<lparr>wheel_heap := h, m_pTwPtr := w,
       ws_trace := Alarm 1 # concat (map closes (rev (map snd as))) @ ws_trace s\<rparr>)
    \<and> tw_repr {} h w L' \<and> tw_abs w L' = {(a, n - 1, u) | a n u. (a, n, u) \<in> timers s L \<and> 0 < n}
    \<and> distinct (map fst as) \<and> set as = {(a, d). (a, 0, Some d) \<in> timers s L}"
proof -
  have "\<forall>a. (a, 0, None) \<notin> tw_abs (m_pTwPtr s) L"
    using ws_invD(2) [OF I] unfolding timers_def by blast
  from tick_run [OF ws_invD(1) [OF I] this] obtain h w L' as where
    t: "tick (wheel_heap s) (m_pTwPtr s) = Some (h, w, map snd as)" and
    r: "tw_repr {} h w L'" "tw_abs w L' = {(a, n - 1, u) | a n u. (a, n, u) \<in> tw_abs (m_pTwPtr s) L \<and> 0 < n}"
      "distinct (map fst as)" "set as = {(a, d). (a, 0, Some d) \<in> tw_abs (m_pTwPtr s) L}"
    by blast
  have "timer_handler s = Some (s\<lparr>wheel_heap := h, m_pTwPtr := w,
       ws_trace := Alarm 1 # concat (map closes (rev (map snd as))) @ ws_trace s\<rparr>)"
    by (simp add: timer_handler_def t run_callbacks_trace ws_sys_def TIMESLOT_def)
  then show ?thesis using r unfolding timers_def by blast
qed

lemma on_alarm: "on_signal (sig_byte SIGALRM) s = s\<lparr>timeout := True\<rparr>"
  by (simp add: on_signal_def byte_sig_byte SIGALRM_def)

lemma alarm_run:
  assumes I: "ws_inv s L" and a: "alarm_answers a" and e: "listenfd s \<noteq> sig_pipefd0 s"
  shows "\<exists>h w L' as. handle_event a (alarm_event s) s = Some (s\<lparr>wheel_heap := h, m_pTwPtr := w, timeout := False,
       ws_trace := Alarm 1 # concat (map closes (rev (map snd as))) @ ws_trace s\<rparr>)
    \<and> tw_repr {} h w L' \<and> tw_abs w L' = {(a, n - 1, u) | a n u. (a, n, u) \<in> timers s L \<and> 0 < n}
    \<and> distinct (map fst as) \<and> set as = {(a, d). (a, 0, Some d) \<in> timers s L}"
proof -
  let ?s = "s\<lparr>timeout := True\<rparr>"
  have d: "dispatch a (alarm_event s) s = Some (False, ?s)"
    using a e by (auto simp: dispatch_def alarm_event_def on_signals_def alarm_answers_def on_alarm Let_def)
  have "ws_inv ?s L" using I by (simp add: ws_inv_def timers_def)
  from timer_handler_run [OF this] obtain h w L' as where
    t: "timer_handler ?s = Some (?s\<lparr>wheel_heap := h, m_pTwPtr := w,
       ws_trace := Alarm 1 # concat (map closes (rev (map snd as))) @ ws_trace ?s\<rparr>)" and
    r: "tw_repr {} h w L'" "tw_abs w L' = {(a, n - 1, u) | a n u. (a, n, u) \<in> timers ?s L \<and> 0 < n}"
       "distinct (map fst as)" "set as = {(a, d). (a, 0, Some d) \<in> timers ?s L}" by blast
  have "handle_event a (alarm_event s) s = Some (s\<lparr>wheel_heap := h, m_pTwPtr := w, timeout := False,
       ws_trace := Alarm 1 # concat (map closes (rev (map snd as))) @ ws_trace s\<rparr>)"
    using t by (simp add: handle_event_def d)
  then show ?thesis using r by (auto simp: timers_def)
qed

text \<open>A number of alarms, as the events of one or more answers of \<open>epoll_wait\<close>.\<close>

definition alarms :: "nat \<Rightarrow> 'a ws_answers \<Rightarrow> 'a web_server \<Rightarrow> ('a ws_answers \<times> epoll_event) list" where
  "alarms k a s = replicate k (a, alarm_event s)"

lemma alarms_run:
  assumes "ws_inv s L" and "alarm_answers a" and "listenfd s \<noteq> sig_pipefd0 s"
  shows "\<exists>s' L' tr. handle_events (alarms k a s) s = Some s' \<and> ws_inv s' L'
    \<and> timers s' L' = {(p, n - int k, u) | p n u. (p, n, u) \<in> timers s L \<and> int k \<le> n}
    \<and> ws_trace s' = tr @ ws_trace s
    \<and> (\<forall>fd. Close fd \<in> set tr \<longleftrightarrow> (\<exists>p n d. (p, n, Some d) \<in> timers s L \<and> n < int k \<and> cd_sockfd d = fd))
    \<and> (0 < k \<or> \<not> timeout s \<longrightarrow> \<not> timeout s')
    \<and> s' = s\<lparr>wheel_heap := wheel_heap s', m_pTwPtr := m_pTwPtr s', timeout := timeout s', ws_trace := ws_trace s'\<rparr>"
  using assms
proof (induction k arbitrary: s L)
  case 0
  have "(0::int) \<le> n" if "(p, n, u) \<in> timers s L" for p n u
    using that ws_invD(1) [OF 0(1)] tw_all_nonneg tw_due_nonneg unfolding timers_def tw_abs_iff by blast
  then have "timers s L = {(p, n - int 0, u) | p n u. (p, n, u) \<in> timers s L \<and> int 0 \<le> n}"
    "\<And>p n u. (p, n, u) \<in> timers s L \<Longrightarrow> \<not> n < int 0" by force+
  then show ?case using 0(1) by (intro exI [of _ s] exI [of _ L] exI [of _ "[]"]) (auto simp: alarms_def)
next
  case (Suc k)
  obtain h w L1 as where
    h: "handle_event a (alarm_event s) s = Some (s\<lparr>wheel_heap := h, m_pTwPtr := w, timeout := False,
       ws_trace := Alarm 1 # concat (map closes (rev (map snd as))) @ ws_trace s\<rparr>)" (is "_ = Some ?s")
    and r: "tw_repr {} h w L1" "tw_abs w L1 = {(a, n - 1, u) | a n u. (a, n, u) \<in> timers s L \<and> 0 < n}"
      "set as = {(a, d). (a, 0, Some d) \<in> timers s L}"
    using alarm_run [OF Suc.prems] by blast
  have t1: "timers ?s L1 = {(a, n - 1, u) | a n u. (a, n, u) \<in> timers s L \<and> 0 < n}"
    using r(2) by (simp add: timers_def)
  have i1: "ws_inv ?s L1" unfolding ws_inv_def t1 using r(1) ws_invD(2) [OF Suc.prems(1)] by auto
  have nn: "(0::int) \<le> n" if "(p, n, u) \<in> timers s L" for p n u
    using that ws_invD(1) [OF Suc.prems(1)] tw_all_nonneg tw_due_nonneg unfolding timers_def tw_abs_iff by blast
  have al: "alarm_event ?s = alarm_event s" by (simp add: alarm_event_def)
  have "listenfd ?s \<noteq> sig_pipefd0 ?s" using Suc.prems(3) by simp
  from Suc.IH [OF i1 Suc.prems(2) this] obtain s' L' tr where
    2: "handle_events (alarms k a ?s) ?s = Some s'" "ws_inv s' L'"
      "timers s' L' = {(p, n - int k, u) | p n u. (p, n, u) \<in> timers ?s L1 \<and> int k \<le> n}"
      "ws_trace s' = tr @ ws_trace ?s"
      "\<forall>fd. Close fd \<in> set tr \<longleftrightarrow> (\<exists>p n d. (p, n, Some d) \<in> timers ?s L1 \<and> n < int k \<and> cd_sockfd d = fd)"
      "0 < k \<or> \<not> timeout ?s \<longrightarrow> \<not> timeout s'"
      "s' = ?s\<lparr>wheel_heap := wheel_heap s', m_pTwPtr := m_pTwPtr s', timeout := timeout s', ws_trace := ws_trace s'\<rparr>"
    by blast
  let ?tr = "tr @ Alarm 1 # concat (map closes (rev (map snd as)))"
  have "handle_events (alarms (Suc k) a s) s = Some s'"
    using 2(1) h by (simp add: alarms_def al)
  moreover have "timers s' L' = {(p, n - int (Suc k), u) | p n u. (p, n, u) \<in> timers s L \<and> int (Suc k) \<le> n}"
    unfolding 2(3) t1 by force
  moreover have "ws_trace s' = ?tr @ ws_trace s" using 2(4) by simp
  moreover have "Close fd \<in> set ?tr \<longleftrightarrow> (\<exists>p n d. (p, n, Some d) \<in> timers s L \<and> n < int (Suc k) \<and> cd_sockfd d = fd)" for fd
  proof -
    have c: "Close fd \<in> set (concat (map closes (rev (map snd as)))) \<longleftrightarrow> (\<exists>p d. (p, 0, Some d) \<in> timers s L \<and> cd_sockfd d = fd)"
      unfolding close_in_callbacks using r(3) by force
    have t: "Close fd \<in> set tr \<longleftrightarrow> (\<exists>p n d. (p, n, Some d) \<in> timers s L \<and> 0 < n \<and> n - 1 < int k \<and> cd_sockfd d = fd)"
      using 2(5) unfolding t1 by force
    have "(\<exists>p n d. (p, n, Some d) \<in> timers s L \<and> n < int (Suc k) \<and> cd_sockfd d = fd) \<longleftrightarrow>
      (\<exists>p d. (p, 0, Some d) \<in> timers s L \<and> cd_sockfd d = fd)
      \<or> (\<exists>p n d. (p, n, Some d) \<in> timers s L \<and> 0 < n \<and> n - 1 < int k \<and> cd_sockfd d = fd)" (is "?l \<longleftrightarrow> ?r")
    proof
      assume ?l
      then obtain p n d where n: "(p, n, Some d) \<in> timers s L" "n < int (Suc k)" "cd_sockfd d = fd" by blast
      show ?r
      proof (cases "n = 0")
        case False
        then have "0 < n" "n - 1 < int k" using nn [OF n(1)] n(2) by auto
        then show ?thesis using n by blast
      qed (use n in blast)
    next
      assume ?r
      then show ?l
      proof (elim disjE exE conjE)
        fix p d assume "(p, 0, Some d) \<in> timers s L" "cd_sockfd d = fd"
        then show ?l by (intro exI [of _ p] exI [of _ 0] exI [of _ d]) simp
      next
        fix p n d assume "(p, n, Some d) \<in> timers s L" "0 < n" "n - 1 < int k" "cd_sockfd d = fd"
        then show ?l by (intro exI [of _ p] exI [of _ n] exI [of _ d]) simp
      qed
    qed
    then show ?thesis using c t by auto
  qed
  moreover have "\<not> timeout s'" using 2(6) by simp
  moreover have "s' = s\<lparr>wheel_heap := wheel_heap s', m_pTwPtr := m_pTwPtr s', timeout := timeout s', ws_trace := ws_trace s'\<rparr>"
    using 2(7) by (cases s, cases s') simp
  ultimately show ?case using 2(2) by blast
qed

subsection \<open>A new connection\<close>

definition accept_event :: "'a web_server \<Rightarrow> epoll_event" where
  "accept_event s = \<lparr>ev_fd = listenfd s, ev_events = [EPOLLIN]\<rparr>"

lemma user_at_in: "0 \<le> fd \<Longrightarrow> fd < MAX_FD \<Longrightarrow> user_at fd s = Some ((users s fd)\<lparr>m_epollfd := static_epollfd s,
     m_user_count := static_user_count s, sys_calls := ws_trace s\<rparr>)"
  by (simp add: user_at_def)

lemma init_simps [simp]:
  "m_sockfd (init os fd addr c) = fd" "m_pTimer (init os fd addr c) = m_pTimer c"
  "m_user_count (init os fd addr c) = m_user_count c + 1" "m_read_idx (init os fd addr c) = 0"
  "m_write_idx (init os fd addr c) = 0"
  "m_epollfd (init os fd addr c) = m_epollfd c"
  "sys_calls (init os fd addr c) = [Set_flags fd (os_flags os fd OR O_NONBLOCK),
     Epoll_add (m_epollfd c) fd [EPOLLIN, EPOLLET, EPOLLRDHUP, EPOLLONESHOT], Reuse_addr fd] @ sys_calls c"
  by (simp_all add: init_def init_request_def addfd_def setnonblocking_def sys_def Let_def)

lemma dispatch_accept: "dispatch a (accept_event s) s = on_accept a s"
  by (simp add: dispatch_def accept_event_def Let_def)

lemma accept_run:
  assumes I: "ws_inv s L" and a: "an_accept a = (fd, addr)" "an_timer a = z"
    and fd: "0 \<le> fd" "fd < MAX_FD" and n: "static_user_count s < MAX_FD"
    and z: "z \<noteq> NULL" "wheel_heap s z = None" and t: "\<not> timeout s"
  shows "\<exists>s' L' tr. handle_event a (accept_event s) s = Some s' \<and> ws_inv s' L'
    \<and> timers s' L' = insert (z, 5, Some \<lparr>cd_epollfd = static_epollfd s, cd_sockfd = fd, cd_timer = z\<rparr>) (timers s L)
    \<and> m_sockfd (users s' fd) = fd \<and> m_pTimer (users s' fd) = z \<and> m_read_idx (users s' fd) = 0
    \<and> static_user_count s' = static_user_count s + 1
    \<and> ws_trace s' = tr @ ws_trace s \<and> (\<forall>g. Close g \<notin> set tr)
    \<and> s' = s\<lparr>users := (users s)(fd := users s' fd), static_user_count := static_user_count s',
         wheel_heap := wheel_heap s', m_pTwPtr := m_pTwPtr s', ws_trace := ws_trace s'\<rparr>
    \<and> (\<exists>c. users s' fd = setTimer z (init (an_os a) fd addr c) \<and> m_iv c = m_iv (users s fd))"
proof -
  define d where "d = \<lparr>cd_epollfd = static_epollfd s, cd_sockfd = fd, cd_timer = z\<rparr>"
  note R = ws_invD(1) [OF I]
  have zn: "e \<in> timers s L \<Longrightarrow> fst e \<noteq> z" for e
  proof
    assume "e \<in> timers s L" "fst e = z"
    then obtain n u where "(z, n, u) \<in> timers s L" by (cases e) auto
    then obtain i xs r q ys where "i < 60" "L i = xs @ (z, r, q, u) # ys"
      using tw_abs_addr [OF R, of z n u] unfolding timers_def by blast
    then have "z \<in> dom (wheel_heap s)" using R unfolding tw_repr_def by force
    then show False using z(2) by blast
  qed
  obtain h1 w1 L1 where 1: "add_timer z (wheel_heap s) (m_pTwPtr s) 5 = Some (h1, w1, z)" "tw_repr {} h1 w1 L1"
    "tw_abs w1 L1 = insert (z, 5, None) (timers s L)"
    using add_timer_run [OF R z, of 5] unfolding timers_def by (auto simp: tw_ticks_def)
  have m: "(z, 5, None) \<in> tw_abs w1 L1" using 1(3) by simp
  obtain h2 L2 where 2: "set_user_data h1 z d = Some h2" "tw_repr {} h2 w1 L2"
    "tw_abs w1 L2 = insert (z, 5, Some d) {e \<in> tw_abs w1 L1. fst e \<noteq> z}"
    using set_user_data_run [OF 1(2) m, of d] by blast
  have e2: "tw_abs w1 L2 = insert (z, 5, Some d) (timers s L)"
    unfolding 2(3) 1(3) using zn by auto
  let ?p = "Print ('' new connection fd = '' @ dec fd @ [LF])"
  let ?c = "init (an_os a) fd addr ((users s fd)\<lparr>m_epollfd := static_epollfd s,
     m_user_count := static_user_count s, sys_calls := ?p # ws_trace s\<rparr>)"
  let ?s1 = "(put_user fd ?c s)\<lparr>wheel_heap := h2, m_pTwPtr := w1\<rparr>"
  let ?c2 = "setTimer z ((users ?s1 fd)\<lparr>m_epollfd := static_epollfd ?s1,
     m_user_count := static_user_count ?s1, sys_calls := ws_trace ?s1\<rparr>)"
  let ?s2 = "put_user fd ?c2 ?s1"
  have "on_accept a s = Some (False, ?s2)"
    using fd n 1(1) 2(1) unfolding d_def
    by (simp add: on_accept_def a user_at_in TIMEOUT_def put_user_def ws_sys_def)
  then have h: "handle_event a (accept_event s) s = Some ?s2"
    using t by (simp add: handle_event_def dispatch_accept put_user_def)
  have tm: "timers ?s2 L2 = insert (z, 5, Some d) (timers s L)" using e2 by (simp add: timers_def put_user_def)
  have "ws_inv ?s2 L2" unfolding ws_inv_def tm using 2(2) ws_invD(2) [OF I] by (auto simp: d_def put_user_def)
  moreover have "users ?s2 fd = setTimer z (init (an_os a) fd addr ((users s fd)\<lparr>m_epollfd := static_epollfd s,
     m_user_count := static_user_count s, sys_calls := ?p # ws_trace s\<rparr>))" (is "_ = setTimer z (init _ _ _ ?c3)")
    by (simp add: put_user_def setTimer_def init_def init_request_def addfd_def setnonblocking_def sys_def Let_def)
  then have "\<exists>c. users ?s2 fd = setTimer z (init (an_os a) fd addr c) \<and> m_iv c = m_iv (users s fd)"
    by - (rule exI [of _ ?c3], simp)
  moreover have "\<exists>tr. m_sockfd (users ?s2 fd) = fd \<and> m_pTimer (users ?s2 fd) = z \<and> m_read_idx (users ?s2 fd) = 0
    \<and> static_user_count ?s2 = static_user_count s + 1 \<and> ws_trace ?s2 = tr @ ws_trace s \<and> (\<forall>g. Close g \<notin> set tr)
    \<and> ?s2 = s\<lparr>users := (users s)(fd := users ?s2 fd), static_user_count := static_user_count ?s2,
         wheel_heap := wheel_heap ?s2, m_pTwPtr := m_pTwPtr ?s2, ws_trace := ws_trace ?s2\<rparr>"
    by (intro exI conjI) (auto simp: put_user_def setTimer_def)
  ultimately show ?thesis using h tm unfolding d_def by blast
qed

lemma wheel_dom:
  assumes R: "tw_repr {} h w L"
  shows "h z = None \<longleftrightarrow> (\<forall>n v. (z, n, v) \<notin> tw_abs w L)"
proof -
  have "h z \<noteq> None \<longleftrightarrow> (\<exists>n v. (z, n, v) \<in> tw_abs w L)"
  proof
    assume "h z \<noteq> None"
    then have "z \<in> dom h" by blast
    then obtain i where "i < 60" "z \<in> set (nodes (L i))" using R unfolding tw_repr_def by blast
    then obtain xs p ys where "L i = xs @ (z, p) # ys" using split_at by blast
    then have "(z, fst p, fst (snd p), snd (snd p)) \<in> set (L i)" by simp
    from tw_absI [of i z "fst p" "fst (snd p)" "snd (snd p)" L, OF \<open>i < 60\<close> this]
    show "\<exists>n v. (z, n, v) \<in> tw_abs w L" by blast
  next
    assume "\<exists>n v. (z, n, v) \<in> tw_abs w L"
    then obtain n v where "(z, n, v) \<in> tw_abs w L" by blast
    then obtain i xs r q ys where "i < 60" "L i = xs @ (z, r, q, v) # ys" using tw_abs_addr [OF R] by blast
    then have "z \<in> dom h" using R unfolding tw_repr_def by force
    then show "h z \<noteq> None" by blast
  qed
  then show ?thesis by blast
qed

lemma handle_events_append:
  "handle_events (xs @ ys) s = do { s \<leftarrow> handle_events xs s; handle_events ys s }"
  by (induction xs arbitrary: s) (auto split: option.splits bind_splits)

lemma alarms_cong: "sig_pipefd0 s = sig_pipefd0 t \<Longrightarrow> alarms k b s = alarms k b t"
  by (simp add: alarms_def alarm_event_def)

definition timer_of :: "'a web_server \<Rightarrow> int \<Rightarrow> ptr \<Rightarrow> client_data" where
  "timer_of s fd z = \<lparr>cd_epollfd = static_epollfd s, cd_sockfd = fd, cd_timer = z\<rparr>"

text \<open>The conditions under which the next connection is accepted as \<open>fd\<close> with a timer at \<open>z\<close>.\<close>

definition can_accept :: "'a web_server \<Rightarrow> ws_slots \<Rightarrow> 'a ws_answers \<Rightarrow> int \<Rightarrow> ptr \<Rightarrow> bool" where
  "can_accept s L a fd z \<longleftrightarrow> ws_inv s L \<and> fst (an_accept a) = fd \<and> an_timer a = z
     \<and> 0 \<le> fd \<and> fd < MAX_FD \<and> z \<noteq> NULL \<and> wheel_heap s z = None
     \<and> \<not> timeout s \<and> listenfd s \<noteq> sig_pipefd0 s"

text \<open>Accepting a connection and a number of alarms without any other event.\<close>

lemma idle_run:
  assumes A: "can_accept s L a fd z" and n: "static_user_count s < MAX_FD" and b: "alarm_answers b"
  shows "\<exists>s' L' tr. handle_events ((a, accept_event s) # alarms k b s) s = Some s' \<and> ws_inv s' L'
    \<and> timers s' L' = {(p, n - int k, u) | p n u. (p, n, u) \<in> insert (z, 5, Some (timer_of s fd z)) (timers s L) \<and> int k \<le> n}
    \<and> ws_trace s' = tr @ ws_trace s
    \<and> (\<forall>g. Close g \<in> set tr \<longleftrightarrow> g = fd \<and> 6 \<le> k \<or> (\<exists>p n d. (p, n, Some d) \<in> timers s L \<and> n < int k \<and> cd_sockfd d = g))
    \<and> m_sockfd (users s' fd) = fd \<and> m_pTimer (users s' fd) = z \<and> m_read_idx (users s' fd) = 0
    \<and> static_user_count s' = static_user_count s + 1 \<and> \<not> timeout s'
    \<and> s' = s\<lparr>users := (users s)(fd := users s' fd), static_user_count := static_user_count s',
         wheel_heap := wheel_heap s', m_pTwPtr := m_pTwPtr s', timeout := timeout s', ws_trace := ws_trace s'\<rparr>"
proof -
  obtain addr where a: "an_accept a = (fd, addr)" using A unfolding can_accept_def by (cases "an_accept a") auto
  have c: "ws_inv s L" "an_timer a = z" "0 \<le> fd" "fd < MAX_FD" "z \<noteq> NULL" "wheel_heap s z = None"
    "\<not> timeout s" "listenfd s \<noteq> sig_pipefd0 s" using A unfolding can_accept_def by blast+
  obtain s1 L1 tr1 where 1: "handle_event a (accept_event s) s = Some s1" "ws_inv s1 L1"
    "timers s1 L1 = insert (z, 5, Some (timer_of s fd z)) (timers s L)"
    "m_sockfd (users s1 fd) = fd" "m_pTimer (users s1 fd) = z" "m_read_idx (users s1 fd) = 0"
    "static_user_count s1 = static_user_count s + 1" "ws_trace s1 = tr1 @ ws_trace s" "\<forall>g. Close g \<notin> set tr1"
    "s1 = s\<lparr>users := (users s)(fd := users s1 fd), static_user_count := static_user_count s1,
         wheel_heap := wheel_heap s1, m_pTwPtr := m_pTwPtr s1, ws_trace := ws_trace s1\<rparr>"
    using accept_run [OF c(1) a c(2-4) n c(5-7)] unfolding timer_of_def by blast
  have l: "listenfd s1 = listenfd s" "sig_pipefd0 s1 = sig_pipefd0 s" "timeout s1 = timeout s"
    by (subst 1(10), simp)+
  then have "listenfd s1 \<noteq> sig_pipefd0 s1" using c(8) by simp
  from alarms_run [OF 1(2) b this, of k] obtain s2 L2 tr2 where
    2: "handle_events (alarms k b s1) s1 = Some s2" "ws_inv s2 L2"
      "timers s2 L2 = {(p, n - int k, u) | p n u. (p, n, u) \<in> timers s1 L1 \<and> int k \<le> n}"
      "ws_trace s2 = tr2 @ ws_trace s1"
      "\<forall>fd. Close fd \<in> set tr2 \<longleftrightarrow> (\<exists>p n d. (p, n, Some d) \<in> timers s1 L1 \<and> n < int k \<and> cd_sockfd d = fd)"
      "0 < k \<or> \<not> timeout s1 \<longrightarrow> \<not> timeout s2"
      "s2 = s1\<lparr>wheel_heap := wheel_heap s2, m_pTwPtr := m_pTwPtr s2, timeout := timeout s2, ws_trace := ws_trace s2\<rparr>"
    by blast
  have u: "users s2 = users s1" "static_user_count s2 = static_user_count s1" by (subst 2(7), simp)+
  have t: "\<not> timeout s2" using 2(6) c(7) l(3) by blast
  have "(p, n, Some d) \<in> timers s1 L1 \<and> n < int k \<and> cd_sockfd d = g \<longleftrightarrow>
      (p = z \<and> n = 5 \<and> d = timer_of s fd z \<and> 5 < int k \<and> g = fd)
      \<or> ((p, n, Some d) \<in> timers s L \<and> n < int k \<and> cd_sockfd d = g)" for p n d g
    unfolding 1(3) by (auto simp: timer_of_def)
  note e = this
  have cl: "Close g \<in> set (tr2 @ tr1) \<longleftrightarrow> g = fd \<and> 6 \<le> k
     \<or> (\<exists>p n d. (p, n, Some d) \<in> timers s L \<and> n < int k \<and> cd_sockfd d = g)" for g
  proof -
    have "Close g \<in> set (tr2 @ tr1) \<longleftrightarrow> Close g \<in> set tr2" using 1(9) by simp
    also have "\<dots> \<longleftrightarrow> (\<exists>p n d. (p = z \<and> n = 5 \<and> d = timer_of s fd z \<and> 5 < int k \<and> g = fd)
      \<or> ((p, n, Some d) \<in> timers s L \<and> n < int k \<and> cd_sockfd d = g))"
      using 2(5) by (simp only: e)
    also have "\<dots> \<longleftrightarrow> 5 < int k \<and> g = fd \<or> (\<exists>p n d. (p, n, Some d) \<in> timers s L \<and> n < int k \<and> cd_sockfd d = g)"
      by blast
    finally show ?thesis by auto
  qed
  have "handle_events ((a, accept_event s) # alarms k b s) s = Some s2"
    using 1(1) 2(1) alarms_cong [OF l(2)] by simp
  moreover have "ws_trace s2 = (tr2 @ tr1) @ ws_trace s" using 2(4) 1(8) by simp
  moreover have "s2 = s\<lparr>users := (users s)(fd := users s2 fd), static_user_count := static_user_count s2,
         wheel_heap := wheel_heap s2, m_pTwPtr := m_pTwPtr s2, timeout := timeout s2, ws_trace := ws_trace s2\<rparr>"
    by (subst 2(7), subst 1(10)) (simp add: u)
  moreover have "m_sockfd (users s2 fd) = fd" "m_pTimer (users s2 fd) = z" "m_read_idx (users s2 fd) = 0"
    "static_user_count s2 = static_user_count s + 1" using 1(4-7) u by simp_all
  ultimately show ?thesis using 2(2) 2(3) [unfolded 1(3)] t cl
    by (intro exI [of _ s2] exI [of _ L2] exI [of _ "tr2 @ tr1"]) blast
qed

text \<open>A server that has just started.\<close>

definition good_start :: ws_start_answers where
  "good_start = \<lparr>st_pool = True, st_listenfd = 3, st_bind = 0, st_listen = 0, st_epollfd = 4,
     st_socketpair = 0, st_pipe = (5, 6), st_flags = (\<lambda>_. 2), st_sigaction = (\<lambda>_. True)\<rparr>"

definition sample_server :: "unit web_server" where
  "sample_server = \<lparr>users = (\<lambda>_. conn_after ''''), static_epollfd = 4, static_user_count = 0,
     wheel_heap = (\<lambda>_. None), m_pTwPtr = tw_new, pool_queue = [], listenfd = 3, sig_pipefd0 = 5,
     stop_server = False, timeout = False, ws_trace = [Alarm 1, Sigaction 15 Sig_handler True,
       Sigaction 14 Sig_handler True, Set_flags 5 0x802, Epoll_add 4 5 [EPOLLIN, EPOLLET], Set_flags 6 0x802,
       Set_flags 3 0x802, Epoll_add 4 3 [EPOLLIN, EPOLLET], Epoll_create 5, Listen 3 5, Bind 3 8080,
       Linger 3, Sigaction 13 Sig_ign True]\<rparr>"

lemma sample_server_start:
  "ws_start good_start (\<lambda>_. conn_after '''') (fst (CWebServer (8080 + 2 ^ 16) ip tr)) [] = Inr sample_server"
  by (simp add: ws_start_def CWebServer_def good_start_def sample_server_def and_then_def add_signal_def
      addsig_def ws_open_def ws_signals_def assertion_def util_addfd_def util_setnonblocking_def O_NONBLOCK_def
      SIGPIPE_def SIGALRM_def SIGTERM_def TIMESLOT_def Let_def)

definition sample_accept :: "nat \<Rightarrow> unit ws_answers" where
  "sample_accept p = \<lparr>an_os = sample_os, an_accept = (7, ()), an_errno = 0, an_timer = Ptr p,
     an_signals = Some [sig_byte SIGALRM], an_recv = [Recv_error], an_writev = []\<rparr>"

lemma sample_can_accept:
  "can_accept sample_server (\<lambda>_. []) (sample_accept p) 7 (Ptr p)" "alarm_answers (sample_accept p)"
  "timers sample_server (\<lambda>_. []) = {}" "static_user_count sample_server < MAX_FD" "static_user_count sample_server = 0"
  "listenfd sample_server = 3" "sig_pipefd0 sample_server = 5"
proof -
  show t: "timers sample_server (\<lambda>_. []) = {}" using tw_new_repr(2) by (simp add: timers_def sample_server_def)
  have "ws_inv sample_server (\<lambda>_. [])"
    unfolding ws_inv_def t using tw_new_repr(1) by (simp add: sample_server_def)
  then show "can_accept sample_server (\<lambda>_. []) (sample_accept p) 7 (Ptr p)"
    by (simp add: can_accept_def sample_accept_def sample_server_def MAX_FD_def)
qed (simp_all add: alarm_answers_def sample_accept_def sample_server_def MAX_FD_def)

lemma sample_accept_simps [simp]:
  "an_accept (sample_accept p) = (7, ())" "an_timer (sample_accept p) = Ptr p" "an_recv (sample_accept p) = [Recv_error]"
  by (simp_all add: sample_accept_def)

text \<open>C22: An idle connection is closed after its timeout and not before: after the accept of a
  descriptor that no timer of the wheel belongs to, the k-th alarm (counting from 1) closes it for
  k = 6 only.  What remains is a connection that counts as open: the number of users is not
  decreased, the descriptor and the pointer to the deallocated timer stay in the object.\<close>

theorem ws_idle_timeout:
  assumes "can_accept s L a fd z" and "static_user_count s < MAX_FD" and "alarm_answers b"
    and "\<forall>p n d. (p, n, Some d) \<in> timers s L \<longrightarrow> cd_sockfd d \<noteq> fd"
  shows "\<exists>s' tr. handle_events ((a, accept_event s) # alarms k b s) s = Some s' \<and> ws_trace s' = tr @ ws_trace s
    \<and> (Close fd \<in> set tr \<longleftrightarrow> 6 \<le> k)
    \<and> (wheel_heap s' z = None \<longleftrightarrow> 6 \<le> k)
    \<and> m_sockfd (users s' fd) = fd \<and> m_pTimer (users s' fd) = z
    \<and> static_user_count s' = static_user_count s + 1"
proof -
  have c: "ws_inv s L" "wheel_heap s z = None" using assms(1) unfolding can_accept_def by blast+
  obtain s' L' tr where 1: "handle_events ((a, accept_event s) # alarms k b s) s = Some s'" "ws_inv s' L'"
    "timers s' L' = {(p, n - int k, u) | p n u. (p, n, u) \<in> insert (z, 5, Some (timer_of s fd z)) (timers s L) \<and> int k \<le> n}"
    "ws_trace s' = tr @ ws_trace s"
    "\<forall>g. Close g \<in> set tr \<longleftrightarrow> g = fd \<and> 6 \<le> k \<or> (\<exists>p n d. (p, n, Some d) \<in> timers s L \<and> n < int k \<and> cd_sockfd d = g)"
    "m_sockfd (users s' fd) = fd" "m_pTimer (users s' fd) = z" "static_user_count s' = static_user_count s + 1"
    using idle_run [OF assms(1-3), of k] by blast
  have "wheel_heap s' z = None \<longleftrightarrow> (\<forall>n v. (z, n, v) \<notin> timers s' L')"
    using wheel_dom [OF ws_invD(1) [OF 1(2)]] unfolding timers_def .
  moreover have "\<forall>n v. (z, n, v) \<notin> timers s L"
    using wheel_dom [OF ws_invD(1) [OF c(1)]] c(2) unfolding timers_def by blast
  ultimately have "wheel_heap s' z = None \<longleftrightarrow> 6 \<le> k" unfolding 1(3) by auto
  moreover have "Close fd \<in> set tr \<longleftrightarrow> 6 \<le> k" using 1(5) [rule_format, of fd] assms(4) by blast
  ultimately show ?thesis using 1(1,4,6-8) by (intro exI [of _ s'] exI [of _ tr] conjI)
qed

theorem ws_idle_timeout_witness:
  "\<exists>s' tr. handle_events ((sample_accept 1, accept_event sample_server) # alarms 6 (sample_accept 1) sample_server)
       sample_server = Some s' \<and> ws_trace s' = tr @ ws_trace sample_server \<and> Close 7 \<in> set tr
     \<and> static_user_count s' = 1"
  using ws_idle_timeout [of sample_server "\<lambda>_. []" "sample_accept 1" 7 "Ptr 1" "sample_accept 1" 6]
  by (simp add: sample_can_accept MAX_FD_def) blast

text \<open>C25: A use after free: when an event of a connection is waiting behind the alarm that closes the
  connection, in the same answer of epoll_wait, the failing read that follows takes the pointer to
  the deallocated timer out of the connection and dereferences it.\<close>

theorem ws_stale_event:
  assumes "can_accept s L a fd z" and "static_user_count s < MAX_FD" and "alarm_answers b"
    and "\<forall>p n d. (p, n, Some d) \<in> timers s L \<longrightarrow> cd_sockfd d \<noteq> fd" and "fd \<noteq> listenfd s" "fd \<noteq> sig_pipefd0 s"
    and "an_recv c = Recv_error # rs"
  shows "handle_events (((a, accept_event s) # alarms 6 b s) @ [(c, \<lparr>ev_fd = fd, ev_events = [EPOLLIN]\<rparr>)]) s = None"
proof -
  have c: "ws_inv s L" "wheel_heap s z = None" "0 \<le> fd" "fd < MAX_FD" "z \<noteq> NULL"
    using assms(1) unfolding can_accept_def by blast+
  obtain s' L' where 1: "handle_events ((a, accept_event s) # alarms 6 b s) s = Some s'" "ws_inv s' L'"
    "timers s' L' = {(p, n - int 6, u) | p n u. (p, n, u) \<in> insert (z, 5, Some (timer_of s fd z)) (timers s L) \<and> int 6 \<le> n}"
    "m_pTimer (users s' fd) = z" "m_read_idx (users s' fd) = 0"
    "s' = s\<lparr>users := (users s)(fd := users s' fd), static_user_count := static_user_count s',
         wheel_heap := wheel_heap s', m_pTwPtr := m_pTwPtr s', timeout := timeout s', ws_trace := ws_trace s'\<rparr>"
    using idle_run [OF assms(1-3), of 6] by blast
  have l: "listenfd s' = listenfd s" "sig_pipefd0 s' = sig_pipefd0 s" by (subst 1(6), simp)+
  have "\<forall>n v. (z, n, v) \<notin> timers s L"
    using wheel_dom [OF ws_invD(1) [OF c(1)]] c(2) unfolding timers_def by blast
  then have "\<forall>n v. (z, n, v) \<notin> timers s' L'" unfolding 1(3) by auto
  then have z: "wheel_heap s' z = None"
    using wheel_dom [OF ws_invD(1) [OF 1(2)]] unfolding timers_def by blast
  have "on_readable c fd s' = None"
    using c(3-5) z by (simp add: on_readable_def user_at_def http_read_def READ_BUFFER_SIZE_def 1(4,5) assms(7)
      drop_timer_def put_user_def getTimer_def rd_def)
  then have "handle_event c \<lparr>ev_fd = fd, ev_events = [EPOLLIN]\<rparr> s' = None"
    using assms(5,6) l by (simp add: handle_event_def dispatch_def Let_def)
  then show ?thesis by (simp only: handle_events_append 1(1)) simp
qed

theorem ws_stale_event_witness:
  "handle_events (((sample_accept 1, accept_event sample_server) # alarms 6 (sample_accept 1) sample_server)
     @ [(sample_accept 1, \<lparr>ev_fd = 7, ev_events = [EPOLLIN]\<rparr>)]) sample_server = None"
  by (rule ws_stale_event [OF sample_can_accept(1,4,2)]) (simp_all add: sample_can_accept)

text \<open>C26: The server stops serving: every connection that times out leaves the count of users one too
  high, so after MAX_FD of them (here one client after the other, each with the same descriptor and
  the same address of its timer) every further connection is closed with "Internal server busy",
  although no connection is open.\<close>

lemma idle_cycles:
  assumes A: "can_accept s L a fd z" and b: "alarm_answers b" and e: "timers s L = {}"
    and n: "static_user_count s + int m \<le> MAX_FD"
  shows "\<exists>s' L'. handle_events (concat (replicate m ((a, accept_event s) # alarms 6 b s))) s = Some s'
    \<and> can_accept s' L' a fd z \<and> timers s' L' = {} \<and> static_user_count s' = static_user_count s + int m
    \<and> listenfd s' = listenfd s"
  using assms
proof (induction m arbitrary: s L)
  case 0
  then show ?case by (intro exI [of _ s] exI [of _ L]) simp
next
  case (Suc m)
  have n: "static_user_count s < MAX_FD" using Suc.prems(4) by simp
  obtain s1 L1 where 1: "handle_events ((a, accept_event s) # alarms 6 b s) s = Some s1" "ws_inv s1 L1"
    "timers s1 L1 = {(p, n - int 6, u) | p n u. (p, n, u) \<in> insert (z, 5, Some (timer_of s fd z)) (timers s L) \<and> int 6 \<le> n}"
    "static_user_count s1 = static_user_count s + 1" "\<not> timeout s1"
    "s1 = s\<lparr>users := (users s)(fd := users s1 fd), static_user_count := static_user_count s1,
         wheel_heap := wheel_heap s1, m_pTwPtr := m_pTwPtr s1, timeout := timeout s1, ws_trace := ws_trace s1\<rparr>"
    using idle_run [OF Suc.prems(1) n Suc.prems(2), of 6] by blast
  have l: "listenfd s1 = listenfd s" "sig_pipefd0 s1 = sig_pipefd0 s" by (subst 1(6), simp)+
  have t: "timers s1 L1 = {}" unfolding 1(3) Suc.prems(3) by auto
  then have "wheel_heap s1 z = None" using wheel_dom [OF ws_invD(1) [OF 1(2)]] unfolding timers_def by blast
  then have A1: "can_accept s1 L1 a fd z" using Suc.prems(1) 1(2,5) l unfolding can_accept_def by simp
  have "static_user_count s1 + int m \<le> MAX_FD" using 1(4) Suc.prems(4) by simp
  from Suc.IH [OF A1 Suc.prems(2) t this] obtain s' L' where
    2: "handle_events (concat (replicate m ((a, accept_event s1) # alarms 6 b s1))) s1 = Some s'"
    "can_accept s' L' a fd z" "timers s' L' = {}" "static_user_count s' = static_user_count s1 + int m"
    "listenfd s' = listenfd s1" by blast
  have "accept_event s1 = accept_event s" "alarms 6 b s1 = alarms 6 b s"
    using l by (simp_all add: accept_event_def alarms_def alarm_event_def)
  then have "handle_events (concat (replicate (Suc m) ((a, accept_event s) # alarms 6 b s))) s = Some s'"
    using 2(1) 1(1) by (simp only: replicate_Suc concat.simps handle_events_append) simp
  then show ?case using 2(2-5) 1(4) l by (intro exI [of _ s'] exI [of _ L']) simp
qed

theorem ws_busy_forever:
  assumes "can_accept s L a fd z" and "alarm_answers b" and "timers s L = {}" and "static_user_count s = 0"
    and "an_accept c = (fd', addr)" "0 \<le> fd'"
  shows "\<exists>s'. handle_events (concat (replicate (nat MAX_FD) ((a, accept_event s) # alarms 6 b s))) s = Some s'
    \<and> handle_event c (accept_event s) s' = Some (s'\<lparr>ws_trace := [Close fd', Send fd' ''Internal server busy'',
         Print ''Internal server busy''] @ ws_trace s'\<rparr>)"
proof -
  have "static_user_count s + int (nat MAX_FD) \<le> MAX_FD" using assms(4) by (simp add: MAX_FD_def)
  from idle_cycles [OF assms(1-3) this] obtain s' L' where
    1: "handle_events (concat (replicate (nat MAX_FD) ((a, accept_event s) # alarms 6 b s))) s = Some s'"
    "static_user_count s' = MAX_FD" "listenfd s' = listenfd s" using assms(4) by (auto simp: MAX_FD_def)
  have "accept_event s' = accept_event s" using 1(3) by (simp add: accept_event_def)
  moreover have "on_accept c s' = Some (True, s'\<lparr>ws_trace := [Close fd', Send fd' ''Internal server busy'',
         Print ''Internal server busy''] @ ws_trace s'\<rparr>)"
    using assms(5,6) 1(2) by (simp add: on_accept_def show_error_def ws_sys_def)
  ultimately show ?thesis using 1(1) dispatch_accept [of c s'] by (intro exI [of _ s']) (simp add: handle_event_def)
qed

theorem ws_busy_forever_witness:
  "\<exists>s'. handle_events (concat (replicate (nat MAX_FD) ((sample_accept 1, accept_event sample_server)
       # alarms 6 (sample_accept 1) sample_server))) sample_server = Some s'
     \<and> handle_event (sample_accept 1) (accept_event sample_server) s' = Some (s'\<lparr>ws_trace := [Close 7,
         Send 7 ''Internal server busy'', Print ''Internal server busy''] @ ws_trace s'\<rparr>)"
  by (rule ws_busy_forever [where L = "\<lambda>_. []" and z = "Ptr 1" and fd = 7 and addr = "()"])
    (simp_all only: sample_can_accept, simp_all)

text \<open>C27: A hang-up leaves the timer of the connection in the wheel.  When the descriptor is given to
  the next client, the old timer closes the new connection: j alarms after the first accept the
  client hangs up, the next client gets the descriptor, and it is cut off by its (6 - j)-th alarm
  instead of its sixth.\<close>

lemma hangup_run:
  assumes "0 \<le> fd" "fd < MAX_FD" "fd \<noteq> listenfd s" "fd \<noteq> sig_pipefd0 s" "\<not> timeout s"
    and "EPOLLRDHUP \<in> set evs" "m_sockfd (users s fd) = fd"
  shows "\<exists>s'. handle_event c \<lparr>ev_fd = fd, ev_events = evs\<rparr> s = Some s'
    \<and> m_sockfd (users s' fd) = - 1 \<and> static_user_count s' = static_user_count s - 1
    \<and> ws_trace s' = [Close fd, Epoll_del (static_epollfd s) fd] @ ws_trace s
    \<and> s' = s\<lparr>users := (users s)(fd := users s' fd), static_user_count := static_user_count s', ws_trace := ws_trace s'\<rparr>"
proof -
  let ?c = "(users s fd)\<lparr>m_epollfd := static_epollfd s, m_user_count := static_user_count s, sys_calls := ws_trace s\<rparr>"
  let ?s = "put_user fd (close_conn True ?c) s"
  have "close_user fd s = Some ?s" using assms(1,2) by (simp add: close_user_def user_at_def)
  moreover have "{EPOLLRDHUP, EPOLLHUP, EPOLLERR} \<inter> set evs \<noteq> {}" using assms(6) by blast
  ultimately have "handle_event c \<lparr>ev_fd = fd, ev_events = evs\<rparr> s = Some ?s"
    using assms(3-5) by (simp add: handle_event_def dispatch_def Let_def put_user_def)
  then show ?thesis using assms(1,7)
    by (intro exI [of _ ?s]) (simp add: put_user_def close_conn_def removefd_def sys_def Let_def)
qed

theorem ws_reused_descriptor:
  assumes "can_accept s L a fd z" and "static_user_count s < MAX_FD" and "alarm_answers b" and "timers s L = {}"
    and "fd \<noteq> listenfd s" "fd \<noteq> sig_pipefd0 s" and "EPOLLRDHUP \<in> set evs" and "j \<le> 5"
    and "fst (an_accept a2) = fd" "an_timer a2 = z2" "z2 \<noteq> NULL" "z2 \<noteq> z"
  shows "\<exists>s1 s2 tr. handle_events (((a, accept_event s) # alarms j b s) @ [(c, \<lparr>ev_fd = fd, ev_events = evs\<rparr>)]) s = Some s1
    \<and> m_sockfd (users s1 fd) = - 1 \<and> Close fd \<in> set (ws_trace s1)
    \<and> handle_events ((a2, accept_event s) # alarms k b s) s1 = Some s2
    \<and> ws_trace s2 = tr @ ws_trace s1 \<and> (Close fd \<in> set tr \<longleftrightarrow> 6 - j \<le> k)"
proof -
  have c: "0 \<le> fd" "fd < MAX_FD" "listenfd s \<noteq> sig_pipefd0 s" using assms(1) unfolding can_accept_def by blast+
  obtain s1 L1 where 1: "handle_events ((a, accept_event s) # alarms j b s) s = Some s1" "ws_inv s1 L1"
    "timers s1 L1 = {(p, n - int j, u) | p n u. (p, n, u) \<in> insert (z, 5, Some (timer_of s fd z)) (timers s L) \<and> int j \<le> n}"
    "m_sockfd (users s1 fd) = fd" "static_user_count s1 = static_user_count s + 1" "\<not> timeout s1"
    "s1 = s\<lparr>users := (users s)(fd := users s1 fd), static_user_count := static_user_count s1,
         wheel_heap := wheel_heap s1, m_pTwPtr := m_pTwPtr s1, timeout := timeout s1, ws_trace := ws_trace s1\<rparr>"
    using idle_run [OF assms(1-3), of j] by blast
  have l: "listenfd s1 = listenfd s" "sig_pipefd0 s1 = sig_pipefd0 s" by (subst 1(7), simp)+
  have t1: "timers s1 L1 = {(z, 5 - int j, Some (timer_of s fd z))}" unfolding 1(3) assms(4) using assms(8) by auto
  obtain s2 where 2: "handle_event c \<lparr>ev_fd = fd, ev_events = evs\<rparr> s1 = Some s2"
    "m_sockfd (users s2 fd) = - 1" "static_user_count s2 = static_user_count s1 - 1"
    "ws_trace s2 = [Close fd, Epoll_del (static_epollfd s1) fd] @ ws_trace s1"
    "s2 = s1\<lparr>users := (users s1)(fd := users s2 fd), static_user_count := static_user_count s2, ws_trace := ws_trace s2\<rparr>"
    using hangup_run [of fd s1 evs c] c(1,2) assms(5,6) l 1(6) assms(7) 1(4) by auto
  have m: "listenfd s2 = listenfd s1" "sig_pipefd0 s2 = sig_pipefd0 s1" "wheel_heap s2 = wheel_heap s1"
    "m_pTwPtr s2 = m_pTwPtr s1" "static_epollfd s2 = static_epollfd s1" "timeout s2 = timeout s1"
    by (subst 2(5), simp)+
  have i2: "ws_inv s2 L1" "timers s2 L1 = timers s1 L1"
    using 1(2) ws_inv_cong [OF m(3-5)] timers_cong [OF m(4)] by blast+
  have "wheel_heap s2 z2 = None"
    using wheel_dom [OF ws_invD(1) [OF i2(1)]] assms(12) t1 i2(2) unfolding timers_def by auto
  then have A: "can_accept s2 L1 a2 fd z2"
    using assms(9-11) c i2(1) m l 1(6) unfolding can_accept_def by simp
  have n: "static_user_count s2 < MAX_FD" using 2(3) 1(5) assms(2) by simp
  obtain s3 tr where 3: "handle_events ((a2, accept_event s2) # alarms k b s2) s2 = Some s3"
    "ws_trace s3 = tr @ ws_trace s2"
    "\<forall>g. Close g \<in> set tr \<longleftrightarrow> g = fd \<and> 6 \<le> k \<or> (\<exists>p n d. (p, n, Some d) \<in> timers s2 L1 \<and> n < int k \<and> cd_sockfd d = g)"
    using idle_run [OF A n assms(3), of k] by (elim exE conjE) (rule that; assumption)
  have e: "accept_event s2 = accept_event s" "alarms k b s2 = alarms k b s"
    using l m by (simp_all add: accept_event_def alarms_def alarm_event_def)
  have "Close fd \<in> set tr \<longleftrightarrow> 6 - j \<le> k"
    using 3(3) [rule_format, of fd] i2(2) t1 assms(8) by (auto simp: timer_of_def)
  moreover have "handle_events (((a, accept_event s) # alarms j b s) @ [(c, \<lparr>ev_fd = fd, ev_events = evs\<rparr>)]) s = Some s2"
    by (simp only: handle_events_append 1(1)) (simp add: 2(1))
  ultimately show ?thesis using 3(1,2) 2(2,4) unfolding e
    by (intro exI [of _ s2] exI [of _ s3] exI [of _ tr] conjI) (assumption | simp)+
qed

theorem ws_reused_descriptor_witness:
  "\<exists>s1 s2 tr. handle_events (((sample_accept 1, accept_event sample_server) # alarms 3 (sample_accept 1) sample_server)
       @ [(sample_accept 1, \<lparr>ev_fd = 7, ev_events = [EPOLLIN, EPOLLRDHUP]\<rparr>)]) sample_server = Some s1
    \<and> handle_events ((sample_accept 2, accept_event sample_server) # alarms 3 (sample_accept 1) sample_server) s1 = Some s2
    \<and> ws_trace s2 = tr @ ws_trace s1 \<and> Close 7 \<in> set tr"
  using ws_reused_descriptor [of sample_server "\<lambda>_. []" "sample_accept 1" 7 "Ptr 1" "sample_accept 1"
      "[EPOLLIN, EPOLLRDHUP]" 3 "sample_accept 2" "Ptr 2" "sample_accept 1" 3]
  by (simp add: sample_can_accept MAX_FD_def) blast

subsection \<open>Activity of a connection\<close>

lemma read_loop_only:
  "read_loop rs c = Some (ok, c') \<Longrightarrow> c' = c\<lparr>m_read_buf := m_read_buf c', m_read_idx := m_read_idx c'\<rparr>"
proof (induction rs c rule: read_loop.induct)
  case (2 r rs c)
  show ?case
  proof (cases r)
    case (Received x)
    let ?c = "c\<lparr>m_read_buf := take (nat (m_read_idx c)) (m_read_buf c) @ x
               @ drop (nat (m_read_idx c) + length x) (m_read_buf c), m_read_idx := m_read_idx c + int (length x)\<rparr>"
    have ok: "x \<noteq> [] \<and> 0 \<le> m_read_idx c \<and> m_read_idx c + int (length x) \<le> int READ_BUFFER_SIZE"
      using 2(2) Received by (simp split: if_splits)
    then have "read_loop rs ?c = Some (ok, c')" using 2(2) Received by simp
    from 2(1) [OF Received ok this] show ?thesis by (cases c, cases c') simp
  qed (use 2(2) in \<open>cases c; simp\<close>)+
qed simp

lemma http_read_only:
  "http_read rs c = Some (ok, c') \<Longrightarrow> c' = c\<lparr>m_read_buf := m_read_buf c', m_read_idx := m_read_idx c'\<rparr>"
proof (cases "int READ_BUFFER_SIZE \<le> m_read_idx c")
  case True
  assume "http_read rs c = Some (ok, c')"
  then show ?thesis using True by (cases c) (auto simp: http_read_def)
qed (use read_loop_only in \<open>simp add: http_read_def\<close>)

lemma timer_not_null: "ws_inv s L \<Longrightarrow> (p, n, u) \<in> timers s L \<Longrightarrow> p \<noteq> NULL"
  using tw_cut [OF ws_invD(1), of s L p n u] unfolding timers_def by blast

lemma timer_data:
  assumes I: "ws_inv s L" and m: "(p, n, u) \<in> timers s L"
  shows "rd user_data (wheel_heap s) p = Some u"
proof -
  obtain i xs r q ys where i: "i < 60" "L i = xs @ (p, r, q, u) # ys"
    using tw_abs_addr [OF ws_invD(1) [OF I]] m unfolding timers_def by blast
  have "dl_in tw_cell (wheel_heap s) NULL (xs @ (p, r, q, u) # ys)"
    using ws_invD(1) [OF I] i unfolding tw_repr_def by metis
  then have "wheel_heap s p = Some (tw_cell (r, q, u) (las_ptr NULL xs) (hd_ptr ys))"
    by (simp add: dl_in_append)
  then show ?thesis using timer_not_null [OF I m] by (simp add: rd_def)
qed

text \<open>What follows a failed read or write: the timer goes, and the descriptor is closed twice.\<close>

lemma drop_run:
  assumes I: "ws_inv s L" and fd: "0 \<le> fd" "fd < MAX_FD" and p: "m_pTimer (users s fd) = p"
    and m: "(p, n, Some d) \<in> timers s L" and c: "m_sockfd (users s fd) \<noteq> - 1"
  shows "\<exists>s1 s' L'. drop_timer fd s = Some s1 \<and> close_user fd s1 = Some s' \<and> ws_inv s' L'
    \<and> timers s' L' = {e \<in> timers s L. fst e \<noteq> p}
    \<and> ws_trace s' = [Close (m_sockfd (users s fd)), Epoll_del (static_epollfd s) (m_sockfd (users s fd))] @ closes d @ ws_trace s
    \<and> m_pTimer (users s' fd) = NULL \<and> m_sockfd (users s' fd) = - 1
    \<and> static_user_count s' = static_user_count s - 1
    \<and> s' = s\<lparr>users := (users s)(fd := users s' fd), static_user_count := static_user_count s',
         wheel_heap := wheel_heap s', m_pTwPtr := m_pTwPtr s', ws_trace := ws_trace s'\<rparr>"
proof -
  obtain h w L1 where 1: "del_timer (wheel_heap s) (m_pTwPtr s) p = Some (h, w)" "tw_repr {} h w L1"
    "tw_abs w L1 = {e \<in> timers s L. fst e \<noteq> p}"
    using del_timer_run [OF ws_invD(1) [OF I]] m unfolding timers_def by blast
  let ?t = "closes d @ ws_trace s"
  let ?c1 = "(users s fd)\<lparr>m_epollfd := static_epollfd s, m_user_count := static_user_count s, sys_calls := ?t, m_pTimer := NULL\<rparr>"
  let ?s1 = "s\<lparr>users := (users s)(fd := ?c1), wheel_heap := h, m_pTwPtr := w, ws_trace := ?t\<rparr>"
  let ?s2 = "put_user fd (close_conn True ?c1) ?s1"
  have d: "drop_timer fd s = Some ?s1"
    using fd timer_not_null [OF I m] timer_data [OF I m] 1(1)
    by (simp add: drop_timer_def user_at_def getTimer_def p cb_func_trace put_user_def setTimer_def)
  have e: "close_user fd ?s1 = Some ?s2"
    using fd by (cases "users s fd") (simp add: close_user_def user_at_def)
  have t: "timers ?s2 L1 = {e \<in> timers s L. fst e \<noteq> p}" using 1(3) by (simp add: timers_def put_user_def)
  have i: "ws_inv ?s2 L1" unfolding ws_inv_def t using 1(2) ws_invD(2) [OF I] by (auto simp: put_user_def)
  show ?thesis using d e i t c
    by (intro exI [of _ ?s1] exI [of _ ?s2] exI [of _ L1] conjI)
      (simp_all add: put_user_def close_conn_def removefd_def sys_def Let_def)
qed

text \<open>Reading from a connection with a live timer: data gives the timer five more seconds and puts
  the connection into the queue of the thread pool; the end of the connection or an error takes
  the timer out of the wheel and resets the connection, and closes the descriptor twice (once by
  the callback of the timer, once by close_conn).\<close>

theorem ws_read_activity:
  assumes "ws_inv s L" and "user_at fd s = Some c" and "http_read (an_recv a) c = Some (ok, c')"
    and "(m_pTimer (users s fd), n, Some d) \<in> timers s L" and "m_sockfd (users s fd) \<noteq> - 1"
    and "length (pool_queue s) \<le> 10000"
  shows "\<exists>s' L'. on_readable a fd s = Some s' \<and> ws_inv s' L' \<and>
    (if ok then timers s' L' = insert (m_pTimer (users s fd), 5, Some d) {e \<in> timers s L. fst e \<noteq> m_pTimer (users s fd)}
       \<and> pool_queue s' = pool_queue s @ [fd] \<and> users s' fd = c' \<and> ws_trace s' = ws_trace s
       \<and> static_user_count s' = static_user_count s
     else timers s' L' = {e \<in> timers s L. fst e \<noteq> m_pTimer (users s fd)}
       \<and> pool_queue s' = pool_queue s \<and> m_pTimer (users s' fd) = NULL \<and> m_sockfd (users s' fd) = - 1
       \<and> ws_trace s' = [Close (m_sockfd (users s fd)), Epoll_del (static_epollfd s) (m_sockfd (users s fd))] @ closes d @ ws_trace s
       \<and> static_user_count s' = static_user_count s - 1)"
proof -
  note I = assms(1)
  have fd: "0 \<le> fd" "fd < MAX_FD" "c = (users s fd)\<lparr>m_epollfd := static_epollfd s,
     m_user_count := static_user_count s, sys_calls := ws_trace s\<rparr>"
    using assms(2) by (simp_all add: user_at_def split: if_splits)
  define p where "p = m_pTimer (users s fd)"
  have m: "(p, n, Some d) \<in> timers s L" using assms(4) by (simp add: p_def)
  note pn = timer_not_null [OF I m]
  note o = http_read_only [OF assms(3)]
  have c': "m_epollfd c' = static_epollfd s" "m_user_count c' = static_user_count s" "sys_calls c' = ws_trace s"
    "m_pTimer c' = p" "m_sockfd c' = m_sockfd (users s fd)"
    by (subst o, simp add: fd(3) p_def)+
  let ?s1 = "put_user fd c' s"
  have s1: "wheel_heap ?s1 = wheel_heap s" "m_pTwPtr ?s1 = m_pTwPtr s" "static_epollfd ?s1 = static_epollfd s"
    "users ?s1 fd = c'" "ws_trace ?s1 = ws_trace s" "static_user_count ?s1 = static_user_count s"
    "pool_queue ?s1 = pool_queue s"
    using c' by (simp_all add: put_user_def)
  have i1: "ws_inv ?s1 L" "timers ?s1 L = timers s L"
    using I ws_inv_cong [OF s1(1-3)] timers_cong [OF s1(2)] by blast+
  show ?thesis
  proof (cases ok)
    case True
    obtain h w L' where 1: "adjust_timer (wheel_heap s) (m_pTwPtr s) 5 p = Some (h, w)" "tw_repr {} h w L'"
      "tw_abs w L' = insert (p, 5, Some d) {e \<in> timers s L. fst e \<noteq> p}"
      using adjust_timer_run [OF ws_invD(1) [OF I], of p n "Some d" 5] m unfolding timers_def by (auto simp: tw_ticks_def)
    let ?s2 = "(pool_append fd ?s1)\<lparr>wheel_heap := h, m_pTwPtr := w\<rparr>"
    have r: "on_readable a fd s = Some ?s2"
      using fd(1,2) assms(6) 1(1) pn
      by (simp add: on_readable_def assms(3) [unfolded fd(3)] True pool_append_def s1(7) user_at_def getTimer_def s1 c'(4) TIMEOUT_def)
    have t: "timers ?s2 L' = insert (p, 5, Some d) {e \<in> timers s L. fst e \<noteq> p}" using 1(3) by (simp add: timers_def)
    have "static_epollfd ?s2 = static_epollfd s" "pool_queue ?s2 = pool_queue s @ [fd]" "users ?s2 fd = c'"
      "ws_trace ?s2 = ws_trace s" "static_user_count ?s2 = static_user_count s"
      using assms(6) s1 by (simp_all add: pool_append_def)
    moreover from this have "ws_inv ?s2 L'" unfolding ws_inv_def t using 1(2) ws_invD(2) [OF I] m by auto
    ultimately show ?thesis using r t True unfolding p_def [symmetric]
      by (intro exI [of _ ?s2] exI [of _ L']) simp
  next
    case False
    obtain s2 s' L' where 2: "drop_timer fd ?s1 = Some s2" "close_user fd s2 = Some s'" "ws_inv s' L'"
      "timers s' L' = {e \<in> timers ?s1 L. fst e \<noteq> p}"
      "ws_trace s' = [Close (m_sockfd (users ?s1 fd)), Epoll_del (static_epollfd ?s1) (m_sockfd (users ?s1 fd))] @ closes d @ ws_trace ?s1"
      "m_pTimer (users s' fd) = NULL" "m_sockfd (users s' fd) = - 1"
      "static_user_count s' = static_user_count ?s1 - 1"
      "s' = ?s1\<lparr>users := (users ?s1)(fd := users s' fd), static_user_count := static_user_count s',
         wheel_heap := wheel_heap s', m_pTwPtr := m_pTwPtr s', ws_trace := ws_trace s'\<rparr>"
      using drop_run [OF i1(1) fd(1,2), of p n d] m i1(2) c'(4,5) assms(5) s1(4) by auto
    have q: "pool_queue s' = pool_queue s" by (subst 2(9)) (simp add: s1)
    have "on_readable a fd s = Some s'"
      using 2(1,2) by (simp add: on_readable_def assms(2,3) False)
    then show ?thesis using 2(3-8) q s1 c'(5) i1(2) False unfolding p_def [symmetric]
      by (intro exI [of _ s'] exI [of _ L']) simp
  qed
qed

theorem ws_read_activity_witness:
  "\<exists>s L s' L'. handle_events [(sample_accept 1, accept_event sample_server)] sample_server = Some s
     \<and> timers s L = {(Ptr 1, 5, Some (timer_of sample_server 7 (Ptr 1)))}
     \<and> on_readable (sample_accept 1) 7 s = Some s' \<and> ws_inv s' L' \<and> timers s' L' = {}
     \<and> count_list (ws_trace s') (Close 7) = count_list (ws_trace s) (Close 7) + 2"
proof -
  obtain s L where 1: "handle_events ((sample_accept 1, accept_event sample_server) # alarms 0 (sample_accept 1) sample_server) sample_server = Some s"
    "ws_inv s L" "timers s L = {(p, n - int 0, u) | p n u. (p, n, u) \<in> insert (Ptr 1, 5, Some (timer_of sample_server 7 (Ptr 1))) {} \<and> int 0 \<le> n}"
    "m_sockfd (users s 7) = 7" "m_pTimer (users s 7) = Ptr 1" "m_read_idx (users s 7) = 0"
    "s = sample_server\<lparr>users := (users sample_server)(7 := users s 7), static_user_count := static_user_count s,
         wheel_heap := wheel_heap s, m_pTwPtr := m_pTwPtr s, timeout := timeout s, ws_trace := ws_trace s\<rparr>"
    using idle_run [OF sample_can_accept(1,4,2), of 1 0 1, unfolded sample_can_accept(3)]
    by (elim exE conjE) (rule that; assumption)
  have t: "timers s L = {(Ptr 1, 5, Some (timer_of sample_server 7 (Ptr 1)))}" unfolding 1(3) by auto
  have "pool_queue s = []" by (subst 1(7)) (simp add: sample_server_def)
  moreover have "user_at 7 s = Some ((users s 7)\<lparr>m_epollfd := static_epollfd s,
     m_user_count := static_user_count s, sys_calls := ws_trace s\<rparr>)" (is "_ = Some ?c") by (rule user_at_in) (simp_all add: MAX_FD_def)
  moreover have "http_read (an_recv (sample_accept 1)) ?c = Some (False, ?c)"
    using 1(6) by (simp add: http_read_def sample_accept_def READ_BUFFER_SIZE_def)
  moreover have "(m_pTimer (users s 7), 5, Some (timer_of sample_server 7 (Ptr 1))) \<in> timers s L"
    using t 1(5) by simp
  ultimately obtain s' L' where "on_readable (sample_accept 1) 7 s = Some s'" "ws_inv s' L'"
    "timers s' L' = {e \<in> timers s L. fst e \<noteq> m_pTimer (users s 7)}"
    "ws_trace s' = [Close (m_sockfd (users s 7)), Epoll_del (static_epollfd s) (m_sockfd (users s 7))]
       @ closes (timer_of sample_server 7 (Ptr 1)) @ ws_trace s"
    using ws_read_activity [OF 1(2), of 7 ?c "sample_accept 1" False ?c 5 "timer_of sample_server 7 (Ptr 1)"] 1(4) by auto
  then show ?thesis using 1(1,4,5) t
    by (intro exI [of _ s] exI [of _ L] exI [of _ s'] exI [of _ L'])
      (simp add: closes_def timer_of_def alarms_def)
qed

end
