(* ===== verification/HttpConn_Answer.thy ===== *)
theory HttpConn_Answer
  imports HttpConn_Props
begin

text \<open>
  The answers of \<open>epoll/http_conn.cpp\<close>: what \<open>process_write\<close> puts into the write buffer, and when
  \<open>write\<close> takes an answer as sent.
\<close>

subsection \<open>Appending to the write buffer\<close>

text \<open>The part of the write buffer below \<open>m_write_idx\<close> is \<open>t\<close>.\<close>

definition holds :: "'a http_conn \<Rightarrow> string \<Rightarrow> bool" where
  "holds c t \<longleftrightarrow> length (m_write_buf c) = WRITE_BUFFER_SIZE \<and> m_write_idx c = int (length t)
     \<and> take (length t) (m_write_buf c) = t"

definition only_written :: "'a http_conn \<Rightarrow> 'a http_conn \<Rightarrow> bool" where
  "only_written c c' \<longleftrightarrow> c' = c\<lparr>m_write_buf := m_write_buf c', m_write_idx := m_write_idx c'\<rparr>"

lemma only_written_trans: "only_written a b \<Longrightarrow> only_written b c \<Longrightarrow> only_written a c"
  unfolding only_written_def by (cases a, cases b, cases c) simp

lemma only_written_simps:
  assumes "only_written c c'"
  shows "m_linger c' = m_linger c" "m_file_stat c' = m_file_stat c" "m_iv c' = m_iv c"
    "m_file_address c' = m_file_address c" "m_sockfd c' = m_sockfd c" "m_epollfd c' = m_epollfd c"
    "m_user_count c' = m_user_count c" "sys_calls c' = sys_calls c" "m_pTimer c' = m_pTimer c"
  using assms unfolding only_written_def by (cases c, cases c', simp)+

text \<open>The same connection, with the same descriptor, timer and count of users.\<close>

definition same_conn :: "'a http_conn \<Rightarrow> 'a http_conn \<Rightarrow> bool" where
  "same_conn c c' \<longleftrightarrow> m_sockfd c' = m_sockfd c \<and> m_epollfd c' = m_epollfd c \<and> m_pTimer c' = m_pTimer c
     \<and> m_user_count c' = m_user_count c"

lemma add_response_step:
  assumes "holds c t" "length t + length s < WRITE_BUFFER_SIZE - 1"
  shows "\<exists>c'. add_response s c = Some (True, c') \<and> holds c' (t @ s) \<and> only_written c c'"
proof -
  let ?k = "length t" and ?b = "m_write_buf c"
  have a: "length ?b = WRITE_BUFFER_SIZE" "m_write_idx c = int ?k" "take ?k ?b = t"
    using assms(1) by (simp_all add: holds_def)
  have n: "nat (int WRITE_BUFFER_SIZE - 1 - int ?k) = WRITE_BUFFER_SIZE - 1 - ?k"
    using assms(2) by (simp add: nat_diff_distrib)
  have t: "take (WRITE_BUFFER_SIZE - 1 - ?k - 1) s = s" using assms(2) by simp
  let ?b' = "take ?k ?b @ s @ [NUL] @ drop (Suc (?k + length s)) ?b"
  have v: "vsnprintf ?b ?k (WRITE_BUFFER_SIZE - 1 - ?k) s = Some (int (length s), ?b')"
    using assms(2) a(1) t by (simp add: vsnprintf_def Let_def WRITE_BUFFER_SIZE_def)
  let ?c = "c\<lparr>m_write_buf := ?b', m_write_idx := int ?k + int (length s)\<rparr>"
  have "add_response s c = Some (True, ?c)"
    using assms(2) a n v by (simp add: add_response_def WRITE_BUFFER_SIZE_def)
  moreover have "holds ?c (t @ s)" using a assms(2) by (simp add: holds_def)
  ultimately show ?thesis by (auto simp: only_written_def)
qed

definition headers_text :: "int \<Rightarrow> bool \<Rightarrow> string" where
  "headers_text n linger = content_length_line n @ connection_line linger @ crlf"

lemma add_headers_step:
  assumes "holds c t" "length t + length (headers_text n (m_linger c)) < WRITE_BUFFER_SIZE - 1"
  shows "\<exists>c'. add_headers n c = Some c' \<and> holds c' (t @ headers_text n (m_linger c)) \<and> only_written c c'"
proof -
  have l: "length (headers_text n (m_linger c)) =
      length (content_length_line n) + length (connection_line (m_linger c)) + length crlf"
    by (simp add: headers_text_def)
  obtain c1 where c1: "add_response (content_length_line n) c = Some (True, c1)"
    "holds c1 (t @ content_length_line n)" "only_written c c1"
    using add_response_step [OF assms(1), of "content_length_line n"] assms(2) l by auto
  obtain c2 where c2: "add_response (connection_line (m_linger c)) c1 = Some (True, c2)"
    "holds c2 ((t @ content_length_line n) @ connection_line (m_linger c))" "only_written c1 c2"
    using add_response_step [OF c1(2), of "connection_line (m_linger c)"] assms(2) l by auto
  obtain c3 where c3: "add_response crlf c2 = Some (True, c3)"
    "holds c3 (((t @ content_length_line n) @ connection_line (m_linger c)) @ crlf)" "only_written c2 c3"
    using add_response_step [OF c2(2), of crlf] assms(2) l by auto
  have "add_headers n c = Some c3"
    using c1(1) c2(1) c3(1) only_written_simps(1) [OF c1(3)]
    by (simp add: add_headers_def add_content_length_def add_linger_def add_blank_line_def)
  moreover have "only_written c c3" using c1(3) c2(3) c3(3) only_written_trans by blast
  ultimately show ?thesis using c3(2) by (simp add: headers_text_def)
qed

lemma dec_length:
  assumes "int_range v"
  shows "length (dec v) \<le> 11"
proof -
  have "\<bar>v\<bar> \<le> 2147483648" using assms unfolding int_range_def by (simp add: abs_le_iff)
  then have "nat \<bar>v\<bar> < 10 ^ Suc 9" by simp
  then have "length (dec_nat (nat \<bar>v\<bar>)) \<le> 10" using dec_nat_length [of _ 9] by simp
  then show ?thesis by (auto simp: dec_def abs_if split: if_splits)
qed

lemma headers_length:
  assumes "int_range n"
  shows "length (headers_text n l) \<le> 60"
  using dec_length [OF assms] by (simp add: headers_text_def content_length_line_def connection_line_def)

subsection \<open>The answers\<close>

text \<open>The status, title and text of an error answer.\<close>

definition error_answer :: "HTTP_CODE \<Rightarrow> (int \<times> string \<times> string) option" where
  "error_answer ret = (case ret of
      INTERNAL_ERROR \<Rightarrow> Some (500, ''Internal Error'', error_500_form)
    | BAD_REQUEST \<Rightarrow> Some (400, ''Bad Request'', error_400_form)
    | NO_RESOURCE \<Rightarrow> Some (404, ''Not Found'', error_404_form)
    | FORBIDDEN_REQUEST \<Rightarrow> Some (403, ''Forbidden'', error_403_form)
    | _ \<Rightarrow> None)"

lemma status_length:
  "length (status_line 200 ''OK'') < 40"
  "error_answer ret = Some (st, title, form) \<Longrightarrow> length (status_line st title) < 40 \<and> length form < 100"
proof -
  show "length (status_line 200 ''OK'') < 40" by code_simp
  have l: "length (status_line 500 ''Internal Error'') < 40" "length (status_line 400 ''Bad Request'') < 40"
    "length (status_line 404 ''Not Found'') < 40" "length (status_line 403 ''Forbidden'') < 40"
    "length error_500_form < 100" "length error_400_form < 100" "length error_404_form < 100" "length error_403_form < 100"
    by code_simp+
  show "error_answer ret = Some (st, title, form) \<Longrightarrow> length (status_line st title) < 40 \<and> length form < 100"
    by (cases ret) (use l in \<open>auto simp only: error_answer_def HTTP_CODE.case option.inject prod.inject simp_thms option.distinct\<close>)
qed

lemma status_headers:
  assumes "holds c []" "length (status_line st title) < 40" "int_range n"
  shows "\<exists>c1 c2. add_status_line st title c = Some (True, c1) \<and> only_written c c1 \<and> add_headers n c1 = Some c2
    \<and> holds c2 (status_line st title @ headers_text n (m_linger c)) \<and> only_written c c2"
proof -
  obtain c1 where c1: "add_response (status_line st title) c = Some (True, c1)"
    "holds c1 (status_line st title)" "only_written c c1"
    using add_response_step [OF assms(1), of "status_line st title"] assms(2) by (auto simp: WRITE_BUFFER_SIZE_def)
  note l = only_written_simps(1) [OF c1(3)]
  obtain c2 where "add_headers n c1 = Some c2" "holds c2 (status_line st title @ headers_text n (m_linger c1))"
    "only_written c1 c2"
    using add_headers_step [OF c1(2), of n] assms(2) headers_length [OF assms(3), of "m_linger c1"]
    by (auto simp: WRITE_BUFFER_SIZE_def)
  then show ?thesis using c1 l only_written_trans [OF c1(3)] by (auto simp: add_status_line_def)
qed

lemma error_response_step:
  assumes "holds c []" "length (status_line st title) < 40" "length form < 100"
  shows "\<exists>c'. error_response st title form c = Some (True, c')
    \<and> holds c' (status_line st title @ headers_text (int (length form)) (m_linger c) @ form)
    \<and> m_iv_count c' = 1 \<and> m_iv c' = (m_iv c)[0 := (Write_buf, m_write_idx c')]
    \<and> same_conn c c' \<and> m_linger c' = m_linger c"
proof -
  have r: "int_range (int (length form))" using assms(3) by (simp add: int_range_def)
  obtain c1 c2 where c: "add_status_line st title c = Some (True, c1)" "add_headers (int (length form)) c1 = Some c2"
    "holds c2 (status_line st title @ headers_text (int (length form)) (m_linger c))" "only_written c c2"
    using status_headers [OF assms(1,2) r] by blast
  obtain c3 where c3: "add_response form c2 = Some (True, c3)"
    "holds c3 ((status_line st title @ headers_text (int (length form)) (m_linger c)) @ form)" "only_written c2 c3"
    using add_response_step [OF c(3), of form] assms(2,3) headers_length [OF r, of "m_linger c"]
    by (auto simp: WRITE_BUFFER_SIZE_def)
  let ?c = "c3\<lparr>m_iv := (m_iv c3)[0 := (Write_buf, m_write_idx c3)], m_iv_count := 1\<rparr>"
  have "error_response st title form c = Some (True, ?c)"
    using c(1,2) c3(1) by (simp add: error_response_def add_content_def)
  moreover have "holds ?c (status_line st title @ headers_text (int (length form)) (m_linger c) @ form)"
    using c3(2) by (simp add: holds_def)
  moreover have "m_iv c3 = m_iv c" "same_conn c c3" "m_linger c3 = m_linger c"
    using only_written_simps [OF only_written_trans [OF c(4) c3(3)]] by (simp_all add: same_conn_def)
  ultimately show ?thesis by (intro exI [of _ ?c]) (simp add: same_conn_def)
qed

text \<open>The two kinds of answers of \<open>process_write\<close>.\<close>

lemma process_write_error:
  assumes "holds c []" "error_answer ret = Some (st, title, form)"
  shows "\<exists>c'. process_write ret c = Some (True, c')
    \<and> holds c' (status_line st title @ headers_text (int (length form)) (m_linger c) @ form)
    \<and> m_iv_count c' = 1 \<and> m_iv c' = (m_iv c)[0 := (Write_buf, m_write_idx c')]
    \<and> same_conn c c' \<and> m_linger c' = m_linger c"
proof -
  have "process_write ret c = error_response st title form c"
    using assms(2) by (auto simp: process_write_def error_answer_def split: HTTP_CODE.splits)
  moreover have "length (status_line st title) < 40" "length form < 100" using status_length(2) [OF assms(2)] by blast+
  note error_response_step [OF assms(1) this]
  ultimately show ?thesis by metis
qed

lemma process_write_file_any:
  assumes "holds c []" and s: "st_size (m_file_stat c) \<noteq> 0"
  shows "\<exists>c'. process_write FILE_REQUEST c = Some (True, c')
    \<and> holds c' (status_line 200 ''OK'' @ headers_text (to_int (st_size (m_file_stat c))) (m_linger c))
    \<and> m_iv_count c' = 2
    \<and> m_iv c' = [(Write_buf, m_write_idx c'), (File_address (m_file_address c), st_size (m_file_stat c))]
    \<and> same_conn c c' \<and> m_linger c' = m_linger c"
proof -
  obtain c1 c2 where c: "add_status_line 200 ''OK'' c = Some (True, c1)" "only_written c c1"
    "add_headers (to_int (st_size (m_file_stat c))) c1 = Some c2"
    "holds c2 (status_line 200 ''OK'' @ headers_text (to_int (st_size (m_file_stat c))) (m_linger c))" "only_written c c2"
    using status_headers [OF assms(1) status_length(1) to_int_range] by blast
  let ?c = "c2\<lparr>m_iv := [(Write_buf, m_write_idx c2),
                 (File_address (m_file_address c2), st_size (m_file_stat c2))], m_iv_count := 2\<rparr>"
  have "process_write FILE_REQUEST c = Some (True, ?c)"
    using c(1,3) s only_written_simps(2) [OF c(2)] by (simp add: process_write_def)
  then show ?thesis
    using c(4) only_written_simps [OF c(5)] by (intro exI [of _ ?c]) (simp add: holds_def same_conn_def)
qed

lemma process_write_file:
  assumes "holds c []" and s: "st_size (m_file_stat c) \<noteq> 0" and r: "int_range (st_size (m_file_stat c))"
  shows "\<exists>c'. process_write FILE_REQUEST c = Some (True, c')
    \<and> holds c' (status_line 200 ''OK'' @ headers_text (st_size (m_file_stat c)) (m_linger c))
    \<and> m_iv_count c' = 2
    \<and> m_iv c' = [(Write_buf, m_write_idx c'), (File_address (m_file_address c), st_size (m_file_stat c))]
    \<and> same_conn c c' \<and> m_linger c' = m_linger c"
  using process_write_file_any [OF assms(1,2)] unfolding to_int_id [OF r] .

text \<open>Starting from an empty write buffer, process_write of an error code succeeds and leaves
  exactly the status line, the three header lines with the length of the text, and the text in the
  buffer, and hands exactly these bytes to writev; for a file that is not empty it leaves the status
  line and the headers and hands them and the mapped file to writev.  Every answer fits the buffer.\<close>

theorem http_answers_correct:
  assumes "holds c []"
  shows "(\<forall>ret st title form. error_answer ret = Some (st, title, form) \<longrightarrow>
       (\<exists>c'. process_write ret c = Some (True, c') \<and> m_iv_count c' = 1
          \<and> holds c' (status_line st title @ headers_text (int (length form)) (m_linger c) @ form)
          \<and> m_iv c' = (m_iv c)[0 := (Write_buf, m_write_idx c')]))
    \<and> (st_size (m_file_stat c) \<noteq> 0 \<longrightarrow> int_range (st_size (m_file_stat c)) \<longrightarrow>
       (\<exists>c'. process_write FILE_REQUEST c = Some (True, c') \<and> m_iv_count c' = 2
          \<and> holds c' (status_line 200 ''OK'' @ headers_text (st_size (m_file_stat c)) (m_linger c))
          \<and> m_iv c' = [(Write_buf, m_write_idx c'), (File_address (m_file_address c), st_size (m_file_stat c))]))"
  using process_write_error [OF assms] process_write_file [OF assms] by blast

lemma conn_after_holds: "holds (conn_after s) []"
  by (simp add: holds_def conn_after_def)

theorem http_answers_correct_witness:
  "\<exists>c'. process_write NO_RESOURCE (conn_after '''') = Some (True, c')
     \<and> holds c' (''HTTP/1.1 404 Not Found'' @ crlf @ ''Content-Length: 49'' @ crlf @ ''Connection: close''
         @ crlf @ crlf @ error_404_form)"
proof -
  have e: "error_answer NO_RESOURCE = Some (404, ''Not Found'', error_404_form)" by (simp add: error_answer_def)
  have m: "m_linger (conn_after '''') = False" by (simp add: conn_after_def)
  have t: "status_line 404 ''Not Found'' @ headers_text (int (length error_404_form)) False @ error_404_form
     = ''HTTP/1.1 404 Not Found'' @ crlf @ ''Content-Length: 49'' @ crlf @ ''Connection: close''
         @ crlf @ crlf @ error_404_form"
    by code_simp
  show ?thesis using http_answers_correct [OF conn_after_holds, of "''''"] e unfolding t [symmetric] m by blast
qed

text \<open>A request for an empty file is never answered: process_write composes the whole 200 answer in
  the buffer but falls through to the default case and returns false; process then closes the
  connection and afterwards modifies the events of descriptor -1.\<close>

theorem http_empty_file_unanswered:
  assumes "holds d []" "st_size (m_file_stat d) = 0" "m_sockfd d \<noteq> -1"
    and "process_read os c = Some (FILE_REQUEST, d)"
  shows "\<exists>e f. process_write FILE_REQUEST d = Some (False, e)
     \<and> holds e (status_line 200 ''OK'' @ headers_text 26 (m_linger d) @ ''<html><body></body></html>'')
     \<and> process os c = Some f \<and> m_sockfd f = -1 \<and> m_user_count f = m_user_count d - 1
     \<and> sys_calls f = Epoll_mod (m_epollfd d) (-1) [EPOLLOUT, EPOLLET, EPOLLONESHOT, EPOLLRDHUP]
         # Close (m_sockfd d) # Epoll_del (m_epollfd d) (m_sockfd d) # sys_calls d"
proof -
  have r: "int_range 26" by (simp add: int_range_def)
  obtain c1 c2 where c: "add_status_line 200 ''OK'' d = Some (True, c1)" "only_written d c1" "add_headers 26 c1 = Some c2"
    "holds c2 (status_line 200 ''OK'' @ headers_text 26 (m_linger d))" "only_written d c2"
    using status_headers [OF assms(1) status_length(1) r] by blast
  obtain e where e: "add_response ''<html><body></body></html>'' c2 = Some (True, e)"
    "holds e ((status_line 200 ''OK'' @ headers_text 26 (m_linger d)) @ ''<html><body></body></html>'')" "only_written c2 e"
    using add_response_step [OF c(4), of "''<html><body></body></html>''"] status_length(1)
      headers_length [OF r, of "m_linger d"] by (auto simp: WRITE_BUFFER_SIZE_def)
  have p: "process_write FILE_REQUEST d = Some (False, e)"
    using c(1,3) e(1) assms(2) only_written_simps(2) [OF c(2)] by (simp add: process_write_def add_content_def)
  have "only_written d e" using c(5) e(3) by (rule only_written_trans)
  note o = only_written_simps [OF this]
  show ?thesis using p e(2) assms(3,4) o
    by (simp add: process_def close_conn_def removefd_def modfd_def sys_def Let_def)
qed

definition empty_file_os :: http_os where
  "empty_file_os = \<lparr>os_flags = (\<lambda>_. 0), os_stat = (\<lambda>_. Some \<lparr>st_mode = 0x81A4, st_size = 0\<rparr>),
     os_open = (\<lambda>_. 9), os_mmap = (\<lambda>_ _. 4096)\<rparr>"

theorem http_empty_file_unanswered_witness:
  "\<exists>f. process empty_file_os (conn_body '''' 0) = Some f \<and> m_sockfd f = -1"
proof -
  let ?c = "conn_body '''' 0"
  have b: "m_read_buf ?c = ''/u'' @ [NUL] @ replicate (READ_BUFFER_SIZE - 3) NUL"
    by (simp add: conn_body_def conn_after_def)
  have s: "cstr (m_read_buf ?c) (int 3) = Some ''''" "cstr (m_read_buf ?c) 0 = Some ''/u''"
    unfolding b by (simp_all add: cstr_def READ_BUFFER_SIZE_def)
  let ?n = "new_line 3 '''' ?c"
  have set: "arr_set (m_read_buf ?c) 3 NUL = Some ((m_read_buf ?c)[3 := NUL])"
    by (simp add: arr_set_def b READ_BUFFER_SIZE_def)
  have same: "(m_read_buf ?c)[3 := NUL] = m_read_buf ?c"
    by (rule list_update_same_conv [THEN iffD2]) (simp_all add: b READ_BUFFER_SIZE_def nth_append)
  have n: "m_content_length ?n = 0" "m_checked_idx ?n = 3" "m_read_idx ?n = 3" "m_read_buf ?n = m_read_buf ?c"
    by (simp_all add: conn_body_def conn_after_def)
  have "?n\<lparr>m_read_buf := m_read_buf ?n\<rparr> = ?n" by simp
  then have pc: "parse_content (int 3) ?n = Some (GET_REQUEST, ?n)"
    using n set same by (simp add: parse_content_def add_int_def int_range_def)
  have u: "m_url ?n = Some 0" "cstr (m_read_buf ?n) 0 = Some ''/u''"
    "length (m_real_file ?n) = FILENAME_LEN" "m_real_file ?n ! (FILENAME_LEN - 1) = NUL"
    using s(2) by (simp_all add: conn_body_def conn_after_def FILENAME_LEN_def)
  have f: "file_code (os_stat empty_file_os (request_file ''/u'')) = FILE_REQUEST"
    by (simp add: empty_file_os_def file_code_def S_IROTH_def S_ISDIR_def)
  obtain d where d: "do_request empty_file_os ?n = Some (FILE_REQUEST, d)"
    "d = ?n\<lparr>m_real_file := m_real_file d, m_file_stat := m_file_stat d,
         m_file_address := m_file_address d, sys_calls := sys_calls d\<rparr>"
    "\<forall>st. os_stat empty_file_os (request_file ''/u'') = Some st \<longrightarrow> m_file_stat d = st"
    using do_request_step [OF u(3,4,1,2), of empty_file_os] unfolding f by blast
  have st: "m_check_state ?c = CHECK_STATE_CONTENT" "m_start_line ?c = int 3" "m_checked_idx ?c = int 3"
    by (simp_all add: conn_body_def)
  have "line_step empty_file_os ?c = Some (Inl FILE_REQUEST, d)"
    using line_step_new [OF s(1) st(2,3), of empty_file_os] st(1) pc d(1) by simp
  then have pr: "process_read empty_file_os ?c = Some (FILE_REQUEST, d)"
    unfolding process_read_def using st(1)
    by (subst process_read_loop.simps) (simp add: loop_condition_def)
  have "m_write_buf d = m_write_buf ?c" "m_write_idx d = 0" "m_sockfd d = 5"
    by (subst d(2), simp add: new_line_def sys_def conn_body_def conn_after_def)+
  then have h: "holds d []" "m_sockfd d \<noteq> -1" by (simp_all add: holds_def conn_body_def conn_after_def)
  have z: "st_size (m_file_stat d) = 0" using d(3) by (simp add: empty_file_os_def)
  show ?thesis using http_empty_file_unanswered [OF h(1) z h(2) pr] by blast
qed

subsection \<open>Sending\<close>

text \<open>Replies of \<open>writev\<close> that together sent less than half of what is to be sent are followed by
  another \<open>writev\<close>, with the same arguments.\<close>

definition sent_all :: "nat list \<Rightarrow> 'a http_conn \<Rightarrow> 'a http_conn" where
  "sent_all ks c = foldl (\<lambda>c k. sys (Writev (m_sockfd c) k) c) c ks"

lemma sys_simps [simp]:
  "m_sockfd (sys e c) = m_sockfd c" "m_linger (sys e c) = m_linger c" "m_epollfd (sys e c) = m_epollfd c"
  by (simp_all add: sys_def)

lemma sent_all_simps [simp]:
  "m_sockfd (sent_all ks c) = m_sockfd c" "m_linger (sent_all ks c) = m_linger c" "m_epollfd (sent_all ks c) = m_epollfd c"
  by (induction ks arbitrary: c) (simp_all add: sent_all_def)

lemma write_loop_short:
  assumes "2 * int (sum_list ks) < b - a"
  shows "write_loop (map Sent ks @ rs) b a c =
    write_loop rs (b - int (sum_list ks)) (a + int (sum_list ks)) (sent_all ks c)"
  using assms
proof (induction ks arbitrary: b a c)
  case (Cons k ks)
  then have "2 * int (sum_list ks) < (b - int k) - (a + int k)" "\<not> b - int k \<le> a + int k" by simp_all
  then show ?case using Cons.IH [of "b - int k" "a + int k" "sys (Writev (m_sockfd c) k) c"]
    by (simp add: sent_all_def algebra_simps)
qed (simp add: sent_all_def)

definition http_answer_done :: "'a http_conn \<Rightarrow> bool \<times> 'a http_conn" where
  "http_answer_done c = (let c = unmap c in
     if m_linger c then (True, modfd (m_epollfd c) (m_sockfd c) EPOLLIN (init_request c))
     else (False, modfd (m_epollfd c) (m_sockfd c) EPOLLIN c))"

lemma write_loop_done:
  assumes "b \<le> a + 2 * int k"
  shows "write_loop (Sent k # rs) b a c = Some (http_answer_done (sys (Writev (m_sockfd c) k) c))"
  using assms by (simp add: http_answer_done_def Let_def init_request_def)

text \<open>write takes an answer as sent as soon as half of the header block has been sent: with
  replies ks of writev that together are less than half of m_write_idx it calls writev again with the
  same arguments, so the bytes already sent go out a second time, and with the reply k that brings the
  sum to half of m_write_idx or more it unmaps the file, and keeps the connection (after a reset) or
  gives it up as after a complete answer.\<close>

theorem http_write_half:
  assumes "0 < m_write_idx c" "2 * int (sum_list ks) < m_write_idx c"
    and "m_write_idx c \<le> 2 * int (sum_list ks + k)"
  shows "http_write (map Sent ks @ Sent k # rs) c = Some (http_answer_done (sent_all (ks @ [k]) c))"
proof -
  have "http_write (map Sent ks @ Sent k # rs) c = write_loop (map Sent ks @ Sent k # rs) (m_write_idx c) 0 c"
    using assms(1) by (simp add: http_write_def Let_def del: write_loop.simps)
  also have "\<dots> = write_loop (Sent k # rs) (m_write_idx c - int (sum_list ks)) (int (sum_list ks)) (sent_all ks c)"
    using write_loop_short [of ks "m_write_idx c" 0 "Sent k # rs" c] assms(2) by (simp del: write_loop.simps)
  also have "\<dots> = Some (http_answer_done (sys (Writev (m_sockfd (sent_all ks c)) k) (sent_all ks c)))"
    by (rule write_loop_done) (use assms(3) in simp)
  finally show ?thesis by (simp add: sent_all_def)
qed

theorem http_write_half_witness:
  "http_write [Sent 20, Sent 40] ((conn_after '''')\<lparr>m_write_idx := 100\<rparr>)
     = Some (http_answer_done (sent_all [20, 40] ((conn_after '''')\<lparr>m_write_idx := 100\<rparr>)))"
  using http_write_half [of "(conn_after '''')\<lparr>m_write_idx := 100\<rparr>" "[20]" 40 "[]"] by simp

end
