(* ===== verification/HttpConn_Serve.thy ===== *)
theory HttpConn_Serve
  imports HttpConn_Answer
begin

text \<open>
  A whole request of \<open>epoll/http_conn.cpp\<close>, from the text the client sent to the answer in the write
  buffer: the line scanner, the two line parsers, \<open>do_request\<close> and \<open>process_write\<close>, composed by
  \<open>process_read\<close> and \<open>process\<close>.
\<close>

subsection \<open>The text of a request\<close>

definition plain :: "string \<Rightarrow> bool" where
  "plain l \<longleftrightarrow> NUL \<notin> set l \<and> CR \<notin> set l \<and> LF \<notin> set l"

definition header_text :: "string list \<Rightarrow> string" where
  "header_text hs = concat (map (\<lambda>h. h @ crlf) hs) @ crlf"

text \<open>A header that the program takes as the wish to keep the connection.\<close>

definition wants_keep_alive :: "string \<Rightarrow> bool" where
  "wants_keep_alive h \<longleftrightarrow> strncase_eq h ''Connection:'' 11 \<and> strcase_eq (dropWhile blank (drop 11 h)) ''keep-alive''"

text \<open>A header line that is not empty and does not announce a body.\<close>

definition simple_header :: "string \<Rightarrow> bool" where
  "simple_header h \<longleftrightarrow> plain h \<and> h \<noteq> [] \<and> \<not> strncase_eq h ''Content-Length:'' 15"

text \<open>What the operations that read leave alone.\<close>

definition kept :: "'a http_conn \<Rightarrow> 'a http_conn \<Rightarrow> bool" where
  "kept c d \<longleftrightarrow> m_write_buf d = m_write_buf c \<and> m_write_idx d = m_write_idx c \<and> m_sockfd d = m_sockfd c
     \<and> m_epollfd d = m_epollfd c \<and> m_iv d = m_iv c \<and> m_user_count d = m_user_count c \<and> m_pTimer d = m_pTimer c"

lemma kept_trans: "kept a b \<Longrightarrow> kept b c \<Longrightarrow> kept a c"
  by (simp add: kept_def)

subsection \<open>One line\<close>

lemma parse_line_whole:
  assumes at: "conn_at c i i n" and l: "plain l" and b: "drop i (take n (m_read_buf c)) = l @ crlf @ rest"
  shows "\<exists>c1. parse_line c = Some (LINE_OK, c1) \<and> conn_at c1 i (i + length l + 2) n
    \<and> c1 = c\<lparr>m_read_buf := m_read_buf c1, m_checked_idx := int (i + length l + 2)\<rparr>
    \<and> nul_within (m_read_buf c) (m_read_buf c1) i READ_BUFFER_SIZE
    \<and> cstr (m_read_buf c1) (int i) = Some l \<and> drop (i + length l + 2) (take n (m_read_buf c1)) = rest"
proof -
  let ?b = "m_read_buf c" and ?j = "i + length l"
  define pre where "pre = take i ?b"
  define post where "post = drop n ?b"
  have a: "length ?b = READ_BUFFER_SIZE" "i \<le> n" "n < READ_BUFFER_SIZE" using at by (simp_all add: conn_at_def)
  have pl: "length pre = i" using a by (simp add: pre_def)
  have "take n ?b = take i (take n ?b) @ l @ crlf @ rest" using append_take_drop_id [of i "take n ?b"] b by metis
  then have e: "?b = pre @ l @ crlf @ rest @ post" using a(2) append_take_drop_id [of n ?b] by (simp add: pre_def post_def)
  have n: "n = i + length l + 2 + length rest"
  proof -
    have "n - i = length (l @ crlf @ rest)" using a unfolding b [symmetric] by simp
    then show ?thesis using a(2) by simp
  qed
  have "takeWhile (\<lambda>c. c \<noteq> CR \<and> c \<noteq> LF) (l @ crlf @ rest) = l"
    unfolding append_Cons by (rule takeWhile_stop) (use l in \<open>auto simp: plain_def\<close>)
  then have j: "line_end ?b i n = ?j" by (simp add: line_end_def b)
  have at_j: "?b ! ?j = CR" "?b ! (?j + 1) = LF" unfolding e using pl by (simp_all add: nth_append)
  let ?b1 = "pre @ l @ NUL # NUL # rest @ post"
  have u: "?b[?j := NUL, ?j + 1 := NUL] = ?b1" unfolding e using pl by (simp add: list_update_append)
  have s: "line_spec ?b i n = (LINE_OK, ?b1, ?j + 2)" unfolding line_spec_def j Let_def using at_j n u by simp
  let ?c1 = "c\<lparr>m_read_buf := ?b1, m_checked_idx := int (?j + 2)\<rparr>"
  have p: "parse_line c = Some (LINE_OK, ?c1)"
    using parse_line_loop_spec [of i n ?b] at s by (simp add: parse_line_def conn_at_def int_result_def)
  obtain st c' i' where c': "parse_line c = Some (st, c')" "conn_at c' i i' n"
    "nul_within ?b (m_read_buf c') i READ_BUFFER_SIZE" "c' = c\<lparr>m_read_buf := m_read_buf c', m_checked_idx := int i'\<rparr>"
    using parse_line_step [OF at] by blast
  have cc: "c' = ?c1" using c'(1) p by simp
  then have "int i' = int (?j + 2)" using c'(2) by (simp add: conn_at_def)
  then have "i' = ?j + 2" by (simp only: of_nat_eq_iff)
  then have at1: "conn_at ?c1 i (?j + 2) n" using c'(2) cc by simp
  have "cstr ?b1 (int i) = Some l" using cstr_append [of l pre] l pl by (simp add: plain_def)
  moreover have "drop (?j + 2) (take n ?b1) = rest" using pl n by simp
  ultimately show ?thesis using p at1 c'(3) cc by (intro exI [of _ ?c1]) simp
qed

subsection \<open>The headers\<close>

text \<open>The request line was accepted, and the text \<open>rest\<close> is still to be read.\<close>

definition in_headers :: "'a http_conn \<Rightarrow> nat \<Rightarrow> nat \<Rightarrow> string \<Rightarrow> string \<Rightarrow> bool" where
  "in_headers c i n path rest \<longleftrightarrow> conn_at c i i n \<and> m_check_state c = CHECK_STATE_HEADER \<and> m_method c = GET
     \<and> m_content_length c = 0 \<and> drop i (take n (m_read_buf c)) = rest
     \<and> (\<exists>u. m_url c = Some (int u) \<and> cstr (m_read_buf c) (int u) = Some path \<and> u + length path < i)"

text \<open>A header line, and the empty line.\<close>

lemma parse_headers_simple:
  assumes "cstr (m_read_buf c) (int t) = Some h" "simple_header h"
  shows "\<exists>d. parse_headers (int t) c = Some (NO_REQUEST, d) \<and> m_linger d = (m_linger c \<or> wants_keep_alive h)
    \<and> d = c\<lparr>m_linger := m_linger d, m_host := m_host d, sys_calls := sys_calls d\<rparr>"
proof -
  have skip: "\<exists>q. skip_blanks (m_read_buf c) (int t + int k) = Some q
      \<and> cstr (m_read_buf c) q = Some (dropWhile blank (drop k h))" if "k \<le> length h" for k
    using skip_blanks_cstr [OF cstr_shift [OF assms(1) that]] by blast
  have h: "h \<noteq> []" "\<not> strncase_eq h ''Content-Length:'' 15" using assms(2) by (simp_all add: simple_header_def)
  show ?thesis
  proof (cases "strncase_eq h ''Connection:'' 11")
    case True
    obtain q where "skip_blanks (m_read_buf c) (int t + 11) = Some q"
      "cstr (m_read_buf c) q = Some (dropWhile blank (drop 11 h))"
      using skip [of 11] strncase_eq_length [OF True] by auto
    then show ?thesis using assms(1) h True by (simp add: parse_headers_def wants_keep_alive_def del: set_simps)
  next
    case nc: False
    show ?thesis
    proof (cases "strncase_eq h ''Host:'' 5")
      case True
      obtain q where "skip_blanks (m_read_buf c) (int t + 5) = Some q"
        using skip [of 5] strncase_eq_length [OF True] by auto
      then show ?thesis using assms(1) h True nc by (simp add: parse_headers_def wants_keep_alive_def del: set_simps)
    next
      case False
      then show ?thesis using assms(1) h nc by (simp add: parse_headers_def wants_keep_alive_def sys_def del: set_simps)
    qed
  qed
qed

lemma header_line:
  assumes c: "in_headers c i n path (h @ crlf @ rest)" and h: "simple_header h"
  shows "\<exists>d. process_read_loop os LINE_OK c = process_read_loop os LINE_OK d
    \<and> in_headers d (i + length h + 2) n path rest \<and> m_linger d = (m_linger c \<or> wants_keep_alive h)
    \<and> m_real_file d = m_real_file c \<and> kept c d"
proof -
  let ?i = "i + length h + 2"
  have at: "conn_at c i i n" and st: "m_check_state c = CHECK_STATE_HEADER" and m: "m_method c = GET" "m_content_length c = 0"
    using c by (simp_all add: in_headers_def)
  obtain u where u: "m_url c = Some (int u)" "cstr (m_read_buf c) (int u) = Some path" "u + length path < i"
    using c by (auto simp: in_headers_def)
  obtain c1 where p: "parse_line c = Some (LINE_OK, c1)" and at1: "conn_at c1 i ?i n"
    and c1: "c1 = c\<lparr>m_read_buf := m_read_buf c1, m_checked_idx := int ?i\<rparr>"
    and nw: "nul_within (m_read_buf c) (m_read_buf c1) i READ_BUFFER_SIZE"
    and l: "cstr (m_read_buf c1) (int i) = Some h" and rest: "drop ?i (take n (m_read_buf c1)) = rest"
    using parse_line_whole [OF at, of h rest] h c by (auto simp: simple_header_def in_headers_def)
  have s1: "m_check_state c1 = CHECK_STATE_HEADER" "m_start_line c1 = int i" "m_checked_idx c1 = int ?i"
    "m_method c1 = GET" "m_content_length c1 = 0" "m_linger c1 = m_linger c" "m_url c1 = Some (int u)"
    "m_real_file c1 = m_real_file c" "kept c c1"
    using at st m u(1) by (subst c1, simp add: conn_at_def kept_def)+
  let ?n = "new_line ?i h c1"
  have ln: "cstr (m_read_buf ?n) (int i) = Some h" using l by simp
  obtain d where d: "parse_headers (int i) ?n = Some (NO_REQUEST, d)" "m_linger d = (m_linger ?n \<or> wants_keep_alive h)"
    and de: "d = ?n\<lparr>m_linger := m_linger d, m_host := m_host d, sys_calls := sys_calls d\<rparr>"
    using parse_headers_simple [OF ln h] by blast
  have "line_step os c1 = Some (Inr LINE_OK, d)" using line_step_new [OF l s1(2,3)] s1(1) d(1) by simp
  then have run: "process_read_loop os LINE_OK c = process_read_loop os LINE_OK d"
    by (subst process_read_loop.simps) (simp add: loop_condition_def st p)
  have f: "m_read_buf d = m_read_buf c1" "m_url d = Some (int u)" "m_check_state d = CHECK_STATE_HEADER" "m_method d = GET"
    "m_content_length d = 0" "m_real_file d = m_real_file c" "kept c d" "m_start_line d = int ?i" "m_checked_idx d = int ?i" "m_read_idx d = m_read_idx c1"
    using s1 by (subst de, simp add: new_line_def sys_def kept_def)+
  have cs: "cstr (m_read_buf d) (int u) = Some path"
    using cstr_nul_within [OF u(2) nw] u(3) f(1) by simp
  have "conn_at d ?i ?i n"
  proof (rule conn_at_update [OF conn_at_new_line [OF at1, of h], where hi = 0])
    show "url_ok d ?i" using cs f(2) u(3) unfolding url_ok_def by auto
  qed (use at1 f s1(8) in \<open>auto simp: conn_at_def\<close>)
  then have "in_headers d ?i n path rest" using f cs u(3) rest unfolding in_headers_def by auto
  moreover have "m_linger d = (m_linger c \<or> wants_keep_alive h)" using d(2) s1(6) by (simp add: new_line_def sys_def)
  ultimately show ?thesis using run f(6,7) by blast
qed

text \<open>The answer of \<open>do_request\<close> for the path, and what it leaves in the connection.\<close>

definition served :: "http_os \<Rightarrow> string \<Rightarrow> 'a http_conn \<Rightarrow> bool" where
  "served os path d \<longleftrightarrow> (\<forall>st. os_stat os (request_file path) = Some st \<longrightarrow> m_file_stat d = st)
     \<and> (file_code (os_stat os (request_file path)) = FILE_REQUEST \<longrightarrow>
          m_file_address d = os_mmap os (os_open os (request_file path)) (st_size (m_file_stat d)))"

lemma last_line:
  assumes c: "in_headers c i n path crlf"
  shows "\<exists>d. process_read_loop os LINE_OK c = Some (file_code (os_stat os (request_file path)), d)
    \<and> served os path d \<and> m_linger d = m_linger c \<and> kept c d"
proof -
  have at: "conn_at c i i n" and st: "m_check_state c = CHECK_STATE_HEADER" and m: "m_method c = GET" "m_content_length c = 0"
    using c by (simp_all add: in_headers_def)
  obtain u where u: "m_url c = Some (int u)" "cstr (m_read_buf c) (int u) = Some path" "u + length path < i"
    using c by (auto simp: in_headers_def)
  obtain c1 where p: "parse_line c = Some (LINE_OK, c1)" and at1: "conn_at c1 i (i + 2) n"
    and c1: "c1 = c\<lparr>m_read_buf := m_read_buf c1, m_checked_idx := int (i + 2)\<rparr>"
    and nw: "nul_within (m_read_buf c) (m_read_buf c1) i READ_BUFFER_SIZE" and l: "cstr (m_read_buf c1) (int i) = Some []"
    using parse_line_whole [OF at, of "[]" "[]"] c by (auto simp: plain_def in_headers_def)
  have s1: "m_check_state c1 = CHECK_STATE_HEADER" "m_start_line c1 = int i" "m_checked_idx c1 = int (i + 2)"
    "m_method c1 = GET" "m_content_length c1 = 0" "m_linger c1 = m_linger c" "m_url c1 = Some (int u)" "kept c c1"
    using at st m u(1) by (subst c1, simp add: conn_at_def kept_def)+
  let ?n = "new_line (i + 2) [] c1"
  have h: "parse_headers (int i) ?n = Some (GET_REQUEST, ?n)"
    using l s1(4,5) by (simp add: parse_headers_def new_line_def sys_def)
  have n: "length (m_real_file ?n) = FILENAME_LEN" "m_real_file ?n ! (FILENAME_LEN - 1) = NUL" "m_url ?n = Some (int u)"
    "cstr (m_read_buf ?n) (int u) = Some path"
    using at1 s1(7) cstr_nul_within [OF u(2) nw] u(3) by (simp_all add: conn_at_def)
  obtain d where d: "do_request os ?n = Some (file_code (os_stat os (request_file path)), d)" "served os path d"
    and de: "d = ?n\<lparr>m_real_file := m_real_file d, m_file_stat := m_file_stat d, m_file_address := m_file_address d, sys_calls := sys_calls d\<rparr>"
    using do_request_step [OF n, of os] unfolding served_def by blast
  have "line_step os c1 = Some (Inl (file_code (os_stat os (request_file path))), d)"
    using line_step_new [OF l s1(2,3)] s1(1) h d(1) by simp
  then have "process_read_loop os LINE_OK c = Some (file_code (os_stat os (request_file path)), d)"
    by (subst process_read_loop.simps) (simp add: loop_condition_def st p)
  moreover have "m_linger d = m_linger c" "kept c d"
    using s1(6,8) by (subst de, simp add: new_line_def sys_def kept_def)+
  ultimately show ?thesis using d(2) by blast
qed

lemma headers_read:
  assumes "in_headers c i n path (header_text hs)" "\<forall>h \<in> set hs. simple_header h"
  shows "\<exists>d. process_read_loop os LINE_OK c = Some (file_code (os_stat os (request_file path)), d)
    \<and> served os path d \<and> m_linger d = (m_linger c \<or> (\<exists>h \<in> set hs. wants_keep_alive h)) \<and> kept c d"
  using assms
proof (induction hs arbitrary: c i)
  case Nil
  then show ?case using last_line [of c i n path os] by (simp add: header_text_def)
next
  case (Cons h hs)
  have "in_headers c i n path (h @ crlf @ header_text hs)" using Cons.prems(1) by (simp add: header_text_def)
  then obtain d where d: "process_read_loop os LINE_OK c = process_read_loop os LINE_OK d"
    "in_headers d (i + length h + 2) n path (header_text hs)" "m_linger d = (m_linger c \<or> wants_keep_alive h)" "kept c d"
    using header_line [of c i n path h "header_text hs" os] Cons.prems(2) by auto
  obtain e where "process_read_loop os LINE_OK d = Some (file_code (os_stat os (request_file path)), e)"
    "served os path e" "m_linger e = (m_linger d \<or> (\<exists>h \<in> set hs. wants_keep_alive h))" "kept d e"
    using Cons.IH [OF d(2)] Cons.prems(2) by auto
  then show ?case using d kept_trans by (intro exI [of _ e]) auto
qed

subsection \<open>The request line and the whole request\<close>

definition fresh :: "'a http_conn \<Rightarrow> string \<Rightarrow> bool" where
  "fresh c s \<longleftrightarrow> conn_at c 0 0 (length s) \<and> m_check_state c = CHECK_STATE_REQUESTLINE \<and> m_method c = GET
     \<and> m_content_length c = 0 \<and> \<not> m_linger c \<and> take (length s) (m_read_buf c) = s"

lemma fresh_init:
  assumes "length s < READ_BUFFER_SIZE"
  shows "fresh (receive s (init os fd a c)) s" "holds (receive s (init os fd a c)) []"
  using assms by (auto simp: fresh_def conn_at_def receive_def init_def init_request_def addfd_def setnonblocking_def sys_def
      Let_def nth_append holds_def FILENAME_LEN_def READ_BUFFER_SIZE_def)

lemma fresh_conn_after: "length s < READ_BUFFER_SIZE \<Longrightarrow> fresh (conn_after s) s"
  using conn_after_ok [of s] by (simp add: fresh_def) (simp add: conn_after_def)

lemma request_line:
  assumes c: "fresh c (l @ crlf @ rest)" and l: "plain l"
  shows "\<exists>d. kept c d \<and> \<not> m_linger d \<and> (case request_path l of
      None \<Rightarrow> process_read_loop os LINE_OK c = Some (BAD_REQUEST, d)
    | Some path \<Rightarrow> process_read_loop os LINE_OK c = process_read_loop os LINE_OK d
        \<and> in_headers d (length l + 2) (length (l @ crlf @ rest)) path rest)"
proof -
  let ?i = "length l + 2" and ?N = "length (l @ crlf @ rest)"
  have at: "conn_at c 0 0 ?N" and st: "m_check_state c = CHECK_STATE_REQUESTLINE" and m: "m_content_length c = 0" "\<not> m_linger c"
    and b: "drop 0 (take ?N (m_read_buf c)) = l @ crlf @ rest"
    using c by (simp_all add: fresh_def)
  obtain c1 where p: "parse_line c = Some (LINE_OK, c1)" and at1: "conn_at c1 0 ?i ?N"
    and c1: "c1 = c\<lparr>m_read_buf := m_read_buf c1, m_checked_idx := int ?i\<rparr>"
    and s: "cstr (m_read_buf c1) (int 0) = Some l" and r: "drop ?i (take ?N (m_read_buf c1)) = rest"
    using parse_line_whole [OF at l b] unfolding add_0 by blast
  have s1: "m_check_state c1 = CHECK_STATE_REQUESTLINE" "m_start_line c1 = int 0" "m_checked_idx c1 = int ?i"
    "m_content_length c1 = 0" "\<not> m_linger c1" "kept c c1"
    using at st m by (subst c1, simp add: conn_at_def kept_def)+
  let ?n = "new_line ?i l c1"
  have n: "m_content_length ?n = 0" "\<not> m_linger ?n" "kept c ?n" "conn_at ?n ?i ?i ?N" "m_read_buf ?n = m_read_buf c1"
    "m_start_line ?n = int ?i" "m_checked_idx ?n = int ?i" "m_read_idx ?n = int ?N"
    using s1 at1 conn_at_new_line [OF at1, of l] by (simp_all add: new_line_def sys_def kept_def conn_at_def)
  have sn: "cstr (m_read_buf ?n) (int 0) = Some l" using s by simp
  obtain ret d where d: "parse_request_line (int 0) ?n = Some (ret, d)"
    and de: "d = ?n\<lparr>m_read_buf := m_read_buf d, m_url := m_url d, m_version := m_version d,
            m_method := m_method d, m_check_state := m_check_state d\<rparr>"
    and nw: "nul_within (m_read_buf ?n) (m_read_buf d) 0 (0 + length l)"
    and res: "case request_path l of None \<Rightarrow> ret = BAD_REQUEST \<and> m_check_state d = m_check_state ?n
        | Some path \<Rightarrow> ret = NO_REQUEST \<and> m_check_state d = CHECK_STATE_HEADER \<and> m_method d = GET
           \<and> (\<exists>u. m_url d = Some (int u) \<and> 0 \<le> u \<and> cstr (m_read_buf d) (int u) = Some path \<and> u + length path < 0 + length l)"
    using parse_request_line_spec [OF sn] unfolding request_result_def by blast
  have step: "line_step os c1 = Some (if ret = BAD_REQUEST then Inl BAD_REQUEST else Inr LINE_OK, d)"
    using line_step_new [OF s s1(2,3)] s1(1) d by simp
  have f: "m_content_length d = 0" "\<not> m_linger d" "kept c d" "m_start_line d = int ?i" "m_checked_idx d = int ?i"
    "m_read_idx d = int ?N" "m_real_file d = m_real_file ?n"
    using n by (subst de, simp add: kept_def)+
  show ?thesis
  proof (cases "request_path l")
    case None
    then have "process_read_loop os LINE_OK c = Some (BAD_REQUEST, d)"
      using step res by (subst process_read_loop.simps) (simp add: loop_condition_def st p)
    then show ?thesis using None f(2,3) by auto
  next
    case (Some path)
    then have run: "process_read_loop os LINE_OK c = process_read_loop os LINE_OK d"
      using step res by (subst process_read_loop.simps) (simp add: loop_condition_def st p)
    obtain u where u: "m_url d = Some (int u)" "cstr (m_read_buf d) (int u) = Some path" "u + length path < length l"
      using res Some by auto
    have rd: "drop ?i (take ?N (m_read_buf d)) = rest"
    proof -
      have "drop ?i (take ?N (m_read_buf d)) = drop ?i (take ?N (m_read_buf c1))"
      proof (rule nth_equalityI)
        show "length (drop ?i (take ?N (m_read_buf d))) = length (drop ?i (take ?N (m_read_buf c1)))"
          using nw n(5) by (simp add: nul_within_def)
        fix k assume "k < length (drop ?i (take ?N (m_read_buf d)))"
        then have "?i + k < length (m_read_buf d)" "?i + k < ?N" by simp_all
        then show "drop ?i (take ?N (m_read_buf d)) ! k = drop ?i (take ?N (m_read_buf c1)) ! k"
          using nw n(5) unfolding nul_within_def by (simp, fastforce)
      qed
      then show ?thesis using r by simp
    qed
    have "conn_at d ?i ?i ?N"
    proof (rule conn_at_update [OF at1 nw [unfolded n(5)]])
      show "url_ok d ?i" using u unfolding url_ok_def by auto
      show "?i \<le> ?N" by simp
      have "m_read_buf c1 ! (?i - 1) \<noteq> CR" "?i - 1 < length (m_read_buf c1)" using at1 by (simp_all add: conn_at_def)
      then show "m_read_buf d ! (?i - 1) \<noteq> CR" using nul_within_ne [OF nw [unfolded n(5)]] by simp
    qed (use n(4) f in \<open>simp_all add: conn_at_def\<close>)
    then have "in_headers d ?i ?N path rest" using f(1) u rd res Some unfolding in_headers_def by auto
    then show ?thesis using Some run f(2,3) by auto
  qed
qed

text \<open>What \<open>process_read\<close> makes of the text of a request.\<close>

lemma request_read:
  assumes "fresh c (l @ crlf @ header_text hs)" "plain l" "\<forall>h \<in> set hs. simple_header h"
  shows "\<exists>d. kept c d \<and> (case request_path l of
      None \<Rightarrow> process_read os c = Some (BAD_REQUEST, d) \<and> \<not> m_linger d
    | Some path \<Rightarrow> process_read os c = Some (file_code (os_stat os (request_file path)), d) \<and> served os path d
        \<and> m_linger d = (\<exists>h \<in> set hs. wants_keep_alive h))"
proof -
  obtain d where d: "kept c d" "\<not> m_linger d" "case request_path l of
      None \<Rightarrow> process_read_loop os LINE_OK c = Some (BAD_REQUEST, d)
    | Some path \<Rightarrow> process_read_loop os LINE_OK c = process_read_loop os LINE_OK d
        \<and> in_headers d (length l + 2) (length (l @ crlf @ header_text hs)) path (header_text hs)"
    using request_line [OF assms(1,2), of os] by blast
  show ?thesis
  proof (cases "request_path l")
    case None
    then show ?thesis using d by (auto simp: process_read_def)
  next
    case (Some path)
    then have run: "process_read_loop os LINE_OK c = process_read_loop os LINE_OK d"
      "in_headers d (length l + 2) (length (l @ crlf @ header_text hs)) path (header_text hs)" using d(3) by simp_all
    obtain e where "process_read_loop os LINE_OK d = Some (file_code (os_stat os (request_file path)), e)"
      "served os path e" "m_linger e = (m_linger d \<or> (\<exists>h \<in> set hs. wants_keep_alive h))" "kept d e"
      using headers_read [OF run(2) assms(3), of os] by blast
    then show ?thesis using Some run(1) d(1,2) kept_trans by (auto simp: process_read_def)
  qed
qed

subsection \<open>The answer\<close>

text \<open>The bytes of the answer that come from the write buffer, for the code \<open>ret\<close> and a file of \<open>n\<close> bytes.\<close>

definition answer_text :: "HTTP_CODE \<Rightarrow> int \<Rightarrow> bool \<Rightarrow> string" where
  "answer_text ret n linger = (case error_answer ret of
      Some (st, title, form) \<Rightarrow> status_line st title @ headers_text (int (length form)) linger @ form
    | None \<Rightarrow> status_line 200 ''OK'' @ headers_text n linger)"

definition request_code :: "http_os \<Rightarrow> string \<Rightarrow> HTTP_CODE" where
  "request_code os l = (case request_path l of None \<Rightarrow> BAD_REQUEST
     | Some path \<Rightarrow> file_code (os_stat os (request_file path)))"

definition file_size :: "http_os \<Rightarrow> string \<Rightarrow> int" where
  "file_size os path = (case os_stat os (request_file path) of None \<Rightarrow> 0 | Some st \<Rightarrow> st_size st)"

lemma file_code_cases:
  "file_code st \<noteq> FILE_REQUEST \<Longrightarrow> error_answer (file_code st) \<noteq> None"
  "file_code None \<noteq> FILE_REQUEST"
  by (auto simp: file_code_def error_answer_def split: option.splits)

text \<open>The answer that is ready to be sent: the text, the vector of \<open>writev\<close>, and the events.\<close>

definition ready :: "'a http_conn \<Rightarrow> 'a http_conn \<Rightarrow> string \<Rightarrow> (iov_base \<times> int) list \<Rightarrow> bool" where
  "ready c f t files \<longleftrightarrow> holds f t \<and> take (nat (m_iv_count f)) (m_iv f) = (Write_buf, m_write_idx f) # files
     \<and> same_conn c f \<and> length (m_iv f) = length (m_iv c)
     \<and> hd (sys_calls f) = Epoll_mod (m_epollfd c) (m_sockfd c) [EPOLLOUT, EPOLLET, EPOLLONESHOT, EPOLLRDHUP]"

lemma process_error:
  assumes "process_read os c = Some (ret, d)" "kept c d" "holds c []" "length (m_iv c) = 2" "error_answer ret \<noteq> None"
  shows "\<exists>f. process os c = Some f \<and> ready c f (answer_text ret n (m_linger d)) [] \<and> m_linger f = m_linger d"
proof -
  have h: "holds d []" using assms(2,3) by (simp add: kept_def holds_def)
  obtain st title form where e: "error_answer ret = Some (st, title, form)" using assms(5) by auto
  then have nr: "ret \<noteq> NO_REQUEST" by (auto simp: error_answer_def)
  obtain c' where c': "process_write ret d = Some (True, c')"
    "holds c' (status_line st title @ headers_text (int (length form)) (m_linger d) @ form)"
    "m_iv_count c' = 1" "m_iv c' = (m_iv d)[0 := (Write_buf, m_write_idx c')]" "same_conn d c'" "m_linger c' = m_linger d"
    using process_write_error [OF h e] by blast
  have "take 1 (m_iv c') = [(Write_buf, m_write_idx c')]"
    using c'(4) assms(2,4) by (cases "m_iv c") (simp_all add: kept_def)
  then show ?thesis
    using assms(1,2) nr c'
    by (simp add: process_def ready_def modfd_def sys_def holds_def answer_text_def e kept_def same_conn_def)
qed

lemma process_file:
  assumes "process_read os c = Some (FILE_REQUEST, d)" "kept c d" "holds c []" "length (m_iv c) = 2"
    and "m_file_address d = a" "st_size (m_file_stat d) = n" "n \<noteq> 0"
  shows "\<exists>f. process os c = Some f \<and> ready c f (answer_text FILE_REQUEST (to_int n) (m_linger d)) [(File_address a, n)]
    \<and> m_linger f = m_linger d"
proof -
  have h: "holds d []" using assms(2,3) by (simp add: kept_def holds_def)
  obtain c' where c': "process_write FILE_REQUEST d = Some (True, c')"
    "holds c' (status_line 200 ''OK'' @ headers_text (to_int n) (m_linger d))"
    "m_iv_count c' = 2" "m_iv c' = [(Write_buf, m_write_idx c'), (File_address a, n)]"
    "same_conn d c'" "m_linger c' = m_linger d"
    using process_write_file_any [OF h] assms(5-7) by auto
  then show ?thesis
    using assms(1,2,4)
    by (simp add: process_def ready_def modfd_def sys_def holds_def answer_text_def error_answer_def kept_def same_conn_def)
qed

text \<open>The answer to a request line and its headers: the text and the vector after it.\<close>

definition keeps :: "string \<Rightarrow> string list \<Rightarrow> bool" where
  "keeps l hs \<longleftrightarrow> request_path l \<noteq> None \<and> (\<exists>h \<in> set hs. wants_keep_alive h)"

definition http_answer :: "http_os \<Rightarrow> string \<Rightarrow> string list \<Rightarrow> string \<times> (iov_base \<times> int) list" where
  "http_answer os l hs = (case request_path l of
      None \<Rightarrow> (answer_text BAD_REQUEST 0 False, [])
    | Some path \<Rightarrow> (answer_text (request_code os l) (to_int (file_size os path)) (\<exists>h \<in> set hs. wants_keep_alive h),
        if request_code os l = FILE_REQUEST
        then [(File_address (os_mmap os (os_open os (request_file path)) (file_size os path)), file_size os path)] else []))"

text \<open>The requests that get an answer: all but those for an empty file.\<close>

definition sendable :: "http_os \<Rightarrow> string \<Rightarrow> bool" where
  "sendable os l \<longleftrightarrow> (case request_path l of None \<Rightarrow> True
     | Some path \<Rightarrow> request_code os l = FILE_REQUEST \<longrightarrow> file_size os path \<noteq> 0)"

lemma request_answered:
  assumes "fresh c (l @ crlf @ header_text hs)" "plain l" "\<forall>h \<in> set hs. simple_header h"
    and "holds c []" "length (m_iv c) = 2" "sendable os l"
  shows "\<exists>f. process os c = Some f \<and> ready c f (fst (http_answer os l hs)) (snd (http_answer os l hs))
    \<and> m_linger f = keeps l hs"
proof -
  obtain d where d: "kept c d" "case request_path l of
      None \<Rightarrow> process_read os c = Some (BAD_REQUEST, d) \<and> \<not> m_linger d
    | Some path \<Rightarrow> process_read os c = Some (file_code (os_stat os (request_file path)), d) \<and> served os path d
        \<and> m_linger d = (\<exists>h \<in> set hs. wants_keep_alive h)"
    using request_read [OF assms(1-3), of os] by blast
  show ?thesis
  proof (cases "request_path l")
    case None
    then show ?thesis using d(2) process_error [OF _ d(1) assms(4,5), of os BAD_REQUEST 0]
      by (simp add: error_answer_def http_answer_def keeps_def)
  next
    case (Some path)
    then have code: "request_code os l = file_code (os_stat os (request_file path))" by (simp add: request_code_def)
    have r: "process_read os c = Some (request_code os l, d)" "served os path d" "m_linger d = (\<exists>h \<in> set hs. wants_keep_alive h)"
      using d(2) Some code by simp_all
    show ?thesis
    proof (cases "request_code os l = FILE_REQUEST")
      case False
      then have "error_answer (request_code os l) \<noteq> None" using file_code_cases(1) unfolding code by blast
      then show ?thesis using process_error [OF r(1) d(1) assms(4,5), of "to_int (file_size os path)"] Some False r(3)
        by (simp add: http_answer_def keeps_def)
    next
      case True
      then obtain st where st: "os_stat os (request_file path) = Some st" using file_code_cases(2) code by (metis option.exhaust)
      then have n: "st_size (m_file_stat d) = file_size os path" "m_file_address d = os_mmap os (os_open os (request_file path)) (file_size os path)"
        using r(2) True code by (simp_all add: served_def file_size_def)
      show ?thesis
        using process_file [OF r(1) [unfolded True] d(1) assms(4,5) n(2,1)] assms(6) Some True r(3)
        by (simp add: http_answer_def keeps_def sendable_def)
    qed
  qed
qed

text \<open>The connection after a request for an empty file: closed, and its count taken off.\<close>

definition dropped :: "'a http_conn \<Rightarrow> 'a http_conn \<Rightarrow> bool" where
  "dropped c f \<longleftrightarrow> m_sockfd f = - 1 \<and> m_user_count f = m_user_count c - 1
     \<and> (\<exists>tr. sys_calls f = Epoll_mod (m_epollfd c) (- 1) [EPOLLOUT, EPOLLET, EPOLLONESHOT, EPOLLRDHUP]
          # Close (m_sockfd c) # Epoll_del (m_epollfd c) (m_sockfd c) # tr)"

lemma request_dropped:
  assumes "fresh c (l @ crlf @ header_text hs)" "plain l" "\<forall>h \<in> set hs. simple_header h"
    and "holds c []" "m_sockfd c \<noteq> - 1" "\<not> sendable os l"
  shows "\<exists>f. process os c = Some f \<and> dropped c f"
proof -
  obtain path where p: "request_path l = Some path" "request_code os l = FILE_REQUEST" "file_size os path = 0"
    using assms(6) by (auto simp: sendable_def split: option.splits)
  then have code: "file_code (os_stat os (request_file path)) = FILE_REQUEST" by (simp add: request_code_def)
  obtain d where d: "kept c d" "process_read os c = Some (FILE_REQUEST, d)" "served os path d"
    using request_read [OF assms(1-3), of os] p code by auto
  obtain st where "os_stat os (request_file path) = Some st" using file_code_cases(2) code by (metis option.exhaust)
  then have z: "st_size (m_file_stat d) = 0" using d(3) p(3) code by (simp add: served_def file_size_def)
  have h: "holds d []" "m_sockfd d \<noteq> - 1" using d(1) assms(4,5) by (simp_all add: kept_def holds_def)
  show ?thesis using http_empty_file_unanswered [OF h(1) z h(2) d(2)] d(1) by (auto simp: dropped_def kept_def)
qed

text \<open>C5: A request that arrived as a whole is answered, unless it is for an empty file.  The text is a
  request line and header lines without a Content-Length, each ended by CR LF, and an empty line; the
  connection is open and as init left it.  Then process puts one answer into the write buffer, and nothing else: 400 if
  the line is not a request the reference function accepts, otherwise the answer that belongs to the
  file of the path (200, 400, 403 or 404), which says keep-alive exactly if a Connection header asked
  for it; writev will send that text, and for a file after it the mapped file; the descriptor stays
  open and its events are those for writing.  The length a 200 announces is that of the file
  converted to int (the length itself when it fits).  A request for an empty file gets no answer:
  the connection is closed and the events of descriptor -1 are modified.\<close>

theorem http_request_answered:
  assumes "fresh c (l @ crlf @ header_text hs)" "plain l" "\<forall>h \<in> set hs. simple_header h"
    and "holds c []" "length (m_iv c) = 2" "m_sockfd c \<noteq> - 1"
  shows "\<exists>f. process os c = Some f \<and> (case request_path l of
      None \<Rightarrow> ready c f (answer_text BAD_REQUEST 0 False) []
    | Some path \<Rightarrow>
        (if request_code os l = FILE_REQUEST \<and> file_size os path = 0 then dropped c f
         else ready c f (answer_text (request_code os l) (to_int (file_size os path)) (\<exists>h \<in> set hs. wants_keep_alive h))
           (if request_code os l = FILE_REQUEST
            then [(File_address (os_mmap os (os_open os (request_file path)) (file_size os path)), file_size os path)] else [])))"
proof (cases "sendable os l")
  case True
  from request_answered [OF assms(1-5) True] True show ?thesis
    by (auto simp: http_answer_def sendable_def split: option.splits)
next
  case False
  from request_dropped [OF assms(1-4,6) False] False show ?thesis
    by (auto simp: sendable_def split: option.splits)
qed

theorem http_request_answered_witness:
  "\<exists>f. process sample_os (conn_after (''GET /../../../etc/passwd HTTP/1.1'' @ crlf @ ''Connection: Keep-Alive'' @ crlf @ crlf)) = Some f
     \<and> ready (conn_after '''') f (''HTTP/1.1 200 OK'' @ crlf @ ''Content-Length: 7'' @ crlf @ ''Connection: keep-alive'' @ crlf @ crlf)
         [(File_address 4096, 7)]"
proof -
  let ?l = "''GET /../../../etc/passwd HTTP/1.1''" and ?h = "''Connection: Keep-Alive''"
  let ?s = "?l @ crlf @ header_text [?h]"
  have s: "?s = ?l @ crlf @ ?h @ crlf @ crlf" by (simp add: header_text_def)
  have fr: "fresh (conn_after ?s) ?s" by (rule fresh_conn_after) (simp add: header_text_def READ_BUFFER_SIZE_def)
  have p: "plain ?l" by (simp add: plain_def)
  have h: "\<forall>h \<in> set [?h]. simple_header h" by (simp add: simple_header_def plain_def strncase_eq_def tolower_def)
  have rp: "request_path ?l = Some ''/../../../etc/passwd''" by code_simp
  have k: "wants_keep_alive ?h" by code_simp
  have c: "request_code sample_os ?l = FILE_REQUEST" "file_size sample_os ''/../../../etc/passwd'' = 7" by code_simp+
  have o: "length (m_iv (conn_after ?s)) = 2" "m_sockfd (conn_after ?s) \<noteq> - 1" by (simp_all add: conn_after_def)
  have m: "os_mmap sample_os d n = 4096" for d n by (simp add: sample_os_def)
  have t: "answer_text FILE_REQUEST (to_int 7) True
    = ''HTTP/1.1 200 OK'' @ crlf @ ''Content-Length: 7'' @ crlf @ ''Connection: keep-alive'' @ crlf @ crlf" by code_simp
  have r: "ready (conn_after ?s) = ready (conn_after '''')" by (simp add: ready_def same_conn_def conn_after_def fun_eq_iff)
  have kk: "(\<exists>h \<in> set [?h]. wants_keep_alive h) = True" using k by (simp del: set_simps) simp
  have n: "((7::int) = 0) = False" by simp
  show ?thesis
    using http_request_answered [OF fr p h conn_after_holds o, of sample_os] unfolding r unfolding s rp option.case c n m kk t if_True if_False simp_thms .
qed

end
