(* ===== verification/WebServer_Serve.thy ===== *)
theory WebServer_Serve
  imports WebServer_Props HttpConn_Serve
begin

text \<open>
  The web server of \<open>epoll/webserver.cpp\<close> as a whole: a client connects, sends its request and gets
  its answer.  The event loop accepts and reads, a worker of the pool parses and answers, the event
  loop writes; the timer of the connection goes along.
\<close>

subsection \<open>What the handlers leave alone\<close>

definition same_server :: "'a web_server \<Rightarrow> 'a web_server \<Rightarrow> bool" where
  "same_server s s' \<longleftrightarrow> listenfd s' = listenfd s \<and> sig_pipefd0 s' = sig_pipefd0 s \<and> timeout s' = timeout s
     \<and> static_epollfd s' = static_epollfd s \<and> stop_server s' = stop_server s"

lemma same_server_trans: "same_server a b \<Longrightarrow> same_server b c \<Longrightarrow> same_server a c"
  by (simp add: same_server_def)

lemma put_user_same [simp]:
  "same_server s (put_user fd c s)" "same_server s (pool_append fd s)" "same_server s (s\<lparr>wheel_heap := h, m_pTwPtr := w\<rparr>)"
  "same_server s (s\<lparr>pool_queue := q\<rparr>)" "same_server s (cb_func d s)"
  by (simp_all add: same_server_def put_user_def pool_append_def cb_func_def ws_sys_def)

lemma drop_timer_same: "drop_timer fd s = Some s' \<Longrightarrow> same_server s s'"
  by (auto simp: drop_timer_def Let_def same_server_def put_user_def cb_func_def ws_sys_def
      split: if_splits bind_splits)

lemma close_user_same: "close_user fd s = Some s' \<Longrightarrow> same_server s s'"
  by (auto simp: close_user_def split: bind_splits)

lemma on_readable_same: "on_readable a fd s = Some s' \<Longrightarrow> same_server s s'"
  by (auto simp: on_readable_def Let_def same_server_def put_user_def pool_append_def
      split: if_splits bind_splits dest!: drop_timer_same close_user_same)

subsection \<open>Reading\<close>

lemma fresh_cong:
  assumes "m_read_buf c = m_read_buf d" "m_read_idx c = m_read_idx d" "m_checked_idx c = m_checked_idx d"
    "m_start_line c = m_start_line d" "m_url c = m_url d" "m_real_file c = m_real_file d"
    "m_check_state c = m_check_state d" "m_method c = m_method d" "m_content_length c = m_content_length d"
    "m_linger c = m_linger d"
  shows "fresh c t = fresh d t"
  using assms by (simp add: fresh_def conn_at_def url_ok_def)

lemma http_read_once:
  assumes "m_read_idx c = 0" "t \<noteq> []" "length t < READ_BUFFER_SIZE"
  shows "http_read [Received t, Recv_again] c = Some (True, receive t c)"
  using assms receive_step [of t c "[Recv_again]"] by (simp add: http_read_def READ_BUFFER_SIZE_def)

text \<open>A connection that waits for a request, and the same connection when the request has arrived.\<close>

definition waiting :: "'a http_conn \<Rightarrow> bool" where
  "waiting c \<longleftrightarrow> fresh c [] \<and> holds c [] \<and> length (m_iv c) = 2"

lemma waiting_init: "length (m_iv c) = 2 \<Longrightarrow> waiting (setTimer z (init os fd addr c))"
  by (simp add: waiting_def fresh_def conn_at_def url_ok_def holds_def setTimer_def init_def init_request_def addfd_def
      setnonblocking_def sys_def Let_def FILENAME_LEN_def READ_BUFFER_SIZE_def WRITE_BUFFER_SIZE_def)

lemma fresh_receive:
  assumes "fresh c []" "length t < READ_BUFFER_SIZE"
  shows "fresh (receive t c) t"
  using assms by (simp add: fresh_def conn_at_def receive_def url_ok_def nth_append)

lemma waiting_cong:
  "waiting (c\<lparr>m_epollfd := e, m_user_count := n, sys_calls := tr\<rparr>) = waiting c"
  by (simp add: waiting_def fresh_def conn_at_def url_ok_def holds_def)

lemma request_received:
  assumes "waiting c" "length t < READ_BUFFER_SIZE"
  shows "fresh (receive t c) t" "holds (receive t c) []" "length (m_iv (receive t c)) = 2" "same_conn c (receive t c)"
    "sys_calls (receive t c) = sys_calls c"
  using assms fresh_receive by (auto simp: waiting_def holds_def receive_def same_conn_def)

subsection \<open>Writing\<close>

lemma answer_done_conn:
  assumes "http_answer_done c = (ok, c')"
  shows "ok = m_linger c" "same_conn c c'" "ok \<Longrightarrow> length (m_iv c) = 2 \<Longrightarrow> waiting c'"
    "\<exists>tr. sys_calls c' = tr @ sys_calls c"
    "hd (sys_calls c') = Epoll_mod (m_epollfd c) (m_sockfd c) [EPOLLIN, EPOLLET, EPOLLONESHOT, EPOLLRDHUP]"
  using assms
  by (auto simp: http_answer_done_def Let_def unmap_def same_conn_def modfd_def init_request_def sys_def waiting_def fresh_def
      conn_at_def url_ok_def holds_def FILENAME_LEN_def READ_BUFFER_SIZE_def split: if_splits)

lemma write_run:
  assumes I: "ws_inv s L" and c: "user_at fd s = Some c" and w: "http_write (an_writev a) c = Some (ok, c')"
    and o: "same_conn c c'" and m: "(m_pTimer (users s fd), n, Some d) \<in> timers s L" and k: "m_sockfd (users s fd) \<noteq> - 1"
  shows "\<exists>s' L'. on_writable a fd s = Some s' \<and> ws_inv s' L' \<and>
    (if ok then timers s' L' = timers s L \<and> users s' fd = c' \<and> ws_trace s' = sys_calls c'
       \<and> static_user_count s' = static_user_count s
     else timers s' L' = {e \<in> timers s L. fst e \<noteq> m_pTimer (users s fd)}
       \<and> m_pTimer (users s' fd) = NULL \<and> m_sockfd (users s' fd) = - 1
       \<and> ws_trace s' = [Close (m_sockfd (users s fd)), Epoll_del (static_epollfd s) (m_sockfd (users s fd))] @ closes d @ sys_calls c'
       \<and> static_user_count s' = static_user_count s - 1)"
proof -
  have fd: "0 \<le> fd" "fd < MAX_FD" "c = (users s fd)\<lparr>m_epollfd := static_epollfd s,
     m_user_count := static_user_count s, sys_calls := ws_trace s\<rparr>"
    using c by (simp_all add: user_at_def split: if_splits)
  have c': "m_epollfd c' = static_epollfd s" "m_user_count c' = static_user_count s"
    "m_pTimer c' = m_pTimer (users s fd)" "m_sockfd c' = m_sockfd (users s fd)"
    using o by (simp_all add: same_conn_def fd(3))
  let ?s1 = "put_user fd c' s"
  have s1: "wheel_heap ?s1 = wheel_heap s" "m_pTwPtr ?s1 = m_pTwPtr s" "static_epollfd ?s1 = static_epollfd s"
    "users ?s1 fd = c'" "ws_trace ?s1 = sys_calls c'" "static_user_count ?s1 = static_user_count s"
    using c' by (simp_all add: put_user_def)
  have i1: "ws_inv ?s1 L" "timers ?s1 L = timers s L"
    using I ws_inv_cong [OF s1(1-3)] timers_cong [OF s1(2)] by blast+
  show ?thesis
  proof (cases ok)
    case True
    then have "on_writable a fd s = Some ?s1" by (simp add: on_writable_def c w)
    then show ?thesis using i1 s1 True by (intro exI [of _ ?s1] exI [of _ L]) simp
  next
    case False
    obtain s2 s' L' where 2: "drop_timer fd ?s1 = Some s2" "close_user fd s2 = Some s'" "ws_inv s' L'"
      "timers s' L' = {e \<in> timers ?s1 L. fst e \<noteq> m_pTimer (users s fd)}"
      "ws_trace s' = [Close (m_sockfd (users ?s1 fd)), Epoll_del (static_epollfd ?s1) (m_sockfd (users ?s1 fd))] @ closes d @ ws_trace ?s1"
      "m_pTimer (users s' fd) = NULL" "m_sockfd (users s' fd) = - 1" "static_user_count s' = static_user_count ?s1 - 1"
      using drop_run [OF i1(1) fd(1,2), of "m_pTimer (users s fd)" n d] m i1(2) c'(3,4) k s1(4) by auto
    have "on_writable a fd s = Some s'" using 2(1,2) by (simp add: on_writable_def c w False)
    then show ?thesis using 2(3-8) s1 c'(4) i1(2) False by (intro exI [of _ s'] exI [of _ L']) simp
  qed
qed

subsection \<open>One request\<close>

text \<open>What \<open>writev\<close> is given: bytes of the write buffer and mapped files.\<close>

datatype part = Text string | Mapped int int

definition outgoing :: "'a http_conn \<Rightarrow> part list" where
  "outgoing c = map (\<lambda>(b, n). case b of Write_buf \<Rightarrow> Text (take (nat n) (m_write_buf c)) | File_address a \<Rightarrow> Mapped a n)
     (take (nat (m_iv_count c)) (m_iv c))"

definition answer_parts :: "string \<times> (iov_base \<times> int) list \<Rightarrow> part list" where
  "answer_parts a = Text (fst a)
     # map (\<lambda>(b, n). case b of Write_buf \<Rightarrow> Text (take (nat n) (fst a)) | File_address a \<Rightarrow> Mapped a n) (snd a)"

lemma outgoing_ready:
  assumes "ready c f (fst (http_answer os l hs)) (snd (http_answer os l hs))"
  shows "outgoing f = answer_parts (http_answer os l hs)"
    "m_write_idx f = int (length (fst (http_answer os l hs)))"
  using assms
  by (auto simp: ready_def outgoing_def answer_parts_def holds_def http_answer_def split: option.splits)

lemma answer_not_empty: "fst (http_answer os l hs) \<noteq> []"
  by (auto simp: http_answer_def answer_text_def status_line_def split: option.splits)

text \<open>A request, the alarms before it, and what the system answers while it is served.\<close>

record 'a client_request =
  rq_line :: string
  rq_headers :: "string list"
  rq_alarms :: nat
  rq_os :: http_os
  rq_read :: "'a ws_answers"
  rq_write :: "'a ws_answers"

definition request_text :: "'a client_request \<Rightarrow> string" where
  "request_text r = rq_line r @ crlf @ header_text (rq_headers r)"

definition request_answer :: "'a client_request \<Rightarrow> string \<times> (iov_base \<times> int) list" where
  "request_answer r = http_answer (rq_os r) (rq_line r) (rq_headers r)"

definition stays :: "'a client_request \<Rightarrow> bool" where
  "stays r \<longleftrightarrow> keeps (rq_line r) (rq_headers r)"

definition good_request :: "'a client_request \<Rightarrow> bool" where
  "good_request r \<longleftrightarrow> plain (rq_line r) \<and> (\<forall>h \<in> set (rq_headers r). simple_header h)
     \<and> length (request_text r) < READ_BUFFER_SIZE \<and> sendable (rq_os r) (rq_line r) \<and> rq_alarms r \<le> 5
     \<and> an_recv (rq_read r) = [Received (request_text r), Recv_again]
     \<and> (case an_writev (rq_write r) of Sent k # _ \<Rightarrow> int (length (fst (request_answer r))) \<le> 2 * int k | _ \<Rightarrow> False)"

definition readable :: "int \<Rightarrow> epoll_event" where "readable fd = \<lparr>ev_fd = fd, ev_events = [EPOLLIN]\<rparr>"
definition writable :: "int \<Rightarrow> epoll_event" where "writable fd = \<lparr>ev_fd = fd, ev_events = [EPOLLOUT]\<rparr>"

text \<open>
  What the client receives of an answer of which \<open>writev\<close> takes \<open>k\<close> bytes: the text of the buffer and
  then the bytes of the files, cut off after \<open>k\<close>.
\<close>

fun take_parts :: "nat \<Rightarrow> part list \<Rightarrow> part list" where
  "take_parts k [] = []"
| "take_parts k (Text t # ps) = Text (take k t) # take_parts (k - length t) ps"
| "take_parts k (Mapped a n # ps) = Mapped a (min n (int k)) # take_parts (k - nat n) ps"

fun part_size :: "part \<Rightarrow> nat" where
  "part_size (Text t) = length t"
| "part_size (Mapped a n) = nat n"

lemma take_parts_all: "(\<Sum>p \<leftarrow> ps. part_size p) \<le> k \<Longrightarrow> take_parts k ps = ps"
  by (induction k ps rule: take_parts.induct) auto

definition taken :: "'a client_request \<Rightarrow> nat" where
  "taken r = (case an_writev (rq_write r) of Sent k # _ \<Rightarrow> k | _ \<Rightarrow> 0)"

definition answer_received :: "'a client_request \<Rightarrow> part list" where
  "answer_received r = take_parts (taken r) (answer_parts (request_answer r))"

text \<open>The alarms, the event for the request, a worker, the event for the answer.\<close>

definition ws_request :: "'a ws_answers \<Rightarrow> int \<Rightarrow> 'a client_request \<Rightarrow> 'a web_server \<Rightarrow> (part list \<times> 'a web_server) option" where
  "ws_request b fd r s = do {
     s \<leftarrow> handle_events (alarms (rq_alarms r) b s) s;
     s \<leftarrow> handle_event (rq_read r) (readable fd) s;
     s \<leftarrow> worker_process (rq_os r) s;
     let out = take_parts (taken r) (outgoing (users s fd));
     s \<leftarrow> handle_event (rq_write r) (writable fd) s;
     Some (out, s) }"

text \<open>The server while the client of \<open>fd\<close> has no request under way.\<close>

definition session :: "'a web_server \<Rightarrow> ws_slots \<Rightarrow> int \<Rightarrow> ptr \<Rightarrow> client_data \<Rightarrow> bool" where
  "session s L fd z d \<longleftrightarrow> ws_inv s L \<and> (z, 5, Some d) \<in> timers s L \<and> waiting (users s fd)
     \<and> m_sockfd (users s fd) = fd \<and> m_pTimer (users s fd) = z \<and> pool_queue s = [] \<and> \<not> timeout s
     \<and> 0 \<le> fd \<and> fd < MAX_FD \<and> fd \<noteq> listenfd s \<and> fd \<noteq> sig_pipefd0 s \<and> listenfd s \<noteq> sig_pipefd0 s"

lemma event_readable:
  assumes "on_readable a fd s = Some s'" "\<not> timeout s" "fd \<noteq> listenfd s" "fd \<noteq> sig_pipefd0 s"
  shows "handle_event a (readable fd) s = Some s'"
  using assms on_readable_same [OF assms(1)]
  by (simp add: handle_event_def dispatch_def readable_def same_server_def)

lemma on_writable_same: "on_writable a fd s = Some s' \<Longrightarrow> same_server s s'"
  by (auto simp: on_writable_def Let_def same_server_def put_user_def
      split: if_splits bind_splits dest!: drop_timer_same close_user_same)

lemma event_writable:
  assumes "on_writable a fd s = Some s'" "\<not> timeout s" "fd \<noteq> listenfd s" "fd \<noteq> sig_pipefd0 s"
  shows "handle_event a (writable fd) s = Some s'"
  using assms on_writable_same [OF assms(1)]
  by (simp add: handle_event_def dispatch_def writable_def same_server_def)

text \<open>The three stages of a request: the event loop reads, a worker answers, the event loop writes.\<close>

definition talks :: "'a web_server \<Rightarrow> ws_slots \<Rightarrow> int \<Rightarrow> ptr \<Rightarrow> client_data \<Rightarrow> bool" where
  "talks s L fd z d \<longleftrightarrow> ws_inv s L \<and> (\<exists>n. (z, n, Some d) \<in> timers s L)
     \<and> m_sockfd (users s fd) = fd \<and> m_pTimer (users s fd) = z \<and> \<not> timeout s
     \<and> 0 \<le> fd \<and> fd < MAX_FD \<and> fd \<noteq> listenfd s \<and> fd \<noteq> sig_pipefd0 s \<and> listenfd s \<noteq> sig_pipefd0 s"

lemma stage_read:
  assumes t: "talks s L fd z d" and w: "waiting (users s fd)" and q: "pool_queue s = []" and r: "good_request r"
  shows "\<exists>s' L'. handle_event (rq_read r) (readable fd) s = Some s' \<and> talks s' L' fd z d \<and> pool_queue s' = [fd]
    \<and> (z, 5, Some d) \<in> timers s' L' \<and> static_user_count s' = static_user_count s
    \<and> m_epollfd (users s' fd) = static_epollfd s' \<and> m_user_count (users s' fd) = static_user_count s'
    \<and> fresh (users s' fd) (request_text r) \<and> holds (users s' fd) [] \<and> length (m_iv (users s' fd)) = 2"
proof -
  note T = t [unfolded talks_def]
  let ?c = "(users s fd)\<lparr>m_epollfd := static_epollfd s, m_user_count := static_user_count s, sys_calls := ws_trace s\<rparr>"
  have c: "user_at fd s = Some ?c" using T by (simp add: user_at_in)
  have wc: "waiting ?c" using w by (simp add: waiting_cong)
  have len: "length (request_text r) < READ_BUFFER_SIZE" "request_text r \<noteq> []"
    using r by (auto simp: good_request_def request_text_def)
  have z: "m_read_idx ?c = 0" using w by (simp add: waiting_def fresh_def conn_at_def)
  have a: "an_recv (rq_read r) = [Received (request_text r), Recv_again]" using r by (simp add: good_request_def)
  have h: "http_read (an_recv (rq_read r)) ?c = Some (True, receive (request_text r) ?c)"
    unfolding a by (rule http_read_once [OF z len(2,1)])
  note f = request_received [OF wc len(1)]
  obtain n where n: "(m_pTimer (users s fd), n, Some d) \<in> timers s L" using T by auto
  have "fd \<noteq> - 1" using T by simp
  then have k: "m_sockfd (users s fd) \<noteq> - 1" "length (pool_queue s) \<le> 10000" using T q by simp_all
  obtain s' L' where 1: "on_readable (rq_read r) fd s = Some s'" "ws_inv s' L'"
    "timers s' L' = insert (z, 5, Some d) {e \<in> timers s L. fst e \<noteq> z}" "pool_queue s' = [fd]"
    "users s' fd = receive (request_text r) ?c" "static_user_count s' = static_user_count s"
    using ws_read_activity [OF _ c h n k] T q by auto
  have s: "same_server s s'" by (rule on_readable_same [OF 1(1)])
  have "handle_event (rq_read r) (readable fd) s = Some s'" using event_readable [OF 1(1)] T by simp
  moreover have "talks s' L' fd z d"
    using 1(2,3,5) T s f(4) by (auto simp: talks_def same_server_def same_conn_def)
  ultimately show ?thesis using 1 f s by (auto simp: same_conn_def same_server_def)
qed

lemma stage_worker:
  assumes t: "talks s L fd z d" and q: "pool_queue s = [fd]" and r: "good_request r"
    and e: "m_epollfd (users s fd) = static_epollfd s" "m_user_count (users s fd) = static_user_count s"
    and c: "fresh (users s fd) (request_text r)" "holds (users s fd) []" "length (m_iv (users s fd)) = 2"
  shows "\<exists>s'. worker_process (rq_os r) s = Some s' \<and> talks s' L fd z d \<and> pool_queue s' = []
    \<and> timers s' L = timers s L \<and> static_user_count s' = static_user_count s
    \<and> ready (users s fd) (users s' fd) (fst (request_answer r)) (snd (request_answer r))
    \<and> m_linger (users s' fd) = stays r \<and> ws_trace s' = sys_calls (users s' fd)"
proof -
  note T = t [unfolded talks_def]
  let ?c = "(users s fd)\<lparr>m_epollfd := static_epollfd s, m_user_count := static_user_count s, sys_calls := ws_trace s\<rparr>"
  have at: "user_at fd s = Some ?c" using T by (simp add: user_at_in)
  have "fresh ?c (rq_line r @ crlf @ header_text (rq_headers r))"
    using c(1) unfolding request_text_def by (rule fresh_cong [THEN iffD2, rotated -1]) simp_all
  moreover have "holds ?c []" "length (m_iv ?c) = 2" using c(2,3) by (simp_all add: holds_def)
  moreover have "plain (rq_line r)" "\<forall>h \<in> set (rq_headers r). simple_header h" "sendable (rq_os r) (rq_line r)"
    using r by (simp_all add: good_request_def)
  ultimately obtain f where f: "process (rq_os r) ?c = Some f"
    "ready ?c f (fst (request_answer r)) (snd (request_answer r))" "m_linger f = stays r"
    using request_answered unfolding request_answer_def stays_def by blast
  let ?s = "put_user fd f (s\<lparr>pool_queue := []\<rparr>)"
  have w: "worker_process (rq_os r) s = Some ?s" by (simp add: worker_process_def q at f(1))
  have sc: "m_sockfd f = fd" "m_pTimer f = z" "m_user_count f = static_user_count s"
    using f(2) T by (simp_all add: ready_def same_conn_def)
  have "wheel_heap ?s = wheel_heap s" "m_pTwPtr ?s = m_pTwPtr s" "static_epollfd ?s = static_epollfd s"
    by (simp_all add: put_user_def)
  then have i: "ws_inv ?s L" "timers ?s L = timers s L" using ws_inv_cong timers_cong T by blast+
  have "talks ?s L fd z d" using i T sc by (auto simp: talks_def put_user_def)
  moreover have "ready (users s fd) f (fst (request_answer r)) (snd (request_answer r))"
    using f(2) e by (simp add: ready_def same_conn_def)
  ultimately show ?thesis using w i(2) sc(3) f(3) by (intro exI [of _ ?s]) (simp add: put_user_def)
qed

lemma on_writable_queue: "on_writable a fd s = Some s' \<Longrightarrow> pool_queue s' = pool_queue s"
  by (auto simp: on_writable_def drop_timer_def close_user_def Let_def put_user_def cb_func_def ws_sys_def
      split: if_splits bind_splits)

lemma stage_write:
  assumes t: "talks s L fd z d" and r: "good_request r" and y: "m_linger (users s fd) = stays r"
    and a: "ready c (users s fd) (fst (request_answer r)) (snd (request_answer r))" "length (m_iv c) = 2"
  shows "\<exists>s' L'. handle_event (rq_write r) (writable fd) s = Some s' \<and> pool_queue s' = pool_queue s \<and>
    (if stays r then talks s' L' fd z d \<and> timers s' L' = timers s L \<and> waiting (users s' fd)
       \<and> static_user_count s' = static_user_count s
     else ws_inv s' L' \<and> timers s' L' = {e \<in> timers s L. fst e \<noteq> z} \<and> m_sockfd (users s' fd) = - 1
       \<and> m_pTimer (users s' fd) = NULL \<and> static_user_count s' = static_user_count s - 1
       \<and> Close fd \<in> set (ws_trace s'))"
proof -
  note T = t [unfolded talks_def]
  let ?c = "(users s fd)\<lparr>m_epollfd := static_epollfd s, m_user_count := static_user_count s, sys_calls := ws_trace s\<rparr>"
  have c: "user_at fd s = Some ?c" using T by (simp add: user_at_in)
  obtain k rs where k: "an_writev (rq_write r) = Sent k # rs" "int (length (fst (request_answer r))) \<le> 2 * int k"
    using r unfolding good_request_def by (auto split: list.splits send_result.splits)
  have idx: "m_write_idx ?c = int (length (fst (request_answer r)))" "fst (request_answer r) \<noteq> []"
    using outgoing_ready(2) a(1) answer_not_empty unfolding request_answer_def by auto
  let ?w = "sys (Writev (m_sockfd ?c) k) ?c"
  obtain ok c' where d: "http_answer_done ?w = (ok, c')" by fastforce
  have "write_loop (Sent k # rs) (m_write_idx ?c) 0 ?c = Some (http_answer_done ?w)"
    by (rule write_loop_done) (use k(2) idx(1) in simp)
  then have w: "http_write (an_writev (rq_write r)) ?c = Some (ok, c')"
    using k(1) idx d by (simp add: http_write_def Let_def del: write_loop.simps)
  note D = answer_done_conn [OF d]
  have ok: "ok = stays r" using D(1) y by simp
  have sc: "same_conn ?c c'" using D(2) by (simp add: same_conn_def sys_def)
  have wt: "stays r \<Longrightarrow> waiting c'" using D(3) ok a by (simp add: ready_def sys_def)
  obtain n where n: "(m_pTimer (users s fd), n, Some d) \<in> timers s L" using T by auto
  have "m_sockfd (users s fd) \<noteq> - 1" using T by simp
  from write_run [OF _ c w sc n this] T obtain s' L' where 1: "on_writable (rq_write r) fd s = Some s'" "ws_inv s' L'"
    "if ok then timers s' L' = timers s L \<and> users s' fd = c' \<and> ws_trace s' = sys_calls c'
       \<and> static_user_count s' = static_user_count s
     else timers s' L' = {e \<in> timers s L. fst e \<noteq> z}
       \<and> m_pTimer (users s' fd) = NULL \<and> m_sockfd (users s' fd) = - 1
       \<and> ws_trace s' = [Close fd, Epoll_del (static_epollfd s) fd] @ closes d @ sys_calls c'
       \<and> static_user_count s' = static_user_count s - 1" by auto
  have s: "same_server s s'" "pool_queue s' = pool_queue s"
    by (rule on_writable_same [OF 1(1)], rule on_writable_queue [OF 1(1)])
  have h: "handle_event (rq_write r) (writable fd) s = Some s'" using event_writable [OF 1(1)] T by simp
  show ?thesis
  proof (cases "stays r")
    case True
    then have "talks s' L' fd z d" using 1(2,3) T s(1) sc n ok by (auto simp: talks_def same_server_def same_conn_def)
    then show ?thesis using True h s(2) 1(3) ok wt by (intro exI [of _ s'] exI [of _ L']) simp
  next
    case False
    then show ?thesis using h s(2) 1(2,3) ok by (intro exI [of _ s'] exI [of _ L']) simp
  qed
qed

lemma session_talks:
  "session s L fd z d \<longleftrightarrow> talks s L fd z d \<and> (z, 5, Some d) \<in> timers s L \<and> waiting (users s fd) \<and> pool_queue s = []"
  unfolding session_def talks_def by blast

text \<open>The alarms before the request, at most five: the timer of the connection does not end.\<close>

lemma stage_alarms:
  assumes "session s L fd z d" "alarm_answers b" "j \<le> 5"
  shows "\<exists>s' L'. handle_events (alarms j b s) s = Some s' \<and> talks s' L' fd z d \<and> waiting (users s' fd) \<and> pool_queue s' = []
    \<and> static_user_count s' = static_user_count s"
proof -
  note S = assms(1) [unfolded session_def]
  obtain s' L' where 1: "handle_events (alarms j b s) s = Some s'" "ws_inv s' L'"
    "timers s' L' = {(p, n - int j, u) | p n u. (p, n, u) \<in> timers s L \<and> int j \<le> n}"
    "0 < j \<or> \<not> timeout s \<longrightarrow> \<not> timeout s'"
    "s' = s\<lparr>wheel_heap := wheel_heap s', m_pTwPtr := m_pTwPtr s', timeout := timeout s', ws_trace := ws_trace s'\<rparr>"
    using alarms_run [of s L b j] S assms(2) by blast
  have u: "users s' = users s" "pool_queue s' = pool_queue s" "listenfd s' = listenfd s" "sig_pipefd0 s' = sig_pipefd0 s"
    "static_user_count s' = static_user_count s"
    by (subst 1(5), simp)+
  have "(z, 5 - int j, Some d) \<in> timers s' L'" unfolding 1(3) using S assms(3) by auto
  then have "talks s' L' fd z d" using 1(2,4) S u by (auto simp: talks_def)
  then show ?thesis using 1(1) u S by (intro exI [of _ s'] exI [of _ L']) simp
qed

text \<open>The end of a request: the connection waits for the next one, or it is closed.\<close>

definition request_done :: "bool \<Rightarrow> int \<Rightarrow> 'a web_server \<Rightarrow> ws_slots \<Rightarrow> int \<Rightarrow> ptr \<Rightarrow> client_data \<Rightarrow> bool" where
  "request_done keep n s L fd z d \<longleftrightarrow> (if keep then session s L fd z d \<and> static_user_count s = n
     else ws_inv s L \<and> m_sockfd (users s fd) = - 1 \<and> m_pTimer (users s fd) = NULL
       \<and> static_user_count s = n - 1 \<and> Close fd \<in> set (ws_trace s) \<and> (\<forall>e \<in> timers s L. fst e \<noteq> z))"

lemma ws_request_run:
  assumes s: "session s L fd z d" and b: "alarm_answers b" and r: "good_request r"
  shows "\<exists>s' L'. ws_request b fd r s = Some (answer_received r, s')
    \<and> request_done (stays r) (static_user_count s) s' L' fd z d"
proof -
  have j: "rq_alarms r \<le> 5" using r by (simp add: good_request_def)
  obtain s1 L1 where 1: "handle_events (alarms (rq_alarms r) b s) s = Some s1" "talks s1 L1 fd z d" "waiting (users s1 fd)"
    "pool_queue s1 = []" "static_user_count s1 = static_user_count s"
    using stage_alarms [OF s b j] by blast
  obtain s2 L2 where 2: "handle_event (rq_read r) (readable fd) s1 = Some s2" "talks s2 L2 fd z d" "pool_queue s2 = [fd]"
    "(z, 5, Some d) \<in> timers s2 L2" "static_user_count s2 = static_user_count s1"
    "m_epollfd (users s2 fd) = static_epollfd s2" "m_user_count (users s2 fd) = static_user_count s2"
    "fresh (users s2 fd) (request_text r)" "holds (users s2 fd) []" "length (m_iv (users s2 fd)) = 2"
    using stage_read [OF 1(2-4) r] by blast
  obtain s3 where 3: "worker_process (rq_os r) s2 = Some s3" "talks s3 L2 fd z d" "pool_queue s3 = []"
    "timers s3 L2 = timers s2 L2" "static_user_count s3 = static_user_count s2"
    "ready (users s2 fd) (users s3 fd) (fst (request_answer r)) (snd (request_answer r))" "m_linger (users s3 fd) = stays r"
    using stage_worker [OF 2(2,3) r 2(6-10)] by blast
  obtain s4 L4 where 4: "handle_event (rq_write r) (writable fd) s3 = Some s4" "pool_queue s4 = pool_queue s3"
    "if stays r then talks s4 L4 fd z d \<and> timers s4 L4 = timers s3 L2 \<and> waiting (users s4 fd)
       \<and> static_user_count s4 = static_user_count s3
     else ws_inv s4 L4 \<and> timers s4 L4 = {e \<in> timers s3 L2. fst e \<noteq> z} \<and> m_sockfd (users s4 fd) = - 1
       \<and> m_pTimer (users s4 fd) = NULL \<and> static_user_count s4 = static_user_count s3 - 1
       \<and> Close fd \<in> set (ws_trace s4)"
    using stage_write [OF 3(2) r 3(7,6) 2(10)] by blast
  have "outgoing (users s3 fd) = answer_parts (request_answer r)"
    using outgoing_ready(1) 3(6) unfolding request_answer_def by blast
  then have "ws_request b fd r s = Some (answer_received r, s4)"
    by (simp add: ws_request_def answer_received_def 1(1) 2(1) 3(1) 4(1))
  moreover have "request_done (stays r) (static_user_count s) s4 L4 fd z d"
    using 1(5) 2(4,5) 3(3-5) 4(2,3) by (auto simp: session_talks request_done_def)
  ultimately show ?thesis by blast
qed

subsection \<open>A client of the server\<close>

text \<open>A client connects and sends its requests; the result has what it receives for each.\<close>

fun ws_requests :: "'a ws_answers \<Rightarrow> int \<Rightarrow> 'a client_request list \<Rightarrow> 'a web_server \<Rightarrow> (part list list \<times> 'a web_server) option" where
  "ws_requests b fd [] s = Some ([], s)"
| "ws_requests b fd (r # rs) s = do {
     (p, s) \<leftarrow> ws_request b fd r s;
     (ps, s) \<leftarrow> ws_requests b fd rs s;
     Some (p # ps, s) }"

definition ws_client :: "'a ws_answers \<Rightarrow> 'a ws_answers \<Rightarrow> int \<Rightarrow> 'a client_request list \<Rightarrow> 'a web_server
    \<Rightarrow> (part list list \<times> 'a web_server) option" where
  "ws_client a b fd rs s = do { s \<leftarrow> handle_event a (accept_event s) s; ws_requests b fd rs s }"

lemma ws_requests_run:
  assumes "session s L fd z d" "alarm_answers b" "\<forall>r \<in> set rs. good_request r" "\<forall>r \<in> set (butlast rs). stays r"
  shows "\<exists>s' L'. ws_requests b fd rs s = Some (map answer_received rs, s')
    \<and> request_done (\<forall>r \<in> set rs. stays r) (static_user_count s) s' L' fd z d"
  using assms
proof (induction rs arbitrary: s L)
  case Nil
  then show ?case by (intro exI [of _ s] exI [of _ L]) (simp add: request_done_def)
next
  case (Cons r rs)
  have g: "good_request r" using Cons.prems(3) by simp
  obtain s1 L1 where 1: "ws_request b fd r s = Some (answer_received r, s1)"
    "request_done (stays r) (static_user_count s) s1 L1 fd z d"
    using ws_request_run [OF Cons.prems(1,2) g] by blast
  show ?case
  proof (cases "stays r")
    case True
    have p: "\<forall>q \<in> set rs. good_request q" "\<forall>q \<in> set (butlast rs). stays q"
      using Cons.prems(3,4) by (auto split: if_splits)
    have s: "session s1 L1 fd z d" "static_user_count s1 = static_user_count s" using 1(2) True by (simp_all add: request_done_def)
    obtain s' L' where "ws_requests b fd rs s1 = Some (map answer_received rs, s')"
      "request_done (\<forall>q \<in> set rs. stays q) (static_user_count s) s' L' fd z d"
      using Cons.IH [OF s(1) Cons.prems(2) p] unfolding s(2) by blast
    then show ?thesis using 1(1) True by (intro exI [of _ s'] exI [of _ L']) simp
  next
    case False
    then have "rs = []" using Cons.prems(4) by (cases rs) auto
    then show ?thesis using 1 False by (intro exI [of _ s1] exI [of _ L1]) simp
  qed
qed


definition sample_request :: "string list \<Rightarrow> unit client_request" where
  "sample_request hs = \<lparr>rq_line = ''GET /../../../etc/passwd HTTP/1.1'', rq_headers = hs, rq_alarms = 3, rq_os = sample_os,
     rq_read = (sample_accept 1)\<lparr>an_recv := [Received (''GET /../../../etc/passwd HTTP/1.1'' @ crlf @ header_text hs), Recv_again]\<rparr>,
     rq_write = (sample_accept 1)\<lparr>an_writev := [Sent 100]\<rparr>\<rparr>"

lemma sample_request_answer:
  "request_answer (sample_request []) = (''HTTP/1.1 200 OK'' @ crlf @ ''Content-Length: 7'' @ crlf @ ''Connection: close'' @ crlf @ crlf,
     [(File_address 4096, 7)])"
  "request_answer (sample_request [''Connection: Keep-Alive'']) = (''HTTP/1.1 200 OK'' @ crlf @ ''Content-Length: 7'' @ crlf
     @ ''Connection: keep-alive'' @ crlf @ crlf, [(File_address 4096, 7)])"
  by code_simp+

lemma sample_received:
  "answer_received (sample_request []) = answer_parts (request_answer (sample_request []))"
  "answer_received (sample_request [''Connection: Keep-Alive'']) = answer_parts (request_answer (sample_request [''Connection: Keep-Alive'']))"
  unfolding answer_received_def by (rule take_parts_all; code_simp)+


end
