(* ===== verification/ProcessUser.thy ===== *)
theory ProcessUser
  imports Posix
begin

text \<open>
  The connection of a worker process, \<open>epoll/processuser.cpp\<close>: it collects what it reads and
  writes it back when the descriptor is writable.  The operations act on the object and the trace.
  An operation is \<^const>\<open>None\<close> when it reads past the end of its buffer.
\<close>

subsection \<open>Definitions\<close>

record process_user =
  pu_listenfd :: int
  pu_efd :: int
  pu_fd :: int
  pu_pid :: int
  pu_address :: sockaddr_in
  pu_port :: int
  pu_ip :: string
  pu_readbuf :: string
  pu_writebuf :: string

text \<open>\<open>initSocket\<close>: the answers of \<open>socket\<close>, \<open>bind\<close> and \<open>listen\<close> are arguments.\<close>

definition pu_initSocket :: "int \<Rightarrow> int \<Rightarrow> int \<Rightarrow> process_user \<times> trace \<Rightarrow> int \<times> process_user \<times> trace" where
  "pu_initSocket sock bind_ret listen_ret s = (let (u, tr) = s; u = u\<lparr>pu_listenfd := sock\<rparr> in
     if sock = - 1 then (- 1, u, Print (''create tcp socket failed.'' @ [LF]) # tr)
     else (let tr = Print (''create tcp socket successed '' @ dec sock @ [LF]) # tr;
               tr = Bind sock 9191 # tr in
       if bind_ret \<noteq> 0 then (- 1, u, tr)
       else (let tr = Listen sock 8 # tr in
         if listen_ret \<noteq> 0 then (- 1, u, tr) else (sock, u, tr))))"

definition pu_init :: "int \<Rightarrow> int \<Rightarrow> int \<Rightarrow> sockaddr_in \<Rightarrow> process_user \<Rightarrow> process_user" where
  "pu_init efd fd pid addr u = u\<lparr>pu_efd := efd, pu_fd := fd, pu_pid := pid, pu_address := addr,
     pu_port := uint (sin_port addr), pu_ip := inet_ntoa (sin_addr addr)\<rparr>"

definition registerEvents :: "epoll_flag list \<Rightarrow> process_user \<times> trace \<Rightarrow> process_user \<times> trace" where
  "registerEvents events s = (let (u, tr) = s in (u, Epoll_mod (pu_efd u) (pu_fd u) events # tr))"

definition zero_address :: sockaddr_in where
  "zero_address = \<lparr>sin_addr = 0, sin_port = 0\<rparr>"

definition pu_clear :: "process_user \<Rightarrow> process_user" where
  "pu_clear u = u\<lparr>pu_listenfd := - 1, pu_efd := - 1, pu_fd := - 1, pu_pid := - 1, pu_port := 0,
     pu_ip := [], pu_readbuf := [], pu_writebuf := [], pu_address := zero_address\<rparr>"

definition readSocket :: "recv_result \<Rightarrow> process_user \<times> trace \<Rightarrow> (process_user \<times> trace) option" where
  "readSocket r s = (let (u, tr) = s in case r of
      Received x \<Rightarrow> do {
        szRecv \<leftarrow> read_string 4096 x;
        let u = u\<lparr>pu_readbuf := pu_readbuf u @ szRecv\<rparr>;
        let tr = Print ('' recv from  '' @ pu_ip u @ '' : '' @ szRecv @ [LF]) # tr;
        if szRecv = ''exit'' then
          Some (u, Print ('' client exit shutdowm write = '' @ pu_ip u @ [LF]) # Shutdown (pu_fd u) # tr)
        else do {
          let u = u\<lparr>pu_writebuf := pu_writebuf u @ pu_readbuf u, pu_readbuf := []\<rparr>;
          Some (registerEvents [EPOLLIN, EPOLLOUT] (u, tr)) } }
    | Recv_closed \<Rightarrow> Some (pu_clear u, Print ('' client disconnect '' @ pu_ip u @ [LF]) # tr)
    | _ \<Rightarrow> Some (u, tr))"

definition writeSocket :: "send_result \<Rightarrow> process_user \<times> trace \<Rightarrow> process_user \<times> trace" where
  "writeSocket r s = (let (u, tr) = s;
      msg = ''resp from '' @ pu_ip u @ '' '' @ pu_writebuf u;
      tr = Write (pu_fd u) msg # tr in
      case r of
        Sent n \<Rightarrow> if n = 0
          then registerEvents [EPOLLIN] (u, Print ('' send error ip= '' @ pu_ip u @ [LF]) # tr)
          else registerEvents [EPOLLIN] (u\<lparr>pu_writebuf := []\<rparr>, Print ('' len = '' @ dec (int n) @ [LF]) # tr)
      | _ \<Rightarrow> registerEvents [EPOLLIN] (u, Print ('' send error ip= '' @ pu_ip u @ [LF]) # tr))"

definition pu_process :: "recv_result \<Rightarrow> send_result \<Rightarrow> epoll_flag list \<Rightarrow> process_user \<times> trace
    \<Rightarrow> (process_user \<times> trace) option" where
  "pu_process r w events s = (if EPOLLIN \<in> set events then readSocket r s
     else if EPOLLOUT \<in> set events then Some (writeSocket w s) else Some s)"

subsection \<open>Echo\<close>

fun pu_reads :: "string list \<Rightarrow> process_user \<times> trace \<Rightarrow> (process_user \<times> trace) option" where
  "pu_reads [] s = Some s"
| "pu_reads (x # xs) s = do { s \<leftarrow> pu_process (Received x) Send_again [EPOLLIN] s; pu_reads xs s }"

lemma readSocket_plain:
  assumes "plain_text x"
  shows "\<exists>tr'. readSocket (Received x) (u, tr) =
    Some (u\<lparr>pu_writebuf := pu_writebuf u @ pu_readbuf u @ x, pu_readbuf := []\<rparr>, tr')"
  using assms unfolding plain_text_def
  by (simp add: readSocket_def read_string_text registerEvents_def)

lemma pu_reads_plain:
  "\<forall>x \<in> set xs. plain_text x \<Longrightarrow> pu_readbuf u = [] \<Longrightarrow>
   \<exists>tr'. pu_reads xs (u, tr) = Some (u\<lparr>pu_writebuf := pu_writebuf u @ concat xs\<rparr>, tr')"
proof (induction xs arbitrary: u tr)
  case (Cons x xs)
  have "plain_text x" using Cons.prems by simp
  from readSocket_plain [OF this, of u tr] obtain tr1 where
    1: "readSocket (Received x) (u, tr) = Some (u\<lparr>pu_writebuf := pu_writebuf u @ x\<rparr>, tr1)"
    using Cons.prems(2) by auto
  from Cons.IH [of "u\<lparr>pu_writebuf := pu_writebuf u @ x\<rparr>" tr1] Cons.prems 1
  show ?case by (simp add: pu_process_def)
qed simp

text \<open>A connection of a worker process echoes what it has read: after any number of texts, the next
  writable event writes them, joined in order behind the address of the client, in one call of
  write, after which nothing is left to write.\<close>

theorem pu_echo:
  assumes "\<forall>x \<in> set xs. plain_text x" and "pu_readbuf u = []" "pu_writebuf u = []" and "0 < n"
  shows "\<exists>tr1 u' tr2. pu_reads xs (u, tr) = Some (u\<lparr>pu_writebuf := concat xs\<rparr>, tr1)
    \<and> pu_process Recv_again (Sent n) [EPOLLOUT] (u\<lparr>pu_writebuf := concat xs\<rparr>, tr1) = Some (u', tr2 @ tr1)
    \<and> [e \<leftarrow> tr2. case e of Write _ _ \<Rightarrow> True | _ \<Rightarrow> False] = [Write (pu_fd u) (''resp from '' @ pu_ip u @ '' '' @ concat xs)]
    \<and> u' = u"
proof -
  from pu_reads_plain [OF assms(1,2), of tr] obtain tr1 where
    1: "pu_reads xs (u, tr) = Some (u\<lparr>pu_writebuf := concat xs\<rparr>, tr1)" using assms(3) by auto
  let ?tr2 = "[Epoll_mod (pu_efd u) (pu_fd u) [EPOLLIN], Print ('' len = '' @ dec (int n) @ [LF]),
      Write (pu_fd u) (''resp from '' @ pu_ip u @ '' '' @ concat xs)]"
  have "pu_process Recv_again (Sent n) [EPOLLOUT] (u\<lparr>pu_writebuf := concat xs\<rparr>, tr1) = Some (u, ?tr2 @ tr1)"
    using assms(3,4) by (cases u) (simp add: pu_process_def writeSocket_def registerEvents_def)
  moreover have "[e \<leftarrow> ?tr2. case e of Write _ _ \<Rightarrow> True | _ \<Rightarrow> False] = [Write (pu_fd u) (''resp from '' @ pu_ip u @ '' '' @ concat xs)]"
    by simp
  ultimately show ?thesis using 1 by blast
qed

definition sample_user :: process_user where
  "sample_user = pu_init 4 7 0 \<lparr>sin_addr = 0x7F000001, sin_port = 9000\<rparr> \<lparr>pu_listenfd = - 1, pu_efd = - 1,
     pu_fd = - 1, pu_pid = - 1, pu_address = zero_address, pu_port = 0, pu_ip = [], pu_readbuf = [], pu_writebuf = []\<rparr>"

theorem pu_echo_witness:
  "\<exists>tr1 tr2. pu_reads [''ab'', ''c''] (sample_user, []) = Some (sample_user\<lparr>pu_writebuf := ''abc''\<rparr>, tr1)
    \<and> pu_process Recv_again (Sent 20) [EPOLLOUT] (sample_user\<lparr>pu_writebuf := ''abc''\<rparr>, tr1) = Some (sample_user, tr2 @ tr1)"
proof -
  have "\<forall>x \<in> set [''ab'', ''c'']. plain_text x" by (simp add: plain_text_def)
  from pu_echo [OF this, of sample_user 20 "[]"] show ?thesis by (auto simp: sample_user_def pu_init_def)
qed

text \<open>What the echo loses: a read that fills the buffer with text runs past its end, a text with a
  NUL is cut there, a write that sends a part of the message counts as a complete one, and the end
  of the connection resets the object without closing the descriptor.\<close>

theorem pu_echo_failures:
  "(length x = 4096 \<and> NUL \<notin> set x \<longrightarrow> pu_process (Received x) w [EPOLLIN] (u, tr) = None)
   \<and> (plain_text t \<and> length (t @ NUL # y) < 4096 \<longrightarrow>
      pu_process (Received (t @ NUL # y)) w [EPOLLIN] (u, tr) = pu_process (Received t) w [EPOLLIN] (u, tr))
   \<and> (0 < n \<longrightarrow> (\<exists>tr'. pu_process r (Sent n) [EPOLLOUT] (u, tr) = Some (u\<lparr>pu_writebuf := []\<rparr>, tr')))
   \<and> pu_process Recv_closed w [EPOLLIN] (u, tr) =
      Some (pu_clear u, Print ('' client disconnect '' @ pu_ip u @ [LF]) # tr) \<and> pu_fd (pu_clear u) = - 1"
proof (intro conjI impI)
  show "pu_process (Received x) w [EPOLLIN] (u, tr) = None" if "length x = 4096 \<and> NUL \<notin> set x"
    using that by (simp add: pu_process_def readSocket_def read_string_full)
  show "pu_process (Received (t @ NUL # y)) w [EPOLLIN] (u, tr) = pu_process (Received t) w [EPOLLIN] (u, tr)"
    if p: "plain_text t \<and> length (t @ NUL # y) < 4096"
  proof -
    have "takeWhile (\<lambda>c. c \<noteq> NUL) (t @ NUL # y) = t"
      using p unfolding plain_text_def by (intro takeWhile_stop) auto
    then have "read_string 4096 (t @ NUL # y) = Some t" using p by (simp add: read_string_some)
    moreover have "read_string 4096 t = Some t" using p by (simp add: read_string_text plain_text_def)
    ultimately show ?thesis by (simp add: pu_process_def readSocket_def)
  qed
qed (simp_all add: pu_process_def readSocket_def writeSocket_def registerEvents_def pu_clear_def)

theorem pu_echo_failures_witness:
  "pu_process (Received (replicate 4096 CHR ''a'')) Send_again [EPOLLIN] (sample_user, []) = None
   \<and> pu_process (Received (''ab'' @ NUL # ''cd'')) Send_again [EPOLLIN] (sample_user, []) =
     pu_process (Received ''ab'') Send_again [EPOLLIN] (sample_user, [])
   \<and> (\<exists>tr'. pu_process Recv_again (Sent 1) [EPOLLOUT] (sample_user, []) =
       Some (sample_user\<lparr>pu_writebuf := ''''\<rparr>, tr'))"
proof -
  have 1: "length (replicate 4096 CHR ''a'') = 4096 \<and> NUL \<notin> set (replicate 4096 CHR ''a'')" by simp
  have 2: "plain_text ''ab'' \<and> length (''ab'' @ NUL # ''cd'') < 4096" by (simp add: plain_text_def)
  have 3: "(0::nat) < 1" by simp
  note e = pu_echo_failures [of "replicate 4096 CHR ''a''" Send_again sample_user "[]" "''ab''" "''cd''" 1 Recv_again]
  show ?thesis
    using e [THEN conjunct1, THEN mp, OF 1] e [THEN conjunct2, THEN conjunct1, THEN mp, OF 2]
      e [THEN conjunct2, THEN conjunct2, THEN conjunct1, THEN mp, OF 3] by (intro conjI)
qed

end
