(* ===== verification/ProcessPool.thy ===== *)
theory ProcessPool
  imports ProcessUser
begin

text \<open>
  The process pool of \<open>epoll/processpoolserver.h\<close>.  The constructor forks the children; the parent
  hands every connection request to the next living child in turn and keeps track of the children
  that end; a child accepts the connection and serves it.  The type parameter of the pool, the
  class of a connection, is a pair of functions here: \<open>uinit\<close> and \<open>uprocess\<close>.
\<close>

subsection \<open>State\<close>

record pool_child =
  m_pid :: int
  m_pipefd :: "int \<times> int"

record processpool =
  m_process_number :: int
  m_idx :: int
  pp_epollfd :: int
  pp_listenfd :: int
  pp_stop :: bool
  m_sub_process :: "pool_child list"
  pp_sig_pipefd :: "int \<times> int"
  sub_process_counter :: int
  pp_trace :: trace

definition MAX_PROCESS_NUMBER :: int where "MAX_PROCESS_NUMBER = 16"
definition USER_PER_PROCESS :: int where "USER_PER_PROCESS = 65536"

definition pp_sys :: "sys_call \<Rightarrow> processpool \<Rightarrow> processpool" where
  "pp_sys e s = s\<lparr>pp_trace := e # pp_trace s\<rparr>"

subsection \<open>The constructor\<close>

text \<open>
  One turn of the loop of the constructor: the answers of \<open>socketpair\<close> (0 for success), the pair,
  and the answer of \<open>fork\<close>.  \<^const>\<open>None\<close> is a failed assertion; the flag says that the loop is
  left, in the child.
\<close>

definition fork_step :: "int \<times> (int \<times> int) \<times> int \<Rightarrow> nat \<Rightarrow> processpool \<Rightarrow> (bool \<times> processpool) option" where
  "fork_step a i s = (let (ret, pipefd, pid) = a in
     if ret \<noteq> 0 \<or> pid < 0 \<or> \<not> i < length (m_sub_process s) then None
     else (let s = s\<lparr>m_sub_process := (m_sub_process s)[i := \<lparr>m_pid = pid, m_pipefd = pipefd\<rparr>]\<rparr> in
       if pid > 0 then Some (False, pp_sys (Close (snd pipefd)) s)
       else Some (True, pp_sys (Print (''create process pid= '' @ dec pid @ [LF]))
              ((pp_sys (Close (fst pipefd)) s)\<lparr>m_idx := int i\<rparr>))))"

fun fork_loop :: "(int \<times> (int \<times> int) \<times> int) list \<Rightarrow> nat \<Rightarrow> processpool \<Rightarrow> processpool option" where
  "fork_loop [] i s = Some s"
| "fork_loop (a # as) i s = do {
     (left, s) \<leftarrow> fork_step a i s;
     if left then Some s else fork_loop as (i + 1) s }"

definition processpool_new :: "(nat \<Rightarrow> int \<times> (int \<times> int) \<times> int) \<Rightarrow> int \<Rightarrow> int \<Rightarrow> trace \<Rightarrow> processpool option" where
  "processpool_new answers listenfd process_number tr =
     (if \<not> (process_number > 0 \<and> process_number \<le> MAX_PROCESS_NUMBER) then None
      else fork_loop (map answers [0..<nat process_number]) 0
        \<lparr>m_process_number = process_number, m_idx = - 1, pp_epollfd = 0, pp_listenfd = listenfd,
         pp_stop = False, m_sub_process = replicate (nat process_number) \<lparr>m_pid = - 1, m_pipefd = (0, 0)\<rparr>,
         pp_sig_pipefd = (0, 0), sub_process_counter = 0, pp_trace = tr\<rparr>)"

text \<open>\<open>create\<close> makes the pool once.\<close>

definition processpool_create :: "(nat \<Rightarrow> int \<times> (int \<times> int) \<times> int) \<Rightarrow> int \<Rightarrow> int \<Rightarrow> trace
    \<Rightarrow> processpool option \<Rightarrow> processpool option" where
  "processpool_create answers listenfd process_number tr m_instance = (case m_instance of
     None \<Rightarrow> processpool_new answers listenfd process_number tr | Some p \<Rightarrow> Some p)"

text \<open>\<open>setup_sig_pipe\<close>; \<^const>\<open>None\<close> is a failed assertion.\<close>

definition setup_sig_pipe :: "(int \<Rightarrow> 32 word) \<Rightarrow> int \<Rightarrow> int \<times> (int \<times> int) \<Rightarrow> (int \<Rightarrow> bool) \<Rightarrow> processpool \<Rightarrow> processpool option" where
  "setup_sig_pipe flags epollfd pair ok s = (let s = pp_sys (Epoll_create 5) (s\<lparr>pp_epollfd := epollfd\<rparr>) in
     if epollfd = - 1 \<or> fst pair = - 1 then None else do {
       let s = s\<lparr>pp_sig_pipefd := snd pair\<rparr>;
       let tr = snd (util_setnonblocking flags (snd (pp_sig_pipefd s)) (pp_trace s));
       let tr = util_addfd flags (pp_epollfd s) (fst (pp_sig_pipefd s)) False True tr;
       tr \<leftarrow> addsig (ok SIGCHLD) SIGCHLD Sig_handler True tr;
       tr \<leftarrow> addsig (ok SIGTERM) SIGTERM Sig_handler True tr;
       tr \<leftarrow> addsig (ok SIGINT) SIGINT Sig_handler True tr;
       tr \<leftarrow> addsig (ok SIGPIPE) SIGPIPE Sig_ign True tr;
       Some (s\<lparr>pp_trace := tr\<rparr>) })"

subsection \<open>The parent\<close>

text \<open>
  The loop that looks for a living child, from the counter on; \<open>n\<close> is the number of children and
  \<open>c\<close> the counter.
\<close>

partial_function (option) pick_loop :: "pool_child list \<Rightarrow> int \<Rightarrow> int \<Rightarrow> int \<Rightarrow> int option" where
  "pick_loop cs n c i = do {
     p \<leftarrow> arr_get cs i;
     if m_pid p \<noteq> - 1 then Some i
     else (let i = (i + 1) smod n in if i \<noteq> c then pick_loop cs n c i else Some i) }"

declare pick_loop.simps [code]

text \<open>The four bytes of the integer 1 that announce a connection.\<close>

definition new_conn :: string where
  "new_conn = [CHR 0x01, NUL, NUL, NUL]"

text \<open>A connection request; the flag says that the loop over the events is left.\<close>

definition parent_request :: "processpool \<Rightarrow> (bool \<times> processpool) option" where
  "parent_request s = do {
     i \<leftarrow> pick_loop (m_sub_process s) (m_process_number s) (sub_process_counter s) (sub_process_counter s);
     p \<leftarrow> arr_get (m_sub_process s) i;
     if m_pid p = - 1 then Some (True, s\<lparr>pp_stop := True\<rparr>)
     else Some (False, pp_sys (Print (''send request to child '' @ dec i @ [LF]))
       (pp_sys (Send (fst (m_pipefd p)) new_conn)
         (s\<lparr>sub_process_counter := (i + 1) smod m_process_number s\<rparr>))) }"

text \<open>A child that has ended: its entry is cleared and its pipe is closed.\<close>

definition reap_one :: "int \<Rightarrow> nat \<Rightarrow> processpool \<Rightarrow> processpool" where
  "reap_one pid i s = (if m_pid (m_sub_process s ! i) = pid
     then (let s = pp_sys (Close (fst (m_pipefd (m_sub_process s ! i)))) (pp_sys (Print (''child '' @ dec (int i) @ '' join'' @ [LF])) s) in
       s\<lparr>m_sub_process := (m_sub_process s)[i := (m_sub_process s ! i)\<lparr>m_pid := - 1\<rparr>]\<rparr>)
     else s)"

definition reap :: "int \<Rightarrow> processpool \<Rightarrow> processpool" where
  "reap pid s = fold (reap_one pid) [0..<length (m_sub_process s)] s"

text \<open>The loop over the answers of \<open>waitpid\<close>, which ends at the first that is not positive.\<close>

fun wait_loop :: "int list \<Rightarrow> processpool \<Rightarrow> processpool" where
  "wait_loop [] s = s"
| "wait_loop (pid # pids) s = (if pid > 0 then wait_loop pids (reap pid s) else s)"

definition all_ended :: "pool_child list \<Rightarrow> bool" where
  "all_ended cs = list_all (\<lambda>p. m_pid p = - 1) cs"

definition on_sigchld :: "int list \<Rightarrow> processpool \<Rightarrow> processpool" where
  "on_sigchld pids s = (let s = wait_loop pids s in s\<lparr>pp_stop := all_ended (m_sub_process s)\<rparr>)"

definition kill_one :: "pool_child \<Rightarrow> processpool \<Rightarrow> processpool" where
  "kill_one p s = (if m_pid p \<noteq> - 1 then pp_sys (Kill (m_pid p) SIGTERM) s else s)"

definition kill_children :: "processpool \<Rightarrow> processpool" where
  "kill_children s = fold kill_one (m_sub_process s)
     (pp_sys (Print (''kill all the clild now'' @ [LF])) s)"

definition parent_signal :: "int list \<Rightarrow> char \<Rightarrow> processpool \<Rightarrow> processpool" where
  "parent_signal pids b s = (if byte_sig b = SIGCHLD then on_sigchld pids s
     else if byte_sig b = SIGTERM \<or> byte_sig b = SIGINT then kill_children s
     else s)"

text \<open>
  The answers while one event is handled: what \<open>recv\<close> on the signal pipe gives (\<^const>\<open>None\<close> for -1),
  the answers of \<open>waitpid\<close> for each byte of it, and for the child, \<open>recv\<close> on its pipe, \<open>accept\<close> and
  the calls of the connection.
\<close>

record 'r pp_answers =
  pa_signals :: "string option"
  pa_waits :: "nat \<Rightarrow> int list"
  pa_pipe :: recv_result
  pa_accept :: "int \<times> sockaddr_in"
  pa_errno :: int
  pa_flags :: "int \<Rightarrow> 32 word"
  pa_user :: 'r

definition parent_signals :: "'r pp_answers \<Rightarrow> processpool \<Rightarrow> processpool" where
  "parent_signals a s = (case pa_signals a of None \<Rightarrow> s
     | Some bs \<Rightarrow> fold (\<lambda>(i, b). parent_signal (pa_waits a i) b) (enumerate 0 bs) s)"

definition parent_event :: "'r pp_answers \<Rightarrow> epoll_event \<Rightarrow> processpool \<Rightarrow> (bool \<times> processpool) option" where
  "parent_event a e s = (if ev_fd e = pp_listenfd s then parent_request s
     else if ev_fd e = fst (pp_sig_pipefd s) \<and> EPOLLIN \<in> set (ev_events e) then Some (False, parent_signals a s)
     else Some (False, s))"

fun parent_events :: "('r pp_answers \<times> epoll_event) list \<Rightarrow> processpool \<Rightarrow> processpool option" where
  "parent_events [] s = Some s"
| "parent_events (e # es) s = do {
     (left, s) \<leftarrow> parent_event (fst e) (snd e) s;
     if left then Some s else parent_events es s }"

text \<open>
  The loop of \<open>run_parent\<close>, whose list has the answers of \<open>epoll_wait\<close> (a failure, with the value of
  \<open>errno = EINTR\<close>, or events), and the whole of it.
\<close>

datatype 'r pp_wait = Pp_failed bool | Pp_events "('r pp_answers \<times> epoll_event) list"

fun parent_loop :: "'r pp_wait list \<Rightarrow> processpool \<Rightarrow> processpool option" where
  "parent_loop ws s = (if pp_stop s then Some s else case ws of [] \<Rightarrow> None
     | Pp_failed eintr # ws \<Rightarrow> if eintr then parent_loop ws s else Some (pp_sys (Print (''epoll failure'' @ [LF])) s)
     | Pp_events es # ws \<Rightarrow> do { s \<leftarrow> parent_events es s; parent_loop ws s })"

definition run_parent :: "(int \<Rightarrow> 32 word) \<Rightarrow> int \<Rightarrow> int \<times> (int \<times> int) \<Rightarrow> (int \<Rightarrow> bool) \<Rightarrow> 'r pp_wait list
    \<Rightarrow> processpool \<Rightarrow> processpool option" where
  "run_parent flags epollfd pair ok ws s = do {
     s \<leftarrow> setup_sig_pipe flags epollfd pair ok s;
     let s = s\<lparr>pp_trace := util_addfd flags (pp_epollfd s) (pp_listenfd s) False True (pp_trace s),
       sub_process_counter := 0\<rparr>;
     s \<leftarrow> parent_loop ws s;
     Some (pp_sys (Close (pp_epollfd s)) s) }"

subsection \<open>A child\<close>

record 'u child_state =
  cs_pool :: processpool
  cs_pipefd :: int
  cs_users :: "int \<Rightarrow> 'u"

definition cs_user :: "int \<Rightarrow> 'u child_state \<Rightarrow> 'u option" where
  "cs_user fd c = (if 0 \<le> fd \<and> fd < USER_PER_PROCESS then Some (cs_users c fd) else None)"

definition cs_sys :: "sys_call \<Rightarrow> 'u child_state \<Rightarrow> 'u child_state" where
  "cs_sys e c = c\<lparr>cs_pool := pp_sys e (cs_pool c)\<rparr>"

definition child_accept :: "(int \<Rightarrow> int \<Rightarrow> int \<Rightarrow> sockaddr_in \<Rightarrow> 'u \<Rightarrow> 'u) \<Rightarrow> 'r pp_answers \<Rightarrow> 'u child_state
    \<Rightarrow> 'u child_state option" where
  "child_accept uinit a c = (let (connfd, client_address) = pa_accept a in
     if pa_pipe a = Recv_error \<or> pa_pipe a = Recv_closed then Some c
     else if connfd < 0 then Some (cs_sys (Print (''errno is: '' @ dec (pa_errno a) @ [LF])) c)
     else do {
       let p = cs_pool c;
       let c = c\<lparr>cs_pool := p\<lparr>pp_trace := util_addfd (pa_flags a) (pp_epollfd p) connfd False True (pp_trace p)\<rparr>\<rparr>;
       u \<leftarrow> cs_user connfd c;
       q \<leftarrow> arr_get (m_sub_process p) (m_idx p);
       Some (c\<lparr>cs_users := (cs_users c)(connfd := uinit (pp_epollfd p) connfd (m_pid q) client_address u)\<rparr>) })"

definition child_signal :: "char \<Rightarrow> 'u child_state \<Rightarrow> 'u child_state option" where
  "child_signal b c = (if byte_sig b = SIGTERM \<or> byte_sig b = SIGINT then do {
       q \<leftarrow> arr_get (m_sub_process (cs_pool c)) (m_idx (cs_pool c));
       Some (cs_sys (Print ('' process stop pid= '' @ dec (m_pid q) @ [LF])) (c\<lparr>cs_pool := (cs_pool c)\<lparr>pp_stop := True\<rparr>\<rparr>)) }
     else Some c)"

fun child_signals :: "string \<Rightarrow> 'u child_state \<Rightarrow> 'u child_state option" where
  "child_signals [] c = Some c"
| "child_signals (b # bs) c = do { c \<leftarrow> child_signal b c; child_signals bs c }"

definition child_user :: "('r \<Rightarrow> epoll_flag list \<Rightarrow> 'u \<times> trace \<Rightarrow> ('u \<times> trace) option) \<Rightarrow> 'r \<Rightarrow> epoll_flag
    \<Rightarrow> int \<Rightarrow> 'u child_state \<Rightarrow> 'u child_state option" where
  "child_user uprocess r ev fd c = do {
     u \<leftarrow> cs_user fd c;
     (u, tr) \<leftarrow> uprocess r [ev] (u, pp_trace (cs_pool c));
     Some (c\<lparr>cs_users := (cs_users c)(fd := u), cs_pool := (cs_pool c)\<lparr>pp_trace := tr\<rparr>\<rparr>) }"

definition child_event ::
  "(int \<Rightarrow> int \<Rightarrow> int \<Rightarrow> sockaddr_in \<Rightarrow> 'u \<Rightarrow> 'u) \<Rightarrow> ('r \<Rightarrow> epoll_flag list \<Rightarrow> 'u \<times> trace \<Rightarrow> ('u \<times> trace) option)
   \<Rightarrow> 'r pp_answers \<Rightarrow> epoll_event \<Rightarrow> 'u child_state \<Rightarrow> 'u child_state option" where
  "child_event uinit uprocess a e c = (let sockfd = ev_fd e in
     if sockfd = cs_pipefd c \<and> EPOLLIN \<in> set (ev_events e) then child_accept uinit a c
     else if sockfd = fst (pp_sig_pipefd (cs_pool c)) \<and> EPOLLIN \<in> set (ev_events e)
       then (case pa_signals a of None \<Rightarrow> Some c | Some bs \<Rightarrow> child_signals bs c)
     else if EPOLLIN \<in> set (ev_events e) then child_user uprocess (pa_user a) EPOLLIN sockfd c
     else if EPOLLOUT \<in> set (ev_events e) then child_user uprocess (pa_user a) EPOLLOUT sockfd c
     else Some c)"

fun child_events ::
  "(int \<Rightarrow> int \<Rightarrow> int \<Rightarrow> sockaddr_in \<Rightarrow> 'u \<Rightarrow> 'u) \<Rightarrow> ('r \<Rightarrow> epoll_flag list \<Rightarrow> 'u \<times> trace \<Rightarrow> ('u \<times> trace) option)
   \<Rightarrow> ('r pp_answers \<times> epoll_event) list \<Rightarrow> 'u child_state \<Rightarrow> 'u child_state option" where
  "child_events uinit uprocess [] c = Some c"
| "child_events uinit uprocess (e # es) c = do {
     c \<leftarrow> child_event uinit uprocess (fst e) (snd e) c;
     child_events uinit uprocess es c }"

fun child_loop ::
  "(int \<Rightarrow> int \<Rightarrow> int \<Rightarrow> sockaddr_in \<Rightarrow> 'u \<Rightarrow> 'u) \<Rightarrow> ('r \<Rightarrow> epoll_flag list \<Rightarrow> 'u \<times> trace \<Rightarrow> ('u \<times> trace) option)
   \<Rightarrow> 'r pp_wait list \<Rightarrow> 'u child_state \<Rightarrow> 'u child_state option" where
  "child_loop uinit uprocess ws c = (if pp_stop (cs_pool c) then Some c else case ws of [] \<Rightarrow> None
     | Pp_failed eintr # ws \<Rightarrow> if eintr then child_loop uinit uprocess ws c
         else Some (cs_sys (Print (''epoll failure'' @ [LF])) c)
     | Pp_events es # ws \<Rightarrow> do { c \<leftarrow> child_events uinit uprocess es c; child_loop uinit uprocess ws c })"

definition run_child ::
  "(int \<Rightarrow> int \<Rightarrow> int \<Rightarrow> sockaddr_in \<Rightarrow> 'u \<Rightarrow> 'u) \<Rightarrow> ('r \<Rightarrow> epoll_flag list \<Rightarrow> 'u \<times> trace \<Rightarrow> ('u \<times> trace) option)
   \<Rightarrow> (int \<Rightarrow> 'u) \<Rightarrow> (int \<Rightarrow> 32 word) \<Rightarrow> int \<Rightarrow> int \<times> (int \<times> int) \<Rightarrow> (int \<Rightarrow> bool) \<Rightarrow> 'r pp_wait list
   \<Rightarrow> processpool \<Rightarrow> processpool option" where
  "run_child uinit uprocess new_users flags epollfd pair ok ws s = do {
     s \<leftarrow> setup_sig_pipe flags epollfd pair ok s;
     q \<leftarrow> arr_get (m_sub_process s) (m_idx s);
     let pipefd = snd (m_pipefd q);
     let s = s\<lparr>pp_trace := util_addfd flags (pp_epollfd s) pipefd False True (pp_trace s)\<rparr>;
     c \<leftarrow> child_loop uinit uprocess ws \<lparr>cs_pool = s, cs_pipefd = pipefd, cs_users = new_users\<rparr>;
     Some (cs_pool (cs_sys (Close (pp_epollfd s)) (cs_sys (Close pipefd) c))) }"

text \<open>\<open>run\<close>: the child, which the constructor gave an index, or the parent.\<close>

definition pp_run ::
  "(int \<Rightarrow> int \<Rightarrow> int \<Rightarrow> sockaddr_in \<Rightarrow> 'u \<Rightarrow> 'u) \<Rightarrow> ('r \<Rightarrow> epoll_flag list \<Rightarrow> 'u \<times> trace \<Rightarrow> ('u \<times> trace) option)
   \<Rightarrow> (int \<Rightarrow> 'u) \<Rightarrow> (int \<Rightarrow> 32 word) \<Rightarrow> int \<Rightarrow> int \<times> (int \<times> int) \<Rightarrow> (int \<Rightarrow> bool) \<Rightarrow> 'r pp_wait list
   \<Rightarrow> processpool \<Rightarrow> processpool option" where
  "pp_run uinit uprocess new_users flags epollfd pair ok ws s =
     (if m_idx s \<noteq> - 1 then run_child uinit uprocess new_users flags epollfd pair ok ws s
      else run_parent flags epollfd pair ok ws s)"

end
