(* ===== verification/ProcessPool_Props.thy ===== *)
theory ProcessPool_Props
  imports ProcessPool
begin

text \<open>
  What the process pool guarantees: the parent hands out the connections in turn and notices the end
  of its children; a child serves the connections it accepts.
\<close>

subsection \<open>The choice of a child\<close>

definition dead :: "pool_child list \<Rightarrow> nat \<Rightarrow> bool" where
  "dead cs i \<longleftrightarrow> m_pid (cs ! i) = - 1"

lemma all_ended_iff: "all_ended cs \<longleftrightarrow> (\<forall>i < length cs. dead cs i)"
  by (auto simp: all_ended_def dead_def list_all_length)

text \<open>The number of steps from one index to another, around the end of the array.\<close>

definition steps :: "nat \<Rightarrow> nat \<Rightarrow> nat \<Rightarrow> nat" where
  "steps n c j = (if c \<le> j then j - c else j + n - c)"

lemma steps_less: "c < n \<Longrightarrow> j < n \<Longrightarrow> steps n c j < n"
  by (auto simp: steps_def)

lemma steps_reach: "c < n \<Longrightarrow> j < n \<Longrightarrow> (c + steps n c j) mod n = j"
  by (auto simp: steps_def)

lemma steps_of: "c < n \<Longrightarrow> d < n \<Longrightarrow> steps n c ((c + d) mod n) = d"
  by (cases "c + d < n") (auto simp: steps_def mod_if)

lemma pick_loop_run:
  assumes n: "n = length cs" and c: "c < n" and d: "d < n" and before: "\<forall>e < d. dead cs ((c + e) mod n)"
  shows "\<exists>i. pick_loop cs (int n) (int c) (int ((c + d) mod n)) = Some (int i) \<and> i < n
    \<and> (if all_ended cs then i = c else \<not> dead cs i \<and> (\<forall>e < steps n c i. dead cs ((c + e) mod n)))"
  using d before
proof (induction "n - d" arbitrary: d)
  case 0
  then show ?case by simp
next
  case (Suc m)
  let ?i = "(c + d) mod n"
  have i: "?i < n" using c by simp
  have g: "arr_get cs (int ?i) = Some (cs ! ?i)" using i n by (simp add: arr_get_nat)
  show ?case
  proof (cases "dead cs ?i")
    case False
    then have "pick_loop cs (int n) (int c) (int ?i) = Some (int ?i)"
      by (subst pick_loop.simps) (simp add: g dead_def)
    moreover have "\<not> all_ended cs" using False i n by (auto simp: all_ended_iff)
    ultimately show ?thesis using i False Suc.prems steps_of [OF c Suc.prems(1)]
      by (intro exI [of _ ?i]) simp
  next
    case True
    have nx: "(int ?i + 1) smod int n = int ((c + (d + 1)) mod n)"
      using i by (simp add: smod_pos zmod_int mod_simps ac_simps)
    have b: "\<forall>e < d + 1. dead cs ((c + e) mod n)" using Suc.prems(2) True by (auto simp: less_Suc_eq)
    show ?thesis
    proof (cases "d + 1 = n")
      case True
      then have e: "(c + (d + 1)) mod n = c" using c by simp
      have "dead cs j" if "j < n" for j
        using b steps_less [OF c that] steps_reach [OF c that] True by metis
      then have "all_ended cs" using n by (simp add: all_ended_iff)
      moreover have "pick_loop cs (int n) (int c) (int ?i) = Some (int c)"
        using \<open>dead cs ?i\<close> nx e by (subst pick_loop.simps) (simp add: g dead_def)
      ultimately show ?thesis using c by (intro exI [of _ c]) simp
    next
      case False
      then have d1: "d + 1 < n" using Suc.prems(1) by simp
      have ne: "(c + (d + 1)) mod n \<noteq> c" using steps_of [OF c d1] by (auto simp: steps_def)
      have "m = n - (d + 1)" using Suc.hyps(2) by simp
      from Suc.hyps(1) [OF this d1 b] have "\<exists>i. pick_loop cs (int n) (int c) (int ((c + (d + 1)) mod n)) = Some (int i) \<and> i < n
    \<and> (if all_ended cs then i = c else \<not> dead cs i \<and> (\<forall>e < steps n c i. dead cs ((c + e) mod n)))" .
      moreover have "pick_loop cs (int n) (int c) (int ?i) = pick_loop cs (int n) (int c) (int ((c + (d + 1)) mod n))"
        using \<open>dead cs ?i\<close> nx ne by (subst pick_loop.simps) (simp add: g dead_def del: of_nat_add)
      ultimately show ?thesis by simp
    qed
  qed
qed

subsection \<open>Requests\<close>

definition pp_ok :: "processpool \<Rightarrow> bool" where
  "pp_ok s \<longleftrightarrow> m_sub_process s \<noteq> [] \<and> m_process_number s = int (length (m_sub_process s))
     \<and> (\<exists>c < length (m_sub_process s). sub_process_counter s = int c)"

definition request_event :: "processpool \<Rightarrow> epoll_event" where
  "request_event s = \<lparr>ev_fd = pp_listenfd s, ev_events = [EPOLLIN]\<rparr>"

definition send_to :: "pool_child \<Rightarrow> sys_call" where
  "send_to p = Send (fst (m_pipefd p)) new_conn"

lemma request_run:
  assumes "n = length (m_sub_process s)" "m_process_number s = int n" "sub_process_counter s = int c" "c < n"
    and "\<not> all_ended (m_sub_process s)"
  shows "\<exists>i < n. parent_event a (request_event s) s = Some (False, s\<lparr>sub_process_counter := int ((i + 1) mod n),
       pp_trace := [Print (''send request to child '' @ dec (int i) @ [LF]), send_to (m_sub_process s ! i)] @ pp_trace s\<rparr>)
     \<and> \<not> dead (m_sub_process s) i \<and> (\<forall>e < steps n c i. dead (m_sub_process s) ((c + e) mod n))"
proof -
  from pick_loop_run [OF assms(1,4), of 0] assms(4,5) obtain i where
    i: "pick_loop (m_sub_process s) (int n) (int c) (int c) = Some (int i)" "i < n"
      "\<not> dead (m_sub_process s) i" "\<forall>e < steps n c i. dead (m_sub_process s) ((c + e) mod n)" by auto
  have g: "arr_get (m_sub_process s) (int i) = Some (m_sub_process s ! i)" using i(2) assms(1) by (simp add: arr_get_nat)
  have m: "(int i + 1) smod int n = int ((i + 1) mod n)" using i(2) by (simp add: smod_pos zmod_int ac_simps)
  have "parent_event a (request_event s) s = parent_request s" by (simp add: parent_event_def request_event_def)
  also have "\<dots> = Some (False, s\<lparr>sub_process_counter := int ((i + 1) mod n),
       pp_trace := [Print (''send request to child '' @ dec (int i) @ [LF]), send_to (m_sub_process s ! i)] @ pp_trace s\<rparr>)"
    using i(3) m by (simp add: parent_request_def assms(2,3) i(1) g dead_def pp_sys_def send_to_def)
  finally show ?thesis using i by blast
qed

text \<open>
  The order in which the children have their turn: the living ones, from the counter on and around the
  array; the m-th request is for the m-th of them, cyclically.  \<open>announcement\<close> is what one request adds
  to the trace.
\<close>

definition living :: "processpool \<Rightarrow> nat list" where
  "living s = [j \<leftarrow> rotate (nat (sub_process_counter s)) [0..<length (m_sub_process s)]. m_pid (m_sub_process s ! j) \<noteq> - 1]"

definition turns :: "processpool \<Rightarrow> nat \<Rightarrow> nat list" where
  "turns s k = map (\<lambda>m. living s ! (m mod length (living s))) [0..<k]"

definition announcement :: "pool_child list \<Rightarrow> nat \<Rightarrow> trace" where
  "announcement cs i = [Print (''send request to child '' @ dec (int i) @ [LF]), send_to (cs ! i)]"

lemma filter_rotate_next:
  assumes "d < length R" "P (R ! d)" "\<And>e. e < d \<Longrightarrow> \<not> P (R ! e)"
  shows "\<exists>xs. filter P R = R ! d # xs \<and> filter P (rotate (d + 1) R) = xs @ [R ! d]"
proof -
  have s: "R = take d R @ R ! d # drop (Suc d) R" using id_take_nth_drop [OF assms(1)] .
  have e: "filter P (take d R) = []" using assms by (auto simp: filter_empty_conv in_set_conv_nth)
  have "rotate (d + 1) R = rotate (length (take d R @ [R ! d])) ((take d R @ [R ! d]) @ drop (Suc d) R)"
    using s assms(1) by simp
  also have "\<dots> = drop (Suc d) R @ take d R @ [R ! d]" by (simp only: rotate_append)
  finally have r: "rotate (d + 1) R = drop (Suc d) R @ take d R @ [R ! d]" .
  have "filter P R = filter P (take d R @ R ! d # drop (Suc d) R)" using s by simp
  then show ?thesis using e r assms(2) by simp
qed

lemma living_next:
  assumes "n = length (m_sub_process s)" "sub_process_counter s = int c" "c < n" "i < n"
    and "\<not> dead (m_sub_process s) i" "\<forall>e < steps n c i. dead (m_sub_process s) ((c + e) mod n)"
    and "m_sub_process t = m_sub_process s" "sub_process_counter t = int ((i + 1) mod n)"
  shows "\<exists>xs. living s = i # xs \<and> living t = xs @ [i]"
proof -
  let ?R = "rotate c [0..<n]"
  let ?P = "\<lambda>j. m_pid (m_sub_process s ! j) \<noteq> - 1"
  have d: "steps n c i < n" "(c + steps n c i) mod n = i"
    using steps_less [OF assms(3,4)] steps_reach [OF assms(3,4)] by auto
  have R: "?R ! e = (c + e) mod n" if "e < n" for e using that by (simp add: nth_rotate)
  have "\<not> ?P (?R ! e)" if "e < steps n c i" for e using assms(6) that R [of e] d(1) by (simp add: dead_def)
  moreover have "?P (?R ! steps n c i)" using assms(5) R [OF d(1)] d(2) by (simp add: dead_def)
  ultimately have "\<exists>xs. filter ?P ?R = i # xs \<and> filter ?P (rotate (steps n c i + 1) ?R) = xs @ [i]"
    using filter_rotate_next [of "steps n c i" ?R ?P] d R [OF d(1)] by simp
  moreover have "rotate (steps n c i + 1) ?R = rotate ((i + 1) mod n) [0..<n]"
  proof -
    have "rotate (steps n c i + 1) ?R = rotate (steps n c i + 1 + c) [0..<n]" by (simp only: rotate_rotate)
    also have "\<dots> = rotate ((steps n c i + 1 + c) mod n) [0..<n]" by (subst rotate_conv_mod) simp
    also have "(steps n c i + 1 + c) mod n = (i + 1) mod n" using d(2) by (metis add.commute add.left_commute mod_add_left_eq)
    finally show ?thesis .
  qed
  ultimately show ?thesis using assms(1,2,7,8) by (simp add: living_def)
qed

lemma turns_next:
  assumes "living s = i # xs" "living t = xs @ [i]"
  shows "turns s (Suc k) = i # turns t k"
proof -
  let ?L = "Suc (length xs)"
  have "living s ! (Suc m mod ?L) = living t ! (m mod ?L)" for m
  proof -
    have "living t = rotate1 (living s)" "length (living s) = ?L" using assms by simp_all
    moreover have "m mod ?L < ?L" by simp
    ultimately have "living t ! (m mod ?L) = living s ! (Suc (m mod ?L) mod ?L)" by (metis nth_rotate1)
    then show ?thesis by (simp add: mod_Suc_eq)
  qed
  then have "turns s (Suc k) = living s ! (0 mod ?L) # map (\<lambda>m. living t ! (m mod ?L)) [0..<k]"
    using assms(1) by (simp add: turns_def upt_conv_Cons map_Suc_upt [symmetric] del: upt_Suc)
  then show ?thesis using assms by (simp add: turns_def)
qed

lemma requests_run:
  assumes "n = length (m_sub_process s)" "m_process_number s = int n" "sub_process_counter s = int c" "c < n"
    and "\<not> all_ended (m_sub_process s)"
  shows "\<exists>s' c'. parent_events (map (\<lambda>a. (a, request_event s)) as) s = Some s'
    \<and> s' = s\<lparr>sub_process_counter := int c',
        pp_trace := concat (map (announcement (m_sub_process s)) (rev (turns s (length as)))) @ pp_trace s\<rparr> \<and> c' < n"
  using assms
proof (induction as arbitrary: s c)
  case Nil
  then show ?case by (intro exI [of _ s] exI [of _ c]) (simp add: turns_def)
next
  case (Cons a as)
  obtain i where i: "i < n" "parent_event a (request_event s) s = Some (False, s\<lparr>sub_process_counter := int ((i + 1) mod n),
       pp_trace := [Print (''send request to child '' @ dec (int i) @ [LF]), send_to (m_sub_process s ! i)] @ pp_trace s\<rparr>)"
    (is "_ = Some (False, ?s)")
    "\<not> dead (m_sub_process s) i" "\<forall>e < steps n c i. dead (m_sub_process s) ((c + e) mod n)"
    using request_run [OF Cons.prems] by blast
  let ?c = "(i + 1) mod n"
  have "0 < n" using Cons.prems(4) by simp
  then have p0: "?c < n" by (rule mod_less_divisor)
  have p: "?c < n" "n = length (m_sub_process ?s)" "m_process_number ?s = int n" "sub_process_counter ?s = int ?c"
    "\<not> all_ended (m_sub_process ?s)" "m_sub_process ?s = m_sub_process s" using p0 Cons.prems(1,2,5) by simp_all
  obtain s' c' where 2: "parent_events (map (\<lambda>a. (a, request_event ?s)) as) ?s = Some s'"
    "s' = ?s\<lparr>sub_process_counter := int c',
        pp_trace := concat (map (announcement (m_sub_process ?s)) (rev (turns ?s (length as)))) @ pp_trace ?s\<rparr>" "c' < n"
    using Cons.IH [OF p(2,3,4,1,5)] by blast
  obtain xs where "living s = i # xs" "living ?s = xs @ [i]"
    using living_next [OF Cons.prems(1,3,4) i(1,3,4) p(6,4)] by blast
  then have t: "turns s (length (a # as)) = i # turns ?s (length as)" using turns_next by simp
  have "request_event ?s = request_event s" by (simp add: request_event_def)
  then have "parent_events (map (\<lambda>a. (a, request_event s)) (a # as)) s = Some s'" using 2(1) i(2) by simp
  moreover have "s' = s\<lparr>sub_process_counter := int c',
        pp_trace := concat (map (announcement (m_sub_process s)) (rev (turns s (length (a # as))))) @ pp_trace s\<rparr>"
    unfolding t using 2(2) by (simp add: announcement_def)
  ultimately show ?case using 2(3) by blast
qed

lemma living_iff: "j \<in> set (living s) \<longleftrightarrow> j < length (m_sub_process s) \<and> m_pid (m_sub_process s ! j) \<noteq> - 1"
  by (auto simp: living_def)

lemma living_nonempty: "\<not> all_ended (m_sub_process s) \<Longrightarrow> living s \<noteq> []"
  using living_iff [of _ s] by (fastforce simp: all_ended_def list_all_length)

lemma turns_set:
  assumes "\<not> all_ended (m_sub_process s)"
  shows "set (turns s k) \<subseteq> set (living s)" "length (m_sub_process s) \<le> k \<Longrightarrow> set (living s) \<subseteq> set (turns s k)"
proof -
  have l: "0 < length (living s)" using living_nonempty [OF assms] by simp
  show "set (turns s k) \<subseteq> set (living s)" using l by (auto simp: turns_def)
  assume k: "length (m_sub_process s) \<le> k"
  have "length (living s) \<le> length (m_sub_process s)" unfolding living_def using length_filter_le [of _ "rotate _ [0..<_]"] by simp
  show "set (living s) \<subseteq> set (turns s k)"
  proof
    fix j
    assume "j \<in> set (living s)"
    then obtain m where m: "m < length (living s)" "living s ! m = j" by (auto simp: in_set_conv_nth)
    then have "m < k" "living s ! (m mod length (living s)) = j" using k \<open>length (living s) \<le> _\<close> by simp_all
    then show "j \<in> set (turns s k)" unfolding turns_def by force
  qed
qed

text \<open>C23: The parent serves the children in turn, and only the living ones.  While some child is alive,
  k connection requests in a row add exactly k announcements to the calls of the parent, one for
  each request: the m-th goes to the pipe of the m-th living child, counted from the counter on and
  cyclically.  So nothing is ever sent to a child that has ended, whose pipe is closed, and of n
  requests in a row (n the number of children) every living child gets one.\<close>

theorem pp_round_robin:
  assumes "pp_ok s" and "\<not> all_ended (m_sub_process s)"
  shows "\<exists>s'. parent_events (map (\<lambda>a. (a, request_event s)) as) s = Some s' \<and> pp_ok s' \<and> m_sub_process s' = m_sub_process s
    \<and> pp_trace s' = concat (map (announcement (m_sub_process s)) (rev (turns s (length as)))) @ pp_trace s
    \<and> length (turns s (length as)) = length as
    \<and> (\<forall>j \<in> set (turns s (length as)). j < length (m_sub_process s) \<and> m_pid (m_sub_process s ! j) \<noteq> - 1)
    \<and> (length (m_sub_process s) \<le> length as \<longrightarrow>
         (\<forall>j < length (m_sub_process s). m_pid (m_sub_process s ! j) \<noteq> - 1 \<longrightarrow> j \<in> set (turns s (length as))))"
proof -
  obtain c where c: "m_process_number s = int (length (m_sub_process s))" "sub_process_counter s = int c" "c < length (m_sub_process s)"
    using assms(1) unfolding pp_ok_def by auto
  obtain s' c' where s': "parent_events (map (\<lambda>a. (a, request_event s)) as) s = Some s'"
    "s' = s\<lparr>sub_process_counter := int c',
        pp_trace := concat (map (announcement (m_sub_process s)) (rev (turns s (length as)))) @ pp_trace s\<rparr>" "c' < length (m_sub_process s)"
    using requests_run [OF refl c assms(2)] by blast
  have "pp_ok s'" unfolding s'(2) using assms(1) s'(3) by (auto simp: pp_ok_def)
  moreover have "m_sub_process s' = m_sub_process s"
    "pp_trace s' = concat (map (announcement (m_sub_process s)) (rev (turns s (length as)))) @ pp_trace s"
    unfolding s'(2) by simp_all
  moreover have "length (turns s (length as)) = length as" by (simp add: turns_def)
  ultimately show ?thesis using s'(1) turns_set [OF assms(2)] living_iff [of _ s] by blast
qed

definition sample_pool :: processpool where
  "sample_pool = \<lparr>m_process_number = 3, m_idx = - 1, pp_epollfd = 9, pp_listenfd = 3, pp_stop = False,
     m_sub_process = [\<lparr>m_pid = 101, m_pipefd = (10, 11)\<rparr>, \<lparr>m_pid = - 1, m_pipefd = (12, 13)\<rparr>,
       \<lparr>m_pid = 103, m_pipefd = (14, 15)\<rparr>],
     pp_sig_pipefd = (7, 8), sub_process_counter = 1, pp_trace = []\<rparr>"

theorem pp_round_robin_witness:
  "\<forall>a :: unit pp_answers. \<exists>s'. parent_events (map (\<lambda>a. (a, request_event sample_pool)) (replicate 4 a)) sample_pool = Some s'
    \<and> [e \<leftarrow> rev (pp_trace s'). case e of Send _ _ \<Rightarrow> True | _ \<Rightarrow> False] = map (\<lambda>fd. Send fd new_conn) [14, 10, 14, 10]"
proof
  fix a :: "unit pp_answers"
  have "pp_ok sample_pool" "\<not> all_ended (m_sub_process sample_pool)"
    by (simp_all add: pp_ok_def sample_pool_def all_ended_def)
  from pp_round_robin [OF this, of "replicate 4 a"] obtain s' where
    1: "parent_events (map (\<lambda>a. (a, request_event sample_pool)) (replicate 4 a)) sample_pool = Some s'"
      "pp_trace s' = concat (map (announcement (m_sub_process sample_pool)) (rev (turns sample_pool 4))) @ pp_trace sample_pool"
    by auto
  have "turns sample_pool 4 = [2, 0, 2, 0]" by code_simp
  then show "\<exists>s'. parent_events (map (\<lambda>a. (a, request_event sample_pool)) (replicate 4 a)) sample_pool = Some s'
    \<and> [e \<leftarrow> rev (pp_trace s'). case e of Send _ _ \<Rightarrow> True | _ \<Rightarrow> False] = map (\<lambda>fd. Send fd new_conn) [14, 10, 14, 10]"
    using 1 by (simp add: announcement_def sample_pool_def send_to_def)
qed

subsection \<open>The end of children\<close>

definition ended :: "int set \<Rightarrow> pool_child \<Rightarrow> pool_child" where
  "ended pids p = (if m_pid p \<in> pids then p\<lparr>m_pid := - 1\<rparr> else p)"

lemma reap_upto:
  "k \<le> length (m_sub_process s) \<Longrightarrow> \<exists>tr. fold (reap_one pid) [0..<k] s =
     s\<lparr>m_sub_process := map (ended {pid}) (take k (m_sub_process s)) @ drop k (m_sub_process s), pp_trace := tr @ pp_trace s\<rparr>
   \<and> (\<forall>fd. Close fd \<in> set tr \<longleftrightarrow> (\<exists>p \<in> set (take k (m_sub_process s)). m_pid p = pid \<and> fst (m_pipefd p) = fd))
   \<and> (\<forall>p g. Kill p g \<notin> set tr)"
proof (induction k)
  case 0
  then show ?case by (intro exI [of _ "[]"]) simp
next
  case (Suc k)
  let ?cs = "m_sub_process s"
  let ?p = "?cs ! k"
  obtain tr where IH: "fold (reap_one pid) [0..<k] s =
     s\<lparr>m_sub_process := map (ended {pid}) (take k ?cs) @ drop k ?cs, pp_trace := tr @ pp_trace s\<rparr>"
    "\<forall>fd. Close fd \<in> set tr \<longleftrightarrow> (\<exists>p \<in> set (take k ?cs). m_pid p = pid \<and> fst (m_pipefd p) = fd)"
    "\<forall>p g. Kill p g \<notin> set tr"
    using Suc by auto
  have k: "k < length ?cs" using Suc.prems by simp
  have t: "take (Suc k) ?cs = take k ?cs @ [?p]" "drop k ?cs = ?p # drop (Suc k) ?cs"
    using k by (simp_all add: take_Suc_conv_app_nth Cons_nth_drop_Suc)
  let ?s = "s\<lparr>m_sub_process := map (ended {pid}) (take k ?cs) @ drop k ?cs, pp_trace := tr @ pp_trace s\<rparr>"
  have nth: "m_sub_process ?s ! k = ?p" "(map (ended {pid}) (take k ?cs) @ drop k ?cs) ! k = ?p"
    using k by (simp_all add: nth_append)
  let ?e = "if m_pid ?p = pid then [Close (fst (m_pipefd ?p)), Print (''child '' @ dec (int k) @ '' join'' @ [LF])] else []"
  have r: "reap_one pid k ?s = s\<lparr>m_sub_process := map (ended {pid}) (take (Suc k) ?cs) @ drop (Suc k) ?cs,
      pp_trace := (?e @ tr) @ pp_trace s\<rparr>"
  proof (cases "m_pid ?p = pid")
    case True
    have u: "(map (ended {pid}) (take k ?cs) @ drop k ?cs)[k := ?p\<lparr>m_pid := - 1\<rparr>] =
        map (ended {pid}) (take (Suc k) ?cs) @ drop (Suc k) ?cs"
      using k True by (simp add: t list_update_append ended_def)
    show ?thesis unfolding reap_one_def nth(1) using True u nth(2) by (cases s) (simp add: pp_sys_def Let_def)
  next
    case False
    then have "map (ended {pid}) (take k ?cs) @ drop k ?cs = map (ended {pid}) (take (Suc k) ?cs) @ drop (Suc k) ?cs"
      by (simp add: t ended_def)
    then show ?thesis unfolding reap_one_def nth(1) using False by simp
  qed
  show ?case
    using IH r by (intro exI [of _ "?e @ tr"]) (auto simp: t(1))
qed

lemma wait_loop_run:
  "\<forall>pid \<in> set pids. 0 < pid \<Longrightarrow> \<exists>tr. wait_loop pids s =
     s\<lparr>m_sub_process := map (ended (set pids)) (m_sub_process s), pp_trace := tr @ pp_trace s\<rparr>
   \<and> (\<forall>fd. Close fd \<in> set tr \<longleftrightarrow> (\<exists>p \<in> set (m_sub_process s). m_pid p \<in> set pids \<and> fst (m_pipefd p) = fd))
   \<and> (\<forall>p g. Kill p g \<notin> set tr)"
proof (induction pids arbitrary: s)
  case Nil
  have "map (ended {}) (m_sub_process s) = m_sub_process s" by (rule map_idI) (simp add: ended_def)
  then show ?case by (intro exI [of _ "[]"]) simp
next
  case (Cons pid pids)
  let ?cs = "m_sub_process s"
  have p: "0 < pid" using Cons.prems by simp
  obtain tr where 1: "reap pid s = s\<lparr>m_sub_process := map (ended {pid}) ?cs, pp_trace := tr @ pp_trace s\<rparr>" (is "_ = ?s")
    "\<forall>fd. Close fd \<in> set tr \<longleftrightarrow> (\<exists>p \<in> set ?cs. m_pid p = pid \<and> fst (m_pipefd p) = fd)" "\<forall>p g. Kill p g \<notin> set tr"
    using reap_upto [of "length ?cs" s pid] unfolding reap_def by auto
  obtain tr2 where 2: "wait_loop pids ?s =
     ?s\<lparr>m_sub_process := map (ended (set pids)) (m_sub_process ?s), pp_trace := tr2 @ pp_trace ?s\<rparr>"
   "\<forall>fd. Close fd \<in> set tr2 \<longleftrightarrow> (\<exists>p \<in> set (m_sub_process ?s). m_pid p \<in> set pids \<and> fst (m_pipefd p) = fd)"
   "\<forall>p g. Kill p g \<notin> set tr2"
    using Cons by (metis list.set_intros(2))
  have neg: "- 1 \<notin> set pids" using Cons.prems by auto
  have e: "ended (set pids) (ended {pid} q) = ended (set (pid # pids)) q" for q
    using neg by (cases q) (auto simp: ended_def)
  have c: "m_pid (ended {pid} q) \<in> set pids \<longleftrightarrow> m_pid q \<in> set pids \<and> m_pid q \<noteq> pid" "m_pipefd (ended {pid} q) = m_pipefd q" for q
    using neg by (auto simp: ended_def)
  have "wait_loop (pid # pids) s = s\<lparr>m_sub_process := map (ended (set (pid # pids))) ?cs, pp_trace := (tr2 @ tr) @ pp_trace s\<rparr>"
    using p 1(1) 2(1) by (simp add: comp_def e del: list.set)
  moreover have "Close fd \<in> set (tr2 @ tr) \<longleftrightarrow> (\<exists>q \<in> set ?cs. m_pid q \<in> set (pid # pids) \<and> fst (m_pipefd q) = fd)" for fd
    using 1(2) 2(2) c by auto
  ultimately show ?case using 1(3) 2(3) by (intro exI [of _ "tr2 @ tr"]) auto
qed

lemma kill_children_run:
  "\<exists>tr. kill_children s = s\<lparr>pp_trace := tr @ pp_trace s\<rparr>
   \<and> (\<forall>p g. Kill p g \<in> set tr \<longleftrightarrow> g = SIGTERM \<and> p \<noteq> - 1 \<and> p \<in> m_pid ` set (m_sub_process s)) \<and> (\<forall>fd. Close fd \<notin> set tr)"
proof -
  have "\<exists>tr. fold kill_one ps t = t\<lparr>pp_trace := tr @ pp_trace t\<rparr>
     \<and> (\<forall>p g. Kill p g \<in> set tr \<longleftrightarrow> g = SIGTERM \<and> p \<noteq> - 1 \<and> p \<in> m_pid ` set ps) \<and> (\<forall>fd. Close fd \<notin> set tr)" for ps t
  proof (induction ps arbitrary: t)
    case Nil
    then show ?case by (intro exI [of _ "[]"]) simp
  next
    case (Cons q ps)
    let ?e = "if m_pid q \<noteq> - 1 then [Kill (m_pid q) SIGTERM] else []"
    have k: "kill_one q t = t\<lparr>pp_trace := ?e @ pp_trace t\<rparr>" by (simp add: kill_one_def pp_sys_def)
    obtain tr where "fold kill_one ps (kill_one q t) = (kill_one q t)\<lparr>pp_trace := tr @ pp_trace (kill_one q t)\<rparr>"
      "\<forall>p g. Kill p g \<in> set tr \<longleftrightarrow> g = SIGTERM \<and> p \<noteq> - 1 \<and> p \<in> m_pid ` set ps" "\<forall>fd. Close fd \<notin> set tr"
      using Cons by blast
    then show ?case using k by (intro exI [of _ "tr @ ?e"]) auto
  qed
  from this [of "m_sub_process s" "pp_sys (Print (''kill all the clild now'' @ [LF])) s"] obtain tr where
    "kill_children s = (pp_sys (Print (''kill all the clild now'' @ [LF])) s)\<lparr>pp_trace := tr @ pp_trace (pp_sys (Print (''kill all the clild now'' @ [LF])) s)\<rparr>"
    "\<forall>p g. Kill p g \<in> set tr \<longleftrightarrow> g = SIGTERM \<and> p \<noteq> - 1 \<and> p \<in> m_pid ` set (m_sub_process s)" "\<forall>fd. Close fd \<notin> set tr"
    unfolding kill_children_def by blast
  then show ?thesis by (intro exI [of _ "tr @ [Print (''kill all the clild now'' @ [LF])]"]) (simp add: pp_sys_def)
qed

definition signal_event :: "processpool \<Rightarrow> epoll_event" where
  "signal_event s = \<lparr>ev_fd = fst (pp_sig_pipefd s), ev_events = [EPOLLIN]\<rparr>"

text \<open>C24: The parent shuts the pool down: SIGTERM is passed on to every living child and to nobody else;
  when waitpid reports children, their entries are cleared and their pipes (no others) are closed,
  and the loop of the parent ends exactly when no child is left.\<close>

theorem pp_shutdown:
  assumes "\<not> pp_stop s" and "pp_listenfd s \<noteq> fst (pp_sig_pipefd s)"
    and "pa_signals a = Some [sig_byte SIGTERM]" "pa_signals b = Some [sig_byte SIGCHLD]" "pa_waits b 0 = pids"
    and "\<forall>pid \<in> set pids. 0 < pid"
  shows "\<exists>s' tr. parent_loop (Pp_events [(a, signal_event s)] # Pp_events [(b, signal_event s)] # ws) s
       = (if \<forall>p \<in> set (m_sub_process s). m_pid p = - 1 \<or> m_pid p \<in> set pids then Some s' else parent_loop ws s')
    \<and> m_sub_process s' = map (ended (set pids)) (m_sub_process s) \<and> pp_trace s' = tr @ pp_trace s
    \<and> (\<forall>p g. Kill p g \<in> set tr \<longleftrightarrow> g = SIGTERM \<and> p \<noteq> - 1 \<and> p \<in> m_pid ` set (m_sub_process s))
    \<and> (\<forall>fd. Close fd \<in> set tr \<longleftrightarrow> (\<exists>p \<in> set (m_sub_process s). m_pid p \<in> set pids \<and> fst (m_pipefd p) = fd))"
proof -
  obtain tr1 where 1: "kill_children s = s\<lparr>pp_trace := tr1 @ pp_trace s\<rparr>" (is "_ = ?s")
    "\<forall>p g. Kill p g \<in> set tr1 \<longleftrightarrow> g = SIGTERM \<and> p \<noteq> - 1 \<and> p \<in> m_pid ` set (m_sub_process s)" "\<forall>fd. Close fd \<notin> set tr1"
    using kill_children_run by blast
  obtain tr2 where 2: "wait_loop pids ?s = ?s\<lparr>m_sub_process := map (ended (set pids)) (m_sub_process ?s), pp_trace := tr2 @ pp_trace ?s\<rparr>"
    "\<forall>fd. Close fd \<in> set tr2 \<longleftrightarrow> (\<exists>p \<in> set (m_sub_process ?s). m_pid p \<in> set pids \<and> fst (m_pipefd p) = fd)"
    "\<forall>p g. Kill p g \<notin> set tr2"
    using wait_loop_run [OF assms(6)] by blast
  let ?cs = "map (ended (set pids)) (m_sub_process s)"
  let ?t = "s\<lparr>m_sub_process := ?cs, pp_trace := tr2 @ tr1 @ pp_trace s, pp_stop := all_ended ?cs\<rparr>"
  have e1: "parent_events [(a, signal_event s)] s = Some ?s"
    using assms(2,3) 1(1) by (simp add: parent_event_def signal_event_def parent_signals_def parent_signal_def
      byte_sig_byte SIGTERM_def SIGCHLD_def SIGINT_def)
  have e2: "parent_events [(b, signal_event s)] ?s = Some ?t"
    using assms(2,4,5) 2(1) by (simp add: parent_event_def signal_event_def parent_signals_def parent_signal_def
      byte_sig_byte SIGCHLD_def on_sigchld_def Let_def)
  have al: "all_ended ?cs \<longleftrightarrow> (\<forall>p \<in> set (m_sub_process s). m_pid p = - 1 \<or> m_pid p \<in> set pids)"
    by (auto simp: all_ended_def list_all_iff ended_def)
  have "parent_loop (Pp_events [(a, signal_event s)] # Pp_events [(b, signal_event s)] # ws) s = parent_loop ws ?t"
    using assms(1) e1 e2 by simp
  also have "\<dots> = (if \<forall>p \<in> set (m_sub_process s). m_pid p = - 1 \<or> m_pid p \<in> set pids then Some ?t else parent_loop ws ?t)"
    unfolding al [symmetric]
  proof (cases "all_ended ?cs")
    case False
    show "parent_loop ws ?t = (if all_ended ?cs then Some ?t else parent_loop ws ?t)"
      by (simp only: False if_False)
  qed simp
  finally have l: "parent_loop (Pp_events [(a, signal_event s)] # Pp_events [(b, signal_event s)] # ws) s =
    (if \<forall>p \<in> set (m_sub_process s). m_pid p = - 1 \<or> m_pid p \<in> set pids then Some ?t else parent_loop ws ?t)" .
  show ?thesis using l 1(2,3) 2(2,3) by (intro exI [of _ ?t] exI [of _ "tr2 @ tr1"]) simp
qed

definition sample_signal :: "int \<Rightarrow> int list \<Rightarrow> unit pp_answers" where
  "sample_signal sig pids = \<lparr>pa_signals = Some [sig_byte sig], pa_waits = (\<lambda>_. pids), pa_pipe = Recv_again,
     pa_accept = (7, \<lparr>sin_addr = 0, sin_port = 0\<rparr>), pa_errno = 0, pa_flags = (\<lambda>_. 2), pa_user = ()\<rparr>"

theorem pp_shutdown_witness:
  "\<exists>s' tr. parent_loop [Pp_events [(sample_signal SIGTERM [], signal_event sample_pool)],
       Pp_events [(sample_signal SIGCHLD [103, 101], signal_event sample_pool)]] sample_pool = Some s'
    \<and> pp_trace s' = tr \<and> Kill 101 SIGTERM \<in> set tr \<and> Kill 103 SIGTERM \<in> set tr \<and> Close 10 \<in> set tr \<and> Close 12 \<notin> set tr"
proof -
  have a: "\<not> pp_stop sample_pool" "pp_listenfd sample_pool \<noteq> fst (pp_sig_pipefd sample_pool)"
    "pa_signals (sample_signal SIGTERM []) = Some [sig_byte SIGTERM]"
    "pa_signals (sample_signal SIGCHLD [103, 101]) = Some [sig_byte SIGCHLD]"
    "pa_waits (sample_signal SIGCHLD [103, 101]) 0 = [103, 101]" "\<forall>pid \<in> set [103, 101]. (0::int) < pid"
    by (simp_all add: sample_pool_def sample_signal_def)
  have "\<forall>p \<in> set (m_sub_process sample_pool). m_pid p = - 1 \<or> m_pid p \<in> set [103, 101]"
    "pp_trace sample_pool = []" by (simp_all add: sample_pool_def)
  then obtain s' tr where "parent_loop [Pp_events [(sample_signal SIGTERM [], signal_event sample_pool)],
       Pp_events [(sample_signal SIGCHLD [103, 101], signal_event sample_pool)]] sample_pool = Some s'" "pp_trace s' = tr"
    "\<forall>p g. Kill p g \<in> set tr \<longleftrightarrow> g = SIGTERM \<and> p \<noteq> - 1 \<and> p \<in> m_pid ` set (m_sub_process sample_pool)"
    "\<forall>fd. Close fd \<in> set tr \<longleftrightarrow> (\<exists>p \<in> set (m_sub_process sample_pool). m_pid p \<in> set [103, 101] \<and> fst (m_pipefd p) = fd)"
    using pp_shutdown [OF a, of "[]"] by auto
  then show ?thesis by (intro exI [of _ s'] exI [of _ tr]) (simp add: sample_pool_def)
qed

subsection \<open>The processes of the pool\<close>

definition child_entry :: "int \<times> (int \<times> int) \<times> int \<Rightarrow> pool_child" where
  "child_entry a = \<lparr>m_pid = snd (snd a), m_pipefd = fst (snd a)\<rparr>"

definition close_child_end :: "int \<times> (int \<times> int) \<times> int \<Rightarrow> sys_call" where
  "close_child_end a = Close (snd (fst (snd a)))"

lemma fork_loop_parents:
  "\<forall>a \<in> set as. fst a = 0 \<and> 0 < snd (snd a) \<Longrightarrow> i + length as \<le> length (m_sub_process s) \<Longrightarrow>
   fork_loop (as @ bs) i s = fork_loop bs (i + length as) (s\<lparr>m_sub_process := take i (m_sub_process s)
       @ map child_entry as @ drop (i + length as) (m_sub_process s),
     pp_trace := rev (map close_child_end as) @ pp_trace s\<rparr>)"
proof (induction as arbitrary: i s)
  case (Cons a as)
  obtain ret p pid where a: "a = (ret, p, pid)" by (cases a) auto
  have p: "ret = 0" "0 < pid" "i < length (m_sub_process s)" using Cons.prems a by auto
  let ?s = "s\<lparr>m_sub_process := (m_sub_process s)[i := child_entry a], pp_trace := close_child_end a # pp_trace s\<rparr>"
  have 1: "fork_step a i s = Some (False, ?s)"
    using p by (cases s) (simp add: fork_step_def a child_entry_def close_child_end_def pp_sys_def)
  have t: "take (i + 1) ((m_sub_process s)[i := child_entry a]) = take i (m_sub_process s) @ [child_entry a]"
    using p(3) by (simp add: take_Suc_conv_app_nth)
  have "fork_loop (as @ bs) (i + 1) ?s = fork_loop bs (i + 1 + length as) (?s\<lparr>m_sub_process := take (i + 1) (m_sub_process ?s)
       @ map child_entry as @ drop (i + 1 + length as) (m_sub_process ?s),
     pp_trace := rev (map close_child_end as) @ pp_trace ?s\<rparr>)"
    using Cons.IH [of "i + 1" ?s] Cons.prems by simp
  then show ?case using 1 t by simp
qed simp

definition pool_start :: "nat \<Rightarrow> int \<Rightarrow> trace \<Rightarrow> processpool" where
  "pool_start n l tr = \<lparr>m_process_number = int n, m_idx = - 1, pp_epollfd = 0, pp_listenfd = l,
         pp_stop = False, m_sub_process = replicate n \<lparr>m_pid = - 1, m_pipefd = (0, 0)\<rparr>,
         pp_sig_pipefd = (0, 0), sub_process_counter = 0, pp_trace = tr\<rparr>"

lemma processpool_new_eq:
  "0 < n \<Longrightarrow> n \<le> 16 \<Longrightarrow> processpool_new answers l (int n) tr = fork_loop (map answers [0..<n]) 0 (pool_start n l tr)"
  by (simp add: processpool_new_def MAX_PROCESS_NUMBER_def pool_start_def)

lemma parent_new:
  assumes "0 < n" "n \<le> 16" "\<forall>j < n. fst (answers j) = 0 \<and> 0 < snd (snd (answers j))"
  shows "processpool_new answers l (int n) tr = Some ((pool_start n l tr)\<lparr>
     m_sub_process := map (child_entry o answers) [0..<n],
     pp_trace := rev (map (close_child_end o answers) [0..<n]) @ tr\<rparr>)"
  using fork_loop_parents [of "map answers [0..<n]" 0 "pool_start n l tr" "[]"] assms
  by (simp add: processpool_new_eq pool_start_def)

lemma child_new:
  assumes "0 < n" "n \<le> 16" "k < n" "\<forall>j < k. fst (answers j) = 0 \<and> 0 < snd (snd (answers j))"
    and "answers k = (0, (p, q), 0)"
  shows "\<exists>e. processpool_new answers l (int n) tr = Some ((pool_start n l tr)\<lparr>m_idx := int k,
     m_sub_process := map (child_entry o answers) [0..<k] @ \<lparr>m_pid = 0, m_pipefd = (p, q)\<rparr> # replicate (n - k - 1) \<lparr>m_pid = - 1, m_pipefd = (0, 0)\<rparr>,
     pp_trace := [Print e, Close p] @ rev (map (close_child_end o answers) [0..<k]) @ tr\<rparr>)"
proof -
  have sp: "map answers [0..<n] = map answers [0..<k] @ answers k # map answers [Suc k..<n]"
    using assms(3) by (metis map_append list.map(2) upt_conv_Cons upt_add_eq_append le_add_diff_inverse less_imp_le zero_le)
  let ?s = "(pool_start n l tr)\<lparr>m_sub_process := map (child_entry o answers) [0..<k] @ replicate (n - k) \<lparr>m_pid = - 1, m_pipefd = (0, 0)\<rparr>,
     pp_trace := rev (map (close_child_end o answers) [0..<k]) @ tr\<rparr>"
  have 1: "processpool_new answers l (int n) tr = fork_loop (answers k # map answers [Suc k..<n]) k ?s"
    using fork_loop_parents [of "map answers [0..<k]" 0 "pool_start n l tr" "answers k # map answers [Suc k..<n]"] assms(1-4)
    by (simp add: processpool_new_eq sp pool_start_def)
  obtain m where m: "n - k = Suc m" using assms(3) by (cases "n - k") auto
  have "fork_step (answers k) k ?s = Some (True, ?s\<lparr>m_idx := int k,
     m_sub_process := map (child_entry o answers) [0..<k] @ \<lparr>m_pid = 0, m_pipefd = (p, q)\<rparr> # replicate (n - k - 1) \<lparr>m_pid = - 1, m_pipefd = (0, 0)\<rparr>,
     pp_trace := [Print (''create process pid= '' @ dec 0 @ [LF]), Close p] @ pp_trace ?s\<rparr>)"
    using assms(3,5) m by (simp add: fork_step_def pp_sys_def list_update_append pool_start_def)
  then show ?thesis using 1 by (intro exI [of _ "''create process pid= '' @ dec 0 @ [LF]"]) (simp add: pool_start_def)
qed

text \<open>The constructor makes a parent and its children: if every fork answers a process number, the
  result is the parent, with the children in order, all alive, and the children's ends of the pipes
  closed; if the k-th fork answers 0 the result is child k, which closes the parent's end of its own
  pipe only and so keeps the parent's ends of the pipes of the children made before it.\<close>

theorem pp_fork_tree:
  assumes "0 < n" "n \<le> 16" and "\<forall>j < n. fst (answers j) = 0" and "k \<le> n"
    and "\<forall>j < k. 0 < snd (snd (answers j))" and "k < n \<longrightarrow> snd (snd (answers k)) = 0"
  shows "\<exists>s es. processpool_new answers l (int n) tr = Some s \<and> m_process_number s = int n \<and> pp_listenfd s = l
    \<and> (\<forall>j < k. m_sub_process s ! j = child_entry (answers j)) \<and> length (m_sub_process s) = n
    \<and> m_idx s = (if k = n then - 1 else int k)
    \<and> pp_trace s = es @ rev (map (close_child_end o answers) [0..<k]) @ tr
    \<and> (if k = n then es = [] \<and> pp_ok s \<and> (\<forall>p \<in> set (m_sub_process s). m_pid p \<noteq> - 1)
       else (\<exists>e. es = [Print e, Close (fst (fst (snd (answers k))))]) \<and> m_sub_process s ! k = child_entry (answers k))"
proof (cases "k = n")
  case True
  then have p: "\<forall>j < n. fst (answers j) = 0 \<and> 0 < snd (snd (answers j))" using assms(3,5) by simp
  show ?thesis unfolding parent_new [OF assms(1,2) p] using True assms(1) p
    by (force simp: pool_start_def pp_ok_def child_entry_def)
next
  case False
  then have k: "k < n" using assms(4) by simp
  have "\<exists>p q. answers k = (0, (p, q), 0)"
    using assms(3,6) k by (intro exI [of _ "fst (fst (snd (answers k)))"] exI [of _ "snd (fst (snd (answers k)))"]) (simp add: prod_eq_iff)
  then obtain p q where pq: "answers k = (0, (p, q), 0)" by blast
  have "\<forall>j < k. fst (answers j) = 0 \<and> 0 < snd (snd (answers j))" using assms(3,5) k by simp
  from child_new [OF assms(1,2) k this pq, of l tr] obtain e where e: "processpool_new answers l (int n) tr = Some ((pool_start n l tr)\<lparr>m_idx := int k,
     m_sub_process := map (child_entry o answers) [0..<k] @ \<lparr>m_pid = 0, m_pipefd = (p, q)\<rparr> # replicate (n - k - 1) \<lparr>m_pid = - 1, m_pipefd = (0, 0)\<rparr>,
     pp_trace := [Print e, Close p] @ rev (map (close_child_end o answers) [0..<k]) @ tr\<rparr>)" (is "_ = Some ?s") ..
  show ?thesis unfolding e using k pq False
    by (intro exI [of _ ?s] exI [of _ "[Print e, Close p]"]) (simp add: pool_start_def nth_append child_entry_def)
qed

definition sample_forks :: "int \<Rightarrow> nat \<Rightarrow> int \<times> (int \<times> int) \<times> int" where
  "sample_forks pid j = (0, (10 + 2 * int j, 11 + 2 * int j), if j = 1 then pid else 100 + int j)"

theorem pp_fork_tree_witness:
  "\<exists>s. processpool_new (sample_forks 0) 3 2 [] = Some s \<and> m_idx s = 1 \<and> Close 12 \<in> set (pp_trace s)"
proof -
  have a: "(0::nat) < 2" "(2::nat) \<le> 16" "\<forall>j < 2. fst (sample_forks 0 j) = 0" "(1::nat) \<le> 2"
    "\<forall>j < 1. 0 < snd (snd (sample_forks 0 j))" "(1::nat) < 2 \<longrightarrow> snd (snd (sample_forks 0 1)) = 0"
    by (simp_all add: sample_forks_def)
  obtain s es where "processpool_new (sample_forks 0) 3 (int 2) [] = Some s" "m_idx s = (if (1::nat) = 2 then - 1 else int 1)"
    "pp_trace s = es @ rev (map (close_child_end o sample_forks 0) [0..<1]) @ []"
    "if (1::nat) = 2 then es = [] \<and> pp_ok s \<and> (\<forall>p \<in> set (m_sub_process s). m_pid p \<noteq> - 1)
       else (\<exists>e. es = [Print e, Close (fst (fst (snd (sample_forks 0 1))))]) \<and> m_sub_process s ! 1 = child_entry (sample_forks 0 1)"
    using pp_fork_tree [OF a, of 3 "[]"] by blast
  then show ?thesis by (intro exI [of _ s]) (auto simp: sample_forks_def)
qed

end
