(* ===== verification/ProcessPool_Child.thy ===== *)
theory ProcessPool_Child
  imports ProcessPool_Props
begin

text \<open>
  A child of the process pool and the connections it serves.  The pool is a template over the class of
  a connection; the locale states what it relies on, and the connection of
  \<open>epoll/processuser.cpp\<close> provides it.
\<close>

locale pool_user =
  fixes uinit :: "int \<Rightarrow> int \<Rightarrow> int \<Rightarrow> sockaddr_in \<Rightarrow> 'u \<Rightarrow> 'u"
    and uprocess :: "'r \<Rightarrow> epoll_flag list \<Rightarrow> 'u \<times> trace \<Rightarrow> ('u \<times> trace) option"
    and ufd :: "'u \<Rightarrow> int"
  assumes init_fd: "ufd (uinit efd fd pid addr u) = fd"
    and process_fd: "uprocess r evs (u, tr) = Some (u', tr') \<Longrightarrow> ufd u' = ufd u \<or> ufd u' = - 1"
    and process_trace: "uprocess r evs (u, tr) = Some (u', tr') \<Longrightarrow> \<exists>es. tr' = es @ tr \<and> (\<forall>fd. Close fd \<notin> set es)"
begin

text \<open>Every object of the array belongs to its own index or to no descriptor.\<close>

definition placed :: "'u child_state \<Rightarrow> bool" where
  "placed c \<longleftrightarrow> (\<forall>fd. ufd (cs_users c fd) = fd \<or> ufd (cs_users c fd) = - 1)"

definition grown :: "'u child_state \<Rightarrow> 'u child_state \<Rightarrow> bool" where
  "grown c c' \<longleftrightarrow> (placed c \<longrightarrow> placed c')
     \<and> (\<exists>es. pp_trace (cs_pool c') = es @ pp_trace (cs_pool c) \<and> (\<forall>fd. Close fd \<notin> set es))"

lemma grown_refl: "grown c c"
  by (simp add: grown_def)

lemma grown_trans: "grown a b \<Longrightarrow> grown b c \<Longrightarrow> grown a c"
  unfolding grown_def by (metis append.assoc set_append Un_iff)

lemma grown_print: "grown c (cs_sys (Print x) c)"
  by (simp add: grown_def placed_def cs_sys_def pp_sys_def)

lemma child_accept_grown:
  assumes "child_accept uinit a c = Some c'"
  shows "grown c c'"
proof (cases "pa_accept a")
  case (Pair connfd addr)
  consider "pa_pipe a = Recv_error \<or> pa_pipe a = Recv_closed" | "pa_pipe a \<noteq> Recv_error" "pa_pipe a \<noteq> Recv_closed" "connfd < 0"
    | "pa_pipe a \<noteq> Recv_error" "pa_pipe a \<noteq> Recv_closed" "0 \<le> connfd" by fastforce
  then show ?thesis
  proof cases
    case 1
    then show ?thesis using assms Pair by (auto simp: child_accept_def grown_refl)
  next
    case 2
    then show ?thesis using assms Pair grown_print by (auto simp: child_accept_def)
  next
    case 3
    then show ?thesis using assms Pair
      by (auto simp: child_accept_def cs_user_def grown_def placed_def init_fd util_addfd_def util_setnonblocking_def
          Let_def split: bind_splits if_splits)
  qed
qed

lemma child_signals_grown: "child_signals bs c = Some c' \<Longrightarrow> grown c c'"
proof (induction bs arbitrary: c)
  case (Cons b bs)
  then obtain c1 where 1: "child_signal b c = Some c1" "child_signals bs c1 = Some c'"
    by (auto split: bind_splits)
  have "grown c c1" using 1(1)
    by (auto simp: child_signal_def grown_def placed_def cs_sys_def pp_sys_def split: if_splits bind_splits)
  then show ?case using Cons.IH [OF 1(2)] grown_trans by blast
qed (simp add: grown_refl)

lemma child_user_grown:
  assumes "child_user uprocess r ev fd c = Some c'"
  shows "grown c c'"
proof -
  obtain u u' tr' where u: "cs_user fd c = Some u" "uprocess r [ev] (u, pp_trace (cs_pool c)) = Some (u', tr')"
    "c' = c\<lparr>cs_users := (cs_users c)(fd := u'), cs_pool := (cs_pool c)\<lparr>pp_trace := tr'\<rparr>\<rparr>"
    using assms by (auto simp: child_user_def split: bind_splits)
  have "u = cs_users c fd" using u(1) by (simp add: cs_user_def split: if_splits)
  then show ?thesis using process_fd [OF u(2)] process_trace [OF u(2)] u(3)
    unfolding grown_def placed_def by auto
qed

lemma child_event_grown: "child_event uinit uprocess a e c = Some c' \<Longrightarrow> grown c c'"
  unfolding child_event_def
  by (auto simp: Let_def grown_refl child_accept_grown child_signals_grown child_user_grown split: if_splits option.splits)

lemma child_events_grown: "child_events uinit uprocess es c = Some c' \<Longrightarrow> grown c c'"
proof (induction es arbitrary: c)
  case (Cons e es)
  then obtain c1 where "child_event uinit uprocess (fst e) (snd e) c = Some c1" "child_events uinit uprocess es c1 = Some c'"
    by (auto split: bind_splits)
  then show ?case using Cons.IH child_event_grown grown_trans by blast
qed (simp add: grown_refl)

lemma child_loop_grown: "child_loop uinit uprocess ws c = Some c' \<Longrightarrow> grown c c'"
proof (induction ws arbitrary: c)
  case Nil
  then show ?case by (simp add: grown_refl split: if_splits)
next
  case (Cons w ws)
  show ?case
  proof (cases "pp_stop (cs_pool c)")
    case True
    then show ?thesis using Cons.prems by (simp add: grown_refl)
  next
    case False
    show ?thesis
    proof (cases w)
      case (Pp_failed eintr)
      then show ?thesis using Cons False by (cases eintr) (auto simp: grown_print)
    next
      case (Pp_events es)
      then obtain c1 where "child_events uinit uprocess es c = Some c1" "child_loop uinit uprocess ws c1 = Some c'"
        using Cons.prems False by (auto split: bind_splits)
      then show ?thesis using Cons.IH child_events_grown grown_trans by blast
    qed
  qed
qed

end

text \<open>The connection of the pool's users.\<close>

definition pu_answer :: "recv_result \<times> send_result \<Rightarrow> epoll_flag list \<Rightarrow> process_user \<times> trace
    \<Rightarrow> (process_user \<times> trace) option" where
  "pu_answer r = pu_process (fst r) (snd r)"

lemma pu_answer_fd: "pu_answer r evs (u, tr) = Some (u', tr') \<Longrightarrow> pu_fd u' = pu_fd u \<or> pu_fd u' = - 1"
  unfolding pu_answer_def pu_process_def readSocket_def writeSocket_def registerEvents_def
  by (auto simp: Let_def pu_clear_def split: if_splits recv_result.splits send_result.splits bind_splits)

lemma pu_answer_trace:
  "pu_answer r evs (u, tr) = Some (u', tr') \<Longrightarrow> \<exists>es. tr' = es @ tr \<and> (\<forall>fd. Close fd \<notin> set es)"
  unfolding pu_answer_def pu_process_def readSocket_def writeSocket_def registerEvents_def
  by (auto simp: Let_def split: if_splits recv_result.splits send_result.splits bind_splits)

interpretation pu: pool_user pu_init pu_answer pu_fd
proof
  show "pu_fd (pu_init efd fd pid addr u) = fd" for efd fd pid addr u by (simp add: pu_init_def)
qed (fact pu_answer_fd pu_answer_trace)+

definition users_placed :: "process_user child_state \<Rightarrow> bool" where
  "users_placed c \<longleftrightarrow> (\<forall>fd. pu_fd (cs_users c fd) = fd \<or> pu_fd (cs_users c fd) = - 1)"

text \<open>C29: A child never mixes connections up and never closes one: through any sequence of events every
  object of the array keeps the descriptor of its own index (or none), and no descriptor is closed,
  not even that of a client that has gone, until the child ends.\<close>

theorem pp_child_never_closes:
  assumes "child_loop pu_init pu_answer ws c = Some c'" and "users_placed c"
  shows "users_placed c' \<and> (\<exists>es. pp_trace (cs_pool c') = es @ pp_trace (cs_pool c) \<and> (\<forall>fd. Close fd \<notin> set es))"
  using pu.child_loop_grown [OF assms(1)] assms(2) unfolding pu.grown_def pu.placed_def users_placed_def by blast

definition sample_child :: "process_user child_state" where
  "sample_child = \<lparr>cs_pool = sample_pool\<lparr>m_idx := 1\<rparr>, cs_pipefd = 13,
     cs_users = (\<lambda>_. pu_clear sample_user)\<rparr>"

definition sample_serve :: "recv_result \<Rightarrow> send_result \<Rightarrow> (recv_result \<times> send_result) pp_answers" where
  "sample_serve r w = \<lparr>pa_signals = Some [sig_byte SIGTERM], pa_waits = (\<lambda>_. []), pa_pipe = Received new_conn,
     pa_accept = (20, \<lparr>sin_addr = 0x7F000001, sin_port = 9000\<rparr>), pa_errno = 0, pa_flags = (\<lambda>_. 2), pa_user = (r, w)\<rparr>"

theorem pp_child_never_closes_witness:
  "\<exists>c'. child_loop pu_init pu_answer [Pp_events [(sample_serve Recv_closed Send_error, \<lparr>ev_fd = 13, ev_events = [EPOLLIN]\<rparr>),
       (sample_serve Recv_closed Send_error, \<lparr>ev_fd = 20, ev_events = [EPOLLIN]\<rparr>),
       (sample_serve Recv_closed Send_error, \<lparr>ev_fd = 7, ev_events = [EPOLLIN]\<rparr>)]] sample_child = Some c'
     \<and> pu_fd (cs_users c' 20) = - 1 \<and> Close 20 \<notin> set (pp_trace (cs_pool c'))"
proof -
  have p: "users_placed sample_child" by (simp add: users_placed_def sample_child_def pu_clear_def)
  obtain c' where 1: "child_loop pu_init pu_answer [Pp_events [(sample_serve Recv_closed Send_error, \<lparr>ev_fd = 13, ev_events = [EPOLLIN]\<rparr>),
       (sample_serve Recv_closed Send_error, \<lparr>ev_fd = 20, ev_events = [EPOLLIN]\<rparr>),
       (sample_serve Recv_closed Send_error, \<lparr>ev_fd = 7, ev_events = [EPOLLIN]\<rparr>)]] sample_child = Some c'"
    "pu_fd (cs_users c' 20) = - 1"
    by (simp add: child_event_def child_accept_def child_user_def child_signal_def cs_user_def sample_child_def sample_serve_def
        USER_PER_PROCESS_def sample_pool_def arr_get_def pu_init_def pu_answer_def pu_process_def readSocket_def
        pu_clear_def cs_sys_def pp_sys_def byte_sig_byte SIGTERM_def Let_def nth_Cons')
  have "pp_trace (cs_pool sample_child) = []" by (simp add: sample_child_def sample_pool_def)
  then show ?thesis using pp_child_never_closes [OF 1(1) p] 1 by auto
qed

text \<open>What one read of a text does to a connection.\<close>

lemma readSocket_text:
  assumes "read_string 4096 x = Some t"
  shows "t = ''exit'' \<Longrightarrow> readSocket (Received x) (u, tr) = Some (u\<lparr>pu_readbuf := pu_readbuf u @ t\<rparr>,
      [Print ('' client exit shutdowm write = '' @ pu_ip u @ [LF]), Shutdown (pu_fd u), Print ('' recv from  '' @ pu_ip u @ '' : '' @ t @ [LF])] @ tr)"
    and "t \<noteq> ''exit'' \<Longrightarrow> readSocket (Received x) (u, tr) = Some (u\<lparr>pu_writebuf := pu_writebuf u @ pu_readbuf u @ t, pu_readbuf := []\<rparr>,
      [Epoll_mod (pu_efd u) (pu_fd u) [EPOLLIN, EPOLLOUT], Print ('' recv from  '' @ pu_ip u @ '' : '' @ t @ [LF])] @ tr)"
  using assms by (simp_all add: readSocket_def registerEvents_def)

text \<open>The calls of one descriptor that send or shut down.\<close>

definition sends :: "trace \<Rightarrow> sys_call list" where
  "sends tr = [e \<leftarrow> rev tr. case e of Write _ _ \<Rightarrow> True | Shutdown _ \<Rightarrow> True | _ \<Rightarrow> False]"

lemma sends_append: "sends (a @ b) = sends b @ sends a"
  by (simp add: sends_def)

lemma sends_addfd: "\<exists>es. util_addfd flags efd fd one et tr = es @ tr \<and> sends es = []"
  by (auto simp: util_addfd_def util_setnonblocking_def Let_def sends_def)

text \<open>C28: From the announcement to the answer, for every text a client can send.  A child that is told of a
  connection accepts it; of what it then reads it takes the text up to the first NUL.  A text other
  than exit is written back, when the descriptor is writable, in one call of write behind the client's address
  and what the buffers of that object still hold (nothing, once it was cleared), and nothing else is written; the buffers are
  then empty, however little of the message the call took.  The text exit is answered with a
  shutdown of the sending side in place of any write.  A read that fills the 4096 bytes without a
  NUL is undefined.\<close>

theorem pp_child_serves:
  assumes "cs_pipefd c \<noteq> fd" "fst (pp_sig_pipefd (cs_pool c)) \<noteq> fd" "0 \<le> fd" "fd < 65536"
    and "0 \<le> m_idx (cs_pool c)" "m_idx (cs_pool c) < int (length (m_sub_process (cs_pool c)))"
    and "pa_pipe a = Received new_conn" "pa_accept a = (fd, addr)"
    and "pa_user b = (Received x, w)" "pa_user d = (r, Sent n)" "0 < n"
    and "told = (a, \<lparr>ev_fd = cs_pipefd c, ev_events = [EPOLLIN]\<rparr>)" "got = (b, \<lparr>ev_fd = fd, ev_events = [EPOLLIN]\<rparr>)"
    and "writable = (d, \<lparr>ev_fd = fd, ev_events = [EPOLLOUT]\<rparr>)"
  shows "case read_string 4096 x of
      None \<Rightarrow> child_events pu_init pu_answer [told, got] c = None
    | Some t \<Rightarrow>
      (if t = ''exit'' then
         \<exists>c' tr. child_events pu_init pu_answer [told, got] c = Some c' \<and> pp_trace (cs_pool c') = tr @ pp_trace (cs_pool c)
           \<and> sends tr = [Shutdown fd] \<and> pu_fd (cs_users c' fd) = fd
       else
         \<exists>c' tr. child_events pu_init pu_answer [told, got, writable] c = Some c' \<and> pp_trace (cs_pool c') = tr @ pp_trace (cs_pool c)
           \<and> sends tr = [Write fd (''resp from '' @ inet_ntoa (sin_addr addr) @ '' '' @ pu_writebuf (cs_users c fd) @ pu_readbuf (cs_users c fd) @ t)]
           \<and> pu_fd (cs_users c' fd) = fd \<and> pu_writebuf (cs_users c' fd) = [] \<and> pu_readbuf (cs_users c' fd) = [])"
proof -
  let ?p = "cs_pool c"
  let ?pid = "m_pid (m_sub_process ?p ! nat (m_idx ?p))"
  let ?u = "pu_init (pp_epollfd ?p) fd ?pid addr (cs_users c fd)"
  obtain e1 where e1: "util_addfd (pa_flags a) (pp_epollfd ?p) fd False True (pp_trace ?p) = e1 @ pp_trace ?p" "sends e1 = []"
    using sends_addfd by blast
  let ?t1 = "e1 @ pp_trace ?p"
  let ?c1 = "c\<lparr>cs_pool := ?p\<lparr>pp_trace := ?t1\<rparr>, cs_users := (cs_users c)(fd := ?u)\<rparr>"
  have "arr_get (m_sub_process ?p) (m_idx ?p) = Some (m_sub_process ?p ! nat (m_idx ?p))"
    using assms(5,6) by (simp add: arr_get_def)
  then have 1: "child_event pu_init pu_answer (fst told) (snd told) c = Some ?c1"
    using assms(3,4,7,8) e1(1) by (simp add: assms(12) child_event_def child_accept_def cs_user_def USER_PER_PROCESS_def Let_def)
  have 2: "child_event pu_init pu_answer (fst got) (snd got) ?c1 = (case readSocket (Received x) (?u, ?t1) of None \<Rightarrow> None
      | Some (u, tr) \<Rightarrow> Some (?c1\<lparr>cs_users := (cs_users c)(fd := u), cs_pool := ?p\<lparr>pp_trace := tr\<rparr>\<rparr>))"
    using assms(1-4,9)
    by (simp add: assms(13) child_event_def child_user_def cs_user_def USER_PER_PROCESS_def pu_answer_def pu_process_def Let_def
        split: option.split)
  have u: "pu_fd ?u = fd" "pu_ip ?u = inet_ntoa (sin_addr addr)" "pu_writebuf ?u = pu_writebuf (cs_users c fd)"
    "pu_readbuf ?u = pu_readbuf (cs_users c fd)" by (simp_all add: pu_init_def)
  show ?thesis
  proof (cases "read_string 4096 x")
    case None
    then have "readSocket (Received x) (?u, ?t1) = None" by (simp add: readSocket_def)
    then show ?thesis using None 1 2 by simp
  next
    case (Some t)
    note rd = readSocket_text [OF Some, of ?u ?t1]
    show ?thesis
    proof (cases "t = ''exit''")
      case True
      let ?e2 = "[Print ('' client exit shutdowm write = '' @ pu_ip ?u @ [LF]), Shutdown (pu_fd ?u), Print ('' recv from  '' @ pu_ip ?u @ '' : '' @ t @ [LF])]"
      have "child_events pu_init pu_answer [told, got] c = Some (?c1\<lparr>cs_users := (cs_users c)(fd := ?u\<lparr>pu_readbuf := pu_readbuf ?u @ t\<rparr>),
          cs_pool := ?p\<lparr>pp_trace := ?e2 @ ?t1\<rparr>\<rparr>)" (is "_ = Some ?c2")
        using 1 2 rd(1) [OF True] by simp
      moreover have "pp_trace (cs_pool ?c2) = (?e2 @ e1) @ pp_trace ?p" by simp
      moreover have "sends (?e2 @ e1) = [Shutdown fd]" using e1(2) u(1) unfolding sends_append by (simp add: sends_def)
      moreover have "pu_fd (cs_users ?c2 fd) = fd" using u(1) by simp
      ultimately have "\<exists>c' tr. child_events pu_init pu_answer [told, got] c = Some c' \<and> pp_trace (cs_pool c') = tr @ pp_trace ?p
          \<and> sends tr = [Shutdown fd] \<and> pu_fd (cs_users c' fd) = fd" by blast
      then show ?thesis using Some True by simp
    next
      case False
      let ?W = "pu_writebuf (cs_users c fd) @ pu_readbuf (cs_users c fd) @ t"
      let ?e2 = "[Epoll_mod (pu_efd ?u) (pu_fd ?u) [EPOLLIN, EPOLLOUT], Print ('' recv from  '' @ pu_ip ?u @ '' : '' @ t @ [LF])]"
      let ?u2 = "?u\<lparr>pu_writebuf := ?W, pu_readbuf := []\<rparr>"
      let ?c2 = "?c1\<lparr>cs_users := (cs_users c)(fd := ?u2), cs_pool := ?p\<lparr>pp_trace := ?e2 @ ?t1\<rparr>\<rparr>"
      have 3: "child_event pu_init pu_answer (fst got) (snd got) ?c1 = Some ?c2" using 2 rd(2) [OF False] u by simp
      let ?e3 = "[Epoll_mod (pu_efd ?u) fd [EPOLLIN], Print ('' len = '' @ dec (int n) @ [LF]),
          Write fd (''resp from '' @ inet_ntoa (sin_addr addr) @ '' '' @ ?W)]"
      let ?c3 = "?c2\<lparr>cs_users := (cs_users c)(fd := ?u2\<lparr>pu_writebuf := []\<rparr>), cs_pool := ?p\<lparr>pp_trace := ?e3 @ ?e2 @ ?t1\<rparr>\<rparr>"
      have "child_event pu_init pu_answer (fst writable) (snd writable) ?c2 = Some ?c3"
        using assms(1-4,10,11) u
        by (simp add: assms(14) child_event_def child_user_def cs_user_def USER_PER_PROCESS_def pu_answer_def pu_process_def
            writeSocket_def registerEvents_def Let_def)
      then have "child_events pu_init pu_answer [told, got, writable] c = Some ?c3" using 1 3 by simp
      moreover have "pp_trace (cs_pool ?c3) = (?e3 @ ?e2 @ e1) @ pp_trace ?p" by simp
      moreover have "sends (?e3 @ ?e2 @ e1) = [Write fd (''resp from '' @ inet_ntoa (sin_addr addr) @ '' '' @ ?W)]"
        using e1(2) unfolding sends_append by (simp add: sends_def)
      moreover have "pu_fd (cs_users ?c3 fd) = fd" "pu_writebuf (cs_users ?c3 fd) = []" "pu_readbuf (cs_users ?c3 fd) = []"
        using u(1) by simp_all
      ultimately have "\<exists>c' tr. child_events pu_init pu_answer [told, got, writable] c = Some c' \<and> pp_trace (cs_pool c') = tr @ pp_trace ?p
          \<and> sends tr = [Write fd (''resp from '' @ inet_ntoa (sin_addr addr) @ '' '' @ ?W)]
          \<and> pu_fd (cs_users c' fd) = fd \<and> pu_writebuf (cs_users c' fd) = [] \<and> pu_readbuf (cs_users c' fd) = []" by blast
      then show ?thesis using Some False by simp
    qed
  qed
qed

theorem pp_child_serves_witness:
  "\<exists>c' tr. child_events pu_init pu_answer [(sample_serve Recv_again Send_again, \<lparr>ev_fd = 13, ev_events = [EPOLLIN]\<rparr>),
       (sample_serve (Received ''hi'') Send_again, \<lparr>ev_fd = 20, ev_events = [EPOLLIN]\<rparr>),
       (sample_serve Recv_again (Sent 22), \<lparr>ev_fd = 20, ev_events = [EPOLLOUT]\<rparr>)] sample_child = Some c'
     \<and> pp_trace (cs_pool c') = tr \<and> sends tr = [Write 20 ''resp from 127.0.0.1 hi'']"
proof -
  have i: "inet_ntoa 0x7F000001 = ''127.0.0.1''" by code_simp
  have c: "cs_pipefd sample_child = 13" "pp_trace (cs_pool sample_child) = []"
    "pu_writebuf (cs_users sample_child 20) = []" "pu_readbuf (cs_users sample_child 20) = []"
    by (simp_all add: sample_child_def sample_pool_def pu_clear_def)
  have "read_string 4096 ''hi'' = Some ''hi''" by (rule read_string_text) simp_all
  moreover have "case read_string 4096 ''hi'' of
      None \<Rightarrow> child_events pu_init pu_answer [(sample_serve Recv_again Send_again, \<lparr>ev_fd = cs_pipefd sample_child, ev_events = [EPOLLIN]\<rparr>),
       (sample_serve (Received ''hi'') Send_again, \<lparr>ev_fd = 20, ev_events = [EPOLLIN]\<rparr>)] sample_child = None
    | Some t \<Rightarrow>
      (if t = ''exit'' then
         \<exists>c' tr. child_events pu_init pu_answer [(sample_serve Recv_again Send_again, \<lparr>ev_fd = cs_pipefd sample_child, ev_events = [EPOLLIN]\<rparr>),
            (sample_serve (Received ''hi'') Send_again, \<lparr>ev_fd = 20, ev_events = [EPOLLIN]\<rparr>)] sample_child = Some c'
           \<and> pp_trace (cs_pool c') = tr @ pp_trace (cs_pool sample_child) \<and> sends tr = [Shutdown 20] \<and> pu_fd (cs_users c' 20) = 20
       else
         \<exists>c' tr. child_events pu_init pu_answer [(sample_serve Recv_again Send_again, \<lparr>ev_fd = cs_pipefd sample_child, ev_events = [EPOLLIN]\<rparr>),
            (sample_serve (Received ''hi'') Send_again, \<lparr>ev_fd = 20, ev_events = [EPOLLIN]\<rparr>),
            (sample_serve Recv_again (Sent 22), \<lparr>ev_fd = 20, ev_events = [EPOLLOUT]\<rparr>)] sample_child = Some c'
           \<and> pp_trace (cs_pool c') = tr @ pp_trace (cs_pool sample_child)
           \<and> sends tr = [Write 20 (''resp from '' @ inet_ntoa (sin_addr \<lparr>sin_addr = 0x7F000001, sin_port = 9000\<rparr>) @ '' ''
                @ pu_writebuf (cs_users sample_child 20) @ pu_readbuf (cs_users sample_child 20) @ t)]
           \<and> pu_fd (cs_users c' 20) = 20 \<and> pu_writebuf (cs_users c' 20) = [] \<and> pu_readbuf (cs_users c' 20) = [])"
    by (rule pp_child_serves [where w = Send_again and r = Recv_again and n = 22])
      (simp_all add: sample_child_def sample_pool_def sample_serve_def)
  ultimately show ?thesis unfolding c by (simp add: i) blast
qed

end
