(* ===== verification/HelloServer.thy ===== *)
theory HelloServer
  imports Posix
begin

text \<open>
  The echo server of \<open>epoll/helloserver.cpp\<close> (the branches that are not for Windows): one thread that
  serves its clients with blocking calls, with \<open>select\<close> or with \<open>epoll\<close>.  Operations act on the
  object and the trace; what the operating system answers is an argument.
\<close>

subsection \<open>State\<close>

record client_entity =
  ce_socket :: int
  ce_port :: int
  ce_ip :: string
  ce_recv :: string
  ce_write :: string

text \<open>\<open>std::map<int, ClientEntityPtr>\<close>: pairs in the order of the keys; \<open>insert\<close> keeps an old entry.\<close>

type_synonym client_map = "(int \<times> client_entity) list"

fun cm_insert :: "int \<Rightarrow> client_entity \<Rightarrow> client_map \<Rightarrow> client_map" where
  "cm_insert k e [] = [(k, e)]"
| "cm_insert k e ((l, f) # m) = (if k < l then (k, e) # (l, f) # m
     else if k = l then (l, f) # m else (l, f) # cm_insert k e m)"

definition cm_update :: "int \<Rightarrow> (client_entity \<Rightarrow> client_entity) \<Rightarrow> client_map \<Rightarrow> client_map" where
  "cm_update k f m = map (\<lambda>(l, e). (l, if l = k then f e else e)) m"

definition cm_erase :: "int \<Rightarrow> client_map \<Rightarrow> client_map" where
  "cm_erase k m = filter (\<lambda>(l, e). l \<noteq> k) m"

record hello_server =
  hs_socket :: int
  hs_bStop :: bool
  hs_state :: NetworkState
  hs_port :: "16 word"
  hs_serverIp :: string
  hs_portList :: "16 word list"
  hs_clientMap :: client_map
  hs_trace :: trace

definition hs_sys :: "sys_call \<Rightarrow> hello_server \<Rightarrow> hello_server" where
  "hs_sys e s = s\<lparr>hs_trace := e # hs_trace s\<rparr>"

definition hs_say :: "string \<Rightarrow> hello_server \<Rightarrow> hello_server" where
  "hs_say x s = hs_sys (Print (x @ [LF])) s"

subsection \<open>Sockets\<close>

definition hs_initSocket :: bool where
  "hs_initSocket = True"

definition hs_stop :: "hello_server \<Rightarrow> hello_server" where
  "hs_stop s = s\<lparr>hs_bStop := True\<rparr>"

definition hs_setServerAddr :: "string \<Rightarrow> 16 word \<Rightarrow> 16 word list \<Rightarrow> hello_server \<Rightarrow> hello_server" where
  "hs_setServerAddr ip nPort portList s = s\<lparr>hs_serverIp := ip, hs_port := nPort, hs_portList := portList\<rparr>"

definition hs_closeSocket :: "int \<Rightarrow> hello_server \<Rightarrow> hello_server" where
  "hs_closeSocket fd s = hs_sys (Close fd) s"

definition hs_createSocket :: "int \<Rightarrow> hello_server \<Rightarrow> int \<times> hello_server" where
  "hs_createSocket sock s = (let
      s = (if hs_socket s > 0 then (hs_closeSocket (hs_socket s) s)\<lparr>hs_socket := - 1\<rparr> else s);
      s = s\<lparr>hs_socket := sock\<rparr> in
      if sock = - 1 then (- 1, hs_say ''create tcp socket failed.'' s)
      else (sock, hs_say ''create tcp socket successed.'' s))"

definition hs_setBlock :: "fcntl_answers \<Rightarrow> int \<Rightarrow> bool \<Rightarrow> hello_server \<Rightarrow> bool \<times> hello_server" where
  "hs_setBlock fc fd isblock s = (if fd \<le> 0 then (False, hs_say ''set tcp socket block failed.'' s)
     else (let flags = fc_get fc fd in
       if sint flags < 0 then (False, s)
       else (let flags = (if isblock then flags AND NOT O_NONBLOCK else flags OR O_NONBLOCK);
                 s = hs_sys (Set_flags fd flags) s in
         if \<not> fc_set fc fd then (False, s)
         else (True, hs_say (if isblock then ''set tcp socket block success.''
                             else ''set tcp socket not block success.'') s))))"

definition hs_addEpollfd :: "fcntl_answers \<Rightarrow> int \<Rightarrow> int \<Rightarrow> hello_server \<Rightarrow> hello_server" where
  "hs_addEpollfd fc efd fd s = snd (hs_setBlock fc fd False (hs_sys (Epoll_add efd fd [EPOLLIN]) s))"

text \<open>\<open>start\<close>: the answers of \<open>socket\<close>, \<open>bind\<close> and \<open>listen\<close> are arguments.\<close>

definition hs_start :: "int \<Rightarrow> int \<Rightarrow> int \<Rightarrow> hello_server \<Rightarrow> bool \<times> hello_server" where
  "hs_start sock bind_ret listen_ret s = (let (r, s) = hs_createSocket sock s in
     if r = - 1 then (False, s)
     else (let s = s\<lparr>hs_bStop := False, hs_state := Connecting\<rparr>;
               s = hs_sys (Bind (hs_socket s) 9191) s in
       if bind_ret \<noteq> 0 then (False, hs_say ('' bind ip = '' @ hs_serverIp s @ '' port= '' @ dec (uint (hs_port s)) @ '' failed '') s)
       else (let s = hs_sys (Listen (hs_socket s) 5) s in
         if listen_ret \<noteq> 0 then (False, hs_say ('' listen ip = '' @ hs_serverIp s @ '' port= '' @ dec (uint (hs_port s)) @ '' failed '') s)
         else (True, s))))"

definition hs_closeClient :: "int \<Rightarrow> hello_server \<Rightarrow> hello_server" where
  "hs_closeClient fd s = (let s = hs_say (''client exit socket = '' @ dec fd) s;
       s = hs_closeSocket fd s in s\<lparr>hs_clientMap := cm_erase fd (hs_clientMap s)\<rparr>)"

text \<open>\<^const>\<open>None\<close>: the text runs past its buffer, or the iterator of an unknown client is dereferenced.\<close>

definition readAndResponseSocket :: "recv_result \<Rightarrow> send_result \<Rightarrow> int \<Rightarrow> hello_server \<Rightarrow> hello_server option" where
  "readAndResponseSocket r w fd s = (case r of
      Received x \<Rightarrow> do {
        _ \<leftarrow> map_of (hs_clientMap s) fd;
        szRecv \<leftarrow> read_string 4096 x;
        let s = s\<lparr>hs_clientMap := cm_update fd (\<lambda>e. e\<lparr>ce_recv := ce_recv e @ szRecv\<rparr>) (hs_clientMap s)\<rparr>;
        e \<leftarrow> map_of (hs_clientMap s) fd;
        let s = hs_say ('' recv from  '' @ ce_ip e @ '' : '' @ szRecv) s;
        if szRecv = ''exit'' then Some (hs_closeClient fd s)
        else do {
          let s = hs_sys (Write fd (ce_recv e)) s;
          Some (case w of
              Sent n \<Rightarrow> if n = 0 then hs_say ('' send error ip= '' @ ce_ip e) s
                else (hs_say ('' len = '' @ dec (int n)) s)\<lparr>hs_clientMap := cm_update fd (\<lambda>e. e\<lparr>ce_recv := []\<rparr>) (hs_clientMap s)\<rparr>
            | _ \<Rightarrow> hs_say ('' send error ip= '' @ ce_ip e) s) } }
    | Recv_closed \<Rightarrow> Some (hs_closeClient fd s)
    | _ \<Rightarrow> Some s)"

subsection \<open>The server with epoll\<close>

definition new_client :: "int \<Rightarrow> sockaddr_in \<Rightarrow> hello_server \<Rightarrow> hello_server" where
  "new_client fd addr s = s\<lparr>hs_clientMap := cm_insert fd \<lparr>ce_socket = fd, ce_port = uint (sin_port addr),
      ce_ip = inet_ntoa (sin_addr addr), ce_recv = [], ce_write = []\<rparr> (hs_clientMap s)\<rparr>"

definition say_welcome :: "sockaddr_in \<Rightarrow> hello_server \<Rightarrow> hello_server" where
  "say_welcome addr s = hs_say (''new client connect, ip:'' @ inet_ntoa (sin_addr addr)
     @ ''  port:'' @ dec (uint (sin_port addr))) s"

record hs_answers =
  ha_accept :: "int \<times> sockaddr_in"
  ha_read :: "int \<Rightarrow> recv_result"
  ha_write :: "int \<Rightarrow> send_result"
  ha_fcntl :: fcntl_answers

text \<open>The body of the loop over the events; the flag says that the loop is left.\<close>

definition hs_epoll_event :: "int \<Rightarrow> hs_answers \<Rightarrow> epoll_event \<Rightarrow> hello_server \<Rightarrow> (bool \<times> hello_server) option" where
  "hs_epoll_event efd a e s = (if ev_fd e = hs_socket s then
       (let (newfd, addr) = ha_accept a in
        if newfd = - 1 then Some (True, hs_say ''accept() failed'' s)
        else Some (False, say_welcome addr (hs_addEpollfd (ha_fcntl a) efd newfd (new_client newfd addr s))))
     else if EPOLLIN \<in> set (ev_events e) then
       map_option (Pair False) (readAndResponseSocket (ha_read a (ev_fd e)) (ha_write a (ev_fd e)) (ev_fd e) s)
     else Some (False, s))"

fun hs_epoll_events :: "int \<Rightarrow> (hs_answers \<times> epoll_event) list \<Rightarrow> hello_server \<Rightarrow> hello_server option" where
  "hs_epoll_events efd [] s = Some s"
| "hs_epoll_events efd (e # es) s = do {
     (left, s) \<leftarrow> hs_epoll_event efd (fst e) (snd e) s;
     if left then Some s else hs_epoll_events efd es s }"

text \<open>
  The loop of \<open>startEpoll\<close>, which only a failure of \<open>epoll_wait\<close> (\<^const>\<open>None\<close> in the list) ends; the
  flag of the result says whether it has ended.
\<close>

fun hs_epoll_loop :: "int \<Rightarrow> (hs_answers \<times> epoll_event) list option list \<Rightarrow> hello_server \<Rightarrow> (bool \<times> hello_server) option" where
  "hs_epoll_loop efd [] s = Some (False, s)"
| "hs_epoll_loop efd (None # ws) s = Some (True, s)"
| "hs_epoll_loop efd (Some es # ws) s = do { s \<leftarrow> hs_epoll_events efd es s; hs_epoll_loop efd ws s }"

definition startEpoll :: "fcntl_answers \<Rightarrow> int \<Rightarrow> (hs_answers \<times> epoll_event) list option list \<Rightarrow> hello_server
    \<Rightarrow> (bool \<times> hello_server) option" where
  "startEpoll fc efd ws s = (let s = hs_sys (Epoll_create 1) (hs_say '' start epoll '' s);
      s = hs_addEpollfd fc efd (hs_socket s) s in hs_epoll_loop efd ws s)"

text \<open>The constructor and the destructor.\<close>

definition CHelloServer :: "int \<Rightarrow> int \<Rightarrow> int \<Rightarrow> fcntl_answers \<Rightarrow> int \<Rightarrow> (hs_answers \<times> epoll_event) list option list
    \<Rightarrow> hello_server \<Rightarrow> (bool \<times> hello_server) option" where
  "CHelloServer sock bind_ret listen_ret fc efd ws s = (let (_, s) = hs_start sock bind_ret listen_ret s in
     startEpoll fc efd ws s)"

definition hs_destroy :: "hello_server \<Rightarrow> hello_server" where
  "hs_destroy s = (let s = (if \<not> hs_bStop s then hs_stop s else s) in s\<lparr>hs_clientMap := []\<rparr>)"

subsection \<open>The server with select\<close>

text \<open>
  A round of the loop of \<open>startSelect\<close> with its local list \<open>readlist\<close>: the answer of \<open>select\<close> is a
  number and the set of the readable descriptors.  The flag says that the loop is left.
\<close>

fun read_ready :: "hs_answers \<Rightarrow> int set \<Rightarrow> int list \<Rightarrow> hello_server \<Rightarrow> hello_server option" where
  "read_ready a rfds [] s = Some s"
| "read_ready a rfds (fd # fds) s = (if fd \<in> rfds
     then do { s \<leftarrow> readAndResponseSocket (ha_read a fd) (ha_write a fd) fd s; read_ready a rfds fds s }
     else read_ready a rfds fds s)"

definition select_accept :: "hs_answers \<Rightarrow> hello_server \<Rightarrow> bool \<times> hello_server" where
  "select_accept a s = (let (fd, addr) = ha_accept a in
     if fd = - 1 then (True, hs_say ''accept() failed'' s)
     else (False, say_welcome addr (snd (hs_setBlock (ha_fcntl a) fd False (new_client fd addr s)))))"

definition select_lists :: "int list \<Rightarrow> hello_server \<Rightarrow> int list" where
  "select_lists readlist s = readlist @ hs_socket s # map (\<lambda>(k, e). ce_socket e) (hs_clientMap s)"

definition select_round :: "hs_answers \<Rightarrow> int \<Rightarrow> int set \<Rightarrow> int list \<Rightarrow> hello_server \<Rightarrow> (bool \<times> int list \<times> hello_server) option" where
  "select_round a selres rfds readlist s = (let readlist = select_lists readlist s in
     if selres > 0 then do {
       let (left, selres, s) = (if hs_socket s \<in> rfds
         then (let (left, s) = select_accept a s in (left, selres - 1, s)) else (False, selres, s));
       if left then Some (True, readlist, s)
       else if selres > 0 then do { s \<leftarrow> read_ready a rfds readlist s; Some (False, readlist, s) }
       else Some (False, readlist, s) }
     else Some (False, readlist, s))"

fun select_loop :: "(hs_answers \<times> int \<times> int set) list \<Rightarrow> int list \<Rightarrow> hello_server \<Rightarrow> (bool \<times> int list \<times> hello_server) option" where
  "select_loop [] readlist s = Some (hs_bStop s, readlist, s)"
| "select_loop ((a, selres, rfds) # as) readlist s = (if hs_bStop s then Some (True, readlist, s) else do {
     (left, readlist, s) \<leftarrow> select_round a selres rfds readlist s;
     if left then Some (True, readlist, s) else select_loop as readlist s })"

definition startSelect :: "fcntl_answers \<Rightarrow> (hs_answers \<times> int \<times> int set) list \<Rightarrow> hello_server
    \<Rightarrow> (bool \<times> int list \<times> hello_server) option" where
  "startSelect fc as s = select_loop as [] (hs_say '' start select '' (snd (hs_setBlock fc (hs_socket s) False s)))"

subsection \<open>The server with blocking calls\<close>

text \<open>
  The loop of \<open>startNoSelect\<close>; an answer is the result of \<open>recv\<close> and that of \<open>write\<close>.  The flag says
  whether the loop has ended.
\<close>

definition sent :: "send_result \<Rightarrow> bool" where
  "sent w \<longleftrightarrow> w \<noteq> Sent 0"

definition say_sent :: "send_result \<Rightarrow> hello_server \<Rightarrow> hello_server" where
  "say_sent w s = hs_say (if sent w then ''send msg '' else '' send error '') s"

definition received_text :: "recv_result \<Rightarrow> string option" where
  "received_text r = (case r of Received x \<Rightarrow> if length x < 1024 then read_string 1024 x else None | _ \<Rightarrow> Some [])"

fun noselect_loop :: "int \<Rightarrow> (recv_result \<times> send_result) list \<Rightarrow> hello_server \<Rightarrow> (bool \<times> hello_server) option" where
  "noselect_loop fd [] s = Some (False, s)"
| "noselect_loop fd ((r, w) # as) s = do {
     recvbuf \<leftarrow> received_text r;
     let got = (case r of Received _ \<Rightarrow> True | _ \<Rightarrow> False);
     let s = hs_say (if got then '' recv = '' @ recvbuf else '' recv error '') s;
     if got \<and> recvbuf = ''exit'' then Some (True, s)
     else noselect_loop fd as (say_sent w (hs_sys (Write fd ('' server send back = '' @ recvbuf)) s)) }"

definition startNoSelect :: "int \<times> sockaddr_in \<Rightarrow> send_result \<Rightarrow> (recv_result \<times> send_result) list \<Rightarrow> hello_server
    \<Rightarrow> (bool \<times> hello_server) option" where
  "startNoSelect acc w as s = (let (fd, addr) = acc;
      s = (if fd \<noteq> 0 then hs_say ('' client connect ip='' @ inet_ntoa (sin_addr addr) @ '' port = '' @ dec (uint (sin_port addr))) s else s);
      s = hs_sys (Write fd (''client connect sucess'' @ [NUL])) s;
      s = say_sent w s in do {
      (done, s) \<leftarrow> noselect_loop fd as s;
      Some (done, if done then hs_closeSocket (hs_socket s) (hs_closeSocket fd s) else s) })"

end
