(* ===== verification/HelloServer_Props.thy ===== *)
theory HelloServer_Props
  imports HelloServer
begin

text \<open>
  The clients of the echo server: the map keeps one entry for each, its texts are written back, and
  what the two other server loops do.
\<close>

subsection \<open>The map of the clients\<close>

definition cm_ok :: "client_map \<Rightarrow> bool" where
  "cm_ok m \<longleftrightarrow> sorted (map fst m) \<and> distinct (map fst m) \<and> (\<forall>(k, e) \<in> set m. ce_socket e = k)"

lemma cm_insert_keys: "set (map fst (cm_insert k e m)) = insert k (set (map fst m))"
  by (induction k e m rule: cm_insert.induct) auto

lemma cm_insert_ok: "cm_ok m \<Longrightarrow> ce_socket e = k \<Longrightarrow> cm_ok (cm_insert k e m)"
proof (induction k e m rule: cm_insert.induct)
  case (2 k e l f m)
  have m: "cm_ok m" "\<forall>x \<in> set (map fst m). l \<le> x" "l \<notin> set (map fst m)" "ce_socket f = l"
    using 2(2) unfolding cm_ok_def by auto
  show ?case
  proof (cases "k < l")
    case True
    then show ?thesis using 2(2,3) m unfolding cm_ok_def by fastforce
  next
    case False
    note nk = False
    show ?thesis
    proof (cases "k = l")
      case True
      then show ?thesis using nk 2(2) by simp
    next
      case neq: False
      have "cm_ok (cm_insert k e m)" using 2(1) [OF False neq m(1) 2(3)] .
      moreover have "\<forall>x \<in> set (map fst (cm_insert k e m)). l \<le> x" "l \<notin> set (map fst (cm_insert k e m))"
        unfolding cm_insert_keys using m(2,3) nk neq by auto
      ultimately show ?thesis using nk neq m(4) unfolding cm_ok_def by simp
    qed
  qed
qed (simp add: cm_ok_def)

lemma cm_insert_map_of:
  "cm_ok m \<Longrightarrow> map_of (cm_insert k e m) = (if k \<in> dom (map_of m) then map_of m else (map_of m)(k \<mapsto> e))"
proof (induction k e m rule: cm_insert.induct)
  case (2 k e l f m)
  have m: "cm_ok m" "\<forall>x \<in> set (map fst m). l \<le> x" using 2(2) unfolding cm_ok_def by auto
  show ?case
  proof (cases "k < l")
    case True
    then have "k \<notin> set (map fst ((l, f) # m))" using m(2) by auto
    then have "k \<notin> dom (map_of ((l, f) # m))" by (simp add: dom_map_of_conv_image_fst)
    then show ?thesis using True by (auto simp: dom_def)
  next
    case False
    then show ?thesis using 2(1) [OF False _ m(1)] by (cases "k = l") (auto simp: fun_eq_iff dom_def)
  qed
qed simp

lemma map_of_image: "map_of (map (\<lambda>(l, e). (l, g l e)) m) k = map_option (g k) (map_of m k)"
  by (induction m) auto

lemma cm_update_map_of: "map_of (cm_update k f m) = (\<lambda>l. if l = k then map_option f (map_of m k) else map_of m l)"
  unfolding cm_update_def by (rule ext) (simp add: map_of_image [of "\<lambda>l e. if l = k then f e else e"] option.map_ident)

lemma cm_update_ok: "cm_ok m \<Longrightarrow> (\<And>e. ce_socket (f e) = ce_socket e) \<Longrightarrow> cm_ok (cm_update k f m)"
  unfolding cm_ok_def cm_update_def by (auto simp: comp_def case_prod_beta)

lemma cm_erase_map_of: "map_of (cm_erase k m) = (map_of m)(k := None)"
  unfolding cm_erase_def by (induction m) auto

lemma cm_erase_ok: "cm_ok m \<Longrightarrow> cm_ok (cm_erase k m)"
  unfolding cm_ok_def cm_erase_def
  by (auto simp: sorted_map distinct_map intro: sorted_wrt_filter inj_on_subset)

lemmas cm_facts = cm_insert_map_of cm_update_map_of cm_erase_map_of cm_insert_ok cm_update_ok cm_erase_ok

definition hs_ok :: "hello_server \<Rightarrow> bool" where
  "hs_ok s \<longleftrightarrow> cm_ok (hs_clientMap s)"

definition clients :: "hello_server \<Rightarrow> int \<rightharpoonup> client_entity" where
  "clients s = map_of (hs_clientMap s)"

lemma hs_say_simps [simp]:
  "hs_clientMap (hs_say x s) = hs_clientMap s" "hs_socket (hs_say x s) = hs_socket s" "hs_bStop (hs_say x s) = hs_bStop s"
  "hs_trace (hs_say x s) = Print (x @ [LF]) # hs_trace s"
  by (simp_all add: hs_say_def hs_sys_def)

lemma hs_sys_simps [simp]:
  "hs_clientMap (hs_sys e s) = hs_clientMap s" "hs_socket (hs_sys e s) = hs_socket s" "hs_bStop (hs_sys e s) = hs_bStop s"
  "hs_trace (hs_sys e s) = e # hs_trace s"
  by (simp_all add: hs_sys_def)

lemma closeClient_run:
  "clients (hs_closeClient fd s) = (clients s)(fd := None)" "hs_socket (hs_closeClient fd s) = hs_socket s"
  "hs_ok s \<Longrightarrow> hs_ok (hs_closeClient fd s)"
  "hs_trace (hs_closeClient fd s) = [Close fd, Print (''client exit socket = '' @ dec fd @ [LF])] @ hs_trace s"
  by (simp_all add: hs_closeClient_def hs_closeSocket_def clients_def hs_ok_def cm_erase_ok cm_erase_map_of)

text \<open>The echo server answers each of its clients: the text it reads is written back behind what an
  earlier write did not take, in one call of write; what a write takes is forgotten, and nothing is
  forgotten otherwise; "exit" and the end of the connection close the client; no other client is
  touched, and the entries stay those of their own descriptors.\<close>

theorem hs_echo:
  assumes "hs_ok s" and "clients s fd = Some e"
  shows "(plain_text x \<longrightarrow> (\<exists>s' tr. readAndResponseSocket (Received x) w fd s = Some s' \<and> hs_ok s'
      \<and> hs_trace s' = tr @ hs_trace s \<and> [c \<leftarrow> tr. case c of Print _ \<Rightarrow> False | _ \<Rightarrow> True] = [Write fd (ce_recv e @ x)]
      \<and> clients s' = (clients s)(fd \<mapsto> e\<lparr>ce_recv := if \<exists>n > 0. w = Sent n then [] else ce_recv e @ x\<rparr>)))
    \<and> (\<forall>r \<in> {Received ''exit'', Recv_closed}. \<exists>s' tr. readAndResponseSocket r w fd s = Some s' \<and> hs_ok s'
      \<and> hs_trace s' = tr @ hs_trace s \<and> [c \<leftarrow> tr. case c of Print _ \<Rightarrow> False | _ \<Rightarrow> True] = [Close fd]
      \<and> clients s' = (clients s)(fd := None))"
proof (intro conjI impI ballI)
  assume x: "plain_text x"
  let ?m = "cm_update fd (\<lambda>e. e\<lparr>ce_recv := ce_recv e @ x\<rparr>) (hs_clientMap s)"
  have rs: "read_string 4096 x = Some x" "x \<noteq> ''exit''" using x by (simp_all add: plain_text_def read_string_text)
  have e: "map_of (hs_clientMap s) fd = Some e" using assms(2) by (simp add: clients_def)
  have m: "map_of ?m = (map_of (hs_clientMap s))(fd \<mapsto> e\<lparr>ce_recv := ce_recv e @ x\<rparr>)"
    by (rule ext) (simp add: cm_update_map_of e)
  have ok: "cm_ok ?m" using assms(1) by (simp add: hs_ok_def cm_update_ok)
  note run = readAndResponseSocket_def e rs m hs_ok_def clients_def
  show "\<exists>s' tr. readAndResponseSocket (Received x) w fd s = Some s' \<and> hs_ok s'
      \<and> hs_trace s' = tr @ hs_trace s \<and> [c \<leftarrow> tr. case c of Print _ \<Rightarrow> False | _ \<Rightarrow> True] = [Write fd (ce_recv e @ x)]
      \<and> clients s' = (clients s)(fd \<mapsto> e\<lparr>ce_recv := if \<exists>n > 0. w = Sent n then [] else ce_recv e @ x\<rparr>)"
  proof (cases "\<exists>n > 0. w = Sent n")
    case True
    then obtain n where "w = Sent n" "0 < n" by blast
    then show ?thesis using ok by (force simp: run cm_update_ok cm_update_map_of fun_eq_iff)
  next
    case False
    then have "w = Sent 0 \<or> w = Send_again \<or> w = Send_error" by (cases w) auto
    then show ?thesis using ok by (elim disjE) (simp_all add: run)
  qed
next
  fix r
  assume "r \<in> {Received ''exit'', Recv_closed}"
  then consider "r = Received ''exit''" | "r = Recv_closed" by blast
  then show "\<exists>s' tr. readAndResponseSocket r w fd s = Some s' \<and> hs_ok s'
      \<and> hs_trace s' = tr @ hs_trace s \<and> [c \<leftarrow> tr. case c of Print _ \<Rightarrow> False | _ \<Rightarrow> True] = [Close fd]
      \<and> clients s' = (clients s)(fd := None)"
  proof cases
    case 1
    have rs: "read_string 4096 ''exit'' = Some ''exit''" by (rule read_string_text) simp_all
    let ?m = "cm_update fd (\<lambda>e. e\<lparr>ce_recv := ce_recv e @ ''exit''\<rparr>) (hs_clientMap s)"
    have e: "map_of (hs_clientMap s) fd = Some e" using assms(2) by (simp add: clients_def)
    have m: "map_of ?m fd = Some (e\<lparr>ce_recv := ce_recv e @ ''exit''\<rparr>)" by (simp add: cm_update_map_of e)
    let ?s = "hs_say ('' recv from  '' @ ce_ip e @ '' : '' @ ''exit'') (s\<lparr>hs_clientMap := ?m\<rparr>)"
    have "readAndResponseSocket r w fd s = Some (hs_closeClient fd ?s)"
      by (simp add: readAndResponseSocket_def 1 e rs m)
    moreover have "hs_ok ?s" using assms(1) by (simp add: hs_ok_def cm_update_ok)
    moreover have "(clients ?s)(fd := None) = (clients s)(fd := None)"
      by (rule ext) (simp add: clients_def cm_update_map_of)
    ultimately show ?thesis by (intro exI conjI) (assumption | simp add: closeClient_run)+
  next
    case 2
    then show ?thesis using assms(1) by (simp add: readAndResponseSocket_def closeClient_run)
  qed
qed

definition sample_hello :: hello_server where
  "sample_hello = \<lparr>hs_socket = 3, hs_bStop = False, hs_state = Connecting, hs_port = 9191, hs_serverIp = ''0.0.0.0'',
     hs_portList = [], hs_clientMap = [(5, \<lparr>ce_socket = 5, ce_port = 80, ce_ip = ''1.2.3.4'', ce_recv = ''a'', ce_write = ''''\<rparr>)],
     hs_trace = []\<rparr>"

theorem hs_echo_witness:
  "\<exists>s' tr. readAndResponseSocket (Received ''bc'') (Sent 3) 5 sample_hello = Some s'
     \<and> hs_trace s' = tr \<and> Write 5 ''abc'' \<in> set tr"
proof -
  define e where "e = \<lparr>ce_socket = 5, ce_port = 80, ce_ip = ''1.2.3.4'', ce_recv = ''a'', ce_write = ''''\<rparr>"
  have "hs_ok sample_hello" "clients sample_hello 5 = Some e"
    by (simp_all add: hs_ok_def cm_ok_def clients_def sample_hello_def e_def)
  note h = hs_echo [OF this, THEN conjunct1, of "''bc''" "Sent 3"]
  have "plain_text ''bc''" by (simp add: plain_text_def)
  with h obtain s' tr where 1: "readAndResponseSocket (Received ''bc'') (Sent 3) 5 sample_hello = Some s'"
    "hs_trace s' = tr @ hs_trace sample_hello"
    "[c \<leftarrow> tr. case c of Print _ \<Rightarrow> False | _ \<Rightarrow> True] = [Write 5 (ce_recv e @ ''bc'')]" by blast
  have "Write 5 ''abc'' \<in> set [c \<leftarrow> tr. case c of Print _ \<Rightarrow> False | _ \<Rightarrow> True]" unfolding 1(3) by (simp add: e_def)
  then have "Write 5 ''abc'' \<in> set tr" by simp
  then show ?thesis using 1(1,2) by (simp add: sample_hello_def)
qed

subsection \<open>The loops of the servers\<close>

lemma setBlock_map [simp]: "hs_clientMap (snd (hs_setBlock fc fd b s)) = hs_clientMap s"
  by (simp add: hs_setBlock_def Let_def)

lemma read_ok:
  assumes "hs_ok s" "readAndResponseSocket r w fd s = Some s'"
  shows "hs_ok s'"
proof (cases r)
  case (Received x)
  obtain t where "read_string 4096 x = Some t" using assms(2) Received
    by (auto simp: readAndResponseSocket_def split: bind_splits)
  then show ?thesis using assms Received
    by (auto simp: readAndResponseSocket_def hs_ok_def cm_update_ok cm_erase_ok hs_closeClient_def hs_closeSocket_def Let_def
        split: bind_splits if_splits send_result.splits)
qed (use assms in \<open>auto simp: readAndResponseSocket_def hs_closeClient_def hs_closeSocket_def hs_ok_def cm_erase_ok Let_def\<close>)

lemma epoll_event_ok:
  assumes "hs_ok s" "hs_epoll_event efd a e s = Some (left, s')"
  shows "hs_ok s'"
proof (cases "ev_fd e = hs_socket s")
  case True
  then show ?thesis using assms
    by (cases "ha_accept a") (auto simp: hs_epoll_event_def say_welcome_def hs_addEpollfd_def new_client_def hs_ok_def
        cm_insert_ok Let_def split: if_splits)
next
  case False
  then show ?thesis using assms read_ok by (auto simp: hs_epoll_event_def split: if_splits)
qed

lemma epoll_events_ok: "hs_ok s \<Longrightarrow> hs_epoll_events efd es s = Some s' \<Longrightarrow> hs_ok s'"
proof (induction es arbitrary: s)
  case (Cons e es)
  obtain left s1 where 1: "hs_epoll_event efd (fst e) (snd e) s = Some (left, s1)" using Cons.prems(2)
    by (auto split: bind_splits)
  have "hs_ok s1" using epoll_event_ok [OF Cons.prems(1) 1] .
  then show ?case using Cons.IH [of s1] Cons.prems(2) 1 by (cases left) auto
qed simp

text \<open>Whatever happens in the epoll loop, the map of the clients stays a map: its keys are sorted and
  distinct, and every entry holds the descriptor it is filed under.\<close>

theorem hs_clients_invariant:
  assumes "hs_epoll_loop efd ws s = Some (left, s')" and "hs_ok s"
  shows "hs_ok s'"
  using assms
proof (induction efd ws s rule: hs_epoll_loop.induct)
  case (3 efd es ws s)
  then show ?case by (auto split: bind_splits dest: epoll_events_ok)
qed simp_all

theorem hs_clients_invariant_witness:
  "\<exists>left s'. hs_epoll_loop 4 [Some [(\<lparr>ha_accept = (7, \<lparr>sin_addr = 0, sin_port = 0\<rparr>), ha_read = (\<lambda>_. Recv_closed),
       ha_write = (\<lambda>_. Send_error), ha_fcntl = \<lparr>fc_get = (\<lambda>_. 2), fc_set = (\<lambda>_. True)\<rparr>\<rparr>, \<lparr>ev_fd = 3, ev_events = [EPOLLIN]\<rparr>)]]
       sample_hello = Some (left, s') \<and> hs_ok s' \<and> map fst (hs_clientMap s') = [5, 7]"
proof -
  let ?a = "\<lparr>ha_accept = (7, \<lparr>sin_addr = 0, sin_port = 0\<rparr>), ha_read = (\<lambda>_. Recv_closed),
       ha_write = (\<lambda>_. Send_error), ha_fcntl = \<lparr>fc_get = (\<lambda>_. 2), fc_set = (\<lambda>_. True)\<rparr>\<rparr>"
  obtain s' where 1: "hs_epoll_loop 4 [Some [(?a, \<lparr>ev_fd = 3, ev_events = [EPOLLIN]\<rparr>)]] sample_hello = Some (False, s')"
    "map fst (hs_clientMap s') = [5, 7]"
    by (simp add: hs_epoll_event_def say_welcome_def hs_addEpollfd_def new_client_def sample_hello_def)
  have "hs_ok sample_hello" by (simp add: hs_ok_def cm_ok_def sample_hello_def)
  then show ?thesis using hs_clients_invariant [OF 1(1)] 1
    by (intro exI [of _ False] exI [of _ s'] conjI)
qed

text \<open>The select loop forgets to empty its list of the sockets to look at: after k rounds without any
  event it holds the listening socket and every client k more times.\<close>

theorem hs_readlist_grows:
  assumes "\<not> hs_bStop s"
  shows "select_loop (replicate k (a, 0, {})) readlist s =
    Some (False, readlist @ concat (replicate k (hs_socket s # map (\<lambda>(k, e). ce_socket e) (hs_clientMap s))), s)"
proof (induction k arbitrary: readlist)
  case (Suc k)
  then show ?case using assms by (simp add: select_round_def select_lists_def)
qed (use assms in simp)

theorem hs_readlist_grows_witness:
  "\<forall>a. select_loop (replicate 3 (a, 0, {})) [] sample_hello = Some (False, [3, 5, 3, 5, 3, 5], sample_hello)"
proof -
  have "\<not> hs_bStop sample_hello" by (simp add: sample_hello_def)
  from hs_readlist_grows [OF this, of 3 _ "[]"] show ?thesis
    by (simp add: numeral_3_eq_3) (simp add: sample_hello_def)
qed

text \<open>The blocking loop does not notice that its client has gone: as long as recv delivers nothing
  (the connection is closed or broken) it writes an answer in every round, closes nothing and goes
  on for ever.\<close>

theorem hs_noselect_never_ends:
  assumes "\<forall>(r, w) \<in> set as. r \<in> {Recv_closed, Recv_error, Recv_again}"
  shows "\<exists>s' tr. noselect_loop fd as s = Some (False, s') \<and> hs_trace s' = tr @ hs_trace s
    \<and> [c \<leftarrow> tr. case c of Print _ \<Rightarrow> False | _ \<Rightarrow> True] = replicate (length as) (Write fd '' server send back = '')"
  using assms
proof (induction as arbitrary: s)
  case (Cons p as)
  obtain r w where p: "p = (r, w)" by (cases p) auto
  have r: "received_text r = Some [] \<and> (case r of Received _ \<Rightarrow> True | _ \<Rightarrow> False) = False"
    using Cons.prems p by (auto simp: received_text_def)
  let ?s = "say_sent w (hs_sys (Write fd '' server send back = '') (hs_say '' recv error '' s))"
  have "noselect_loop fd (p # as) s = noselect_loop fd as ?s" using r by (simp add: p)
  moreover obtain s' tr where "noselect_loop fd as ?s = Some (False, s')" "hs_trace s' = tr @ hs_trace ?s"
    "[c \<leftarrow> tr. case c of Print _ \<Rightarrow> False | _ \<Rightarrow> True] = replicate (length as) (Write fd '' server send back = '')"
    using Cons.IH Cons.prems by fastforce
  ultimately show ?case
    by (intro exI [of _ s'] exI [of _ "tr @ [Print ((if sent w then ''send msg '' else '' send error '') @ [LF]),
      Write fd '' server send back = '', Print ('' recv error '' @ [LF])]"]) (simp add: say_sent_def replicate_append_same)
qed simp

theorem hs_noselect_never_ends_witness:
  "\<exists>s'. noselect_loop 5 (replicate 100 (Recv_closed, Send_error)) sample_hello = Some (False, s')"
proof -
  have "\<forall>(r, w) \<in> set (replicate 100 (Recv_closed, Send_error)). r \<in> {Recv_closed, Recv_error, Recv_again}" by simp
  from hs_noselect_never_ends [OF this, of 5 sample_hello] show ?thesis by blast
qed

end
