(* ===== verification/WinServer.thy ===== *)
theory WinServer
  imports HelloServer_Props
begin

text \<open>
  The echo server for Windows, \<open>clientsocket-cmake/helloserver.cpp\<close>: one client with blocking calls, or
  a loop around \<open>select\<close>.  A \<open>SOCKET\<close> is an unsigned number of 64 bits; the lists, the map and the
  clients hold it converted to \<open>int\<close>.  The map holds raw pointers: \<open>wn_lost\<close> collects the clients
  that were allocated and that no pointer leads to any more, none of which is ever deleted.
  What the calls of the system answer is an argument, and the trace has the calls, the last one first:
  \<open>Got\<close> has all the bytes that \<open>recv\<close> delivered, and \<open>Put\<close> the text that was handed to \<open>send\<close> and the number of
  its bytes that \<open>send\<close> took.
\<close>

unbundle bit_operations_syntax

subsection \<open>State\<close>

type_synonym SOCKET = "64 word"

definition INVALID_SOCKET :: SOCKET where "INVALID_SOCKET = - 1"

definition socket_int :: "SOCKET \<Rightarrow> int" where
  "socket_int w = sint (ucast w :: 32 word)"

definition int_socket :: "int \<Rightarrow> SOCKET" where
  "int_socket i = word_of_int i"

datatype win_call = Wsa_startup | Wsa_cleanup | Wn_close SOCKET | Wn_bind SOCKET int | Wn_listen SOCKET int
  | Wn_connect SOCKET string int | Ioctl_nonblock SOCKET bool | Accepted int | Got int string | Put int string nat | Wn_sleep nat | Say string

record win_server =
  wn_socket :: SOCKET
  wn_bStop :: bool
  wn_state :: NetworkState
  wn_port :: "16 word"
  wn_serverIp :: string
  wn_portList :: "16 word list"
  wn_clientMap :: client_map
  wn_lost :: "client_entity list"
  wn_trace :: "win_call list"

definition wn_sys :: "win_call \<Rightarrow> win_server \<Rightarrow> win_server" where
  "wn_sys e s = s\<lparr>wn_trace := e # wn_trace s\<rparr>"

definition wn_say :: "string \<Rightarrow> win_server \<Rightarrow> win_server" where
  "wn_say x s = wn_sys (Say (x @ [LF])) s"

subsection \<open>Sockets\<close>

text \<open>\<open>WSAStartup\<close> answers an error code and the version, whose two bytes are compared with 2.\<close>

definition wn_initSocket :: "int \<Rightarrow> 16 word \<Rightarrow> win_server \<Rightarrow> bool \<times> win_server" where
  "wn_initSocket nErrCode wVersion s = (let s = wn_sys Wsa_startup s in
     if nErrCode \<noteq> 0 then (False, s)
     else if wVersion AND 0xFF \<noteq> 2 \<or> drop_bit 8 wVersion AND 0xFF \<noteq> 2 then (False, wn_sys Wsa_cleanup s)
     else (True, s))"

definition wn_unInitSocket :: "win_server \<Rightarrow> win_server" where
  "wn_unInitSocket s = wn_sys Wsa_cleanup s"

definition wn_stop :: "win_server \<Rightarrow> win_server" where
  "wn_stop s = s\<lparr>wn_bStop := True\<rparr>"

definition wn_setServerAddr :: "string \<Rightarrow> 16 word \<Rightarrow> 16 word list \<Rightarrow> win_server \<Rightarrow> win_server" where
  "wn_setServerAddr ip nPort portList s = s\<lparr>wn_serverIp := ip, wn_port := nPort, wn_portList := portList\<rparr>"

text \<open>\<open>m_socket > 0\<close> is a comparison of unsigned numbers.\<close>

definition wn_createSocket :: "SOCKET \<Rightarrow> win_server \<Rightarrow> int \<times> win_server" where
  "wn_createSocket sock s = (let
      s = (if wn_socket s > 0 then (wn_sys (Wn_close (wn_socket s)) s)\<lparr>wn_socket := - 1\<rparr> else s);
      s = s\<lparr>wn_socket := sock\<rparr> in
      if wn_socket s = - 1 then (- 1, wn_say ''create tcp socket failed.'' s)
      else (socket_int (wn_socket s), wn_say ''create tcp socket successed.'' s))"

definition wn_setBlock :: "bool \<Rightarrow> win_server \<Rightarrow> bool \<times> win_server" where
  "wn_setBlock isblock s = (if wn_socket s \<le> 0 then (False, wn_say ''set tcp socket block failed.'' s)
     else (let s = wn_sys (Ioctl_nonblock (wn_socket s) (\<not> isblock)) s in
       (True, wn_say (if isblock then ''set tcp socket block success.'' else ''set tcp socket not block success.'') s)))"

definition wn_start :: "SOCKET \<Rightarrow> int \<Rightarrow> int \<Rightarrow> win_server \<Rightarrow> bool \<times> win_server" where
  "wn_start sock bind_ret listen_ret s = (let (r, s) = wn_createSocket sock s in
     if r = - 1 then (False, s)
     else (let s = s\<lparr>wn_bStop := False, wn_state := Connecting\<rparr>;
               s = wn_sys (Wn_bind (wn_socket s) 9191) s in
       if bind_ret = - 1 then (False, wn_say ('' bind ip = '' @ wn_serverIp s @ '' port= '' @ dec (uint (wn_port s)) @ '' failed '') s)
       else (let s = wn_sys (Wn_listen (wn_socket s) 5) s in
         if listen_ret \<noteq> 0 then (False, wn_say ('' listen ip = '' @ wn_serverIp s @ '' port= '' @ dec (uint (wn_port s)) @ '' failed '') s)
         else (True, s))))"

text \<open>Erasing an entry of the map does not delete the client it points to.\<close>

definition wn_closeClient :: "int \<Rightarrow> win_server \<Rightarrow> win_server" where
  "wn_closeClient fd s = (let s = wn_say (''client exit socket = '' @ dec fd) s;
       s = wn_sys (Wn_close (int_socket fd)) s in
       case map_of (wn_clientMap s) fd of None \<Rightarrow> s
       | Some e \<Rightarrow> s\<lparr>wn_clientMap := cm_erase fd (wn_clientMap s), wn_lost := e # wn_lost s\<rparr>)"

subsection \<open>The loop around select\<close>

record win_answers =
  wa_select :: int
  wa_readable :: "int set"
  wa_accept :: "SOCKET \<times> sockaddr_in"
  wa_recv :: "nat \<Rightarrow> recv_result"
  wa_send :: "nat \<Rightarrow> send_result"

text \<open>A new client; \<open>insert\<close> keeps the client a key already has, and the new one is lost.\<close>

definition wn_new_client :: "int \<Rightarrow> client_entity \<Rightarrow> win_server \<Rightarrow> win_server" where
  "wn_new_client fd e s = (let s = wn_sys (Accepted fd) s in
     if map_of (wn_clientMap s) fd = None then s\<lparr>wn_clientMap := cm_insert fd e (wn_clientMap s)\<rparr>
     else s\<lparr>wn_lost := e # wn_lost s\<rparr>)"

definition wn_accept :: "SOCKET \<times> sockaddr_in \<Rightarrow> win_server \<Rightarrow> bool \<times> win_server" where
  "wn_accept acc s = (let (sock, addr) = acc in
     if sock = INVALID_SOCKET then (True, wn_say ''accept() failed'' s)
     else (let s = wn_new_client (socket_int sock) \<lparr>ce_socket = socket_int sock, ce_port = uint (sin_port addr),
               ce_ip = inet_ntoa (sin_addr addr), ce_recv = [], ce_write = []\<rparr> s;
             s = wn_sys (Ioctl_nonblock sock True) s in
       (False, wn_say (''new client connect, ip:'' @ inet_ntoa (sin_addr addr) @ ''  port:'' @ dec (uint (sin_port addr))) s)))"

text \<open>
  The body of the loop over \<open>readlist\<close> for one readable socket.  \<^const>\<open>None\<close>: the iterator of an
  unknown client is dereferenced, or the text has no NUL within its buffer.
\<close>

definition wn_read :: "recv_result \<Rightarrow> int \<Rightarrow> win_server \<Rightarrow> win_server option" where
  "wn_read r fd s = (case r of
      Received x \<Rightarrow> do {
        e \<leftarrow> map_of (wn_clientMap s) fd;
        szRecv \<leftarrow> read_string 4096 x;
        let s = (wn_sys (Got fd x) s)\<lparr>wn_clientMap := cm_update fd (\<lambda>e. e\<lparr>ce_recv := ce_recv e @ szRecv\<rparr>) (wn_clientMap s)\<rparr>;
        let s = wn_say ('' recv from  '' @ ce_ip e @ '' : '' @ szRecv) s;
        Some (if szRecv = ''exit'' then wn_closeClient fd s else s) }
    | Recv_closed \<Rightarrow> Some (wn_closeClient fd s)
    | _ \<Rightarrow> Some s)"

text \<open>The loop over \<open>readlist\<close>: \<open>k\<close> counts its calls of \<open>recv\<close>; it returns the new \<open>selres\<close>.\<close>

fun wn_read_loop :: "win_answers \<Rightarrow> nat \<Rightarrow> int \<Rightarrow> int list \<Rightarrow> win_server \<Rightarrow> (int \<times> win_server) option" where
  "wn_read_loop a k selres [] s = Some (selres, s)"
| "wn_read_loop a k selres (fd # fds) s = (if fd \<in> wa_readable a
     then do { s \<leftarrow> wn_read (wa_recv a k) fd s; wn_read_loop a (Suc k) (selres - 1) fds s }
     else wn_read_loop a k selres fds s)"

text \<open>The loop over \<open>writelist\<close>.  A \<open>send\<close> that takes a part of the text clears all of it.\<close>

definition wn_put :: "send_result \<Rightarrow> int \<Rightarrow> client_entity \<Rightarrow> win_server \<Rightarrow> win_server" where
  "wn_put w fd e s = (let sendLen = (case w of Sent n \<Rightarrow> n | _ \<Rightarrow> 0); s = wn_sys (Put fd (ce_recv e) sendLen) s in
     if sendLen = 0 then wn_say ('' send error ip= '' @ ce_ip e) s
     else s\<lparr>wn_clientMap := cm_update fd (\<lambda>e. e\<lparr>ce_recv := []\<rparr>) (wn_clientMap s)\<rparr>)"

fun wn_write_loop :: "win_answers \<Rightarrow> nat \<Rightarrow> int list \<Rightarrow> win_server \<Rightarrow> win_server" where
  "wn_write_loop a k [] s = s"
| "wn_write_loop a k (fd # fds) s = (case map_of (wn_clientMap s) fd of
      Some e \<Rightarrow> if 0 < length (ce_recv e) then wn_write_loop a (Suc k) fds (wn_put (wa_send a k) fd e s)
        else wn_write_loop a k fds s
    | None \<Rightarrow> wn_write_loop a k fds s)"

text \<open>The sockets of a round; they are appended to both lists, which are never cleared.\<close>

definition wn_sockets :: "win_server \<Rightarrow> int list" where
  "wn_sockets s = socket_int (wn_socket s) # map (\<lambda>(k, e). ce_socket e) (wn_clientMap s)"

definition wn_round :: "win_answers \<Rightarrow> int list \<Rightarrow> int list \<Rightarrow> win_server \<Rightarrow> (bool \<times> int list \<times> int list \<times> win_server) option" where
  "wn_round a readlist writelist s = (let
       readlist = readlist @ wn_sockets s; writelist = writelist @ wn_sockets s; selres = wa_select a in
     if selres > 0 then do {
       let (left, selres, s) = (if socket_int (wn_socket s) \<in> wa_readable a
         then (let (left, s) = wn_accept (wa_accept a) s in (left, selres - 1, s)) else (False, selres, s));
       if left then Some (True, readlist, writelist, s)
       else do {
         (selres, s) \<leftarrow> (if selres > 0 then wn_read_loop a 0 selres readlist s else Some (selres, s));
         let s = (if selres > 0 then wn_write_loop a 0 writelist s else s);
         Some (False, readlist, writelist, s) } }
     else Some (False, readlist, writelist, s))"

text \<open>The flag of the result says whether the loop has ended.\<close>

fun wn_select_loop :: "win_answers list \<Rightarrow> int list \<Rightarrow> int list \<Rightarrow> win_server \<Rightarrow> (bool \<times> int list \<times> int list \<times> win_server) option" where
  "wn_select_loop [] readlist writelist s = Some (wn_bStop s, readlist, writelist, s)"
| "wn_select_loop (a # as) readlist writelist s = (if wn_bStop s then Some (True, readlist, writelist, s) else do {
     (left, readlist, writelist, s) \<leftarrow> wn_round a readlist writelist s;
     if left then Some (True, readlist, writelist, s) else wn_select_loop as readlist writelist s })"

definition wn_startSelect :: "win_answers list \<Rightarrow> win_server \<Rightarrow> (bool \<times> int list \<times> int list \<times> win_server) option" where
  "wn_startSelect as s = wn_select_loop as [] []
     (wn_say '' start select '' (wn_sys (Ioctl_nonblock (wn_socket s) False) s))"

subsection \<open>One client\<close>

fun wn_noselect_loop :: "SOCKET \<Rightarrow> (recv_result \<times> int) list \<Rightarrow> win_server \<Rightarrow> (bool \<times> win_server) option" where
  "wn_noselect_loop sock [] s = Some (False, s)"
| "wn_noselect_loop sock ((r, w) # as) s = do {
     recvbuf \<leftarrow> received_text r;
     let got = (case r of Received _ \<Rightarrow> True | _ \<Rightarrow> False);
     let s = wn_say (if got then '' recv = '' @ recvbuf else '' recv error '') s;
     if got \<and> recvbuf = ''exit'' then Some (True, s)
     else do {
       let s = wn_sys (Put (socket_int sock) ('' server send back = '' @ recvbuf) (nat w)) (wn_sys (Wn_sleep 1000) s);
       wn_noselect_loop sock as (wn_say (if w \<noteq> 0 then ''send msg '' else '' send error '') s) } }"

definition wn_startNoSelect :: "SOCKET \<times> sockaddr_in \<Rightarrow> int \<Rightarrow> (recv_result \<times> int) list \<Rightarrow> win_server \<Rightarrow> (bool \<times> win_server) option" where
  "wn_startNoSelect acc w as s = (let (sock, addr) = acc;
      s = (if sock \<noteq> 0 then wn_say ('' client connect ip='' @ inet_ntoa (sin_addr addr) @ '' port = '' @ dec (uint (sin_port addr))) s else s);
      s = wn_sys (Put (socket_int sock) (''client connect sucess'' @ [NUL]) (nat w)) s;
      s = wn_say (if w \<noteq> 0 then ''send msg '' else '' send error '') s in do {
      (done, s) \<leftarrow> wn_noselect_loop sock as s;
      Some (done, if done then wn_unInitSocket (wn_sys (Wn_close (wn_socket s)) (wn_sys (Wn_close sock) s)) else s) })"

subsection \<open>Construction and destruction\<close>

definition wn_construct :: "int \<Rightarrow> 16 word \<Rightarrow> SOCKET \<Rightarrow> int \<Rightarrow> int \<Rightarrow> win_answers list \<Rightarrow> win_server
    \<Rightarrow> (bool \<times> int list \<times> int list \<times> win_server) option" where
  "wn_construct err version sock bind_ret listen_ret as s = (let
      (_, s) = wn_initSocket err version s; (_, s) = wn_start sock bind_ret listen_ret s in wn_startSelect as s)"

definition wn_destroy :: "win_server \<Rightarrow> win_server" where
  "wn_destroy s = (let s = (if \<not> wn_bStop s then wn_stop s else s);
      s = s\<lparr>wn_clientMap := [], wn_lost := map snd (wn_clientMap s) @ wn_lost s\<rparr> in wn_unInitSocket s)"

subsection \<open>What is sent\<close>

text \<open>
  What the server has to send back: the texts that came from a socket, each up to its first NUL, since
  the socket was closed or since a \<open>send\<close> to it succeeded, in the order in which they came.
\<close>

definition up_to_NUL :: "string \<Rightarrow> string" where
  "up_to_NUL x = takeWhile (\<lambda>c. c \<noteq> NUL) x"

fun owed :: "int \<Rightarrow> win_call list \<Rightarrow> string" where
  "owed fd [] = []"
| "owed fd (e # tr) = (case e of
      Got f x \<Rightarrow> if f = fd then owed fd tr @ up_to_NUL x else owed fd tr
    | Put f t n \<Rightarrow> if f = fd \<and> 0 < n then [] else owed fd tr
    | Wn_close sock \<Rightarrow> if socket_int sock = fd then [] else owed fd tr
    | _ \<Rightarrow> owed fd tr)"

text \<open>Every text that was handed to \<open>send\<close> is the text that was owed.\<close>

fun echo_ok :: "win_call list \<Rightarrow> bool" where
  "echo_ok [] = True"
| "echo_ok (e # tr) = ((case e of Put f t n \<Rightarrow> t = owed f tr \<and> t \<noteq> [] | _ \<Rightarrow> True) \<and> echo_ok tr)"

text \<open>
  The bytes received from a socket, and the bytes the system took for it, since it was closed; and
  the runs in which no text has a NUL and every \<open>send\<close> takes all of its text or nothing.
\<close>

fun bytes_received :: "int \<Rightarrow> win_call list \<Rightarrow> string" where
  "bytes_received fd [] = []"
| "bytes_received fd (e # tr) = (case e of
      Got f x \<Rightarrow> if f = fd then bytes_received fd tr @ x else bytes_received fd tr
    | Wn_close sock \<Rightarrow> if socket_int sock = fd then [] else bytes_received fd tr
    | _ \<Rightarrow> bytes_received fd tr)"

fun bytes_sent :: "int \<Rightarrow> win_call list \<Rightarrow> string" where
  "bytes_sent fd [] = []"
| "bytes_sent fd (e # tr) = (case e of
      Put f t n \<Rightarrow> if f = fd then bytes_sent fd tr @ take n t else bytes_sent fd tr
    | Wn_close sock \<Rightarrow> if socket_int sock = fd then [] else bytes_sent fd tr
    | _ \<Rightarrow> bytes_sent fd tr)"

definition whole_call :: "win_call \<Rightarrow> bool" where
  "whole_call e \<longleftrightarrow> (case e of Got f x \<Rightarrow> NUL \<notin> set x | Put f t n \<Rightarrow> n = 0 \<or> length t \<le> n | _ \<Rightarrow> True)"

lemma echo_stream:
  "echo_ok tr \<Longrightarrow> \<forall>e \<in> set tr. whole_call e \<Longrightarrow> bytes_sent fd tr @ owed fd tr = bytes_received fd tr"
proof (induction tr)
  case (Cons e tr)
  have "up_to_NUL x = x" if "NUL \<notin> set x" for x
    using that by (auto simp: up_to_NUL_def takeWhile_eq_all_conv)
  then show ?case using Cons by (cases e) (auto simp: whole_call_def)
qed simp

text \<open>A connection that was accepted and not closed since.\<close>

fun is_open :: "int \<Rightarrow> win_call list \<Rightarrow> bool" where
  "is_open fd [] = False"
| "is_open fd (e # tr) = (case e of
      Accepted f \<Rightarrow> f = fd \<or> is_open fd tr
    | Wn_close sock \<Rightarrow> socket_int sock \<noteq> fd \<and> is_open fd tr
    | _ \<Rightarrow> is_open fd tr)"

definition accepted :: "win_call list \<Rightarrow> nat" where
  "accepted tr = length (filter (\<lambda>e. \<exists>fd. e = Accepted fd) tr)"

definition int32 :: "int \<Rightarrow> bool" where
  "int32 i \<longleftrightarrow> - (2 ^ 31) \<le> i \<and> i < 2 ^ 31"

text \<open>
  The invariant of the loop: the map is sorted and its keys are the sockets; every open connection is
  in it; a client holds what is owed to it; what was sent was owed; and a client that was accepted is in the map or lost.
\<close>

definition wn_inv :: "win_server \<Rightarrow> bool" where
  "wn_inv s \<longleftrightarrow> cm_ok (wn_clientMap s) \<and> (\<forall>fd \<in> dom (map_of (wn_clientMap s)). int32 fd)
     \<and> (\<forall>fd. int32 fd \<longrightarrow> is_open fd (wn_trace s) \<longrightarrow> map_of (wn_clientMap s) fd \<noteq> None)
     \<and> (\<forall>fd. int32 fd \<longrightarrow> owed fd (wn_trace s) = (case map_of (wn_clientMap s) fd of Some e \<Rightarrow> ce_recv e | None \<Rightarrow> []))
     \<and> echo_ok (wn_trace s) \<and> accepted (wn_trace s) = length (wn_clientMap s) + length (wn_lost s)"

lemma socket_int_range: "int32 (socket_int w)"
  using sint_lt [of "ucast w :: 32 word"] sint_ge [of "ucast w :: 32 word"] by (simp add: int32_def socket_int_def)

lemma socket_int_back:
  assumes "int32 fd"
  shows "socket_int (int_socket fd) = fd"
proof -
  have u: "(ucast (word_of_int fd :: 64 word) :: 32 word) = word_of_int fd" by transfer simp
  have "sint (word_of_int fd :: 32 word) = signed_take_bit 31 fd" by transfer simp
  then show ?thesis using assms unfolding socket_int_def int_socket_def u
    by (simp add: int32_def signed_take_bit_int_eq_self)
qed

definition quiet :: "win_call \<Rightarrow> bool" where
  "quiet e \<longleftrightarrow> (case e of Got f x \<Rightarrow> False | Put f t ok \<Rightarrow> False | Wn_close sock \<Rightarrow> False | Accepted f \<Rightarrow> False | _ \<Rightarrow> True)"

lemma wn_inv_sys: "quiet e \<Longrightarrow> wn_inv (wn_sys e s) = wn_inv s"
  by (cases e) (auto simp: quiet_def wn_inv_def wn_sys_def accepted_def)

lemma wn_inv_say: "wn_inv (wn_say x s) = wn_inv s"
  by (simp add: wn_say_def wn_inv_sys quiet_def)

lemma cm_erase_length:
  assumes "cm_ok m" "map_of m k = Some e"
  shows "Suc (length (cm_erase k m)) = length m"
  using assms
proof (induction m)
  case (Cons p m)
  obtain l f where p: "p = (l, f)" by (cases p)
  have d: "l \<notin> fst ` set m" "cm_ok m" using Cons.prems(1) p by (auto simp: cm_ok_def)
  show ?case
  proof (cases "l = k")
    case True
    then have "\<forall>q \<in> set m. fst q \<noteq> k" using d(1) by (metis image_eqI)
    then have "cm_erase k m = m" by (auto simp: cm_erase_def case_prod_beta intro: filter_True)
    then show ?thesis using p True by (simp add: cm_erase_def)
  next
    case False
    then have "Suc (length (cm_erase k m)) = length m" using Cons.IH [OF d(2)] Cons.prems(2) p by simp
    then show ?thesis using p False by (simp add: cm_erase_def)
  qed
qed simp

lemma wn_inv_close:
  assumes "wn_inv s" "int32 fd"
  shows "wn_inv (wn_closeClient fd s)"
proof -
  let ?s = "wn_say (''client exit socket = '' @ dec fd) s"
  have i: "wn_inv ?s" using assms(1) by (simp add: wn_inv_say)
  then have m: "cm_ok (wn_clientMap ?s)" by (simp add: wn_inv_def)
  have b: "socket_int (int_socket fd) = fd" by (rule socket_int_back [OF assms(2)])
  show ?thesis
  proof (cases "map_of (wn_clientMap ?s) fd")
    case None
    then show ?thesis using i b by (auto simp: wn_closeClient_def wn_inv_def wn_sys_def accepted_def Let_def)
  next
    case (Some e)
    have "cm_ok (cm_erase fd (wn_clientMap ?s))" by (rule cm_erase_ok [OF m])
    then show ?thesis using i b Some cm_erase_length [OF m Some]
      by (auto simp: wn_closeClient_def wn_inv_def wn_sys_def accepted_def Let_def cm_erase_map_of)
  qed
qed

text \<open>Only an open connection delivers data, and less than the buffer holds.\<close>

definition recv_ok :: "recv_result \<Rightarrow> int \<Rightarrow> win_server \<Rightarrow> bool" where
  "recv_ok r fd s \<longleftrightarrow> (case r of Received x \<Rightarrow> is_open fd (wn_trace s) \<and> length x < 4096 | _ \<Rightarrow> True)"

fun reads_ok :: "win_answers \<Rightarrow> nat \<Rightarrow> int list \<Rightarrow> win_server \<Rightarrow> bool" where
  "reads_ok a k [] s = True"
| "reads_ok a k (fd # fds) s = (if fd \<in> wa_readable a
     then recv_ok (wa_recv a k) fd s \<and> (case wn_read (wa_recv a k) fd s of Some t \<Rightarrow> reads_ok a (Suc k) fds t | None \<Rightarrow> True)
     else reads_ok a k fds s)"

lemma wn_inv_client:
  assumes "wn_inv s" "map_of (wn_clientMap s) fd = Some e"
  shows "int32 fd" "owed fd (wn_trace s) = ce_recv e"
  using assms by (auto simp: wn_inv_def split: option.splits)

lemma wn_inv_update:
  assumes "wn_inv s" "map_of (wn_clientMap s) fd = Some e" "\<And>e. ce_socket (g e) = ce_socket e"
    and "owed fd (ev # wn_trace s) = ce_recv (g e)" "\<And>k. k \<noteq> fd \<Longrightarrow> owed k (ev # wn_trace s) = owed k (wn_trace s)"
    and "echo_ok (ev # wn_trace s)" "\<And>k. ev \<noteq> Accepted k" "\<And>k. is_open k (ev # wn_trace s) = is_open k (wn_trace s)"
  shows "wn_inv ((wn_sys ev s)\<lparr>wn_clientMap := cm_update fd g (wn_clientMap s)\<rparr>)"
proof -
  let ?m = "cm_update fd g (wn_clientMap s)"
  have "cm_ok ?m" using assms(1,3) by (simp add: wn_inv_def cm_update_ok)
  moreover have "length ?m = length (wn_clientMap s)" by (simp add: cm_update_def)
  moreover have "dom (map_of ?m) = dom (map_of (wn_clientMap s))" by (auto simp: cm_update_map_of dom_def)
  moreover have "accepted (ev # wn_trace s) = accepted (wn_trace s)" using assms(7) by (simp add: accepted_def)
  moreover have "owed k (ev # wn_trace s) = (case map_of ?m k of Some e \<Rightarrow> ce_recv e | None \<Rightarrow> [])" if "int32 k" for k
  proof (cases "k = fd")
    case True
    then show ?thesis using assms(2,4) by (simp add: cm_update_map_of)
  next
    case False
    then show ?thesis using assms(1,5) that by (simp add: cm_update_map_of wn_inv_def)
  qed
  moreover have "map_of ?m k \<noteq> None" if "int32 k" "is_open k (ev # wn_trace s)" for k
    using assms(1) that(1) that(2) [unfolded assms(8)] by (auto simp: wn_inv_def cm_update_map_of)
  ultimately show ?thesis using assms(1,6) by (simp add: wn_inv_def wn_sys_def)
qed

lemma wn_read_inv:
  assumes i: "wn_inv s" and fd: "int32 fd" and r: "recv_ok r fd s"
  shows "\<exists>t. wn_read r fd s = Some t \<and> wn_inv t"
proof (cases r)
  case (Received x)
  obtain e where e: "map_of (wn_clientMap s) fd = Some e" using r Received i fd by (auto simp: recv_ok_def wn_inv_def)
  define y where "y = up_to_NUL x"
  have y: "read_string 4096 x = Some y" using r Received read_string_some [of x 4096] by (auto simp: recv_ok_def y_def up_to_NUL_def)
  let ?s = "(wn_sys (Got fd x) s)\<lparr>wn_clientMap := cm_update fd (\<lambda>e. e\<lparr>ce_recv := ce_recv e @ y\<rparr>) (wn_clientMap s)\<rparr>"
  have "wn_inv ?s"
    by (rule wn_inv_update [OF i e]) (use i wn_inv_client [OF i e] in \<open>simp_all add: wn_inv_def y_def\<close>)
  then have inv: "wn_inv (wn_say m ?s)" "wn_inv (wn_closeClient fd (wn_say m ?s))" for m
    using wn_inv_close [OF _ fd] by (simp_all add: wn_inv_say)
  have "wn_clientMap (wn_sys (Got fd x) s) = wn_clientMap s" by (simp add: wn_sys_def)
  then have "\<exists>m. wn_read r fd s = Some (if y = ''exit'' then wn_closeClient fd (wn_say m ?s) else wn_say m ?s)"
    using Received e y by (intro exI [of _ "'' recv from  '' @ ce_ip e @ '' : '' @ y"]) (simp add: wn_read_def Let_def)
  then obtain m where m: "wn_read r fd s = Some (if y = ''exit'' then wn_closeClient fd (wn_say m ?s) else wn_say m ?s)" ..
  have "wn_inv (if y = ''exit'' then wn_closeClient fd (wn_say m ?s) else wn_say m ?s)"
    by (rule if_split [THEN iffD2]) (use inv in blast)
  then show ?thesis using m by blast
next
  case Recv_closed
  then show ?thesis using wn_inv_close [OF i fd] by (simp add: wn_read_def)
qed (use i in \<open>simp_all add: wn_read_def\<close>)

lemma wn_read_loop_inv:
  assumes "wn_inv s" "\<forall>fd \<in> set fds. int32 fd" "reads_ok a k fds s"
  shows "\<exists>sel t. wn_read_loop a k selres fds s = Some (sel, t) \<and> wn_inv t"
  using assms
proof (induction a k selres fds s rule: wn_read_loop.induct)
  case (2 a k selres fd fds s)
  show ?case
  proof (cases "fd \<in> wa_readable a")
    case True
    then have r: "recv_ok (wa_recv a k) fd s" using "2.prems"(3) by simp
    obtain t where t: "wn_read (wa_recv a k) fd s = Some t" "wn_inv t"
      using wn_read_inv [OF "2.prems"(1) _ r] "2.prems"(2) by auto
    then show ?thesis using "2.IH"(1) [OF True t(1) t(2)] "2.prems"(2,3) True by simp
  next
    case False
    then show ?thesis using "2.IH"(2) [OF False "2.prems"(1)] "2.prems"(2,3) by simp
  qed
qed simp

lemma wn_put_inv:
  assumes i: "wn_inv s" and e: "map_of (wn_clientMap s) fd = Some e" and n: "ce_recv e \<noteq> []"
  shows "wn_inv (wn_put w fd e s)"
proof -
  note c = wn_inv_client [OF i e]
  show ?thesis
  proof (cases "\<exists>n > 0. w = Sent n")
    case True
    then obtain n where n': "0 < n" "w = Sent n" by blast
    have "wn_inv ((wn_sys (Put fd (ce_recv e) n) s)\<lparr>wn_clientMap := cm_update fd (\<lambda>e. e\<lparr>ce_recv := []\<rparr>) (wn_clientMap s)\<rparr>)"
      by (rule wn_inv_update [OF i e]) (use i c n n' in \<open>simp_all add: wn_inv_def\<close>)
    then show ?thesis using n' by (auto simp: wn_put_def Let_def wn_sys_def)
  next
    case False
    then have ok: "(case w of Sent n \<Rightarrow> n | _ \<Rightarrow> 0) = 0" by (auto split: send_result.splits)
    have "wn_inv (wn_sys (Put fd (ce_recv e) 0) s)" using i c n by (auto simp: wn_inv_def wn_sys_def accepted_def)
    then show ?thesis unfolding wn_put_def Let_def ok by (simp add: wn_inv_say)
  qed
qed

lemma wn_write_loop_inv: "wn_inv s \<Longrightarrow> wn_inv (wn_write_loop a k fds s)"
  by (induction a k fds s rule: wn_write_loop.induct) (auto intro: wn_put_inv split: option.splits)

lemma cm_insert_length: "map_of m k = None \<Longrightarrow> length (cm_insert k e m) = Suc (length m)"
  by (induction k e m rule: cm_insert.induct) (auto split: if_splits)

lemma wn_new_client_inv:
  assumes i: "wn_inv s" and e: "int32 fd" "ce_socket e = fd" "ce_recv e = []"
  shows "wn_inv (wn_new_client fd e s)"
proof -
  let ?m = "wn_clientMap s"
  have m: "cm_ok ?m" using i by (simp add: wn_inv_def)
  show ?thesis
  proof (cases "map_of ?m fd")
    case None
    have l: "length (cm_insert fd e ?m) = Suc (length ?m)"
      using None by (rule cm_insert_length)
    have o: "map_of (cm_insert fd e ?m) = (map_of ?m)(fd \<mapsto> e)" using cm_insert_map_of [OF m] None by (simp add: domIff)
    have "cm_ok (cm_insert fd e ?m)" by (rule cm_insert_ok [OF m e(2)])
    then show ?thesis using i None l o e(1,3) by (auto simp: wn_new_client_def wn_inv_def wn_sys_def accepted_def)
  next
    case (Some f)
    then show ?thesis using i by (auto simp: wn_new_client_def wn_inv_def wn_sys_def accepted_def)
  qed
qed

lemma wn_accept_inv:
  assumes "wn_inv s"
  shows "wn_inv (snd (wn_accept acc s))"
proof (cases acc)
  case (Pair sock addr)
  have "wn_inv (wn_new_client (socket_int sock) \<lparr>ce_socket = socket_int sock, ce_port = uint (sin_port addr),
               ce_ip = inet_ntoa (sin_addr addr), ce_recv = [], ce_write = []\<rparr> s)"
    by (rule wn_new_client_inv [OF assms socket_int_range]) simp_all
  then show ?thesis using assms Pair by (simp add: wn_accept_def Let_def wn_inv_say wn_inv_sys quiet_def)
qed

lemma wn_sockets_int32:
  assumes "wn_inv s"
  shows "\<forall>fd \<in> set (wn_sockets s). int32 fd"
proof
  fix fd assume "fd \<in> set (wn_sockets s)"
  then consider "fd = socket_int (wn_socket s)" | k e where "(k, e) \<in> set (wn_clientMap s)" "fd = ce_socket e"
    by (auto simp: wn_sockets_def)
  then show "int32 fd"
  proof cases
    case 1
    then show ?thesis by (simp add: socket_int_range)
  next
    case (2 k e)
    have "k \<in> dom (map_of (wn_clientMap s))"
      unfolding dom_map_of_conv_image_fst using 2(1) by (intro image_eqI [of _ fst "(k, e)"]) simp_all
    moreover have "fd = k" using 2 assms by (auto simp: wn_inv_def cm_ok_def)
    ultimately have "fd = k" "k \<in> dom (map_of (wn_clientMap s))" by simp_all
    then show ?thesis using assms by (simp add: wn_inv_def)
  qed
qed

text \<open>What is asked of the system in a round, and in all rounds.\<close>

definition round_ok :: "win_answers \<Rightarrow> int list \<Rightarrow> win_server \<Rightarrow> bool" where
  "round_ok a readlist s \<longleftrightarrow> (let t = (if socket_int (wn_socket s) \<in> wa_readable a then snd (wn_accept (wa_accept a) s) else s) in
     reads_ok a 0 (readlist @ wn_sockets s) t)"

fun rounds_ok :: "win_answers list \<Rightarrow> int list \<Rightarrow> int list \<Rightarrow> win_server \<Rightarrow> bool" where
  "rounds_ok [] rl wl s = True"
| "rounds_ok (a # as) rl wl s = (round_ok a rl s
     \<and> (case wn_round a rl wl s of Some (left, rl', wl', t) \<Rightarrow> rounds_ok as rl' wl' t | None \<Rightarrow> True))"

lemma wn_round_inv:
  assumes i: "wn_inv s" and l: "\<forall>fd \<in> set rl. int32 fd" and r: "round_ok a rl s"
  shows "\<exists>left t. wn_round a rl wl s = Some (left, rl @ wn_sockets s, wl @ wn_sockets s, t) \<and> wn_inv t"
proof (cases "wa_select a > 0")
  case True
  let ?ls = "socket_int (wn_socket s) \<in> wa_readable a"
  obtain left s1 where s1: "wn_accept (wa_accept a) s = (left, s1)" by (cases "wn_accept (wa_accept a) s")
  define u where "u = (if ?ls then s1 else s)"
  define sel where "sel = (if ?ls then wa_select a - 1 else wa_select a)"
  have u: "wn_inv u" using wn_accept_inv [OF i, of "wa_accept a"] i s1 by (simp add: u_def)
  have ok: "reads_ok a 0 (rl @ wn_sockets s) u" using r s1 by (simp add: round_ok_def Let_def u_def split: if_splits)
  obtain sel' t where t: "(if sel > 0 then wn_read_loop a 0 sel (rl @ wn_sockets s) u else Some (sel, u)) = Some (sel', t)" "wn_inv t"
    using wn_read_loop_inv [OF u _ ok, of sel] l wn_sockets_int32 [OF i] u by (cases "sel > 0") auto
  let ?w = "if sel' > 0 then wn_write_loop a 0 (wl @ wn_sockets s) t else t"
  have w: "wn_inv ?w" using wn_write_loop_inv [OF t(2)] t(2) by simp
  have run: "wn_round a rl wl s = Some (if ?ls \<and> left then (True, rl @ wn_sockets s, wl @ wn_sockets s, s1)
      else (False, rl @ wn_sockets s, wl @ wn_sockets s, ?w))"
  proof (cases "sel > 0")
    case True
    then have "wn_read_loop a 0 sel (rl @ wn_sockets s) u = Some (sel', t)" using t(1) by simp
    then show ?thesis using True \<open>wa_select a > 0\<close> s1
      by (cases ?ls; cases left) (simp_all add: wn_round_def Let_def u_def sel_def)
  next
    case False
    then have "sel' = sel" "t = u" using t(1) by simp_all
    then show ?thesis using False \<open>wa_select a > 0\<close> s1
      by (cases ?ls; cases left) (simp_all add: wn_round_def Let_def u_def sel_def)
  qed
  show ?thesis
  proof (cases "?ls \<and> left")
    case True
    then show ?thesis using run u by (intro exI [of _ True] exI [of _ s1]) (simp add: u_def)
  next
    case False
    then show ?thesis unfolding run if_not_P [OF False] using w by (intro exI [of _ False] exI [of _ ?w]) simp
  qed
next
  case False
  then show ?thesis using i by (intro exI [of _ False] exI [of _ s]) (simp add: wn_round_def Let_def)
qed

lemma wn_select_loop_inv:
  assumes "wn_inv s" "\<forall>fd \<in> set rl. int32 fd" "rounds_ok as rl wl s"
  shows "\<exists>left rl' wl' t. wn_select_loop as rl wl s = Some (left, rl', wl', t) \<and> wn_inv t
    \<and> (\<not> left \<longrightarrow> length rl + length as \<le> length rl' \<and> length wl + length as \<le> length wl')"
  using assms
proof (induction as arbitrary: rl wl s)
  case Nil
  then show ?case by simp
next
  case (Cons a as)
  show ?case
  proof (cases "wn_bStop s")
    case True
    then show ?thesis using Cons.prems(1) by (intro exI [of _ True]) simp
  next
    case False
    obtain left t where t: "wn_round a rl wl s = Some (left, rl @ wn_sockets s, wl @ wn_sockets s, t)" "wn_inv t"
      using wn_round_inv [OF Cons.prems(1,2)] Cons.prems(3) unfolding rounds_ok.simps by blast
    show ?thesis
    proof (cases left)
      case True
      then show ?thesis using False t by (intro exI [of _ True]) simp
    next
      case nl: False
      have "\<forall>fd \<in> set (rl @ wn_sockets s). int32 fd" using Cons.prems(2) wn_sockets_int32 [OF Cons.prems(1)] by auto
      then obtain left' rl' wl' v where v: "wn_select_loop as (rl @ wn_sockets s) (wl @ wn_sockets s) t = Some (left', rl', wl', v)" "wn_inv v"
        "\<not> left' \<longrightarrow> length (rl @ wn_sockets s) + length as \<le> length rl' \<and> length (wl @ wn_sockets s) + length as \<le> length wl'"
        using Cons.IH [OF t(2)] Cons.prems(3) t(1) by (simp only: rounds_ok.simps option.case prod.case) blast
      have "1 \<le> length (wn_sockets s)" by (simp add: wn_sockets_def)
      then have "\<not> left' \<longrightarrow> length rl + length (a # as) \<le> length rl' \<and> length wl + length (a # as) \<le> length wl'"
        using v(3) unfolding length_append list.size(4) by linarith
      then show ?thesis using False nl t(1) v(1,2)
        by - (rule exI [of _ left'], rule exI [of _ rl'], rule exI [of _ wl'], rule exI [of _ v], auto)
    qed
  qed
qed

text \<open>C37: The server with select echoes.  The system is assumed to deliver data for open connections only
  (accepted and not closed since), and no text to fill the 4096 bytes of the buffer.  Then the loop never
  uses the iterator of a client that is gone, since every open connection is in its map; every text it
  hands to send for a client is, in order, what came from it, each text up to its first NUL, since the
  last send for it that took anything (a send that takes a part of its text counts as a whole one,
  and the rest is lost); what a client still holds is what is owed to it; and the texts of the
  clients never mix.  So if no text has a NUL and every send takes all of its text or nothing, the
  bytes sent to a client and those it still holds are, byte for byte, the bytes that came from it.
  But the two lists of sockets are never cleared and have at least one more entry after every round, and no
  client is ever deleted: all that were accepted are in the map or lost.\<close>

theorem wn_echo_exact:
  assumes "wn_clientMap s = []" "wn_lost s = []" "wn_trace s = []" and "rounds_ok as [] [] (wn_say '' start select '' (wn_sys (Ioctl_nonblock (wn_socket s) False) s))"
  shows "\<exists>left rl wl t. wn_startSelect as s = Some (left, rl, wl, t) \<and> echo_ok (wn_trace t)
    \<and> (\<forall>fd. int32 fd \<longrightarrow> is_open fd (wn_trace t) \<longrightarrow> map_of (wn_clientMap t) fd \<noteq> None)
    \<and> (\<forall>fd e. map_of (wn_clientMap t) fd = Some e \<longrightarrow> ce_recv e = owed fd (wn_trace t))
    \<and> ((\<forall>c \<in> set (wn_trace t). whole_call c) \<longrightarrow> (\<forall>fd e. map_of (wn_clientMap t) fd = Some e \<longrightarrow>
         bytes_sent fd (wn_trace t) @ ce_recv e = bytes_received fd (wn_trace t)))
    \<and> (\<not> left \<longrightarrow> length as \<le> length rl \<and> length as \<le> length wl)
    \<and> accepted (wn_trace t) = length (wn_clientMap t) + length (wn_lost t)"
proof -
  have "wn_inv s" using assms(1-3) by (simp add: wn_inv_def cm_ok_def accepted_def)
  then have "wn_inv (wn_say '' start select '' (wn_sys (Ioctl_nonblock (wn_socket s) False) s))"
    by (simp add: wn_inv_say wn_inv_sys quiet_def)
  then obtain left rl wl t where t: "wn_startSelect as s = Some (left, rl, wl, t)" "wn_inv t"
    "\<not> left \<longrightarrow> length ([]::int list) + length as \<le> length rl \<and> length ([]::int list) + length as \<le> length wl"
    using wn_select_loop_inv [OF _ _ assms(4)] unfolding wn_startSelect_def by auto
  have e: "echo_ok (wn_trace t)" "accepted (wn_trace t) = length (wn_clientMap t) + length (wn_lost t)"
    "\<forall>fd. int32 fd \<longrightarrow> is_open fd (wn_trace t) \<longrightarrow> map_of (wn_clientMap t) fd \<noteq> None"
    using t(2) by (simp_all add: wn_inv_def)
  have h: "ce_recv e = owed fd (wn_trace t)" if "map_of (wn_clientMap t) fd = Some e" for fd e
    using wn_inv_client [OF t(2) that] by simp
  have "bytes_sent fd (wn_trace t) @ ce_recv e' = bytes_received fd (wn_trace t)"
    if "\<forall>c \<in> set (wn_trace t). whole_call c" "map_of (wn_clientMap t) fd = Some e'" for fd e'
    using echo_stream [OF e(1) that(1)] h [OF that(2)] by simp
  then show ?thesis using t(1,3) e h unfolding list.size add_0 by blast
qed

definition win_idle :: win_server where
  "win_idle = \<lparr>wn_socket = 4, wn_bStop = False, wn_state = Connecting, wn_port = 0, wn_serverIp = [], wn_portList = [],
     wn_clientMap = [], wn_lost = [], wn_trace = []\<rparr>"

text \<open>A client connects, sends two texts and \<open>exit\<close>.\<close>

definition win_rounds :: "win_answers list" where
  "win_rounds = map (\<lambda>(n, r, x). \<lparr>wa_select = n, wa_readable = r, wa_accept = (9, \<lparr>sin_addr = 1, sin_port = 80\<rparr>),
      wa_recv = (\<lambda>k. if k = 0 then x else Recv_error), wa_send = (\<lambda>_. Sent 2)\<rparr>)
    [(1, {4}, Recv_error), (2, {9}, Received ''ab''), (3, {9}, Received ''cd''), (1, {9}, Received ''exit'')]"

theorem wn_echo_exact_witness:
  "\<exists>left rl wl t. wn_startSelect win_rounds win_idle = Some (left, rl, wl, t) \<and> echo_ok (wn_trace t)
     \<and> (\<not> left \<longrightarrow> 4 \<le> length rl)"
proof -
  have i: "wn_clientMap win_idle = []" "wn_lost win_idle = []" "wn_trace win_idle = []" by (simp_all add: win_idle_def)
  have r: "rounds_ok win_rounds [] [] (wn_say '' start select '' (wn_sys (Ioctl_nonblock (wn_socket win_idle) False) win_idle))"
    by code_simp
  have "length win_rounds = 4" by (simp add: win_rounds_def)
  then show ?thesis using wn_echo_exact [OF i r] by auto
qed

end
