(* ===== verification/ClientSocket.thy ===== *)
theory ClientSocket
  imports Posix
begin

text \<open>
  The client of \<open>epoll/clientsocket.cpp\<close> (the branches that are not for Windows): a thread that
  connects to a server, tries its other addresses and ports, delivers what it reads and reconnects.
  The world outside the thread is a function of time: the field \<open>clock\<close> counts the calls and the
  tests of \<open>m_bStop\<close>, which another thread may set, and \<open>client_env\<close> says what each of them gives;
  \<open>en_drop\<close> says when that other thread, in \<open>stop\<close>, sets \<open>m_socket\<close> to -1.  The socket is blocking when
  it is read, and \<open>en_read\<close> is \<^const>\<open>None\<close> for a call of \<open>read\<close> that does not return (a server that sends
  nothing and keeps the connection; \<open>stop\<close> does not close the descriptor and so does not wake it).
  Loops that a stop or the end of a connection ends are partial functions, \<^const>\<open>None\<close> when they go on for ever.
\<close>

subsection \<open>State\<close>

datatype client_event = Connect_cb NetworkState string | Receive_cb string

record client_socket =
  ck_socket :: int
  m_nTryCount :: nat
  m_bConnect :: bool
  ck_state :: NetworkState
  m_iLastError :: int
  m_bAutoReconnect :: bool
  ck_port :: int
  m_portList :: "int list"
  m_connectIp :: string
  clock :: nat
  cb_log :: "client_event list"
  ck_trace :: trace

text \<open>The answers to one attempt to connect.\<close>

record connect_answers =
  ca_socket :: int
  ca_connect :: int
  ca_select :: int
  ca_ready :: bool
  ca_errno :: int
  ca_fcntl :: fcntl_answers

record client_env =
  en_stop :: "nat \<Rightarrow> bool"
  en_drop :: "nat \<Rightarrow> bool"
  en_host :: "nat \<Rightarrow> 32 word list option"
  en_connect :: "nat \<Rightarrow> connect_answers"
  en_read :: "nat \<Rightarrow> recv_result option"
  en_errno :: "nat \<Rightarrow> int"
  en_callbacks :: "bool \<times> bool"

definition EISCONN :: int where "EISCONN = 106"
definition EINPROGRESS :: int where "EINPROGRESS = 115"

definition ck_sys :: "sys_call \<Rightarrow> client_socket \<Rightarrow> client_socket" where
  "ck_sys e s = s\<lparr>ck_trace := e # ck_trace s\<rparr>"

definition ck_say :: "string \<Rightarrow> client_socket \<Rightarrow> client_socket" where
  "ck_say x s = ck_sys (Print (x @ [LF])) s"

definition later :: "client_env \<Rightarrow> client_socket \<Rightarrow> client_socket" where
  "later env s = s\<lparr>clock := clock s + 1, ck_socket := if en_drop env (clock s + 1) then - 1 else ck_socket s\<rparr>"

text \<open>A call of one of the callbacks, if it is set.\<close>

definition connect_cb :: "client_env \<Rightarrow> NetworkState \<Rightarrow> string \<Rightarrow> client_socket \<Rightarrow> client_socket" where
  "connect_cb env st msg s = (if fst (en_callbacks env) then s\<lparr>cb_log := cb_log s @ [Connect_cb st msg]\<rparr> else s)"

definition receive_cb :: "client_env \<Rightarrow> string \<Rightarrow> client_socket \<Rightarrow> client_socket" where
  "receive_cb env x s = (if snd (en_callbacks env) then s\<lparr>cb_log := cb_log s @ [Receive_cb x]\<rparr> else s)"

subsection \<open>Operations on the socket\<close>

definition ck_closeSocket :: "client_socket \<Rightarrow> client_socket" where
  "ck_closeSocket s = (ck_sys (Close (ck_socket s)) s)\<lparr>ck_socket := - 1\<rparr>"

definition ck_createSocket :: "int \<Rightarrow> client_socket \<Rightarrow> int \<times> client_socket" where
  "ck_createSocket sock s = (let
      s = (if ck_socket s > 0 then ck_closeSocket s else s);
      s = s\<lparr>ck_socket := sock\<rparr> in
      if ck_socket s = - 1 then (- 1, ck_say ''create tcp socket failed.'' s)
      else (ck_socket s, ck_say ''create tcp socket successed.'' s))"

definition ck_setBlock :: "fcntl_answers \<Rightarrow> bool \<Rightarrow> client_socket \<Rightarrow> bool \<times> client_socket" where
  "ck_setBlock fc isblock s = (if ck_socket s \<le> 0 then (False, ck_say ''set tcp socket block failed.'' s)
     else (let flags = fc_get fc (ck_socket s) in
       if sint flags < 0 then (False, s)
       else (let flags = (if isblock then flags AND NOT O_NONBLOCK else flags OR O_NONBLOCK);
                 s = ck_sys (Set_flags (ck_socket s) flags) s in
         if \<not> fc_set fc (ck_socket s) then (False, s)
         else (True, ck_say (if isblock then ''set tcp socket block success.''
                             else ''set tcp socket not block success.'') s))))"

definition connected_text :: "string \<Rightarrow> int \<Rightarrow> string" where
  "connected_text ip port = ''connect= '' @ ip @ '' : port = '' @ dec port"

definition connectToServer :: "connect_answers \<Rightarrow> string \<Rightarrow> int \<Rightarrow> client_socket \<Rightarrow> bool \<times> client_socket" where
  "connectToServer a ip port s = (let
      (failed, s) = (if ck_socket s \<le> 0
        then (let (r, s) = ck_createSocket (ca_socket a) (ck_sys (Print (''ConnectToServer FAIL,m_socket <= 0'' @ [LF])) s) in (r = - 1, s))
        else (False, s)) in
      if failed then (False, s)
      else (let
        s = snd (ck_setBlock (ca_fcntl a) False s);
        s = ck_sys (Connect (ck_socket s) ip port) s in
        if ca_connect a \<noteq> 0 then
          (if ca_select a = - 1 then (False, ck_say ''select error'' s)
           else if ca_select a = 0 then (False, ck_say ''select time out'' s)
           else if ca_ready a then
             (let s = ck_sys (Connect (ck_socket s) ip port) s;
                  s = s\<lparr>m_iLastError := ca_errno a\<rparr> in
              if m_iLastError s = EISCONN \<or> m_iLastError s = EINPROGRESS then
                (True, snd (ck_setBlock (ca_fcntl a) True (ck_say (connected_text ip port @ '' finished(success).'') s)))
              else (False, ck_say (connected_text ip port @ ''finished(failed). errno='' @ dec (ca_errno a)) s))
           else (False, ck_say (connected_text ip port @ ''finished(failed).'') s))
        else (True, ck_say (connected_text ip port @ '' finished(success).'') (snd (ck_setBlock (ca_fcntl a) True s)))))"

definition sendData :: "send_result \<Rightarrow> string \<Rightarrow> client_socket \<Rightarrow> bool \<times> client_socket" where
  "sendData w x s = (if \<not> m_bConnect s \<or> ck_socket s = - 1 then (False, s)
     else (\<exists>n > 0. w = Sent n, ck_sys (Write (ck_socket s) x) s))"

subsection \<open>The thread\<close>

text \<open>A test of \<open>m_bStop\<close>.\<close>

definition stopped :: "client_env \<Rightarrow> client_socket \<Rightarrow> bool" where
  "stopped env s = en_stop env (clock s)"

text \<open>The loop that reads from a connection; it does not return when a call of \<open>read\<close> does not.\<close>

partial_function (option) recv_loop :: "client_env \<Rightarrow> client_socket \<Rightarrow> client_socket option" where
  "recv_loop env s = (if stopped env s then Some (later env s) else (let s = later env s in
     case en_read env (clock s) of
       None \<Rightarrow> None
     | Some (Received x) \<Rightarrow> recv_loop env (receive_cb env x (later env s))
     | Some r \<Rightarrow> (let s = s\<lparr>m_iLastError := en_errno env (clock s)\<rparr>;
         s = ck_say (''get lasterror:'' @ dec (m_iLastError s) @ '' datalen= '' @ dec (if r = Recv_closed then 0 else - 1)) s;
         s = ck_closeSocket (s\<lparr>m_bConnect := False\<rparr>);
         s = s\<lparr>ck_state := Unconnected\<rparr> in
         Some (later env (connect_cb env Unconnected (''disconnect'' @ [LF]) s)))))"

text \<open>One turn of the loop over the ports, which may go on reading for ever.\<close>

definition try_port :: "client_env \<Rightarrow> string \<Rightarrow> client_socket \<Rightarrow> client_socket option" where
  "try_port env ip s = (let s = s\<lparr>m_connectIp := ip\<rparr>;
      (ok, s) = connectToServer (en_connect env (clock s)) ip (ck_port s) s;
      s = later env (s\<lparr>m_bConnect := ok\<rparr>) in
      if ok then (let s = s\<lparr>m_nTryCount := 0, ck_state := Connected\<rparr>;
          s = connect_cb env Connected (''connect succ'' @ [LF]) s in do {
          s \<leftarrow> recv_loop env s;
          Some (s\<lparr>m_bConnect := False\<rparr>) })
      else Some (connect_cb env Unconnected (''connect error TCP_ERROR_UNSOLVE_IP'' @ [LF]) s))"

partial_function (option) ports_loop :: "client_env \<Rightarrow> string \<Rightarrow> int list \<Rightarrow> client_socket \<Rightarrow> client_socket option" where
  "ports_loop env ip portList s = (let portList = removeAll (ck_port s) portList in do {
     s \<leftarrow> try_port env ip s;
     let s = (if portList \<noteq> [] then s\<lparr>ck_port := hd portList\<rparr> else s);
     if portList = [] then Some s
     else if stopped env s then Some (later env s)
     else ports_loop env ip portList (later env s) })"

fun hosts_loop :: "client_env \<Rightarrow> 32 word list \<Rightarrow> client_socket \<Rightarrow> client_socket option" where
  "hosts_loop env [] s = Some s"
| "hosts_loop env (h # hs) s = (if stopped env s then Some (later env s)
     else do { s \<leftarrow> ports_loop env (inet_ntoa h) (m_portList s) (later env s); hosts_loop env hs s })"

text \<open>One turn of the loop of \<open>threadRun\<close>; the flag says that the loop goes on.\<close>

definition thread_turn :: "client_env \<Rightarrow> client_socket \<Rightarrow> (bool \<times> client_socket) option" where
  "thread_turn env s = do {
     s \<leftarrow> (case en_host env (clock s) of
         Some hs \<Rightarrow> hosts_loop env hs (later env s)
       | None \<Rightarrow> Some (connect_cb env Unconnected (''connect error unsole ip'' @ [LF]) (later env s)));
     if m_bAutoReconnect s then
       (if stopped env s then Some (False, later env s)
        else (let s = later env s in
          if stopped env s then Some (False, later env s)
          else Some (True, (later env s)\<lparr>m_nTryCount := m_nTryCount s + 1\<rparr>)))
     else Some (False, s) }"

partial_function (option) thread_loop :: "client_env \<Rightarrow> client_socket \<Rightarrow> client_socket option" where
  "thread_loop env s = (if stopped env s then Some (later env s) else do {
     (more, s) \<leftarrow> thread_turn env (later env s);
     if more then thread_loop env s else Some s })"

definition threadRun :: "client_env \<Rightarrow> client_socket \<Rightarrow> client_socket option" where
  "threadRun env s = do {
     s \<leftarrow> thread_loop env (s\<lparr>m_nTryCount := 0, m_connectIp := [], m_iLastError := 0\<rparr>);
     let s = (if ck_socket s > 0 then (ck_closeSocket s)\<lparr>ck_socket := - 1\<rparr> else s);
     let s = s\<lparr>m_bConnect := False, ck_state := Unconnected\<rparr>;
     Some (ck_say ''client socket runloop exit'' s) }"

text \<open>
  \<open>start\<close> up to the creation of the thread, and what \<open>stop\<close> does to the object.  \<open>hasIp\<close> says
  whether an address of the server was set.
\<close>

definition ck_start :: "int \<Rightarrow> bool \<Rightarrow> client_socket \<Rightarrow> bool \<times> client_socket" where
  "ck_start sock hasIp s = (if \<not> hasIp \<or> ck_port s = 0 then (False, s)
     else (let (r, s) = ck_createSocket sock s in
       if r = - 1 then (False, s) else (True, s\<lparr>ck_state := Connecting\<rparr>)))"

definition ck_stop :: "client_socket \<Rightarrow> client_socket" where
  "ck_stop s = s\<lparr>ck_state := Unconnected, ck_socket := - 1\<rparr>"

end
