(* ===== verification/WinClient.thy ===== *)
theory WinClient
  imports WinServer ClientSocket
begin

text \<open>
  The client for Windows, \<open>clientsocket-cmake/clientsocket.cpp\<close>.  It differs from the one in the
  directory epoll in its socket, which is unsigned, and in the calls of the system.  As there, the
  world outside the thread is a function of time: \<open>wc_clock\<close> counts the calls and the tests of
  \<open>m_bStop\<close>, and \<open>win_env\<close> says what each of them gives (\<open>we_recv\<close> is \<^const>\<open>None\<close> for a call of \<open>recv\<close>
  that does not return); the answers to an attempt to connect depend
  on the socket as well.
\<close>

subsection \<open>State\<close>

record win_client =
  wc_socket :: SOCKET
  wc_nTryCount :: nat
  wc_bStop :: bool
  wc_bConnect :: bool
  wc_state :: NetworkState
  wc_iLastError :: int
  wc_bAutoReconnect :: bool
  wc_port :: "16 word"
  wc_serverIp :: string
  wc_connectIp :: string
  wc_portList :: "16 word list"
  wc_clock :: nat
  wc_log :: "client_event list"
  wc_trace :: "win_call list"

record win_connect_answers =
  wa_socket :: SOCKET
  wa_connect :: int
  wa_selres :: int
  wa_ready :: bool
  wa_last_error :: int
  wa_errno :: int

record win_env =
  we_stop :: "nat \<Rightarrow> bool"
  we_drop :: "nat \<Rightarrow> bool"
  we_host :: "nat \<Rightarrow> 32 word list option"
  we_connect :: "nat \<Rightarrow> SOCKET \<Rightarrow> win_connect_answers"
  we_recv :: "nat \<Rightarrow> recv_result option"
  we_last_error :: "nat \<Rightarrow> int"
  we_callbacks :: "bool \<times> bool"

definition WSAEISCONN :: int where "WSAEISCONN = 10056"
definition WSAEINPROGRESS :: int where "WSAEINPROGRESS = 10036"

definition wc_sys :: "win_call \<Rightarrow> win_client \<Rightarrow> win_client" where
  "wc_sys e s = s\<lparr>wc_trace := e # wc_trace s\<rparr>"

definition wc_say :: "string \<Rightarrow> win_client \<Rightarrow> win_client" where
  "wc_say x s = wc_sys (Say (x @ [LF])) s"

definition wc_later :: "win_env \<Rightarrow> win_client \<Rightarrow> win_client" where
  "wc_later env s = s\<lparr>wc_clock := wc_clock s + 1, wc_socket := if we_drop env (wc_clock s + 1) then - 1 else wc_socket s\<rparr>"

definition wc_stopped :: "win_env \<Rightarrow> win_client \<Rightarrow> bool" where
  "wc_stopped env s = we_stop env (wc_clock s)"

definition wc_connect_cb :: "win_env \<Rightarrow> NetworkState \<Rightarrow> string \<Rightarrow> win_client \<Rightarrow> win_client" where
  "wc_connect_cb env st msg s = (if fst (we_callbacks env) then s\<lparr>wc_log := wc_log s @ [Connect_cb st msg]\<rparr> else s)"

definition wc_receive_cb :: "win_env \<Rightarrow> string \<Rightarrow> win_client \<Rightarrow> win_client" where
  "wc_receive_cb env x s = (if snd (we_callbacks env) then s\<lparr>wc_log := wc_log s @ [Receive_cb x]\<rparr> else s)"

subsection \<open>Operations on the socket\<close>

definition wc_setServerAddr :: "string \<Rightarrow> 16 word \<Rightarrow> 16 word list \<Rightarrow> win_client \<Rightarrow> win_client" where
  "wc_setServerAddr ip nPort portList s = s\<lparr>wc_serverIp := ip, wc_port := nPort, wc_portList := portList\<rparr>"

text \<open>\<open>m_socket > 0\<close> and \<open>m_socket <= 0\<close> are comparisons of unsigned numbers.\<close>

definition wc_createSocket :: "SOCKET \<Rightarrow> win_client \<Rightarrow> int \<times> win_client" where
  "wc_createSocket sock s = (let
      s = (if wc_socket s > 0 then (wc_sys (Wn_close (wc_socket s)) s)\<lparr>wc_socket := - 1\<rparr> else s);
      s = s\<lparr>wc_socket := sock\<rparr> in
      if wc_socket s = - 1 then (- 1, wc_say ''create tcp socket failed.'' s)
      else (socket_int (wc_socket s), wc_say ''create tcp socket successed.'' s))"

definition wc_setBlock :: "bool \<Rightarrow> win_client \<Rightarrow> bool \<times> win_client" where
  "wc_setBlock isblock s = (if wc_socket s \<le> 0 then (False, wc_say ''set tcp socket block failed.'' s)
     else (let s = wc_sys (Ioctl_nonblock (wc_socket s) (\<not> isblock)) s in
       (True, wc_say (if isblock then ''set tcp socket block success.'' else ''set tcp socket not block success.'') s)))"

definition win_port_text :: "string \<Rightarrow> 16 word \<Rightarrow> string" where
  "win_port_text ip port = ''connect= '' @ ip @ '' : port = '' @ dec (uint port)"

definition wc_connectToServer :: "(SOCKET \<Rightarrow> win_connect_answers) \<Rightarrow> string \<Rightarrow> 16 word \<Rightarrow> win_client \<Rightarrow> bool \<times> win_client" where
  "wc_connectToServer answers ip port s = (let
      (failed, s) = (if wc_socket s \<le> 0
        then (let (r, s) = wc_createSocket (wa_socket (answers (wc_socket s))) (wc_say ''ConnectToServer FAIL,m_socket <= 0'' s) in (r = - 1, s))
        else (False, s)) in
      if failed then (False, s)
      else (let
        s = snd (wc_setBlock False s);
        a = answers (wc_socket s);
        s = wc_sys (Wn_connect (wc_socket s) ip (uint port)) s in
        if wa_connect a \<noteq> 0 then
          (if wa_selres a = - 1 then (False, wc_say ''select error'' s)
           else if wa_selres a = 0 then (False, wc_say ''select time out'' s)
           else if wa_ready a then
             (let s = wc_sys (Wn_connect (wc_socket s) ip (uint port)) s;
                  s = s\<lparr>wc_iLastError := wa_last_error a\<rparr> in
              if wc_iLastError s = WSAEISCONN \<or> wc_iLastError s = WSAEINPROGRESS then
                (True, snd (wc_setBlock True (wc_say (win_port_text ip port @ '' finished(success).'') s)))
              else (False, wc_say (win_port_text ip port @ ''finished(failed). errno='' @ dec (wa_errno a)) s))
           else (False, wc_say (win_port_text ip port @ ''finished(failed).'') s))
        else (True, wc_say (win_port_text ip port @ '' finished(success).'') (snd (wc_setBlock True s)))))"

definition wc_sendData :: "int \<Rightarrow> string \<Rightarrow> win_client \<Rightarrow> bool \<times> win_client" where
  "wc_sendData ret x s = (if \<not> wc_bConnect s \<or> wc_socket s = - 1 then (False, s)
     else (ret > 0, wc_sys (Put (socket_int (wc_socket s)) x (nat ret)) s))"

text \<open>\<open>start\<close> up to the creation of the thread, and what \<open>stop\<close> does to the object.\<close>

definition wc_start :: "SOCKET \<Rightarrow> win_client \<Rightarrow> bool \<times> win_client" where
  "wc_start sock s = (if wc_serverIp s = [] \<or> wc_port s = 0 then (False, s)
     else (let (r, s) = wc_createSocket sock s in
       if r = - 1 then (False, s) else (True, s\<lparr>wc_bStop := False, wc_state := Connecting\<rparr>)))"

definition wc_stop :: "win_client \<Rightarrow> win_client" where
  "wc_stop s = (let s = s\<lparr>wc_bStop := True\<rparr>; s = s\<lparr>wc_state := Unconnected\<rparr> in (wc_sys (Wn_close (wc_socket s)) s)\<lparr>wc_socket := - 1\<rparr>)"

subsection \<open>The thread\<close>

partial_function (option) wc_recv_loop :: "win_env \<Rightarrow> win_client \<Rightarrow> win_client option" where
  "wc_recv_loop env s = (if wc_stopped env s then Some (wc_later env s) else (let s = wc_later env s in
     case we_recv env (wc_clock s) of
       None \<Rightarrow> None
     | Some (Received x) \<Rightarrow> wc_recv_loop env (wc_receive_cb env x (wc_later env s))
     | Some r \<Rightarrow> (let s = s\<lparr>wc_iLastError := we_last_error env (wc_clock s)\<rparr>;
         s = wc_say (''get lasterror:'' @ dec (wc_iLastError s) @ '' datalen= '' @ dec (if r = Recv_closed then 0 else - 1)) s;
         s = s\<lparr>wc_bConnect := False\<rparr>;
         s = (wc_sys (Wn_close (wc_socket s)) s)\<lparr>wc_socket := - 1\<rparr>;
         s = s\<lparr>wc_state := Unconnected\<rparr> in
         Some (wc_later env (wc_connect_cb env Unconnected (''disconnect'' @ [LF]) s)))))"

definition wc_try_port :: "win_env \<Rightarrow> string \<Rightarrow> win_client \<Rightarrow> win_client option" where
  "wc_try_port env ip s = (let s = s\<lparr>wc_connectIp := ip\<rparr>;
      (ok, s) = wc_connectToServer (we_connect env (wc_clock s)) ip (wc_port s) s;
      s = wc_later env (s\<lparr>wc_bConnect := ok\<rparr>) in
      if ok then (let s = s\<lparr>wc_nTryCount := 0, wc_state := Connected\<rparr>;
          s = wc_connect_cb env Connected (''connect succ'' @ [LF]) s in do {
          s \<leftarrow> wc_recv_loop env s;
          Some (s\<lparr>wc_bConnect := False\<rparr>) })
      else Some (wc_connect_cb env Unconnected (''connect error TCP_ERROR_UNSOLVE_IP'' @ [LF]) s))"

partial_function (option) wc_ports_loop :: "win_env \<Rightarrow> string \<Rightarrow> 16 word list \<Rightarrow> win_client \<Rightarrow> win_client option" where
  "wc_ports_loop env ip portList s = (let portList = removeAll (wc_port s) portList in do {
     s \<leftarrow> wc_try_port env ip s;
     let s = (if portList \<noteq> [] then s\<lparr>wc_port := hd portList\<rparr> else s);
     if portList = [] then Some s
     else if wc_stopped env s then Some (wc_later env s)
     else wc_ports_loop env ip portList (wc_later env s) })"

fun wc_hosts_loop :: "win_env \<Rightarrow> 32 word list \<Rightarrow> win_client \<Rightarrow> win_client option" where
  "wc_hosts_loop env [] s = Some s"
| "wc_hosts_loop env (h # hs) s = (if wc_stopped env s then Some (wc_later env s)
     else do { s \<leftarrow> wc_ports_loop env (inet_ntoa h) (wc_portList s) (wc_later env s); wc_hosts_loop env hs s })"

definition wc_thread_turn :: "win_env \<Rightarrow> win_client \<Rightarrow> (bool \<times> win_client) option" where
  "wc_thread_turn env s = do {
     s \<leftarrow> (case we_host env (wc_clock s) of
         Some hs \<Rightarrow> wc_hosts_loop env hs (wc_later env s)
       | None \<Rightarrow> Some (wc_connect_cb env Unconnected (''connect error unsole ip'' @ [LF]) (wc_later env s)));
     if wc_bAutoReconnect s then
       (if wc_stopped env s then Some (False, wc_later env s)
        else (let s = wc_later env s in
          if wc_stopped env s then Some (False, wc_later env s)
          else Some (True, (wc_later env s)\<lparr>wc_nTryCount := wc_nTryCount s + 1\<rparr>)))
     else Some (False, s) }"

partial_function (option) wc_thread_loop :: "win_env \<Rightarrow> win_client \<Rightarrow> win_client option" where
  "wc_thread_loop env s = (if wc_stopped env s then Some (wc_later env s) else do {
     (more, s) \<leftarrow> wc_thread_turn env (wc_later env s);
     if more then wc_thread_loop env s else Some s })"

definition wc_threadRun :: "win_env \<Rightarrow> win_client \<Rightarrow> win_client option" where
  "wc_threadRun env s = do {
     s \<leftarrow> wc_thread_loop env (s\<lparr>wc_nTryCount := 0, wc_connectIp := [], wc_iLastError := 0\<rparr>);
     let s = (if wc_socket s > 0 then (wc_sys (Wn_close (wc_socket s)) s)\<lparr>wc_socket := - 1\<rparr> else s);
     Some (wc_say ''client socket runloop exit'' (s\<lparr>wc_bConnect := False, wc_state := Unconnected\<rparr>)) }"

declare wc_recv_loop.simps [code] wc_ports_loop.simps [code] wc_thread_loop.simps [code]

subsection \<open>After a disconnection\<close>

text \<open>What the system answers for the invalid socket: \<open>connect\<close> and \<open>select\<close> fail.\<close>

definition invalid_fails :: "win_env \<Rightarrow> bool" where
  "invalid_fails env \<longleftrightarrow> (\<forall>t. wa_connect (we_connect env t INVALID_SOCKET) \<noteq> 0 \<and> wa_selres (we_connect env t INVALID_SOCKET) = - 1)"

text \<open>
  What the callbacks see in one run with at most one connection: failures, then the connection, what
  is received from it, and from there on failures only (the first of them the disconnection).
\<close>

definition failures :: "client_event list \<Rightarrow> bool" where
  "failures es \<longleftrightarrow> (\<exists>msgs. es = map (Connect_cb Unconnected) msgs)"

definition one_connection :: "client_event list \<Rightarrow> bool" where
  "one_connection es \<longleftrightarrow> (\<exists>fs msg xs gs. failures fs \<and> failures gs \<and> es = fs @ Connect_cb Connected msg # map Receive_cb xs @ gs)"

lemma failures_simps [simp]: "failures []" "failures (es @ [Connect_cb Unconnected msg]) \<longleftrightarrow> failures es"
  by (auto simp: failures_def append_eq_map_conv intro: exI [of _ "_ @ [msg]"])

lemma one_connection_snoc: "one_connection es \<Longrightarrow> one_connection (es @ [Connect_cb Unconnected msg])"
  unfolding one_connection_def by (metis append.assoc append_Cons failures_simps(2))

text \<open>
  The states of a run since \<open>s0\<close>: a connection may still be made, or one was made and the socket is
  invalid, or (\<open>settled\<close>) one was made and the thread has been stopped.
\<close>

definition fresh :: "win_client \<Rightarrow> win_client \<Rightarrow> bool" where
  "fresh s0 s \<longleftrightarrow> (\<exists>es. wc_log s = wc_log s0 @ es \<and> failures es)"

definition past :: "win_client \<Rightarrow> win_client \<Rightarrow> bool" where
  "past s0 s \<longleftrightarrow> (\<exists>es. wc_log s = wc_log s0 @ es \<and> one_connection es)"

definition ready :: "win_client \<Rightarrow> win_client \<Rightarrow> bool" where
  "ready s0 s \<longleftrightarrow> fresh s0 s \<or> (past s0 s \<and> wc_socket s = INVALID_SOCKET)"

definition settled :: "win_env \<Rightarrow> win_client \<Rightarrow> win_client \<Rightarrow> bool" where
  "settled env s0 s \<longleftrightarrow> ready s0 s \<or> (past s0 s \<and> wc_stopped env s)"

lemma wc_simps [simp]:
  "wc_clock (wc_say x s) = wc_clock s" "wc_clock (wc_sys e s) = wc_clock s" "wc_clock (wc_connect_cb env st msg s) = wc_clock s"
  "wc_clock (wc_receive_cb env x s) = wc_clock s"
  "wc_clock (wc_later env s) = wc_clock s + 1" "wc_log (wc_say x s) = wc_log s" "wc_log (wc_sys e s) = wc_log s" "wc_log (wc_later env s) = wc_log s"
  "wc_socket (wc_say x s) = wc_socket s" "wc_socket (wc_sys e s) = wc_socket s"
  "wc_socket (wc_connect_cb env st msg s) = wc_socket s"
  by (simp_all add: wc_say_def wc_sys_def wc_connect_cb_def wc_receive_cb_def wc_later_def)

lemma wc_later_invalid [simp]: "wc_socket s = INVALID_SOCKET \<Longrightarrow> wc_socket (wc_later env s) = INVALID_SOCKET"
  by (simp add: wc_later_def INVALID_SOCKET_def)

lemma ready_cong: "ready s0 s \<Longrightarrow> wc_log t = wc_log s \<Longrightarrow> (wc_socket s = INVALID_SOCKET \<Longrightarrow> wc_socket t = INVALID_SOCKET) \<Longrightarrow> ready s0 t"
  by (auto simp: ready_def fresh_def past_def)

lemma ready_later: "ready s0 s \<Longrightarrow> ready s0 (wc_later env s)"
  by (erule ready_cong) simp_all

lemma ready_failed: "ready s0 s \<Longrightarrow> ready s0 (wc_connect_cb env Unconnected msg s)"
  by (auto simp: ready_def fresh_def past_def wc_connect_cb_def one_connection_snoc)

lemma settled_ready: "settled env s0 s \<Longrightarrow> \<not> wc_stopped env s \<Longrightarrow> ready s0 s"
  by (simp add: settled_def)

text \<open>\<open>m_bStop\<close> is set for good at the time \<open>T\<close>, and every \<open>recv\<close> returns.\<close>

definition stops_from :: "win_env \<Rightarrow> nat \<Rightarrow> bool" where
  "stops_from env T \<longleftrightarrow> (\<forall>t. we_stop env t \<longleftrightarrow> T \<le> t) \<and> (\<forall>t. we_recv env t \<noteq> None)"

lemma settled_later: "stops_from env T \<Longrightarrow> settled env s0 s \<Longrightarrow> settled env s0 (wc_later env s)"
  by (auto simp: settled_def ready_later past_def wc_stopped_def stops_from_def)

lemma not_stopped_before: "stops_from env T \<Longrightarrow> \<not> wc_stopped env s \<Longrightarrow> wc_clock s < T"
  by (simp add: stops_from_def wc_stopped_def)

lemma invalid_greater: "\<not> INVALID_SOCKET \<le> 0" "INVALID_SOCKET > 0"
  by (simp_all add: INVALID_SOCKET_def word_gt_0)

lemma wc_setBlock_frame [simp]: "wc_log (snd (wc_setBlock b s)) = wc_log s" "wc_clock (snd (wc_setBlock b s)) = wc_clock s"
  "wc_socket (snd (wc_setBlock b s)) = wc_socket s"
  by (simp_all add: wc_setBlock_def Let_def)

lemma wc_connect_frame: "wc_log (snd (wc_connectToServer f ip port s)) = wc_log s" "wc_clock (snd (wc_connectToServer f ip port s)) = wc_clock s"
  by (auto simp: wc_connectToServer_def wc_createSocket_def Let_def case_prod_beta)

lemma wc_connect_invalid:
  assumes "invalid_fails env" "wc_socket s = INVALID_SOCKET"
  shows "\<exists>t. wc_connectToServer (we_connect env k) ip port s = (False, t) \<and> wc_socket t = INVALID_SOCKET"
  using assms invalid_greater by (simp add: wc_connectToServer_def wc_setBlock_def invalid_fails_def Let_def)


subsection \<open>One run of the thread\<close>

text \<open>The loop over a connection that has just been made and has given \<open>xs\<close> so far.\<close>

definition reading :: "win_client \<Rightarrow> win_client \<Rightarrow> bool" where
  "reading s0 s \<longleftrightarrow> (\<exists>fs msg xs. failures fs \<and> wc_log s = wc_log s0 @ fs @ Connect_cb Connected msg # map Receive_cb xs)"

lemma reading_past: "reading s0 s \<Longrightarrow> past s0 s"
  unfolding reading_def past_def one_connection_def by (metis append_Nil2 failures_simps(1))

lemma reading_cong: "reading s0 s \<Longrightarrow> wc_log t = wc_log s \<Longrightarrow> reading s0 t"
  by (simp add: reading_def)

lemma reading_receive: "reading s0 s \<Longrightarrow> we_callbacks env = (True, True) \<Longrightarrow> reading s0 (wc_receive_cb env x s)"
  unfolding reading_def wc_receive_cb_def by (force intro: exI [of _ "_ @ [x]"])

lemma reading_ends:
  assumes "reading s0 s" "we_callbacks env = (True, True)"
  shows "past s0 (wc_connect_cb env Unconnected msg s)"
proof -
  obtain es where "wc_log s = wc_log s0 @ es" "one_connection es" using reading_past [OF assms(1)] unfolding past_def by blast
  then show ?thesis using assms(2) one_connection_snoc unfolding past_def by (auto simp: wc_connect_cb_def)
qed

definition wc_disconnect :: "win_env \<Rightarrow> recv_result \<Rightarrow> win_client \<Rightarrow> win_client" where
  "wc_disconnect env r s = (let
     s = s\<lparr>wc_iLastError := we_last_error env (wc_clock s)\<rparr>;
     s = wc_say (''get lasterror:'' @ dec (wc_iLastError s) @ '' datalen= '' @ dec (if r = Recv_closed then 0 else - 1)) s;
     s = s\<lparr>wc_bConnect := False\<rparr>;
     s = (wc_sys (Wn_close (wc_socket s)) s)\<lparr>wc_socket := - 1\<rparr>;
     s = s\<lparr>wc_state := Unconnected\<rparr> in
     wc_later env (wc_connect_cb env Unconnected (''disconnect'' @ [LF]) s))"

lemma wc_recv_loop_cases:
  "wc_stopped env s \<Longrightarrow> wc_recv_loop env s = Some (wc_later env s)"
  "\<not> wc_stopped env s \<Longrightarrow> we_recv env (wc_clock s + 1) = Some (Received x) \<Longrightarrow>
     wc_recv_loop env s = wc_recv_loop env (wc_receive_cb env x (wc_later env (wc_later env s)))"
  "\<not> wc_stopped env s \<Longrightarrow> we_recv env (wc_clock s + 1) = Some r \<Longrightarrow> (\<And>x. r \<noteq> Received x) \<Longrightarrow>
     wc_recv_loop env s = Some (wc_disconnect env r (wc_later env s))"
proof -
  assume "wc_stopped env s"
  then show "wc_recv_loop env s = Some (wc_later env s)" by (subst wc_recv_loop.simps) simp
next
  assume "\<not> wc_stopped env s" "we_recv env (wc_clock s + 1) = Some (Received x)"
  then show "wc_recv_loop env s = wc_recv_loop env (wc_receive_cb env x (wc_later env (wc_later env s)))"
    by (subst wc_recv_loop.simps) (simp add: Let_def)
next
  assume a: "\<not> wc_stopped env s" "we_recv env (wc_clock s + 1) = Some r" "\<And>x. r \<noteq> Received x"
  show "wc_recv_loop env s = Some (wc_disconnect env r (wc_later env s))"
  proof (cases r)
    case (Received x)
    then show ?thesis using a(3) by blast
  qed (use a(1,2) in \<open>subst wc_recv_loop.simps; simp add: wc_disconnect_def Let_def\<close>)+
qed

lemma wc_disconnect_settled:
  assumes "reading s0 s" "we_callbacks env = (True, True)"
  shows "settled env s0 (wc_disconnect env r s)" "wc_clock (wc_disconnect env r s) = wc_clock s + 1"
proof -
  define u where "u = (wc_sys (Wn_close (wc_socket s)) ((wc_say (''get lasterror:'' @ dec (we_last_error env (wc_clock s))
    @ '' datalen= '' @ dec (if r = Recv_closed then 0 else - 1)) (s\<lparr>wc_iLastError := we_last_error env (wc_clock s)\<rparr>))
    \<lparr>wc_bConnect := False\<rparr>))\<lparr>wc_socket := - 1, wc_state := Unconnected\<rparr>"
  have d: "wc_disconnect env r s = wc_later env (wc_connect_cb env Unconnected (''disconnect'' @ [LF]) u)"
    by (simp add: wc_disconnect_def Let_def u_def wc_sys_def wc_say_def)
  have u: "wc_log u = wc_log s" "wc_clock u = wc_clock s" "wc_socket u = INVALID_SOCKET"
    by (simp_all add: u_def INVALID_SOCKET_def)
  have "past s0 (wc_connect_cb env Unconnected (''disconnect'' @ [LF]) u)"
    using reading_ends [OF reading_cong [OF assms(1) u(1)] assms(2)] .
  then have "ready s0 (wc_connect_cb env Unconnected (''disconnect'' @ [LF]) u)" using u(3) by (simp add: ready_def)
  then show "settled env s0 (wc_disconnect env r s)" unfolding d settled_def by (intro disjI1 ready_later)
  show "wc_clock (wc_disconnect env r s) = wc_clock s + 1" unfolding d by (simp add: u)
qed

lemma wc_recv_loop_settled:
  assumes "stops_from env T" "we_callbacks env = (True, True)"
  shows "reading s0 s \<Longrightarrow> \<exists>t. wc_recv_loop env s = Some t \<and> wc_clock s < wc_clock t \<and> settled env s0 t"
proof (induction "T - wc_clock s" arbitrary: s rule: less_induct)
  case less
  show ?case
  proof (cases "wc_stopped env s")
    case True
    have "settled env s0 (wc_later env s)"
      using True reading_past [OF less.prems] by (intro settled_later [OF assms(1)]) (simp add: settled_def)
    then show ?thesis using wc_recv_loop_cases(1) [OF True] by simp
  next
    case False
    obtain r where r: "we_recv env (wc_clock s + 1) = Some r" using assms(1) unfolding stops_from_def by fast
    have l: "reading s0 (wc_later env s)" using less.prems by (rule reading_cong) simp
    show ?thesis
    proof (cases "\<exists>x. r = Received x")
      case True
      then obtain x where x: "we_recv env (wc_clock s + 1) = Some (Received x)" using r by blast
      let ?s = "wc_receive_cb env x (wc_later env (wc_later env s))"
      have "reading s0 ?s" by (rule reading_receive [OF reading_cong [OF l] assms(2)]) simp
      moreover have "T - wc_clock ?s < T - wc_clock s" using not_stopped_before [OF assms(1) False] by simp
      ultimately obtain t where "wc_recv_loop env ?s = Some t" "wc_clock ?s < wc_clock t" "settled env s0 t"
        using less.hyps by blast
      then show ?thesis using wc_recv_loop_cases(2) [OF False x] by simp
    next
      case False
      then have "wc_recv_loop env s = Some (wc_disconnect env r (wc_later env s))"
        using wc_recv_loop_cases(3) [OF \<open>\<not> wc_stopped env s\<close> r] by blast
      then show ?thesis using wc_disconnect_settled [OF l assms(2)] by simp
    qed
  qed
qed

lemma wc_try_port_settled:
  assumes "stops_from env T" "we_callbacks env = (True, True)" "invalid_fails env" "ready s0 s"
  shows "\<exists>t. wc_try_port env ip s = Some t \<and> wc_clock s < wc_clock t \<and> settled env s0 t"
proof -
  let ?s = "s\<lparr>wc_connectIp := ip\<rparr>"
  let ?c = "wc_connectToServer (we_connect env (wc_clock ?s)) ip (wc_port ?s) ?s"
  obtain ok u where c: "?c = (ok, u)" by fastforce
  have u: "wc_log u = wc_log s" "wc_clock u = wc_clock s"
    using wc_connect_frame [of "we_connect env (wc_clock ?s)" ip "wc_port ?s" ?s] c by simp_all
  let ?u = "wc_later env (u\<lparr>wc_bConnect := ok\<rparr>)"
  show ?thesis
  proof (cases ok)
    case False
    have i: "wc_socket u = INVALID_SOCKET" if "wc_socket s = INVALID_SOCKET"
      using wc_connect_invalid [OF assms(3), of ?s "wc_clock ?s" ip "wc_port ?s"] that c by auto
    have "ready s0 ?u" using assms(4) by (rule ready_cong) (use u i in simp_all)
    then have "settled env s0 (wc_connect_cb env Unconnected (''connect error TCP_ERROR_UNSOLVE_IP'' @ [LF]) ?u)"
      unfolding settled_def by (intro disjI1 ready_failed)
    then show ?thesis using c False u by (simp add: wc_try_port_def)
  next
    case True
    then have "wc_socket s \<noteq> INVALID_SOCKET"
      using wc_connect_invalid [OF assms(3), of ?s "wc_clock ?s" ip "wc_port ?s"] c by auto
    then obtain es where es: "wc_log s = wc_log s0 @ es" "failures es" using assms(4) unfolding ready_def fresh_def by blast
    let ?v = "wc_connect_cb env Connected (''connect succ'' @ [LF]) (?u\<lparr>wc_nTryCount := 0, wc_state := Connected\<rparr>)"
    have v: "wc_log ?v = wc_log s0 @ es @ Connect_cb Connected (''connect succ'' @ [LF]) # map Receive_cb []"
      using es(1) u assms(2) by (simp add: wc_connect_cb_def wc_later_def)
    have "reading s0 ?v" unfolding reading_def using v es(2) by blast
    then obtain t where t: "wc_recv_loop env ?v = Some t" "wc_clock ?v < wc_clock t" "settled env s0 t"
      using wc_recv_loop_settled [OF assms(1,2)] by blast
    have "settled env s0 (t\<lparr>wc_bConnect := False\<rparr>)"
      using t(3) by (auto simp: settled_def ready_def fresh_def past_def wc_stopped_def)
    then show ?thesis using c True u t(1,2) by (simp add: wc_try_port_def)
  qed
qed

lemma wc_ports_loop_settled:
  assumes "stops_from env T" "we_callbacks env = (True, True)" "invalid_fails env"
  shows "ready s0 s \<Longrightarrow> \<exists>t. wc_ports_loop env ip pl s = Some t \<and> wc_clock s < wc_clock t \<and> settled env s0 t"
proof (induction "length (removeAll (wc_port s) pl)" arbitrary: s pl rule: less_induct)
  case less
  let ?pl = "removeAll (wc_port s) pl"
  obtain t where t: "wc_try_port env ip s = Some t" "wc_clock s < wc_clock t" "settled env s0 t"
    using wc_try_port_settled [OF assms less.prems] by blast
  show ?case
  proof (cases "?pl = []")
    case True
    then show ?thesis using t by (subst wc_ports_loop.simps) simp
  next
    case False
    let ?t = "t\<lparr>wc_port := hd ?pl\<rparr>"
    let ?u = "wc_later env ?t"
    have s: "settled env s0 ?t" using t(3) by (auto simp: settled_def ready_def fresh_def past_def wc_stopped_def)
    show ?thesis
    proof (cases "wc_stopped env ?t")
      case True
      then show ?thesis using False t settled_later [OF assms(1) s] by (subst wc_ports_loop.simps) simp
    next
      case ns: False
      have "hd ?pl \<in> set ?pl" using False by (rule hd_in_set)
      then have "length (removeAll (hd ?pl) ?pl) < length ?pl" by (rule length_removeAll_less)
      moreover have "wc_port ?u = hd ?pl" by (simp add: wc_later_def)
      ultimately have "length (removeAll (wc_port ?u) ?pl) < length ?pl" by simp
      from less.hyps [OF this ready_later [OF settled_ready [OF s ns]]] obtain v where
        v: "wc_ports_loop env ip ?pl ?u = Some v" "wc_clock ?u < wc_clock v" "settled env s0 v" by blast
      have "wc_ports_loop env ip pl s = wc_ports_loop env ip ?pl ?u"
        using False ns t(1) by (subst wc_ports_loop.simps) (simp add: Let_def)
      then show ?thesis using v t(2) by simp
    qed
  qed
qed

lemma wc_hosts_loop_settled:
  assumes "stops_from env T" "we_callbacks env = (True, True)" "invalid_fails env"
  shows "settled env s0 s \<Longrightarrow> \<exists>t. wc_hosts_loop env hs s = Some t \<and> wc_clock s \<le> wc_clock t \<and> settled env s0 t"
proof (induction hs arbitrary: s)
  case Nil
  then show ?case by simp
next
  case (Cons h hs)
  show ?case
  proof (cases "wc_stopped env s")
    case True
    then show ?thesis using settled_later [OF assms(1) Cons.prems] by simp
  next
    case False
    obtain t where t: "wc_ports_loop env (inet_ntoa h) (wc_portList s) (wc_later env s) = Some t"
      "wc_clock (wc_later env s) < wc_clock t" "settled env s0 t"
      using wc_ports_loop_settled [OF assms ready_later [OF settled_ready [OF Cons.prems False]]] by blast
    from Cons.IH [OF t(3)] obtain u where "wc_hosts_loop env hs t = Some u" "wc_clock t \<le> wc_clock u" "settled env s0 u" by blast
    then show ?thesis using False t by simp
  qed
qed

lemma wc_thread_turn_settled:
  assumes "stops_from env T" "we_callbacks env = (True, True)" "invalid_fails env" "ready s0 s"
  shows "\<exists>more t. wc_thread_turn env s = Some (more, t) \<and> wc_clock s < wc_clock t \<and> settled env s0 t"
proof -
  let ?s = "wc_later env s"
  let ?r = "case we_host env (wc_clock s) of Some hs \<Rightarrow> wc_hosts_loop env hs ?s
       | None \<Rightarrow> Some (wc_connect_cb env Unconnected (''connect error unsole ip'' @ [LF]) ?s)"
  have i: "settled env s0 ?s" using ready_later [OF assms(4)] by (simp add: settled_def)
  obtain t where t: "?r = Some t" "wc_clock s < wc_clock t" "settled env s0 t"
  proof (cases "we_host env (wc_clock s)")
    case None
    have "settled env s0 (wc_connect_cb env Unconnected (''connect error unsole ip'' @ [LF]) ?s)"
      unfolding settled_def by (intro disjI1 ready_failed ready_later assms(4))
    then show ?thesis using that None by simp
  next
    case (Some hs)
    obtain t where "wc_hosts_loop env hs ?s = Some t" "wc_clock ?s \<le> wc_clock t" "settled env s0 t"
      using wc_hosts_loop_settled [OF assms(1-3) i] by blast
    then show ?thesis using Some that by auto
  qed
  let ?t = "wc_later env t"
  let ?u = "wc_later env ?t"
  have l: "settled env s0 ?t" "settled env s0 ?u" using settled_later [OF assms(1)] t(3) by blast+
  then have m: "settled env s0 (?u\<lparr>wc_nTryCount := n\<rparr>)" for n
    by (auto simp: settled_def ready_def fresh_def past_def wc_stopped_def)
  have "wc_thread_turn env s = Some (if \<not> wc_bAutoReconnect t then (False, t) else if wc_stopped env t then (False, ?t)
      else if wc_stopped env ?t then (False, ?u) else (True, ?u\<lparr>wc_nTryCount := wc_nTryCount ?t + 1\<rparr>))"
    using t(1) by (simp add: wc_thread_turn_def Let_def)
  then show ?thesis using t(2,3) l m by (simp add: ex_bool_eq)
qed

lemma wc_thread_loop_settled:
  assumes "stops_from env T" "we_callbacks env = (True, True)" "invalid_fails env"
  shows "settled env s0 s \<Longrightarrow> \<exists>t. wc_thread_loop env s = Some t \<and> settled env s0 t"
proof (induction "T - wc_clock s" arbitrary: s rule: less_induct)
  case less
  let ?s = "wc_later env s"
  show ?case
  proof (cases "wc_stopped env s")
    case True
    then show ?thesis using settled_later [OF assms(1) less.prems] by (subst wc_thread_loop.simps) simp
  next
    case False
    obtain more t where t: "wc_thread_turn env ?s = Some (more, t)" "wc_clock ?s < wc_clock t" "settled env s0 t"
      using wc_thread_turn_settled [OF assms ready_later [OF settled_ready [OF less.prems False]]] by blast
    show ?thesis
    proof (cases more)
      case True
      have "T - wc_clock t < T - wc_clock s" using not_stopped_before [OF assms(1) False] t(2) by simp
      from less.hyps [OF this t(3)] obtain u where "wc_thread_loop env t = Some u" "settled env s0 u" by blast
      then show ?thesis using True False t(1) by (subst wc_thread_loop.simps) simp
    next
      case nm: False
      then show ?thesis using False t by (subst wc_thread_loop.simps) simp
    qed
  qed
qed

text \<open>C38: The client for Windows never connects again.  In a whole run of its thread, from any state of the
  object, with any hosts and ports and with the automatic reconnection on or off, the callbacks see
  at most one connection: failures to connect, then possibly one connection and what it receives,
  and from then on, through the rest of that turn and every later turn, only failures.  For when a connection ends
  the loop sets the socket to -1, which as an unsigned number is greater than 0, so no new socket is
  created.  It is assumed that connect and select fail on the invalid socket, that m_bStop is set
  for good at some time, that every recv returns and that both callbacks are set.\<close>

theorem wc_never_reconnects:
  assumes "invalid_fails env" "\<exists>T. \<forall>t. we_stop env t \<longleftrightarrow> T \<le> t" "\<forall>t. we_recv env t \<noteq> None" "we_callbacks env = (True, True)"
  shows "\<exists>t es. wc_threadRun env s = Some t \<and> wc_log t = wc_log s @ es \<and> (failures es \<or> one_connection es)
    \<and> \<not> wc_bConnect t \<and> wc_state t = Unconnected"
proof -
  obtain T where T: "stops_from env T" using assms(2,3) unfolding stops_from_def by blast
  let ?s = "s\<lparr>wc_nTryCount := 0, wc_connectIp := [], wc_iLastError := 0\<rparr>"
  have "settled env s ?s" by (simp add: settled_def ready_def fresh_def)
  then obtain t where t: "wc_thread_loop env ?s = Some t" "settled env s t"
    using wc_thread_loop_settled [OF T assms(4,1)] by blast
  let ?t = "if wc_socket t > 0 then (wc_sys (Wn_close (wc_socket t)) t)\<lparr>wc_socket := - 1\<rparr> else t"
  let ?u = "wc_say ''client socket runloop exit'' (?t\<lparr>wc_bConnect := False, wc_state := Unconnected\<rparr>)"
  have run: "wc_threadRun env s = Some ?u" using t(1) by (simp add: wc_threadRun_def)
  have u: "wc_log ?u = wc_log t" "\<not> wc_bConnect ?u" "wc_state ?u = Unconnected" by (simp_all add: wc_say_def wc_sys_def)
  obtain es where "wc_log t = wc_log s @ es" "failures es \<or> one_connection es"
    using t(2) unfolding settled_def ready_def fresh_def past_def by blast
  then show ?thesis using run u by metis
qed

text \<open>A server at every address whose connections are closed at once.\<close>

definition open_world :: win_env where
  "open_world = \<lparr>we_stop = (\<lambda>t. 12 \<le> t), we_drop = (\<lambda>_. False), we_host = (\<lambda>_. Some [0x7F000001]),
     we_connect = (\<lambda>t s. \<lparr>wa_socket = 8, wa_connect = (if s = INVALID_SOCKET then - 1 else 0), wa_selres = - 1, wa_ready = False,
        wa_last_error = 0, wa_errno = 0\<rparr>),
     we_recv = (\<lambda>_. Some Recv_closed), we_last_error = (\<lambda>_. 0), we_callbacks = (True, True)\<rparr>"

definition open_client :: win_client where
  "open_client = \<lparr>wc_socket = 8, wc_nTryCount = 0, wc_bStop = False, wc_bConnect = False, wc_state = Connecting, wc_iLastError = 0,
     wc_bAutoReconnect = True, wc_port = 80, wc_serverIp = ''h'', wc_connectIp = [], wc_portList = [80], wc_clock = 0, wc_log = [], wc_trace = []\<rparr>"

lemma open_run: "map_option (\<lambda>t. map (\<lambda>e. case e of Connect_cb st _ \<Rightarrow> st = Connected | Receive_cb _ \<Rightarrow> False) (wc_log t))
    (wc_threadRun open_world open_client) = Some [True, False, False]"
  by code_simp

theorem wc_never_reconnects_witness:
  "\<exists>t. wc_threadRun open_world open_client = Some t \<and> one_connection (wc_log t) \<and> length (wc_log t) = 3"
proof -
  have "invalid_fails open_world" by (simp add: invalid_fails_def open_world_def)
  moreover have "\<exists>T. \<forall>t. we_stop open_world t \<longleftrightarrow> T \<le> t" by (intro exI [of _ 12]) (simp add: open_world_def)
  moreover have "\<forall>t. we_recv open_world t \<noteq> None" "we_callbacks open_world = (True, True)" by (simp_all add: open_world_def)
  moreover have "wc_log open_client = []" by (simp add: open_client_def)
  ultimately obtain t where t: "wc_threadRun open_world open_client = Some t" "failures (wc_log t) \<or> one_connection (wc_log t)"
    using wc_never_reconnects [of open_world open_client] by auto
  have m: "map (\<lambda>e. case e of Connect_cb st _ \<Rightarrow> st = Connected | Receive_cb _ \<Rightarrow> False) (wc_log t) = [True, False, False]"
    using open_run t(1) by simp
  then have "\<not> failures (wc_log t)" by (auto simp: failures_def)
  moreover have "length (wc_log t) = 3" using arg_cong [OF m, of length] by simp
  ultimately show ?thesis using t by blast
qed

end
