(* ===== verification/TestUtil.thy ===== *)
theory TestUtil
  imports Posix
begin

text \<open>
  The load generator of \<open>epoll/testutil.cpp\<close>: it opens connections to the web server and sends its
  request on each of them again and again.
\<close>

subsection \<open>Definitions\<close>

definition request :: string where
  "request = ''GET http://localhost/index.html HTTP/1.1'' @ crlf @ ''Connection: keep-alive'' @ crlf @ crlf @ ''xxxxxxxxxxxx''"

text \<open>
  \<open>write_nbytes\<close>: the answers of \<open>send\<close>; the result is that of the function with what was
  transmitted.  \<^const>\<open>None\<close>: the answers end before the loop does, or one is not possible.
\<close>

fun nbytes_loop :: "send_result list \<Rightarrow> string \<Rightarrow> (bool \<times> string) option" where
  "nbytes_loop [] buffer = None"
| "nbytes_loop (r # rs) buffer = (case r of
      Sent n \<Rightarrow> (if n > length buffer then None else if n = 0 then Some (False, [])
        else if length buffer - n \<le> 0 then Some (True, take n buffer)
        else do { (ok, t) \<leftarrow> nbytes_loop rs (drop n buffer); Some (ok, take n buffer @ t) })
    | _ \<Rightarrow> Some (False, []))"

definition write_nbytes :: "int \<Rightarrow> string \<Rightarrow> send_result list \<Rightarrow> trace \<Rightarrow> (bool \<times> string \<times> trace) option" where
  "write_nbytes sockfd buffer rs tr = do {
     let tr = Print (''write out '' @ dec (int (length buffer)) @ '' bytes to socket '' @ dec sockfd @ [LF]) # tr;
     (ok, t) \<leftarrow> nbytes_loop rs buffer;
     Some (ok, t, if t = [] then tr else Send sockfd t # tr) }"

text \<open>\<open>read_once\<close>; it prints the buffer as a string, which runs past a buffer without a NUL.\<close>

definition read_once :: "int \<Rightarrow> nat \<Rightarrow> recv_result \<Rightarrow> trace \<Rightarrow> (bool \<times> trace) option" where
  "read_once sockfd len r tr = (case r of
      Received x \<Rightarrow> do {
        s \<leftarrow> read_string len x;
        Some (True, Print (''read in '' @ dec (int (length x)) @ '' bytes from socket '' @ dec sockfd
          @ '' with content: '' @ s @ [LF]) # tr) }
    | _ \<Rightarrow> Some (False, tr))"

text \<open>One turn of the loop of \<open>start_conn\<close>: the answers of \<open>socket\<close> and of \<open>connect\<close>.\<close>

definition start_one :: "(int \<Rightarrow> 32 word) \<Rightarrow> int \<Rightarrow> string \<Rightarrow> int \<Rightarrow> nat \<times> int \<times> int \<Rightarrow> trace \<Rightarrow> trace" where
  "start_one flags epoll_fd ip port a tr = (let (i, sockfd, ret) = a;
      tr = Print (''create 1 sock'' @ [LF]) # tr in
      if sockfd < 0 then tr
      else (let tr = Connect sockfd ip port # tr in
        if ret = 0 then util_addfd flags epoll_fd sockfd False False
            (Print (''build connection '' @ dec (int i) @ [LF]) # tr)
        else tr))"

definition start_conn :: "(int \<Rightarrow> 32 word) \<Rightarrow> int \<Rightarrow> (int \<times> int) list \<Rightarrow> string \<Rightarrow> int \<Rightarrow> trace \<Rightarrow> trace" where
  "start_conn flags epoll_fd as ip port tr = fold (start_one flags epoll_fd ip port) (enumerate 0 as) tr"

definition test_close_conn :: "int \<Rightarrow> int \<Rightarrow> trace \<Rightarrow> trace" where
  "test_close_conn epoll_fd sockfd tr = Close sockfd # Epoll_del epoll_fd sockfd # tr"

text \<open>The body of the loop over the events of \<open>testWebServer\<close>, the loop, and the function for a number of rounds.\<close>

definition test_event :: "int \<Rightarrow> recv_result \<Rightarrow> send_result list \<Rightarrow> epoll_event \<Rightarrow> trace \<Rightarrow> trace option" where
  "test_event epoll_fd r rs e tr = (let sockfd = ev_fd e in
     if EPOLLIN \<in> set (ev_events e) then do {
       (ok, tr) \<leftarrow> read_once sockfd 2048 r tr;
       let tr = (if \<not> ok then test_close_conn epoll_fd sockfd tr else tr);
       Some (Epoll_mod epoll_fd sockfd [EPOLLOUT, EPOLLET, EPOLLERR] # tr) }
     else if EPOLLOUT \<in> set (ev_events e) then do {
       (ok, _, tr) \<leftarrow> write_nbytes sockfd request rs tr;
       let tr = (if \<not> ok then test_close_conn epoll_fd sockfd tr else tr);
       Some (Epoll_mod epoll_fd sockfd [EPOLLIN, EPOLLET, EPOLLERR] # tr) }
     else if EPOLLERR \<in> set (ev_events e) then Some (test_close_conn epoll_fd sockfd tr)
     else Some tr)"

fun test_events :: "int \<Rightarrow> (recv_result \<times> send_result list \<times> epoll_event) list \<Rightarrow> trace \<Rightarrow> trace option" where
  "test_events epoll_fd [] tr = Some tr"
| "test_events epoll_fd ((r, rs, e) # es) tr = do { tr \<leftarrow> test_event epoll_fd r rs e tr; test_events epoll_fd es tr }"

definition testWebServer :: "(int \<Rightarrow> 32 word) \<Rightarrow> int \<Rightarrow> (int \<times> int) list \<Rightarrow> int \<Rightarrow> string
    \<Rightarrow> (recv_result \<times> send_result list \<times> epoll_event) list list \<Rightarrow> trace option" where
  "testWebServer flags epoll_fd as port ip rounds =
     test_events epoll_fd (concat rounds) (start_conn flags epoll_fd as ip port [Epoll_create 100])"

subsection \<open>Sending a buffer\<close>

lemma nbytes_loop_prefix:
  "nbytes_loop rs buffer = Some (ok, t) \<Longrightarrow> (\<exists>rest. buffer = t @ rest \<and> (ok \<longleftrightarrow> rest = [] \<and> buffer \<noteq> []))"
proof (induction rs arbitrary: buffer ok t)
  case (Cons r rs)
  show ?case
  proof (cases r)
    case (Sent n)
    consider "n = 0" | "0 < n" "n = length buffer" | "0 < n" "n < length buffer"
      using Cons.prems Sent by (fastforce split: if_splits)
    then show ?thesis
    proof cases
      case 1
      then show ?thesis using Cons.prems Sent by auto
    next
      case 2
      then show ?thesis using Cons.prems Sent by auto
    next
      case 3
      obtain t' where t: "nbytes_loop rs (drop n buffer) = Some (ok, t')" "t = take n buffer @ t'"
        using Cons.prems Sent 3 by (auto split: bind_splits)
      then obtain rest where "drop n buffer = t' @ rest" "ok \<longleftrightarrow> rest = [] \<and> drop n buffer \<noteq> []"
        using Cons.IH by blast
      moreover from this have "buffer = t @ rest" using t(2) by (metis append.assoc append_take_drop_id)
      ultimately show ?thesis using 3 by auto
    qed
  qed (use Cons.prems in auto)
qed simp

lemma nbytes_loop_returns:
  "length buffer \<le> length rs \<Longrightarrow> buffer \<noteq> [] \<Longrightarrow> \<forall>n. Sent n \<in> set rs \<longrightarrow> n \<le> 1 \<Longrightarrow> nbytes_loop rs buffer \<noteq> None"
proof (induction rs arbitrary: buffer)
  case (Cons r rs)
  show ?case
  proof (cases r)
    case (Sent n)
    then have "n \<le> 1" using Cons.prems(3) by simp
    then consider "n = 0" | "n = 1" "length buffer = 1" | "n = 1" "1 < length buffer"
      using Cons.prems(2) by (cases buffer) (auto simp: le_Suc_eq)
    then show ?thesis
    proof cases
      case 3
      have "length (drop 1 buffer) \<le> length rs" "drop 1 buffer \<noteq> []" "\<forall>n. Sent n \<in> set rs \<longrightarrow> n \<le> 1"
        using Cons.prems 3 by auto
      then have "nbytes_loop rs (drop 1 buffer) \<noteq> None" by (rule Cons.IH)
      then show ?thesis using 3 Sent by auto
    qed (use Sent in auto)
  qed auto
qed simp

text \<open>write_nbytes sends a buffer completely or reports a failure: what it has transmitted is always a
  prefix of the buffer, it is the whole buffer exactly when the result is true (and the buffer is
  not empty), and even if send takes one byte at a time the loop ends after as many calls as there
  are bytes.\<close>

theorem write_nbytes_complete:
  "(\<forall>ok t tr'. write_nbytes sockfd buffer rs tr = Some (ok, t, tr') \<longrightarrow>
       (\<exists>rest. buffer = t @ rest \<and> (ok \<longleftrightarrow> rest = [] \<and> buffer \<noteq> [])))
   \<and> (buffer \<noteq> [] \<longrightarrow> (\<exists>tr'. write_nbytes sockfd buffer (replicate (length buffer) (Sent 1)) tr = Some (True, buffer, tr')))"
proof (intro conjI allI impI)
  fix ok t tr'
  assume "write_nbytes sockfd buffer rs tr = Some (ok, t, tr')"
  then have "nbytes_loop rs buffer = Some (ok, t)" by (auto simp: write_nbytes_def Let_def split: bind_splits)
  then show "\<exists>rest. buffer = t @ rest \<and> (ok \<longleftrightarrow> rest = [] \<and> buffer \<noteq> [])" by (rule nbytes_loop_prefix)
next
  assume b: "buffer \<noteq> []"
  have "nbytes_loop (replicate (length buffer) (Sent 1)) buffer = Some (True, buffer)" using b
  proof (induction buffer)
    case (Cons c buffer)
    then show ?case by (cases "buffer = []") auto
  qed simp
  then show "\<exists>tr'. write_nbytes sockfd buffer (replicate (length buffer) (Sent 1)) tr = Some (True, buffer, tr')"
    by (simp add: write_nbytes_def Let_def)
qed

theorem write_nbytes_complete_witness:
  "\<exists>tr'. write_nbytes 5 ''abc'' [Sent 1, Sent 1, Sent 1] [] = Some (True, ''abc'', tr')"
proof -
  have "''abc'' \<noteq> []" by simp
  from write_nbytes_complete [of 5 "''abc''" "[]" "[]", THEN conjunct2, THEN mp, OF this]
  show ?thesis by (simp add: numeral_3_eq_3)
qed

text \<open>A failed read or write closes the socket and then registers it again.\<close>

lemma test_event_after_close:
  "\<exists>tr'. test_event epoll_fd Recv_closed rs \<lparr>ev_fd = fd, ev_events = [EPOLLIN]\<rparr> tr
     = Some ([Epoll_mod epoll_fd fd [EPOLLOUT, EPOLLET, EPOLLERR], Close fd, Epoll_del epoll_fd fd] @ tr)"
  by (simp add: test_event_def read_once_def test_close_conn_def Let_def)

end
