(* ===== verification/ClientSocket_Props.thy ===== *)
theory ClientSocket_Props
  imports ClientSocket
begin

text \<open>
  The thread of the client: it ends once it is told to, tries every port once, and delivers what it
  reads.
\<close>

lemma ck_simps [simp]:
  "clock (ck_say x s) = clock s" "clock (ck_sys e s) = clock s" "clock (connect_cb env st msg s) = clock s"
  "clock (receive_cb env x s) = clock s" "clock (later env s) = clock s + 1" "clock (ck_closeSocket s) = clock s"
  by (simp_all add: ck_say_def ck_sys_def connect_cb_def receive_cb_def later_def ck_closeSocket_def)

lemma setBlock_clock [simp]: "clock (snd (ck_setBlock fc b s)) = clock s"
  by (simp add: ck_setBlock_def Let_def)

lemma createSocket_clock [simp]: "clock (snd (ck_createSocket sock s)) = clock s"
  by (simp add: ck_createSocket_def Let_def)

lemma connect_clock [simp]: "clock (snd (connectToServer a ip port s)) = clock s"
  by (auto simp: connectToServer_def Let_def case_prod_beta)

subsection \<open>The thread ends\<close>

definition stops_at :: "client_env \<Rightarrow> nat \<Rightarrow> bool" where
  "stops_at env T \<longleftrightarrow> (\<forall>t \<ge> T. en_stop env t) \<and> (\<forall>t. en_read env t \<noteq> None)"

lemma read_cases [case_names None Received Again Error Closed]:
  "(r = None \<Longrightarrow> P) \<Longrightarrow> (\<And>x. r = Some (Received x) \<Longrightarrow> P) \<Longrightarrow> (r = Some Recv_again \<Longrightarrow> P) \<Longrightarrow> (r = Some Recv_error \<Longrightarrow> P)
    \<Longrightarrow> (r = Some Recv_closed \<Longrightarrow> P) \<Longrightarrow> P"
  by (cases r; cases "the r") auto

lemma recv_loop_returns: "stops_at env T \<Longrightarrow> \<exists>s'. recv_loop env s = Some s' \<and> clock s < clock s'"
proof (induction "T - clock s" arbitrary: s rule: less_induct)
  case less
  show ?case
  proof (cases "stopped env s")
    case True
    then show ?thesis by (subst recv_loop.simps) simp
  next
    case False
    then have c: "clock s < T" using less.prems unfolding stops_at_def stopped_def by (metis not_le_imp_less)
    show ?thesis
    proof (cases "en_read env (clock (later env s))" rule: read_cases)
      case None
      then show ?thesis using less.prems unfolding stops_at_def by blast
    next
      case (Received x)
      let ?s = "receive_cb env x (later env (later env s))"
      have "T - clock ?s < T - clock s" using c by simp
      from less.hyps [OF this less.prems] obtain s' where "recv_loop env ?s = Some s'" "clock ?s < clock s'" by blast
      then show ?thesis using False Received by (subst recv_loop.simps) (simp add: Let_def)
    qed (use False in \<open>subst recv_loop.simps; simp add: Let_def\<close>)+
  qed
qed

lemma try_port_returns:
  assumes "stops_at env T"
  shows "\<exists>s'. try_port env ip s = Some s' \<and> clock s < clock s'"
proof -
  obtain ok s1 where c: "connectToServer (en_connect env (clock s)) ip (ck_port s) (s\<lparr>m_connectIp := ip\<rparr>) = (ok, s1)"
    by fastforce
  then have k: "clock s1 = clock s" using connect_clock [of "en_connect env (clock s)" ip "ck_port s" "s\<lparr>m_connectIp := ip\<rparr>"] by simp
  show ?thesis
  proof (cases ok)
    case True
    let ?s = "connect_cb env Connected (''connect succ'' @ [LF]) ((later env (s1\<lparr>m_bConnect := True\<rparr>))\<lparr>m_nTryCount := 0, ck_state := Connected\<rparr>)"
    obtain s' where "recv_loop env ?s = Some s'" "clock ?s < clock s'" using recv_loop_returns [OF assms] by blast
    then show ?thesis using c k True by (simp add: try_port_def)
  qed (use c k in \<open>simp add: try_port_def\<close>)
qed

lemma ports_loop_returns: "stops_at env T \<Longrightarrow> \<exists>s'. ports_loop env ip pl s = Some s' \<and> clock s < clock s'"
proof (induction "T - clock s" arbitrary: s pl rule: less_induct)
  case less
  let ?pl = "removeAll (ck_port s) pl"
  obtain s1 where 1: "try_port env ip s = Some s1" "clock s < clock s1" using try_port_returns [OF less.prems] by blast
  show ?case
  proof (cases "?pl = []")
    case True
    then show ?thesis using 1 by (subst ports_loop.simps) simp
  next
    case False
    let ?s = "s1\<lparr>ck_port := hd ?pl\<rparr>"
    show ?thesis
    proof (cases "stopped env ?s")
      case True
      then show ?thesis using 1 False by (subst ports_loop.simps) simp
    next
      case ns: False
      then have "clock s1 < T" using less.prems unfolding stops_at_def stopped_def
        by (metis client_socket.select_convs(10) client_socket.update_convs(7) not_le_imp_less client_socket.surjective)
      then have "T - clock (later env ?s) < T - clock s" using 1(2) by simp
      from less.hyps [OF this less.prems] obtain s' where "ports_loop env ip ?pl (later env ?s) = Some s'"
        "clock (later env ?s) < clock s'" by blast
      then show ?thesis using 1 False ns by (subst ports_loop.simps) simp
    qed
  qed
qed

lemma hosts_loop_returns: "stops_at env T \<Longrightarrow> \<exists>s'. hosts_loop env hs s = Some s' \<and> clock s \<le> clock s'"
proof (induction hs arbitrary: s)
  case (Cons h hs)
  show ?case
  proof (cases "stopped env s")
    case False
    obtain s1 where 1: "ports_loop env (inet_ntoa h) (m_portList s) (later env s) = Some s1" "clock (later env s) < clock s1"
      using ports_loop_returns [OF Cons.prems] by blast
    obtain s' where "hosts_loop env hs s1 = Some s'" "clock s1 \<le> clock s'" using Cons by blast
    then show ?thesis using 1 False by auto
  qed simp
qed simp

lemma thread_turn_returns:
  assumes "stops_at env T"
  shows "\<exists>r. thread_turn env s = Some r \<and> clock s < clock (snd r)"
proof (cases "en_host env (clock s)")
  case None
  then show ?thesis by (simp add: thread_turn_def Let_def ex_bool_eq)
next
  case (Some hs)
  obtain s1 where 1: "hosts_loop env hs (later env s) = Some s1" "clock (later env s) \<le> clock s1"
    using hosts_loop_returns [OF assms] by blast
  then show ?thesis using Some by (simp add: thread_turn_def Let_def ex_bool_eq)
qed

lemma thread_loop_returns: "stops_at env T \<Longrightarrow> \<exists>s'. thread_loop env s = Some s'"
proof (induction "T - clock s" arbitrary: s rule: less_induct)
  case less
  show ?case
  proof (cases "stopped env s")
    case True
    then show ?thesis by (subst thread_loop.simps) simp
  next
    case False
    then have c: "clock s < T" using less.prems unfolding stops_at_def stopped_def by (metis not_le_imp_less)
    obtain more s1 where 1: "thread_turn env (later env s) = Some (more, s1)" "clock (later env s) < clock s1"
      using thread_turn_returns [OF less.prems, of "later env s"] by force
    show ?thesis
    proof (cases more)
      case True
      have "T - clock s1 < T - clock s" using c 1(2) by simp
      from less.hyps [OF this less.prems] obtain s' where "thread_loop env s1 = Some s'" by blast
      then show ?thesis using 1 True False by (subst thread_loop.simps) simp
    qed (use 1 False in \<open>subst thread_loop.simps; simp\<close>)
  qed
qed

text \<open>C30: The thread of the client ends once m_bStop is set for good, as long as every call of read that
  it makes returns: no loop over connections, ports or addresses keeps it, and it leaves the object
  unconnected and without a socket.  The condition is needed: a thread that is about to read when
  the server stays silent, so that the read does not return, never ends its loop over the
  connection, whatever m_bStop becomes while it waits.\<close>

theorem ck_thread_ends:
  assumes "\<exists>T. \<forall>t \<ge> T. en_stop env t"
  shows "((\<forall>t. en_read env t \<noteq> None) \<longrightarrow>
      (\<exists>s'. threadRun env s = Some s' \<and> \<not> m_bConnect s' \<and> ck_state s' = Unconnected \<and> ck_socket s' \<le> 0))
    \<and> (\<not> stopped env c \<longrightarrow> en_read env (clock c + 1) = None \<longrightarrow> recv_loop env c = None)"
proof (intro conjI impI)
  assume "\<forall>t. en_read env t \<noteq> None"
  then obtain T where "stops_at env T" using assms unfolding stops_at_def by blast
  from thread_loop_returns [OF this, of "s\<lparr>m_nTryCount := 0, m_connectIp := [], m_iLastError := 0\<rparr>"]
  obtain s1 where "thread_loop env (s\<lparr>m_nTryCount := 0, m_connectIp := [], m_iLastError := 0\<rparr>) = Some s1" by blast
  then show "\<exists>s'. threadRun env s = Some s' \<and> \<not> m_bConnect s' \<and> ck_state s' = Unconnected \<and> ck_socket s' \<le> 0"
    by (simp add: threadRun_def ck_say_def ck_sys_def Let_def)
next
  assume "\<not> stopped env c" "en_read env (clock c + 1) = None"
  then show "recv_loop env c = None" by (subst recv_loop.simps) (simp add: Let_def)
qed

definition sample_client :: client_socket where
  "sample_client = \<lparr>ck_socket = 5, m_nTryCount = 0, m_bConnect = False, ck_state = Unconnected, m_iLastError = 0,
     m_bAutoReconnect = True, ck_port = 80, m_portList = [80, 81, 82, 81], m_connectIp = [], clock = 0, cb_log = [], ck_trace = []\<rparr>"

definition sample_env :: "nat \<Rightarrow> recv_result list \<Rightarrow> client_env" where
  "sample_env T rs = \<lparr>en_stop = (\<lambda>t. T \<le> t), en_drop = (\<lambda>_. False), en_host = (\<lambda>_. Some [0x7F000001]),
     en_connect = (\<lambda>_. \<lparr>ca_socket = 5, ca_connect = - 1, ca_select = 0, ca_ready = False, ca_errno = 0,
        ca_fcntl = \<lparr>fc_get = (\<lambda>_. 2), fc_set = (\<lambda>_. True)\<rparr>\<rparr>),
     en_read = (\<lambda>t. Some (if t div 2 < length rs then rs ! (t div 2) else Recv_closed)), en_errno = (\<lambda>_. 0), en_callbacks = (True, True)\<rparr>"

theorem ck_thread_ends_witness:
  "(\<exists>s'. threadRun (sample_env 1000 []) sample_client = Some s' \<and> ck_state s' = Unconnected)
    \<and> recv_loop ((sample_env 1000 [])\<lparr>en_read := \<lambda>_. None\<rparr>) sample_client = None"
proof
  have "\<exists>T. \<forall>t \<ge> T. en_stop (sample_env 1000 []) t" by (simp add: sample_env_def) blast
  moreover have "\<forall>t. en_read (sample_env 1000 []) t \<noteq> None" by (simp add: sample_env_def)
  ultimately show "\<exists>s'. threadRun (sample_env 1000 []) sample_client = Some s' \<and> ck_state s' = Unconnected"
    using ck_thread_ends [of "sample_env 1000 []" sample_client] by blast
next
  let ?e = "(sample_env 1000 [])\<lparr>en_read := \<lambda>_. None\<rparr>"
  have "\<exists>T. \<forall>t \<ge> T. en_stop ?e t" by (simp add: sample_env_def) blast
  moreover have "\<not> stopped ?e sample_client" "en_read ?e (clock sample_client + 1) = None"
    by (simp_all add: sample_env_def stopped_def sample_client_def)
  ultimately show "recv_loop ?e sample_client = None" using ck_thread_ends by blast
qed

subsection \<open>The ports\<close>

text \<open>The ports of the calls of \<open>connect\<close>, the first one first.\<close>

definition ports_in :: "trace \<Rightarrow> int list" where
  "ports_in tr = concat (map (\<lambda>e. case e of Connect _ _ p \<Rightarrow> [p] | _ \<Rightarrow> []) (rev tr))"

lemma ports_in_simps [simp]:
  "ports_in [] = []" "ports_in (a @ b) = ports_in b @ ports_in a"
  "ports_in (e # tr) = ports_in tr @ (case e of Connect _ _ p \<Rightarrow> [p] | _ \<Rightarrow> [])"
  by (simp_all add: ports_in_def)

definition never_stops :: "client_env \<Rightarrow> bool" where
  "never_stops env \<longleftrightarrow> (\<forall>t. \<not> en_stop env t \<and> \<not> en_drop env t)"

definition never_connects :: "client_env \<Rightarrow> bool" where
  "never_connects env \<longleftrightarrow> (\<forall>t. ca_connect (en_connect env t) \<noteq> 0 \<and> ca_select (en_connect env t) \<in> {- 1, 0})"

lemma setBlock_run:
  "\<exists>tr. ck_trace (snd (ck_setBlock fc b s)) = tr @ ck_trace s \<and> ports_in tr = []"
  "ck_socket (snd (ck_setBlock fc b s)) = ck_socket s" "ck_port (snd (ck_setBlock fc b s)) = ck_port s"
  by (auto simp: ck_setBlock_def ck_say_def ck_sys_def Let_def)

lemma try_port_fails:
  assumes "never_stops env" "never_connects env" "0 < ck_socket s"
  shows "\<exists>s' tr. try_port env ip s = Some s' \<and> ck_trace s' = tr @ ck_trace s \<and> ports_in tr = [ck_port s]
    \<and> ck_port s' = ck_port s \<and> ck_socket s' = ck_socket s"
proof -
  let ?a = "en_connect env (clock s)"
  let ?s1 = "snd (ck_setBlock (ca_fcntl ?a) False (s\<lparr>m_connectIp := ip\<rparr>))"
  let ?s2 = "ck_sys (Connect (ck_socket ?s1) ip (ck_port s)) ?s1"
  let ?s3 = "ck_say (if ca_select ?a = - 1 then ''select error'' else ''select time out'') ?s2"
  have a: "ca_connect ?a \<noteq> 0" "ca_select ?a = - 1 \<or> ca_select ?a = 0"
    using assms(2) unfolding never_connects_def by auto
  have c: "connectToServer ?a ip (ck_port s) (s\<lparr>m_connectIp := ip\<rparr>) = (False, ?s3)"
    using a assms(3) by (auto simp: connectToServer_def Let_def)
  obtain tr where tr: "ck_trace ?s1 = tr @ ck_trace s" "ports_in tr = []"
    using setBlock_run(1) [of "ca_fcntl ?a" False "s\<lparr>m_connectIp := ip\<rparr>"] by auto
  have "try_port env ip s = Some (connect_cb env Unconnected (''connect error TCP_ERROR_UNSOLVE_IP'' @ [LF])
      (later env (?s3\<lparr>m_bConnect := False\<rparr>)))"
    using c by (simp add: try_port_def Let_def)
  then show ?thesis using tr assms(1) unfolding never_stops_def
    by (simp add: connect_cb_def later_def ck_say_def ck_sys_def setBlock_run)
qed

text \<open>When no attempt to connect succeeds, the client tries the port it has first and then every other
  port of its list exactly once, and stops; it keeps the port it tried last.\<close>

theorem ck_tries_every_port:
  assumes "never_stops env" and "never_connects env" and "0 < ck_socket s"
  shows "\<exists>s' tr. ports_loop env ip pl s = Some s' \<and> ck_trace s' = tr @ ck_trace s
    \<and> ports_in tr \<noteq> [] \<and> hd (ports_in tr) = ck_port s \<and> distinct (ports_in tr)
    \<and> set (ports_in tr) = insert (ck_port s) (set pl) \<and> ck_port s' = last (ports_in tr)"
  using assms(3)
proof (induction "length (removeAll (ck_port s) pl)" arbitrary: s pl rule: less_induct)
  case less
  let ?pl = "removeAll (ck_port s) pl"
  obtain s1 tr1 where 1: "try_port env ip s = Some s1" "ck_trace s1 = tr1 @ ck_trace s" "ports_in tr1 = [ck_port s]"
    "ck_port s1 = ck_port s" "ck_socket s1 = ck_socket s"
    using try_port_fails [OF assms(1,2) less.prems] by blast
  show ?case
  proof (cases "?pl = []")
    case True
    then have "set pl \<subseteq> {ck_port s}" by (metis Diff_eq_empty_iff set_empty set_removeAll)
    then show ?thesis using 1 True by (subst ports_loop.simps) auto
  next
    case False
    let ?s = "later env (s1\<lparr>ck_port := hd ?pl\<rparr>)"
    have q: "hd ?pl \<in> set ?pl" using hd_in_set [OF False] .
    have "length (removeAll (hd ?pl) ?pl) < length ?pl" using q by (rule length_removeAll_less)
    then have l: "length (removeAll (ck_port ?s) ?pl) < length ?pl" by (simp add: later_def)
    have p: "0 < ck_socket ?s" "ck_port ?s = hd ?pl" "ck_trace ?s = ck_trace s1"
      using less.prems 1(5) assms(1) by (simp_all add: later_def never_stops_def)
    from less.hyps [OF l p(1)] obtain s' tr where
      2: "ports_loop env ip ?pl ?s = Some s'" "ck_trace s' = tr @ ck_trace ?s" "ports_in tr \<noteq> []" "distinct (ports_in tr)"
      "set (ports_in tr) = insert (ck_port ?s) (set ?pl)" "ck_port s' = last (ports_in tr)" by blast
    have "\<not> stopped env (s1\<lparr>ck_port := hd ?pl\<rparr>)" using assms(1) by (simp add: stopped_def never_stops_def)
    then have "ports_loop env ip pl s = Some s'" using 1(1) 2(1) False by (subst ports_loop.simps) simp
    moreover have "ck_trace s' = (tr @ tr1) @ ck_trace s" using 2(2) p(3) 1(2) by simp
    moreover have "set (ports_in (tr @ tr1)) = insert (ck_port s) (set pl)" "distinct (ports_in (tr @ tr1))"
      using 2(4,5) p(2) q 1(3) by auto
    ultimately show ?thesis using 1(3) 2(3,6) by (intro exI [of _ s'] exI [of _ "tr @ tr1"]) simp
  qed
qed

theorem ck_tries_every_port_witness:
  "\<exists>s' tr. ports_loop ((sample_env 0 [])\<lparr>en_stop := \<lambda>_. False\<rparr>) ''127.0.0.1'' [80, 81, 82, 81] sample_client = Some s'
    \<and> ck_trace s' = tr \<and> set (ports_in tr) = {80, 81, 82} \<and> length (ports_in tr) = 3"
proof -
  let ?e = "(sample_env 0 [])\<lparr>en_stop := \<lambda>_. False\<rparr>"
  have "never_stops ?e" "never_connects ?e" "0 < ck_socket sample_client"
    by (simp_all add: never_stops_def never_connects_def sample_env_def sample_client_def)
  from ck_tries_every_port [OF this, of "''127.0.0.1''" "[80, 81, 82, 81]"] obtain s' tr where
    "ports_loop ?e ''127.0.0.1'' [80, 81, 82, 81] sample_client = Some s'" "ck_trace s' = tr"
    "distinct (ports_in tr)" "set (ports_in tr) = {80, 81, 82}"
    by (auto simp: sample_client_def)
  moreover from this have "length (ports_in tr) = 3" using distinct_card [of "ports_in tr"] by simp
  ultimately show ?thesis by blast
qed

subsection \<open>Reading\<close>

text \<open>A connection delivers what it reads, unchanged and in order, to the receive callback; when the
  server ends it (or read fails) the socket is closed and the connect callback is told.\<close>

theorem ck_delivers:
  assumes "never_stops env" and "en_callbacks env = (True, True)"
    and "\<forall>i < length xs. en_read env (clock s + 2 * i + 1) = Some (Received (xs ! i))"
    and "en_read env (clock s + 2 * length xs + 1) \<in> Some ` {Recv_closed, Recv_error, Recv_again}"
  shows "\<exists>s'. recv_loop env s = Some s' \<and> ck_socket s' = - 1 \<and> \<not> m_bConnect s' \<and> ck_state s' = Unconnected
    \<and> Close (ck_socket s) \<in> set (ck_trace s')
    \<and> cb_log s' = cb_log s @ map Receive_cb xs @ [Connect_cb Unconnected (''disconnect'' @ [LF])]"
  using assms(3,4)
proof (induction xs arbitrary: s)
  case Nil
  then show ?case using assms(1,2) unfolding never_stops_def
    by (subst recv_loop.simps)
      (auto simp: stopped_def Let_def later_def connect_cb_def ck_closeSocket_def ck_say_def ck_sys_def)
next
  case (Cons x xs)
  let ?s = "receive_cb env x (later env (later env s))"
  have k: "clock ?s = clock s + 2" by simp
  have "en_read env (clock ?s + 2 * i + 1) = Some (Received (xs ! i))" if "i < length xs" for i
    using Cons.prems(1) [rule_format, of "Suc i"] that by (simp add: add.commute)
  moreover have "en_read env (clock ?s + 2 * length xs + 1) \<in> Some ` {Recv_closed, Recv_error, Recv_again}"
    using Cons.prems(2) by (simp add: add.commute)
  ultimately obtain s' where 1: "recv_loop env ?s = Some s'" "ck_socket s' = - 1" "\<not> m_bConnect s'" "ck_state s' = Unconnected"
    "Close (ck_socket ?s) \<in> set (ck_trace s')"
    "cb_log s' = cb_log ?s @ map Receive_cb xs @ [Connect_cb Unconnected (''disconnect'' @ [LF])]"
    using Cons.IH [of ?s] by blast
  have "en_read env (clock (later env s)) = Some (Received x)" using Cons.prems(1) [rule_format, of 0] by simp
  moreover have "\<not> stopped env s" using assms(1) by (simp add: stopped_def never_stops_def)
  ultimately have "recv_loop env s = recv_loop env ?s" by (subst recv_loop.simps) (simp add: Let_def)
  moreover have "ck_socket ?s = ck_socket s" "cb_log ?s = cb_log s @ [Receive_cb x]"
    using assms(1,2) by (simp_all add: later_def receive_cb_def never_stops_def)
  ultimately show ?case using 1 by simp
qed

theorem ck_delivers_witness:
  "\<exists>s'. recv_loop ((sample_env 0 [Received ''ab'', Received ''c''])\<lparr>en_stop := \<lambda>_. False\<rparr>) sample_client = Some s'
    \<and> cb_log s' = [Receive_cb ''ab'', Receive_cb ''c'', Connect_cb Unconnected (''disconnect'' @ [LF])]"
proof -
  let ?e = "(sample_env 0 [Received ''ab'', Received ''c''])\<lparr>en_stop := \<lambda>_. False\<rparr>"
  have "never_stops ?e" "en_callbacks ?e = (True, True)"
    "\<forall>i < length [''ab'', ''c'']. en_read ?e (clock sample_client + 2 * i + 1) = Some (Received ([''ab'', ''c''] ! i))"
    "en_read ?e (clock sample_client + 2 * length [''ab'', ''c''] + 1) \<in> Some ` {Recv_closed, Recv_error, Recv_again}"
    by (simp_all add: never_stops_def sample_env_def sample_client_def nth_Cons' less_Suc_eq)
  from ck_delivers [OF this] show ?thesis by (auto simp: sample_client_def)
qed

text \<open>A stop that sets \<open>m_socket\<close> while the thread is connected leaves the descriptor open.\<close>

lemma ck_stop_leaks:
  assumes "en_stop env (clock s)" "en_drop env (clock s + 1)"
  shows "\<exists>s'. threadRun env s = Some s' \<and> ck_trace s' = Print (''client socket runloop exit'' @ [LF]) # ck_trace s"
  using assms by (simp add: threadRun_def thread_loop.simps stopped_def later_def ck_say_def ck_sys_def)

end
