(* ===== verification/Logger.thy ===== *)
theory Logger
  imports CText BlockQueue
begin

text \<open>
  The class \<open>Log\<close> of \<open>epoll/log.h\<close> and \<open>epoll/log.cpp\<close> (and the same files in the directory log).
  A \<open>FILE *\<close> is the path it was opened with; the calls of the C library on files are a trace, the
  last one first.  The local time, the expansion of the format and whether a file can be opened
  are arguments.  The method \<open>write_log\<close> takes the mutex three times; its three parts are separate
  definitions, which the theory \<open>Logger_Props\<close> interleaves.
\<close>

datatype file_call = Fopen string bool | Fputs string string | Fflush "string option" | Fclose string
  | Thread_create

text \<open>\<open>gettimeofday\<close> and \<open>localtime\<close>.\<close>

record local_time =
  tm_year :: int
  tm_mon :: int
  tm_mday :: int
  tm_hour :: int
  tm_min :: int
  tm_sec :: int
  tv_usec :: int

record logger =
  dir_name :: "char list"
  log_name :: "char list"
  m_split_lines :: int
  m_log_buf_size :: int
  m_count :: int
  m_today :: int
  m_fp :: "string option"
  m_buf :: "char list"
  m_log_queue :: "string block_queue option"
  m_is_async :: bool
  m_close_log :: int
  file_calls :: "file_call list"

text \<open>The only instance is a static object, so its fields are zero before the constructor.\<close>

definition Log :: logger where
  "Log = \<lparr>dir_name = replicate 128 NUL, log_name = replicate 128 NUL, m_split_lines = 0, m_log_buf_size = 0,
     m_count = 0, m_today = 0, m_fp = None, m_buf = [], m_log_queue = None, m_is_async = False,
     m_close_log = 0, file_calls = []\<rparr>"

definition call_file :: "file_call \<Rightarrow> logger \<Rightarrow> logger" where
  "call_file c s = s\<lparr>file_calls := c # file_calls s\<rparr>"

definition log_destroy :: "logger \<Rightarrow> logger" where
  "log_destroy s = (case m_fp s of None \<Rightarrow> s | Some p \<Rightarrow> call_file (Fclose p) s)"

text \<open>The conversions \<open>%02d\<close> and \<open>%06ld\<close>, and \<open>snprintf(buf, n, ...)\<close> into an array of \<open>k\<close> zero bytes.\<close>

definition pad0 :: "nat \<Rightarrow> int \<Rightarrow> string" where
  "pad0 w i = (if i < 0 then CHR ''-'' # replicate (w - Suc (length (dec (- i)))) (CHR ''0'') @ dec (- i)
     else replicate (w - length (dec i)) (CHR ''0'') @ dec i)"

definition formatted :: "nat \<Rightarrow> nat \<Rightarrow> string \<Rightarrow> string option" where
  "formatted k n s = do { (_, buf) \<leftarrow> vsnprintf (replicate k NUL) 0 n s; cstr buf 0 }"

definition date_text :: "local_time \<Rightarrow> string" where
  "date_text t = dec (tm_year t + 1900) @ ''_'' @ pad0 2 (tm_mon t + 1) @ ''_'' @ pad0 2 (tm_mday t) @ ''_''"

text \<open>\<open>strrchr(file_name, '/')\<close>, as an index.\<close>

definition last_slash :: "string \<Rightarrow> nat option" where
  "last_slash s = (let n = length (takeWhile (\<lambda>c. c \<noteq> CHR ''/'') (rev s)) in
     if n < length s then Some (length s - Suc n) else None)"

definition log_open :: "bool \<Rightarrow> string \<Rightarrow> logger \<Rightarrow> logger" where
  "log_open ok path s = call_file (Fopen path ok) (s\<lparr>m_fp := if ok then Some path else None\<rparr>)"

definition log_init :: "bool \<Rightarrow> local_time \<Rightarrow> string \<Rightarrow> int \<Rightarrow> int \<Rightarrow> int \<Rightarrow> int \<Rightarrow> logger \<Rightarrow> (bool \<times> logger) option" where
  "log_init ok now file_name close_log log_buf_size split_lines max_queue_size s = do {
     s \<leftarrow> (if max_queue_size \<ge> 1 then do {
         q \<leftarrow> bq_new max_queue_size (\<lambda>_. []);
         Some (call_file Thread_create (s\<lparr>m_is_async := True, m_log_queue := Some q\<rparr>)) }
       else Some s);
     if log_buf_size < 0 then None else do {
     let s = s\<lparr>m_close_log := close_log, m_log_buf_size := log_buf_size,
       m_buf := replicate (nat log_buf_size) NUL, m_split_lines := split_lines\<rparr>;
     (path, s) \<leftarrow> (case last_slash file_name of
         None \<Rightarrow> do { path \<leftarrow> formatted 256 255 (date_text now @ file_name); Some (path, s) }
       | Some p \<Rightarrow> do {
           name \<leftarrow> strcpy (log_name s) (drop (Suc p) file_name);
           dir \<leftarrow> strncpy (dir_name s) 0 file_name (Suc p);
           d \<leftarrow> cstr dir 0;
           n \<leftarrow> cstr name 0;
           path \<leftarrow> formatted 256 255 (d @ date_text now @ n);
           Some (path, s\<lparr>log_name := name, dir_name := dir\<rparr>) });
     let s = log_open ok path (s\<lparr>m_today := tm_mday now\<rparr>);
     Some (m_fp s \<noteq> None, s) } }"

fun level_text :: "int \<Rightarrow> string" where
  "level_text l = (if l = 0 then ''[debug]:'' else if l = 1 then ''[info]:'' else if l = 2 then ''[warn]:''
     else if l = 3 then ''[erro]:'' else ''[info]:'')"

text \<open>\<open>fflush(NULL)\<close> flushes every stream; \<open>fclose(NULL)\<close> and \<open>fputs(s, NULL)\<close> are undefined.\<close>

definition log_flush :: "logger \<Rightarrow> logger" where
  "log_flush s = call_file (Fflush (m_fp s)) s"

definition log_fclose :: "logger \<Rightarrow> logger option" where
  "log_fclose s = do { p \<leftarrow> m_fp s; Some (call_file (Fclose p) s) }"

definition add_ll :: "int \<Rightarrow> int \<Rightarrow> int option" where
  "add_ll a b = (if - (2 ^ 63) \<le> a + b \<and> a + b < 2 ^ 63 then Some (a + b) else None)"

text \<open>The first locked part: counting the line and opening the next file.\<close>

definition must_rotate :: "local_time \<Rightarrow> logger \<Rightarrow> bool option" where
  "must_rotate now s = (if m_today s \<noteq> tm_mday now then Some True
     else if m_split_lines s = 0 then None else Some (m_count s smod m_split_lines s = 0))"

definition rotate_file :: "bool \<Rightarrow> local_time \<Rightarrow> logger \<Rightarrow> logger option" where
  "rotate_file ok now s = do {
     s \<leftarrow> log_fclose (log_flush s);
     tail \<leftarrow> formatted 16 16 (date_text now);
     dir \<leftarrow> cstr (dir_name s) 0;
     name \<leftarrow> cstr (log_name s) 0;
     if m_today s \<noteq> tm_mday now then do {
       path \<leftarrow> formatted 256 255 (dir @ tail @ name);
       Some (log_open ok path (s\<lparr>m_today := tm_mday now, m_count := 0\<rparr>)) }
     else do {
       path \<leftarrow> formatted 256 255 (dir @ tail @ name @ ''.'' @ dec (m_count s sdiv m_split_lines s));
       Some (log_open ok path s) } }"

definition count_line :: "bool \<Rightarrow> local_time \<Rightarrow> logger \<Rightarrow> logger option" where
  "count_line ok now s = do {
     n \<leftarrow> add_ll (m_count s) 1;
     let s = s\<lparr>m_count := n\<rparr>;
     r \<leftarrow> must_rotate now s;
     if r then rotate_file ok now s else Some s }"

text \<open>The second locked part: the line, whose message \<open>msg\<close> is the expansion of the format.\<close>

definition line_prefix :: "int \<Rightarrow> local_time \<Rightarrow> string" where
  "line_prefix level t = dec (tm_year t + 1900) @ ''-'' @ pad0 2 (tm_mon t + 1) @ ''-'' @ pad0 2 (tm_mday t)
     @ '' '' @ pad0 2 (tm_hour t) @ '':'' @ pad0 2 (tm_min t) @ '':'' @ pad0 2 (tm_sec t)
     @ ''.'' @ pad0 6 (tv_usec t) @ '' '' @ level_text level @ '' ''"

definition format_line :: "int \<Rightarrow> local_time \<Rightarrow> string \<Rightarrow> logger \<Rightarrow> (string \<times> logger) option" where
  "format_line level now msg s = do {
     (n, buf) \<leftarrow> vsnprintf (m_buf s) 0 48 (line_prefix level now);
     (m, buf) \<leftarrow> vsnprintf buf (nat n) (nat ((m_log_buf_size s - 1) mod 2 ^ 64)) msg;
     buf \<leftarrow> arr_set buf (n + m) LF;
     buf \<leftarrow> arr_set buf (n + m + 1) NUL;
     log_str \<leftarrow> cstr buf 0;
     Some (log_str, s\<lparr>m_buf := buf\<rparr>) }"

text \<open>The last part: the choice between the queue and the file, and the two ways.\<close>

definition goes_to_queue :: "logger \<Rightarrow> bool option" where
  "goes_to_queue s = (if m_is_async s then do { q \<leftarrow> m_log_queue s; Some (\<not> bq_full q) } else Some False)"

definition queue_line :: "string \<Rightarrow> logger \<Rightarrow> (bool \<times> logger) option" where
  "queue_line log_str s = do {
     q \<leftarrow> m_log_queue s;
     (ok, q) \<leftarrow> bq_push log_str q;
     Some (ok, s\<lparr>m_log_queue := Some q\<rparr>) }"

definition file_line :: "string \<Rightarrow> logger \<Rightarrow> logger option" where
  "file_line log_str s = do { p \<leftarrow> m_fp s; Some (call_file (Fputs p log_str) s) }"

definition write_log :: "bool \<Rightarrow> local_time \<Rightarrow> int \<Rightarrow> string \<Rightarrow> logger \<Rightarrow> logger option" where
  "write_log ok now level msg s = do {
     s \<leftarrow> count_line ok now s;
     (log_str, s) \<leftarrow> format_line level now msg s;
     b \<leftarrow> goes_to_queue s;
     if b then do { (_, s) \<leftarrow> queue_line log_str s; Some s } else file_line log_str s }"

text \<open>One turn of \<open>async_write_log\<close>, when the queue has an item: the line taken out, then written.\<close>

definition take_line :: "logger \<Rightarrow> (string \<times> logger) option" where
  "take_line s = do {
     q \<leftarrow> m_log_queue s;
     (v, q) \<leftarrow> bq_pop_item q;
     Some (v, s\<lparr>m_log_queue := Some q\<rparr>) }"

definition async_write_log :: "logger \<Rightarrow> logger option" where
  "async_write_log s = do { (single_log, s) \<leftarrow> take_line s; file_line single_log s }"

end
