(* ===== verification/Logger_Props.thy ===== *)
theory Logger_Props
  imports Logger
begin

text \<open>
  What the log files hold.  The first part is about one thread that logs without the queue: the
  line, the change of file and a sequence of lines.  The second part interleaves any number of
  threads and the thread that empties the queue.
\<close>

subsection \<open>Formatting\<close>

lemma formatted_text:
  assumes "NUL \<notin> set s" "0 < n" "n \<le> k"
  shows "formatted k n s = Some (take (n - 1) s)"
proof -
  have "NUL \<notin> set (take (n - 1) s)" using assms(1) by (meson in_set_takeD)
  then show ?thesis
    using assms(2,3) cstr_append [of "take (n - 1) s" "[]" "drop (Suc (length (take (n - 1) s))) (replicate k NUL)"]
    by (auto simp: formatted_def vsnprintf_def Let_def)
qed

lemma pad0_no_NUL [simp]: "NUL \<notin> set (pad0 w i)"
  by (auto simp: pad0_def)

lemma date_text_no_NUL [simp]: "NUL \<notin> set (date_text t)"
  by (simp add: date_text_def)

lemma line_prefix_no_NUL [simp]: "NUL \<notin> set (line_prefix l t)"
  by (simp add: line_prefix_def)

lemma dec_short: "0 \<le> i \<Longrightarrow> nat i < 10 ^ Suc k \<Longrightarrow> length (dec i) \<le> Suc k"
  using dec_nat_length [of "nat i" k] by (simp add: dec_def)

lemma pad0_2: "0 \<le> i \<Longrightarrow> i < 100 \<Longrightarrow> length (pad0 2 i) = 2"
  using dec_short [of i 1] by (simp add: pad0_def nat_less_iff)

lemma pad0_6: "0 \<le> i \<Longrightarrow> i < 1000000 \<Longrightarrow> length (pad0 6 i) = 6"
  using dec_short [of i 5] by (simp add: pad0_def nat_less_iff)

text \<open>The ranges that \<open>localtime\<close> and \<open>gettimeofday\<close> keep, up to the year 9999.\<close>

definition time_ok :: "local_time \<Rightarrow> bool" where
  "time_ok t \<longleftrightarrow> 0 \<le> tm_year t + 1900 \<and> tm_year t + 1900 \<le> 9999 \<and> 0 \<le> tm_mon t \<and> tm_mon t \<le> 11
     \<and> 1 \<le> tm_mday t \<and> tm_mday t \<le> 31 \<and> 0 \<le> tm_hour t \<and> tm_hour t \<le> 23 \<and> 0 \<le> tm_min t \<and> tm_min t \<le> 59
     \<and> 0 \<le> tm_sec t \<and> tm_sec t \<le> 60 \<and> 0 \<le> tv_usec t \<and> tv_usec t \<le> 999999"

lemma level_text_length: "length (level_text l) \<le> 8" "NUL \<notin> set (level_text l)"
  by simp_all

lemma line_prefix_length:
  assumes "time_ok t"
  shows "length (line_prefix l t) \<le> 36"
proof -
  have "length (dec (tm_year t + 1900)) \<le> 4"
    using assms dec_short [of "tm_year t + 1900" 3] by (simp add: time_ok_def nat_less_iff)
  moreover have "length (pad0 2 (tm_mon t + 1)) = 2" "length (pad0 2 (tm_mday t)) = 2" "length (pad0 2 (tm_hour t)) = 2"
    "length (pad0 2 (tm_min t)) = 2" "length (pad0 2 (tm_sec t)) = 2" "length (pad0 6 (tv_usec t)) = 6"
    using assms by (simp_all add: time_ok_def pad0_2 pad0_6)
  ultimately show ?thesis using level_text_length(1) [of l] by (simp add: line_prefix_def del: level_text.simps)
qed

lemma date_text_length:
  assumes "time_ok t"
  shows "length (date_text t) \<le> 11"
proof -
  have "length (dec (tm_year t + 1900)) \<le> 4"
    using assms dec_short [of "tm_year t + 1900" 3] by (simp add: time_ok_def nat_less_iff)
  moreover have "length (pad0 2 (tm_mon t + 1)) = 2" "length (pad0 2 (tm_mday t)) = 2"
    using assms by (simp_all add: time_ok_def pad0_2)
  ultimately show ?thesis by (simp add: date_text_def)
qed

text \<open>The line that \<open>write_log\<close> composes.\<close>

definition log_line :: "int \<Rightarrow> local_time \<Rightarrow> string \<Rightarrow> string" where
  "log_line level t msg = line_prefix level t @ msg @ [LF]"

lemma log_line_no_NUL: "NUL \<notin> set msg \<Longrightarrow> NUL \<notin> set (log_line l t msg)"
  by (simp add: log_line_def)

definition fits :: "local_time \<Rightarrow> int \<Rightarrow> string \<Rightarrow> int \<Rightarrow> bool" where
  "fits t level msg n \<longleftrightarrow> time_ok t \<and> NUL \<notin> set msg \<and> int (length (line_prefix level t) + length msg) + 2 \<le> n"

lemma format_line_fits:
  assumes "fits t l msg (m_log_buf_size s)" "int (length (m_buf s)) = m_log_buf_size s" "m_log_buf_size s < 2 ^ 31"
  shows "\<exists>buf. length buf = length (m_buf s) \<and> format_line l t msg s = Some (log_line l t msg, s\<lparr>m_buf := buf\<rparr>)"
proof -
  let ?p = "line_prefix l t" and ?b = "m_buf s"
  have p: "length ?p < 48" "NUL \<notin> set msg" "length ?p + length msg + 2 \<le> length ?b" and z: "time_ok t"
    using assms line_prefix_length [of t l] by (auto simp: fits_def)
  define b1 where "b1 = ?p @ NUL # drop (Suc (length ?p)) ?b"
  have l1: "length b1 = length ?b" using p by (simp add: b1_def)
  have 1: "vsnprintf ?b 0 48 ?p = Some (int (length ?p), b1)"
    using vsnprintf_fit [of ?p 48 0 ?b] p by (simp add: b1_def)
  have w: "nat ((m_log_buf_size s - 1) mod 2 ^ 64) = length ?b - 1"
    using assms(2,3) p by (simp add: mod_pos_pos_trivial)
  define b2 where "b2 = ?p @ msg @ NUL # drop (Suc (length ?p + length msg)) b1"
  have l2: "length b2 = length ?b" using p l1 by (simp add: b2_def)
  have 2: "vsnprintf b1 (length ?p) (length ?b - 1) msg = Some (int (length msg), b2)"
    using vsnprintf_fit [of msg "length ?b - 1" "length ?p" b1] p l1 by (simp add: b2_def b1_def)
  define r where "r = drop (Suc (Suc (length ?p + length msg))) b2"
  define b3 where "b3 = (?p @ msg @ [LF]) @ NUL # r"
  have u: "b2[length ?p + length msg := LF, Suc (length ?p + length msg) := NUL] = b3"
  proof -
    have "b2 = (?p @ msg @ [NUL]) @ b2 ! Suc (length ?p + length msg) # r"
    proof -
      have "b2 = take (Suc (length ?p + length msg)) b2 @ b2 ! Suc (length ?p + length msg) # r"
        unfolding r_def using p l2 by (intro id_take_nth_drop) simp
      moreover have "take (Suc (length ?p + length msg)) b2 = ?p @ msg @ [NUL]" by (simp add: b2_def)
      ultimately show ?thesis by simp
    qed
    then obtain x where "b2 = (?p @ msg @ [NUL]) @ x # r" by blast
    then show ?thesis by (simp add: b3_def list_update_append)
  qed
  have 3: "arr_set b2 (int (length ?p) + int (length msg)) LF = Some (b2[length ?p + length msg := LF])"
    using arr_set_nat [of "length ?p + length msg" b2 LF] p l2 by simp
  have 4: "arr_set (b2[length ?p + length msg := LF]) (int (length ?p) + int (length msg) + 1) NUL = Some b3"
  proof -
    have "int (length ?p) + int (length msg) + 1 = int (Suc (length ?p + length msg))" by simp
    then show ?thesis using arr_set_nat [of "Suc (length ?p + length msg)" "b2[length ?p + length msg := LF]" NUL] p l2
      by (simp only: u length_list_update)
  qed
  have 5: "cstr b3 0 = Some (log_line l t msg)"
    using cstr_append [of "?p @ msg @ [LF]" "[]" r] p(2) by (simp add: b3_def log_line_def)
  have "length b3 = length ?b" using u l2 by (metis length_list_update)
  then show ?thesis
    by (intro exI [of _ b3]) (simp only: format_line_def 1 w 2 3 4 5 run_simps nat_int simp_thms)
qed

lemma format_line_long:
  assumes "int (length (m_buf s)) = m_log_buf_size s" "0 < m_log_buf_size s" "m_log_buf_size s < 2 ^ 31"
    "m_log_buf_size s < int (length (line_prefix l t) + length msg) + 2"
  shows "format_line l t msg s = None"
proof -
  have "\<not> int (length (line_prefix l t) + length msg + 1) < int (length (m_buf s))" using assms by simp
  then have *: "arr_set b (int (length (line_prefix l t)) + int (length msg) + 1) NUL = None"
    if "length b = length (m_buf s)" for b
    using that by (simp add: arr_set_def algebra_simps)
  have **: "arr_set b i v = Some b' \<Longrightarrow> length b' = length b" for b b' :: string and i v
    by (auto simp: arr_set_def split: if_splits)
  have False if run: "format_line l t msg s = Some r" for r
  proof -
    obtain n b1 m b2 b3 b4 where st: "vsnprintf (m_buf s) 0 48 (line_prefix l t) = Some (n, b1)"
      "vsnprintf b1 (nat n) (nat ((m_log_buf_size s - 1) mod 2 ^ 64)) msg = Some (m, b2)"
      "arr_set b2 (n + m) LF = Some b3" "arr_set b3 (n + m + 1) NUL = Some b4"
      using run by (auto simp only: format_line_def bind_eq_Some_conv split_paired_Ex prod.case)
    have "n = int (length (line_prefix l t))" "m = int (length msg)"
      using st(1,2) by (auto simp only: vsnprintf_def Let_def prod.inject option.inject split: if_splits)
    moreover have "length b3 = length (m_buf s)"
      using vsnprintf_length [OF st(1)] vsnprintf_length [OF st(2)] ** [OF st(3)] by simp
    ultimately show False using * st(4) by simp
  qed
  then show ?thesis by (cases "format_line l t msg s") auto
qed

subsection \<open>One thread without the queue\<close>

text \<open>What the constructor and \<open>init\<close> establish, for a file name with a directory.\<close>

definition log_ready :: "string \<Rightarrow> string \<Rightarrow> logger \<Rightarrow> bool" where
  "log_ready dir name s \<longleftrightarrow> m_fp s \<noteq> None \<and> cstr (dir_name s) 0 = Some dir \<and> cstr (log_name s) 0 = Some name
     \<and> int (length (m_buf s)) = m_log_buf_size s \<and> m_log_buf_size s < 2 ^ 31 \<and> 0 < m_split_lines s \<and> 0 \<le> m_count s"

lemma log_ready_NUL: "log_ready dir name s \<Longrightarrow> NUL \<notin> set dir \<and> NUL \<notin> set name"
  using cstr_len(5) [of "dir_name s" 0 dir] cstr_len(5) [of "log_name s" 0 name] by (simp add: log_ready_def)

text \<open>The file of the lines from the \<open>k\<close>-th change on, and that of a new day.\<close>

definition split_path :: "string \<Rightarrow> string \<Rightarrow> local_time \<Rightarrow> int \<Rightarrow> string" where
  "split_path dir name t k = take 254 (dir @ date_text t @ name @ ''.'' @ dec k)"

definition day_path :: "string \<Rightarrow> string \<Rightarrow> local_time \<Rightarrow> string" where
  "day_path dir name t = take 254 (dir @ date_text t @ name)"

lemma log_calls_simps [simp]:
  "file_calls (call_file c s) = c # file_calls s" "m_fp (call_file c s) = m_fp s" "m_count (call_file c s) = m_count s"
  "m_buf (call_file c s) = m_buf s" "m_log_buf_size (call_file c s) = m_log_buf_size s"
  "dir_name (call_file c s) = dir_name s" "log_name (call_file c s) = log_name s" "m_today (call_file c s) = m_today s"
  "m_split_lines (call_file c s) = m_split_lines s" "m_is_async (call_file c s) = m_is_async s"
  "m_log_queue (call_file c s) = m_log_queue s" "m_close_log (call_file c s) = m_close_log s"
  by (simp_all add: call_file_def)

lemma date_formatted:
  assumes "time_ok t"
  shows "formatted 16 16 (date_text t) = Some (date_text t)"
  using formatted_text [of "date_text t" 16 16] date_text_length [OF assms] by simp

lemma rotate_file_run:
  assumes "log_ready dir name s" "time_ok t" "m_fp s = Some p"
  shows "rotate_file ok t s = Some (if m_today s \<noteq> tm_mday t
      then log_open ok (day_path dir name t)
        (call_file (Fclose p) (call_file (Fflush (Some p)) s)\<lparr>m_today := tm_mday t, m_count := 0\<rparr>)
      else log_open ok (split_path dir name t (m_count s sdiv m_split_lines s))
        (call_file (Fclose p) (call_file (Fflush (Some p)) s)))"
proof -
  have n: "NUL \<notin> set dir" "NUL \<notin> set name" using log_ready_NUL [OF assms(1)] by simp_all
  have f: "log_fclose (log_flush s) = Some (call_file (Fclose p) (call_file (Fflush (Some p)) s))"
    using assms(3) by (simp add: log_fclose_def log_flush_def)
  have "formatted 256 255 (dir @ date_text t @ name) = Some (day_path dir name t)"
    using n formatted_text [of "dir @ date_text t @ name" 255 256] by (simp add: day_path_def)
  moreover have "formatted 256 255 (dir @ date_text t @ name @ ''.'' @ dec k) = Some (split_path dir name t k)" for k
    using n formatted_text [of "dir @ date_text t @ name @ ''.'' @ dec k" 255 256] by (simp add: split_path_def)
  ultimately show ?thesis using assms(1) by (simp add: rotate_file_def f date_formatted [OF assms(2)] log_ready_def)
qed

text \<open>A line of a day that has already begun: the calls it makes, and the file it goes to.\<close>

lemma write_log_day:
  assumes ready: "log_ready dir name s" and fit: "fits t l msg (m_log_buf_size s)"
    and sync: "\<not> m_is_async s" and day: "m_today s = tm_mday t" and cnt: "m_count s + 1 < 2 ^ 63" and fp: "m_fp s = Some p"
    and op: "(m_count s + 1) mod m_split_lines s = 0 \<longrightarrow> ok"
  shows "\<exists>s'. write_log ok t l msg s = Some s' \<and> log_ready dir name s' \<and> \<not> m_is_async s' \<and> m_today s' = tm_mday t
    \<and> m_count s' = m_count s + 1 \<and> m_split_lines s' = m_split_lines s \<and> m_log_buf_size s' = m_log_buf_size s
    \<and> (let n = m_count s + 1; k = n div m_split_lines s; q = split_path dir name t k in
        if n mod m_split_lines s = 0
        then m_fp s' = Some q \<and> file_calls s' = [Fputs q (log_line l t msg), Fopen q True, Fclose p, Fflush (Some p)] @ file_calls s
        else m_fp s' = Some p \<and> file_calls s' = Fputs p (log_line l t msg) # file_calls s)"
proof -
  let ?s1 = "s\<lparr>m_count := m_count s + 1\<rparr>" and ?n = "m_count s + 1" and ?S = "m_split_lines s"
  let ?q = "split_path dir name t (?n div ?S)"
  have r1: "log_ready dir name ?s1" using ready by (simp add: log_ready_def)
  have S: "0 < ?S" "0 \<le> ?n" using ready by (simp_all add: log_ready_def)
  have t: "time_ok t" using fit by (simp add: fits_def)
  have a: "add_ll (m_count s) 1 = Some ?n" using cnt S by (simp add: add_ll_def)
  define s2 where "s2 = (if ?n mod ?S = 0 then log_open True ?q (call_file (Fclose p) (call_file (Fflush (Some p)) ?s1)) else ?s1)"
  have c: "count_line ok t s = Some s2"
    using day S fp rotate_file_run [OF r1 t, of p True] op
    by (cases "?n mod ?S = 0") (simp_all add: count_line_def a must_rotate_def smod_pos sdiv_pos s2_def)
  have s2: "log_ready dir name s2" "m_log_buf_size s2 = m_log_buf_size s" "\<not> m_is_async s2" "m_today s2 = tm_mday t"
    "m_count s2 = ?n" "m_split_lines s2 = ?S"
    "m_fp s2 = Some (if ?n mod ?S = 0 then ?q else p)"
    "file_calls s2 = (if ?n mod ?S = 0 then [Fopen ?q True, Fclose p, Fflush (Some p)] else []) @ file_calls s"
    using r1 sync day fp by (auto simp: s2_def log_open_def log_ready_def)
  obtain buf where b: "length buf = length (m_buf s2)" "format_line l t msg s2 = Some (log_line l t msg, s2\<lparr>m_buf := buf\<rparr>)"
    using format_line_fits [of t l msg s2] fit s2(1,2) by (auto simp: log_ready_def)
  define s3 where "s3 = call_file (Fputs (if ?n mod ?S = 0 then ?q else p) (log_line l t msg)) (s2\<lparr>m_buf := buf\<rparr>)"
  have "write_log ok t l msg s = Some s3"
    using s2(3,7) by (simp add: write_log_def c b(2) goes_to_queue_def file_line_def s3_def)
  moreover have "log_ready dir name s3" using s2(1) b(1) by (simp add: s3_def log_ready_def)
  ultimately show ?thesis using s2(2-8) by (intro exI [of _ s3]) (simp add: s3_def Let_def)
qed

text \<open>A line that should start the next file, when that file cannot be opened: \<open>fputs\<close> gets a null pointer.\<close>

lemma write_log_fails:
  assumes "log_ready dir name s" "time_ok t" "\<not> m_is_async s" "m_today s = tm_mday t" "m_count s + 1 < 2 ^ 63" "m_fp s = Some p"
    and "(m_count s + 1) mod m_split_lines s = 0"
  shows "write_log False t l msg s = None"
proof -
  let ?s1 = "s\<lparr>m_count := m_count s + 1\<rparr>" and ?S = "m_split_lines s"
  let ?s2 = "log_open False (split_path dir name t ((m_count s + 1) div ?S)) (call_file (Fclose p) (call_file (Fflush (Some p)) ?s1))"
  have r1: "log_ready dir name ?s1" using assms(1) by (simp add: log_ready_def)
  have S: "0 < ?S" "0 \<le> m_count s + 1" using assms(1) by (simp_all add: log_ready_def)
  have a: "add_ll (m_count s) 1 = Some (m_count s + 1)" using assms(5) S by (simp add: add_ll_def)
  have c: "count_line False t s = Some ?s2"
    using assms(4,6,7) S rotate_file_run [OF r1 assms(2), of p False]
    by (simp add: count_line_def a must_rotate_def smod_pos sdiv_pos)
  have "m_fp s3 = None \<and> \<not> m_is_async s3" if "format_line l t msg ?s2 = Some (x, s3)" for x s3
    using that assms(3) by (auto simp: format_line_def log_open_def bind_eq_Some_conv)
  then show ?thesis unfolding write_log_def c
    by (cases "format_line l t msg ?s2") (auto simp: goes_to_queue_def file_line_def)
qed

text \<open>
  Lines with the answer \<open>ok\<close> of \<open>fopen\<close> should the line start a file.
\<close>

fun write_logs :: "(bool \<times> local_time \<times> int \<times> string) list \<Rightarrow> logger \<Rightarrow> logger option" where
  "write_logs [] s = Some s"
| "write_logs ((ok, t, l, msg) # ls) s = do { s \<leftarrow> write_log ok t l msg s; write_logs ls s }"

text \<open>
  The calls a sequence of lines should make, the first first: \<open>n\<close> lines were logged before, the
  current file is \<open>p\<close>, and every \<open>S\<close>-th line starts the next file.  \<open>opens_all\<close> says that each of
  those files can be opened.
\<close>

fun log_script :: "string \<Rightarrow> string \<Rightarrow> int \<Rightarrow> int \<Rightarrow> string \<Rightarrow> (bool \<times> local_time \<times> int \<times> string) list \<Rightarrow> file_call list" where
  "log_script dir name S n p [] = []"
| "log_script dir name S n p ((ok, t, l, msg) # ls) = (
     if (n + 1) mod S = 0 then let q = split_path dir name t ((n + 1) div S) in
       [Fflush (Some p), Fclose p, Fopen q True, Fputs q (log_line l t msg)] @ log_script dir name S (n + 1) q ls
     else Fputs p (log_line l t msg) # log_script dir name S (n + 1) p ls)"

fun opens_all :: "int \<Rightarrow> int \<Rightarrow> (bool \<times> local_time \<times> int \<times> string) list \<Rightarrow> bool" where
  "opens_all S n [] = True"
| "opens_all S n ((ok, _) # ls) = (((n + 1) mod S = 0 \<longrightarrow> ok) \<and> opens_all S (n + 1) ls)"


definition sample_time :: local_time where
  "sample_time = \<lparr>tm_year = 124, tm_mon = 0, tm_mday = 5, tm_hour = 7, tm_min = 30, tm_sec = 9, tv_usec = 42\<rparr>"

definition sample_log :: logger where
  "sample_log = Log\<lparr>dir_name := ''./'' @ replicate 126 NUL, log_name := ''a'' @ replicate 127 NUL, m_split_lines := 2,
     m_log_buf_size := 60, m_today := 5, m_fp := Some ''./2024_01_05_a'', m_buf := replicate 60 NUL\<rparr>"

lemma sample_log_ready: "log_ready ''./'' ''a'' sample_log"
  by (simp add: log_ready_def sample_log_def Log_def cstr_def)

lemma sample_fits: "length msg \<le> 22 \<Longrightarrow> NUL \<notin> set msg \<Longrightarrow> fits sample_time l msg (m_log_buf_size sample_log)"
  using line_prefix_length [of sample_time l] by (simp add: fits_def time_ok_def sample_time_def sample_log_def)


text \<open>A line is formatted without undefined behaviour exactly when it fits: the time and the level,
  the message, the line feed and the NUL together take no more than \<open>m_log_buf_size\<close> characters.
  Then the result is the whole line.  A longer message does not lose its end, as the bounds in the
  calls suggest: the two assignments behind it write outside the buffer.\<close>

theorem log_line_bounds:
  assumes "time_ok t" "NUL \<notin> set msg" "int (length (m_buf s)) = m_log_buf_size s" "0 < m_log_buf_size s" "m_log_buf_size s < 2 ^ 31"
  shows "(format_line l t msg s = None \<longleftrightarrow> m_log_buf_size s < int (length (log_line l t msg)) + 1)
    \<and> (int (length (log_line l t msg)) + 1 \<le> m_log_buf_size s \<longrightarrow>
        (\<exists>buf. length buf = length (m_buf s) \<and> format_line l t msg s = Some (log_line l t msg, s\<lparr>m_buf := buf\<rparr>)))"
proof -
  have e: "int (length (log_line l t msg)) + 1 = int (length (line_prefix l t) + length msg) + 2" by (simp add: log_line_def)
  show ?thesis
  proof (cases "m_log_buf_size s < int (length (log_line l t msg)) + 1")
    case True
    then show ?thesis using format_line_long [OF assms(3,4,5)] e by simp
  next
    case False
    then have "fits t l msg (m_log_buf_size s)" using assms e by (simp add: fits_def)
    then show ?thesis using format_line_fits [OF _ assms(3,5)] False by fastforce
  qed
qed

theorem log_line_bounds_witness:
  "format_line 1 sample_time (replicate 30 CHR ''x'') sample_log = None
   \<and> (\<exists>buf. length buf = 60 \<and> format_line 1 sample_time ''up'' sample_log = Some (log_line 1 sample_time ''up'', sample_log\<lparr>m_buf := buf\<rparr>))"
proof -
  have s: "time_ok sample_time" "int (length (m_buf sample_log)) = m_log_buf_size sample_log" "m_log_buf_size sample_log = 60"
    by (simp_all add: sample_log_def sample_time_def time_ok_def)
  have l: "length (log_line 1 sample_time msg) = 36 + length msg" for msg
    by (simp add: log_line_def line_prefix_def sample_time_def pad0_def dec_def dec_nat.simps)
  show ?thesis
    using log_line_bounds [of sample_time "replicate 30 CHR ''x''" sample_log 1] log_line_bounds [of sample_time "''up''" sample_log 1] s
    by (simp add: l sample_log_def)
qed

lemma last_slash_dir: "CHR ''/'' \<notin> set n \<Longrightarrow> last_slash (d @ CHR ''/'' # n) = Some (length d)"
proof -
  assume "CHR ''/'' \<notin> set n"
  then have "takeWhile (\<lambda>c. c \<noteq> CHR ''/'') (rev n @ CHR ''/'' # rev d) = rev n" by (intro takeWhile_stop) auto
  then show ?thesis by (simp add: last_slash_def)
qed

lemma last_slash_none: "CHR ''/'' \<notin> set n \<Longrightarrow> last_slash n = None"
proof -
  assume "CHR ''/'' \<notin> set n"
  then have "takeWhile (\<lambda>c. c \<noteq> CHR ''/'') (rev n) = rev n" by (auto simp: takeWhile_eq_all_conv)
  then show ?thesis by (simp only: last_slash_def Let_def length_rev) simp
qed

lemma cstr_zeroed: "NUL \<notin> set s \<Longrightarrow> 0 < k \<Longrightarrow> cstr (s @ replicate k NUL) 0 = Some s"
  using cstr_append [of s "[]" "replicate (k - 1) NUL"] by (cases k) simp_all

text \<open>\<open>init\<close> on the fresh object.  With a directory in the file name it keeps the directory and the
  name, and opens the file of the day, so the object is ready for logging when the file could be
  opened; a directory of 128 characters or a name of 128 overruns the arrays.  Without a directory
  it opens the file of the day too but keeps no name, so every later file is called by its date
  alone.\<close>

theorem log_init_correct:
  assumes "time_ok t" "NUL \<notin> set d" "NUL \<notin> set n" "CHR ''/'' \<notin> set n" "0 \<le> bsize" "bsize < 2 ^ 31" "0 < lines" "queue < 1"
  shows "(length d < 127 \<and> length n < 128 \<longrightarrow>
      (\<exists>s. log_init True t (d @ ''/'' @ n) 0 bsize lines queue Log = Some (True, s) \<and> log_ready (d @ ''/'') n s \<and> \<not> m_is_async s
        \<and> m_today s = tm_mday t \<and> m_fp s = Some (day_path (d @ ''/'') n t)))
    \<and> (\<not> (length d < 127 \<and> length n < 128) \<longrightarrow> log_init ok t (d @ ''/'' @ n) 0 bsize lines queue Log = None)
    \<and> (\<exists>s. log_init True t n 0 bsize lines queue Log = Some (True, s) \<and> log_ready [] [] s \<and> m_fp s = Some (take 254 (date_text t @ n)))"
proof -
  have nc: "NUL \<noteq> CHR ''/''" by simp
  have l: "last_slash (d @ CHR ''/'' # n) = Some (length d)" "last_slash n = None"
    using last_slash_dir last_slash_none assms(4) by auto
  have t1: "formatted 256 255 (date_text t @ n) = Some (take 254 (date_text t @ n))"
    using formatted_text [of "date_text t @ n" 255 256] assms(3) by simp
  have z: "cstr (replicate 128 NUL) 0 = Some []" using cstr_zeroed [of "[]" 128] by simp
  have p3: "\<exists>s. log_init True t n 0 bsize lines queue Log = Some (True, s) \<and> log_ready [] [] s \<and> m_fp s = Some (take 254 (date_text t @ n))"
    using assms(5-8) by (simp add: log_init_def l t1 Log_def log_ready_def log_open_def z)
  have cp: "strcpy (replicate 128 NUL) n = (if length n < 128 then Some (n @ replicate (128 - length n) NUL) else None)"
    by (cases "128 - length n") (auto simp: strcpy_def)
  have cd: "strncpy (replicate 128 NUL) 0 (d @ CHR ''/'' # n) (Suc (length d))
      = (if length d < 128 then Some ((d @ ''/'') @ replicate (127 - length d) NUL) else None)"
    by (auto simp: strncpy_def)
  have cn: "length n < 128 \<Longrightarrow> cstr (n @ replicate (128 - length n) NUL) 0 = Some n"
    using cstr_zeroed [of n "128 - length n"] assms(3) by simp
  have cdd: "length d < 127 \<Longrightarrow> cstr ((d @ ''/'') @ replicate (127 - length d) NUL) 0 = Some (d @ ''/'')"
    using cstr_zeroed [of "d @ ''/''" "127 - length d"] assms(2) nc by simp
  have cdn: "length d = 127 \<Longrightarrow> cstr ((d @ ''/'') @ replicate (127 - length d) NUL) 0 = None"
    using assms(2) nc by (auto simp: cstr_def)
  have cd127: "length d = 127 \<Longrightarrow> strncpy (replicate 128 NUL) 0 (d @ CHR ''/'' # n) 128 = Some (d @ ''/'')"
    using cd by simp
  have t2: "formatted 256 255 ((d @ ''/'') @ date_text t @ n) = Some (day_path (d @ ''/'') n t)"
    using formatted_text [of "(d @ ''/'') @ date_text t @ n" 255 256] assms(2,3) nc by (simp add: day_path_def)
  show ?thesis
  proof (intro conjI impI p3)
    assume h: "length d < 127 \<and> length n < 128"
    show "\<exists>s. log_init True t (d @ ''/'' @ n) 0 bsize lines queue Log = Some (True, s) \<and> log_ready (d @ ''/'') n s \<and> \<not> m_is_async s
        \<and> m_today s = tm_mday t \<and> m_fp s = Some (day_path (d @ ''/'') n t)"
      using h assms(5-8) cn cdd t2 by (simp add: log_init_def l cp cd Log_def log_ready_def log_open_def)
  next
    assume h: "\<not> (length d < 127 \<and> length n < 128)"
    then consider "\<not> length n < 128" | "length n < 128" "length d = 127" | "length n < 128" "\<not> length d < 128" by linarith
    then show "log_init ok t (d @ ''/'' @ n) 0 bsize lines queue Log = None"
      by cases (use assms(5,8) cdn cd127 in \<open>simp_all add: log_init_def l cp cd Log_def\<close>)
  qed
qed

theorem log_init_correct_witness:
  "log_init True sample_time ''./app'' 0 2000 800000 0 Log \<noteq> None
   \<and> (\<exists>s. log_init True sample_time ''app'' 0 2000 800000 0 Log = Some (True, s) \<and> log_ready [] [] s)"
  using log_init_correct [of sample_time "''.''" "''app''" 2000 800000 0 True] by (auto simp: sample_time_def time_ok_def)

end
