(* ===== verification/Logger_Threads.thy ===== *)
theory Logger_Threads
  imports Logger_Props
begin

text \<open>
  Threads that log at the same time, and the thread that empties the queue.  A thread in
  \<open>write_log\<close> stands between two of its locked parts: it has counted its line, formatted it, or
  chosen the queue or the file; \<open>full\<close> and \<open>push\<close> are two operations of the queue.  The emptying
  thread stands before \<open>pop\<close> or holds the line it took.  Any order of steps may happen.
\<close>

datatype writer = Idle | Counted local_time int string | Line_made string | To_queue string | To_file string

record log_sys =
  sys_log :: logger
  sys_writers :: "writer list"
  sys_drain :: "string option"
  sys_made :: "string list"
  sys_lost :: "string list"

text \<open>
  The last two fields only record the lines that were formatted and the lines that \<open>push\<close> refused,
  whose result \<open>write_log\<close> does not look at.  \<^const>\<open>None\<close> is undefined behaviour; a step that is not
  possible changes nothing.  The flag of a call of \<open>write_log\<close> says whether \<open>fopen\<close> succeeds, should
  the line start a file: \<open>write_log\<close> does not look at its result, and a failure leaves the null
  pointer to whatever uses the file next.
\<close>

datatype log_event = Log_call nat bool local_time int string | Writer_step nat | Drain_step

fun writer_step :: "nat \<Rightarrow> log_sys \<Rightarrow> log_sys option" where
  "writer_step i s = (case sys_writers s ! i of
      Idle \<Rightarrow> Some s
    | Counted t l msg \<Rightarrow> do {
        (line, g) \<leftarrow> format_line l t msg (sys_log s);
        Some (s\<lparr>sys_log := g, sys_writers := (sys_writers s)[i := Line_made line], sys_made := sys_made s @ [line]\<rparr>) }
    | Line_made line \<Rightarrow> do {
        b \<leftarrow> goes_to_queue (sys_log s);
        Some (s\<lparr>sys_writers := (sys_writers s)[i := (if b then To_queue line else To_file line)]\<rparr>) }
    | To_queue line \<Rightarrow> do {
        (ok, g) \<leftarrow> queue_line line (sys_log s);
        Some (s\<lparr>sys_log := g, sys_writers := (sys_writers s)[i := Idle],
          sys_lost := (if ok then sys_lost s else sys_lost s @ [line])\<rparr>) }
    | To_file line \<Rightarrow> do {
        g \<leftarrow> file_line line (sys_log s);
        Some (s\<lparr>sys_log := g, sys_writers := (sys_writers s)[i := Idle]\<rparr>) })"

definition queue_waits :: "logger \<Rightarrow> bool" where
  "queue_waits g = (case m_log_queue g of None \<Rightarrow> True | Some q \<Rightarrow> bq_empty q)"

fun log_event_step :: "log_event \<Rightarrow> log_sys \<Rightarrow> log_sys option" where
  "log_event_step (Log_call i ok t l msg) s = (if i < length (sys_writers s) \<and> sys_writers s ! i = Idle then do {
       g \<leftarrow> count_line ok t (sys_log s);
       Some (s\<lparr>sys_log := g, sys_writers := (sys_writers s)[i := Counted t l msg]\<rparr>) }
     else Some s)"
| "log_event_step (Writer_step i) s = (if i < length (sys_writers s) then writer_step i s else Some s)"
| "log_event_step Drain_step s = (case sys_drain s of
       Some line \<Rightarrow> do { g \<leftarrow> file_line line (sys_log s); Some (s\<lparr>sys_log := g, sys_drain := None\<rparr>) }
     | None \<Rightarrow> if queue_waits (sys_log s) then Some s
         else do { (line, g) \<leftarrow> take_line (sys_log s); Some (s\<lparr>sys_log := g, sys_drain := Some line\<rparr>) })"

fun log_run :: "log_event list \<Rightarrow> log_sys \<Rightarrow> log_sys option" where
  "log_run [] s = Some s"
| "log_run (e # es) s = do { s \<leftarrow> log_event_step e s; log_run es s }"

text \<open>Where the lines are.\<close>

fun written :: "file_call list \<Rightarrow> string list" where
  "written [] = []"
| "written (Fputs _ line # cs) = written cs @ [line]"
| "written (_ # cs) = written cs"

fun pending :: "writer \<Rightarrow> string list" where
  "pending (Line_made line) = [line]"
| "pending (To_queue line) = [line]"
| "pending (To_file line) = [line]"
| "pending _ = []"

definition queued :: "logger \<Rightarrow> string list" where
  "queued g = (case m_log_queue g of None \<Rightarrow> [] | Some q \<Rightarrow> bq_items q)"

definition in_flight :: "log_sys \<Rightarrow> string multiset" where
  "in_flight s = (\<Sum>w \<leftarrow> sys_writers s. mset (pending w)) + mset (queued (sys_log s))
     + mset (case sys_drain s of None \<Rightarrow> [] | Some line \<Rightarrow> [line])"

definition log_sys_ok :: "string \<Rightarrow> string \<Rightarrow> log_sys \<Rightarrow> bool" where
  "log_sys_ok dir name s \<longleftrightarrow> log_ready dir name (sys_log s)
     \<and> (\<forall>q. m_log_queue (sys_log s) = Some q \<longrightarrow> bq_inv q) \<and> (m_is_async (sys_log s) \<longrightarrow> m_log_queue (sys_log s) \<noteq> None)
     \<and> (\<forall>t l msg. Counted t l msg \<in> set (sys_writers s) \<longrightarrow> fits t l msg (m_log_buf_size (sys_log s)))
     \<and> (\<forall>line. To_queue line \<in> set (sys_writers s) \<longrightarrow> m_log_queue (sys_log s) \<noteq> None)
     \<and> mset (sys_made s) = mset (written (file_calls (sys_log s))) + in_flight s + mset (sys_lost s)"

text \<open>With one thread that logs, a queue it found not full has room for its line.\<close>

definition one_writer_ok :: "log_sys \<Rightarrow> bool" where
  "one_writer_ok s \<longleftrightarrow> length (sys_writers s) = 1 \<and> sys_lost s = []
     \<and> (\<forall>line q. sys_writers s = [To_queue line] \<longrightarrow> m_log_queue (sys_log s) = Some q \<longrightarrow> \<not> bq_full q)"

lemma writers_update:
  assumes "i < length ws"
  shows "(\<Sum>w \<leftarrow> ws[i := v]. mset (pending w)) + mset (pending (ws ! i)) = (\<Sum>w \<leftarrow> ws. mset (pending w)) + mset (pending v)"
  using assms by (induction ws arbitrary: i) (auto split: nat.splits simp: ac_simps nth_Cons')

lemma writers_update_same:
  assumes "i < length ws" "pending v = pending (ws ! i)"
  shows "(\<Sum>w \<leftarrow> ws[i := v]. mset (pending w)) = (\<Sum>w \<leftarrow> ws. mset (pending w))"
  using writers_update [OF assms(1), of v] assms(2) by simp

subsection \<open>The steps\<close>

text \<open>What all parts of \<open>write_log\<close> leave alone.\<close>

definition same_queue :: "logger \<Rightarrow> logger \<Rightarrow> bool" where
  "same_queue s g \<longleftrightarrow> m_log_queue g = m_log_queue s \<and> m_is_async g = m_is_async s \<and> m_log_buf_size g = m_log_buf_size s"

lemma count_line_run:
  assumes "log_ready dir name s" "time_ok t" "m_count s + 1 < 2 ^ 63"
  shows "\<exists>g. count_line True t s = Some g \<and> log_ready dir name g \<and> m_count g \<le> m_count s + 1
    \<and> written (file_calls g) = written (file_calls s) \<and> same_queue s g"
proof -
  let ?s1 = "s\<lparr>m_count := m_count s + 1\<rparr>"
  have r: "log_ready dir name ?s1" "0 < m_split_lines s" "0 \<le> m_count s" using assms(1) by (auto simp: log_ready_def)
  obtain p where p: "m_fp s = Some p" using assms(1) by (auto simp: log_ready_def)
  have a: "add_ll (m_count s) 1 = Some (m_count s + 1)" using r assms(3) by (simp add: add_ll_def)
  show ?thesis
    using r rotate_file_run [OF r(1) assms(2), of p True] p
    by (auto simp: count_line_def a must_rotate_def Let_def log_open_def log_ready_def same_queue_def)
qed

lemma format_line_run:
  assumes "log_ready dir name s" "fits t l msg (m_log_buf_size s)"
  shows "\<exists>g. format_line l t msg s = Some (log_line l t msg, g) \<and> log_ready dir name g \<and> m_count g = m_count s
    \<and> file_calls g = file_calls s \<and> same_queue s g"
  using format_line_fits [OF assms(2)] assms(1) by (fastforce simp: log_ready_def same_queue_def)

lemma file_line_run:
  assumes "log_ready dir name s"
  shows "\<exists>g. file_line line s = Some g \<and> log_ready dir name g \<and> m_count g = m_count s
    \<and> written (file_calls g) = written (file_calls s) @ [line] \<and> same_queue s g"
  using assms by (auto simp: log_ready_def file_line_def same_queue_def)

lemma queue_line_run:
  assumes "m_log_queue s = Some q" "bq_inv q"
  shows "\<exists>q'. bq_inv q' \<and> m_max_size q' = m_max_size q \<and> bq_items q' = (if bq_full q then bq_items q else bq_items q @ [line])
    \<and> queue_line line s = Some (\<not> bq_full q, s\<lparr>m_log_queue := Some q'\<rparr>)"
proof (cases "bq_full q")
  case True
  then show ?thesis using assms by (auto simp: queue_line_def bq_push_def bq_full_def)
next
  case False
  then obtain q' where "bq_push line q = Some (True, q')" "bq_inv q'" "m_max_size q' = m_max_size q" "bq_items q' = bq_items q @ [line]"
    using bq_push_room [OF assms(2), of line] by (auto simp: bq_full_def)
  then show ?thesis using assms False by (auto simp: queue_line_def)
qed

lemma take_line_run:
  assumes "m_log_queue s = Some q" "bq_inv q" "\<not> bq_empty q"
  shows "\<exists>q' line. bq_inv q' \<and> bq_items q = line # bq_items q' \<and> (\<not> bq_full q \<longrightarrow> \<not> bq_full q')
    \<and> take_line s = Some (line, s\<lparr>m_log_queue := Some q'\<rparr>)"
proof -
  have n: "0 < m_size q" using assms(2,3) by (simp add: bq_empty_def bq_inv_def)
  obtain q' where q': "bq_pop_item q = Some (hd (bq_items q), q')" "bq_inv q'" "m_max_size q' = m_max_size q" "bq_items q' = tl (bq_items q)"
    using bq_pop_item_run [OF assms(2) n] by blast
  have ne: "bq_items q \<noteq> []" using n by (simp add: bq_items_Nil)
  have "m_size q' = m_size q - 1" using q'(1) by (auto simp: bq_pop_item_def bind_eq_Some_conv Let_def)
  then have "\<not> bq_full q \<longrightarrow> \<not> bq_full q'" using q'(3) by (simp add: bq_full_def)
  then show ?thesis using assms q' ne by (intro exI [of _ q'] exI [of _ "hd (bq_items q)"]) (simp add: take_line_def)
qed

text \<open>The message of a call fits into the buffer, and \<open>fopen\<close> succeeds.\<close>

fun event_fits :: "int \<Rightarrow> log_event \<Rightarrow> bool" where
  "event_fits n (Log_call i ok t l msg) = (ok \<and> fits t l msg n)"
| "event_fits n _ = True"

text \<open>The result of a step: no undefined behaviour, and the invariants hold again.\<close>

definition good_step :: "string \<Rightarrow> string \<Rightarrow> log_sys \<Rightarrow> log_sys option \<Rightarrow> bool" where
  "good_step dir name s r \<longleftrightarrow> (\<exists>s'. r = Some s' \<and> log_sys_ok dir name s' \<and> (one_writer_ok s \<longrightarrow> one_writer_ok s')
     \<and> m_log_buf_size (sys_log s') = m_log_buf_size (sys_log s) \<and> m_count (sys_log s') \<le> m_count (sys_log s) + 1)"

lemma good_stepI:
  "r = Some s' \<Longrightarrow> log_sys_ok dir name s' \<Longrightarrow> (one_writer_ok s \<Longrightarrow> one_writer_ok s') \<Longrightarrow>
   m_log_buf_size (sys_log s') = m_log_buf_size (sys_log s) \<Longrightarrow> m_count (sys_log s') \<le> m_count (sys_log s) + 1 \<Longrightarrow>
   good_step dir name s r"
  by (auto simp: good_step_def)

lemma good_step_idle: "log_sys_ok dir name s \<Longrightarrow> good_step dir name s (Some s)"
  by (rule good_stepI) auto

lemma set_update_cases: "x \<in> set (xs[i := v]) \<Longrightarrow> x = v \<or> x \<in> set xs"
  using set_update_subset_insert [of xs i v] by auto

lemma log_call_good:
  assumes ok: "log_sys_ok dir name s" and fit: "fits t l msg (m_log_buf_size (sys_log s))" and c: "m_count (sys_log s) + 1 < 2 ^ 63"
  shows "good_step dir name s (log_event_step (Log_call i True t l msg) s)"
proof (cases "i < length (sys_writers s) \<and> sys_writers s ! i = Idle")
  case True
  have r: "log_ready dir name (sys_log s)" "time_ok t" using ok fit by (simp_all add: log_sys_ok_def fits_def)
  obtain g where g: "count_line True t (sys_log s) = Some g" "log_ready dir name g" "m_count g \<le> m_count (sys_log s) + 1"
    "written (file_calls g) = written (file_calls (sys_log s))" "same_queue (sys_log s) g"
    using count_line_run [OF r c] by blast
  let ?ws = "(sys_writers s)[i := Counted t l msg]"
  have p: "(\<Sum>w \<leftarrow> ?ws. mset (pending w)) = (\<Sum>w \<leftarrow> sys_writers s. mset (pending w))"
    using True by (intro writers_update_same) auto
  show ?thesis
  proof (rule good_stepI)
    show "log_event_step (Log_call i True t l msg) s = Some (s\<lparr>sys_log := g, sys_writers := ?ws\<rparr>)" using True g(1) by simp
    show "log_sys_ok dir name (s\<lparr>sys_log := g, sys_writers := ?ws\<rparr>)"
      using ok g(2,4,5) fit p by (auto simp: log_sys_ok_def in_flight_def queued_def same_queue_def dest!: set_update_cases)
    show "one_writer_ok s \<Longrightarrow> one_writer_ok (s\<lparr>sys_log := g, sys_writers := ?ws\<rparr>)"
      using True by (auto simp: one_writer_ok_def length_Suc_conv)
  qed (use g(3,5) in \<open>auto simp: same_queue_def\<close>)
qed (use ok in \<open>auto simp: good_step_idle\<close>)

lemma drain_good:
  assumes ok: "log_sys_ok dir name s"
  shows "good_step dir name s (log_event_step Drain_step s)"
proof (cases "sys_drain s")
  case (Some line)
  have r: "log_ready dir name (sys_log s)" using ok by (simp add: log_sys_ok_def)
  obtain g where g: "file_line line (sys_log s) = Some g" "log_ready dir name g" "m_count g = m_count (sys_log s)"
    "written (file_calls g) = written (file_calls (sys_log s)) @ [line]" "same_queue (sys_log s) g"
    using file_line_run [OF r, of line] by blast
  show ?thesis
  proof (rule good_stepI)
    show "log_event_step Drain_step s = Some (s\<lparr>sys_log := g, sys_drain := None\<rparr>)" using Some g(1) by simp
    show "log_sys_ok dir name (s\<lparr>sys_log := g, sys_drain := None\<rparr>)"
      using ok g(2,4,5) Some by (auto simp: log_sys_ok_def in_flight_def queued_def same_queue_def)
    show "one_writer_ok s \<Longrightarrow> one_writer_ok (s\<lparr>sys_log := g, sys_drain := None\<rparr>)"
      using g(5) by (auto simp: one_writer_ok_def same_queue_def)
  qed (use g(3,5) in \<open>auto simp: same_queue_def\<close>)
next
  case None
  show ?thesis
  proof (cases "queue_waits (sys_log s)")
    case False
    then obtain q where q: "m_log_queue (sys_log s) = Some q" "\<not> bq_empty q" by (auto simp: queue_waits_def split: option.splits)
    have inv: "bq_inv q" using ok q by (simp add: log_sys_ok_def)
    obtain q' line where t: "bq_inv q'" "bq_items q = line # bq_items q'" "\<not> bq_full q \<longrightarrow> \<not> bq_full q'"
      "take_line (sys_log s) = Some (line, sys_log s\<lparr>m_log_queue := Some q'\<rparr>)"
      using take_line_run [OF q(1) inv q(2)] by blast
    let ?s = "s\<lparr>sys_log := sys_log s\<lparr>m_log_queue := Some q'\<rparr>, sys_drain := Some line\<rparr>"
    show ?thesis
    proof (rule good_stepI)
      show "log_event_step Drain_step s = Some ?s" using None False t(4) by simp
      show "log_sys_ok dir name ?s"
        using ok t(1,2) None q by (auto simp: log_sys_ok_def in_flight_def queued_def log_ready_def)
      show "one_writer_ok s \<Longrightarrow> one_writer_ok ?s" using t(3) q(1) by (auto simp: one_writer_ok_def)
    qed auto
  qed (use None ok in \<open>simp add: good_step_idle\<close>)
qed

lemma writer_step_good:
  assumes ok: "log_sys_ok dir name s" and i: "i < length (sys_writers s)"
  shows "good_step dir name s (writer_step i s)"
proof -
  have m: "w = sys_writers s ! i \<Longrightarrow> w \<in> set (sys_writers s)" for w using i by simp
  have upd: "(\<Sum>w \<leftarrow> (sys_writers s)[i := v]. mset (pending w)) + mset (pending (sys_writers s ! i))
      = (\<Sum>w \<leftarrow> sys_writers s. mset (pending w)) + mset (pending v)" for v
    using i by (rule writers_update)
  have r: "log_ready dir name (sys_log s)" using ok by (simp add: log_sys_ok_def)
  show ?thesis
  proof (cases "sys_writers s ! i")
    case Idle
    then show ?thesis using ok by (simp add: good_step_idle)
  next
    case w: (Counted t l msg)
    have "fits t l msg (m_log_buf_size (sys_log s))" using ok m [of "Counted t l msg"] w by (auto simp: log_sys_ok_def)
    then obtain g where g: "format_line l t msg (sys_log s) = Some (log_line l t msg, g)" "log_ready dir name g"
      "m_count g = m_count (sys_log s)" "file_calls g = file_calls (sys_log s)" "same_queue (sys_log s) g"
      using format_line_run [OF r] by blast
    let ?x = "log_line l t msg"
    let ?s = "s\<lparr>sys_log := g, sys_writers := (sys_writers s)[i := Line_made ?x], sys_made := sys_made s @ [?x]\<rparr>"
    show ?thesis
    proof (rule good_stepI)
      show "writer_step i s = Some ?s" using w g(1) by simp
      show "log_sys_ok dir name ?s"
        using ok g(2,4,5) upd [of "Line_made ?x"] w
        by (auto simp: log_sys_ok_def in_flight_def queued_def same_queue_def dest!: set_update_cases)
      show "one_writer_ok s \<Longrightarrow> one_writer_ok ?s" using i by (auto simp: one_writer_ok_def length_Suc_conv)
    qed (use g(3,5) in \<open>auto simp: same_queue_def\<close>)
  next
    case w: (Line_made line)
    obtain b where b: "goes_to_queue (sys_log s) = Some b"
      "b \<Longrightarrow> \<exists>q. m_log_queue (sys_log s) = Some q \<and> \<not> bq_full q"
      using ok by (cases "m_is_async (sys_log s)") (auto simp: goes_to_queue_def log_sys_ok_def)
    let ?s = "s\<lparr>sys_writers := (sys_writers s)[i := (if b then To_queue line else To_file line)]\<rparr>"
    show ?thesis
    proof (rule good_stepI)
      show "writer_step i s = Some ?s" using w b(1) by simp
      show "log_sys_ok dir name ?s"
        using ok b(2) upd [of "if b then To_queue line else To_file line"] w
        by (auto simp: log_sys_ok_def in_flight_def queued_def dest!: set_update_cases split: if_splits)
      show "one_writer_ok s \<Longrightarrow> one_writer_ok ?s"
        using i b(2) by (auto simp: one_writer_ok_def length_Suc_conv split: if_splits)
    qed auto
  next
    case w: (To_queue line)
    then obtain q where q: "m_log_queue (sys_log s) = Some q" "bq_inv q"
      using ok m [of "To_queue line"] by (fastforce simp: log_sys_ok_def)
    obtain q' where q': "bq_inv q'" "bq_items q' = (if bq_full q then bq_items q else bq_items q @ [line])"
      "queue_line line (sys_log s) = Some (\<not> bq_full q, sys_log s\<lparr>m_log_queue := Some q'\<rparr>)"
      using queue_line_run [OF q, of line] by blast
    let ?s = "s\<lparr>sys_log := sys_log s\<lparr>m_log_queue := Some q'\<rparr>, sys_writers := (sys_writers s)[i := Idle],
      sys_lost := (if bq_full q then sys_lost s @ [line] else sys_lost s)\<rparr>"
    show ?thesis
    proof (rule good_stepI)
      show "writer_step i s = Some ?s" using w q'(3) by simp
      show "log_sys_ok dir name ?s"
        using ok q q'(1,2) upd [of Idle] w
        by (auto simp: log_sys_ok_def in_flight_def queued_def log_ready_def dest!: set_update_cases)
      show "one_writer_ok s \<Longrightarrow> one_writer_ok ?s"
        using i w q(1) by (auto simp: one_writer_ok_def length_Suc_conv)
    qed auto
  next
    case w: (To_file line)
    obtain g where g: "file_line line (sys_log s) = Some g" "log_ready dir name g" "m_count g = m_count (sys_log s)"
      "written (file_calls g) = written (file_calls (sys_log s)) @ [line]" "same_queue (sys_log s) g"
      using file_line_run [OF r, of line] by blast
    let ?s = "s\<lparr>sys_log := g, sys_writers := (sys_writers s)[i := Idle]\<rparr>"
    show ?thesis
    proof (rule good_stepI)
      show "writer_step i s = Some ?s" using w g(1) by simp
      show "log_sys_ok dir name ?s"
        using ok g(2,4,5) upd [of Idle] w
        by (auto simp: log_sys_ok_def in_flight_def queued_def same_queue_def dest!: set_update_cases)
      show "one_writer_ok s \<Longrightarrow> one_writer_ok ?s" using i by (auto simp: one_writer_ok_def length_Suc_conv)
    qed (use g(3,5) in \<open>auto simp: same_queue_def\<close>)
  qed
qed

lemma log_event_good:
  assumes "log_sys_ok dir name s" "event_fits (m_log_buf_size (sys_log s)) e" "m_count (sys_log s) + 1 < 2 ^ 63"
  shows "good_step dir name s (log_event_step e s)"
proof (cases e)
  case (Log_call i ok t l msg)
  then show ?thesis using log_call_good assms by simp
next
  case (Writer_step i)
  then show ?thesis using writer_step_good [OF assms(1)] good_step_idle [OF assms(1)] by simp
next
  case Drain_step
  then show ?thesis using drain_good [OF assms(1)] by simp
qed

lemma log_run_good:
  assumes "log_sys_ok dir name s" "\<forall>e \<in> set es. event_fits (m_log_buf_size (sys_log s)) e"
    and "m_count (sys_log s) + int (length es) < 2 ^ 63"
  shows "\<exists>s'. log_run es s = Some s' \<and> log_sys_ok dir name s' \<and> (one_writer_ok s \<longrightarrow> one_writer_ok s')"
  using assms
proof (induction es arbitrary: s)
  case (Cons e es)
  have "good_step dir name s (log_event_step e s)" using log_event_good [OF Cons.prems(1)] Cons.prems(2,3) by simp
  then obtain s1 where 1: "log_event_step e s = Some s1" "log_sys_ok dir name s1" "one_writer_ok s \<longrightarrow> one_writer_ok s1"
    "m_log_buf_size (sys_log s1) = m_log_buf_size (sys_log s)" "m_count (sys_log s1) \<le> m_count (sys_log s) + 1"
    by (auto simp: good_step_def)
  then show ?case using Cons.IH [OF 1(2)] Cons.prems(2,3) by auto
qed simp

subsection \<open>The properties\<close>

definition log_start :: "logger \<Rightarrow> nat \<Rightarrow> log_sys" where
  "log_start g n = \<lparr>sys_log = g, sys_writers = replicate n Idle, sys_drain = None, sys_made = [], sys_lost = []\<rparr>"

definition fresh_queue :: "logger \<Rightarrow> bool" where
  "fresh_queue g \<longleftrightarrow> written (file_calls g) = [] \<and> (m_is_async g \<longrightarrow> m_log_queue g \<noteq> None)
     \<and> (\<forall>q. m_log_queue g = Some q \<longrightarrow> bq_inv q \<and> bq_items q = [])"

lemma log_start_ok:
  assumes "log_ready dir name g" "fresh_queue g"
  shows "log_sys_ok dir name (log_start g n)" "one_writer_ok (log_start g 1)"
proof -
  have z: "sum_list (replicate n {#}) = ({#} :: string multiset)" by (induction n) auto
  have q: "queued g = []" using assms(2) by (cases "m_log_queue g") (simp_all add: queued_def fresh_queue_def)
  have f: "in_flight (log_start g n) = {#}" by (simp add: in_flight_def log_start_def q z)
  have w: "v \<notin> set (sys_writers (log_start g n))" if "v \<noteq> Idle" for v using that by (simp add: log_start_def)
  have g: "sys_log (log_start g n) = g" "sys_made (log_start g n) = []" "sys_lost (log_start g n) = []" by (simp_all add: log_start_def)
  show "log_sys_ok dir name (log_start g n)"
    unfolding log_sys_ok_def f g using assms w by (simp add: fresh_queue_def)
  show "one_writer_ok (log_start g 1)" by (simp add: one_writer_ok_def log_start_def)
qed

subsection \<open>Accounting\<close>

text \<open>
  The account of the lines, and that of a single thread, are kept by every step that is defined, also
  after a file could not be opened.
\<close>

definition accounted :: "log_sys \<Rightarrow> bool" where
  "accounted s \<longleftrightarrow> (\<forall>q. m_log_queue (sys_log s) = Some q \<longrightarrow> bq_inv q)
     \<and> mset (sys_made s) = mset (written (file_calls (sys_log s))) + in_flight s + mset (sys_lost s)"

definition keeps :: "logger \<Rightarrow> logger \<Rightarrow> bool" where
  "keeps g g' \<longleftrightarrow> m_log_queue g' = m_log_queue g \<and> written (file_calls g') = written (file_calls g)"

lemma keeps_open: "keeps g (log_open ok path s) \<longleftrightarrow> keeps g s"
  by (simp add: keeps_def log_open_def)

lemma rotate_keeps: "rotate_file ok t g = Some g' \<Longrightarrow> keeps g g'"
proof -
  assume "rotate_file ok t g = Some g'"
  then obtain h where "log_fclose (log_flush g) = Some h"
    and "\<exists>path. g' = log_open ok path (h\<lparr>m_today := tm_mday t, m_count := 0\<rparr>) \<or> g' = log_open ok path h"
    unfolding rotate_file_def bind_eq_Some_conv by (auto split: if_splits simp: bind_eq_Some_conv)
  moreover have "keeps g h" using \<open>log_fclose (log_flush g) = Some h\<close>
    by (auto simp: log_fclose_def log_flush_def keeps_def bind_eq_Some_conv)
  ultimately show ?thesis by (auto simp: keeps_open) (simp add: keeps_def)
qed

lemma count_line_keeps:
  assumes "count_line ok t g = Some g'"
  shows "keeps g g'"
proof -
  obtain n r where "must_rotate t (g\<lparr>m_count := n\<rparr>) = Some r"
    "(if r then rotate_file ok t (g\<lparr>m_count := n\<rparr>) else Some (g\<lparr>m_count := n\<rparr>)) = Some g'"
    using assms unfolding count_line_def Let_def bind_eq_Some_conv by blast
  then have "keeps (g\<lparr>m_count := n\<rparr>) g'" using rotate_keeps by (cases r) (auto simp: keeps_def)
  then show ?thesis by (simp add: keeps_def)
qed

lemma format_line_keeps: "format_line l t msg g = Some (line, g') \<Longrightarrow> keeps g g'"
  by (auto simp: format_line_def keeps_def bind_eq_Some_conv)

lemma file_line_keeps: "file_line line g = Some g' \<Longrightarrow>
    m_log_queue g' = m_log_queue g \<and> written (file_calls g') = written (file_calls g) @ [line]"
  by (auto simp: file_line_def bind_eq_Some_conv)

lemma writer_step_accounted:
  assumes "writer_step i s = Some s'" "accounted s" and i: "i < length (sys_writers s)"
  shows "accounted s' \<and> (one_writer_ok s \<longrightarrow> one_writer_ok s')"
proof -
  have upd: "(\<Sum>w \<leftarrow> (sys_writers s)[i := v]. mset (pending w)) + mset (pending (sys_writers s ! i))
      = (\<Sum>w \<leftarrow> sys_writers s. mset (pending w)) + mset (pending v)" for v
    using i by (rule writers_update)
  show ?thesis
  proof (cases "sys_writers s ! i")
    case Idle
    then show ?thesis using assms by simp
  next
    case w: (Counted t l msg)
    then obtain line g where g: "format_line l t msg (sys_log s) = Some (line, g)"
      "s' = s\<lparr>sys_log := g, sys_writers := (sys_writers s)[i := Line_made line], sys_made := sys_made s @ [line]\<rparr>"
      using assms(1) by (auto simp: bind_eq_Some_conv)
    have "accounted s'" using assms(2) format_line_keeps [OF g(1)] upd [of "Line_made line"] w
      by (auto simp: g(2) accounted_def in_flight_def queued_def keeps_def)
    moreover have "one_writer_ok s \<longrightarrow> one_writer_ok s'" using i by (auto simp: g(2) one_writer_ok_def length_Suc_conv)
    ultimately show ?thesis by blast
  next
    case w: (Line_made line)
    then obtain b where b: "goes_to_queue (sys_log s) = Some b"
      "s' = s\<lparr>sys_writers := (sys_writers s)[i := (if b then To_queue line else To_file line)]\<rparr>"
      using assms(1) by (auto simp: bind_eq_Some_conv)
    have "accounted s'" using assms(2) upd [of "if b then To_queue line else To_file line"] w
      by (auto simp: b(2) accounted_def in_flight_def queued_def split: if_splits)
    moreover have "b \<longrightarrow> (\<forall>q. m_log_queue (sys_log s) = Some q \<longrightarrow> \<not> bq_full q)"
      using b(1) by (auto simp: goes_to_queue_def bind_eq_Some_conv split: if_splits)
    then have "one_writer_ok s \<longrightarrow> one_writer_ok s'"
      using i by (auto simp: b(2) one_writer_ok_def length_Suc_conv split: if_splits)
    ultimately show ?thesis by blast
  next
    case w: (To_queue line)
    then obtain q where q: "m_log_queue (sys_log s) = Some q"
      using assms(1) by (auto simp: queue_line_def bind_eq_Some_conv)
    have inv: "bq_inv q" using assms(2) q by (simp add: accounted_def)
    obtain q' where q': "bq_inv q'" "bq_items q' = (if bq_full q then bq_items q else bq_items q @ [line])"
      "queue_line line (sys_log s) = Some (\<not> bq_full q, sys_log s\<lparr>m_log_queue := Some q'\<rparr>)"
      using queue_line_run [OF q inv, of line] by blast
    have s': "s' = s\<lparr>sys_log := sys_log s\<lparr>m_log_queue := Some q'\<rparr>, sys_writers := (sys_writers s)[i := Idle],
      sys_lost := (if bq_full q then sys_lost s @ [line] else sys_lost s)\<rparr>"
      using assms(1) w q'(3) by (cases "bq_full q") auto
    have "accounted s'" using assms(2) q q'(1,2) upd [of Idle] w
      by (auto simp: s' accounted_def in_flight_def queued_def)
    moreover have "one_writer_ok s \<longrightarrow> one_writer_ok s'" using i w q by (auto simp: s' one_writer_ok_def length_Suc_conv)
    ultimately show ?thesis by blast
  next
    case w: (To_file line)
    then obtain g where g: "file_line line (sys_log s) = Some g" "s' = s\<lparr>sys_log := g, sys_writers := (sys_writers s)[i := Idle]\<rparr>"
      using assms(1) by (auto simp: bind_eq_Some_conv)
    have "accounted s'" using assms(2) file_line_keeps [OF g(1)] upd [of Idle] w
      by (auto simp: g(2) accounted_def in_flight_def queued_def)
    moreover have "one_writer_ok s \<longrightarrow> one_writer_ok s'" using i by (auto simp: g(2) one_writer_ok_def length_Suc_conv)
    ultimately show ?thesis by blast
  qed
qed

lemma log_event_accounted:
  assumes "log_event_step e s = Some s'" "accounted s"
  shows "accounted s' \<and> (one_writer_ok s \<longrightarrow> one_writer_ok s')"
proof (cases e)
  case (Writer_step i)
  then show ?thesis using assms writer_step_accounted [of i s s'] by (auto split: if_splits)
next
  case (Log_call i ok t l msg)
  show ?thesis
  proof (cases "i < length (sys_writers s) \<and> sys_writers s ! i = Idle")
    case True
    then obtain g where g: "count_line ok t (sys_log s) = Some g"
      "s' = s\<lparr>sys_log := g, sys_writers := (sys_writers s)[i := Counted t l msg]\<rparr>"
      using assms(1) Log_call by (auto simp: bind_eq_Some_conv)
    have p: "(\<Sum>w \<leftarrow> (sys_writers s)[i := Counted t l msg]. mset (pending w)) = (\<Sum>w \<leftarrow> sys_writers s. mset (pending w))"
      using True by (intro writers_update_same) auto
    have "accounted s'" using assms(2) count_line_keeps [OF g(1)] p
      by (auto simp: g(2) accounted_def in_flight_def queued_def keeps_def)
    moreover have "one_writer_ok s \<longrightarrow> one_writer_ok s'" using True by (auto simp: g(2) one_writer_ok_def length_Suc_conv)
    ultimately show ?thesis by blast
  qed (use assms Log_call in auto)
next
  case Drain_step
  show ?thesis
  proof (cases "sys_drain s")
    case (Some line)
    then obtain g where g: "file_line line (sys_log s) = Some g" "s' = s\<lparr>sys_log := g, sys_drain := None\<rparr>"
      using assms(1) Drain_step by (auto simp: bind_eq_Some_conv)
    have "accounted s'" using assms(2) file_line_keeps [OF g(1)] Some
      by (auto simp: g(2) accounted_def in_flight_def queued_def)
    moreover have "one_writer_ok s \<longrightarrow> one_writer_ok s'" using file_line_keeps [OF g(1)] by (auto simp: g(2) one_writer_ok_def)
    ultimately show ?thesis by blast
  next
    case None
    show ?thesis
    proof (cases "queue_waits (sys_log s)")
      case False
      then obtain q where q: "m_log_queue (sys_log s) = Some q" "\<not> bq_empty q" by (auto simp: queue_waits_def split: option.splits)
      have inv: "bq_inv q" using assms(2) q by (simp add: accounted_def)
      obtain q' line where t: "bq_inv q'" "bq_items q = line # bq_items q'" "\<not> bq_full q \<longrightarrow> \<not> bq_full q'"
        "take_line (sys_log s) = Some (line, sys_log s\<lparr>m_log_queue := Some q'\<rparr>)"
        using take_line_run [OF q(1) inv q(2)] by blast
      have s': "s' = s\<lparr>sys_log := sys_log s\<lparr>m_log_queue := Some q'\<rparr>, sys_drain := Some line\<rparr>"
        using assms(1) Drain_step None False t(4) by simp
      have "accounted s'" using assms(2) t(1,2) None q by (auto simp: s' accounted_def in_flight_def queued_def)
      moreover have "one_writer_ok s \<longrightarrow> one_writer_ok s'" using t(3) q(1) by (auto simp: s' one_writer_ok_def)
      ultimately show ?thesis by blast
    qed (use assms Drain_step None in simp)
  qed
qed

lemma log_run_accounted: "log_run es s = Some s' \<Longrightarrow> accounted s \<Longrightarrow> accounted s' \<and> (one_writer_ok s \<longrightarrow> one_writer_ok s')"
proof (induction es arbitrary: s)
  case (Cons e es)
  then obtain s1 where "log_event_step e s = Some s1" "log_run es s1 = Some s'" by (auto simp: bind_eq_Some_conv)
  then show ?case using log_event_accounted Cons.IH Cons.prems(2) by blast
qed simp


definition queue_log :: "int \<Rightarrow> logger" where
  "queue_log n = sample_log\<lparr>m_is_async := True, m_log_queue := bq_new n (\<lambda>_. [])\<rparr>"

lemma queue_log_ok: "0 < n \<Longrightarrow> log_ready ''./'' ''a'' (queue_log n) \<and> fresh_queue (queue_log n)"
  using bq_new_inv [of n "\<lambda>_. []"] sample_log_ready
  by (auto simp: queue_log_def fresh_queue_def log_ready_def sample_log_def Log_def)


text \<open>When no thread logs any more, the emptying thread writes the queued lines in their order.\<close>

theorem log_drains:
  assumes "log_ready dir name (sys_log s)" "m_log_queue (sys_log s) = Some q" "bq_inv q" "sys_drain s = None"
  shows "\<exists>s'. log_run (replicate (2 * length (bq_items q)) Drain_step) s = Some s'
    \<and> written (file_calls (sys_log s')) = written (file_calls (sys_log s)) @ bq_items q \<and> queued (sys_log s') = []"
  using assms
proof (induction "length (bq_items q)" arbitrary: s q)
  case 0
  then show ?case by (simp add: queued_def bq_items_Nil)
next
  case (Suc k)
  have ne: "\<not> bq_empty q" using Suc.hyps(2) bq_items_Nil [of q] by (auto simp: bq_empty_def)
  obtain q' line where t: "bq_inv q'" "bq_items q = line # bq_items q'"
    "take_line (sys_log s) = Some (line, sys_log s\<lparr>m_log_queue := Some q'\<rparr>)"
    using take_line_run [OF Suc.prems(2,3) ne] by blast
  let ?g = "sys_log s\<lparr>m_log_queue := Some q'\<rparr>"
  have r: "log_ready dir name ?g" using Suc.prems(1) by (simp add: log_ready_def)
  obtain g where g: "file_line line ?g = Some g" "log_ready dir name g"
    "written (file_calls g) = written (file_calls (sys_log s)) @ [line]" "m_log_queue g = Some q'"
    using file_line_run [OF r, of line] by (auto simp: same_queue_def)
  let ?s = "s\<lparr>sys_log := g, sys_drain := None\<rparr>"
  have n: "\<not> queue_waits (sys_log s)" using ne Suc.prems(2) by (simp add: queue_waits_def)
  have "log_event_step Drain_step s \<bind> log_event_step Drain_step = Some ?s"
    using n t(3) g(1) Suc.prems(4) by simp
  then have 2: "log_run (Drain_step # Drain_step # es) s = log_run es ?s" for es
    by (cases "log_event_step Drain_step s") auto
  have k: "k = length (bq_items q')" using Suc.hyps(2) t(2) by simp
  show ?case using Suc.hyps(1) [OF k, of ?s] g t(1,2) 2 by auto
qed

theorem log_drains_witness: "\<exists>s'. log_run [] (log_start (queue_log 3) 1) = Some s' \<and> queued (sys_log s') = []"
proof -
  obtain q where q: "bq_new 3 (\<lambda>_. []::string) = Some q" "bq_inv q" "bq_items q = []" using bq_new_inv [of 3 "\<lambda>_. []"] by auto
  show ?thesis
    using log_drains [of "''./''" "''a''" "log_start (queue_log 3) 1" q] queue_log_ok [of 3] q
    by (simp add: log_start_def queue_log_def)
qed

text \<open>C33: Two ways in which the queue loses the order or a line.  When it is full, \<open>write_log\<close> puts its
  line into the file at once, before the lines that still wait in the queue.  When two threads both
  find the last place of the queue free, the second \<open>push\<close> is refused and the line of its thread is
  written nowhere.\<close>

theorem log_queue_hazards:
  assumes ready: "log_ready dir name s" and async: "m_is_async s" "m_log_queue s = Some q" "bq_inv q"
    and fit: "fits t l a (m_log_buf_size s)" "fits t l b (m_log_buf_size s)" and cnt: "m_count s + 2 < 2 ^ 63"
  shows "(bq_full q \<longrightarrow> (\<exists>s'. write_log True t l a s = Some s'
        \<and> written (file_calls s') = written (file_calls s) @ [log_line l t a] \<and> queued s' = bq_items q))
    \<and> (int (length (bq_items q)) + 1 = m_max_size q \<longrightarrow>
        (\<exists>s'. log_run [Log_call 0 True t l a, Log_call 1 True t l b, Writer_step 0, Writer_step 1, Writer_step 0, Writer_step 1,
            Writer_step 0, Writer_step 1] (log_start s 2) = Some s'
          \<and> queued (sys_log s') = bq_items q @ [log_line l t a] \<and> sys_writers s' = [Idle, Idle]
          \<and> written (file_calls (sys_log s')) = written (file_calls s) \<and> sys_lost s' = [log_line l t b]))"
proof (intro conjI impI)
  have t: "time_ok t" using fit(1) by (simp add: fits_def)
  obtain s1 where 1: "count_line True t s = Some s1" "log_ready dir name s1" "m_count s1 \<le> m_count s + 1"
    "written (file_calls s1) = written (file_calls s)" "same_queue s s1"
    using count_line_run [OF ready t] cnt by auto
  note sq1 = 1(5) [unfolded same_queue_def]
  {
    assume full: "bq_full q"
    obtain s2 where 2: "format_line l t a s1 = Some (log_line l t a, s2)" "log_ready dir name s2"
      "file_calls s2 = file_calls s1" "same_queue s1 s2"
      using format_line_run [OF 1(2), of t l a] fit(1) sq1 by auto
    obtain s3 where 3: "file_line (log_line l t a) s2 = Some s3"
      "written (file_calls s3) = written (file_calls s2) @ [log_line l t a]" "same_queue s2 s3"
      using file_line_run [OF 2(2)] by blast
    have "goes_to_queue s2 = Some False" using full async sq1 2(4) by (simp add: goes_to_queue_def same_queue_def)
    then have "write_log True t l a s = Some s3" using 1(1) 2(1) 3(1) by (simp add: write_log_def)
    then show "\<exists>s'. write_log True t l a s = Some s' \<and> written (file_calls s') = written (file_calls s) @ [log_line l t a]
        \<and> queued s' = bq_items q"
      using 1(4) 2(3,4) 3(2,3) sq1 async by (auto simp: queued_def same_queue_def)
  next
    assume last: "int (length (bq_items q)) + 1 = m_max_size q"
    obtain s2 where 2: "count_line True t s1 = Some s2" "log_ready dir name s2"
      "written (file_calls s2) = written (file_calls s1)" "same_queue s1 s2"
      using count_line_run [OF 1(2) t] 1(3) cnt by auto
    obtain s3 where 3: "format_line l t a s2 = Some (log_line l t a, s3)" "log_ready dir name s3"
      "file_calls s3 = file_calls s2" "same_queue s2 s3"
      using format_line_run [OF 2(2), of t l a] fit(1) sq1 2(4) by (auto simp: same_queue_def)
    obtain s4 where 4: "format_line l t b s3 = Some (log_line l t b, s4)"
      "file_calls s4 = file_calls s3" "same_queue s3 s4"
      using format_line_run [OF 3(2), of t l b] fit(2) sq1 2(4) 3(4) by (auto simp: same_queue_def)
    have q4: "m_log_queue s4 = Some q" "m_is_async s4" using async sq1 2(4) 3(4) 4(3) by (simp_all add: same_queue_def)
    have sz: "m_size q + 1 = m_max_size q" using last async(3) by (simp add: bq_inv_def)
    then have room: "\<not> bq_full q" by (simp add: bq_full_def)
    obtain q' where q': "bq_inv q'" "bq_items q' = bq_items q @ [log_line l t a]" "m_max_size q' = m_max_size q"
      "queue_line (log_line l t a) s4 = Some (True, s4\<lparr>m_log_queue := Some q'\<rparr>)"
      using queue_line_run [OF q4(1) async(3), of "log_line l t a"] room by auto
    have "length (bq_items q') = length (bq_items q) + 1" using q'(2) by simp
    then have "nat (m_size q') = Suc (nat (m_size q))" by simp
    moreover have "0 \<le> m_size q'" "0 \<le> m_size q" using q'(1) async(3) by (simp_all add: bq_inv_def)
    ultimately have "m_size q' = m_size q + 1" by arith
    then have full': "bq_full q'" using sz q'(3) by (simp add: bq_full_def)
    let ?s5 = "s4\<lparr>m_log_queue := Some q'\<rparr>"
    have l5: "queue_line (log_line l t b) ?s5 = Some (False, ?s5)"
      using full' by (simp add: queue_line_def bq_push_def bq_full_def)
    have g: "goes_to_queue s4 = Some True" using q4 room by (simp add: goes_to_queue_def)
    show "\<exists>s'. log_run [Log_call 0 True t l a, Log_call 1 True t l b, Writer_step 0, Writer_step 1, Writer_step 0, Writer_step 1,
            Writer_step 0, Writer_step 1] (log_start s 2) = Some s'
          \<and> queued (sys_log s') = bq_items q @ [log_line l t a] \<and> sys_writers s' = [Idle, Idle]
          \<and> written (file_calls (sys_log s')) = written (file_calls s) \<and> sys_lost s' = [log_line l t b]"
      using 1(1,4) 2(1,3) 3(1,3) 4(1,2) g q'(2,4) l5
      by (simp add: log_start_def queued_def numeral_2_eq_2)
  }
qed

theorem log_queue_hazards_witness:
  "\<exists>s. log_run [Log_call 0 True sample_time 1 ''up'', Log_call 1 True sample_time 1 ''on'', Writer_step 0, Writer_step 1, Writer_step 0, Writer_step 1,
        Writer_step 0, Writer_step 1] (log_start (queue_log 1) 2) = Some s \<and> sys_lost s = [log_line 1 sample_time ''on'']"
proof -
  obtain q where q: "bq_new 1 (\<lambda>_. []::string) = Some q" "bq_inv q" "bq_items q = []" "m_max_size q = 1"
    using bq_new_inv [of 1 "\<lambda>_. []"] by auto
  have f: "fits sample_time 1 ''up'' (m_log_buf_size (queue_log 1))" "fits sample_time 1 ''on'' (m_log_buf_size (queue_log 1))"
    using sample_fits [of "''up''" 1] sample_fits [of "''on''" 1] by (simp_all add: queue_log_def)
  have g: "m_is_async (queue_log 1)" "m_log_queue (queue_log 1) = Some q" "m_count (queue_log 1) + 2 < 2 ^ 63"
    by (simp_all add: queue_log_def q sample_log_def Log_def)
  show ?thesis
    using log_queue_hazards [OF conjunct1 [OF queue_log_ok] g(1,2) q(2) f g(3)] q(3,4) by (simp del: log_run.simps) blast
qed

end
