(* ===== verification/DBThread.thy ===== *)
theory DBThread
  imports CText "HOL-Library.Sublist"
begin

text \<open>
  The database threads of \<open>TestDB/dbthread.cpp\<close>: the thread with its list of requests, its mutex and
  its condition variable, and what the two threads do with a request.  A locked part of the code is
  one step; \<open>wait\<close> splits a part in two.  Only the thread itself waits on the condition variable,
  so \<open>wakeOne\<close> and \<open>wakeAll\<close> both wake it, and it may wake up on its own.  The database is a
  parameter: what the query answers is an argument.
\<close>

subsection \<open>The thread\<close>

text \<open>Where \<open>run\<close> is: at the loop condition, in front of \<open>lock\<close>, in \<open>wait\<close>, woken, at \<open>processItem\<close>.\<close>

datatype 'a db_pc = Loop_head | Before_lock | Cond_wait | Cond_woken | Processing "'a option" | Ended

text \<open>The last two fields only record the requests that were added and processed.\<close>

record 'a db_thread =
  db_bStop :: bool
  db_reqList :: "'a list"
  db_pc :: "'a db_pc"
  db_added :: "'a list"
  db_processed :: "'a list"

definition db_new :: "'a db_thread" where
  "db_new = \<lparr>db_bStop = False, db_reqList = [], db_pc = Ended, db_added = [], db_processed = []\<rparr>"

text \<open>The rest of the locked part, behind the wait.\<close>

definition take_request :: "'a db_thread \<Rightarrow> 'a db_thread" where
  "take_request s = (if db_bStop s then s\<lparr>db_pc := Ended\<rparr>
     else case db_reqList s of [] \<Rightarrow> s\<lparr>db_pc := Processing None\<rparr>
        | item # rest \<Rightarrow> s\<lparr>db_reqList := rest, db_pc := Processing (Some item)\<rparr>)"

definition db_run_step :: "'a db_thread \<Rightarrow> 'a db_thread" where
  "db_run_step s = (case db_pc s of
      Loop_head \<Rightarrow> s\<lparr>db_pc := (if db_bStop s then Ended else Before_lock)\<rparr>
    | Before_lock \<Rightarrow> if db_reqList s = [] \<and> \<not> db_bStop s then s\<lparr>db_pc := Cond_wait\<rparr> else take_request s
    | Cond_wait \<Rightarrow> s
    | Cond_woken \<Rightarrow> take_request s
    | Processing None \<Rightarrow> s\<lparr>db_pc := Loop_head\<rparr>
    | Processing (Some item) \<Rightarrow> s\<lparr>db_pc := Loop_head, db_processed := db_processed s @ [item]\<rparr>
    | Ended \<Rightarrow> s)"

definition db_wakeOne :: "'a db_thread \<Rightarrow> 'a db_thread" where
  "db_wakeOne s = (if db_pc s = Cond_wait then s\<lparr>db_pc := Cond_woken\<rparr> else s)"

definition addReq :: "'a \<Rightarrow> 'a db_thread \<Rightarrow> 'a db_thread" where
  "addReq p s = db_wakeOne (s\<lparr>db_reqList := db_reqList s @ [p], db_added := db_added s @ [p]\<rparr>)"

definition db_wake :: "'a db_thread \<Rightarrow> 'a db_thread" where
  "db_wake s = db_wakeOne s"

text \<open>\<open>start\<close> of a running thread does nothing.\<close>

definition db_start :: "'a db_thread \<Rightarrow> 'a db_thread" where
  "db_start s = (if db_pc s = Ended then s\<lparr>db_pc := Loop_head\<rparr> else s)"

definition startRun :: "'a db_thread \<Rightarrow> 'a db_thread" where
  "startRun s = db_start (s\<lparr>db_bStop := False\<rparr>)"

text \<open>
  \<open>stop\<close> in two parts: the locked one, and what follows the wait for the thread, which ends when
  the thread has ended or after ten seconds.
\<close>

definition stop_request :: "'a db_thread \<Rightarrow> 'a db_thread" where
  "stop_request s = db_wakeOne (s\<lparr>db_bStop := True\<rparr>)"

definition stop_finish :: "'a db_thread \<Rightarrow> 'a db_thread" where
  "stop_finish s = s\<lparr>db_bStop := False, db_reqList := []\<rparr>"

datatype 'a db_event = Run_step | Wake_up | Add_req 'a | Wake | Start_run | Stop_request | Stop_finish

fun db_step :: "'a db_event \<Rightarrow> 'a db_thread \<Rightarrow> 'a db_thread" where
  "db_step Run_step s = db_run_step s"
| "db_step Wake_up s = db_wakeOne s"
| "db_step (Add_req p) s = addReq p s"
| "db_step Wake s = db_wake s"
| "db_step Start_run s = startRun s"
| "db_step Stop_request s = stop_request s"
| "db_step Stop_finish s = stop_finish s"

definition db_run :: "'a db_event list \<Rightarrow> 'a db_thread \<Rightarrow> 'a db_thread" where
  "db_run es s = fold db_step es s"

subsection \<open>The requests\<close>

record account =
  ac_account :: string
  ac_password :: string

text \<open>
  What a \<open>QSharedPointer<IDataEntity>\<close> points to.  The objects are not changed once they are
  shared, so a pointer is its object.  A \<open>staticCast\<close> to a class the object does not have, and a
  null pointer that is dereferenced, are undefined.
\<close>

datatype db_entity = Null_entity | DataDBReqTest account | DataDBRespTest "account list"
  | DataDBHead (hd_type: int) (hd_subtype: int) (hd_ret: int) (hd_req: db_entity) (hd_resp: db_entity)

fun as_head :: "db_entity \<Rightarrow> db_entity option" where
  "as_head (DataDBHead t st r q p) = Some (DataDBHead t st r q p)"
| "as_head _ = None"

fun as_req_test :: "db_entity \<Rightarrow> account option" where
  "as_req_test (DataDBReqTest ac) = Some ac"
| "as_req_test _ = None"

fun as_resp_test :: "db_entity \<Rightarrow> account list option" where
  "as_resp_test (DataDBRespTest rs) = Some rs"
| "as_resp_test _ = None"

definition set_resp :: "db_entity \<Rightarrow> db_entity \<Rightarrow> db_entity" where
  "set_resp r h = DataDBHead (hd_type h) (hd_subtype h) (hd_ret h) (hd_req h) r"

datatype query_answer = Query_invalid | Exec_failed | Query_rows "account list"

definition DB_READTYPE_TEST :: int where "DB_READTYPE_TEST = 1"
definition DB_WRITETYPE_TEST :: int where "DB_WRITETYPE_TEST = 1"

text \<open>\<open>DBReadThread::dBTest\<close>, which never changes \<open>bEmit\<close>.\<close>

definition read_dBTest :: "query_answer \<Rightarrow> db_entity \<Rightarrow> bool \<Rightarrow> db_entity \<times> bool" where
  "read_dBTest a h bEmit = (case a of
      Query_invalid \<Rightarrow> (h, bEmit)
    | Exec_failed \<Rightarrow> (set_resp (DataDBRespTest []) h, bEmit)
    | Query_rows rs \<Rightarrow> (set_resp (DataDBRespTest rs) h, bEmit))"

text \<open>\<open>DBReadThread::processItem\<close>: the message that \<open>readyMessage\<close> emits, if it emits one.\<close>

definition read_processItem :: "query_answer \<Rightarrow> db_entity \<Rightarrow> db_entity option option" where
  "read_processItem a pItem = do {
     pReq \<leftarrow> as_head pItem;
     let data = DataDBHead (hd_type pReq) (hd_subtype pReq) 0 pItem Null_entity;
     if hd_type pReq = DB_READTYPE_TEST
     then let (data, bEmit) = read_dBTest a data True in Some (if bEmit then Some data else None)
     else Some None }"

text \<open>\<open>MainWindow::slot_db_readyMsg\<close>: the accounts it prints, a line for each.\<close>

definition slot_db_readyMsg :: "db_entity \<Rightarrow> account list option" where
  "slot_db_readyMsg pResp = (if pResp = Null_entity then Some [] else do {
     head \<leftarrow> as_head pResp;
     if hd_type head = DB_READTYPE_TEST then as_resp_test (hd_resp head) else Some [] })"

text \<open>
  \<open>DBWriteThread::dBTest\<close> and \<open>processItem\<close>: the rows handed to \<open>execBatch\<close>, none if nothing is
  executed.
\<close>

definition write_dBTest :: "bool \<Rightarrow> db_entity \<Rightarrow> (string \<times> string) list option" where
  "write_dBTest valid pEntity = (if valid then do {
       pReq \<leftarrow> as_head pEntity;
       ac \<leftarrow> as_req_test (hd_req pReq);
       Some (map (\<lambda>i. (ac_account ac @ dec (int i), ac_password ac)) [1..<100]) }
     else Some [])"

definition write_processItem :: "bool \<Rightarrow> db_entity \<Rightarrow> (string \<times> string) list option" where
  "write_processItem valid pItem = do {
     pReq \<leftarrow> as_head pItem;
     if hd_type pReq = DB_WRITETYPE_TEST then write_dBTest valid pItem else Some [] }"

text \<open>\<open>MainWindow::on_pushButton_clicked\<close>: the two requests it adds, for writing and for reading.\<close>

definition on_pushButton_clicked :: "db_entity db_thread \<Rightarrow> db_entity db_thread \<Rightarrow> db_entity db_thread \<times> db_entity db_thread" where
  "on_pushButton_clicked w r = (addReq (DataDBHead DB_WRITETYPE_TEST 0 0
       (DataDBReqTest \<lparr>ac_account = ''test1'', ac_password = ''123''\<rparr>) Null_entity) w,
     addReq (DataDBHead DB_READTYPE_TEST 0 0 Null_entity Null_entity) r)"

subsection \<open>Requests are processed in order\<close>

definition in_hand :: "'a db_thread \<Rightarrow> 'a list" where
  "in_hand s = (case db_pc s of Processing (Some item) \<Rightarrow> [item] | _ \<Rightarrow> [])"

text \<open>A thread that waits has nothing to do.\<close>

definition db_ok :: "'a db_thread \<Rightarrow> bool" where
  "db_ok s \<longleftrightarrow> (db_pc s = Cond_wait \<longrightarrow> db_reqList s = [] \<and> \<not> db_bStop s)"

lemmas db_step_defs = db_run_step_def take_request_def db_wakeOne_def addReq_def db_wake_def db_start_def
  startRun_def stop_request_def stop_finish_def

lemma db_step_ok: "db_ok s \<Longrightarrow> db_ok (db_step e s)"
  by (cases e; cases "db_pc s") (auto simp: db_ok_def db_step_defs split: list.splits option.splits)

lemma db_run_ok: "db_ok s \<Longrightarrow> db_ok (db_run es s)"
  unfolding db_run_def by (induction es arbitrary: s) (simp_all add: db_step_ok)

lemma db_run_simps [simp]: "db_run [] s = s" "db_run (e # es) s = db_run es (db_step e s)"
  "db_run (es @ es') s = db_run es' (db_run es s)"
  by (simp_all add: db_run_def)

definition db_queue :: "'a db_thread \<Rightarrow> 'a list" where
  "db_queue s = db_processed s @ in_hand s @ db_reqList s"

text \<open>What a step does to the requests.\<close>

lemma db_step_queue:
  "db_queue (db_step e s) = (case e of Add_req p \<Rightarrow> db_queue s @ [p] | Stop_finish \<Rightarrow> db_processed s @ in_hand s | _ \<Rightarrow> db_queue s)"
  "db_added (db_step e s) = (case e of Add_req p \<Rightarrow> db_added s @ [p] | _ \<Rightarrow> db_added s)"
  by (cases e; cases "db_pc s"; auto simp: db_queue_def in_hand_def db_step_defs split: list.splits option.splits)+

lemma db_run_queue: "Stop_finish \<notin> set es \<Longrightarrow> db_queue s = db_added s \<Longrightarrow> db_queue (db_run es s) = db_added (db_run es s)"
proof (induction es arbitrary: s)
  case (Cons e es)
  have "db_queue (db_step e s) = db_added (db_step e s)" using Cons.prems by (cases e) (auto simp: db_step_queue simp del: db_step.simps)
  then show ?case using Cons by simp
qed simp

lemma db_run_subseq: "subseq (db_queue s) (db_added s) \<Longrightarrow> subseq (db_queue (db_run es s)) (db_added (db_run es s))"
proof (induction es arbitrary: s)
  case (Cons e es)
  have "subseq (db_processed s @ in_hand s) (db_queue s)"
    using subseq_rev_drop_many [of "db_processed s @ in_hand s" "db_processed s @ in_hand s" "db_reqList s"] by (simp add: db_queue_def)
  then have "subseq (db_queue (db_step e s)) (db_added (db_step e s))"
    using Cons.prems by (cases e) (auto simp: db_step_queue simp del: db_step.simps intro: subseq_order.trans list_emb_append_mono)
  then show ?case using Cons.IH by simp
qed simp

text \<open>Whatever is done with a database thread, what it has processed, what it holds and what waits
  are requests that were added, in their order and each at most once; unless \<open>stop\<close> has cleared the
  list, they are all of them.\<close>

theorem db_requests_in_order:
  "subseq (db_queue (db_run es db_new)) (db_added (db_run es db_new))
   \<and> (Stop_finish \<notin> set es \<longrightarrow> db_queue (db_run es db_new) = db_added (db_run es db_new))"
proof -
  have "db_queue db_new = db_added (db_new :: 'a db_thread)" by (simp add: db_queue_def db_new_def in_hand_def)
  then show ?thesis using db_run_subseq [of db_new es] db_run_queue [of es db_new] by simp
qed

theorem db_requests_in_order_witness:
  "db_queue (db_run [Start_run, Run_step, Add_req 7, Run_step, Add_req 8] db_new) = [7::int, 8]"
  using db_requests_in_order [of "[Start_run, Run_step, Add_req (7::int), Run_step, Add_req 8]"]
  by (simp add: db_new_def db_step_defs)

subsection \<open>The thread serves its requests and can be stopped\<close>

text \<open>The steps a thread takes at most before it waits with an empty list.\<close>

definition db_rank :: "'a db_thread \<Rightarrow> nat" where
  "db_rank s = 4 * length (db_reqList s) + (case db_pc s of Processing _ \<Rightarrow> 3 | Loop_head \<Rightarrow> 2 | Before_lock \<Rightarrow> 1
     | Cond_woken \<Rightarrow> 4 | _ \<Rightarrow> 0)"

lemma db_run_step_rank:
  assumes "\<not> db_bStop s" "db_pc s \<noteq> Ended" "db_ok s"
  shows "\<not> db_bStop (db_run_step s) \<and> db_pc (db_run_step s) \<noteq> Ended
    \<and> (if db_pc s = Cond_wait then db_run_step s = s else db_rank (db_run_step s) < db_rank s)"
  using assms by (cases "db_pc s") (auto simp: db_run_step_def take_request_def db_rank_def db_ok_def split: list.splits option.splits)

lemma db_waits_eventually:
  assumes "\<not> db_bStop s" "db_pc s \<noteq> Ended" "db_ok s" "db_rank s \<le> n"
  shows "db_pc (db_run (replicate n Run_step) s) = Cond_wait"
  using assms
proof (induction n arbitrary: s)
  case 0
  then show ?case by (cases "db_pc s") (auto simp: db_rank_def)
next
  case (Suc n)
  note st = db_run_step_rank [OF Suc.prems(1-3)]
  have ok: "db_ok (db_run_step s)" using db_step_ok [OF Suc.prems(3), of Run_step] by simp
  have "db_rank (db_run_step s) \<le> n"
  proof (cases "db_pc s = Cond_wait")
    case True
    then have "db_rank s = 0" using Suc.prems(3) by (simp add: db_ok_def db_rank_def)
    then show ?thesis using st True by simp
  qed (use st Suc.prems(4) in simp)
  then show ?case using Suc.IH [of "db_run_step s"] st ok by simp
qed

text \<open>C34: A running database thread serves every request: in every state it can get into, unless
  \<open>stop\<close> was called, at most four steps for each waiting request and four more bring it to the wait
  with an empty list, and then every request was processed.  In particular it never sleeps while a
  request waits.\<close>

theorem db_serves_requests:
  assumes "s = db_run es db_new" "Stop_request \<notin> set es" "Stop_finish \<notin> set es" "db_pc s \<noteq> Ended"
    and "4 * length (db_reqList s) + 4 \<le> n"
  shows "db_pc (db_run (replicate n Run_step) s) = Cond_wait \<and> db_processed (db_run (replicate n Run_step) s) = db_added s
    \<and> (db_pc s = Cond_wait \<longrightarrow> db_reqList s = [])"
proof -
  have "Stop_request \<notin> set es \<Longrightarrow> \<not> db_bStop t \<Longrightarrow> \<not> db_bStop (db_run es t)" for t :: "'a db_thread"
  proof (induction es arbitrary: t)
    case (Cons e es)
    have "\<not> db_bStop (db_step e t)"
      using Cons.prems by (cases e) (auto simp: db_step_defs split: db_pc.splits list.splits option.splits)
    then show ?case using Cons by simp
  qed simp
  then have b: "\<not> db_bStop s" using assms(1,2) by (simp add: db_new_def)
  have ok: "db_ok s" unfolding assms(1) by (rule db_run_ok) (simp add: db_new_def db_ok_def)
  have "db_rank s \<le> n" using assms(5) by (cases "db_pc s") (simp_all add: db_rank_def)
  then have w: "db_pc (db_run (replicate n Run_step) s) = Cond_wait" using b ok assms(4) db_waits_eventually by blast
  let ?es = "es @ replicate n Run_step"
  have q: "db_queue (db_run ?es db_new) = db_added (db_run ?es (db_new :: 'a db_thread))"
    using assms(3) by (intro db_run_queue) (auto simp: db_queue_def db_new_def in_hand_def)
  have a: "db_added (db_run (replicate n Run_step) t) = db_added t" for n and t :: "'a db_thread"
    by (induction n arbitrary: t) (simp_all add: db_step_queue(2) [of Run_step, simplified])
  have "db_ok (db_run (replicate n Run_step) s)" using ok by (rule db_run_ok)
  then have "db_reqList (db_run (replicate n Run_step) s) = []" using w by (simp add: db_ok_def)
  then show ?thesis using q w a [of n s] assms(1) ok by (simp add: db_queue_def in_hand_def db_ok_def)
qed

theorem db_serves_requests_witness:
  "db_processed (db_run (replicate 12 Run_step) (db_run [Start_run, Add_req 7, Add_req 8] db_new)) = [7::int, 8]"
  using db_serves_requests [OF refl, of "[Start_run, Add_req (7::int), Add_req 8]" 12]
  by (simp add: db_new_def db_step_defs)

text \<open>After the locked part of \<open>stop\<close> the thread ends within two of its steps, whatever the other
  threads do until \<open>stop\<close> goes on: it finishes the request it is processing and takes no other.\<close>

theorem db_stop_ends:
  assumes "db_pc s \<noteq> Ended" "Stop_finish \<notin> set es" "Start_run \<notin> set es" "2 \<le> count_list es Run_step"
  shows "db_pc (db_run (Stop_request # es) s) = Ended \<and> db_processed (db_run (Stop_request # es) s) = db_processed s @ in_hand s"
proof -
  define k :: "'a db_thread \<Rightarrow> nat" where
    "k t = (case db_pc t of Processing _ \<Rightarrow> 2 | Ended \<Rightarrow> 0 | _ \<Rightarrow> 1)" for t
  define J where "J t \<longleftrightarrow> db_bStop t \<and> db_pc t \<noteq> Cond_wait" for t :: "'a db_thread"
  have run: "db_pc (db_run es t) = Ended \<and> db_processed (db_run es t) = db_processed t @ in_hand t"
    if "J t" "k t \<le> count_list es Run_step" "Stop_finish \<notin> set es" "Start_run \<notin> set es" for t es
    using that
  proof (induction es arbitrary: t)
    case Nil
    then show ?case by (cases "db_pc t") (auto simp: k_def in_hand_def)
  next
    case (Cons e es)
    have "J (db_step e t) \<and> db_processed (db_step e t) @ in_hand (db_step e t) = db_processed t @ in_hand t
        \<and> k (db_step e t) \<le> (if e = Run_step then k t - 1 else k t)"
      using Cons.prems by (cases e; cases "db_pc t") (auto simp: J_def k_def in_hand_def db_step_defs split: option.splits)
    then show ?case using Cons.IH [of "db_step e t"] Cons.prems by (auto split: if_splits)
  qed
  have "J (stop_request s)" "k (stop_request s) \<le> 2" "db_processed (stop_request s) @ in_hand (stop_request s) = db_processed s @ in_hand s"
    by (cases "db_pc s"; simp add: J_def k_def in_hand_def db_step_defs)+
  then show ?thesis using run [of "stop_request s" es] assms(2-4) by simp
qed

theorem db_stop_ends_witness:
  "db_pc (db_run [Stop_request, Run_step, Add_req 9, Run_step] (db_run [Start_run, Run_step, Add_req 7] db_new)) = Ended
   \<and> db_processed (db_run [Stop_request, Run_step, Add_req 9, Run_step] (db_run [Start_run, Run_step, Add_req (7::int)] db_new)) = []"
  using db_stop_ends [of "db_run [Start_run, Run_step, Add_req (7::int)] db_new" "[Run_step, Add_req 9, Run_step]"]
  by (simp add: db_new_def db_step_defs in_hand_def)

text \<open>A stop that does not take effect: when a request takes longer than the ten seconds that
  \<open>stop\<close> waits, \<open>stop\<close> resets the flag itself and empties the list while the thread still runs; the
  thread then goes on, waits for requests and serves those that are added later.\<close>

theorem db_stop_forgotten:
  assumes "db_pc s = Processing x"
  shows "db_pc (db_run [Stop_request, Stop_finish, Run_step, Run_step, Run_step] s) = Cond_wait
    \<and> \<not> db_bStop (db_run [Stop_request, Stop_finish, Run_step, Run_step, Run_step] s)
    \<and> db_processed (db_run [Stop_request, Stop_finish, Run_step, Run_step, Run_step, Add_req p, Run_step, Run_step] s)
        = db_processed s @ in_hand s @ [p]"
  using assms by (cases x) (simp_all add: db_step_defs in_hand_def)

theorem db_stop_forgotten_witness:
  "db_pc (db_run [Stop_request, Stop_finish, Run_step, Run_step, Run_step]
     (db_run [Start_run, Run_step, Add_req (7::int), Run_step] db_new)) = Cond_wait"
  using db_stop_forgotten [of "db_run [Start_run, Run_step, Add_req (7::int), Run_step] db_new" "Some 7" 9]
  by (simp add: db_new_def db_step_defs)

text \<open>From the button to the window: the request for reading is answered by a message from which
  the window prints every row of the table, in order.  When the query is not valid, the message is
  emitted all the same, without a response, and the window dereferences a null pointer.  The request
  for writing stores one account for each number from 1 to 99.\<close>

theorem db_button:
  assumes "on_pushButton_clicked w r = (w', r')"
  shows "\<exists>rd wr. db_added r' = db_added r @ [rd] \<and> db_added w' = db_added w @ [wr]
    \<and> (\<forall>rs. read_processItem (Query_rows rs) rd \<bind> (\<lambda>m. m \<bind> slot_db_readyMsg) = Some rs)
    \<and> (\<exists>m. read_processItem Query_invalid rd = Some (Some m) \<and> slot_db_readyMsg m = None)
    \<and> write_processItem True wr = Some (map (\<lambda>i. (''test1'' @ dec (int i), ''123'')) [1..<100])"
proof -
  let ?rd = "DataDBHead DB_READTYPE_TEST 0 0 Null_entity Null_entity"
  let ?wr = "DataDBHead DB_WRITETYPE_TEST 0 0 (DataDBReqTest \<lparr>ac_account = ''test1'', ac_password = ''123''\<rparr>) Null_entity"
  have "db_added r' = db_added r @ [?rd]" "db_added w' = db_added w @ [?wr]"
    using assms by (auto simp: on_pushButton_clicked_def addReq_def db_wakeOne_def)
  moreover have "read_processItem (Query_rows rs) ?rd \<bind> (\<lambda>m. m \<bind> slot_db_readyMsg) = Some rs" for rs
    by (simp add: read_processItem_def read_dBTest_def slot_db_readyMsg_def set_resp_def)
  moreover have "\<exists>m. read_processItem Query_invalid ?rd = Some (Some m) \<and> slot_db_readyMsg m = None"
    by (simp add: read_processItem_def read_dBTest_def slot_db_readyMsg_def)
  moreover have "write_processItem True ?wr = Some (map (\<lambda>i. (''test1'' @ dec (int i), ''123'')) [1..<100])"
    by (simp add: write_processItem_def write_dBTest_def)
  ultimately show ?thesis by (intro exI [of _ ?rd] exI [of _ ?wr]) (intro conjI allI; assumption)
qed

theorem db_button_witness:
  "\<exists>rd. db_added (snd (on_pushButton_clicked db_new db_new)) = [rd]"
proof -
  have "on_pushButton_clicked db_new db_new = (fst (on_pushButton_clicked db_new db_new), snd (on_pushButton_clicked db_new db_new))" by simp
  from db_button [OF this] show ?thesis by (auto simp: db_new_def)
qed

end
