(* ===== verification/DBManager.thy ===== *)
theory DBManager
  imports DBThread
begin

text \<open>
  The class \<open>CDBManager\<close> of \<open>TestDB/dbmanager.cpp\<close> with its two threads, and the window of
  \<open>TestDB/mainwindow.cpp\<close> on top of it: the main thread and the two database threads, whose steps
  interleave.  The database is a parameter: \<open>sel\<close> gives its rows and \<open>ins\<close> is what a batch of rows makes
  of it; what \<open>exec\<close> answers, while the manager is constructed and at each read, is an argument.
  \<open>mg_valid\<close> says whether the manager's query stands on a record, which is what \<open>isValid\<close> says of it
  and of the copies the threads make: \<open>exec\<close> leaves a query in front of its first record and \<open>next\<close>
  moves it.  A thread that prepares its copy detaches it from the manager's query.
\<close>

subsection \<open>Construction\<close>

record 'd db_manager =
  mg_pQuery :: bool
  mg_valid :: bool
  mg_sql :: "string list"
  mg_database :: 'd
  mg_read :: "db_entity db_thread"
  mg_write :: "db_entity db_thread"
  mg_messages :: "db_entity list"
  mg_shown :: "account list"

definition createTableAccount :: string where
  "createTableAccount = ''CREATE TABLE[TableAccount](''
     @ ''        [account] VARCHAR(256) NOT NULL,''
     @ ''        [pwd] VARCHAR(16) NOT NULL,''
     @ ''        PRIMARY KEY([account]))''"

definition count_table_sql :: string where
  "count_table_sql = ''SELECT count(*) FROM sqlite_master WHERE type='' @ [CHR 0x27] @ ''table'' @ [CHR 0x27]
     @ '' AND name='' @ [CHR 0x27] @ ''TableAccount'' @ [CHR 0x27] @ '';''"

definition exec_sql :: "string \<Rightarrow> 'd db_manager \<Rightarrow> 'd db_manager" where
  "exec_sql q m = m\<lparr>mg_sql := mg_sql m @ [q], mg_valid := False\<rparr>"

text \<open>
  \<open>initDB\<close>: the third of the standard locations is used whatever their number is; \<open>opened\<close> says
  whether the database of that name could be opened.
\<close>

definition initDB :: "string list \<Rightarrow> (string \<Rightarrow> bool) \<Rightarrow> 'd db_manager \<Rightarrow> 'd db_manager option" where
  "initDB strList opened m = (if length strList \<le> 2 then None
     else Some (if opened (strList ! 2 @ ''/TestDB'')
       then exec_sql ''PRAGMA journal_mode=WAL'' (exec_sql ''PRAGMA synchronous = OFF'' (m\<lparr>mg_pQuery := True\<rparr>)) else m))"

record table_answers =
  ta_exec :: bool
  ta_next :: bool
  ta_count :: int
  ta_create :: bool
  ta_error :: int

definition initTable :: "table_answers \<Rightarrow> 'd db_manager \<Rightarrow> int \<times> 'd db_manager" where
  "initTable a m = (if mg_pQuery m then
       (let m = exec_sql count_table_sql m in
        if ta_exec a then (let m = m\<lparr>mg_valid := ta_next a\<rparr> in
           if ta_next a \<and> ta_count a = 0 then
             (let m = exec_sql createTableAccount m in if \<not> ta_create a then (ta_error a, m) else (0, m))
           else (0, m))
        else (ta_error a, m))
     else (0, m))"

definition initThread :: "'d db_manager \<Rightarrow> 'd db_manager" where
  "initThread m = m\<lparr>mg_read := db_start db_new, mg_write := db_start db_new\<rparr>"

definition CDBManager :: "string list \<Rightarrow> (string \<Rightarrow> bool) \<Rightarrow> table_answers \<Rightarrow> 'd \<Rightarrow> 'd db_manager option" where
  "CDBManager strList opened a d = do {
     m \<leftarrow> initDB strList opened \<lparr>mg_pQuery = False, mg_valid = False, mg_sql = [], mg_database = d, mg_read = db_new, mg_write = db_new,
            mg_messages = [], mg_shown = []\<rparr>;
     let (_, m) = initTable a m;
     Some (initThread m) }"

subsection \<open>Requests\<close>

definition addReadReq :: "db_entity \<Rightarrow> 'd db_manager \<Rightarrow> 'd db_manager" where
  "addReadReq req m = m\<lparr>mg_read := addReq req (mg_read m)\<rparr>"

definition addWriteReq :: "db_entity \<Rightarrow> 'd db_manager \<Rightarrow> 'd db_manager" where
  "addWriteReq req m = m\<lparr>mg_write := addReq req (mg_write m)\<rparr>"

definition button :: "'d db_manager \<Rightarrow> 'd db_manager" where
  "button m = addReadReq (DataDBHead DB_READTYPE_TEST 0 0 Null_entity Null_entity)
     (addWriteReq (DataDBHead DB_WRITETYPE_TEST 0 0
       (DataDBReqTest \<lparr>ac_account = ''test1'', ac_password = ''123''\<rparr>) Null_entity) m)"

lemma button_is_clicked:
  "button m = (let (w, r) = on_pushButton_clicked (mg_write m) (mg_read m) in m\<lparr>mg_read := r, mg_write := w\<rparr>)"
  by (simp add: button_def addReadReq_def addWriteReq_def on_pushButton_clicked_def)

subsection \<open>The three threads\<close>

text \<open>
  A step of the reading thread at \<open>processItem\<close> emits its message, which is queued for the main
  thread (\<open>ok\<close> says whether its \<open>exec\<close> succeeds); one of the writing thread stores its rows.  The query is copied from the manager's pointer.
\<close>

definition in_process :: "db_entity db_thread \<Rightarrow> db_entity option" where
  "in_process s = (case db_pc s of Processing x \<Rightarrow> x | _ \<Rightarrow> None)"

definition read_step :: "('d \<Rightarrow> account list) \<Rightarrow> bool \<Rightarrow> 'd db_manager \<Rightarrow> 'd db_manager option" where
  "read_step sel ok m = (let n = m\<lparr>mg_read := db_run_step (mg_read m)\<rparr> in
     case in_process (mg_read m) of None \<Rightarrow> Some n
     | Some item \<Rightarrow> if \<not> mg_pQuery m then None else do {
         emitted \<leftarrow> read_processItem (if \<not> mg_valid m then Query_invalid else if ok then Query_rows (sel (mg_database m)) else Exec_failed) item;
         Some (case emitted of None \<Rightarrow> n | Some msg \<Rightarrow> n\<lparr>mg_messages := mg_messages m @ [msg]\<rparr>) })"

definition write_step :: "((string \<times> string) list \<Rightarrow> 'd \<Rightarrow> 'd) \<Rightarrow> 'd db_manager \<Rightarrow> 'd db_manager option" where
  "write_step ins m = (let n = m\<lparr>mg_write := db_run_step (mg_write m)\<rparr> in
     case in_process (mg_write m) of None \<Rightarrow> Some n
     | Some item \<Rightarrow> if \<not> mg_pQuery m then None else do {
         rows \<leftarrow> write_processItem (mg_valid m) item;
         Some (if rows = [] then n else n\<lparr>mg_database := ins rows (mg_database m)\<rparr>) })"

definition slot_step :: "'d db_manager \<Rightarrow> 'd db_manager option" where
  "slot_step m = (case mg_messages m of [] \<Rightarrow> Some m
     | msg # rest \<Rightarrow> do { rows \<leftarrow> slot_db_readyMsg msg; Some (m\<lparr>mg_messages := rest, mg_shown := mg_shown m @ rows\<rparr>) })"

datatype app_event = Button | Slot | Read_step bool | Write_step | Read_wakes | Write_wakes

fun app_step :: "((string \<times> string) list \<Rightarrow> 'd \<Rightarrow> 'd) \<Rightarrow> ('d \<Rightarrow> account list) \<Rightarrow> app_event \<Rightarrow> 'd db_manager \<Rightarrow> 'd db_manager option" where
  "app_step ins sel Button m = Some (button m)"
| "app_step ins sel Slot m = slot_step m"
| "app_step ins sel (Read_step ok) m = read_step sel ok m"
| "app_step ins sel Write_step m = write_step ins m"
| "app_step ins sel Read_wakes m = Some (m\<lparr>mg_read := db_wakeOne (mg_read m)\<rparr>)"
| "app_step ins sel Write_wakes m = Some (m\<lparr>mg_write := db_wakeOne (mg_write m)\<rparr>)"

fun app_run :: "((string \<times> string) list \<Rightarrow> 'd \<Rightarrow> 'd) \<Rightarrow> ('d \<Rightarrow> account list) \<Rightarrow> app_event list \<Rightarrow> 'd db_manager \<Rightarrow> 'd db_manager option" where
  "app_run ins sel [] m = Some m"
| "app_run ins sel (e # es) m = do { m \<leftarrow> app_step ins sel e m; app_run ins sel es m }"

text \<open>
  The destructor: it stops the reading thread and then the writing one; the two lists are what the
  threads do while it waits for the first and for the second.  The flag says that a thread still runs
  when its object is destroyed, which ends the program.
\<close>

definition manager_destroy :: "db_entity db_event list \<Rightarrow> db_entity db_event list \<Rightarrow> 'd db_manager \<Rightarrow> bool \<times> 'd db_manager" where
  "manager_destroy rs ws m = (let
       r = stop_finish (db_run rs (stop_request (mg_read m)));
       w = stop_finish (db_run ws (stop_request (mg_write m))) in
     (db_pc r \<noteq> Ended \<or> db_pc w \<noteq> Ended, m\<lparr>mg_read := r, mg_write := w\<rparr>))"

subsection \<open>Properties\<close>

text \<open>The requests and the messages of the program have the classes their receivers cast them to.\<close>

definition read_request :: "db_entity \<Rightarrow> bool" where
  "read_request x \<longleftrightarrow> (\<exists>t st q p. x = DataDBHead t st 0 q p)"

definition write_request :: "db_entity \<Rightarrow> bool" where
  "write_request x \<longleftrightarrow> (\<exists>t st ac p. x = DataDBHead t st 0 (DataDBReqTest ac) p)"

definition good_message :: "db_entity \<Rightarrow> bool" where
  "good_message x \<longleftrightarrow> (\<exists>t st q rs. x = DataDBHead t st 0 q (DataDBRespTest rs))"

definition holds_only :: "(db_entity \<Rightarrow> bool) \<Rightarrow> db_entity db_thread \<Rightarrow> bool" where
  "holds_only P s \<longleftrightarrow> (\<forall>x \<in> set (db_reqList s). P x) \<and> (\<forall>x. in_process s = Some x \<longrightarrow> P x)"

definition app_ok :: "'d db_manager \<Rightarrow> bool" where
  "app_ok m \<longleftrightarrow> mg_pQuery m \<and> mg_valid m \<and> holds_only (\<lambda>x. read_request x \<and> hd_type x = DB_READTYPE_TEST) (mg_read m)
     \<and> holds_only write_request (mg_write m) \<and> (\<forall>x \<in> set (mg_messages m). good_message x)"

lemma holds_only_run: "holds_only P s \<Longrightarrow> holds_only P (db_run_step s)"
  by (cases "db_pc s") (auto simp: holds_only_def in_process_def db_run_step_def take_request_def split: list.splits option.splits)

lemma holds_only_add: "holds_only P s \<Longrightarrow> P x \<Longrightarrow> holds_only P (addReq x s)"
  by (auto simp: holds_only_def in_process_def addReq_def db_wakeOne_def)

lemma holds_only_wake: "holds_only P s \<Longrightarrow> holds_only P (db_wakeOne s)"
  by (auto simp: holds_only_def in_process_def db_wakeOne_def)

lemma read_request_answered:
  assumes "read_request x" "hd_type x = DB_READTYPE_TEST"
  shows "a \<noteq> Query_invalid \<Longrightarrow> \<exists>msg. read_processItem a x = Some (Some msg) \<and> good_message msg"
  using assms by (cases a) (auto simp: read_request_def good_message_def read_processItem_def read_dBTest_def set_resp_def)

lemma write_request_stored: "write_request x \<Longrightarrow> \<exists>rows. write_processItem True x = Some rows"
  by (auto simp: write_request_def write_processItem_def write_dBTest_def)

lemma app_step_ok:
  assumes ok: "app_ok m"
  shows "\<exists>n. app_step ins sel e m = Some n \<and> app_ok n"
proof (cases e)
  case Button
  then show ?thesis using ok
    by (simp add: app_ok_def button_def addReadReq_def addWriteReq_def holds_only_add read_request_def write_request_def)
next
  case Slot
  then show ?thesis using ok
    by (cases "mg_messages m") (auto simp: app_ok_def slot_step_def slot_db_readyMsg_def good_message_def)
next
  case (Read_step ok)
  show ?thesis
  proof (cases "in_process (mg_read m)")
    case None
    then show ?thesis using ok Read_step by (simp add: app_ok_def read_step_def holds_only_run)
  next
    case (Some x)
    then have "read_request x" "hd_type x = DB_READTYPE_TEST" using ok by (auto simp: app_ok_def holds_only_def)
    then obtain msg where "read_processItem (if ok then Query_rows (sel (mg_database m)) else Exec_failed) x = Some (Some msg)" "good_message msg"
      using read_request_answered [of x "if ok then Query_rows (sel (mg_database m)) else Exec_failed"] by (metis query_answer.distinct(1,3))
    then show ?thesis using ok Some Read_step by (auto simp: app_ok_def read_step_def Let_def holds_only_run)
  qed
next
  case Write_step
  show ?thesis
  proof (cases "in_process (mg_write m)")
    case None
    then show ?thesis using ok Write_step by (simp add: app_ok_def write_step_def holds_only_run)
  next
    case (Some x)
    then have "write_request x" using ok by (auto simp: app_ok_def holds_only_def)
    then obtain rows where "write_processItem True x = Some rows" using write_request_stored by blast
    then show ?thesis using ok Some Write_step by (simp add: app_ok_def write_step_def Let_def holds_only_run)
  qed
qed (use ok in \<open>simp_all add: app_ok_def holds_only_wake\<close>)

text \<open>The query for the table was answered and found it: only then does the manager's query stand on a record.\<close>

definition table_there :: "table_answers \<Rightarrow> bool" where
  "table_there a \<longleftrightarrow> ta_exec a \<and> ta_next a \<and> ta_count a \<noteq> 0"

lemma constructed:
  assumes "CDBManager locs opened a d = Some m"
  shows "mg_read m = db_start db_new" "mg_write m = db_start db_new" "mg_messages m = []" "mg_shown m = []" "mg_database m = d"
    "mg_pQuery m = opened (locs ! 2 @ ''/TestDB'')"
    "mg_valid m \<longleftrightarrow> opened (locs ! 2 @ ''/TestDB'') \<and> table_there a"
  using assms by (auto simp: CDBManager_def initDB_def initTable_def initThread_def exec_sql_def table_there_def Let_def bind_eq_Some_conv split: if_splits)

lemma app_run_ok: "app_ok m \<Longrightarrow> \<exists>n. app_run ins sel es m = Some n \<and> app_ok n"
proof (induction es arbitrary: m)
  case (Cons e es)
  obtain n where n: "app_step ins sel e m = Some n" "app_ok n" using app_step_ok [OF Cons.prems] by blast
  then show ?case using Cons.IH [OF n(2)] by simp
qed simp

text \<open>C35: The database program works exactly when its table existed before it was started.  If the database
  was opened and the query for the table found it, no interleaving of the window, the reading and the
  writing thread dereferences a null pointer or casts a request or a message to a class it does not
  have, whether the executions of the reader succeed or fail, and every message that waits for the
  window carries the response it will print.  Otherwise the query that the threads copy stands on no
  record (the program has just created the table, or could not ask for it) or does not exist (the
  database was not opened), and the first press of the button ends in undefined behaviour.\<close>

theorem db_app_typed:
  assumes "CDBManager locs opened a d = Some m"
  shows "(opened (locs ! 2 @ ''/TestDB'') \<and> table_there a \<longrightarrow>
      (\<forall>es. \<exists>n. app_run ins sel es m = Some n \<and> (\<forall>msg \<in> set (mg_messages n). slot_db_readyMsg msg \<noteq> None)))
    \<and> (opened (locs ! 2 @ ''/TestDB'') \<and> \<not> table_there a \<longrightarrow>
      app_run ins sel [Button, Read_step ok1, Read_step ok2, Read_step ok3, Slot] m = None)
    \<and> (\<not> opened (locs ! 2 @ ''/TestDB'') \<longrightarrow>
      app_run ins sel [Button, Read_step ok1, Read_step ok2, Read_step ok3] m = None)"
proof (intro conjI impI allI)
  fix es
  assume "opened (locs ! 2 @ ''/TestDB'') \<and> table_there a"
  then have "app_ok m" using constructed [OF assms]
    by (simp add: app_ok_def holds_only_def in_process_def db_start_def db_new_def)
  then obtain n where n: "app_run ins sel es m = Some n" "app_ok n" using app_run_ok by blast
  have "slot_db_readyMsg msg \<noteq> None" if "msg \<in> set (mg_messages n)" for msg
  proof -
    have "good_message msg" using n(2) that by (simp add: app_ok_def)
    then show ?thesis by (auto simp: good_message_def slot_db_readyMsg_def)
  qed
  then show "\<exists>n. app_run ins sel es m = Some n \<and> (\<forall>msg \<in> set (mg_messages n). slot_db_readyMsg msg \<noteq> None)" using n(1) by blast
next
  note run = button_def addReadReq_def addWriteReq_def addReq_def db_wakeOne_def db_start_def db_new_def read_step_def
    in_process_def db_run_step_def take_request_def slot_step_def slot_db_readyMsg_def read_processItem_def read_dBTest_def
  show "app_run ins sel [Button, Read_step ok1, Read_step ok2, Read_step ok3, Slot] m = None"
    if "opened (locs ! 2 @ ''/TestDB'') \<and> \<not> table_there a" using constructed [OF assms] that by (simp add: run)
  show "app_run ins sel [Button, Read_step ok1, Read_step ok2, Read_step ok3] m = None"
    if "\<not> opened (locs ! 2 @ ''/TestDB'')" using constructed [OF assms] that by (simp add: run)
qed

text \<open>The answers of the database when the table is there, and when it is created.\<close>

definition found_table :: table_answers where
  "found_table = \<lparr>ta_exec = True, ta_next = True, ta_count = 1, ta_create = True, ta_error = 0\<rparr>"

definition no_table :: table_answers where
  "no_table = found_table\<lparr>ta_count := 0\<rparr>"

definition sample_manager :: "account list db_manager" where
  "sample_manager = the (CDBManager [''a'', ''b'', ''c''] (\<lambda>_. True) found_table [])"

definition first_start :: "account list db_manager" where
  "first_start = the (CDBManager [''a'', ''b'', ''c''] (\<lambda>_. True) no_table [])"

definition store_rows :: "(string \<times> string) list \<Rightarrow> account list \<Rightarrow> account list" where
  "store_rows rows d = d @ map (\<lambda>(u, p). \<lparr>ac_account = u, ac_password = p\<rparr>) rows"

lemma sample_constructed: "CDBManager [''a'', ''b'', ''c''] (\<lambda>_. True) found_table [] = Some sample_manager"
    "CDBManager [''a'', ''b'', ''c''] (\<lambda>_. True) no_table [] = Some first_start"
  by (simp_all add: sample_manager_def first_start_def CDBManager_def initDB_def split_def)

lemma sample_tables: "table_there found_table" "\<not> table_there no_table"
  by (simp_all add: table_there_def found_table_def no_table_def)

theorem db_app_typed_witness:
  "(\<exists>n. app_run store_rows id [Button, Read_step True, Write_step, Read_step True, Read_step False, Button, Slot] sample_manager = Some n)
    \<and> app_run store_rows id [Button, Read_step True, Read_step True, Read_step True, Slot] first_start = None"
  using db_app_typed [OF sample_constructed(1), of store_rows id] db_app_typed [OF sample_constructed(2), of store_rows id True True True]
    sample_tables by blast

subsection \<open>The race of the button\<close>

definition button_rows :: "(string \<times> string) list" where
  "button_rows = map (\<lambda>i. (''test1'' @ dec (int i), ''123'')) [1..<100]"

definition button_read :: db_entity where
  "button_read = DataDBHead DB_READTYPE_TEST 0 0 Null_entity Null_entity"

definition button_write :: db_entity where
  "button_write = DataDBHead DB_WRITETYPE_TEST 0 0 (DataDBReqTest \<lparr>ac_account = ''test1'', ac_password = ''123''\<rparr>) Null_entity"

text \<open>A thread that was idle, \<open>i\<close> of its steps after it got the request \<open>x\<close>.\<close>

definition phase :: "nat \<Rightarrow> db_entity \<Rightarrow> db_entity db_thread \<Rightarrow> bool" where
  "phase i x s \<longleftrightarrow> \<not> db_bStop s \<and> db_reqList s = (if i < 2 then [x] else [])
     \<and> db_pc s = (if i = 1 then Before_lock else if i = 2 then Processing (Some x) else Loop_head)"

lemma phase_step: "phase i x s \<Longrightarrow> i < 3 \<Longrightarrow> phase (Suc i) x (db_run_step s)"
  by (auto simp: phase_def db_run_step_def take_request_def)

lemma phase_process: "phase i x s \<Longrightarrow> in_process s = (if i = 2 then Some x else None)"
  by (simp add: phase_def in_process_def)

text \<open>The press, \<open>i\<close> steps of the reading and \<open>j\<close> of the writing thread later.\<close>

definition race :: "((string \<times> string) list \<Rightarrow> 'd \<Rightarrow> 'd) \<Rightarrow> ('d \<Rightarrow> account list) \<Rightarrow> 'd \<Rightarrow> nat \<Rightarrow> nat \<Rightarrow> 'd db_manager \<Rightarrow> bool" where
  "race ins sel d i j m \<longleftrightarrow> mg_pQuery m \<and> mg_valid m \<and> phase i button_read (mg_read m) \<and> phase j button_write (mg_write m) \<and> mg_shown m = []
     \<and> mg_database m = (if j = 3 then ins button_rows d else d)
     \<and> (if i < 3 then mg_messages m = []
        else \<exists>rows \<in> {sel d, sel (ins button_rows d)}. mg_messages m = [DataDBHead DB_READTYPE_TEST 0 0 button_read (DataDBRespTest rows)])"

lemma race_read:
  assumes "race ins sel d i j m" "i < 3"
  shows "\<exists>n. read_step sel True m = Some n \<and> race ins sel d (Suc i) j n"
proof -
  have ph: "phase i button_read (mg_read m)" using assms(1) by (simp add: race_def)
  have p: "read_processItem (Query_rows rs) button_read = Some (Some (DataDBHead DB_READTYPE_TEST 0 0 button_read (DataDBRespTest rs)))" for rs
    by (simp add: read_processItem_def read_dBTest_def set_resp_def button_read_def)
  show ?thesis
    using assms phase_step [OF ph assms(2)] p by (cases "i = 2") (auto simp: read_step_def phase_process [OF ph] race_def Let_def)
qed

lemma race_write:
  assumes "race ins sel d i j m" "j < 3"
  shows "\<exists>n. write_step ins m = Some n \<and> race ins sel d i (Suc j) n"
proof -
  have ph: "phase j button_write (mg_write m)" using assms(1) by (simp add: race_def)
  have p: "write_processItem True button_write = Some button_rows" "button_rows \<noteq> []"
    by (simp_all add: write_processItem_def write_dBTest_def button_write_def button_rows_def)
  show ?thesis
    using assms phase_step [OF ph assms(2)] p by (cases "j = 2") (auto simp: write_step_def phase_process [OF ph] race_def Let_def)
qed

lemma race_run:
  assumes "race ins sel d i j m" "set es \<subseteq> {Read_step True, Write_step}" "i + count_list es (Read_step True) = 3" "j + count_list es Write_step = 3"
  shows "\<exists>n. app_run ins sel es m = Some n \<and> race ins sel d 3 3 n"
  using assms
proof (induction es arbitrary: i j m)
  case Nil
  then show ?case by simp
next
  case (Cons e es)
  then consider (r) "e = Read_step True" "i < 3" | (w) "e = Write_step" "j < 3" by (auto split: if_splits)
  then show ?case
  proof cases
    case r
    obtain n where "read_step sel True m = Some n" "race ins sel d (Suc i) j n" using race_read [OF Cons.prems(1) r(2)] by blast
    then show ?thesis using Cons.IH [of "Suc i" j n] Cons.prems r(1) by simp
  next
    case w
    obtain n where "write_step ins m = Some n" "race ins sel d i (Suc j) n" using race_write [OF Cons.prems(1) w(2)] by blast
    then show ?thesis using Cons.IH [of i "Suc j" n] Cons.prems w(1) by simp
  qed
qed

lemma race_start:
  assumes "CDBManager locs opened a d = Some m" "opened (locs ! 2 @ ''/TestDB'')" "table_there a"
  shows "race ins sel d 0 0 (button m)"
  using constructed [OF assms(1)] assms(2,3)
  by (simp add: race_def button_def addReadReq_def addWriteReq_def addReq_def db_wakeOne_def db_start_def db_new_def phase_def
      button_read_def button_write_def)

lemma app_run_append: "app_run ins sel (es @ fs) m = app_run ins sel es m \<bind> app_run ins sel fs"
  by (induction es arbitrary: m) (auto simp: Option.bind_eq_Some_conv split: Option.bind_splits)

text \<open>One press of the button starts a race: the writing thread stores the rows and the reading
  thread reads the table, and nothing orders them.  However the steps they need interleave, the rows
  are stored and the window shows the table, but as it was before or as it is afterwards, and either
  happens.\<close>

theorem db_button_race:
  assumes "CDBManager locs opened a d = Some m" "opened (locs ! 2 @ ''/TestDB'')" "table_there a"
    and "set es \<subseteq> {Read_step True, Write_step}" "count_list es (Read_step True) = 3" "count_list es Write_step = 3"
  shows "(\<exists>n. app_run ins sel (Button # es @ [Slot]) m = Some n \<and> mg_database n = ins button_rows d
       \<and> mg_shown n \<in> {sel d, sel (ins button_rows d)})
    \<and> map_option mg_shown (app_run ins sel (Button # replicate 3 (Read_step True) @ replicate 3 Write_step @ [Slot]) m) = Some (sel d)
    \<and> map_option mg_shown (app_run ins sel (Button # replicate 3 Write_step @ replicate 3 (Read_step True) @ [Slot]) m)
        = Some (sel (ins button_rows d))"
proof (intro conjI)
  have slot: "\<exists>k. app_run ins sel [Slot] n = Some k \<and> mg_database k = mg_database n
      \<and> (\<exists>rows \<in> {sel d, sel (ins button_rows d)}. mg_shown k = rows)" if "race ins sel d 3 3 n" for n
    using that by (auto simp: race_def slot_step_def slot_db_readyMsg_def)
  obtain n where n: "app_run ins sel es (button m) = Some n" "race ins sel d 3 3 n"
    using race_run [OF race_start [OF assms(1-3)] assms(4)] assms(5,6) by auto
  have "mg_database n = ins button_rows d" using n(2) by (simp add: race_def)
  then show "\<exists>n. app_run ins sel (Button # es @ [Slot]) m = Some n \<and> mg_database n = ins button_rows d
       \<and> mg_shown n \<in> {sel d, sel (ins button_rows d)}"
    using n(1) slot [OF n(2)] by (auto simp: app_run_append)
  note c = constructed [OF assms(1)]
  have p: "read_processItem (Query_rows rs) button_read = Some (Some (DataDBHead DB_READTYPE_TEST 0 0 button_read (DataDBRespTest rs)))"
    "write_processItem True button_write = Some button_rows" "button_rows \<noteq> []" for rs
    by (simp_all add: read_processItem_def read_dBTest_def set_resp_def button_read_def write_processItem_def write_dBTest_def
        button_write_def button_rows_def)
  note defs = numeral_3_eq_3 button_def [folded button_read_def button_write_def] addReadReq_def addWriteReq_def addReq_def db_wakeOne_def
    db_start_def db_new_def read_step_def write_step_def in_process_def db_run_step_def take_request_def slot_step_def slot_db_readyMsg_def
  show "map_option mg_shown (app_run ins sel (Button # replicate 3 (Read_step True) @ replicate 3 Write_step @ [Slot]) m) = Some (sel d)"
    using c assms(2,3) p by (simp add: defs)
  show "map_option mg_shown (app_run ins sel (Button # replicate 3 Write_step @ replicate 3 (Read_step True) @ [Slot]) m)
        = Some (sel (ins button_rows d))"
    using c assms(2,3) p by (simp add: defs)
qed

theorem db_button_race_witness:
  "\<exists>n. app_run store_rows id [Button, Read_step True, Write_step, Read_step True, Write_step, Read_step True, Write_step, Slot] sample_manager = Some n
     \<and> mg_database n = store_rows button_rows []"
  using db_button_race [OF sample_constructed(1) _ sample_tables(1), of "[Read_step True, Write_step, Read_step True, Write_step, Read_step True, Write_step]" store_rows id]
  by (simp del: app_run.simps) blast

text \<open>The table is created exactly when the query for it succeeded and found none, and the error of a
  failed query is returned; without a database nothing is executed.\<close>

theorem db_init_table:
  "snd (initTable a m) = m\<lparr>mg_sql := mg_sql m @ (if \<not> mg_pQuery m then [] else count_table_sql #
       (if ta_exec a \<and> ta_next a \<and> ta_count a = 0 then [createTableAccount] else [])),
       mg_valid := (if mg_pQuery m then table_there a else mg_valid m)\<rparr>
   \<and> fst (initTable a m) = (if mg_pQuery m \<and> (\<not> ta_exec a \<or> ta_next a \<and> ta_count a = 0 \<and> \<not> ta_create a) then ta_error a else 0)"
  by (auto simp: initTable_def exec_sql_def table_there_def Let_def)

text \<open>The manager can be destroyed when each thread gets to make two steps while its \<open>stop\<close> waits.\<close>

theorem db_manager_destroyed:
  assumes "db_pc (mg_read m) \<noteq> Ended" "db_pc (mg_write m) \<noteq> Ended"
    and "set rs \<inter> {Stop_finish, Start_run} = {}" "set ws \<inter> {Stop_finish, Start_run} = {}"
    and "2 \<le> count_list rs Run_step" "2 \<le> count_list ws Run_step"
  shows "\<not> fst (manager_destroy rs ws m) \<and> db_processed (mg_read (snd (manager_destroy rs ws m))) = db_processed (mg_read m) @ in_hand (mg_read m)"
proof -
  have "db_pc (db_run (Stop_request # rs) (mg_read m)) = Ended
      \<and> db_processed (db_run (Stop_request # rs) (mg_read m)) = db_processed (mg_read m) @ in_hand (mg_read m)"
    "db_pc (db_run (Stop_request # ws) (mg_write m)) = Ended"
    using db_stop_ends [OF assms(1), of rs] db_stop_ends [OF assms(2), of ws] assms(3-6) by blast+
  then show ?thesis by (simp add: manager_destroy_def stop_finish_def)
qed

theorem db_manager_destroyed_witness:
  "\<not> fst (manager_destroy [Run_step, Run_step] [Run_step, Wake_up, Run_step] sample_manager)"
  using db_manager_destroyed [of sample_manager "[Run_step, Run_step]" "[Run_step, Wake_up, Run_step]"]
    constructed(1,2) [OF sample_constructed(1)] by (simp add: db_start_def db_new_def)

end
