(* ===== verification/Dispatcher.thy ===== *)
theory Dispatcher
  imports CText
begin

text \<open>
  The message dispatcher of \<open>designpattern/dispatcher.h\<close> and its use in \<open>designpattern/main.cpp\<close>.  A
  callback is a function on the state of the program.  A class is a value of \<open>msg_class\<close>; a downcast
  to a class that the object does not have fails in the assertion (\<^const>\<open>None\<close>), and so does a null
  pointer.
\<close>

datatype msg_class = Message | LoginMessage | ChatMessage

text \<open>The static \<open>msgType\<close> of a class, and the virtual \<open>getType\<close> of an object by its class.\<close>

fun msgType :: "msg_class \<Rightarrow> int" where
  "msgType Message = 0"
| "msgType LoginMessage = 1"
| "msgType ChatMessage = 2"

fun getType :: "msg_class \<Rightarrow> int" where
  "getType Message = 0"
| "getType LoginMessage = 1"
| "getType ChatMessage = 2"

definition derived :: "msg_class \<Rightarrow> msg_class \<Rightarrow> bool" where
  "derived c t \<longleftrightarrow> c = t \<or> t = Message"

type_synonym 's msg_callback = "msg_class \<Rightarrow> int \<Rightarrow> 's \<Rightarrow> 's option"

record 's callback_t =
  cb_class :: msg_class
  cb_fun :: "'s msg_callback"

text \<open>\<open>down_pointer_cast<T>\<close> and \<open>CallbackT<T>::onMessage\<close>; the message is the class of the object, or null.\<close>

definition down_pointer_cast :: "msg_class \<Rightarrow> msg_class option \<Rightarrow> msg_class option option" where
  "down_pointer_cast t f = (case f of None \<Rightarrow> Some None | Some c \<Rightarrow> if derived c t then Some (Some c) else None)"

definition onMessage :: "'s callback_t \<Rightarrow> msg_class option \<Rightarrow> int \<Rightarrow> 's \<Rightarrow> 's option" where
  "onMessage cb message timestamp s = do {
     concrete \<leftarrow> down_pointer_cast (cb_class cb) message;
     c \<leftarrow> concrete;
     cb_fun cb c timestamp s }"

record 's msg_dispatcher =
  callbacks :: "int \<rightharpoonup> 's callback_t list"
  defaultCallback :: "'s msg_callback"

definition MessageDispatcher :: "'s msg_callback \<Rightarrow> 's msg_dispatcher" where
  "MessageDispatcher defaultCb = \<lparr>callbacks = Map.empty, defaultCallback = defaultCb\<rparr>"

definition registerMessageCallback :: "msg_class \<Rightarrow> 's msg_callback \<Rightarrow> 's msg_dispatcher \<Rightarrow> 's msg_dispatcher" where
  "registerMessageCallback t callback d = (let pd = \<lparr>cb_class = t, cb_fun = callback\<rparr>;
       l = (case callbacks d (msgType t) of None \<Rightarrow> [] | Some l \<Rightarrow> l) in
     d\<lparr>callbacks := (callbacks d)(msgType t \<mapsto> l @ [pd])\<rparr>)"

fun call_each :: "'s callback_t list \<Rightarrow> msg_class option \<Rightarrow> int \<Rightarrow> 's \<Rightarrow> 's option" where
  "call_each [] message t s = Some s"
| "call_each (item # l) message t s = do { s \<leftarrow> onMessage item message t s; call_each l message t s }"

definition onProtobufMessage :: "'s msg_dispatcher \<Rightarrow> msg_class option \<Rightarrow> int \<Rightarrow> 's \<Rightarrow> 's option" where
  "onProtobufMessage d message receiveTime s = do {
     c \<leftarrow> message;
     case callbacks d (getType c) of
       Some l \<Rightarrow> call_each l message receiveTime s
     | None \<Rightarrow> defaultCallback d c receiveTime s }"

text \<open>The callbacks of \<open>main.cpp\<close> on the lines printed so far.\<close>

definition onResponse :: "msg_class \<Rightarrow> string list \<Rightarrow> string list option" where
  "onResponse c out = (case c of LoginMessage \<Rightarrow> Some (out @ ['' login msg  ''])
     | ChatMessage \<Rightarrow> Some (out @ ['' chat msg  '']) | Message \<Rightarrow> None)"

definition onLogin :: "string list msg_callback" where
  "onLogin c t out = onResponse c out"

definition onChat :: "string list msg_callback" where
  "onChat c t out = onResponse c out"

definition onUnKonown :: "string list msg_callback" where
  "onUnKonown c t out = Some (out @ ['' unkonwn msg  ''])"

definition onLoginMsg :: "string list msg_callback" where
  "onLoginMsg c t out = onResponse c (out @ ['' on login msg  ''])"

definition onChatMsg :: "string list msg_callback" where
  "onChatMsg c t out = onResponse c (out @ ['' on chat msg  ''])"

definition main_dispatch :: "string list \<Rightarrow> string list option" where
  "main_dispatch out = do {
     let d = MessageDispatcher onUnKonown;
     let d = registerMessageCallback ChatMessage onChat d;
     let d = registerMessageCallback LoginMessage onLogin d;
     let d = registerMessageCallback ChatMessage onChatMsg d;
     let d = registerMessageCallback LoginMessage onLoginMsg d;
     out \<leftarrow> onProtobufMessage d (Some ChatMessage) 11 out;
     onProtobufMessage d (Some LoginMessage) 22 out }"

subsection \<open>Which callbacks a message reaches\<close>

definition register_all :: "(msg_class \<times> 's msg_callback) list \<Rightarrow> 's msg_dispatcher \<Rightarrow> 's msg_dispatcher" where
  "register_all rs d = fold (\<lambda>(t, f). registerMessageCallback t f) rs d"

fun run_callbacks :: "'s msg_callback list \<Rightarrow> msg_class \<Rightarrow> int \<Rightarrow> 's \<Rightarrow> 's option" where
  "run_callbacks [] c t s = Some s"
| "run_callbacks (f # fs) c t s = do { s \<leftarrow> f c t s; run_callbacks fs c t s }"

definition registered :: "msg_class \<Rightarrow> (msg_class \<times> 's msg_callback) list \<Rightarrow> 's msg_callback list" where
  "registered c rs = map snd (filter (\<lambda>(t, f). t = c) rs)"

lemma msgType_inj: "msgType a = msgType b \<longleftrightarrow> a = b"
  by (cases a; cases b) simp_all

lemma getType_msgType: "getType c = msgType c"
  by (cases c) simp_all

lemma register_all_callbacks:
  "callbacks (register_all rs d) (msgType c) = (case callbacks d (msgType c) of
      None \<Rightarrow> if registered c rs = [] then None else Some (map (\<lambda>f. \<lparr>cb_class = c, cb_fun = f\<rparr>) (registered c rs))
    | Some l \<Rightarrow> Some (l @ map (\<lambda>f. \<lparr>cb_class = c, cb_fun = f\<rparr>) (registered c rs)))"
proof (induction rs arbitrary: d)
  case (Cons r rs)
  obtain t f where r: "r = (t, f)" by fastforce
  have "register_all (r # rs) d = register_all rs (registerMessageCallback t f d)" by (simp add: register_all_def r)
  then show ?case
    using Cons.IH [of "registerMessageCallback t f d"]
    by (auto simp: r registered_def registerMessageCallback_def Let_def msgType_inj split: option.splits)
qed (simp add: register_all_def registered_def split: option.splits)

lemma register_all_default: "defaultCallback (register_all rs d) = defaultCallback d"
  unfolding register_all_def
  by (induction rs arbitrary: d) (auto simp: registerMessageCallback_def Let_def)

lemma call_each_run: "derived c t \<Longrightarrow> call_each (map (\<lambda>f. \<lparr>cb_class = t, cb_fun = f\<rparr>) fs) (Some c) n = run_callbacks fs c n"
proof (induction fs)
  case (Cons f fs)
  then have "call_each (map (\<lambda>f. \<lparr>cb_class = t, cb_fun = f\<rparr>) fs) (Some c) n = run_callbacks fs c n" by simp
  then show ?case using Cons.prems by (intro ext) (simp add: onMessage_def down_pointer_cast_def)
qed (simp add: fun_eq_iff)

text \<open>C36: Dispatching is type safe: a message reaches exactly the callbacks registered for its class, in
  the order in which they were registered, whatever was registered in between for other classes, and
  it reaches the default callback exactly when there is none.  So the downcast in a callback never
  fails: a run is undefined only if a callback itself is.\<close>

theorem dispatch_correct:
  "onProtobufMessage (register_all rs (MessageDispatcher dflt)) (Some c) t s
     = (if registered c rs = [] then dflt c t s else run_callbacks (registered c rs) c t s)"
proof -
  have "derived c c" by (simp add: derived_def)
  then show ?thesis
    by (simp add: onProtobufMessage_def getType_msgType register_all_callbacks register_all_default MessageDispatcher_def call_each_run)
qed

text \<open>The part of \<open>main.cpp\<close>.\<close>

lemma main_dispatch_output:
  "main_dispatch [] = Some ['' chat msg  '', '' on chat msg  '', '' chat msg  '', '' login msg  '', '' on login msg  '', '' login msg  '']"
proof -
  let ?d = "register_all [(ChatMessage, onChat), (LoginMessage, onLogin), (ChatMessage, onChatMsg), (LoginMessage, onLoginMsg)]
    (MessageDispatcher onUnKonown)"
  have m: "main_dispatch out = do { out \<leftarrow> onProtobufMessage ?d (Some ChatMessage) 11 out; onProtobufMessage ?d (Some LoginMessage) 22 out }" for out
    by (simp add: main_dispatch_def register_all_def Let_def)
  have c: "callbacks ?d 2 = Some [\<lparr>cb_class = ChatMessage, cb_fun = onChat\<rparr>, \<lparr>cb_class = ChatMessage, cb_fun = onChatMsg\<rparr>]"
    "callbacks ?d 1 = Some [\<lparr>cb_class = LoginMessage, cb_fun = onLogin\<rparr>, \<lparr>cb_class = LoginMessage, cb_fun = onLoginMsg\<rparr>]"
    by (simp_all add: register_all_def registerMessageCallback_def MessageDispatcher_def Let_def)
  show ?thesis
    by (simp add: m onProtobufMessage_def c onMessage_def down_pointer_cast_def derived_def onChat_def onChatMsg_def onLogin_def
        onLoginMsg_def onResponse_def)
qed

end
