(* ===== verification/Patterns.thy ===== *)
theory Patterns
  imports CText "HOL-Library.Multiset"
begin

text \<open>
  Two of the programs in the directory designpattern: the chain of handlers of
  \<open>responsibilitychain.h\<close> and the exchangeable algorithms of \<open>strategy.h\<close>, both with objects in a
  heap.  What is printed is a list of texts, the first one first.
\<close>

subsection \<open>The chain of handlers\<close>

datatype handler_class = MonkeyHandler | SquirrelHandler | DogHandler

record handler =
  handler_class :: handler_class
  next_handler :: ptr

definition new_handler :: "handler_class \<Rightarrow> handler" where
  "new_handler k = \<lparr>handler_class = k, next_handler = NULL\<rparr>"

definition SetNext :: "handler heap \<Rightarrow> ptr \<Rightarrow> ptr \<Rightarrow> (ptr \<times> handler heap) option" where
  "SetNext h this handler = do { h \<leftarrow> wr (next_handler_update (\<lambda>_. handler)) h this; Some (handler, h) }"

fun eats :: "handler_class \<Rightarrow> string" where
  "eats MonkeyHandler = ''Banana''"
| "eats SquirrelHandler = ''Nut''"
| "eats DogHandler = ''MeatBall''"

fun reply :: "handler_class \<Rightarrow> string" where
  "reply MonkeyHandler = ''Monkey: I'' @ [CHR 0x27] @ ''ll eat the ''"
| "reply SquirrelHandler = ''Squirrel: I'' @ [CHR 0x27] @ ''ll eat the ''"
| "reply DogHandler = ''Dog: I'' @ [CHR 0x27] @ ''ll eat the ''"

definition reply_text :: "handler_class \<Rightarrow> string \<Rightarrow> string" where
  "reply_text k request = reply k @ request @ ''.'' @ [LF]"

text \<open>\<open>Handle\<close> of the three classes, and of the base class to which they pass the request on.\<close>

partial_function (option) Handle :: "handler heap \<Rightarrow> ptr \<Rightarrow> string \<Rightarrow> string option" where
  "Handle h this request = do {
     k \<leftarrow> rd handler_class h this;
     if request = eats k then Some (reply_text k request)
     else do {
       n \<leftarrow> rd next_handler h this;
       if n \<noteq> NULL then Handle h n request else Some [] } }"

fun client_code :: "handler heap \<Rightarrow> ptr \<Rightarrow> string list \<Rightarrow> string list option" where
  "client_code h handler [] = Some []"
| "client_code h handler (f # food) = do {
     result \<leftarrow> Handle h handler f;
     out \<leftarrow> client_code h handler food;
     Some ((''Client: Who wants a '' @ f @ ''?'' @ [LF]) #
       (if result \<noteq> [] then ''  '' @ result else ''  '' @ f @ '' was left untouched.'' @ [LF]) # out) }"

definition chain_food :: "string list" where
  "chain_food = [''Nut'', ''Banana'', ''Cup of coffee'']"

text \<open>\<open>testResponsibilityChain\<close>; \<open>monkey\<close>, \<open>squirrel\<close> and \<open>dog\<close> are the addresses the allocations answer.\<close>

definition testResponsibilityChain :: "ptr \<Rightarrow> ptr \<Rightarrow> ptr \<Rightarrow> handler heap \<Rightarrow> (string list \<times> handler heap) option" where
  "testResponsibilityChain monkey squirrel dog h = do {
     let h = h(monkey \<mapsto> new_handler MonkeyHandler, squirrel \<mapsto> new_handler SquirrelHandler, dog \<mapsto> new_handler DogHandler);
     (p, h) \<leftarrow> SetNext h monkey squirrel;
     (p, h) \<leftarrow> SetNext h p dog;
     a \<leftarrow> client_code h monkey chain_food;
     b \<leftarrow> client_code h squirrel chain_food;
     h \<leftarrow> free h monkey;
     h \<leftarrow> free h squirrel;
     h \<leftarrow> free h dog;
     Some ([''Chain: Monkey > Squirrel > Dog'' @ [LF, LF]] @ a @ [[LF], ''Subchain: Squirrel > Dog'' @ [LF, LF]] @ b, h) }"

text \<open>A chain from \<open>p\<close> over objects of the classes \<open>ks\<close>, which ends.\<close>

inductive chain :: "handler heap \<Rightarrow> ptr \<Rightarrow> handler_class list \<Rightarrow> bool" for h where
  chain_last: "p \<noteq> NULL \<Longrightarrow> h p = Some \<lparr>handler_class = k, next_handler = NULL\<rparr> \<Longrightarrow> chain h p [k]"
| chain_next: "p \<noteq> NULL \<Longrightarrow> h p = Some \<lparr>handler_class = k, next_handler = n\<rparr> \<Longrightarrow> n \<noteq> NULL \<Longrightarrow> chain h n ks
    \<Longrightarrow> chain h p (k # ks)"

definition chain_answer :: "handler_class list \<Rightarrow> string \<Rightarrow> string" where
  "chain_answer ks request = (case find (\<lambda>k. request = eats k) ks of None \<Rightarrow> [] | Some k \<Rightarrow> reply_text k request)"

lemma Handle_chain: "chain h p ks \<Longrightarrow> Handle h p request = Some (chain_answer ks request)"
proof (induction rule: chain.induct)
  case (chain_last p k)
  then show ?case by (simp add: Handle.simps [of h p] rd_def chain_answer_def)
next
  case (chain_next p k n ks)
  then show ?case by (simp add: Handle.simps [of h p] rd_def chain_answer_def)
qed

text \<open>Responsibility is decided along the chain: from any handler of a chain that ends, \<open>Handle\<close>
  returns, and its answer is that of the first handler from there on that eats the food, or the
  empty text when there is none.  A chain that runs into a circle and has no handler for the food
  does not return.\<close>

theorem chain_handles:
  "(chain h p ks \<longrightarrow> Handle h p request = Some (chain_answer ks request))
   \<and> (p \<in> C \<and> (\<forall>q \<in> C. q \<noteq> NULL \<and> (\<exists>k n. h q = Some \<lparr>handler_class = k, next_handler = n\<rparr> \<and> request \<noteq> eats k \<and> n \<in> C))
      \<longrightarrow> Handle h p request = None)"
proof -
  have "Handle h p request = None"
    if C: "p \<in> C" "\<forall>q \<in> C. q \<noteq> NULL \<and> (\<exists>k n. h q = Some \<lparr>handler_class = k, next_handler = n\<rparr> \<and> request \<noteq> eats k \<and> n \<in> C)"
  proof (rule ccontr)
    assume "Handle h p request \<noteq> None"
    then obtain y where y: "Handle h p request = Some y" by blast
    define P where "P h' p' r' y' \<longleftrightarrow> \<not> (h' = h \<and> r' = request \<and> p' \<in> C)" for h' p' r' and y' :: string
    have "P h p request y"
    proof (rule Handle.raw_induct [OF _ y, of P])
      fix Hd h' p' r' y'
      assume IH: "\<And>h' p' r' y'. Hd h' p' r' = Some y' \<Longrightarrow> P h' p' r' y'"
        and run: "do { k \<leftarrow> rd handler_class h' p'; if r' = eats k then Some (reply_text k r')
          else do { n \<leftarrow> rd next_handler h' p'; if n \<noteq> NULL then Hd h' n r' else Some [] } } = Some y'"
      show "P h' p' r' y'"
      proof (rule ccontr)
        assume "\<not> P h' p' r' y'"
        then have e: "h' = h" "r' = request" "p' \<in> C" by (simp_all add: P_def)
        obtain k n where n: "h p' = Some \<lparr>handler_class = k, next_handler = n\<rparr>" "request \<noteq> eats k" "n \<in> C" "p' \<noteq> NULL"
          using C(2) e(3) by blast
        have "n \<noteq> NULL" using C(2) n(3) by blast
        then have "Hd h n request = Some y'" using run e n by (simp add: rd_def)
        then show False using IH n(3) by (auto simp: P_def)
      qed
    qed
    then show False using C(1) by (simp add: P_def)
  qed
  then show ?thesis using Handle_chain by blast
qed

definition sample_chain :: "handler heap" where
  "sample_chain = Map.empty(Ptr 1 \<mapsto> \<lparr>handler_class = MonkeyHandler, next_handler = Ptr 2\<rparr>,
     Ptr 2 \<mapsto> \<lparr>handler_class = DogHandler, next_handler = NULL\<rparr>,
     Ptr 3 \<mapsto> \<lparr>handler_class = DogHandler, next_handler = Ptr 3\<rparr>)"

theorem chain_handles_witness:
  "Handle sample_chain (Ptr 1) ''MeatBall'' = Some (reply_text DogHandler ''MeatBall'') \<and> Handle sample_chain (Ptr 3) ''Nut'' = None"
proof -
  have "chain sample_chain (Ptr 2) [DogHandler]" by (rule chain_last) (simp_all add: sample_chain_def)
  then have "chain sample_chain (Ptr 1) [MonkeyHandler, DogHandler]"
    by (intro chain_next [of "Ptr 1" sample_chain MonkeyHandler "Ptr 2"]) (auto simp: sample_chain_def)
  moreover have "\<forall>q \<in> {Ptr 3}. q \<noteq> NULL \<and> (\<exists>k n. sample_chain q = Some \<lparr>handler_class = k, next_handler = n\<rparr>
      \<and> ''Nut'' \<noteq> eats k \<and> n \<in> {Ptr 3})" by (simp add: sample_chain_def)
  ultimately show ?thesis
    using chain_handles [of sample_chain "Ptr 1" "[MonkeyHandler, DogHandler]" "''MeatBall''" "{}"]
      chain_handles [of sample_chain "Ptr 3" "[]" "''Nut''" "{Ptr 3}"]
    by (simp add: chain_answer_def)
qed

text \<open>What the program prints: nobody wants the coffee, and the squirrel alone does not reach the banana.\<close>

lemma chain_program:
  assumes "distinct [a, b, c]" "NULL \<notin> {a, b, c}" "h a = None" "h b = None" "h c = None"
  shows "\<exists>out. testResponsibilityChain a b c h = Some (out, h) \<and> length out = 15
    \<and> out ! 2 = ''  '' @ reply_text SquirrelHandler ''Nut'' \<and> out ! 4 = ''  '' @ reply_text MonkeyHandler ''Banana''
    \<and> out ! 6 = ''  Cup of coffee was left untouched.'' @ [LF] \<and> out ! 12 = ''  Banana was left untouched.'' @ [LF]"
proof -
  let ?m = "\<lparr>handler_class = MonkeyHandler, next_handler = b\<rparr>" and ?s = "\<lparr>handler_class = SquirrelHandler, next_handler = c\<rparr>"
    and ?d = "\<lparr>handler_class = DogHandler, next_handler = NULL\<rparr>"
  let ?h = "h(a \<mapsto> ?m, b \<mapsto> ?s, c \<mapsto> ?d)"
  have nz: "a \<noteq> NULL" "b \<noteq> NULL" "c \<noteq> NULL" "a \<noteq> b" "a \<noteq> c" "b \<noteq> c" using assms(1,2) by auto
  have 1: "chain ?h c [DogHandler]" by (rule chain_last) (use assms in auto)
  have 2: "chain ?h b [SquirrelHandler, DogHandler]" by (rule chain_next [of _ _ _ c]) (use assms 1 in auto)
  have 3: "chain ?h a [MonkeyHandler, SquirrelHandler, DogHandler]" by (rule chain_next [of _ _ _ b]) (use assms 2 in auto)
  let ?start = "h(a \<mapsto> new_handler MonkeyHandler, b \<mapsto> new_handler SquirrelHandler, c \<mapsto> new_handler DogHandler)"
  let ?linked = "h(a \<mapsto> ?m, b \<mapsto> new_handler SquirrelHandler, c \<mapsto> new_handler DogHandler)"
  have u: "?start(a \<mapsto> ?m) = ?linked" "?linked(b \<mapsto> ?s) = ?h" using nz by (simp_all add: fun_eq_iff new_handler_def)
  have h1: "SetNext ?start a b = Some (b, ?linked)" and h2: "SetNext ?linked b c = Some (c, ?h)"
    using nz by (simp_all only: u [symmetric]) (simp_all add: SetNext_def wr_def new_handler_def)
  have f: "free ?h a \<bind> (\<lambda>h. free h b) \<bind> (\<lambda>h. free h c) = Some h"
    using nz assms(3-5) by (auto simp: free_def fun_eq_iff)
  then obtain ha hb where f': "free ?h a = Some ha" "free ha b = Some hb" "free hb c = Some h"
    by (auto simp: bind_eq_Some_conv)
  note H = Handle_chain [OF 2] Handle_chain [OF 3]
  show ?thesis
    by (simp add: testResponsibilityChain_def Let_def h1 h2 H f' chain_food_def chain_answer_def reply_text_def numeral_eq_Suc del: eats.simps reply.simps)
      (simp add: reply_text_def)
qed

subsection \<open>The exchangeable algorithms\<close>

datatype strategy = ConcreteStrategyA | ConcreteStrategyB

text \<open>\<open>std::sort\<close> compares values of the type \<open>char\<close>, which is signed; equal characters are the same.\<close>

definition signed_char :: "char \<Rightarrow> int" where
  "signed_char c = (let n = of_char c in if n < 128 then n else n - 256)"

definition sort_chars :: "string \<Rightarrow> string" where
  "sort_chars s = sort_key signed_char s"

text \<open>The loop of \<open>ConcreteStrategyB\<close>: \<open>i\<close> from 0 below half the length.\<close>

definition swap_chars :: "nat \<Rightarrow> nat \<Rightarrow> string \<Rightarrow> string" where
  "swap_chars i j s = s[i := s ! j, j := s ! i]"

definition reverse_loop :: "string \<Rightarrow> string" where
  "reverse_loop s = fold (\<lambda>i r. swap_chars i (length r - i - 1) r) [0..<length s div 2] s"

fun DoAlgorithm :: "strategy \<Rightarrow> string list \<Rightarrow> string" where
  "DoAlgorithm ConcreteStrategyA data = sort_chars (fold (\<lambda>letter result. result @ letter) data [])"
| "DoAlgorithm ConcreteStrategyB data = reverse_loop (sort_chars (fold (\<lambda>letter result. result @ letter) data []))"

text \<open>A \<open>Context\<close> owns the strategy its pointer leads to.\<close>

definition set_strategy :: "strategy heap \<Rightarrow> ptr \<Rightarrow> ptr \<Rightarrow> (ptr \<times> strategy heap) option" where
  "set_strategy h cur strategy = do { h \<leftarrow> free h cur; Some (strategy, h) }"

definition destroy_context :: "strategy heap \<Rightarrow> ptr \<Rightarrow> strategy heap option" where
  "destroy_context h cur = free h cur"

definition DoSomeBusinessLogic :: "strategy heap \<Rightarrow> ptr \<Rightarrow> string list option" where
  "DoSomeBusinessLogic h cur = do {
     k \<leftarrow> rd id h cur;
     Some [''Context: Sorting data using the strategy (not sure how it'' @ [CHR 0x27] @ ''ll do it)'' @ [LF],
       DoAlgorithm k [''a'', ''e'', ''c'', ''b'', ''d''] @ [LF]] }"

definition testStrategy :: "ptr \<Rightarrow> ptr \<Rightarrow> strategy heap \<Rightarrow> (string list \<times> strategy heap) option" where
  "testStrategy a b h = do {
     let h = h(a \<mapsto> ConcreteStrategyA);
     o1 \<leftarrow> DoSomeBusinessLogic h a;
     let h = h(b \<mapsto> ConcreteStrategyB);
     (s, h) \<leftarrow> set_strategy h a b;
     o2 \<leftarrow> DoSomeBusinessLogic h s;
     h \<leftarrow> destroy_context h s;
     Some ([''Client: Strategy is set to normal sorting.'' @ [LF]] @ o1 @ [[LF], ''Client: Strategy is set to reverse sorting.'' @ [LF]] @ o2, h) }"

lemma reverse_loop_steps:
  assumes "k \<le> length s div 2"
  shows "fold (\<lambda>i r. swap_chars i (length r - i - 1) r) [0..<k] s
    = map (\<lambda>i. if i < k \<or> length s - k \<le> i then s ! (length s - i - 1) else s ! i) [0..<length s]"
  using assms
proof (induction k)
  case 0
  then show ?case by (auto intro: nth_equalityI)
next
  case (Suc k)
  then show ?case by (auto simp: swap_chars_def nth_list_update intro!: nth_equalityI)
qed

lemma reverse_loop_rev: "reverse_loop s = rev s"
proof -
  have "s ! i = s ! (length s - Suc i)" if "i < length s" "\<not> i < length s div 2" "\<not> length s - length s div 2 \<le> i" for i
  proof -
    have "i = length s - Suc i" using that by linarith
    then show ?thesis by simp
  qed
  then show ?thesis
    unfolding reverse_loop_def reverse_loop_steps [OF order_refl] by (intro nth_equalityI) (auto simp: rev_nth)
qed

lemma fold_append: "fold (\<lambda>letter result. result @ letter) xss a = a @ concat xss"
  by (induction xss arbitrary: a) simp_all

text \<open>The first strategy returns the characters of all its texts in ascending order (of signed
  characters), the second one the same in descending order.  A context that is given a new strategy
  deallocates the old one and uses the new one from then on; given the strategy it has, it keeps a
  pointer to a deallocated object, and its next use is undefined.\<close>

theorem strategy_correct:
  "sorted (map signed_char (DoAlgorithm ConcreteStrategyA data)) \<and> mset (DoAlgorithm ConcreteStrategyA data) = mset (concat data)
   \<and> DoAlgorithm ConcreteStrategyB data = rev (DoAlgorithm ConcreteStrategyA data)
   \<and> (p \<noteq> NULL \<and> h p \<noteq> None \<longrightarrow>
       (\<exists>h'. set_strategy h p p = Some (p, h') \<and> DoSomeBusinessLogic h' p = None)
       \<and> (q \<noteq> p \<longrightarrow> (\<exists>h'. set_strategy h p q = Some (q, h') \<and> h' p = None \<and> DoSomeBusinessLogic h' q = DoSomeBusinessLogic h q)))"
  by (auto simp: sort_chars_def fold_append reverse_loop_rev set_strategy_def free_def DoSomeBusinessLogic_def rd_def
      simp del: DoAlgorithm.simps) (simp_all add: sort_chars_def fold_append reverse_loop_rev)

theorem strategy_correct_witness:
  "\<exists>h'. set_strategy [Ptr 1 \<mapsto> ConcreteStrategyA] (Ptr 1) (Ptr 1) = Some (Ptr 1, h') \<and> DoSomeBusinessLogic h' (Ptr 1) = None"
  using strategy_correct [of "[]" "Ptr 1" "[Ptr 1 \<mapsto> ConcreteStrategyA]" NULL] by simp

lemma strategy_program:
  assumes "a \<noteq> b" "a \<noteq> NULL" "b \<noteq> NULL" "h a = None" "h b = None"
  shows "\<exists>out. testStrategy a b h = Some (out, h) \<and> out ! 2 = ''abcde'' @ [LF] \<and> out ! 6 = ''edcba'' @ [LF]"
  using assms
  by (simp add: testStrategy_def DoSomeBusinessLogic_def set_strategy_def destroy_context_def free_def rd_def fold_append
      reverse_loop_rev sort_chars_def signed_char_def fun_upd_twist)
    (auto simp: fun_eq_iff)

end
