(* ===== verification/Drawing.thy ===== *)
theory Drawing
  imports CText
begin

text \<open>
  The programs of the directory designpattern about hidden implementations and their own \<open>swap\<close>:
  \<open>graphics.h\<close>, \<open>graphics.cpp\<close>, \<open>graphicsimpl.cpp\<close> and \<open>drawstuff.h\<close>, and the part of \<open>main.cpp\<close> that
  uses them.  A \<open>shared_ptr\<close> is the address of a block that counts its owners; a block whose last
  owner ends is freed.  What is printed is a list of texts, the first one first.  The constructor and
  the assignment of \<open>TestTempl\<close> from a \<open>T\<close> are never instantiated (the classes they are used for have
  no member \<open>t\<close>).
\<close>

subsection \<open>Shared blocks\<close>

record 'o shared_block =
  sb_object :: 'o
  sb_owners :: nat

type_synonym 'o shared_heap = "'o shared_block heap"

text \<open>\<open>shared_ptr(new T)\<close> at the address \<open>new\<close> answers, and the end of an owner.\<close>

definition make_shared :: "'o shared_heap \<Rightarrow> ptr \<Rightarrow> 'o \<Rightarrow> 'o shared_heap" where
  "make_shared h p x = h(p \<mapsto> \<lparr>sb_object = x, sb_owners = 1\<rparr>)"

definition drop_owner :: "'o shared_heap \<Rightarrow> ptr \<Rightarrow> 'o shared_heap option" where
  "drop_owner h p = do { n \<leftarrow> rd sb_owners h p;
     if n = 1 then free h p else wr (sb_owners_update (\<lambda>_. n - 1)) h p }"

subsection \<open>drawstuff.h\<close>

record draw_impl =
  di_name :: string

definition draw_line :: "string \<Rightarrow> int \<Rightarrow> int \<Rightarrow> string" where
  "draw_line s x y = s @ ''draw x='' @ dec x @ '' y='' @ dec y"

definition impl_draw :: "draw_impl \<Rightarrow> int \<Rightarrow> int \<Rightarrow> string" where
  "impl_draw d x y = draw_line ''impl '' x y @ '' name: '' @ di_name d @ [LF]"

text \<open>\<open>Draw\<close> holds a raw pointer; its destructor is the default one.\<close>

record draw =
  dr_impl :: ptr

definition draw_new :: "draw_impl heap \<Rightarrow> ptr \<Rightarrow> draw \<times> draw_impl heap" where
  "draw_new h p = (\<lparr>dr_impl = p\<rparr>, h(p \<mapsto> \<lparr>di_name = []\<rparr>))"

definition draw_swap :: "draw \<Rightarrow> draw \<Rightarrow> draw \<times> draw" where
  "draw_swap a b = (a\<lparr>dr_impl := dr_impl b\<rparr>, b\<lparr>dr_impl := dr_impl a\<rparr>)"

definition draw_draw :: "draw_impl heap \<Rightarrow> draw \<Rightarrow> int \<Rightarrow> int \<Rightarrow> string list option" where
  "draw_draw h d x y = do { i \<leftarrow> rd id h (dr_impl d); Some [draw_line [] x y @ [LF], impl_draw i x y] }"

text \<open>\<open>TestTempl<DrawImpl>\<close>.\<close>

record templ =
  te_t :: ptr

definition templ_new :: "draw_impl shared_heap \<Rightarrow> ptr \<Rightarrow> templ \<times> draw_impl shared_heap" where
  "templ_new h p = (\<lparr>te_t = p\<rparr>, make_shared h p \<lparr>di_name = []\<rparr>)"

definition templ_setName :: "draw_impl shared_heap \<Rightarrow> templ \<Rightarrow> string \<Rightarrow> draw_impl shared_heap option" where
  "templ_setName h a s = wr (sb_object_update (di_name_update (\<lambda>_. s))) h (te_t a)"

definition templ_member_swap :: "templ \<Rightarrow> templ \<Rightarrow> string list \<times> templ \<times> templ" where
  "templ_member_swap a b = (['' draw templ swap '' @ [LF]], a\<lparr>te_t := te_t b\<rparr>, b\<lparr>te_t := te_t a\<rparr>)"

definition templ_draw :: "draw_impl shared_heap \<Rightarrow> templ \<Rightarrow> int \<Rightarrow> int \<Rightarrow> string list option" where
  "templ_draw h a x y = do { i \<leftarrow> rd sb_object h (te_t a); Some ['' templ draw '' @ [LF], impl_draw i x y] }"

text \<open>The function \<open>DrawStuff::swap\<close>, which the call in \<open>main\<close> finds through its arguments.\<close>

definition templ_swap :: "templ \<Rightarrow> templ \<Rightarrow> string list \<times> templ \<times> templ" where
  "templ_swap a b = (let (out, a, b) = templ_member_swap a b in (('' function templ swap '' @ [LF]) # out, a, b))"

definition templ_destroy :: "draw_impl shared_heap \<Rightarrow> templ \<Rightarrow> draw_impl shared_heap option" where
  "templ_destroy h a = drop_owner h (te_t a)"

subsection \<open>graphics.h, graphics.cpp and graphicsimpl.cpp\<close>

record graphics =
  gr_impl :: ptr

definition graphics_new :: "unit shared_heap \<Rightarrow> ptr \<Rightarrow> graphics \<times> unit shared_heap" where
  "graphics_new h p = (\<lparr>gr_impl = p\<rparr>, make_shared h p ())"

definition graphics_destroy :: "unit shared_heap \<Rightarrow> graphics \<Rightarrow> unit shared_heap option" where
  "graphics_destroy h g = drop_owner h (gr_impl g)"

definition graphics_member_swap :: "graphics \<Rightarrow> graphics \<Rightarrow> string list \<times> graphics \<times> graphics" where
  "graphics_member_swap a b = (['' impl swap '' @ [LF]], a\<lparr>gr_impl := gr_impl b\<rparr>, b\<lparr>gr_impl := gr_impl a\<rparr>)"

definition graphics_swap :: "graphics \<Rightarrow> graphics \<Rightarrow> string list \<times> graphics \<times> graphics" where
  "graphics_swap a b = (let (out, a, b) = graphics_member_swap a b in (('' my swap '' @ [LF]) # out, a, b))"

text \<open>The functions that draw use none of their coordinates.\<close>

definition impl_drawLine :: "string list" where
  "impl_drawLine = [''impl draw line int '' @ [LF]]"

definition impl_drawRectangle_int :: "string list" where
  "impl_drawRectangle_int = [''impl draw rect int '' @ [LF]]"

definition impl_drawRectangle_float :: "string list" where
  "impl_drawRectangle_float = [''impl draw rect float '' @ [LF]]"

definition drawLine :: "unit shared_heap \<Rightarrow> graphics \<Rightarrow> string list option" where
  "drawLine h g = do { _ \<leftarrow> rd sb_object h (gr_impl g); Some ((''graphics draw line'' @ [LF]) # impl_drawLine) }"

definition drawRectangle_int :: "unit shared_heap \<Rightarrow> graphics \<Rightarrow> string list option" where
  "drawRectangle_int h g = do { _ \<leftarrow> rd sb_object h (gr_impl g); Some ((''graphics draw rect int '' @ [LF]) # impl_drawRectangle_int) }"

definition drawRectangle_float :: "unit shared_heap \<Rightarrow> graphics \<Rightarrow> string list option" where
  "drawRectangle_float h g = do { _ \<leftarrow> rd sb_object h (gr_impl g); Some (('' draw rect float '' @ [LF]) # impl_drawRectangle_float) }"

subsection \<open>The program\<close>

text \<open>The first two blocks of \<open>main\<close>; the addresses are what \<open>new\<close> answers.\<close>

definition main_graphics :: "ptr \<Rightarrow> ptr \<Rightarrow> unit shared_heap \<Rightarrow> (string list \<times> unit shared_heap) option" where
  "main_graphics p q h = do {
     let (g1, h) = graphics_new h p;
     let (g2, h) = graphics_new h q;
     let (out, g1, g2) = graphics_swap g1 g2;
     h \<leftarrow> graphics_destroy h g2;
     h \<leftarrow> graphics_destroy h g1;
     Some (out, h) }"

definition main_templ :: "ptr \<Rightarrow> ptr \<Rightarrow> draw_impl shared_heap \<Rightarrow> (string list \<times> draw_impl shared_heap) option" where
  "main_templ p q h = do {
     let (test, h) = templ_new h p;
     let (test1, h) = templ_new h q;
     h \<leftarrow> templ_setName h test ''test'';
     h \<leftarrow> templ_setName h test1 ''test1'';
     a \<leftarrow> templ_draw h test 2 3;
     b \<leftarrow> templ_draw h test1 3 4;
     let (c, test, test1) = templ_swap test test1;
     d \<leftarrow> templ_draw h test 2 3;
     e \<leftarrow> templ_draw h test1 3 4;
     h \<leftarrow> templ_destroy h test1;
     h \<leftarrow> templ_destroy h test;
     Some (a @ b @ c @ d @ e, h) }"

subsection \<open>Properties\<close>

lemma heap_restore: "h p = None \<Longrightarrow> h(p := None) = h"
  by (simp add: fun_eq_iff)

text \<open>Swapping two of the objects exchanges what they draw and nothing else, and swapping again
  restores them; the blocks of the program draw the exchanged names after the swap, and when they end
  every block they allocated is freed exactly once.\<close>

theorem drawing_swaps:
  assumes "h p = None" "h q = None" "g p = None" "g q = None" "p \<noteq> q" "p \<noteq> NULL" "q \<noteq> NULL"
  shows "(let (out, a', b') = templ_swap a b in
       templ_draw k a' x y = templ_draw k b x y \<and> templ_draw k b' x y = templ_draw k a x y \<and> snd (templ_swap a' b') = (a, b))
    \<and> main_templ p q h = Some ([
         '' templ draw '' @ [LF], ''impl draw x=2 y=3 name: test'' @ [LF], '' templ draw '' @ [LF], ''impl draw x=3 y=4 name: test1'' @ [LF],
         '' function templ swap '' @ [LF], '' draw templ swap '' @ [LF],
         '' templ draw '' @ [LF], ''impl draw x=2 y=3 name: test1'' @ [LF], '' templ draw '' @ [LF], ''impl draw x=3 y=4 name: test'' @ [LF]], h)
    \<and> main_graphics p q g = Some (['' my swap '' @ [LF], '' impl swap '' @ [LF]], g)"
proof (intro conjI)
  show "let (out, a', b') = templ_swap a b in
       templ_draw k a' x y = templ_draw k b x y \<and> templ_draw k b' x y = templ_draw k a x y \<and> snd (templ_swap a' b') = (a, b)"
    by (simp add: templ_swap_def templ_member_swap_def templ_draw_def)
  have d: "dec 2 = ''2''" "dec 3 = ''3''" "dec 4 = ''4''" by code_simp+
  show "main_templ p q h = Some ([
         '' templ draw '' @ [LF], ''impl draw x=2 y=3 name: test'' @ [LF], '' templ draw '' @ [LF], ''impl draw x=3 y=4 name: test1'' @ [LF],
         '' function templ swap '' @ [LF], '' draw templ swap '' @ [LF],
         '' templ draw '' @ [LF], ''impl draw x=2 y=3 name: test1'' @ [LF], '' templ draw '' @ [LF], ''impl draw x=3 y=4 name: test'' @ [LF]], h)"
    using assms by (simp add: main_templ_def templ_new_def make_shared_def templ_setName_def templ_draw_def templ_swap_def
        templ_member_swap_def templ_destroy_def drop_owner_def rd_def wr_def free_def impl_draw_def draw_line_def d fun_upd_twist fun_upd_idem)
  show "main_graphics p q g = Some (['' my swap '' @ [LF], '' impl swap '' @ [LF]], g)"
    using assms by (simp add: main_graphics_def graphics_new_def make_shared_def graphics_swap_def graphics_member_swap_def
        graphics_destroy_def drop_owner_def rd_def free_def fun_upd_twist fun_upd_idem)
qed

theorem drawing_swaps_witness:
  "\<exists>out. main_templ (Ptr 1) (Ptr 2) (\<lambda>_. None) = Some (out, \<lambda>_. None) \<and> length out = 10"
  using drawing_swaps [of "\<lambda>_. None" "Ptr 1" "Ptr 2" "\<lambda>_. None" "\<lparr>te_t = NULL\<rparr>" "\<lparr>te_t = NULL\<rparr>" "\<lambda>_. None" 0 0]
  by (elim impE meta_impE conjE) simp_all

end
