(* ===== verification/RBTree_Main.thy ===== *)
theory RBTree_Main
  imports RBTree_Props
begin

text \<open>
  The program \<open>algorithm/main.cpp\<close>: it builds a red-black tree from an array, prints it in several
  ways and destroys it.  What it prints is a list of items, in order; an item stands for the text of
  its statement with the values in it.  The addresses that \<open>new\<close> answers, each with the colour the
  constructor is given, are an argument.
\<close>

subsection \<open>The program\<close>

datatype 'a shown = Data "'a list" | Inserted 'a | Removed 'a | Details "'a print_line list"
  | Pre_order "'a list" | In_order "'a list" | Post_order "'a list" | Least 'a | Greatest 'a

text \<open>The tree printed after an insertion or a removal, if the switch says so.\<close>

definition report :: "bool \<Rightarrow> 'a shown \<Rightarrow> 'a rbheap \<Rightarrow> ptr \<Rightarrow> 'a shown list option" where
  "report check x h root = (if check then do { ls \<leftarrow> print_root h root; Some [x, Details ls] } else Some [])"

fun main_inserts :: "bool \<Rightarrow> (ptr \<times> RBTColor) list \<Rightarrow> int rbheap \<Rightarrow> ptr \<Rightarrow> int list
    \<Rightarrow> (int shown list \<times> int rbheap \<times> ptr) option" where
  "main_inserts check ns h root [] = Some ([], h, root)"
| "main_inserts check [] h root (k # ks) = None"
| "main_inserts check (n # ns) h root (k # ks) = do {
     (h, root) \<leftarrow> insert_key (snd n) (fst n) h root k;
     out \<leftarrow> report check (Inserted k) h root;
     (outs, h, root) \<leftarrow> main_inserts check ns h root ks;
     Some (out @ outs, h, root) }"

fun main_removes :: "int rbheap \<Rightarrow> ptr \<Rightarrow> int list \<Rightarrow> (int shown list \<times> int rbheap \<times> ptr) option" where
  "main_removes h root [] = Some ([], h, root)"
| "main_removes h root (k # ks) = do {
     (h, root) \<leftarrow> remove_key h root k;
     out \<leftarrow> report True (Removed k) h root;
     (outs, h, root) \<leftarrow> main_removes h root ks;
     Some (out @ outs, h, root) }"

text \<open>\<open>main\<close> with its two switches and its array; the value it uses for an empty tree is \<open>(int)NULL\<close>.\<close>

definition rb_program :: "bool \<Rightarrow> bool \<Rightarrow> (ptr \<times> RBTColor) list \<Rightarrow> int list \<Rightarrow> (int shown list \<times> int rbheap) option" where
  "rb_program check_insert check_remove ns a = do {
     (out1, h, root) \<leftarrow> main_inserts check_insert ns (\<lambda>_. None) NULL a;
     pre \<leftarrow> preOrder h root;
     ino \<leftarrow> inOrder h root;
     post \<leftarrow> postOrder h root;
     least \<leftarrow> minimum_key 0 h root;
     greatest \<leftarrow> maximum_key 0 h root;
     ls \<leftarrow> print_root h root;
     (out2, h, root) \<leftarrow> (if check_remove then main_removes h root a else Some ([], h, root));
     (h, root) \<leftarrow> destroy h root RootRef;
     Some (Data a # out1 @ [Pre_order pre, In_order ino, Post_order post, Least least, Greatest greatest, Details ls] @ out2, h) }"

definition main_array :: "int list" where
  "main_array = [10, 40, 30, 60, 90, 70, 20, 50, 80]"

definition rb_main :: "(ptr \<times> RBTColor) list \<Rightarrow> (int shown list \<times> int rbheap) option" where
  "rb_main ns = rb_program False False ns main_array"

subsection \<open>What it does\<close>

lemma rb_good_print: "rb_good M (h, root) t \<Longrightarrow> print_root h root = Some (all_lines t)"
  using print_root_lines [of h t] by (simp add: rb_good_def repr_def)

lemma report_run:
  assumes "rb_good M (h, root) t"
  shows "report check x h root = Some (if check then [x, Details (all_lines t)] else [])"
  using rb_good_print [OF assms] by (simp add: report_def)

lemma rb_good_insert_dom:
  assumes "rb_good M (h, root) t" "z \<noteq> NULL" "h z = None"
  shows "\<exists>h' root' t'. insert_key c z h root k = Some (h', root') \<and> rb_good (add_mset k M) (h', root') t'
    \<and> dom h' = insert z (dom h)"
proof -
  obtain s t' where s: "insert_key c z h root k = Some s" "rb_good (add_mset k M) s t'"
    using rb_good_insert [OF assms] by blast
  obtain h' root' t2 where 1: "insert_key c z h root k = Some (h', root')" "rb_repr {} h' root' t2"
    "entries t2 = filter (\<lambda>e. snd e \<le> k) (entries t) @ (z, k) # filter (\<lambda>e. k < snd e) (entries t)"
    using insert_key_run [of "{}" h root t z c k] assms by (auto simp: rb_good_def)
  have "dom h' = fst ` set (entries t2)" using 1(2) by (simp add: repr_def addrs_entries)
  also have "\<dots> = insert z (fst ` set (entries t))" unfolding 1(3) by (force simp: image_iff)
  also have "fst ` set (entries t) = dom h" using assms(1) by (simp add: rb_good_def repr_def addrs_entries)
  finally show ?thesis using s 1(1) by auto
qed

lemma main_inserts_run:
  assumes "rb_good M (h, root) t" "length ns = length ks" "distinct (map fst ns)" "NULL \<notin> fst ` set ns" "fst ` set ns \<inter> dom h = {}"
  shows "\<exists>out h' root' t'. main_inserts check ns h root ks = Some (out, h', root') \<and> rb_good (M + mset ks) (h', root') t'
    \<and> (\<not> check \<longrightarrow> out = [])"
  using assms
proof (induction check ns h root ks arbitrary: M t rule: main_inserts.induct)
  case (3 check n ns h root k ks)
  have n: "fst n \<noteq> NULL" "h (fst n) = None" using 3(4-6) by (auto simp: 3 domIff)
  obtain h1 root1 t1 where 1: "insert_key (snd n) (fst n) h root k = Some (h1, root1)"
    "rb_good (add_mset k M) (h1, root1) t1" "dom h1 = insert (fst n) (dom h)"
    using rb_good_insert_dom [OF 3(2) n] by blast
  obtain out where o: "report check (Inserted k) h1 root1 = Some out" "\<not> check \<longrightarrow> out = []"
    using report_run [OF 1(2)] by simp
  have p: "length ns = length ks" "distinct (map fst ns)" "NULL \<notin> fst ` set ns" "fst ` set ns \<inter> dom h1 = {}"
    using 3(3-6) 1(3) by auto
  obtain outs h' root' t' where "main_inserts check ns h1 root1 ks = Some (outs, h', root')"
    "rb_good (add_mset k M + mset ks) (h', root') t'" "\<not> check \<longrightarrow> outs = []"
    using 3(1) [OF 1(1) refl o(1) 1(2) p] by blast
  then show ?case using 1(1) o by auto
qed auto

lemma main_removes_run:
  assumes "rb_good M (h, root) t"
  shows "\<exists>out h' root' t'. main_removes h root ks = Some (out, h', root') \<and> rb_good (M - mset ks) (h', root') t'"
  using assms
proof (induction ks arbitrary: M h root t)
  case (Cons k ks)
  obtain h1 root1 t1 where 1: "remove_key h root k = Some (h1, root1)" "rb_good (M - {#k#}) (h1, root1) t1"
    using rb_good_remove [OF Cons.prems, of k] by auto
  obtain outs h' root' t' where "main_removes h1 root1 ks = Some (outs, h', root')" "rb_good (M - {#k#} - mset ks) (h', root') t'"
    using Cons.IH [OF 1(2)] by blast
  then show ?case using 1(1) report_run [OF 1(2), of True "Removed k"]
    by - (rule exI, rule exI, rule exI, rule exI [of _ t'], simp)
qed auto

lemma rb_good_empty: "rb_good {#} (h, root) t \<Longrightarrow> root = NULL \<and> h = (\<lambda>_. None)"
proof -
  assume g: "rb_good {#} (h, root) t"
  then have "t = Lf" using rb_good_size(1) [OF g] by (cases t) simp_all
  then show ?thesis using g by (auto simp: rb_good_def repr_def)
qed

lemma destroy_run:
  assumes "rb_good M (h, root) t"
  shows "\<exists>h' root'. destroy h root RootRef = Some (h', root') \<and> card (dom h') = size M - 1"
proof (cases "t = Lf")
  case True
  then have "root = NULL" "M = {#}" "h = (\<lambda>_. None)" using assms by (auto simp: rb_good_def repr_def)
  then show ?thesis by (subst destroy.simps) (simp add: get_ref_def)
next
  case False
  have r: "rb_repr {} h root t" using assms by (simp add: rb_good_def)
  obtain x h' root' where d: "destroy h root RootRef = Some (h', root')" "x \<in> set (addrs t)" "dom h' = dom h - {x}"
    using destroy_one [of h NULL t root RootRef] r False by (auto simp: repr_def get_ref_def)
  have "x \<in> dom h" using r d(2) by (auto simp: repr_def)
  then show ?thesis using d rb_good_size(2,3) [OF assms] by simp
qed

lemma mset_orders: "mset (preorder_keys t) = mset (rb_keys t)" "mset (postorder_keys t) = mset (rb_keys t)"
  by (induction t) auto

text \<open>The part of the output between the insertions and the removals, for the array \<open>a\<close>.\<close>

definition rb_shows :: "int list \<Rightarrow> int shown list \<Rightarrow> bool" where
  "rb_shows a out \<longleftrightarrow> (\<exists>pre post ls. out = [Pre_order pre, In_order (sort a), Post_order post,
       Least (Min (set a)), Greatest (Max (set a)), Details ls]
     \<and> mset pre = mset a \<and> mset post = mset a \<and> map line_key ls = pre)"

lemma rb_good_shows:
  assumes g: "rb_good (mset a) (h, root) t" and ne: "a \<noteq> []"
  obtains pre post ls where "preOrder h root = Some pre" "inOrder h root = Some (sort a)"
    "postOrder h root = Some post" "minimum_key 0 h root = Some (Min (set a))"
    "maximum_key 0 h root = Some (Max (set a))" "print_root h root = Some ls"
    "rb_shows a [Pre_order pre, In_order (sort a), Post_order post, Least (Min (set a)),
       Greatest (Max (set a)), Details ls]"
proof -
  have r: "rb_repr {} h root t" "sorted (rb_keys t)" and m: "mset (rb_keys t) = mset a"
    using g by (simp_all add: rb_good_def)
  have t: "t \<noteq> Lf" and s: "set (rb_keys t) = set a" using m ne mset_eq_setD [OF m] by auto
  have d: "tree_in rb_cell h NULL t" "root = rp t" using r(1) by (simp_all add: repr_def)
  have o: "preOrder h root = Some (preorder_keys t)" "postOrder h root = Some (postorder_keys t)"
    using preOrder_tree [OF d(1)] postOrder_tree [OF d(1)] d(2) by simp_all
  have x: "minimum_key 0 h root = Some (Min (set a))" "maximum_key 0 h root = Some (Max (set a))"
    using rb_nav.extrema [OF r t] s by (auto simp: minimum_key_def maximum_key_def minimum_def maximum_def)
  show ?thesis
    using that [OF o(1) _ o(2) x rb_good_print [OF g]] rb_good_inOrder [OF g] m
    by (simp add: rb_shows_def mset_orders keys_of_lines del: mset_map)
qed

text \<open>The program run on an array that is not empty, with \<open>new\<close> answering distinct addresses: it
  ends; it prints the array, then (after the reports of the insertions) the keys in preorder, in
  ascending order and in postorder, the least, the greatest and one line per node in preorder.  With
  the removals switched on no node is left at the end; with them off \<open>destroy\<close> frees one node only, and
  all the others stay allocated.\<close>

theorem rb_program_correct:
  assumes "a \<noteq> []" "length ns = length a" "distinct (map fst ns)" "NULL \<notin> fst ` set ns"
  shows "\<exists>out1 out out2 h. rb_program ci cr ns a = Some (Data a # out1 @ out @ out2, h) \<and> rb_shows a out
    \<and> (\<not> ci \<longrightarrow> out1 = []) \<and> (\<not> cr \<longrightarrow> out2 = []) \<and> card (dom h) = (if cr then 0 else length a - 1)"
proof -
  have e: "rb_good {#} (\<lambda>_. None, NULL) (Lf :: int rbtree)" by (simp add: rb_good_def repr_def rb_inv_def)
  obtain out1 h root t where 1: "main_inserts ci ns (\<lambda>_. None) NULL a = Some (out1, h, root)"
    "rb_good (mset a) (h, root) t" "\<not> ci \<longrightarrow> out1 = []"
    using main_inserts_run [OF e assms(2-4), of ci] unfolding dom_empty Int_empty_right add_0 by blast
  from rb_good_shows [OF 1(2) assms(1)] obtain pre post ls where 2: "preOrder h root = Some pre"
    "inOrder h root = Some (sort a)" "postOrder h root = Some post" "minimum_key 0 h root = Some (Min (set a))"
    "maximum_key 0 h root = Some (Max (set a))" "print_root h root = Some ls"
    "rb_shows a [Pre_order pre, In_order (sort a), Post_order post, Least (Min (set a)),
       Greatest (Max (set a)), Details ls]" .
  obtain out2 h2 root2 t2 where 3: "(if cr then main_removes h root a else Some ([], h, root)) = Some (out2, h2, root2)"
    "rb_good (if cr then {#} else mset a) (h2, root2) t2" "\<not> cr \<longrightarrow> out2 = []"
    using main_removes_run [OF 1(2), of a] 1(2) by (cases cr) (simp_all, blast)
  obtain h3 root3 where 4: "destroy h2 root2 RootRef = Some (h3, root3)" "card (dom h3) = (if cr then 0 else length a - 1)"
    using destroy_run [OF 3(2)] by auto
  have "rb_program ci cr ns a = Some (Data a # out1 @ [Pre_order pre, In_order (sort a), Post_order post,
      Least (Min (set a)), Greatest (Max (set a)), Details ls] @ out2, h3)"
    by (simp only: rb_program_def 1(1) 2(1-6) 3(1) 4(1) bind.bind_lunit prod.case)
  then show ?thesis using 1(3) 2(7) 3(3) 4(2) by blast
qed

theorem rb_program_correct_witness:
  "\<exists>out h. rb_main [(Ptr 1, RED), (Ptr 2, RED), (Ptr 3, RED), (Ptr 4, RED), (Ptr 5, RED), (Ptr 6, RED),
      (Ptr 7, RED), (Ptr 8, RED), (Ptr 9, RED)] = Some (Data main_array # out, h)
    \<and> rb_shows main_array out \<and> card (dom h) = 8"
  using rb_program_correct [of main_array "[(Ptr 1, RED), (Ptr 2, RED), (Ptr 3, RED), (Ptr 4, RED), (Ptr 5, RED),
      (Ptr 6, RED), (Ptr 7, RED), (Ptr 8, RED), (Ptr 9, RED)]" False False]
  by (simp add: rb_main_def main_array_def eval_nat_numeral)

end
