(* ===== verification/Console.thy ===== *)
theory Console
  imports ClientSocket
begin

text \<open>
  The main program of the directory epoll, \<open>epoll/main.cpp\<close>: which part the argument selects, the
  console client (its callbacks, which run in the thread of \<open>ClientSocket\<close>, and its loop over the
  lines of the standard input) and the client that waits for an answer before every line.  The program of
  the directory clientsocket-cmake has the same callbacks and clients.  What is read from a descriptor and
  from the standard input are arguments; a C string that runs out of its array is \<^const>\<open>None\<close>.
\<close>

subsection \<open>The callbacks\<close>

record console_test =
  m_iconnect :: int
  tc_out :: "string list"

fun state_code :: "NetworkState \<Rightarrow> int" where
  "state_code UnknownSate = 0"
| "state_code Connected = 1"
| "state_code Unconnected = 2"
| "state_code HostLookup = 3"
| "state_code Connecting = 4"
| "state_code Bound = 5"
| "state_code Listening = 6"
| "state_code Closing = 7"
| "state_code Disconnect = 8"
| "state_code ManualDisconnect = 9"
| "state_code WaitConnect = 10"

definition connectCallBack :: "int \<Rightarrow> string \<Rightarrow> console_test \<Rightarrow> console_test" where
  "connectCallBack state msg t = (let t = t\<lparr>m_iconnect := state\<rparr> in
     t\<lparr>tc_out := tc_out t @ [''state ='' @ dec state @ ''  msg='' @ msg @ [LF]]\<rparr>)"

definition receive_text :: "string \<Rightarrow> nat \<Rightarrow> string" where
  "receive_text rc len = ''receive ='' @ rc @ ''  len='' @ dec (int len) @ [LF]"

definition receiveCallBack :: "char list \<Rightarrow> nat \<Rightarrow> console_test \<Rightarrow> console_test option" where
  "receiveCallBack buf len t = do {
     rc \<leftarrow> cstr buf 0;
     Some (t\<lparr>tc_out := tc_out t @ [receive_text rc len]\<rparr>) }"

text \<open>The calls of the callbacks by \<open>threadRun\<close>: it reads into one array of 1024 bytes, zero at the
  start, and passes that array and the number of bytes.\<close>

fun deliver :: "char list \<Rightarrow> client_event list \<Rightarrow> console_test \<Rightarrow> console_test option" where
  "deliver dataBuf [] t = Some t"
| "deliver dataBuf (Connect_cb st msg # es) t = deliver dataBuf es (connectCallBack (state_code st) msg t)"
| "deliver dataBuf (Receive_cb x # es) t = (let dataBuf = x @ drop (length x) dataBuf in do {
     t \<leftarrow> receiveCallBack dataBuf (length x) t;
     deliver dataBuf es t })"

subsection \<open>The standard input\<close>

text \<open>What is left of the input, and whether the stream is good; \<open>std::getline\<close> leaves its string as it
  is when the stream is not.\<close>

type_synonym stdin = "string \<times> bool"

definition getline :: "stdin \<Rightarrow> string \<Rightarrow> string \<times> stdin" where
  "getline inp cmd = (if \<not> snd inp then (cmd, inp) else
     (let l = takeWhile (\<lambda>c. c \<noteq> LF) (fst inp) in
      if length l < length (fst inp) then (l, drop (Suc (length l)) (fst inp), True) else (l, [], False)))"

subsection \<open>The clients\<close>

datatype console_call = Send_data string | Sleep_second

text \<open>The loop of \<open>testClient\<close>, which goes on for ever (\<^const>\<open>None\<close>) unless a line ends it.\<close>

partial_function (option) client_loop :: "stdin \<Rightarrow> string \<Rightarrow> console_call list option" where
  "client_loop inp cmd = (let (cmd, inp) = getline inp cmd in
     if cmd = ''exit'' then Some [Send_data cmd, Sleep_second]
     else do { cs \<leftarrow> client_loop inp cmd; Some (Send_data cmd # cs) })"

datatype local_call = Shows string | Sends string | Closes

text \<open>One answer in \<open>testLoaclClient\<close>, put in a new array of 1024 zero bytes.\<close>

definition show_answer :: "recv_result \<Rightarrow> local_call option" where
  "show_answer r = (case r of
      Received x \<Rightarrow> (if x = [] then Some (Shows ('' recv error'' @ [LF])) else do {
        buf \<leftarrow> cstr (x @ drop (length x) (replicate 1024 NUL)) 0;
        Some (Shows ('' recv msg = '' @ buf @ [LF])) })
    | _ \<Rightarrow> Some (Shows ('' recv error'' @ [LF])))"

text \<open>Its loop for the given answers; the flag says whether it ended or waits for one more.\<close>

fun local_loop :: "recv_result list \<Rightarrow> stdin \<Rightarrow> (local_call list \<times> bool) option" where
  "local_loop [] inp = Some ([], False)"
| "local_loop (r # rs) inp = do {
     out \<leftarrow> show_answer r;
     let (cmd, inp) = getline inp [];
     if cmd = ''exit'' then Some ([out, Sends (''exit'' @ [NUL]), Closes], True)
     else do { (outs, e) \<leftarrow> local_loop rs inp; Some (out # Sends cmd # outs, e) } }"

definition testLoaclClient :: "int \<Rightarrow> recv_result list \<Rightarrow> stdin \<Rightarrow> (local_call list \<times> bool) option" where
  "testLoaclClient connected rs inp = do {
     (outs, e) \<leftarrow> local_loop rs inp;
     Some ((if connected = - 1 then [Shows ('' client connect error '' @ [LF])] else []) @ outs, e) }"

subsection \<open>The choice\<close>

text \<open>\<open>atoi\<close>: a value that an int cannot represent is undefined.\<close>

definition atoi :: "string \<Rightarrow> int option" where
  "atoi s = do { v \<leftarrow> atol s; if int_range v then Some v else None }"

datatype part = Test_client | Hello_server | Process_pool | Web_server int string | Web_test int int string | No_part

definition epoll_main :: "string list \<Rightarrow> part option" where
  "epoll_main argv = (if length argv > 1 then do {
       i \<leftarrow> atoi (argv ! 1);
       Some (if i = 0 then Test_client
         else if i = 1 then Hello_server
         else if i = 2 then Process_pool
         else if i = 3 then Web_server 9191 ''127.0.0.1''
         else if i = 4 then Web_test 5 9191 ''127.0.0.1''
         else No_part) }
     else Some No_part)"

text \<open>The program of the directory clientsocket-cmake looks only at whether there is an argument.\<close>

definition win_main :: "string list \<Rightarrow> part" where
  "win_main argv = (if length argv > 1 then Test_client else Hello_server)"

declare client_loop.simps [code]

subsection \<open>What they do\<close>

text \<open>The lines of a text; the last one may end with the text.\<close>

fun input_lines :: "string \<Rightarrow> string list" where
  "input_lines [] = []"
| "input_lines (c # cs) = (if c = LF then [] # input_lines cs
     else (case input_lines cs of [] \<Rightarrow> [[c]] | l # ls \<Rightarrow> (c # l) # ls))"

lemma input_lines_Nil [simp]: "input_lines t = [] \<longleftrightarrow> t = []"
  by (cases t) (auto split: list.splits)

lemma input_lines_step:
  assumes "l = takeWhile (\<lambda>c. c \<noteq> LF) t" "t \<noteq> []"
  shows "input_lines t = l # input_lines (drop (Suc (length l)) t)"
  using assms
proof (induction t arbitrary: l)
  case (Cons c t)
  then show ?case by (cases "t = []") auto
qed simp

lemma getline_lines:
  "t \<noteq> [] \<Longrightarrow> \<exists>l t' g. getline (t, True) cmd = (l, t', g) \<and> input_lines t = l # input_lines t' \<and> (\<not> g \<longrightarrow> t' = [])"
  using input_lines_step [of _ t] by (auto simp: getline_def Let_def not_less)

text \<open>Once the stream has failed the loop does not end, unless the last line it read was exit.\<close>

lemma client_loop_failed:
  assumes "client_loop (t, False) cmd = Some cs"
  shows "cmd = ''exit''"
proof -
  have "\<not> snd inp \<longrightarrow> cmd = ''exit''" if "client_loop inp cmd = Some cs" for inp
  proof (rule client_loop.raw_induct [OF _ that, of "\<lambda>inp cmd cs. \<not> snd inp \<longrightarrow> cmd = ''exit''"])
    fix cl inp cmd y
    assume "\<And>inp cmd y. cl inp cmd = Some y \<Longrightarrow> \<not> snd inp \<longrightarrow> cmd = ''exit''"
      and "(let (cmd, inp) = getline inp cmd in if cmd = ''exit'' then Some [Send_data cmd, Sleep_second]
        else cl inp cmd \<bind> (\<lambda>cs. Some (Send_data cmd # cs))) = Some y"
    then show "\<not> snd inp \<longrightarrow> cmd = ''exit''"
      by (fastforce simp: getline_def split: if_splits Option.bind_splits)
  qed
  then show ?thesis using assms by fastforce
qed

lemma client_loop_dead: "cmd \<noteq> ''exit'' \<Longrightarrow> client_loop (t, False) cmd = None"
  using client_loop_failed by fastforce

text \<open>The console client sends every line of its input up to the first line exit, which it sends too, and
  ends; if no line is exit it never ends: after the last line it goes on sending that line, or nothing.\<close>

theorem console_commands:
  "client_loop (src, True) cmd = (if ''exit'' \<in> set (input_lines src)
     then Some (map Send_data (takeWhile (\<lambda>l. l \<noteq> ''exit'') (input_lines src)) @ [Send_data ''exit'', Sleep_second])
     else None)"
proof (induction "length src" arbitrary: src cmd rule: less_induct)
  case less
  show ?case
  proof (cases "src = []")
    case True
    then show ?thesis by (subst client_loop.simps) (simp add: getline_def client_loop_dead)
  next
    case False
    obtain l t' g where g: "getline (src, True) cmd = (l, t', g)" "input_lines src = l # input_lines t'" "\<not> g \<longrightarrow> t' = []"
      using getline_lines [OF False, of cmd] by blast
    have "length t' < length src"
      using g(1) False by (auto simp: getline_def Let_def split: if_splits)
    note IH = less.hyps [OF this]
    show ?thesis
    proof (cases g)
      case True
      then show ?thesis using g IH by (subst client_loop.simps) simp
    next
      case False
      then show ?thesis using g by (subst client_loop.simps) (simp add: client_loop_dead)
    qed
  qed
qed

theorem console_commands_witness:
  "client_loop (''hello'' @ [LF] @ ''exit'' @ [LF] @ ''more'', True) [] =
     Some [Send_data ''hello'', Send_data ''exit'', Sleep_second]
   \<and> client_loop (''hello'' @ [LF] @ ''quit'', True) [] = None"
  by (simp add: console_commands)

text \<open>The string in the array of the thread after a message: the message, and behind it what an earlier and
  longer one has left.\<close>

definition overlay :: "string \<Rightarrow> string \<Rightarrow> string" where
  "overlay x rest = x @ drop (length x) rest"

fun shown_messages :: "string \<Rightarrow> string list \<Rightarrow> string list" where
  "shown_messages rest [] = []"
| "shown_messages rest (x # xs) = (let rest = overlay x rest in receive_text rest (length x) # shown_messages rest xs)"

lemma overlay_buffer:
  assumes "length rest < 1024" "length x < 1024"
  shows "x @ drop (length x) (rest @ replicate (1024 - length rest) NUL)
    = overlay x rest @ replicate (1024 - length (overlay x rest)) NUL"
  using assms by (cases "length x \<le> length rest") (simp_all add: overlay_def)

lemma buffer_string:
  assumes "NUL \<notin> set s" "length s < n"
  shows "cstr (s @ replicate (n - length s) NUL) 0 = Some s"
proof -
  have "replicate (n - length s) NUL = NUL # replicate (n - length s - 1) NUL"
    using assms(2) by (cases "n - length s") auto
  then show ?thesis using cstr_append [OF assms(1), of "[]"] by simp
qed

lemma overlay_NUL: "NUL \<notin> set x \<Longrightarrow> NUL \<notin> set rest \<Longrightarrow> NUL \<notin> set (overlay x rest)"
  by (auto simp: overlay_def dest: in_set_dropD)

lemma deliver_run:
  assumes "NUL \<notin> set rest" "length rest < 1024" "\<forall>x \<in> set xs. NUL \<notin> set x \<and> length x \<le> 1024"
  shows "deliver (rest @ replicate (1024 - length rest) NUL) (map Receive_cb xs) t
    = (if \<forall>x \<in> set xs. length x < 1024 then Some (t\<lparr>tc_out := tc_out t @ shown_messages rest xs\<rparr>) else None)"
  using assms
proof (induction xs arbitrary: rest t)
  case (Cons x xs)
  show ?case
  proof (cases "length x < 1024")
    case True
    have o: "NUL \<notin> set (overlay x rest)" "length (overlay x rest) < 1024"
      using Cons.prems True overlay_NUL [of x rest] by (auto simp: overlay_def)
    have "deliver (overlay x rest @ replicate (1024 - length (overlay x rest)) NUL) (map Receive_cb xs) t'
        = (if \<forall>x \<in> set xs. length x < 1024 then Some (t'\<lparr>tc_out := tc_out t' @ shown_messages (overlay x rest) xs\<rparr>) else None)"
      for t' using Cons.IH [OF o] Cons.prems(3) by simp
    then show ?thesis
      using True overlay_buffer [OF Cons.prems(2) True] buffer_string [OF o] by (simp add: receiveCallBack_def Let_def)
  next
    case False
    then have "length x = 1024" using Cons.prems(3) by simp
    then show ?thesis using Cons.prems(2,3) by (simp add: receiveCallBack_def cstr_def)
  qed
qed simp

text \<open>The console client prints the messages of the server, each with the bytes that an earlier, longer
  message has left in the array behind it; a message of 1024 bytes is undefined behaviour, since the array
  has no NUL then.\<close>

theorem console_prints:
  assumes "\<forall>x \<in> set xs. NUL \<notin> set x \<and> length x \<le> 1024"
  shows "deliver (replicate 1024 NUL) (map Receive_cb xs) t
    = (if \<forall>x \<in> set xs. length x < 1024 then Some (t\<lparr>tc_out := tc_out t @ shown_messages [] xs\<rparr>) else None)"
  using deliver_run [of "[]" xs t] assms by simp

theorem console_prints_witness:
  "deliver (replicate 1024 NUL) [Receive_cb ''welcome'', Receive_cb ''ok''] \<lparr>m_iconnect = 0, tc_out = []\<rparr>
    = Some \<lparr>m_iconnect = 0, tc_out = [receive_text ''welcome'' 7, receive_text ''oklcome'' 2]\<rparr>"
  using console_prints [of "[''welcome'', ''ok'']" "\<lparr>m_iconnect = 0, tc_out = []\<rparr>"]
  by (simp add: overlay_def eval_nat_numeral del: deliver.simps)

text \<open>The client that waits for an answer: every answer shorter than 1024 bytes is shown, then one line is sent.\<close>

fun answers_and_lines :: "string list \<Rightarrow> string list \<Rightarrow> local_call list \<times> bool" where
  "answers_and_lines [] ls = ([], False)"
| "answers_and_lines (x # xs) ls = (let l = (case ls of [] \<Rightarrow> [] | l # _ \<Rightarrow> l); out = Shows ('' recv msg = '' @ x @ [LF]) in
     if l = ''exit'' then ([out, Sends (''exit'' @ [NUL]), Closes], True)
     else (let (outs, e) = answers_and_lines xs (tl ls) in (out # Sends l # outs, e)))"

lemma local_loop_run:
  assumes "\<forall>x \<in> set xs. x \<noteq> [] \<and> NUL \<notin> set x \<and> length x < 1024" "\<not> snd inp \<longrightarrow> fst inp = []"
  shows "local_loop (map Received xs) inp = Some (answers_and_lines xs (input_lines (fst inp)))"
  using assms
proof (induction xs arbitrary: inp)
  case (Cons x xs)
  have s: "show_answer (Received x) = Some (Shows ('' recv msg = '' @ x @ [LF]))"
    using Cons.prems(1) buffer_string [of x 1024] by (simp add: show_answer_def)
  have "\<exists>inp'. getline inp [] = (case input_lines (fst inp) of [] \<Rightarrow> [] | l # _ \<Rightarrow> l, inp')
      \<and> input_lines (fst inp') = tl (input_lines (fst inp)) \<and> (\<not> snd inp' \<longrightarrow> fst inp' = [])"
  proof (cases "fst inp = []")
    case True
    then show ?thesis using Cons.prems(2) by (cases inp) (auto simp: getline_def)
  next
    case False
    then have "snd inp" using Cons.prems(2) by blast
    then have "inp = (fst inp, True)" by (cases inp) simp
    then show ?thesis using getline_lines [OF False, of "[]"] by fastforce
  qed
  then obtain inp' where i: "getline inp [] = (case input_lines (fst inp) of [] \<Rightarrow> [] | l # _ \<Rightarrow> l, inp')"
    "input_lines (fst inp') = tl (input_lines (fst inp))" "\<not> snd inp' \<longrightarrow> fst inp' = []" by blast
  have "local_loop (map Received xs) inp' = Some (answers_and_lines xs (tl (input_lines (fst inp))))"
    using Cons.IH [OF _ i(3)] Cons.prems(1) i(2) by simp
  then show ?case using s i(1) by (simp add: Let_def split: prod.splits)
qed simp

theorem local_client_alternates:
  assumes "\<forall>x \<in> set xs. x \<noteq> [] \<and> NUL \<notin> set x \<and> length x < 1024"
  shows "testLoaclClient 0 (map Received xs) (src, True) = Some (answers_and_lines xs (input_lines src))"
  using local_loop_run [OF assms, of "(src, True)"] by (simp add: testLoaclClient_def)

theorem local_client_alternates_witness:
  "testLoaclClient 0 [Received ''hi'', Received ''a''] (''a'' @ [LF] @ ''exit'' @ [LF], True)
    = Some ([Shows ('' recv msg = hi'' @ [LF]), Sends ''a'', Shows ('' recv msg = a'' @ [LF]), Sends (''exit'' @ [NUL]), Closes], True)"
  using local_client_alternates [of "[''hi'', ''a'']" "''a'' @ [LF] @ ''exit'' @ [LF]"] by simp

text \<open>The argument selects the part; a word that is not a number selects the console client.\<close>

theorem epoll_main_choice:
  "epoll_main [p] = Some No_part" "epoll_main [p, ''3''] = Some (Web_server 9191 ''127.0.0.1'')"
  "epoll_main [p, ''web''] = Some Test_client"
  by (simp_all add: epoll_main_def atoi_def atol_def is_space_def digit_value_def int_range_def)

end
