(* ===== verification/Programs.thy ===== *)
theory Programs
  imports MemDetect Logger_Props CVector CStringMod
begin

text \<open>
  Three small programs: \<open>memoryleak/main.cpp\<close>, which allocates and frees under the leak detector,
  \<open>log/main.cpp\<close>, which opens the log and writes one line, and \<open>mystl/main.cpp\<close>, which tries the string,
  the vector and the templates of \<open>mystl/simpletemplate.h\<close>.
\<close>

subsection \<open>The leak detector's program\<close>

text \<open>
  \<open>f\<close> is the file name of the program, \<open>m1\<close> to \<open>m5\<close> are the blocks that \<open>malloc\<close> answers (an address
  may come back after it was freed) with their content \<open>c\<close>, \<open>n\<close> is the size of the block that
  \<open>make_shared\<close> asks for, and \<open>w\<close> and \<open>v\<close> are the addresses of the callers without a line.
\<close>

definition mem_main_ops :: "string \<Rightarrow> nat \<Rightarrow> nat \<Rightarrow> nat \<Rightarrow> nat \<Rightarrow> nat \<Rightarrow> new_ptr_list_t \<Rightarrow> 64 word \<Rightarrow> ptr \<Rightarrow> ptr \<Rightarrow> mem_op list" where
  "mem_main_ops f m1 m2 m3 m4 m5 c n w v =
     [New m1 c 4 (File f) 13 False,
      New m2 c 16 (File f) 15 True, Delete m2 v True,
      New m3 c 4 (File f) 17 False, Delete m3 v False,
      New m4 c 4 (File f) 19 True, Delete m4 v True,
      New m5 c n (Addr w) 0 False, Delete m5 v False]"

definition mem_main :: "string \<Rightarrow> nat \<Rightarrow> nat \<Rightarrow> nat \<Rightarrow> nat \<Rightarrow> nat \<Rightarrow> new_ptr_list_t \<Rightarrow> 64 word \<Rightarrow> ptr \<Rightarrow> ptr
    \<Rightarrow> (int \<times> mem_state) option" where
  "mem_main f m1 m2 m3 m4 m5 c n w v = do {
     s \<leftarrow> mem_runs (mem_main_ops f m1 m2 m3 m4 m5 c n w v) mem_init;
     checkLeaks s }"

text \<open>The program reports exactly one leak, the four bytes allocated in line 13, wherever its blocks lie.\<close>

theorem mem_main_leak:
  assumes "LIST \<notin> {m1, m2, m3, m4, m5}" "m1 \<notin> {m2, m3, m4, m5}" "unat n + ALIGNED_LIST_ITEM_SIZE < 2 ^ 64"
  shows "\<exists>s out. mem_main f m1 m2 m3 m4 m5 c n w v = Some (1, s) \<and> total_mem_alloc s = 4
    \<and> printed s = out @ [Leaked (usr m1) 4 (At_line (take 199 f) 13), Leaks_found 1, Leak_check 1]"
proof -
  let ?b = "[(m1, block_of c 4 (File f) 13 False)]"
  have sp: "mem_specs (mem_main_ops f m1 m2 m3 m4 m5 c n w v) [] = Some ?b"
    using assms by (simp add: mem_main_ops_def LIST_def block_of_def header_size)
  obtain s where s: "mem_runs (mem_main_ops f m1 m2 m3 m4 m5 c n w v) mem_init = Some s" "mem_repr s ?b"
    using mem_runs_refine [OF mem_repr_init sp] by blast
  have "total_mem_alloc s = 4" using s(2) by (simp add: mem_repr_def block_of_def)
  moreover have "leak_messages ?b = [Leaked (usr m1) 4 (At_line (take 199 f) 13)]"
    by (simp add: leak_messages_def block_of_def print_position_def)
  ultimately show ?thesis using s(1) checkLeaks_step [OF s(2)] by (simp add: mem_main_def)
qed

theorem mem_main_leak_witness:
  "\<exists>s out. mem_main ''main.cpp'' 1000 2000 2000 2000 3000 raw_block 24 (Ptr 7) (Ptr 8) = Some (1, s) \<and> total_mem_alloc s = 4
    \<and> printed s = out @ [Leaked (usr 1000) 4 (At_line ''main.cpp'' 13), Leaks_found 1, Leak_check 1]"
  using mem_main_leak [of 1000 2000 2000 2000 3000 24 "''main.cpp''" raw_block "Ptr 7" "Ptr 8"] by (simp add: LIST_def header_size)

subsection \<open>The log's program\<close>

text \<open>\<open>ok\<close> says whether the file can be opened; the object is destroyed when the program ends.\<close>

definition log_main :: "bool \<Rightarrow> local_time \<Rightarrow> local_time \<Rightarrow> logger option" where
  "log_main ok t u = do {
     (_, s) \<leftarrow> log_init ok t ''./ServerLog'' 0 2000 800000 0 Log;
     s \<leftarrow> write_log ok u 1 ''adjust timer once'' s;
     Some (log_destroy (log_flush s)) }"

lemma log_init_server:
  assumes "time_ok t"
  defines "p \<equiv> day_path ''./'' ''ServerLog'' t"
  shows "\<exists>s. log_init ok t ''./ServerLog'' 0 2000 800000 0 Log = Some (ok, s) \<and> log_ready ''./'' ''ServerLog'' (s\<lparr>m_fp := Some p\<rparr>)
    \<and> m_fp s = (if ok then Some p else None) \<and> file_calls s = [Fopen p ok] \<and> \<not> m_is_async s \<and> m_today s = tm_mday t
    \<and> m_count s = 0 \<and> m_split_lines s = 800000 \<and> m_log_buf_size s = 2000"
proof -
  have l: "last_slash ''./ServerLog'' = Some 1" using last_slash_dir [of "''ServerLog''" "''.''"] by simp
  have n: "strcpy (replicate 128 NUL) ''ServerLog'' = Some (''ServerLog'' @ replicate 119 NUL)"
    by (simp add: strcpy_def flip: replicate_Suc)
  have d: "strncpy (replicate 128 NUL) 0 ''./ServerLog'' 2 = Some (''./'' @ replicate 126 NUL)"
    by (simp add: strncpy_def)
  have c: "cstr (''ServerLog'' @ replicate 119 NUL) 0 = Some ''ServerLog''" "cstr (''./'' @ replicate 126 NUL) 0 = Some ''./''"
    using cstr_zeroed [of "''ServerLog''" 119] cstr_zeroed [of "''./''" 126] by simp_all
  have f: "formatted 256 255 (''./'' @ date_text t @ ''ServerLog'') = Some p"
    using formatted_text [of "''./'' @ date_text t @ ''ServerLog''" 255 256] by (simp add: p_def day_path_def)
  let ?s = "log_open ok p (Log\<lparr>m_log_buf_size := 2000, m_buf := replicate 2000 NUL, m_split_lines := 800000,
      log_name := ''ServerLog'' @ replicate 119 NUL, dir_name := ''./'' @ replicate 126 NUL, m_today := tm_mday t\<rparr>)"
  have "log_init ok t ''./ServerLog'' 0 2000 800000 0 Log = Some (ok, ?s)"
    using n d c f by (simp add: log_init_def l Log_def log_open_def numeral_2_eq_2)
  then show ?thesis using c
    by (intro exI [of _ ?s]) (simp add: log_ready_def log_open_def Log_def)
qed

text \<open>The program opens the file of the day, writes one line into it, flushes and closes it; when the file
  cannot be opened the program goes on all the same and its behaviour is undefined.\<close>

theorem log_main_correct:
  assumes "time_ok t" "time_ok u" "tm_mday u = tm_mday t"
  defines "p \<equiv> day_path ''./'' ''ServerLog'' t"
  shows "(\<exists>s. log_main True t u = Some s
      \<and> file_calls s = [Fclose p, Fflush (Some p), Fputs p (log_line 1 u ''adjust timer once''), Fopen p True])
    \<and> log_main False t u = None"
proof
  have fit: "fits u 1 ''adjust timer once'' 2000"
    using line_prefix_length [OF assms(2), of 1] assms(2) by (simp add: fits_def)
  obtain s where s: "log_init True t ''./ServerLog'' 0 2000 800000 0 Log = Some (True, s)"
    "log_ready ''./'' ''ServerLog'' (s\<lparr>m_fp := Some p\<rparr>)" "m_fp s = Some p" "file_calls s = [Fopen p True]" "\<not> m_is_async s"
    "m_today s = tm_mday t" "m_count s = 0" "m_split_lines s = 800000" "m_log_buf_size s = 2000"
    using log_init_server [OF assms(1), of True] unfolding p_def by auto
  have r: "log_ready ''./'' ''ServerLog'' s" using s(2,3) by (simp add: log_ready_def)
  obtain s' where "write_log True u 1 ''adjust timer once'' s = Some s'" "m_fp s' = Some p"
    "file_calls s' = [Fputs p (log_line 1 u ''adjust timer once''), Fopen p True]"
    using write_log_day [OF r, of u 1 "''adjust timer once''" p] fit s assms(3) by (auto simp: Let_def)
  then show "\<exists>s. log_main True t u = Some s
      \<and> file_calls s = [Fclose p, Fflush (Some p), Fputs p (log_line 1 u ''adjust timer once''), Fopen p True]"
    using s(1) by (simp add: log_main_def log_flush_def log_destroy_def)
  obtain q where q: "log_init False t ''./ServerLog'' 0 2000 800000 0 Log = Some (False, q)" "m_fp q = None" "\<not> m_is_async q"
    "m_today q = tm_mday t" "m_count q = 0" "m_split_lines q = 800000"
    using log_init_server [OF assms(1), of False] by auto
  have "count_line False u q = Some (q\<lparr>m_count := 1\<rparr>)"
    using q(4-6) assms(3) by (simp add: count_line_def add_ll_def must_rotate_def smod_pos)
  moreover have "m_fp q' = m_fp q \<and> m_is_async q' = m_is_async q"
    if "format_line l u msg (q\<lparr>m_count := 1\<rparr>) = Some (x, q')" for l msg x q'
    using that by (auto simp: format_line_def Let_def split: Option.bind_splits if_splits)
  ultimately have "write_log False u 1 ''adjust timer once'' q = None"
    using q(2,3) by (fastforce simp: write_log_def goes_to_queue_def file_line_def split: Option.bind_splits)
  then show "log_main False t u = None" using q(1) by (simp add: log_main_def)
qed

theorem log_main_correct_witness:
  "\<exists>s. log_main True sample_time sample_time = Some s \<and> length (file_calls s) = 4"
  using log_main_correct [of sample_time sample_time] by (auto simp: sample_time_def time_ok_def)

subsection \<open>The program of the container classes\<close>

text \<open>The strings: \<open>z1\<close> to \<open>z5\<close> are the addresses of the allocations up to the addition.\<close>

definition stl_cstrings :: "(nat \<Rightarrow> char) \<Rightarrow> nat \<Rightarrow> nat \<Rightarrow> nat \<Rightarrow> nat \<Rightarrow> nat \<Rightarrow> str_heap \<Rightarrow> (string list \<times> str_heap) option" where
  "stl_cstrings junk z1 z2 z3 z4 z5 h = do {
     (str, h) \<leftarrow> cs_new junk z1 (Some ''hello my string'') h;
     out0 \<leftarrow> heap_string h (m_data str);
     (str1, h) \<leftarrow> cs_copy junk z2 str h;
     out1 \<leftarrow> heap_string h (m_data str1);
     (tmp, h) \<leftarrow> cs_new junk z3 (Some ''+ world'') h;
     (str2, h) \<leftarrow> cs_plus junk z4 z5 str1 tmp h;
     h \<leftarrow> cs_destroy tmp h;
     out2 \<leftarrow> heap_string h (m_data str2);
     Some ([out0, out1, out2], h) }"

text \<open>The vectors of numbers and of strings: size and capacity, and the elements.\<close>

definition stl_ints :: "int list \<Rightarrow> (nat \<times> nat) option" where
  "stl_ints xs = do {
     let v = vec_new_size 1;
     v \<leftarrow> push_back (Own (xs ! 0)) v;
     v \<leftarrow> push_back (Own (xs ! 1)) v;
     Some (vec_size v, vec_capacity v) }"

definition stl_strings :: "(nat \<times> nat \<times> string option list) option" where
  "stl_strings = do {
     let v = vec_new_fill 1 ''cc'';
     v \<leftarrow> push_back (Own ''aa'') v;
     v \<leftarrow> push_back (Own ''bb'') v;
     v \<leftarrow> vec_insert_one False 2 (Own ''dd'') v;
     Some (vec_size v, vec_capacity v, map (cell_read (cells_of v)) [0..<vec_size v]) }"

text \<open>The specialisations of \<open>TestTemplate\<close>: which constructor a pair of arguments selects.\<close>

datatype cpp_type = Plain string | Pointer cpp_type | Const_ref cpp_type

fun TestTemplate :: "cpp_type \<Rightarrow> cpp_type \<Rightarrow> string" where
  "TestTemplate (Pointer a) (Pointer b) = '' T1* T2* '' @ [LF]"
| "TestTemplate (Const_ref a) (Const_ref b) = ''const T1 T2 '' @ [LF]"
| "TestTemplate a b = '' T1 T2 '' @ [LF]"

text \<open>The addition of the strings writes outside its array whatever the addresses are, and the insertion into
  the vector of strings assigns to a string that does not exist: both are undefined.  The vector of numbers has
  three elements and room for four.\<close>

theorem stl_main_undefined:
  assumes "distinct [z1, z2, z3, z4, z5]" "\<forall>z \<in> {z1, z2, z3, z4, z5}. h (Ptr z) = None"
  shows "stl_cstrings junk z1 z2 z3 z4 z5 h = None \<and> stl_strings = None \<and> stl_ints [2, 4] = Some (3, 4)"
proof (intro conjI)
  let ?a = "''hello my string''" and ?b = "''+ world''"
  let ?h1 = "h(Ptr z1 \<mapsto> \<lparr>new_array = True, block_chars = ?a @ [NUL]\<rparr>)"
  let ?h2 = "?h1(Ptr z2 \<mapsto> \<lparr>new_array = True, block_chars = ?a @ [NUL]\<rparr>)"
  let ?h3 = "?h2(Ptr z3 \<mapsto> \<lparr>new_array = True, block_chars = ?b @ [NUL]\<rparr>)"
  have n: "NUL \<notin> set ?a" "NUL \<notin> set ?b" by simp_all
  have 1: "cs_new junk z1 (Some ?a) h = Some (\<lparr>m_data = Ptr z1\<rparr>, ?h1)" "cs_new junk z3 (Some ?b) ?h2 = Some (\<lparr>m_data = Ptr z3\<rparr>, ?h3)"
    by (rule cs_new_run [OF n(1)], simp, rule cs_new_run [OF n(2)], simp)
  have s: "heap_string ?h1 (Ptr z1) = Some ?a" "heap_string ?h2 (Ptr z2) = Some ?a" "heap_string ?h3 (Ptr z3) = Some ?b"
    using heap_string_block n by blast+
  have 2: "cs_copy junk z2 \<lparr>m_data = Ptr z1\<rparr> ?h1 = Some (\<lparr>m_data = Ptr z2\<rparr>, ?h2)"
    by (rule cs_copy_run) (use s(1) assms(1) in simp_all)
  have "heap_string ?h3 (Ptr z2) = Some ?a" using s(2) assms(1) by (simp add: heap_string_other)
  then have hs: "holds_string ?h3 \<lparr>m_data = Ptr z2\<rparr> ?a" "holds_string ?h3 \<lparr>m_data = Ptr z3\<rparr> ?b"
    using s(3) assms(1) by (simp_all add: holds_string_def rd_def)
  have "cs_plus junk z4 z5 \<lparr>m_data = Ptr z2\<rparr> \<lparr>m_data = Ptr z3\<rparr> ?h3 = None"
    by (rule cs_failures [THEN conjunct1, OF hs]) (use assms in auto)
  then show "stl_cstrings junk z1 z2 z3 z4 z5 h = None"
    unfolding stl_cstrings_def by (simp only: 1 2 s bind.bind_lunit prod.case cstring.select_convs bind.bind_lzero)
  have sz: "size_t n = n" if "n < 9" for n using that by (simp add: size_t_id)
  note vec_steps = push_back_def vec_insert_def vec_new_fill_def vec_destroy_def vec_size_def vec_capacity_def cells_of_def
    deref_def cell_read_def cell_construct_def cell_assign_def cell_destroy_def sz vec_new_def eval_nat_numeral
  show "stl_strings = None" by (simp add: stl_strings_def vec_insert_one_def vec_steps)
  show "stl_ints [2, 4] = Some (3, 4)" by (simp add: stl_ints_def vec_new_size_def vec_steps)
qed

theorem stl_main_undefined_witness:
  "stl_cstrings (\<lambda>_. CHR ''?'') 1 2 3 4 5 (\<lambda>_. None) = None \<and> stl_strings = None \<and> stl_ints [2, 4] = Some (3, 4)"
  using stl_main_undefined [of 1 2 3 4 5 "\<lambda>_. None" "\<lambda>_. CHR ''?''"] by simp

end
