(* ===== verification/Spec2Isabelle.thy ===== *)
theory Spec2Isabelle
  imports RBTree_Props BSTree_Props BlockQueue_Threads ThreadPool TimerWheel_Props HttpConn_Chunks MemDetect CVector CStringMod WebServer_Serve ProcessPool_Child WinClient TestUtil ClientSocket_Props Logger_Threads DBManager Dispatcher Patterns Drawing
    RBTree_Main Console Programs
begin

text \<open>
  A verification library for the repository controls: small C++ programs, each of which is a data
  structure, a piece of a network server or client, or an example of a design.  All paths below are
  below src/.

  \<^bold>\<open>The programs and how they interact\<close>

  The directory epoll is a web server with what it needs.  \<open>CWebServer::run\<close> waits for events with
  \<open>epoll_wait\<close>.  A new connection becomes an \<open>http_conn\<close> and gets a timer in the \<open>time_wheel\<close>; when
  bytes arrive, \<open>http_conn::read\<close> stores them, the timer is put off and the connection is appended
  to the \<open>threadpool\<close>, one of whose workers calls \<open>http_conn::process\<close>: it parses the request, looks
  up the file and fills the write buffer; when the socket is writable, \<open>http_conn::write\<close> sends the
  answer.  A signal handler writes the number of the signal into a socket pair (\<open>util.h\<close>); an alarm
  leads to \<open>time_wheel::tick\<close>, whose callback closes the connection.  The same directory has a process
  pool (a parent hands connections to children, each of which serves \<open>CProcessUser\<close> objects), an echo
  server with three loops, a client that reconnects, a load generator and a log with a bounded queue
  between the writers and a thread that empties it.  The directory log is a copy of this log,
  clientsocket-cmake has the echo server and the client for Windows.  TestDB is a window that hands
  requests to two database threads.  algorithm has two search trees, mystl a vector and a string,
  memoryleak an allocation tracker, designpattern four examples.

  \<^bold>\<open>How code becomes definitions\<close>

  \<^item> A function of the source is a definition with its name, with a prefix where two classes have
    functions of the same name; statements are in the order of the source, guards and early returns
    included.  Undefined behaviour (null or freed pointers, an index out of bounds, signed overflow,
    a missing NUL, a failed \<open>assert\<close>) is \<^const>\<open>None\<close>, so a theorem that ends in
    \<^const>\<open>Some\<close> says that the code gets to its end without it.
  \<^item> Objects that are shared through pointers live in a heap, a partial map from pointers to cells
    (\<open>Prelude\<close>), which is passed along.  A pointer into an array is an index; integers whose
    wrap-around or overflow matters are words or have the bound written out.
  \<^item> What the operating system answers (\<open>recv\<close>, \<open>accept\<close>, \<open>select\<close>, \<open>fork\<close>, \<open>stat\<close>, the addresses that
    \<open>new\<close> returns, what an SQL query gives) is an argument: a value, a list of the answers in the order
    of the calls, or a function of a counter of the calls.  The calls the program makes and the lines
    it prints are a trace in its state, the last one first.
  \<^item> A loop over a list of answers ends with the list, so this list is its fuel: a theorem about any
    list of answers is about any number of rounds.  A loop that ends because of the data (the walks in
    a tree, the loops of the clients) is a \<^theory_text>\<open>partial_function (option)\<close>, and that it ends is
    proved.  There is no other fuel.
  \<^item> Threads are steps on a common state: one statement or one part that holds the mutex is one step, and
    the theorems hold for every sequence of steps.  That a part that holds the mutex may be taken as one
    step is proved for the blocking queue, whose calls interleave statement by statement in
    \<open>BlockQueue_Threads\<close>; for the other parts the mutex is taken to exclude the others.  All memory
    accesses are sequentially consistent.

  \<^bold>\<open>Which theory models what\<close>

  \<^item> \<open>Prelude\<close>: pointers, heaps, results; the rules \<open>heap_simps\<close> and \<open>shape_simps\<close>.  \<open>PtrTree\<close> and
    \<open>DList\<close>: trees with parent pointers and doubly linked lists in a heap, with the locales of
    their nodes and of the walks on them.  \<open>QueueSpec\<close>: the locale of a bounded queue.  \<open>CText\<close>: the
    functions of the C library on strings.  \<open>Posix\<close>: the calls of the system and \<open>epoll/util.h\<close>.
  \<^item> \<open>RBTree\<close>: the class of \<open>algorithm/rbtree.h\<close>.  \<open>RBTree_Heap\<close> shows what the routines do that do not
    rebalance, \<open>RBTree_Insert\<close>, \<open>RBTree_Remove\<close> and \<open>RBTree_Delete\<close> that insertion and removal keep the
    invariants of colour and height and the order, \<open>RBTree_Props\<close> what a user of the tree gets: the
    contents, the bound on the height, and that every history of operations goes on.  \<open>RBTree_Main\<close>:
    \<open>algorithm/main.cpp\<close>, what it prints and that it leaves all nodes but one allocated.
  \<^item> \<open>BSTree\<close>, \<open>BSTree_Props\<close>: \<open>algorithm/binarytree.h\<close>, with the same locales; the iterative
    insertion is correct and the recursive one is not.
  \<^item> \<open>BlockQueue\<close>: \<open>epoll/block_queue.h\<close>, a ring buffer that is shown to be a bounded queue.  \<open>Locker\<close>:
    the semaphore, the mutex and the condition variable of \<open>epoll/locker.h\<close> and \<open>log/locker.h\<close>.
    \<open>BlockQueue_Threads\<close>: the calls of many threads on one queue, statement by statement on these: every
    interleaving gives the results of the calls one after the other in the order in which they get the
    mutex, and no wake-up is lost.
    \<open>ThreadPool\<close>: \<open>epoll/threadpool.h\<close> as an interleaving of workers and clients: mutual exclusion, order,
    no lost wake-up.  \<open>TimerWheel\<close>, \<open>TimerWheel_Props\<close>: \<open>epoll/timerwheel.h\<close>, refined to a set of
    timers with the ticks that remain.
  \<^item> \<open>HttpConn\<close>: \<open>epoll/http_conn.h\<close> and \<open>epoll/http_conn.cpp\<close>.  \<open>HttpConn_Line\<close> and \<open>HttpConn_Request\<close>
    compare the two scanners with functions on strings, \<open>HttpConn_Read\<close> proves the invariant of a
    connection and that reading and parsing stay inside the buffers, \<open>HttpConn_Props\<close> is about bodies,
    \<open>HttpConn_Answer\<close> about the answers, \<open>HttpConn_Chunks\<close> about requests in pieces, and
    \<open>HttpConn_Serve\<close> composes them: from the text of a request to the text of its answer.
  \<^item> \<open>WebServer\<close>, \<open>WebServer_Props\<close>: \<open>epoll/webserver.h\<close> and \<open>epoll/webserver.cpp\<close> over the connections, the
    wheel and the queue of the pool: timeouts, and what is left behind when a connection is closed.
    \<open>WebServer_Serve\<close> composes everything: a client connects, sends requests and gets its answers.
  \<^item> \<open>ProcessUser\<close>: \<open>epoll/processuser.h\<close> and \<open>epoll/processuser.cpp\<close>.  \<open>ProcessPool\<close>,
    \<open>ProcessPool_Props\<close>, \<open>ProcessPool_Child\<close>: \<open>epoll/processpoolserver.h\<close>, whose template parameter is a
    locale there, interpreted on \<open>ProcessUser\<close>.
  \<^item> \<open>HelloServer\<close>, \<open>HelloServer_Props\<close>: \<open>epoll/helloserver.h\<close> and \<open>epoll/helloserver.cpp\<close>;
    \<open>WinServer\<close>: the same for Windows in clientsocket-cmake.  \<open>ClientSocket\<close>, \<open>ClientSocket_Props\<close>:
    \<open>epoll/clientsocket.h\<close> and \<open>epoll/clientsocket.cpp\<close>; \<open>WinClient\<close>: the same for Windows in
    clientsocket-cmake.  \<open>TestUtil\<close>: \<open>epoll/testutil.cpp\<close>.  \<open>Console\<close>:
    the callbacks and the console clients of \<open>epoll/main.cpp\<close>.
  \<^item> \<open>Logger\<close>: \<open>epoll/log.h\<close> and \<open>epoll/log.cpp\<close> on the queue of \<open>BlockQueue\<close>; \<open>Logger_Props\<close> is about
    one thread, \<open>Logger_Threads\<close> about any number of threads.
  \<^item> \<open>DBThread\<close>: \<open>TestDB/dbthread.h\<close>, \<open>TestDB/dbthread.cpp\<close> and the handlers of \<open>TestDB/mainwindow.cpp\<close>;
    \<open>DBManager\<close>: \<open>TestDB/dbmanager.cpp\<close>, with all threads of that program.
  \<^item> \<open>Dispatcher\<close>, \<open>Patterns\<close>, \<open>Drawing\<close>: the examples of designpattern, each with its part of
    \<open>designpattern/main.cpp\<close>.
  \<^item> \<open>MemDetect\<close>: \<open>memoryleak/memorydetect.cc\<close>, refined to a list of live blocks.  \<open>CVector\<close>,
    \<open>CStringMod\<close>: \<open>mystl/vector.h\<close> without its copy constructor, which cannot be instantiated, refined
    to lists, and \<open>mystl/cstring.h\<close>.  \<open>Programs\<close>:
    the programs of the directories memoryleak, log and mystl.

  \<^bold>\<open>What does not hold\<close>

  Most theorems say that the code does what it is meant to do.  Some record where it does not: a body
  that comes in two pieces is never answered, a hang-up leaves a timer behind that later closes the
  connection of another client, a connection that times out stays in the count of users and can still
  have an event, the log may write the line of a full queue before the lines that wait, the client
  for Windows does not connect again, the database threads race, and their program fails at the first
  press of its button when it has just created its table, the destructor of the thread pool destroys
  what its workers still use, a request for an empty file is not answered, a client whose server is
  silent does not stop, a log whose next file cannot be opened writes to a null pointer, the
  allocation tracker overruns its block when the size is near the largest number, the console client shows the rest of an earlier message behind a shorter one.
  Their texts say so.

  \<^bold>\<open>Not modelled\<close>

  \<^item> Of the main programs: in \<open>epoll/main.cpp\<close> how the console client is set up and ended, in \<open>mystl/main.cpp\<close>
    what comes after the addition of the strings, whose behaviour is undefined, and the clients of
    \<open>clientsocket-cmake/main.cpp\<close>, which are those of \<open>epoll/main.cpp\<close>.
  \<^item> Of \<open>mystl/simpletemplate.h\<close> and \<open>mystl/simpletemplate.cpp\<close> all but the choice of a specialisation: one
    function cannot be instantiated, and the others compare floating-point numbers.  \<open>TestDB/main.cpp\<close>,
    \<open>TestDB/mainwindow.h\<close> and the project files: calls of the widget library.
  \<^item> The branches for Windows of the files in epoll; the directory clientsocket-cmake has them in a
    version of its own, which is modelled.  Its branches that are not for Windows are not.
  \<^item> The content of the buffers of the C library, \<open>errno\<close> where the code only prints it, and time
    except as an answer of the system.
\<close>

end
